(* ===== verification/Ens_Prelude.thy ===== *)
theory Ens_Prelude
  imports Complex_Main "HOL-Library.Word"
begin

text \<open>
  Shared vocabulary of the development: the machine integers of the code, the two
  big-endian byte conversions every codec uses, and the collections that the proofs of the
  components draw on.

  \<^item> \<open>u8\<close>, \<open>u16\<close>, \<open>u32\<close>, \<open>u64\<close> are \<open>uint8_t\<close> \<dots> \<open>uint64_t\<close>; their arithmetic wraps.
  \<^item> \<open>hi8\<close>, \<open>lo8\<close> and \<open>mk16\<close> are the expressions \<open>x >> 8\<close>, \<open>x & 0xFF\<close> and
    \<open>(p[0] << 8) | p[1]\<close> with their casts.
  \<^item> \<open>codec\<close> collects the rewrite rules of byte codecs, \<open>inv_intros\<close> the preservation
    lemmas of state invariants.
\<close>

unbundle bit_operations_syntax

named_theorems codec "rewrite rules of the byte codecs"
named_theorems inv_intros "preservation of state invariants, one rule per operation"

type_synonym u8 = "8 word"
type_synonym u16 = "16 word"
type_synonym u32 = "32 word"
type_synonym u64 = "64 word"
type_synonym bytes = "8 word list"

section \<open>32-bit \<open>int\<close>\<close>

text \<open>The value a result of \<open>int\<close> arithmetic has at the width of the type. An overflow of a
  signed \<open>int\<close> is undefined in C++; where a product of the code can leave the range it is
  written with this function, which gives the two's complement result, and the theorems that
  need the product state the range as a hypothesis.\<close>

definition int32 :: "int \<Rightarrow> int" where
  "int32 i = signed_take_bit 31 i"

lemma int32_id [simp]: "- (2 ^ 31) \<le> i \<Longrightarrow> i < 2 ^ 31 \<Longrightarrow> int32 i = i"
  by (simp add: int32_def signed_take_bit_int_eq_self)

section \<open>Bytes of a 16-bit value\<close>

definition hi8 :: "u16 \<Rightarrow> u8" where
  "hi8 x = ucast (drop_bit 8 x)"

definition lo8 :: "u16 \<Rightarrow> u8" where
  "lo8 x = ucast (x AND 255)"

definition mk16 :: "u8 \<Rightarrow> u8 \<Rightarrow> u16" where
  "mk16 h l = push_bit 8 (ucast h) OR ucast l"

lemma bit_u16_high: "bit (x :: u16) n \<Longrightarrow> n < 16"
  using bit_imp_le_length [of x n] by simp

lemma bit_u8_high: "bit (x :: u8) n \<Longrightarrow> n < 8"
  using bit_imp_le_length [of x n] by simp

lemma bit_u16_out [simp]: "16 \<le> n \<Longrightarrow> \<not> bit (x :: u16) n"
  by (auto dest: bit_u16_high)

lemma bit_u8_out [simp]: "8 \<le> n \<Longrightarrow> \<not> bit (x :: u8) n"
  by (auto dest: bit_u8_high)

lemma unat_u8_less [simp]: "unat (x :: u8) < 256"
  by (rule order_less_le_trans [OF unsigned_less]) simp

lemma unat_u16_less [simp]: "unat (x :: u16) < 65536"
  by (rule order_less_le_trans [OF unsigned_less]) simp

lemma unat_ucast_u8_u16 [simp]: "unat (ucast (x :: u8) :: u16) = unat x"
proof -
  have "unat x < 2 ^ 16" by (rule less_trans [OF unat_u8_less]) simp
  then show ?thesis by (simp add: unsigned_ucast_eq take_bit_nat_eq_self)
qed

lemma unat_ucast_u32_u64 [simp]: "unat (ucast (x :: u32) :: u64) = unat x"
proof -
  have "unat x < 2 ^ 64" by (rule order_less_le_trans [OF unsigned_less]) simp
  then show ?thesis by (simp add: unsigned_ucast_eq take_bit_nat_eq_self)
qed

lemma unat_ucast_u32_u16: "unat (ucast (x :: u32) :: u16) = unat x mod 2 ^ 16"
  by (simp add: unsigned_ucast_eq take_bit_eq_mod)

lemma and_255 [codec]: "(x :: u16) AND 255 = take_bit 8 x"
proof -
  have "(255 :: u16) = mask 8"
    by (simp add: mask_eq_exp_minus_1)
  then show ?thesis
    by (simp only: take_bit_eq_mask)
qed

lemma mk16_hi8_lo8 [simp, codec]: "mk16 (hi8 x) (lo8 x) = x"
proof (rule bit_eqI)
  fix n
  assume "possible_bit TYPE(u16) n"
  then have "n < 16" by simp
  then show "bit (mk16 (hi8 x) (lo8 x)) n \<longleftrightarrow> bit x n"
    by (auto simp: mk16_def hi8_def lo8_def and_255 bit_simps)
qed

lemma hi8_mk16 [simp, codec]: "hi8 (mk16 h l) = h"
proof (rule bit_eqI)
  fix n
  assume "possible_bit TYPE(u8) n"
  then have "n < 8" by simp
  then show "bit (hi8 (mk16 h l)) n \<longleftrightarrow> bit h n"
    by (auto simp: mk16_def hi8_def bit_simps dest: bit_u8_high)
qed

lemma lo8_mk16 [simp, codec]: "lo8 (mk16 h l) = l"
proof (rule bit_eqI)
  fix n
  assume "possible_bit TYPE(u8) n"
  then have "n < 8" by simp
  then show "bit (lo8 (mk16 h l)) n \<longleftrightarrow> bit l n"
    by (auto simp: mk16_def lo8_def and_255 bit_simps)
qed

lemma mk16_inject [simp]: "mk16 h l = mk16 h' l' \<longleftrightarrow> h = h' \<and> l = l'"
  by (metis hi8_mk16 lo8_mk16)

lemma mk16_zero [simp]: "mk16 0 0 = 0"
  by (simp add: mk16_def)

lemma hi8_zero [simp]: "hi8 0 = 0" and lo8_zero [simp]: "lo8 0 = 0"
  by (simp_all add: hi8_def lo8_def)

text \<open>The value a pair of bytes stands for.\<close>

lemma unat_mk16: "unat (mk16 h l) = 256 * unat h + unat l"
proof -
  have "push_bit 8 (ucast h :: u16) OR ucast l = push_bit 8 (ucast h) + ucast l"
    by (rule disjunctive_add [symmetric]) (auto simp: bit_simps dest: bit_u8_high)
  moreover have "unat (push_bit 8 (ucast h :: u16)) = 256 * unat h"
  proof -
    have "256 * unat h < 2 ^ 16" using unat_u8_less [of h] by simp
    then show ?thesis
      by (simp add: push_bit_eq_mult unat_word_ariths mult.commute)
  qed
  moreover have "256 * unat h + unat l < 2 ^ 16"
    using unat_u8_less [of h] unat_u8_less [of l] by (simp del: unat_u8_less)
  ultimately show ?thesis
    by (simp add: mk16_def unat_word_ariths)
qed

section \<open>Big-endian 16-bit words in byte lists\<close>

text \<open>\<open>writeU16BE\<close> appends, \<open>readU16BE\<close> reads two bytes at an offset
  (\<^verbatim>\<open>apps/ens_app/src/protocol/ModbusFrame.cpp\<close>).\<close>

definition u16be :: "u16 \<Rightarrow> bytes" where
  "u16be x = [hi8 x, lo8 x]"

definition readU16BE :: "bytes \<Rightarrow> nat \<Rightarrow> u16" where
  "readU16BE p i = mk16 (p ! i) (p ! Suc i)"

definition writeU16BE :: "bytes \<Rightarrow> u16 \<Rightarrow> bytes" where
  "writeU16BE v x = v @ [hi8 x] @ [lo8 x]"

lemma writeU16BE_eq [simp, codec]: "writeU16BE v x = v @ u16be x"
  by (simp add: writeU16BE_def u16be_def)

lemma length_u16be [simp, codec]: "length (u16be x) = 2"
  by (simp add: u16be_def)

lemma length_concat_u16be [simp, codec]: "length (concat (map u16be vs)) = 2 * length vs"
  by (induction vs) simp_all

text \<open>A run of big-endian words, read back two bytes at a time.\<close>

fun words_be :: "bytes \<Rightarrow> u16 list" where
  "words_be (h # l # bs) = mk16 h l # words_be bs"
| "words_be _ = []"

lemma words_be_concat [simp, codec]: "words_be (concat (map u16be vs)) = vs"
  by (induction vs) (simp_all add: u16be_def)

lemma concat_words_be: "even (length bs) \<Longrightarrow> concat (map u16be (words_be bs)) = bs"
  by (induction bs rule: words_be.induct) (simp_all add: u16be_def)

lemma length_words_be: "length (words_be bs) = length bs div 2"
  by (induction bs rule: words_be.induct) simp_all

section \<open>Circular buffers\<close>

text \<open>The \<open>n\<close> cells of a circular buffer from index \<open>r\<close> on, as a list.\<close>

definition ring :: "'a list \<Rightarrow> nat \<Rightarrow> nat \<Rightarrow> nat \<Rightarrow> 'a list" where
  "ring buf cap r n = map (\<lambda>i. buf ! ((r + i) mod cap)) [0..<n]"

lemma mod_shift_inject:
  assumes "i < n" and "j < n"
  shows "(r + i) mod n = (r + j) mod n \<longleftrightarrow> i = (j :: nat)"
proof
  assume "(r + i) mod n = (r + j) mod n"
  then obtain p q where "r + i + n * p = r + j + n * q"
    by (auto simp: nat_mod_eq_iff)
  then have "i mod n = j mod n"
    by (auto simp: nat_mod_eq_iff)
  with assms show "i = j" by simp
qed simp

lemma mod_advance: "n \<le> s \<Longrightarrow> ((r + n) mod c + s - n) mod c = (r + s) mod (c :: nat)"
proof -
  assume "n \<le> s"
  then have shift: "(r + n) mod c + s - n = (r + n) mod c + (s - n)" and sum: "r + n + (s - n) = r + s"
    by simp_all
  show ?thesis by (simp only: shift mod_add_left_eq sum)
qed

lemma length_ring [simp]: "length (ring buf cap r n) = n"
  by (simp add: ring_def)

lemma ring_nth [simp]: "i < n \<Longrightarrow> ring buf cap r n ! i = buf ! ((r + i) mod cap)"
  by (simp add: ring_def)

lemma ring_push:
  assumes "length buf = cap" and "n < cap"
  shows "ring (buf[(r + n) mod cap := x]) cap r (Suc n) = ring buf cap r n @ [x]"
proof (rule nth_equalityI)
  fix i
  assume "i < length (ring (buf[(r + n) mod cap := x]) cap r (Suc n))"
  then show "ring (buf[(r + n) mod cap := x]) cap r (Suc n) ! i = (ring buf cap r n @ [x]) ! i"
    using assms mod_shift_inject [of i cap n r]
    by (auto simp: ring_def nth_append nth_list_update less_Suc_eq simp del: upt_Suc)
qed simp

lemma ring_drop:
  assumes "k \<le> n"
  shows "ring buf cap ((r + k) mod cap) (n - k) = drop k (ring buf cap r n)"
  by (rule nth_equalityI) (use assms in \<open>auto simp: mod_simps add.assoc\<close>)

lemma ring_push_full:
  assumes "length buf = cap" and "0 < cap"
  shows "ring (buf[(r + cap) mod cap := x]) cap ((r + 1) mod cap) cap = tl (ring buf cap r cap) @ [x]"
proof -
  from assms obtain m where m: "cap = Suc m" by (cases cap) auto
  have "(r + cap) mod cap = ((r + 1) mod cap + m) mod cap"
    by (simp add: m mod_simps)
  then have "ring (buf[(r + cap) mod cap := x]) cap ((r + 1) mod cap) (Suc m) =
      ring buf cap ((r + 1) mod cap) m @ [x]"
    using ring_push [OF assms(1), of m "(r + 1) mod cap" x] m by simp
  moreover have "ring buf cap ((r + 1) mod cap) (cap - 1) = tl (ring buf cap r cap)"
    using ring_drop [of 1 cap buf cap r] assms(2) by (simp add: drop_Suc)
  ultimately show ?thesis by (simp add: m)
qed

section \<open>Decimal numerals\<close>

text \<open>\<open>QString::number\<close> and \<open>std::to_string\<close> of an unsigned number.\<close>

fun show_nat :: "nat \<Rightarrow> string" where
  "show_nat n =
     (if n < 10 then [char_of (48 + n)] else show_nat (n div 10) @ [char_of (48 + n mod 10)])"

declare show_nat.simps [simp del]

definition digits_value :: "string \<Rightarrow> nat" where
  "digits_value cs = foldl (\<lambda>v c. 10 * v + (of_char c - 48)) 0 cs"

lemma digit_value: "d < 10 \<Longrightarrow> of_char (char_of (48 + d) :: char) - 48 = (d :: nat)"
  by (simp add: of_char_of take_bit_nat_eq_self)

lemma digits_value_show: "digits_value (show_nat n) = n"
proof (induction n rule: show_nat.induct)
  case (1 n)
  show ?case
  proof (cases "n < 10")
    case True
    then show ?thesis by (simp add: show_nat.simps [of n] digits_value_def digit_value)
  next
    case False
    with 1 have "digits_value (show_nat (n div 10)) = n div 10" by simp
    with False show ?thesis
      by (simp add: show_nat.simps [of n] digits_value_def digit_value)
  qed
qed

lemma show_nat_inject [simp]: "show_nat m = show_nat n \<longleftrightarrow> m = n"
  by (metis digits_value_show)

section \<open>Maps and finite sets of keys\<close>

lemma dom_restrict_upd [simp]: "dom (m(k := None)) = dom m - {k}"
  by auto

section \<open>Stable sorting\<close>

lemma sort_key_map: "sort_key f (map g xs) = map g (sort_key (f \<circ> g) xs)"
proof -
  have "insort_key f (g x) (map g xs) = map g (insort_key (f \<circ> g) x xs)" for x xs
    by (induction xs) simp_all
  then show ?thesis by (induction xs) simp_all
qed

lemma sort_key_cong: "(\<And>x. x \<in> set xs \<Longrightarrow> f x = g x) \<Longrightarrow> sort_key f xs = sort_key g xs"
proof (induction xs)
  case (Cons x xs)
  have ins: "\<forall>y \<in> set ys. f y = g y \<Longrightarrow> f x = g x \<Longrightarrow> insort_key f x ys = insort_key g x ys" for ys
    by (induction ys) simp_all
  have "insort_key f x (sort_key g xs) = insort_key g x (sort_key g xs)"
    by (rule ins) (simp_all add: Cons.prems)
  with Cons show ?case by simp
qed simp

end
