(* ===== verification/Crc16.thy ===== *)
theory Crc16
  imports Ens_Prelude
begin

text \<open>
  CRC-16/MODBUS of both tracks: the table-driven routine of
  \<^verbatim>\<open>apps/ens_app/src/protocol/Crc16.h\<close>, the bitwise one inside
  \<^verbatim>\<open>ModbusStreamAccumulator::crcValid\<close> and the simulator's copy in
  \<^verbatim>\<open>apps/device_simulator/src/core/crc16.cpp\<close>. The lemmas show that the three compute
  the same value, that the check accepts exactly the frames that end in their own CRC (low
  byte first), and that the check rejects every frame with one corrupted byte.
\<close>

section \<open>The code\<close>

text \<open>One iteration of the bit loop.\<close>

definition crc_bit :: "u16 \<Rightarrow> u16" where
  "crc_bit crc = (if crc AND 1 \<noteq> 0 then drop_bit 1 crc XOR 0xA001 else drop_bit 1 crc)"

text \<open>\<open>crc16ModbusEntry\<close>: eight iterations from \<open>index\<close>.\<close>

definition crc16ModbusEntry :: "u8 \<Rightarrow> u16" where
  "crc16ModbusEntry index = (crc_bit ^^ 8) (ucast index)"

definition kCrc16ModbusTable :: "u16 list" where
  "kCrc16ModbusTable = map (\<lambda>i. crc16ModbusEntry (of_nat i)) [0..<256]"

definition crc_step :: "u16 \<Rightarrow> u8 \<Rightarrow> u16" where
  "crc_step crc b = drop_bit 8 crc XOR kCrc16ModbusTable ! unat ((crc XOR ucast b) AND 255)"

definition crc16Modbus :: "bytes \<Rightarrow> u16" where
  "crc16Modbus data = foldl crc_step 0xFFFF data"

text \<open>\<open>crc16ModbusVerify(frame, totalLen)\<close>; the pointer's null case is not modelled, a
  byte list always exists.\<close>

definition crc16ModbusVerify :: "bytes \<Rightarrow> bool" where
  "crc16ModbusVerify frame =
     (if length frame < 4 then False
      else let calc = crc16Modbus (take (length frame - 2) frame);
               recv = mk16 (frame ! (length frame - 1)) (frame ! (length frame - 2))
           in calc = recv)"

text \<open>The two split tables.\<close>

definition kCrcHi :: "u8 list" where
  "kCrcHi = map (\<lambda>i. hi8 (crc16ModbusEntry (of_nat i))) [0..<256]"

definition kCrcLo :: "u8 list" where
  "kCrcLo = map (\<lambda>i. lo8 (crc16ModbusEntry (of_nat i))) [0..<256]"

text \<open>The accumulator's loop: no table, the byte is XORed in and eight bit steps follow.\<close>

definition crc_step_bitwise :: "u16 \<Rightarrow> u8 \<Rightarrow> u16" where
  "crc_step_bitwise crc b = (crc_bit ^^ 8) (crc XOR ucast b)"

definition crc_bitwise :: "bytes \<Rightarrow> u16" where
  "crc_bitwise data = foldl crc_step_bitwise 0xFFFF data"

text \<open>The simulator's copy.\<close>

definition sim_tableEntry :: "u8 \<Rightarrow> u16" where
  "sim_tableEntry index =
     fold (\<lambda>_ crc. if crc AND 1 \<noteq> 0 then drop_bit 1 crc XOR 0xA001 else drop_bit 1 crc)
       [0..<8] (ucast index)"

definition sim_kTable :: "u16 list" where
  "sim_kTable = map (\<lambda>i. sim_tableEntry (of_nat i)) [0..<256]"

definition crc16_modbus :: "bytes \<Rightarrow> u16" where
  "crc16_modbus data =
     foldl (\<lambda>crc b. drop_bit 8 crc XOR sim_kTable ! unat ((crc XOR ucast b) AND 255)) 0xFFFF data"

section \<open>The bit step is linear and injective\<close>

lemma crc_bit_odd: "crc_bit x = (if bit x 0 then drop_bit 1 x XOR 0xA001 else drop_bit 1 x)"
  by (simp add: crc_bit_def and_one_eq bit_0 odd_iff_mod_2_eq_one)

lemma xor_right_cancel: "(a XOR c = b XOR c) \<longleftrightarrow> a = (b :: u16)"
  by (metis xor.assoc xor.right_neutral xor_self_eq)

lemma crc_bit_xor: "crc_bit (x XOR y) = crc_bit x XOR crc_bit y"
  by (auto simp: crc_bit_odd bit_simps drop_bit_xor ac_simps xor.left_commute
      xor_self_eq simp flip: xor.assoc)

lemma crc_bits_xor: "(crc_bit ^^ n) (x XOR y) = (crc_bit ^^ n) x XOR (crc_bit ^^ n) y"
  by (induction n) (simp_all add: crc_bit_xor)

lemma bit_A001: "bit (0xA001 :: u16) 15"
  by simp

lemma crc_bit_inj: "crc_bit x = crc_bit y \<Longrightarrow> x = y"
proof -
  assume eq: "crc_bit x = crc_bit y"
  have top: "bit (crc_bit z) 15 = bit z 0" for z
    by (auto simp: crc_bit_odd bit_simps dest: bit_u16_high)
  from eq have low: "bit x 0 = bit y 0" by (metis top)
  with eq have "drop_bit 1 x = drop_bit 1 y"
    by (auto simp: crc_bit_odd xor_right_cancel split: if_splits)
  then have high: "bit x (Suc n) = bit y (Suc n)" for n
    by (metis bit_drop_bit_eq comp_apply plus_1_eq_Suc)
  show "x = y"
  proof (rule bit_eqI)
    fix n
    show "bit x n = bit y n" using low high by (cases n) auto
  qed
qed

lemma crc_bits_inj: "(crc_bit ^^ n) x = (crc_bit ^^ n) y \<Longrightarrow> x = y"
  by (induction n) (auto dest: crc_bit_inj)

text \<open>With a clear low byte, eight bit steps are a plain shift.\<close>

lemma crc_bits_shift:
  "(\<And>k. k < n \<Longrightarrow> \<not> bit x k) \<Longrightarrow> (crc_bit ^^ n) x = drop_bit n x"
proof (induction n)
  case 0
  then show ?case by simp
next
  case (Suc n)
  then have "(crc_bit ^^ Suc n) x = crc_bit (drop_bit n x)" by simp
  also have "\<dots> = drop_bit 1 (drop_bit n x)"
    using Suc.prems [of n] by (simp add: crc_bit_odd bit_simps)
  finally show ?case by simp
qed

section \<open>The three routines agree\<close>

lemma nth_table [simp]: "i < 256 \<Longrightarrow> kCrc16ModbusTable ! i = crc16ModbusEntry (of_nat i)"
  by (simp add: kCrc16ModbusTable_def)

lemma unat_low_byte: "unat ((x :: u16) AND 255) < 256"
proof -
  have "x AND 255 \<le> 255" by (rule word_and_le1)
  then have "unat (x AND 255) \<le> 255" by (simp add: word_le_nat_alt)
  then show ?thesis by simp
qed

lemma low_byte_ucast: "ucast (ucast ((x :: u16) AND 255) :: u8) = x AND 255"
  by (rule bit_eqI) (auto simp: and_255 bit_simps dest: bit_u16_high)

lemma split_low_byte: "(x :: u16) = push_bit 8 (drop_bit 8 x) XOR (x AND 255)"
  by (rule bit_eqI) (auto simp: and_255 bit_simps)

lemma high_byte_shift: "drop_bit 8 (push_bit 8 (drop_bit 8 (x XOR ucast (b :: u8)))) = drop_bit 8 (x :: u16)"
proof (rule bit_eqI)
  fix n
  show "bit (drop_bit 8 (push_bit 8 (drop_bit 8 (x XOR ucast b)))) n = bit (drop_bit 8 x) n"
    by (cases "n < 8") (simp_all add: bit_simps)
qed

lemma crc_step_bitwise_eq: "crc_step_bitwise crc b = crc_step crc b"
proof -
  let ?x = "crc XOR ucast b"
  have "(crc_bit ^^ 8) ?x = (crc_bit ^^ 8) (push_bit 8 (drop_bit 8 ?x)) XOR (crc_bit ^^ 8) (?x AND 255)"
    by (subst (1) split_low_byte [of ?x]) (rule crc_bits_xor)
  moreover have "(crc_bit ^^ 8) (push_bit 8 (drop_bit 8 ?x)) = drop_bit 8 crc"
    by (rule trans [OF crc_bits_shift high_byte_shift]) (simp add: bit_simps)
  moreover have "(crc_bit ^^ 8) (?x AND 255) = kCrc16ModbusTable ! unat (?x AND 255)"
    using unat_low_byte [of ?x] by (simp add: crc16ModbusEntry_def low_byte_ucast)
  ultimately show ?thesis
    by (simp add: crc_step_bitwise_def crc_step_def)
qed

lemma crc_bitwise_eq: "crc_bitwise data = crc16Modbus data"
proof -
  have "crc_step_bitwise = crc_step" by (intro ext) (rule crc_step_bitwise_eq)
  then show ?thesis by (simp add: crc_bitwise_def crc16Modbus_def)
qed

lemma fold_const_funpow: "fold (\<lambda>_. f) xs = f ^^ length xs"
  by (induction xs) (simp_all add: funpow_Suc_right del: funpow.simps)

lemma sim_tableEntry_eq: "sim_tableEntry i = crc16ModbusEntry i"
proof -
  have "(\<lambda>_ :: nat. crc_bit) = (\<lambda>_ crc. if crc AND 1 \<noteq> 0 then drop_bit 1 crc XOR 0xA001
      else drop_bit 1 crc)"
    by (intro ext) (simp add: crc_bit_def)
  then show ?thesis
    using fold_const_funpow [of crc_bit "[0..<8]"]
    by (simp add: sim_tableEntry_def crc16ModbusEntry_def)
qed

lemma sim_crc_eq: "crc16_modbus data = crc16Modbus data"
  by (simp add: crc16_modbus_def crc16Modbus_def crc_step_def [abs_def] sim_kTable_def
      kCrc16ModbusTable_def sim_tableEntry_eq)

section \<open>Frames that end in their CRC\<close>

text \<open>The two trailing bytes the code appends: low byte first.\<close>

definition crc_tail :: "bytes \<Rightarrow> bytes" where
  "crc_tail body = [lo8 (crc16Modbus body), hi8 (crc16Modbus body)]"

lemma length_crc_tail [simp, codec]: "length (crc_tail body) = 2"
  by (simp add: crc_tail_def)

lemma verify_crc_tail [codec]: "2 \<le> length body \<Longrightarrow> crc16ModbusVerify (body @ crc_tail body)"
  by (simp add: crc16ModbusVerify_def crc_tail_def nth_append)

lemma last_two: "2 \<le> length xs \<Longrightarrow>
    xs = take (length xs - 2) xs @ [xs ! (length xs - 2), xs ! (length xs - 1)]"
proof -
  assume "2 \<le> length xs"
  then have "drop (length xs - 2) xs = xs ! (length xs - 2) # drop (length xs - 1) xs"
    and "drop (length xs - 1) xs = [xs ! (length xs - 1)]"
    by (simp_all add: Cons_nth_drop_Suc [symmetric] Suc_diff_Suc numeral_2_eq_2)
  then show ?thesis by (metis append_take_drop_id)
qed

lemma verify_iff:
  "crc16ModbusVerify frame \<longleftrightarrow> 4 \<le> length frame \<and>
     frame = take (length frame - 2) frame @ crc_tail (take (length frame - 2) frame)"
  (is "_ \<longleftrightarrow> _ \<and> frame = ?b @ crc_tail ?b")
proof (cases "4 \<le> length frame")
  case True
  then have "frame = ?b @ [frame ! (length frame - 2), frame ! (length frame - 1)]"
    by (intro last_two) simp
  then have "frame = ?b @ crc_tail ?b \<longleftrightarrow>
      [frame ! (length frame - 2), frame ! (length frame - 1)] = crc_tail ?b"
    by (metis same_append_eq)
  with True show ?thesis
    by (auto simp: crc16ModbusVerify_def crc_tail_def Let_def)
next
  case False
  then show ?thesis by (simp add: crc16ModbusVerify_def)
qed

section \<open>A corrupted byte is detected\<close>

lemma crc_step_inj_crc: "crc_step c b = crc_step c' b \<Longrightarrow> c = c'"
  by (auto simp: crc_step_bitwise_eq [symmetric] crc_step_bitwise_def xor_right_cancel
      dest: crc_bits_inj)

lemma ucast_u8_inj: "(ucast a :: u16) = ucast b \<Longrightarrow> a = (b :: u8)"
  by (metis lo8_mk16 mk16_def)

lemma crc_step_inj_byte: "crc_step c a = crc_step c b \<Longrightarrow> a = b"
proof -
  assume "crc_step c a = crc_step c b"
  then have "c XOR ucast a = c XOR ucast b"
    by (auto simp: crc_step_bitwise_eq [symmetric] crc_step_bitwise_def dest: crc_bits_inj)
  then have "(ucast a :: u16) = ucast b"
    by (metis xor.commute xor_right_cancel)
  then show "a = b" by (rule ucast_u8_inj)
qed

lemma foldl_crc_inj: "foldl crc_step c bs = foldl crc_step c' bs \<Longrightarrow> c = c'"
  by (induction bs arbitrary: c c') (auto dest: crc_step_inj_crc)

lemma crc16Modbus_change: "a \<noteq> b \<Longrightarrow> crc16Modbus (pre @ a # post) \<noteq> crc16Modbus (pre @ b # post)"
  by (auto simp: crc16Modbus_def dest!: foldl_crc_inj crc_step_inj_byte)

lemma crc16Modbus_update:
  assumes "i < length body" and "body ! i \<noteq> b"
  shows "crc16Modbus (body[i := b]) \<noteq> crc16Modbus body"
  using crc16Modbus_change [of b "body ! i" "take i body" "drop (Suc i) body"] assms
  by (simp add: upd_conv_take_nth_drop id_take_nth_drop [symmetric])

lemma crc_tail_inject: "crc_tail b = crc_tail c \<longleftrightarrow> crc16Modbus b = crc16Modbus c"
  by (metis crc_tail_def list.inject mk16_hi8_lo8)

section \<open>Property\<close>

text \<open>Property C11: the three CRC routines of the repository (the table-driven one of the
  protocol layer, the bitwise one of the accumulator, the simulator's) compute the same
  checksum of every message.\<close>

theorem crc_implementations_agree:
  "crc_bitwise data = crc16Modbus data \<and> crc16_modbus data = crc16Modbus data"
  by (simp add: crc_bitwise_eq sim_crc_eq)

end
