(* ===== verification/ModbusFrame.thy ===== *)
theory ModbusFrame
  imports Crc16
begin

text \<open>
  Framing and parsing of Modbus messages: \<^verbatim>\<open>apps/ens_app/src/protocol/ModbusFrame.h\<close>
  and \<^verbatim>\<open>ModbusFrame.cpp\<close>. A buffer is a byte list; the parsers take the buffer and the
  length \<open>len\<close> separately, as the code does, so that "nothing past \<open>len\<close> is read" is a
  statement about them (\<open>parseResponse_local\<close>).
\<close>

section \<open>Messages\<close>

datatype Transport = Rtu | Tcp

record ModbusRequest =
  rq_transport :: Transport
  rq_transactionId :: u16
  rq_slaveAddress :: u8
  rq_functionCode :: u8
  rq_startingAddress :: u16
  rq_quantity :: u16
  rq_registerValues :: "u16 list"
  rq_coilBytes :: bytes

record ModbusResponse =
  rs_transport :: Transport
  rs_transactionId :: u16
  rs_slaveAddress :: u8
  rs_functionCode :: u8
  rs_isException :: bool
  rs_exceptionCode :: u8
  rs_registerValues :: "u16 list"
  rs_coilBytes :: bytes

text \<open>The constructor \<open>ModbusResponse(t, unit, fc)\<close>: every other field is zero or empty.\<close>

definition mkResponse :: "Transport \<Rightarrow> u8 \<Rightarrow> u8 \<Rightarrow> ModbusResponse" where
  "mkResponse t unit fc =
     \<lparr>rs_transport = t, rs_transactionId = 0, rs_slaveAddress = unit, rs_functionCode = fc,
      rs_isException = False, rs_exceptionCode = 0, rs_registerValues = [], rs_coilBytes = []\<rparr>"

section \<open>Building a request\<close>

definition appendMbap :: "bytes \<Rightarrow> u16 \<Rightarrow> u8 \<Rightarrow> u16 \<Rightarrow> bytes" where
  "appendMbap v tid unitId pduLenPlusUnit =
     writeU16BE (writeU16BE (writeU16BE v tid) 0) pduLenPlusUnit @ [unitId]"

text \<open>The \<open>switch\<close> over the function code: \<open>None\<close> where the code returns the empty vector.\<close>

definition buildPdu :: "ModbusRequest \<Rightarrow> bytes option" where
  "buildPdu req =
     (let fc = rq_functionCode req; addr = rq_startingAddress req; qty = rq_quantity req;
          regs = rq_registerValues req; coils = rq_coilBytes req
      in if fc \<in> {1, 2, 3, 4} then
           (if qty = 0 then None
            else Some (writeU16BE (writeU16BE [fc] addr) qty))
         else if fc = 5 then
           (if length regs \<noteq> 1 then None
            else let v = regs ! 0
                 in if v \<noteq> 0 \<and> v \<noteq> 0xFF00 then None
                    else Some (writeU16BE (writeU16BE [fc] addr) v))
         else if fc = 6 then
           (if length regs \<noteq> 1 then None
            else Some (writeU16BE (writeU16BE [fc] addr) (regs ! 0)))
         else if fc = 0x0F then
           (if qty = 0 \<or> coils = [] then None
            else let expectedBytes = (unat qty + 7) div 8
                 in if length coils \<noteq> expectedBytes then None
                    else Some (writeU16BE (writeU16BE [fc] addr) qty @ [of_nat expectedBytes] @ coils))
         else if fc = 0x10 then
           (if qty = 0 \<or> regs = [] then None
            else if length regs \<noteq> unat qty then None
            else Some (foldl writeU16BE
                   (writeU16BE (writeU16BE [fc] addr) qty @ [of_nat (unat qty * 2)]) regs))
         else None)"

definition buildRequest :: "ModbusRequest \<Rightarrow> bytes" where
  "buildRequest req =
     (if rq_slaveAddress req < 1 \<or> 247 < rq_slaveAddress req then []
      else case buildPdu req of
        None \<Rightarrow> []
      | Some pdu \<Rightarrow>
          (case rq_transport req of
             Tcp \<Rightarrow> appendMbap [] (rq_transactionId req) (rq_slaveAddress req)
                      (of_nat (1 + length pdu)) @ pdu
           | Rtu \<Rightarrow>
               let out = [rq_slaveAddress req] @ pdu; crc = crc16Modbus out
               in out @ [lo8 crc] @ [hi8 crc]))"

section \<open>Parsing a response\<close>

text \<open>The loop \<open>for (i = 0; i < byteCount; i += 2) push_back(readU16BE(buf + off + i))\<close>.\<close>

definition readRegisters :: "bytes \<Rightarrow> nat \<Rightarrow> nat \<Rightarrow> u16 list" where
  "readRegisters buf off byteCount =
     map (\<lambda>k. readU16BE buf (off + 2 * k)) [0..<(byteCount + 1) div 2]"

text \<open>\<open>assign(buf + off, buf + off + n)\<close>.\<close>

definition readBytes :: "bytes \<Rightarrow> nat \<Rightarrow> nat \<Rightarrow> bytes" where
  "readBytes buf off n = map (\<lambda>k. buf ! (off + k)) [0..<n]"

definition parseTcpResponse :: "bytes \<Rightarrow> nat \<Rightarrow> ModbusResponse option" where
  "parseTcpResponse buf len =
     (if len < 8 then None
      else let tid = readU16BE buf 0; pid = readU16BE buf 2
      in if pid \<noteq> 0 then None
      else let mbapLen = unat (readU16BE buf 4)
      in if mbapLen < 2 \<or> 6 + mbapLen > len then None
      else let resp = (mkResponse Tcp (buf ! 6) (buf ! 7))\<lparr>rs_transactionId := tid\<rparr>;
               fc = rs_functionCode resp
      in if fc AND 0x80 \<noteq> 0 then
           (if mbapLen \<noteq> 3 then None
            else Some (resp\<lparr>rs_isException := True, rs_exceptionCode := buf ! 8\<rparr>))
      else if fc \<in> {1, 2, 3, 4} then
        (if mbapLen < 3 then None
         else let byteCount = unat (buf ! 8)
              in if 3 + byteCount \<noteq> mbapLen then None
                 else if fc = 1 \<or> fc = 2 then Some (resp\<lparr>rs_coilBytes := readBytes buf 9 byteCount\<rparr>)
                 else if byteCount mod 2 \<noteq> 0 then None
                 else Some (resp\<lparr>rs_registerValues := readRegisters buf 9 byteCount\<rparr>))
      else if fc = 5 \<or> fc = 6 then
        (if mbapLen \<noteq> 6 then None
         else Some (resp\<lparr>rs_registerValues := [readU16BE buf 8]\<rparr>))
      else if fc = 0x0F then (if mbapLen \<noteq> 6 then None else Some resp)
      else if fc = 0x10 then (if mbapLen \<noteq> 6 then None else Some resp)
      else None)"

definition parseRtuResponse :: "bytes \<Rightarrow> nat \<Rightarrow> ModbusResponse option" where
  "parseRtuResponse buf len =
     (if len < 4 then None
      else if \<not> crc16ModbusVerify (take len buf) then None
      else let resp = mkResponse Rtu (buf ! 0) (buf ! 1); fc = rs_functionCode resp
      in if fc AND 0x80 \<noteq> 0 then
           (if len \<noteq> 5 then None
            else Some (resp\<lparr>rs_isException := True, rs_exceptionCode := buf ! 2\<rparr>))
      else if fc \<in> {1, 2, 3, 4} then
        (if len < 5 then None
         else let byteCount = unat (buf ! 2)
              in if 5 + byteCount \<noteq> len then None
                 else if fc = 1 \<or> fc = 2 then Some (resp\<lparr>rs_coilBytes := readBytes buf 3 byteCount\<rparr>)
                 else if byteCount mod 2 \<noteq> 0 then None
                 else Some (resp\<lparr>rs_registerValues := readRegisters buf 3 byteCount\<rparr>))
      else if fc \<in> {5, 6, 0x0F, 0x10} then
        (if len \<noteq> 8 then None
         else if fc = 5 \<or> fc = 6 then Some (resp\<lparr>rs_registerValues := [readU16BE buf 4]\<rparr>)
         else Some resp)
      else None)"

definition parseResponse :: "bytes \<Rightarrow> nat \<Rightarrow> ModbusResponse option" where
  "parseResponse buf len =
     (if len < 4 then None
      else case parseTcpResponse buf len of
        Some r \<Rightarrow> Some r
      | None \<Rightarrow> parseRtuResponse buf len)"

definition expectedResponseBodySize :: "u8 \<Rightarrow> u16 \<Rightarrow> nat" where
  "expectedResponseBodySize fc quantity =
     (if fc = 1 \<or> fc = 2 then 3 + (unat quantity + 7) div 8
      else if fc = 3 \<or> fc = 4 then 3 + 2 * unat quantity
      else if fc \<in> {5, 6, 0x0F, 0x10} then 6
      else 0)"

section \<open>Reading runs of bytes\<close>

lemma readBytes_take [codec]: "off + n \<le> length buf \<Longrightarrow> readBytes buf off n = take n (drop off buf)"
  by (rule nth_equalityI) (simp_all add: readBytes_def)

lemma words_be_nth: "2 * k + 1 < length bs \<Longrightarrow> words_be bs ! k = mk16 (bs ! (2 * k)) (bs ! (2 * k + 1))"
  by (induction bs arbitrary: k rule: words_be.induct) (auto simp: nth_Cons split: nat.splits)

lemma readRegisters_words [codec]:
  assumes "off + n \<le> length buf" and "even n"
  shows "readRegisters buf off n = words_be (take n (drop off buf))"
proof (rule nth_equalityI)
  show "length (readRegisters buf off n) = length (words_be (take n (drop off buf)))"
    using assms by (auto simp: readRegisters_def length_words_be)
  fix k
  assume "k < length (readRegisters buf off n)"
  then have "2 * k + 1 < n" using assms(2) by (auto simp: readRegisters_def)
  with assms(1) show "readRegisters buf off n ! k = words_be (take n (drop off buf)) ! k"
    by (subst words_be_nth) (auto simp: readRegisters_def readU16BE_def)
qed

lemma foldl_writeU16BE [codec]: "foldl writeU16BE v xs = v @ concat (map u16be xs)"
  by (induction xs arbitrary: v) simp_all

section \<open>Which requests are framed\<close>

text \<open>What the code accepts, said of the fields alone.\<close>

definition valid_request :: "ModbusRequest \<Rightarrow> bool" where
  "valid_request r \<longleftrightarrow>
     \<not> (rq_slaveAddress r < 1 \<or> 247 < rq_slaveAddress r) \<and>
     (rq_functionCode r \<in> {1, 2, 3, 4} \<and> rq_quantity r \<noteq> 0 \<or>
      rq_functionCode r = 5 \<and> rq_registerValues r \<in> {[0], [0xFF00]} \<or>
      rq_functionCode r = 6 \<and> length (rq_registerValues r) = 1 \<or>
      rq_functionCode r = 0x0F \<and> rq_quantity r \<noteq> 0 \<and>
        length (rq_coilBytes r) = (unat (rq_quantity r) + 7) div 8 \<or>
      rq_functionCode r = 0x10 \<and> rq_quantity r \<noteq> 0 \<and>
        length (rq_registerValues r) = unat (rq_quantity r))"

lemma coil_bytes_pos: "(q :: u16) \<noteq> 0 \<Longrightarrow> 0 < (unat q + 7) div 8"
  using unat_gt_0 [of q] by auto

lemma buildPdu_None_iff:
  assumes "\<not> (rq_slaveAddress r < 1 \<or> 247 < rq_slaveAddress r)"
  shows "buildPdu r = None \<longleftrightarrow> \<not> valid_request r"
proof -
  have q: "rq_quantity r \<noteq> 0 \<Longrightarrow> 0 < unat (rq_quantity r)" by (simp add: unat_gt_0)
  have coils: "rq_quantity r \<noteq> 0 \<Longrightarrow>
      length (rq_coilBytes r) = (unat (rq_quantity r) + 7) div 8 \<Longrightarrow> rq_coilBytes r \<noteq> []"
    using coil_bytes_pos [of "rq_quantity r"] by auto
  consider "rq_registerValues r = []" | v where "rq_registerValues r = [v]"
    | "1 < length (rq_registerValues r)"
    by (cases "rq_registerValues r" rule: remdups_adj.cases) auto
  then show ?thesis
  proof cases
    case 1
    with assms q coils show ?thesis by (auto simp: buildPdu_def valid_request_def Let_def)
  next
    case 2
    with assms q coils show ?thesis by (auto simp: buildPdu_def valid_request_def Let_def)
  next
    case 3
    then have "rq_registerValues r \<noteq> []" "length (rq_registerValues r) \<noteq> 1" by auto
    with assms q coils show ?thesis by (auto simp: buildPdu_def valid_request_def Let_def)
  qed
qed

lemma buildRequest_empty_iff: "buildRequest r = [] \<longleftrightarrow> \<not> valid_request r"
proof (cases "rq_slaveAddress r < 1 \<or> 247 < rq_slaveAddress r")
  case True
  then show ?thesis unfolding buildRequest_def valid_request_def by simp
next
  case False
  then have "buildPdu r = None \<longleftrightarrow> \<not> valid_request r"
    by (rule buildPdu_None_iff)
  with False show ?thesis
    by (auto simp: buildRequest_def appendMbap_def u16be_def Let_def split: option.splits Transport.splits)
qed

text \<open>The frame of a valid request.\<close>

definition tcp_adu :: "u16 \<Rightarrow> bytes \<Rightarrow> bytes" where
  "tcp_adu tid body = u16be tid @ u16be 0 @ u16be (of_nat (length body)) @ body"

definition rtu_adu :: "bytes \<Rightarrow> bytes" where
  "rtu_adu body = body @ crc_tail body"

definition req_body :: "ModbusRequest \<Rightarrow> bytes" where
  "req_body r = rq_slaveAddress r # the (buildPdu r)"

lemma buildRequest_valid:
  assumes "valid_request r"
  shows "buildRequest r = (case rq_transport r of
     Tcp \<Rightarrow> tcp_adu (rq_transactionId r) (req_body r) | Rtu \<Rightarrow> rtu_adu (req_body r))"
proof -
  have addr: "\<not> (rq_slaveAddress r < 1 \<or> 247 < rq_slaveAddress r)"
    using assms unfolding valid_request_def by blast
  then have "buildPdu r \<noteq> None"
    using buildPdu_None_iff [of r] assms by simp
  with addr show ?thesis
    by (auto simp: buildRequest_def tcp_adu_def rtu_adu_def req_body_def appendMbap_def u16be_def
        crc_tail_def Let_def split: Transport.splits)
qed

lemma buildPdu_length: "buildPdu r = Some pdu \<Longrightarrow> 5 \<le> length pdu"
  by (auto simp: buildPdu_def Let_def codec split: if_splits)

section \<open>The two parsers on the same message body\<close>

lemma length_adu [simp, codec]:
  "length (tcp_adu tid body) = 6 + length body" "length (rtu_adu body) = length body + 2"
  by (simp_all add: tcp_adu_def rtu_adu_def)

lemma tcp_adu_read [simp, codec]:
  "readU16BE (tcp_adu tid body) 0 = tid"
  "readU16BE (tcp_adu tid body) 2 = 0"
  "readU16BE (tcp_adu tid body) 4 = of_nat (length body)"
  by (simp_all add: tcp_adu_def readU16BE_def u16be_def)

lemma tcp_adu_nth [simp, codec]:
  "tcp_adu tid body ! 6 = body ! 0" "tcp_adu tid body ! 7 = body ! 1" "tcp_adu tid body ! 8 = body ! 2"
  "drop 9 (tcp_adu tid body) = drop 3 body"
  by (simp_all add: tcp_adu_def u16be_def)

lemma tcp_adu_read8 [codec]: "readU16BE (tcp_adu tid body) 8 = readU16BE body 2"
  by (simp add: tcp_adu_def readU16BE_def u16be_def)

lemma rtu_adu_nth [codec]: "i < length body \<Longrightarrow> rtu_adu body ! i = body ! i"
  by (simp add: rtu_adu_def nth_append)

lemma rtu_adu_drop [codec]:
  "3 + n \<le> length body \<Longrightarrow> take n (drop 3 (rtu_adu body)) = take n (drop 3 body)"
  by (simp add: rtu_adu_def)

lemma rtu_adu_verify [simp, codec]: "2 \<le> length body \<Longrightarrow> crc16ModbusVerify (rtu_adu body)"
  by (simp add: rtu_adu_def verify_crc_tail)

text \<open>What both parsers make of a body \<open>[unitId][FC][...]\<close>, the transport fields apart.\<close>

definition parse_body :: "Transport \<Rightarrow> u16 \<Rightarrow> bytes \<Rightarrow> ModbusResponse option" where
  "parse_body t tid body =
     (let resp = (mkResponse t (body ! 0) (body ! 1))\<lparr>rs_transactionId := tid\<rparr>;
          fc = body ! 1; n = length body; byteCount = unat (body ! 2)
      in if fc AND 0x80 \<noteq> 0 then
           (if n = 3 then Some (resp\<lparr>rs_isException := True, rs_exceptionCode := body ! 2\<rparr>) else None)
         else if fc \<in> {1, 2} then
           (if 3 \<le> n \<and> 3 + byteCount = n then Some (resp\<lparr>rs_coilBytes := drop 3 body\<rparr>) else None)
         else if fc \<in> {3, 4} then
           (if 3 \<le> n \<and> 3 + byteCount = n \<and> even byteCount
            then Some (resp\<lparr>rs_registerValues := words_be (drop 3 body)\<rparr>) else None)
         else if fc \<in> {5, 6} then
           (if n = 6
            then Some (resp\<lparr>rs_registerValues := [readU16BE body (if t = Tcp then 2 else 4)]\<rparr>)
            else None)
         else if fc \<in> {0x0F, 0x10} then (if n = 6 then Some resp else None)
         else None)"

lemma parse_tcp_adu:
  assumes "2 \<le> length body" and "length body < 65536"
  shows "parseTcpResponse (tcp_adu tid body) (length (tcp_adu tid body)) = parse_body Tcp tid body"
proof -
  have len: "unat (of_nat (length body) :: u16) = length body"
    using assms(2) by (simp add: unat_of_nat)
  show ?thesis
    using assms(1)
    by (auto simp: parseTcpResponse_def parse_body_def len Let_def mkResponse_def codec
        even_iff_mod_2_eq_zero)
qed

lemma parse_rtu_adu:
  assumes "2 \<le> length body"
  shows "parseRtuResponse (rtu_adu body) (length (rtu_adu body)) = parse_body Rtu 0 body"
proof -
  have nth: "rtu_adu body ! 0 = body ! 0" "rtu_adu body ! 1 = body ! 1"
    using assms by (auto intro!: rtu_adu_nth)
  have third: "3 \<le> length body \<Longrightarrow> rtu_adu body ! 2 = body ! 2"
    by (rule rtu_adu_nth) simp
  have echo: "6 \<le> length body \<Longrightarrow> readU16BE (rtu_adu body) 4 = readU16BE body 4"
    by (simp add: readU16BE_def rtu_adu_nth)
  have len2: "length body = 2 \<Longrightarrow> 5 + x \<noteq> length (rtu_adu body)" for x by simp
  show ?thesis
  proof (cases "3 \<le> length body")
    case True
    with assms nth third echo show ?thesis
      by (auto simp: parseRtuResponse_def parse_body_def Let_def mkResponse_def
          readBytes_take readRegisters_words rtu_adu_drop even_iff_mod_2_eq_zero)
  next
    case False
    with assms have "length body = 2" by simp
    with nth show ?thesis
      by (auto simp: parseRtuResponse_def parse_body_def Let_def mkResponse_def)
  qed
qed

section \<open>Nothing past the frame is read\<close>

lemma nth_take_eq: "take len buf = take len buf' \<Longrightarrow> i < len \<Longrightarrow> buf ! i = buf' ! i"
  by (metis nth_take)


lemma readBytes_cong:
  "off + n \<le> len \<Longrightarrow> take len buf = take len buf' \<Longrightarrow> readBytes buf off n = readBytes buf' off n"
  unfolding readBytes_def by (rule map_cong) (auto intro!: nth_take_eq)

lemma readU16BE_cong:
  "off + 2 \<le> len \<Longrightarrow> take len buf = take len buf' \<Longrightarrow> readU16BE buf off = readU16BE buf' off"
  unfolding readU16BE_def by (simp add: nth_take_eq [of len buf buf'])

lemma readRegisters_cong:
  assumes "off + n \<le> len" and "even n" and "take len buf = take len buf'"
  shows "readRegisters buf off n = readRegisters buf' off n"
  unfolding readRegisters_def
proof (rule map_cong)
  fix k
  assume "k \<in> set [0..<(n + 1) div 2]"
  then have "off + 2 * k + 2 \<le> len" using assms(1,2) by auto
  then show "readU16BE buf (off + 2 * k) = readU16BE buf' (off + 2 * k)"
    using assms(3) by (rule readU16BE_cong)
qed simp

lemma parseTcp_local:
  assumes "take len buf = take len buf'"
  shows "parseTcpResponse buf len = parseTcpResponse buf' len"
proof (cases "len < 8")
  case True
  then show ?thesis by (simp add: parseTcpResponse_def)
next
  case False
  with assms have hd: "readU16BE buf 0 = readU16BE buf' 0" "readU16BE buf 2 = readU16BE buf' 2"
    "readU16BE buf 4 = readU16BE buf' 4" "buf ! 6 = buf' ! 6" "buf ! 7 = buf' ! 7"
    by (simp_all add: readU16BE_def nth_take_eq [of len buf buf'])
  have b8: "9 \<le> len \<Longrightarrow> buf ! 8 = buf' ! 8"
    using assms by (auto intro: nth_take_eq [of len])
  have r8: "12 \<le> len \<Longrightarrow> readU16BE buf 8 = readU16BE buf' 8"
    using assms by (simp add: readU16BE_def nth_take_eq [of len buf buf'])
  have bs: "9 + n \<le> len \<Longrightarrow> readBytes buf 9 n = readBytes buf' 9 n"
    and rs: "9 + n \<le> len \<Longrightarrow> even n \<Longrightarrow> readRegisters buf 9 n = readRegisters buf' 9 n" for n
    using assms by (auto intro: readBytes_cong readRegisters_cong)
  show ?thesis
    unfolding parseTcpResponse_def
    by (auto simp: Let_def hd b8 r8 bs rs mkResponse_def even_iff_mod_2_eq_zero)
qed

lemma parseRtu_local:
  assumes "take len buf = take len buf'"
  shows "parseRtuResponse buf len = parseRtuResponse buf' len"
proof (cases "len < 4")
  case True
  then show ?thesis by (simp add: parseRtuResponse_def)
next
  case False
  with assms have hd: "buf ! 0 = buf' ! 0" "buf ! 1 = buf' ! 1" "buf ! Suc 0 = buf' ! Suc 0"
    "buf ! 2 = buf' ! 2" by (auto intro: nth_take_eq [of len])
  have r4: "6 \<le> len \<Longrightarrow> readU16BE buf 4 = readU16BE buf' 4"
    using assms by (simp add: readU16BE_def nth_take_eq [of len buf buf'])
  have bs: "3 + n \<le> len \<Longrightarrow> readBytes buf 3 n = readBytes buf' 3 n"
    and rs: "3 + n \<le> len \<Longrightarrow> even n \<Longrightarrow> readRegisters buf 3 n = readRegisters buf' 3 n" for n
    using assms by (auto intro: readBytes_cong readRegisters_cong)
  show ?thesis
    unfolding parseRtuResponse_def
    by (auto simp: Let_def hd r4 bs rs assms mkResponse_def even_iff_mod_2_eq_zero)
qed

section \<open>A corrupted byte is refused\<close>

lemma verify_update:
  assumes "crc16ModbusVerify frame" and "i < length frame" and "frame ! i \<noteq> b"
  shows "\<not> crc16ModbusVerify (frame[i := b])"
proof
  let ?n = "length frame - 2"
  assume bad: "crc16ModbusVerify (frame[i := b])"
  from assms(1) have good: "4 \<le> length frame" "frame = take ?n frame @ crc_tail (take ?n frame)"
    using verify_iff by blast+
  from bad have bad': "frame[i := b] = take ?n (frame[i := b]) @ crc_tail (take ?n (frame[i := b]))"
    using verify_iff [of "frame[i := b]"] by simp
  show False
  proof (cases "i < ?n")
    case True
    then have "drop ?n (frame[i := b]) = drop ?n frame" by simp
    then have "crc_tail (take ?n (frame[i := b])) = crc_tail (take ?n frame)"
      using good(2) bad' by (metis append_take_drop_id same_append_eq)
    then have "crc16Modbus ((take ?n frame)[i := b]) = crc16Modbus (take ?n frame)"
      by (simp add: crc_tail_inject take_update_swap)
    with True assms(3) show False
      using crc16Modbus_update [of i "take ?n frame" b] by simp
  next
    case False
    then have "take ?n (frame[i := b]) = take ?n frame" by simp
    with good(2) bad' have "frame[i := b] = frame" by metis
    with assms(2,3) show False by (metis nth_list_update_eq)
  qed
qed

section \<open>Sizes\<close>

lemma parse_body_size:
  assumes "parse_body t tid body = Some r" and "rs_functionCode r \<in> {3, 4}"
    and "length (rs_registerValues r) = unat q"
  shows "length body = expectedResponseBodySize (rs_functionCode r) q"
  using assms
  by (auto simp: parse_body_def Let_def mkResponse_def expectedResponseBodySize_def length_words_be
      split: if_splits elim!: evenE, arith+)

text \<open>The frame of a request that stays within the limits of the Modbus specification
  (123 registers, 1968 coils).\<close>

lemma buildPdu_small:
  assumes "buildPdu r = Some pdu"
    and "rq_functionCode r = 0x10 \<Longrightarrow> unat (rq_quantity r) \<le> 123"
    and "rq_functionCode r = 0x0F \<Longrightarrow> unat (rq_quantity r) \<le> 1968"
  shows "length pdu \<le> 253"
  using assms by (auto simp: buildPdu_def Let_def codec split: if_splits)

section \<open>Properties\<close>

text \<open>Property C10: an RTU response in which one byte was changed on the wire, wherever it is
  and whatever it became, is refused.\<close>

theorem rtu_corruption_refused:
  assumes "parseRtuResponse f (length f) = Some r" and "i < length f" and "f ! i \<noteq> b"
  shows "parseRtuResponse (f[i := b]) (length f) = None"
proof -
  have "crc16ModbusVerify f" using assms(1) by (simp add: parseRtuResponse_def split: if_splits)
  then have "\<not> crc16ModbusVerify (f[i := b])" using assms(2,3) by (rule verify_update)
  then show ?thesis by (simp add: parseRtuResponse_def)
qed

definition demo_body :: bytes where
  "demo_body = [7, 3, 2, 0x12, 0x34]"

lemma demo_body_simps [simp]: "length demo_body = 5" "demo_body ! Suc 0 = 3"
  by (simp_all add: demo_body_def)

lemma demo_body_parsed:
  "parseRtuResponse (rtu_adu demo_body) 7 =
     Some ((mkResponse Rtu 7 3)\<lparr>rs_registerValues := [0x1234]\<rparr>)"
proof -
  have "parseRtuResponse (rtu_adu demo_body) (length (rtu_adu demo_body)) = parse_body Rtu 0 demo_body"
    by (rule parse_rtu_adu) simp
  moreover have "parse_body Rtu 0 demo_body = Some ((mkResponse Rtu 7 3)\<lparr>rs_registerValues := [0x1234]\<rparr>)"
    by (simp add: demo_body_def parse_body_def mkResponse_def mk16_def)
  ultimately show ?thesis by simp
qed

theorem rtu_corruption_refused_witness:
  "parseRtuResponse ((rtu_adu demo_body)[3 := 0x13]) 7 = None"
proof -
  have "rtu_adu demo_body ! 3 = 0x12" by (simp add: demo_body_def rtu_adu_def)
  then show ?thesis
    using rtu_corruption_refused [of "rtu_adu demo_body", where i = 3 and b = "0x13"] demo_body_parsed by simp
qed

text \<open>\<open>buildRequest\<close> frames exactly the valid requests; the frame of a valid one is
  the MBAP header or the CRC trailer around the unit address and the PDU, and a request within
  the limits of the Modbus specification gives at most 260 bytes.\<close>

theorem buildRequest_exact:
  "(buildRequest r = [] \<longleftrightarrow> \<not> valid_request r) \<and>
   (valid_request r \<longrightarrow>
     (\<exists>pdu. buildPdu r = Some pdu \<and>
        buildRequest r = (case rq_transport r of
          Tcp \<Rightarrow> tcp_adu (rq_transactionId r) (rq_slaveAddress r # pdu)
        | Rtu \<Rightarrow> rtu_adu (rq_slaveAddress r # pdu)) \<and>
        ((rq_functionCode r = 0x10 \<longrightarrow> unat (rq_quantity r) \<le> 123) \<longrightarrow>
         (rq_functionCode r = 0x0F \<longrightarrow> unat (rq_quantity r) \<le> 1968) \<longrightarrow> length (buildRequest r) \<le> 260)))"
proof (intro conjI impI)
  show "buildRequest r = [] \<longleftrightarrow> \<not> valid_request r" by (rule buildRequest_empty_iff)
  assume valid: "valid_request r"
  then obtain pdu where pdu: "buildPdu r = Some pdu"
    using buildPdu_None_iff [of r] by (cases "buildPdu r") (auto simp: valid_request_def)
  with buildPdu_small [OF pdu] buildRequest_valid [OF valid] show "\<exists>pdu. buildPdu r = Some pdu \<and>
        buildRequest r = (case rq_transport r of
          Tcp \<Rightarrow> tcp_adu (rq_transactionId r) (rq_slaveAddress r # pdu)
        | Rtu \<Rightarrow> rtu_adu (rq_slaveAddress r # pdu)) \<and>
        ((rq_functionCode r = 0x10 \<longrightarrow> unat (rq_quantity r) \<le> 123) \<longrightarrow>
         (rq_functionCode r = 0x0F \<longrightarrow> unat (rq_quantity r) \<le> 1968) \<longrightarrow> length (buildRequest r) \<le> 260)"
    by (auto simp: req_body_def split: Transport.split)
qed

definition demo_write :: "Transport \<Rightarrow> ModbusRequest" where
  "demo_write t = \<lparr>rq_transport = t, rq_transactionId = 9, rq_slaveAddress = 7, rq_functionCode = 6,
     rq_startingAddress = 100, rq_quantity = 0, rq_registerValues = [0x1234], rq_coilBytes = []\<rparr>"

theorem buildRequest_exact_witness:
  "buildRequest (demo_write Tcp) = [0, 9, 0, 0, 0, 6, 7, 6, 0, 100, 0x12, 0x34]"
proof -
  have "valid_request (demo_write Tcp)" by (simp add: valid_request_def demo_write_def)
  moreover have "buildPdu (demo_write Tcp) = Some [6, 0, 100, 0x12, 0x34]"
    by (simp add: demo_write_def buildPdu_def u16be_def hi8_def lo8_def)
  ultimately show ?thesis using buildRequest_exact [of "demo_write Tcp"]
    by (simp add: demo_write_def tcp_adu_def u16be_def hi8_def lo8_def)
qed

text \<open>The two parsers read the same message, whatever its transport: what they
  return for one body differs in the transport and transaction id alone, except for the write
  echoes of function codes 05 and 06.\<close>

theorem parsers_agree:
  assumes "2 \<le> length body" and "length body < 65536" and "body ! 1 \<notin> {5, 6}"
  shows "parseTcpResponse (tcp_adu tid body) (length body + 6) =
    map_option (\<lambda>r. r\<lparr>rs_transport := Tcp, rs_transactionId := tid\<rparr>)
      (parseRtuResponse (rtu_adu body) (length body + 2))"
proof -
  have "parse_body Tcp tid body =
      map_option (\<lambda>r. r\<lparr>rs_transport := Tcp, rs_transactionId := tid\<rparr>) (parse_body Rtu 0 body)"
    using assms(3) by (simp add: parse_body_def mkResponse_def Let_def)
  then show ?thesis
    using parse_tcp_adu [OF assms(1,2), of tid] parse_rtu_adu [OF assms(1)]
    by (simp add: add.commute)
qed

theorem parsers_agree_witness:
  "parseTcpResponse (tcp_adu 9 demo_body) 11 =
     Some ((mkResponse Tcp 7 3)\<lparr>rs_transactionId := 9, rs_registerValues := [0x1234]\<rparr>)"
  using parsers_agree [of demo_body 9] demo_body_parsed by (simp add: mkResponse_def)

text \<open>Of the echo of a single-register write the RTU parser returns the value that
  was written, the TCP parser the register's address.\<close>

theorem write_echo_differs:
  assumes "valid_request r" and "rq_functionCode r = 6" and "rq_registerValues r = [v]"
  shows "map_option rs_registerValues (parseRtuResponse (rtu_adu (req_body r)) 8) = Some [v] \<and>
    map_option rs_registerValues (parseTcpResponse (tcp_adu tid (req_body r)) 12) = Some [rq_startingAddress r]"
proof -
  have body: "req_body r = rq_slaveAddress r # 6 # u16be (rq_startingAddress r) @ u16be v"
    using assms(2,3) by (simp add: req_body_def buildPdu_def)
  have len: "length (req_body r) = 6" by (simp add: body u16be_def)
  have addr: "readU16BE (req_body r) 2 = rq_startingAddress r" and val: "readU16BE (req_body r) 4 = v"
    by (simp_all add: body u16be_def readU16BE_def)
  have fc: "req_body r ! Suc 0 = 6" by (simp add: body)
  show ?thesis
    using parse_rtu_adu [of "req_body r"] parse_tcp_adu [of "req_body r" tid]
    by (simp add: len parse_body_def fc addr val)
qed

theorem write_echo_differs_witness:
  "map_option rs_registerValues (parseRtuResponse (rtu_adu (req_body (demo_write Rtu))) 8) = Some [0x1234] \<and>
   map_option rs_registerValues (parseTcpResponse (tcp_adu 9 (req_body (demo_write Rtu))) 12) = Some [100]"
  using write_echo_differs [of "demo_write Rtu" "0x1234" 9]
  by (simp add: demo_write_def valid_request_def)

text \<open>The parsers read nothing past the length they are given: two buffers that
  agree on it give the same result.\<close>

theorem parseResponse_local:
  assumes "take len buf = take len buf'"
  shows "parseResponse buf len = parseResponse buf' len \<and>
    parseTcpResponse buf len = parseTcpResponse buf' len \<and> parseRtuResponse buf len = parseRtuResponse buf' len"
  unfolding parseResponse_def parseTcp_local [OF assms] parseRtu_local [OF assms] by blast

theorem parseResponse_local_witness:
  "parseRtuResponse (rtu_adu demo_body @ [1, 2, 3]) 7 = Some ((mkResponse Rtu 7 3)\<lparr>rs_registerValues := [0x1234]\<rparr>)"
proof -
  have "take 7 (rtu_adu demo_body @ [1, 2, 3]) = take 7 (rtu_adu demo_body)"
    by (simp add: demo_body_def rtu_adu_def)
  from parseResponse_local [OF this] demo_body_parsed show ?thesis by simp
qed

end
