(* ===== verification/Accumulator.thy ===== *)
theory Accumulator
  imports ModbusFrame
begin

text \<open>
  The byte stream accumulator, \<^verbatim>\<open>apps/ens_app/src/protocol/ModbusStreamAccumulator.h\<close>
  and \<^verbatim>\<open>.cpp\<close>: a circular buffer of 4096 bytes from which complete frames are cut.
  \<open>contents\<close> is its abstraction, the bytes from the read index on; every operation is
  shown to be a list operation on it, and cutting a frame is the decision \<open>decide\<close>, which
  looks at the contents alone.
\<close>

section \<open>The code\<close>

definition kCapacity :: nat where
  "kCapacity = 4096"

definition kMaxHuntBytes :: nat where
  "kMaxHuntBytes = 4096"

record Accumulator =
  m_buf :: bytes
  m_read :: nat
  m_write :: nat
  m_size :: nat
  m_huntCount :: u32
  m_huntSlidBytes :: nat

definition acc_new :: Accumulator where
  "acc_new = \<lparr>m_buf = replicate kCapacity 0, m_read = 0, m_write = 0, m_size = 0,
              m_huntCount = 0, m_huntSlidBytes = 0\<rparr>"

text \<open>\<open>append(data, len)\<close>: the loop stores byte after byte, so with more than a capacity
  of bytes the later ones overwrite the earlier ones.\<close>

definition store_bytes :: "bytes \<Rightarrow> nat \<Rightarrow> bytes \<Rightarrow> bytes" where
  "store_bytes buf w data = fold (\<lambda>i b. b[(w + i) mod kCapacity := data ! i]) [0..<length data] buf"

definition acc_append :: "Accumulator \<Rightarrow> bytes \<Rightarrow> Accumulator" where
  "acc_append a data =
     (if data = [] then a
      else let len = length data;
               rd = (if m_size a + len > kCapacity
                     then let overflow = (m_size a + len) - kCapacity
                          in (m_read a + overflow) mod kCapacity
                     else m_read a)
           in a\<lparr>m_read := rd,
                m_buf := store_bytes (m_buf a) (m_write a) data,
                m_write := (m_write a + len) mod kCapacity,
                m_size := min (m_size a + len) kCapacity\<rparr>)"

definition clear :: "Accumulator \<Rightarrow> Accumulator" where
  "clear a = a\<lparr>m_read := 0, m_write := 0, m_size := 0, m_huntCount := 0, m_huntSlidBytes := 0\<rparr>"

definition advance :: "Accumulator \<Rightarrow> nat \<Rightarrow> Accumulator" where
  "advance a n =
     a\<lparr>m_read := (m_read a + n) mod kCapacity,
       m_size := (if m_size a \<ge> n then m_size a - n else 0)\<rparr>"

definition popFront :: "Accumulator \<Rightarrow> nat \<Rightarrow> Accumulator" where
  "popFront a n =
     (if n = 0 then a
      else let a1 = advance a n; a2 = a1\<lparr>m_huntSlidBytes := m_huntSlidBytes a1 + n\<rparr>
           in if m_huntSlidBytes a2 \<ge> kMaxHuntBytes then clear a2 else a2)"

definition onFrameExtracted :: "Accumulator \<Rightarrow> Accumulator" where
  "onFrameExtracted a = a\<lparr>m_huntSlidBytes := 0\<rparr>"

definition peek :: "Accumulator \<Rightarrow> nat \<Rightarrow> u8" where
  "peek a offset = m_buf a ! ((m_read a + offset) mod kCapacity)"

definition consume :: "Accumulator \<Rightarrow> nat \<Rightarrow> Accumulator" where
  "consume a n = (if n \<noteq> 0 then advance a n else a)"

text \<open>\<open>pop(n, out, outLen)\<close>: the bytes copied to \<open>out\<close> and the new state.\<close>

definition pop :: "Accumulator \<Rightarrow> nat \<Rightarrow> bytes \<times> Accumulator" where
  "pop a n = (map (\<lambda>i. m_buf a ! ((m_read a + i) mod kCapacity)) [0..<n], consume a n)"

definition crcValid :: "Accumulator \<Rightarrow> nat \<Rightarrow> bool" where
  "crcValid a len =
     (let crc = foldl (\<lambda>crc i. crc_step_bitwise crc (peek a i)) 0xFFFF [0..<len - 2];
          crcWire = mk16 (peek a (len - 1)) (peek a (len - 2))
      in crc = crcWire)"

text \<open>The hunt: slide by one byte and report no frame.\<close>

definition hunt :: "Accumulator \<Rightarrow> bool \<Rightarrow> bytes option \<times> Accumulator" where
  "hunt a counted =
     (None, popFront (if counted then a\<lparr>m_huntCount := m_huntCount a + 1\<rparr> else a) 1)"

definition takeFrame :: "Accumulator \<Rightarrow> nat \<Rightarrow> bytes option \<times> Accumulator" where
  "takeFrame a expected = (case pop a expected of (out, a') \<Rightarrow> (Some out, onFrameExtracted a'))"

text \<open>\<open>tryExtractFrame\<close>: \<open>None\<close> is the result \<open>false\<close>, \<open>Some out\<close> is \<open>true\<close> with the
  first \<open>outLen\<close> bytes of the output buffer.\<close>

definition tryExtractFrame :: "Accumulator \<Rightarrow> bool \<Rightarrow> bytes option \<times> Accumulator" where
  "tryExtractFrame a isTcp =
     (let minHdr = (if isTcp then 7 else 4)
      in if m_size a < minHdr then (None, a)
      else let unitOff = (if isTcp then 6 else 0); func = peek a (unitOff + 1)
      in if func AND 0x80 \<noteq> 0 then
           (let expected = (if isTcp then 9 else 5)
            in if m_size a < expected then (None, a)
            else if \<not> isTcp \<and> \<not> crcValid a expected then hunt a True
            else takeFrame a expected)
      else
        (let len_or_slide =
           (if isTcp then
              (let lenField = unat (mk16 (peek a 4) (peek a 5))
               in if lenField < 2 \<or> 6 + lenField > kCapacity then None else Some (6 + lenField))
            else
              (let byteCount = unat (peek a 2)
               in if func \<in> {1, 2, 3, 4} then Some (3 + byteCount + 2)
               else if func \<in> {5, 6, 0x0F, 0x10} then Some 8
               else None))
         in case len_or_slide of
              None \<Rightarrow> hunt a False
            | Some expected \<Rightarrow>
                if m_size a < expected then (None, a)
                else if \<not> isTcp \<and> \<not> crcValid a expected then hunt a True
                else takeFrame a expected))"

section \<open>Contents of the circular buffer\<close>

definition contents :: "Accumulator \<Rightarrow> bytes" where
  "contents a = ring (m_buf a) kCapacity (m_read a) (m_size a)"

definition acc_wf :: "Accumulator \<Rightarrow> bool" where
  "acc_wf a \<longleftrightarrow> length (m_buf a) = kCapacity \<and> m_read a < kCapacity \<and> m_size a \<le> kCapacity \<and>
     m_write a = (m_read a + m_size a) mod kCapacity \<and> m_huntSlidBytes a < kMaxHuntBytes"

lemma kCapacity_pos [simp]: "0 < kCapacity"
  by (simp add: kCapacity_def)

lemma length_contents [simp]: "length (contents a) = m_size a"
  by (simp add: contents_def)

lemma peek_contents: "i < m_size a \<Longrightarrow> peek a i = contents a ! i"
  by (simp add: contents_def peek_def)

lemma length_store_bytes [simp]: "length (store_bytes buf w data) = length buf"
proof -
  have "length (fold (\<lambda>i b. b[f i := g i]) js b) = length b"
    for f :: "nat \<Rightarrow> nat" and g :: "nat \<Rightarrow> u8" and js b
    by (induction js arbitrary: b) simp_all
  then show ?thesis by (simp add: store_bytes_def)
qed

lemma store_bytes_snoc:
  "store_bytes buf w (data @ [x]) =
     (store_bytes buf w data)[(w + length data) mod kCapacity := x]"
proof -
  have "fold (\<lambda>i b. b[(w + i) mod kCapacity := (data @ [x]) ! i]) [0..<length data] buf =
      fold (\<lambda>i b. b[(w + i) mod kCapacity := data ! i]) [0..<length data] buf"
    by (rule fold_cong) (auto simp: nth_append)
  then show ?thesis by (simp add: store_bytes_def)
qed

text \<open>The last \<open>kCapacity\<close> bytes of a stream: what an overflowing append keeps.\<close>

definition newest :: "bytes \<Rightarrow> bytes" where
  "newest xs = drop (length xs - kCapacity) xs"

lemma newest_newest: "newest (newest xs @ ys) = newest (xs @ ys)"
proof -
  let ?k = "length xs - kCapacity"
  have "newest xs @ ys = drop ?k (xs @ ys)" by (simp add: newest_def)
  moreover have "length (xs @ ys) - ?k - kCapacity + ?k = length (xs @ ys) - kCapacity"
    by (cases "length xs \<le> kCapacity") auto
  ultimately show ?thesis by (simp only: newest_def length_drop drop_drop)
qed

lemma acc_append_one:
  assumes "acc_wf a"
  shows "contents (acc_append a [x]) = newest (contents a @ [x])"
proof (cases "m_size a < kCapacity")
  case True
  then show ?thesis
    using assms ring_push [of "m_buf a" kCapacity "m_size a" "m_read a" x]
    by (simp add: contents_def acc_append_def acc_wf_def store_bytes_def newest_def)
next
  case False
  with assms have "m_size a = kCapacity" by (simp add: acc_wf_def)
  then show ?thesis
    using assms ring_push_full [of "m_buf a" kCapacity "m_read a" x]
    by (simp add: contents_def acc_append_def acc_wf_def store_bytes_def newest_def drop_Suc)
qed

lemma acc_append_snoc:
  assumes "acc_wf a" and "data \<noteq> []"
  shows "acc_append a (data @ [x]) = acc_append (acc_append a data) [x]"
proof -
  let ?n = "m_size a + length data"
  have "(m_read a + (?n + 1 - kCapacity)) mod kCapacity =
      ((m_read a + (?n - kCapacity)) mod kCapacity + 1) mod kCapacity" if "kCapacity \<le> ?n"
    using that by (simp add: mod_simps Suc_diff_le)
  moreover have "m_read a mod kCapacity = m_read a" using assms(1) by (simp add: acc_wf_def)
  ultimately show ?thesis
    using assms(2) unfolding acc_append_def
    by (auto simp: Let_def store_bytes_snoc store_bytes_def [where data = "[x]"] mod_simps min_def
        not_less le_Suc_eq Suc_le_eq)
qed

lemma acc_wf_append_one: "acc_wf a \<Longrightarrow> acc_wf (acc_append a [x])"
  by (cases "m_size a = kCapacity")
    (auto simp: acc_wf_def acc_append_def store_bytes_def Let_def mod_simps)

lemma append_induct:
  assumes "acc_wf a"
  shows "acc_wf (acc_append a data) \<and> contents (acc_append a data) = newest (contents a @ data)"
proof (induction data rule: rev_induct)
  case Nil
  then show ?case using assms by (simp add: acc_append_def newest_def acc_wf_def)
next
  case (snoc x data)
  show ?case
  proof (cases "data = []")
    case True
    then show ?thesis using assms by (simp add: acc_append_one acc_wf_append_one)
  next
    case False
    with snoc assms show ?thesis
      using newest_newest [of "contents a @ data" "[x]"]
      by (simp add: acc_append_snoc acc_append_one acc_wf_append_one)
  qed
qed

lemma acc_wf_append [inv_intros]: "acc_wf a \<Longrightarrow> acc_wf (acc_append a data)"
  by (simp add: append_induct)

lemma contents_append: "acc_wf a \<Longrightarrow> contents (acc_append a data) = newest (contents a @ data)"
  by (simp add: append_induct)

lemma contents_append_fits:
  "acc_wf a \<Longrightarrow> m_size a + length data \<le> kCapacity \<Longrightarrow>
   contents (acc_append a data) = contents a @ data"
  by (simp add: contents_append newest_def)

text \<open>The other operations on the contents.\<close>

lemma contents_clear: "contents (clear a) = []" and acc_wf_clear [inv_intros]: "acc_wf a \<Longrightarrow> acc_wf (clear a)"
  by (simp_all add: contents_def ring_def clear_def acc_wf_def kMaxHuntBytes_def)

lemma contents_advance: "n \<le> m_size a \<Longrightarrow> contents (advance a n) = drop n (contents a)"
  by (simp add: contents_def advance_def ring_drop)

lemma acc_wf_advance [inv_intros]: "acc_wf a \<Longrightarrow> n \<le> m_size a \<Longrightarrow> acc_wf (advance a n)"
  by (auto simp: acc_wf_def advance_def mod_advance)

lemma contents_slid: "contents (a\<lparr>m_huntSlidBytes := k\<rparr>) = contents a"
  by (simp add: contents_def)

lemma contents_popFront:
  "n \<le> m_size a \<Longrightarrow> n \<noteq> 0 \<Longrightarrow>
   contents (popFront a n) =
     (if m_huntSlidBytes a + n \<ge> kMaxHuntBytes then [] else drop n (contents a))"
  by (simp add: popFront_def Let_def contents_clear contents_slid contents_advance)
    (simp add: advance_def)

lemma acc_wf_popFront [inv_intros]: "acc_wf a \<Longrightarrow> n \<le> m_size a \<Longrightarrow> acc_wf (popFront a n)"
  by (auto simp: popFront_def Let_def acc_wf_def advance_def clear_def mod_advance kMaxHuntBytes_def)

lemma pop_spec: "n \<le> m_size a \<Longrightarrow> n \<noteq> 0 \<Longrightarrow>
    pop a n = (take n (contents a), advance a n)"
  by (auto simp: pop_def consume_def contents_def ring_def take_map min_def)

lemma contents_extracted: "contents (onFrameExtracted a) = contents a"
  by (simp add: contents_def onFrameExtracted_def)

lemma acc_wf_extracted [inv_intros]: "acc_wf a \<Longrightarrow> acc_wf (onFrameExtracted a)"
  by (simp add: acc_wf_def onFrameExtracted_def kMaxHuntBytes_def)

lemma crcValid_contents:
  assumes "len \<le> m_size a" and "4 \<le> len"
  shows "crcValid a len = crc16ModbusVerify (take len (contents a))"
proof -
  have "foldl (\<lambda>crc i. crc_step_bitwise crc (peek a i)) c [0..<n] =
      foldl crc_step c (map (peek a) [0..<n])" for c n
    by (induction n) (simp_all add: crc_step_bitwise_eq)
  moreover have "map (peek a) [0..<len - 2] = take (len - 2) (take len (contents a))"
    by (rule nth_equalityI) (use assms in \<open>auto simp: peek_contents\<close>)
  ultimately show ?thesis
    using assms by (simp add: crcValid_def crc16ModbusVerify_def crc16Modbus_def peek_contents)
qed

section \<open>The decision about the front of the stream\<close>

text \<open>Wait for more bytes, cut a frame of that many bytes, or slide by one byte (and
  whether the loss of synchronisation is counted). With seven bytes the TCP branch reads the
  function code one byte past the contents: \<open>stale\<close> is whatever that cell holds.\<close>

datatype decision = Wait | Cut nat | Slide bool

definition checked_cut :: "bool \<Rightarrow> bytes \<Rightarrow> nat \<Rightarrow> decision" where
  "checked_cut isTcp bs n =
     (if length bs < n then Wait
      else if \<not> isTcp \<and> \<not> crc16ModbusVerify (take n bs) then Slide True else Cut n)"

definition decide :: "bool \<Rightarrow> u8 \<Rightarrow> bytes \<Rightarrow> decision" where
  "decide isTcp stale bs =
     (if isTcp then
        (if length bs < 7 then Wait
         else if (bs @ [stale]) ! 7 AND 0x80 \<noteq> 0 then checked_cut True bs 9
         else let n = unat (mk16 (bs ! 4) (bs ! 5))
              in if n < 2 \<or> 6 + n > kCapacity then Slide False else checked_cut True bs (6 + n))
      else
        (if length bs < 4 then Wait
         else if bs ! 1 AND 0x80 \<noteq> 0 then checked_cut False bs 5
         else if bs ! 1 \<in> {1, 2, 3, 4} then checked_cut False bs (3 + unat (bs ! 2) + 2)
         else if bs ! 1 \<in> {5, 6, 0x0F, 0x10} then checked_cut False bs 8
         else Slide False))"

definition act :: "Accumulator \<Rightarrow> decision \<Rightarrow> bytes option \<times> Accumulator" where
  "act a d = (case d of Wait \<Rightarrow> (None, a) | Cut n \<Rightarrow> takeFrame a n | Slide c \<Rightarrow> hunt a c)"

lemma tryExtractFrame_rtu: "tryExtractFrame a False = act a (decide False stale (contents a))"
  unfolding tryExtractFrame_def decide_def act_def checked_cut_def
  by (auto simp: Let_def peek_contents crcValid_contents)

lemma tryExtractFrame_tcp: "tryExtractFrame a True = act a (decide True (peek a 7) (contents a))"
proof (cases "m_size a = 7")
  case True
  then show ?thesis
    unfolding tryExtractFrame_def decide_def act_def checked_cut_def
    by (auto simp: Let_def peek_contents nth_append)
next
  case False
  then show ?thesis
    unfolding tryExtractFrame_def decide_def act_def checked_cut_def
    by (auto simp: Let_def peek_contents nth_append)
qed

lemma tryExtractFrame_decide:
  "tryExtractFrame a isTcp = act a (decide isTcp (peek a 7) (contents a))"
  by (cases isTcp) (simp_all add: tryExtractFrame_tcp tryExtractFrame_rtu [where stale = "peek a 7"])

lemma decide_Cut_bounds: "decide isTcp stale bs = Cut n \<Longrightarrow> 5 \<le> n \<and> n \<le> length bs"
  by (auto simp: decide_def checked_cut_def Let_def split: if_splits)

lemma decide_Slide_nonempty: "decide isTcp stale bs = Slide c \<Longrightarrow> 4 \<le> length bs"
  by (auto simp: decide_def checked_cut_def Let_def split: if_splits)

text \<open>A decision to cut or to slide is not changed by what follows; only a slide that
  rested on the stale cell (a TCP stream of exactly seven bytes) is.\<close>

lemma checked_cut_append:
  "checked_cut isTcp bs n \<noteq> Wait \<Longrightarrow> checked_cut isTcp (bs @ ys) n = checked_cut isTcp bs n"
  by (auto simp: checked_cut_def split: if_splits)

lemma checked_cut_Cut: "checked_cut isTcp bs n = Cut m \<Longrightarrow> n = m \<and> m \<le> length bs"
  by (auto simp: checked_cut_def split: if_splits)

lemma decide_tcp_8:
  assumes "8 \<le> length bs"
  shows "decide True stale bs =
    (if bs ! 7 AND 0x80 \<noteq> 0 then checked_cut True bs 9
     else let n = unat (mk16 (bs ! 4) (bs ! 5))
          in if n < 2 \<or> 6 + n > kCapacity then Slide False else checked_cut True bs (6 + n))"
proof -
  have "(bs @ [stale]) ! 7 = bs ! 7" "\<not> length bs < 7" using assms by (simp_all add: nth_append)
  then show ?thesis by (simp only: decide_def if_True if_False)
qed

lemma decide_rtu_4:
  assumes "4 \<le> length bs"
  shows "decide False stale bs =
    (if bs ! 1 AND 0x80 \<noteq> 0 then checked_cut False bs 5
     else if bs ! 1 \<in> {1, 2, 3, 4} then checked_cut False bs (3 + unat (bs ! 2) + 2)
     else if bs ! 1 \<in> {5, 6, 0x0F, 0x10} then checked_cut False bs 8
     else Slide False)"
  using assms by (simp only: decide_def if_False not_less [symmetric])

lemma decide_append:
  assumes "decide isTcp stale bs \<noteq> Wait" and "isTcp \<Longrightarrow> length bs \<noteq> 7"
  shows "decide isTcp stale' (bs @ ys) = decide isTcp stale bs"
proof (cases isTcp)
  case True
  with assms have len: "8 \<le> length bs"
    by (cases "length bs < 7") (auto simp: decide_def)
  have nth: "(bs @ ys) ! 7 = bs ! 7" "(bs @ ys) ! 4 = bs ! 4" "(bs @ ys) ! 5 = bs ! 5"
    using len by (simp_all add: nth_append)
  have len': "8 \<le> length (bs @ ys)" using len by simp
  from assms(1) True show ?thesis
    by (auto simp: decide_tcp_8 [OF len] decide_tcp_8 [OF len'] nth Let_def checked_cut_append
        split: if_splits)
next
  case False
  with assms have len: "4 \<le> length bs"
    by (cases "length bs < 4") (auto simp: decide_def)
  have nth: "(bs @ ys) ! 1 = bs ! 1" "(bs @ ys) ! 2 = bs ! 2"
    using len by (simp_all add: nth_append)
  have len': "4 \<le> length (bs @ ys)" using len by simp
  from assms(1) False show ?thesis
    by (auto simp: decide_rtu_4 [OF len] decide_rtu_4 [OF len', simplified] nth [simplified]
        checked_cut_append split: if_splits)
qed

lemma decide_Cut_append:
  assumes "decide isTcp stale bs = Cut n"
  shows "decide isTcp stale' (bs @ ys) = Cut n"
proof -
  have "length bs \<noteq> 7" if "isTcp"
    using assms that
    by (auto simp: decide_def Let_def dest!: checked_cut_Cut split: if_splits)
  with assms decide_append [of isTcp stale bs stale' ys] show ?thesis by simp
qed

section \<open>Properties\<close>

text \<open>Appending refines appending to a byte list of which the newest 4096 bytes are
  kept, at every read index, across the end of the circular buffer and for chunks of any
  length.\<close>

theorem append_refines:
  assumes "acc_wf a"
  shows "acc_wf (acc_append a data) \<and> contents (acc_append a data) = newest (contents a @ data)"
  using assms by (rule append_induct)

definition demo_acc :: Accumulator where
  "demo_acc = acc_append acc_new [7, 3, 2, 0x12, 0x34]"

lemma acc_wf_new [inv_intros]: "acc_wf acc_new"
  by (simp add: acc_wf_def acc_new_def kCapacity_def kMaxHuntBytes_def)

lemma contents_new [simp]: "contents acc_new = []"
  by (simp add: contents_def acc_new_def ring_def)

theorem append_refines_witness:
  "contents demo_acc = [7, 3, 2, 0x12, 0x34]"
  using append_refines [OF acc_wf_new] by (simp add: demo_acc_def newest_def kCapacity_def)

lemma tryExtractFrame_contents:
  assumes "acc_wf a" and "tryExtractFrame a isTcp = (out, a')"
  shows "acc_wf a' \<and>
    (case decide isTcp (peek a 7) (contents a) of
       Wait \<Rightarrow> out = None \<and> a' = a
     | Cut n \<Rightarrow> out = Some (take n (contents a)) \<and> contents a' = drop n (contents a) \<and> m_huntSlidBytes a' = 0
     | Slide c \<Rightarrow> out = None \<and>
         contents a' = (if m_huntSlidBytes a + 1 \<ge> kMaxHuntBytes then [] else tl (contents a)))"
proof (cases "decide isTcp (peek a 7) (contents a)")
  case Wait
  then show ?thesis using assms by (simp add: tryExtractFrame_decide act_def)
next
  case (Cut n)
  have n: "n \<noteq> 0" "n \<le> m_size a" using decide_Cut_bounds [OF Cut] by auto
  with Cut assms show ?thesis
    by (auto simp: tryExtractFrame_decide act_def takeFrame_def pop_spec contents_extracted contents_advance
        onFrameExtracted_def [of "advance a n", THEN arg_cong, of m_huntSlidBytes]
        intro: acc_wf_extracted acc_wf_advance)
next
  case (Slide c)
  have n: "Suc 0 \<le> m_size a" using decide_Slide_nonempty [OF Slide] by simp
  have "acc_wf (popFront (if c then a\<lparr>m_huntCount := m_huntCount a + 1\<rparr> else a) 1)"
    using assms(1) n by (intro acc_wf_popFront) (simp_all add: acc_wf_def)
  moreover have "contents (popFront (if c then a\<lparr>m_huntCount := m_huntCount a + 1\<rparr> else a) 1) =
      (if m_huntSlidBytes a + 1 \<ge> kMaxHuntBytes then [] else tl (contents a))"
    using n contents_popFront [of 1 "if c then a\<lparr>m_huntCount := m_huntCount a + 1\<rparr> else a"]
    by (auto simp: drop_Suc contents_def)
  ultimately show ?thesis
    using Slide assms(2) by (auto simp: tryExtractFrame_decide act_def hunt_def)
qed

text \<open>\<open>tryExtractFrame\<close> depends on the contents alone (and, on a TCP stream of exactly
  seven bytes, on the stale cell behind them): it waits and changes nothing, or cuts off
  exactly the first \<open>n\<close> bytes and hands them out, or drops one byte, or, once 4096 bytes were
  dropped without a frame, all of them.\<close>

theorem tryExtractFrame_refines:
  assumes "acc_wf a" and "tryExtractFrame a isTcp = (out, a')"
  shows "acc_wf a' \<and>
    (case decide isTcp (peek a 7) (contents a) of
       Wait \<Rightarrow> out = None \<and> a' = a
     | Cut n \<Rightarrow> out = Some (take n (contents a)) \<and> contents a' = drop n (contents a) \<and> m_huntSlidBytes a' = 0
     | Slide c \<Rightarrow> out = None \<and>
         contents a' = (if m_huntSlidBytes a + 1 \<ge> kMaxHuntBytes then [] else tl (contents a)))"
  using assms by (rule tryExtractFrame_contents)

theorem tryExtractFrame_refines_witness:
  "\<exists>a'. tryExtractFrame (acc_append acc_new [0xFF, 7, 3, 2]) False = (None, a') \<and> contents a' = [7, 3, 2]"
proof -
  let ?a = "acc_append acc_new [0xFF, 7, 3, 2]"
  have wf: "acc_wf ?a" by (intro inv_intros)
  have c: "contents ?a = [0xFF, 7, 3, 2]"
    by (simp add: contents_append [OF acc_wf_new] newest_def kCapacity_def)
  obtain out a' where "tryExtractFrame ?a False = (out, a')" by fastforce
  moreover have "decide False (peek ?a 7) (contents ?a) = Slide False"
    by (simp add: c decide_def)
  moreover have "m_huntSlidBytes ?a = 0" by (simp add: acc_append_def acc_new_def)
  ultimately show ?thesis
    using tryExtractFrame_refines [OF wf, of False out a'] c by (auto simp: kMaxHuntBytes_def)
qed

end
