(* ===== verification/TxIds.thy ===== *)
theory TxIds
  imports Ens_Prelude
begin

text \<open>
  The 16-bit transaction id allocator of
  \<^verbatim>\<open>apps/ens_app/src/protocol/TransactionIdAllocator.h\<close>: the bitmap is the set of ids
  whose bit is set. \<open>id_pool\<close> is the contract its client, the Modbus engine, relies on;
  inside it the engine's pairing table is shown to stay in step with the pool.
\<close>

section \<open>The code\<close>

type_synonym txids = "nat set"

definition INVALID_ID :: u16 where
  "INVALID_ID = 0"

definition txids_new :: txids where
  "txids_new = {}"

text \<open>The scan \<open>for (uint32_t id = 1; id <= 65535; ++id)\<close>.\<close>

function alloc_scan :: "txids \<Rightarrow> nat \<Rightarrow> u16 \<times> txids" where
  "alloc_scan used tid =
     (if tid \<le> 65535
      then if tid \<notin> used then (of_nat tid, insert tid used) else alloc_scan used (Suc tid)
      else (INVALID_ID, used))"
  by pat_completeness auto
termination
  by (relation "measure (\<lambda>(used, tid). 65536 - tid)") auto

declare alloc_scan.simps [simp del]

definition allocate :: "txids \<Rightarrow> u16 \<times> txids" where
  "allocate used = alloc_scan used 1"

definition release :: "txids \<Rightarrow> u16 \<Rightarrow> txids" where
  "release used tid = (if tid \<noteq> INVALID_ID then used - {unat tid} else used)"

definition clearInFlight :: "txids \<Rightarrow> txids" where
  "clearInFlight used = {}"

definition isAllocated :: "txids \<Rightarrow> u16 \<Rightarrow> bool" where
  "isAllocated used tid \<longleftrightarrow> tid \<noteq> INVALID_ID \<and> unat tid \<in> used"

section \<open>What the scan finds\<close>

lemma alloc_scan_spec:
  "alloc_scan used i =
     (if \<exists>j. i \<le> j \<and> j \<le> 65535 \<and> j \<notin> used
      then let j = (LEAST j. i \<le> j \<and> j \<le> 65535 \<and> j \<notin> used) in (of_nat j, insert j used)
      else (0, used))"
proof (induction used i rule: alloc_scan.induct)
  case (1 used i)
  consider "65535 < i" | "i \<le> 65535" "i \<notin> used" | "i \<le> 65535" "i \<in> used"
    by linarith
  then show ?case
  proof cases
    case 1
    then show ?thesis by (auto simp: alloc_scan.simps INVALID_ID_def)
  next
    case 2
    then have "(LEAST j. i \<le> j \<and> j \<le> 65535 \<and> j \<notin> used) = i"
      by (intro Least_equality) auto
    with 2 show ?thesis by (auto simp: alloc_scan.simps)
  next
    case 3
    then have eq: "(\<lambda>j. i \<le> j \<and> j \<le> 65535 \<and> j \<notin> used) = (\<lambda>j. Suc i \<le> j \<and> j \<le> 65535 \<and> j \<notin> used)"
      by (metis Suc_leD not_less_eq_eq order_antisym)
    from 3 have "alloc_scan used i = alloc_scan used (Suc i)"
      by (subst alloc_scan.simps) simp
    with 3 "1.IH" show ?thesis unfolding eq by simp
  qed
qed

definition txids_wf :: "txids \<Rightarrow> bool" where
  "txids_wf used \<longleftrightarrow> used \<subseteq> {1..65535}"

definition txids_in_use :: "txids \<Rightarrow> u16 set" where
  "txids_in_use used = of_nat ` used"

lemma unat_of_nat_u16: "n \<le> 65535 \<Longrightarrow> unat (of_nat n :: u16) = n"
  by (simp add: unat_of_nat)

lemma of_nat_u16_inj: "m \<le> 65535 \<Longrightarrow> n \<le> 65535 \<Longrightarrow> (of_nat m :: u16) = of_nat n \<longleftrightarrow> m = n"
  by (metis unat_of_nat_u16)

lemma in_use_iff: "txids_wf used \<Longrightarrow> t \<in> txids_in_use used \<longleftrightarrow> unat t \<in> used"
  by (force simp: txids_wf_def txids_in_use_def unat_of_nat_u16 image_iff)

lemma in_use_isAllocated: "txids_wf used \<Longrightarrow> t \<in> txids_in_use used \<longleftrightarrow> isAllocated used t"
  by (auto simp: in_use_iff isAllocated_def INVALID_ID_def txids_wf_def)

lemma txids_wf_zero: "txids_wf used \<Longrightarrow> 0 \<notin> used"
  by (auto simp: txids_wf_def)

lemma zero_not_in_use: "txids_wf used \<Longrightarrow> 0 \<notin> txids_in_use used"
  by (auto simp: in_use_iff txids_wf_def)

lemma allocate_cases:
  assumes "txids_wf used"
  obtains (id) j where "1 \<le> j" "j \<le> 65535" "j \<notin> used" "\<forall>k. 1 \<le> k \<and> k < j \<longrightarrow> k \<in> used"
      "allocate used = (of_nat j, insert j used)"
    | (full) "used = {1..65535}" "allocate used = (0, used)"
proof (cases "\<exists>j. 1 \<le> j \<and> j \<le> 65535 \<and> j \<notin> used")
  case True
  let ?P = "\<lambda>j. 1 \<le> j \<and> j \<le> 65535 \<and> j \<notin> used"
  from True have P: "?P (LEAST j. ?P j)" by (rule LeastI_ex)
  have "k \<in> used" if "1 \<le> k" "k < (LEAST j. ?P j)" for k
    using not_less_Least [OF that(2)] that P by auto
  with P True show ?thesis
    by (intro id [of "LEAST j. ?P j"]) (auto simp: allocate_def alloc_scan_spec Let_def)
next
  case False
  then have "used = {1..65535}"
    using assms by (auto simp: txids_wf_def)
  with False show ?thesis
    by (intro full) (auto simp: allocate_def alloc_scan_spec)
qed

lemma txids_wf_new [inv_intros]: "txids_wf txids_new"
  by (simp add: txids_wf_def txids_new_def)

lemma txids_wf_allocate [inv_intros]: "txids_wf used \<Longrightarrow> txids_wf (snd (allocate used))"
  by (frule allocate_cases) (auto simp: txids_wf_def)

lemma txids_wf_release [inv_intros]: "txids_wf used \<Longrightarrow> txids_wf (release used t)"
  by (auto simp: txids_wf_def release_def)

lemma txids_wf_clear [inv_intros]: "txids_wf (clearInFlight used)"
  by (simp add: txids_wf_def clearInFlight_def)

lemma in_use_release: "txids_wf used \<Longrightarrow> txids_in_use (release used t) = txids_in_use used - {t}"
  using txids_wf_release [of used t]
  by (auto simp: in_use_iff release_def INVALID_ID_def word_unat_eq_iff txids_wf_zero)

lemma allocate_in_use:
  assumes "txids_wf used" and "allocate used = (t, used')" and "t \<noteq> 0"
  shows "t \<notin> txids_in_use used \<and> txids_in_use used' = insert t (txids_in_use used)"
  using assms(1)
proof (cases rule: allocate_cases)
  case (id j)
  with assms show ?thesis
    by (auto simp: in_use_iff unat_of_nat_u16 txids_in_use_def of_nat_u16_inj txids_wf_def)
next
  case full
  with assms show ?thesis by simp
qed

lemma allocate_zero:
  assumes "txids_wf used" and "allocate used = (0, used')"
  shows "used' = used \<and> used = {1..65535}"
  using assms(1)
proof (cases rule: allocate_cases)
  case (id j)
  with assms(2) have "(of_nat j :: u16) = of_nat 0" by simp
  with id show ?thesis using of_nat_u16_inj [of j 0] by simp
next
  case full
  with assms(2) show ?thesis by simp
qed

section \<open>The contract of an id pool\<close>

locale id_pool =
  fixes alloc :: "'p \<Rightarrow> u16 \<times> 'p"
    and rel :: "'p \<Rightarrow> u16 \<Rightarrow> 'p"
    and clr :: "'p \<Rightarrow> 'p"
    and in_use :: "'p \<Rightarrow> u16 set"
    and invar :: "'p \<Rightarrow> bool"
  assumes alloc_fresh: "invar p \<Longrightarrow> alloc p = (t, p') \<Longrightarrow> t \<noteq> 0 \<Longrightarrow>
        t \<notin> in_use p \<and> in_use p' = insert t (in_use p)"
    and alloc_none: "invar p \<Longrightarrow> alloc p = (0, p') \<Longrightarrow> p' = p"
    and rel_in_use: "invar p \<Longrightarrow> in_use (rel p t) = in_use p - {t}"
    and clr_in_use: "in_use (clr p) = {}"
    and invar_alloc: "invar p \<Longrightarrow> invar (snd (alloc p))"
    and invar_rel: "invar p \<Longrightarrow> invar (rel p t)"
    and invar_clr: "invar (clr p)"
begin

text \<open>A pairing table is in step with the pool when its keys are the ids in use. Every
  way the engine changes the two together keeps them in step.\<close>

lemma register_in_step:
  assumes "invar p" and "dom table = in_use p" and "alloc p = (t, p')" and "t \<noteq> 0"
  shows "dom (table(t \<mapsto> e)) = in_use p' \<and> table t = None"
  using alloc_fresh [OF assms(1,3,4)] assms(2) by auto

lemma retire_in_step:
  assumes "invar p" and "dom table = in_use p"
  shows "dom (table(t := None)) = in_use (rel p t)"
  using assms by (simp add: rel_in_use)

lemma reset_in_step: "dom Map.empty = in_use (clr p)"
  by (simp add: clr_in_use)

text \<open>Registering and rolling back gives back the ids that were in use before.\<close>

lemma rollback_in_use:
  assumes "invar p" and "alloc p = (t, p')" and "t \<noteq> 0"
  shows "in_use (rel p' t) = in_use p"
proof -
  have "invar p'" using invar_alloc [OF assms(1)] assms(2) by simp
  then show ?thesis
    using alloc_fresh [OF assms] by (simp add: rel_in_use)
qed

end

interpretation tx: id_pool allocate release clearInFlight txids_in_use txids_wf
proof unfold_locales
  show "t \<notin> txids_in_use p \<and> txids_in_use p' = insert t (txids_in_use p)"
    if "txids_wf p" "allocate p = (t, p')" "t \<noteq> 0" for p t p'
    using that by (rule allocate_in_use)
  show "p' = p" if "txids_wf p" "allocate p = (0, p')" for p p'
    using allocate_zero [OF that] by simp
  show "txids_in_use (clearInFlight p) = {}" for p
    by (simp add: txids_in_use_def clearInFlight_def)
qed (auto intro: inv_intros simp: in_use_release)

section \<open>Property\<close>

text \<open>As long as an id from 1 to 65535 is free, \<open>allocate\<close> returns the least free one
  and marks it; only when all are taken does it return the invalid id, and then it changes
  nothing.\<close>

theorem allocate_least_free:
  assumes "txids_wf used"
  shows "(fst (allocate used) = INVALID_ID \<longrightarrow> used = {1..65535} \<and> snd (allocate used) = used) \<and>
    (fst (allocate used) \<noteq> INVALID_ID \<longrightarrow>
      \<not> isAllocated used (fst (allocate used)) \<and>
      (\<forall>t. t \<noteq> 0 \<longrightarrow> t < fst (allocate used) \<longrightarrow> isAllocated used t) \<and>
      (\<forall>t. isAllocated (snd (allocate used)) t \<longleftrightarrow> t = fst (allocate used) \<or> isAllocated used t))"
  using assms
proof (cases rule: allocate_cases)
  case (id j)
  have u: "unat (of_nat j :: u16) = j" using id(2) by (rule unat_of_nat_u16)
  then have nz: "(of_nat j :: u16) \<noteq> 0" using id(1) by (metis not_one_le_zero unat_0)
  have below: "isAllocated used t" if "t \<noteq> 0" "t < of_nat j" for t
    using that id(4) u by (auto simp: isAllocated_def INVALID_ID_def word_less_nat_alt unat_gt_0 [symmetric])
  have eq: "unat t = j \<longleftrightarrow> t = of_nat j" for t :: u16
    using u by (metis word_unat_eq_iff)
  have "unat (of_nat j :: u16) \<notin> used" using id(3) u by simp
  then show ?thesis
    using id(5) nz below eq by (auto simp: isAllocated_def INVALID_ID_def)
next
  case full
  then show ?thesis by (simp add: INVALID_ID_def)
qed

theorem allocate_least_free_witness:
  "isAllocated {1, 2} 1 \<and> fst (allocate {1, 2}) = 3 \<and> \<not> isAllocated {1, 2} (fst (allocate {1, 2}))"
proof -
  have "fst (allocate {1, 2}) = 3" by (simp add: allocate_def alloc_scan.simps)
  then show ?thesis
    using allocate_least_free [of "{1, 2}"] by (simp add: txids_wf_def isAllocated_def INVALID_ID_def)
qed

end
