(* ===== verification/ModbusEngine.thy ===== *)
theory ModbusEngine
  imports Accumulator TxIds
begin

text \<open>
  The protocol engine, \<^verbatim>\<open>apps/ens_app/src/protocol/ModbusEngine.h\<close> and \<^verbatim>\<open>.cpp\<close>: it
  frames requests, pairs TCP responses with the request in flight, and cuts and parses what
  the channel receives. Qt signals are the list of emissions a slot returns, in order. The
  channel's \<open>write\<close> is the parameter \<open>chWrite\<close>, its return value for the bytes it is given.
\<close>

section \<open>The code\<close>

datatype FrameErrorKind = Crc | Length | Malformed | Timeout | Exception | Unsupported | Spurious

record InFlightEntry =
  fl_linkId :: u32
  fl_slaveAddress :: u8

record Engine =
  m_channel :: bool  \<comment> \<open>the channel pointer is not null\<close>
  m_transport :: Transport
  m_inFlight :: "u16 \<rightharpoonup> InFlightEntry"
  m_accumulator :: Accumulator
  m_txIdAllocator :: txids

datatype EngineSignal =
    ResponseParsed u32 u8 ModbusResponse
  | FrameError u32 u8 FrameErrorKind

definition engine_new :: "bool \<Rightarrow> Transport \<Rightarrow> Engine" where
  "engine_new channel transport =
     \<lparr>m_channel = channel, m_transport = transport, m_inFlight = Map.empty,
      m_accumulator = acc_new, m_txIdAllocator = txids_new\<rparr>"

text \<open>The first part of \<open>writeRequest\<close>: on a TCP engine a TCP request gets a transaction
  id and is registered; \<open>None\<close> is the return on an exhausted bitmap.\<close>

definition registerRequest ::
  "Engine \<Rightarrow> ModbusRequest \<Rightarrow> u32 \<Rightarrow> (ModbusRequest \<times> Engine) option" where
  "registerRequest e r linkId =
     (if m_transport e = Tcp \<and> rq_transport r = Tcp then
        (case allocate (m_txIdAllocator e) of (tid, ids) \<Rightarrow>
           if tid = INVALID_ID then None
           else Some (r\<lparr>rq_transactionId := tid\<rparr>,
             e\<lparr>m_txIdAllocator := ids,
               m_inFlight :=
                 (if m_inFlight e tid = None
                  then (m_inFlight e)(tid \<mapsto> \<lparr>fl_linkId = linkId, fl_slaveAddress = rq_slaveAddress r\<rparr>)
                  else m_inFlight e)\<rparr>))
      else Some (r, e))"

definition rollback :: "Engine \<Rightarrow> u16 \<Rightarrow> Engine" where
  "rollback e tid =
     (if tid \<noteq> 0
      then e\<lparr>m_inFlight := (m_inFlight e)(tid := None),
             m_txIdAllocator := release (m_txIdAllocator e) tid\<rparr>
      else e)"

text \<open>\<open>writeRequest\<close>: its return value, the bytes given to the channel, the new state.\<close>

definition writeRequest ::
  "(bytes \<Rightarrow> int) \<Rightarrow> Engine \<Rightarrow> ModbusRequest \<Rightarrow> u32 \<Rightarrow> int \<times> bytes option \<times> Engine" where
  "writeRequest chWrite e req linkId =
     (if \<not> m_channel e then (-1, None, e)
      else case registerRequest e req linkId of
        None \<Rightarrow> (-1, None, e)
      | Some (r, e') \<Rightarrow>
          let frame = buildRequest r
          in if frame = [] then (-1, None, rollback e' (rq_transactionId r))
             else (chWrite frame, Some frame, e'))"

definition parse_for :: "Transport \<Rightarrow> bytes \<Rightarrow> ModbusResponse option" where
  "parse_for t frame =
     (case t of Tcp \<Rightarrow> parseTcpResponse frame (length frame)
              | Rtu \<Rightarrow> parseRtuResponse frame (length frame))"

definition report :: "u32 \<Rightarrow> u8 \<Rightarrow> ModbusResponse \<Rightarrow> EngineSignal list" where
  "report link slave resp =
     (if rs_isException resp
      then [ResponseParsed link slave resp, FrameError link slave Exception]
      else [ResponseParsed link slave resp])"

text \<open>The body of the receive loop, for one frame.\<close>

definition handle_frame :: "Engine \<Rightarrow> bytes \<Rightarrow> EngineSignal list \<times> Engine" where
  "handle_frame e frame =
     (case parse_for (m_transport e) frame of
        None \<Rightarrow> ([FrameError 0 0 Malformed], e)
      | Some resp \<Rightarrow>
          (case m_transport e of
             Tcp \<Rightarrow>
               let tid = rs_transactionId resp
               in (case m_inFlight e tid of
                     None \<Rightarrow> ([FrameError 0 (rs_slaveAddress resp) Spurious], e)
                   | Some entry \<Rightarrow>
                       (report (fl_linkId entry) (fl_slaveAddress entry) resp,
                        e\<lparr>m_inFlight := (m_inFlight e)(tid := None),
                          m_txIdAllocator := release (m_txIdAllocator e) tid\<rparr>))
           | Rtu \<Rightarrow> (report 0 (rs_slaveAddress resp) resp, e)))"

lemma handle_frame_acc [simp]: "m_accumulator (snd (handle_frame e f)) = m_accumulator e"
  by (simp add: handle_frame_def Let_def split: option.split Transport.split)

lemma tryExtract_smaller:
  assumes "tryExtractFrame a isTcp = (Some f, a')"
  shows "m_size a' < m_size a"
proof -
  from assms obtain n where n: "decide isTcp (peek a 7) (contents a) = Cut n"
    and "takeFrame a n = (Some f, a')"
    by (auto simp: tryExtractFrame_decide act_def hunt_def split: decision.splits)
  moreover have "5 \<le> n \<and> n \<le> m_size a" using decide_Cut_bounds [OF n] by simp
  ultimately show ?thesis
    by (auto simp: takeFrame_def pop_spec onFrameExtracted_def advance_def)
qed

function receive_loop :: "Engine \<Rightarrow> EngineSignal list \<times> Engine" where
  "receive_loop e =
     (case tryExtractFrame (m_accumulator e) (m_transport e = Tcp) of
        (None, acc) \<Rightarrow> ([], e\<lparr>m_accumulator := acc\<rparr>)
      | (Some frame, acc) \<Rightarrow>
          if length frame > 0 then
            (case handle_frame (e\<lparr>m_accumulator := acc\<rparr>) frame of (sigs, e1) \<Rightarrow>
              (case receive_loop e1 of (rest, e2) \<Rightarrow> (sigs @ rest, e2)))
          else ([], e\<lparr>m_accumulator := acc\<rparr>))"
  by pat_completeness auto
termination
proof (relation "measure (\<lambda>e. m_size (m_accumulator e))")
  fix e r acc frame sigs e1
  assume "(r, acc) = tryExtractFrame (m_accumulator e) (m_transport e = Tcp)"
    and "r = Some frame" and "0 < length frame"
    and h: "(sigs, e1) = handle_frame (e\<lparr>m_accumulator := acc\<rparr>) frame"
  then have "m_size acc < m_size (m_accumulator e)"
    by (intro tryExtract_smaller [where isTcp = "m_transport e = Tcp" and f = frame]) simp
  moreover have "e1 = snd (handle_frame (e\<lparr>m_accumulator := acc\<rparr>) frame)"
    using h by (metis snd_conv)
  ultimately show "(e1, e) \<in> measure (\<lambda>e. m_size (m_accumulator e))"
    by simp
qed auto

declare receive_loop.simps [simp del]

definition onBytesReceived :: "Engine \<Rightarrow> bytes \<Rightarrow> EngineSignal list \<times> Engine" where
  "onBytesReceived e data =
     (if data = [] then ([], e)
      else receive_loop (e\<lparr>m_accumulator := acc_append (m_accumulator e) data\<rparr>))"

definition onConnectionChanged :: "Engine \<Rightarrow> bool \<Rightarrow> Engine" where
  "onConnectionChanged e isUp =
     (if isUp then e
      else e\<lparr>m_inFlight := Map.empty, m_txIdAllocator := clearInFlight (m_txIdAllocator e)\<rparr>)"

fun frameErrorKindToString :: "FrameErrorKind \<Rightarrow> string" where
  "frameErrorKindToString Crc = ''Crc''"
| "frameErrorKindToString Length = ''Length''"
| "frameErrorKindToString Malformed = ''Malformed''"
| "frameErrorKindToString Timeout = ''Timeout''"
| "frameErrorKindToString Exception = ''Exception''"
| "frameErrorKindToString Unsupported = ''Unsupported''"
| "frameErrorKindToString Spurious = ''Spurious''"

section \<open>The pairing table and the bitmap stay in step\<close>

definition engine_inv :: "Engine \<Rightarrow> bool" where
  "engine_inv e \<longleftrightarrow> txids_wf (m_txIdAllocator e) \<and> acc_wf (m_accumulator e) \<and>
     dom (m_inFlight e) = txids_in_use (m_txIdAllocator e)"

lemma engine_inv_new [inv_intros]: "engine_inv (engine_new ch t)"
  by (simp add: engine_inv_def engine_new_def acc_wf_new txids_wf_def txids_in_use_def txids_new_def)

lemma engine_inv_register:
  assumes "engine_inv e" and "registerRequest e r link = Some (r', e')"
  shows "engine_inv e'"
proof (cases "m_transport e = Tcp \<and> rq_transport r = Tcp")
  case True
  obtain tid ids where alloc: "allocate (m_txIdAllocator e) = (tid, ids)" by fastforce
  with True assms(2) have "tid \<noteq> 0"
    by (auto simp: registerRequest_def INVALID_ID_def split: if_splits)
  with assms(1) alloc have "dom ((m_inFlight e)(tid \<mapsto> entry)) = txids_in_use ids \<and> m_inFlight e tid = None"
    for entry
    by (intro tx.register_in_step) (auto simp: engine_inv_def)
  moreover have "txids_wf ids"
    using assms(1) alloc txids_wf_allocate [of "m_txIdAllocator e"] by (simp add: engine_inv_def)
  ultimately show ?thesis
    using True assms alloc \<open>tid \<noteq> 0\<close>
    by (clarsimp simp: registerRequest_def engine_inv_def INVALID_ID_def simp del: dom_fun_upd)
next
  case False
  with assms show ?thesis by (auto simp: registerRequest_def)
qed

lemma engine_inv_retire:
  "engine_inv e \<Longrightarrow> engine_inv (e\<lparr>m_inFlight := (m_inFlight e)(tid := None),
     m_txIdAllocator := release (m_txIdAllocator e) tid\<rparr>)"
  using tx.retire_in_step [of "m_txIdAllocator e" "m_inFlight e" tid]
  by (simp add: engine_inv_def txids_wf_release)

lemma engine_inv_rollback: "engine_inv e \<Longrightarrow> engine_inv (rollback e tid)"
  by (simp add: rollback_def engine_inv_retire)

lemma engine_inv_writeRequest [inv_intros]:
  "engine_inv e \<Longrightarrow> engine_inv (snd (snd (writeRequest w e r link)))"
  by (auto simp: writeRequest_def Let_def dest: engine_inv_register intro: engine_inv_rollback
      split: option.split prod.split)

lemma engine_inv_handle [inv_intros]: "engine_inv e \<Longrightarrow> engine_inv (snd (handle_frame e f))"
  by (auto simp: handle_frame_def Let_def engine_inv_retire split: option.split Transport.split)

lemma acc_wf_tryExtract: "acc_wf a \<Longrightarrow> acc_wf (snd (tryExtractFrame a isTcp))"
proof -
  assume wf: "acc_wf a"
  have cut: "acc_wf (snd (takeFrame a n))" if "decide isTcp (peek a 7) (contents a) = Cut n" for n
    using decide_Cut_bounds [OF that] wf
    by (simp add: takeFrame_def pop_spec acc_wf_extracted acc_wf_advance)
  have slide: "acc_wf (snd (hunt a c))" if "decide isTcp (peek a 7) (contents a) = Slide c" for c
    using decide_Slide_nonempty [OF that] wf acc_wf_popFront [of a 1]
      acc_wf_popFront [of "a\<lparr>m_huntCount := m_huntCount a + 1\<rparr>" 1]
    by (simp add: hunt_def acc_wf_def)
  show ?thesis
    unfolding tryExtractFrame_decide act_def using wf cut slide by (auto split: decision.split)
qed

lemma engine_inv_acc: "engine_inv e \<Longrightarrow> acc_wf a \<Longrightarrow> engine_inv (e\<lparr>m_accumulator := a\<rparr>)"
  by (simp add: engine_inv_def)

lemma engine_inv_receive_loop: "engine_inv e \<Longrightarrow> engine_inv (snd (receive_loop e))"
proof (induction e rule: receive_loop.induct)
  case (1 e)
  obtain out acc where ex: "tryExtractFrame (m_accumulator e) (m_transport e = Tcp) = (out, acc)"
    by fastforce
  have "acc_wf (snd (tryExtractFrame (m_accumulator e) (m_transport e = Tcp)))"
    using "1.prems" by (intro acc_wf_tryExtract) (simp add: engine_inv_def)
  then have inv: "engine_inv (e\<lparr>m_accumulator := acc\<rparr>)"
    using "1.prems" ex by (simp add: engine_inv_acc)
  show ?case
  proof (cases "\<exists>f. out = Some f \<and> length f > 0")
    case True
    then obtain f where f: "out = Some f" "length f > 0" by blast
    obtain sigs e1 where h: "handle_frame (e\<lparr>m_accumulator := acc\<rparr>) f = (sigs, e1)" by fastforce
    then have "engine_inv e1" using engine_inv_handle [OF inv, of f] by simp
    then have "engine_inv (snd (receive_loop e1))"
      using "1.IH" ex f h by metis
    then show ?thesis
      using f h by (subst receive_loop.simps) (auto simp: ex split: prod.split)
  next
    case False
    with inv show ?thesis
      by (subst receive_loop.simps) (auto simp: ex split: option.split)
  qed
qed

lemma engine_inv_bytes [inv_intros]: "engine_inv e \<Longrightarrow> engine_inv (snd (onBytesReceived e data))"
  unfolding onBytesReceived_def
  using engine_inv_receive_loop [OF engine_inv_acc [of e "acc_append (m_accumulator e) data"]]
  by (simp add: acc_wf_append engine_inv_def)

lemma engine_inv_connection [inv_intros]: "engine_inv e \<Longrightarrow> engine_inv (onConnectionChanged e up)"
  by (simp add: onConnectionChanged_def engine_inv_def txids_wf_clear tx.clr_in_use)

section \<open>Frames on the wire\<close>

text \<open>A frame that the accumulator cuts as a whole; on TCP its MBAP length is that of the
  bytes behind it.\<close>

definition wire_frame :: "Transport \<Rightarrow> bytes \<Rightarrow> bool" where
  "wire_frame t f \<longleftrightarrow> decide (t = Tcp) 0 f = Cut (length f) \<and>
     (t = Tcp \<longrightarrow> length f = 6 + unat (mk16 (f ! 4) (f ! 5)))"

lemma wire_frame_size: "wire_frame t f \<Longrightarrow> 5 \<le> length f"
  using decide_Cut_bounds by (auto simp: wire_frame_def)

lemma wire_frame_tcp_size: "wire_frame Tcp f \<Longrightarrow> 8 \<le> length f"
  by (auto simp: wire_frame_def decide_def checked_cut_def Let_def split: if_splits)

lemma wire_frame_cut: "wire_frame t f \<Longrightarrow> decide (t = Tcp) stale (f @ ys) = Cut (length f)"
  by (auto simp: wire_frame_def intro: decide_Cut_append)

text \<open>A proper prefix of a frame waits.\<close>

lemma wire_frame_7:
  assumes "wire_frame Tcp f"
  shows "decide True stale (take 7 f) = Wait"
proof -
  from assms have len: "8 \<le> length f" "length f = 6 + unat (mk16 (f ! 4) (f ! 5))"
    using wire_frame_tcp_size by (auto simp: wire_frame_def)
  have "6 + unat (mk16 (f ! 4) (f ! 5)) \<le> kCapacity \<or> f ! 7 AND 0x80 \<noteq> 0"
    using assms by (auto simp: wire_frame_def decide_tcp_8 len(1) Let_def split: if_splits)
  moreover have "length f = 9" if "f ! 7 AND 0x80 \<noteq> 0"
    using assms that by (auto simp: wire_frame_def decide_tcp_8 len(1) dest: checked_cut_Cut)
  ultimately have "6 + unat (mk16 (f ! 4) (f ! 5)) \<le> kCapacity"
    using len(2) by (auto simp: kCapacity_def)
  with len show ?thesis
    by (auto simp: decide_def checked_cut_def Let_def)
qed

lemma wire_prefix_waits:
  assumes "wire_frame t f" and "k < length f"
  shows "decide (t = Tcp) stale (take k f) = Wait"
proof (cases "t = Tcp \<and> k = 7")
  case True
  with assms show ?thesis using wire_frame_7 by auto
next
  case False
  then have "t = Tcp \<Longrightarrow> length (take k f) \<noteq> 7" using assms(2) by auto
  then have "decide (t = Tcp) stale (take k f) \<noteq> Wait \<Longrightarrow>
      decide (t = Tcp) stale (take k f) = decide (t = Tcp) 0 (take k f @ drop k f)"
    using decide_append [of "t = Tcp" stale "take k f" 0 "drop k f"] by auto
  then have "decide (t = Tcp) stale (take k f) \<noteq> Wait \<Longrightarrow>
      decide (t = Tcp) stale (take k f) = Cut (length f)"
    using assms(1) by (simp add: wire_frame_def)
  then show ?thesis
    using decide_Cut_bounds [of "t = Tcp" stale "take k f" "length f"] assms(2) by auto
qed

lemma wire_tcp_adu:
  assumes "2 \<le> length body" and "6 + length body \<le> kCapacity"
    and "body ! 1 AND 0x80 \<noteq> 0 \<Longrightarrow> length body = 3"
  shows "wire_frame Tcp (tcp_adu tid body)"
proof -
  have len: "unat (of_nat (length body) :: u16) = length body"
    using assms(2) by (simp add: unat_of_nat kCapacity_def)
  have "mk16 (tcp_adu tid body ! 4) (tcp_adu tid body ! 5) = of_nat (length body)"
    by (simp add: tcp_adu_def u16be_def)
  with assms show ?thesis
    by (simp add: wire_frame_def decide_tcp_8 checked_cut_def Let_def len)
qed

lemma wire_rtu_adu:
  assumes "2 \<le> length body"
    and "body ! 1 AND 0x80 \<noteq> 0 \<and> length body = 3 \<or>
      body ! 1 AND 0x80 = 0 \<and> body ! 1 \<in> {1, 2, 3, 4} \<and> length body = 3 + unat (body ! 2) \<or>
      body ! 1 AND 0x80 = 0 \<and> body ! 1 \<in> {5, 6, 0x0F, 0x10} \<and> length body = 6"
  shows "wire_frame Rtu (rtu_adu body)"
proof -
  have nth: "rtu_adu body ! 1 = body ! 1" "3 \<le> length body \<Longrightarrow> rtu_adu body ! 2 = body ! 2"
    using assms(1) by (auto intro!: rtu_adu_nth)
  have four: "4 \<le> length (rtu_adu body)" using assms(1) by simp
  have cut: "checked_cut False (rtu_adu body) (length body + 2) = Cut (length body + 2)"
    using assms(1) rtu_adu_verify [of body] by (simp add: checked_cut_def)
  from assms(2) show ?thesis
  proof (elim disjE conjE)
    assume h: "body ! 1 AND 0x80 \<noteq> 0" "length body = 3"
    with cut show ?thesis unfolding wire_frame_def by (simp add: decide_rtu_4 [OF four] nth [simplified])
  next
    assume h: "body ! 1 AND 0x80 = 0" "body ! 1 \<in> {1, 2, 3, 4}" "length body = 3 + unat (body ! 2)"
    with cut nth(2) show ?thesis
      unfolding wire_frame_def by (simp add: decide_rtu_4 [OF four] nth(1) [simplified] add.commute)
  next
    assume h: "body ! 1 AND 0x80 = 0" "body ! 1 \<in> {5, 6, 0x0F, 0x10}" "length body = 6"
    with cut show ?thesis
      unfolding wire_frame_def by (auto simp: decide_rtu_4 [OF four] nth(1) [simplified])
  qed
qed

section \<open>Fragmentation and coalescing\<close>

fun handle_frames :: "Engine \<Rightarrow> bytes list \<Rightarrow> EngineSignal list \<times> Engine" where
  "handle_frames e [] = ([], e)"
| "handle_frames e (f # fs) =
     (case handle_frame e f of (sigs, e1) \<Rightarrow>
       (case handle_frames e1 fs of (rest, e2) \<Rightarrow> (sigs @ rest, e2)))"

fun receive_all :: "Engine \<Rightarrow> bytes list \<Rightarrow> EngineSignal list \<times> Engine" where
  "receive_all e [] = ([], e)"
| "receive_all e (c # cs) =
     (case onBytesReceived e c of (sigs, e1) \<Rightarrow>
       (case receive_all e1 cs of (rest, e2) \<Rightarrow> (sigs @ rest, e2)))"

definition with_acc :: "Accumulator \<Rightarrow> EngineSignal list \<times> Engine \<Rightarrow> EngineSignal list \<times> Engine" where
  "with_acc a r = (fst r, (snd r)\<lparr>m_accumulator := a\<rparr>)"

lemma handle_frame_with_acc:
  "handle_frame (e\<lparr>m_accumulator := a\<rparr>) f = with_acc a (handle_frame e f)"
  by (simp add: handle_frame_def with_acc_def Let_def split: option.split Transport.split)

lemma handle_frames_with_acc:
  "handle_frames (e\<lparr>m_accumulator := a\<rparr>) fs = with_acc a (handle_frames e fs)"
proof (induction fs arbitrary: e)
  case Nil
  then show ?case by (simp add: with_acc_def)
next
  case (Cons f fs)
  obtain sigs e1 where "handle_frame e f = (sigs, e1)" by fastforce
  then show ?case
    using Cons.IH [of e1] by (simp add: handle_frame_with_acc with_acc_def split: prod.split)
qed

lemma handle_frame_transport [simp]: "m_transport (snd (handle_frame e f)) = m_transport e"
  by (simp add: handle_frame_def Let_def split: option.split Transport.split)

lemma handle_frames_transport [simp]: "m_transport (snd (handle_frames e fs)) = m_transport e"
proof (induction fs arbitrary: e)
  case (Cons f fs)
  then show ?case by (simp add: case_prod_beta)
qed simp

lemma handle_frames_append:
  "handle_frames e (fs @ gs) =
     (fst (handle_frames e fs) @ fst (handle_frames (snd (handle_frames e fs)) gs),
      snd (handle_frames (snd (handle_frames e fs)) gs))"
  by (induction fs arbitrary: e) (simp_all split: prod.split)

text \<open>The loop cuts exactly the complete frames and keeps the rest.\<close>

lemma receive_loop_frames:
  assumes "acc_wf (m_accumulator e)" and "contents (m_accumulator e) = concat fs @ p"
    and "\<forall>f \<in> set fs. wire_frame (m_transport e) f"
    and "\<And>stale. decide (m_transport e = Tcp) stale p = Wait"
  shows "\<exists>a. receive_loop e = with_acc a (handle_frames e fs) \<and> acc_wf a \<and> contents a = p"
  using assms
proof (induction fs arbitrary: e)
  case Nil
  then have "tryExtractFrame (m_accumulator e) (m_transport e = Tcp) = (None, m_accumulator e)"
    by (simp add: tryExtractFrame_decide act_def)
  with Nil show ?case
    by (intro exI [of _ "m_accumulator e"], subst receive_loop.simps) (simp add: with_acc_def)
next
  case (Cons f fs)
  let ?a = "m_accumulator e"
  let ?a' = "onFrameExtracted (advance ?a (length f))"
  have "decide (m_transport e = Tcp) (peek ?a 7) (contents ?a) = Cut (length f)"
    using Cons.prems(2,3) wire_frame_cut [of "m_transport e" f _ "concat fs @ p"] by simp
  moreover have len: "length f \<le> m_size ?a" "0 < length f"
    using arg_cong [OF Cons.prems(2), of length] Cons.prems(3) wire_frame_size [of "m_transport e" f]
    by auto
  moreover have "take (length f) (contents ?a) = f"
    using Cons.prems(2) by simp
  ultimately have cut: "tryExtractFrame ?a (m_transport e = Tcp) = (Some f, ?a')"
    by (simp add: tryExtractFrame_decide act_def takeFrame_def pop_spec)
  obtain sigs e1 where h: "handle_frame e f = (sigs, e1)" by fastforce
  let ?e1 = "e1\<lparr>m_accumulator := ?a'\<rparr>"
  have "contents ?a' = concat fs @ p"
    using Cons.prems(2) len by (simp add: contents_extracted contents_advance)
  moreover have "acc_wf ?a'" using Cons.prems(1) len by (intro inv_intros) simp_all
  moreover have t: "m_transport e1 = m_transport e" using h handle_frame_transport [of e f] by simp
  ultimately obtain a where
    a: "receive_loop ?e1 = with_acc a (handle_frames ?e1 fs)" "acc_wf a" "contents a = p"
    using Cons.IH [of ?e1] Cons.prems(3,4) by auto
  have "receive_loop e = with_acc a (handle_frames e (f # fs))"
    by (subst receive_loop.simps)
      (simp add: cut h a(1) handle_frame_with_acc handle_frames_with_acc with_acc_def len(2) [simplified]
        split: prod.split)
  with a show ?case by blast
qed

text \<open>Any bytes that begin a sequence of frames are some complete frames and a proper prefix
  of the next one.\<close>

definition between_frames :: "bytes \<Rightarrow> bytes list \<Rightarrow> bool" where
  "between_frames p fs \<longleftrightarrow> p = [] \<or> (\<exists>f fs'. fs = f # fs' \<and> (\<exists>k < length f. p = take k f))"

lemma split_frames:
  assumes "xs @ ys = concat fs" and "\<forall>f \<in> set fs. f \<noteq> []"
  shows "\<exists>gs hs p. fs = gs @ hs \<and> xs = concat gs @ p \<and> between_frames p hs"
  using assms
proof (induction fs arbitrary: xs)
  case Nil
  then show ?case by (auto simp: between_frames_def)
next
  case (Cons f fs)
  show ?case
  proof (cases "length f \<le> length xs")
    case True
    with Cons.prems(1) obtain us where us: "xs = f @ us" "us @ ys = concat fs"
      by (auto simp: append_eq_append_conv2)
    with Cons.IH [of us] Cons.prems(2) obtain gs hs p
      where "fs = gs @ hs" "us = concat gs @ p" "between_frames p hs"
      by auto
    with us show ?thesis
      by (intro exI [of _ "f # gs"] exI [of _ hs] exI [of _ p]) auto
  next
    case False
    with Cons.prems(1) have "xs = take (length xs) f"
      by (auto simp: append_eq_append_conv_if)
    with False have "between_frames xs (f # fs)" by (auto simp: between_frames_def)
    then show ?thesis
      by (intro exI [of _ "[]"] exI [of _ "f # fs"] exI [of _ xs]) auto
  qed
qed

lemma waits_nil: "decide isTcp stale [] = Wait"
  by (simp add: decide_def)

text \<open>However the stream of a sequence of frames is split into chunks, the engine reports
  what it would report for the frames one by one, and keeps nothing back.\<close>

lemma between_frames_waits:
  "between_frames p fs \<Longrightarrow> \<forall>f \<in> set fs. wire_frame t f \<Longrightarrow> decide (t = Tcp) stale p = Wait"
  by (auto simp: between_frames_def waits_nil wire_prefix_waits)

lemma receive_all_frames:
  assumes "acc_wf (m_accumulator e)" and "contents (m_accumulator e) @ concat cs = concat fs"
    and "\<forall>f \<in> set fs. wire_frame (m_transport e) f"
    and "\<forall>c \<in> set cs. \<forall>f \<in> set fs. length c + length f \<le> kCapacity"
    and "between_frames (contents (m_accumulator e)) fs"
  shows "\<exists>a. receive_all e cs = with_acc a (handle_frames e fs) \<and> contents a = []"
  using assms
proof (induction cs arbitrary: e fs)
  case Nil
  then have "concat fs = contents (m_accumulator e)" by simp
  with Nil.prems(3,5) have "fs = []"
    by (cases fs) (auto simp: between_frames_def dest!: wire_frame_size arg_cong [where f = length])
  with Nil.prems(2) show ?case
    by (intro exI [of _ "m_accumulator e"]) (simp add: with_acc_def)
next
  case (Cons c cs)
  show ?case
  proof (cases "c = []")
    case True
    with Cons.IH [of e fs] Cons.prems show ?thesis
      by (simp add: onBytesReceived_def case_prod_beta)
  next
    case False
    let ?p = "contents (m_accumulator e)"
    let ?a = "acc_append (m_accumulator e) c"
    have ne: "\<forall>f \<in> set fs. f \<noteq> []" using Cons.prems(3) wire_frame_size by fastforce
    from False Cons.prems(2) obtain f fs' where fs: "fs = f # fs'" by (cases fs) auto
    have "m_size (m_accumulator e) \<le> length f"
      using Cons.prems(5) fs by (auto simp: between_frames_def dest!: arg_cong [where f = length])
    then have cont: "contents ?a = ?p @ c"
      using Cons.prems(1,4) fs by (intro contents_append_fits) (auto intro: le_trans)
    from Cons.prems(2) have all: "(?p @ c) @ concat cs = concat fs" by simp
    then obtain gs hs p' where split: "fs = gs @ hs" "?p @ c = concat gs @ p'" and p': "between_frames p' hs"
      using split_frames [OF _ ne] by blast
    let ?e = "e\<lparr>m_accumulator := ?a\<rparr>"
    have "decide (m_transport e = Tcp) stale p' = Wait" for stale
      using between_frames_waits [OF p'] Cons.prems(3) split(1) by simp
    then obtain a where a: "receive_loop ?e = with_acc a (handle_frames ?e gs)" "acc_wf a" "contents a = p'"
      using receive_loop_frames [of ?e gs p'] Cons.prems(1,3) split cont by (auto intro: acc_wf_append)
    let ?e1 = "(snd (handle_frames e gs))\<lparr>m_accumulator := a\<rparr>"
    have rest: "p' @ concat cs = concat hs"
      using all unfolding split by simp
    obtain a' where a': "receive_all ?e1 cs = with_acc a' (handle_frames ?e1 hs)" "contents a' = []"
      using Cons.IH [of ?e1 hs] Cons.prems(3,4) a p' rest split(1) by auto
    have "receive_all e (c # cs) = with_acc a' (handle_frames e fs)"
      using False a(1) a'(1)
      by (simp add: onBytesReceived_def handle_frames_with_acc with_acc_def split(1)
          handle_frames_append case_prod_beta)
    with a'(2) show ?thesis by blast
  qed
qed

lemma receive_loop_transport: "m_transport (snd (receive_loop e)) = m_transport e"
proof (induction e rule: receive_loop.induct)
  case (1 e)
  obtain out acc where ex: "tryExtractFrame (m_accumulator e) (m_transport e = Tcp) = (out, acc)"
    by fastforce
  show ?case
  proof (cases "\<exists>f. out = Some f \<and> length f > 0")
    case True
    then obtain f where f: "out = Some f" "length f > 0" by blast
    obtain sigs e1 where h: "handle_frame (e\<lparr>m_accumulator := acc\<rparr>) f = (sigs, e1)" by fastforce
    then have "m_transport e1 = m_transport e"
      using handle_frame_transport [of "e\<lparr>m_accumulator := acc\<rparr>" f] by simp
    moreover have "m_transport (snd (receive_loop e1)) = m_transport e1"
      using "1.IH" ex f h by metis
    ultimately show ?thesis
      using f h by (subst receive_loop.simps) (auto simp: ex split: prod.split)
  next
    case False
    then show ?thesis by (subst receive_loop.simps) (auto simp: ex split: option.split)
  qed
qed

lemma onBytesReceived_transport: "m_transport (snd (onBytesReceived e data)) = m_transport e"
  by (simp add: onBytesReceived_def receive_loop_transport)

section \<open>Properties\<close>

text \<open>The states an engine can be in.\<close>

inductive engine_reach :: "Transport \<Rightarrow> Engine \<Rightarrow> bool" for t where
  new: "engine_reach t (engine_new ch t)"
| write_step: "engine_reach t e \<Longrightarrow> writeRequest w e req link = (n, out, e') \<Longrightarrow> engine_reach t e'"
| bytes: "engine_reach t e \<Longrightarrow> onBytesReceived e data = (sigs, e') \<Longrightarrow> engine_reach t e'"
| connection: "engine_reach t e \<Longrightarrow> engine_reach t (onConnectionChanged e up)"

lemma engine_reach_inv: "engine_reach t e \<Longrightarrow> engine_inv e"
proof (induction rule: engine_reach.induct)
  case (write_step e w req link n out e')
  then show ?case using engine_inv_writeRequest [of e w req link] by simp
next
  case (bytes e data sigs e')
  then show ?case using engine_inv_bytes [of e data] by simp
qed (simp_all add: engine_inv_new engine_inv_connection)

lemma engine_reach_transport: "engine_reach t e \<Longrightarrow> m_transport e = t"
proof (induction rule: engine_reach.induct)
  case (write_step e w req link n out e')
  then show ?case
    by (auto simp: writeRequest_def registerRequest_def rollback_def Let_def split: if_splits option.splits prod.splits)
next
  case (bytes e data sigs e')
  then show ?case using onBytesReceived_transport [of e data] by simp
qed (simp_all add: engine_new_def onConnectionChanged_def)

text \<open>Property C9: in every state an engine can be in, after any requests, received bytes and
  reconnects, a transaction id is marked in the bitmap exactly when a request with that id is
  in flight, and the accumulator's indices are within its buffer.\<close>

theorem engine_in_step:
  assumes "engine_reach t e"
  shows "(\<forall>tid. m_inFlight e tid \<noteq> None \<longleftrightarrow> isAllocated (m_txIdAllocator e) tid) \<and> acc_wf (m_accumulator e)"
proof -
  have inv: "engine_inv e" by (rule engine_reach_inv [OF assms])
  then have "m_inFlight e tid \<noteq> None \<longleftrightarrow> isAllocated (m_txIdAllocator e) tid" for tid
    using in_use_isAllocated [of "m_txIdAllocator e" tid] by (auto simp: engine_inv_def)
  with inv show ?thesis by (simp add: engine_inv_def)
qed

definition demo_read :: ModbusRequest where
  "demo_read = \<lparr>rq_transport = Tcp, rq_transactionId = 0, rq_slaveAddress = 7, rq_functionCode = 3,
     rq_startingAddress = 16, rq_quantity = 1, rq_registerValues = [], rq_coilBytes = []\<rparr>"

definition demo_engine :: Engine where
  "demo_engine = snd (snd (writeRequest (\<lambda>f. int (length f)) (engine_new True Tcp) demo_read 5))"

lemma demo_engine_reach: "engine_reach Tcp demo_engine"
proof -
  obtain n out e' where r: "writeRequest (\<lambda>f. int (length f)) (engine_new True Tcp) demo_read 5 = (n, out, e')"
    using prod_cases3 by blast
  then have "demo_engine = e'" by (simp add: demo_engine_def)
  with engine_reach.write_step [OF engine_reach.new r] show ?thesis by simp
qed

lemma demo_engine_eq:
  "demo_engine = (engine_new True Tcp)\<lparr>m_inFlight := [1 \<mapsto> \<lparr>fl_linkId = 5, fl_slaveAddress = 7\<rparr>],
     m_txIdAllocator := {1}\<rparr>"
proof -
  have "buildRequest (demo_read\<lparr>rq_transactionId := 1\<rparr>) \<noteq> []"
    unfolding buildRequest_empty_iff by (simp add: valid_request_def demo_read_def)
  then show ?thesis
    by (simp add: demo_engine_def writeRequest_def registerRequest_def engine_new_def Let_def
        allocate_def alloc_scan.simps txids_new_def INVALID_ID_def demo_read_def)
qed

theorem engine_in_step_witness:
  "m_inFlight demo_engine 1 \<noteq> None \<and> isAllocated (m_txIdAllocator demo_engine) 1 \<and> acc_wf (m_accumulator demo_engine)"
proof -
  have "m_inFlight demo_engine 1 \<noteq> None" by (simp add: demo_engine_eq)
  with engine_in_step [OF demo_engine_reach] show ?thesis by blast
qed

text \<open>Property C2: a request on a TCP engine gets an id that no request in flight has; while it
  is in flight, the response with that id is reported for the link and the slave of this
  request and retires it; the same response once more is spurious.\<close>

theorem response_paired:
  assumes "engine_reach Tcp e" and "rq_transport r = Tcp"
    and "writeRequest w e r link = (n, Some frame, e1)"
    and "parseTcpResponse resp (length resp) = Some p"
    and "rs_transactionId p = readU16BE frame 0"
  shows "m_inFlight e (rs_transactionId p) = None \<and>
    (case handle_frame e1 resp of (sigs, e2) \<Rightarrow>
       sigs = report link (rq_slaveAddress r) p \<and>
       m_inFlight e2 = m_inFlight e \<and>
       handle_frame e2 resp = ([FrameError 0 (rs_slaveAddress p) Spurious], e2))"
proof -
  have inv: "engine_inv e" by (rule engine_reach_inv [OF assms(1)])
  have t: "m_transport e = Tcp" by (rule engine_reach_transport [OF assms(1)])
  obtain tid ids where alloc: "allocate (m_txIdAllocator e) = (tid, ids)" by fastforce
  let ?r = "r\<lparr>rq_transactionId := tid\<rparr>"
  let ?entry = "\<lparr>fl_linkId = link, fl_slaveAddress = rq_slaveAddress r\<rparr>"
  have reg: "tid \<noteq> 0" and frame: "frame = buildRequest ?r" "frame \<noteq> []"
    and e1: "e1 = e\<lparr>m_txIdAllocator := ids, m_inFlight := (if m_inFlight e tid = None
      then (m_inFlight e)(tid \<mapsto> ?entry) else m_inFlight e)\<rparr>"
    using assms(2,3) t alloc
    by (auto simp: writeRequest_def registerRequest_def INVALID_ID_def Let_def split: if_splits)
  have fresh: "m_inFlight e tid = None"
    using tx.register_in_step [OF _ _ alloc reg, of "m_inFlight e"] inv by (auto simp: engine_inv_def)
  have "valid_request ?r" using frame buildRequest_empty_iff [of ?r] by auto
  then have "readU16BE frame 0 = tid"
    using frame(1) buildRequest_valid [of ?r] assms(2) by simp
  with assms(5) have tid: "rs_transactionId p = tid" by simp
  have "(m_inFlight e)(tid := None) = m_inFlight e" using fresh by auto
  then show ?thesis
    using t fresh assms(4) by (simp add: handle_frame_def parse_for_def e1 tid)
qed

definition demo_resp :: bytes where
  "demo_resp = tcp_adu 1 demo_body"

lemma demo_resp_parsed:
  "parseTcpResponse demo_resp (length demo_resp) =
     Some ((mkResponse Tcp 7 3)\<lparr>rs_transactionId := 1, rs_registerValues := [0x1234]\<rparr>)"
  using parse_tcp_adu [of demo_body 1]
  by (simp add: demo_resp_def) (simp add: demo_body_def parse_body_def mkResponse_def mk16_def)

theorem response_paired_witness:
  "case handle_frame demo_engine demo_resp of (sigs, e2) \<Rightarrow>
     sigs = [ResponseParsed 5 7 ((mkResponse Tcp 7 3)\<lparr>rs_transactionId := 1, rs_registerValues := [0x1234]\<rparr>)] \<and>
     fst (handle_frame e2 demo_resp) = [FrameError 0 7 Spurious]"
proof -
  let ?w = "\<lambda>f. int (length f)"
  let ?frame = "buildRequest (demo_read\<lparr>rq_transactionId := 1\<rparr>)"
  have valid: "valid_request (demo_read\<lparr>rq_transactionId := 1\<rparr>)"
    by (simp add: valid_request_def demo_read_def)
  then have "?frame \<noteq> []" by (simp add: buildRequest_empty_iff)
  then have wr: "writeRequest ?w (engine_new True Tcp) demo_read 5 = (int (length ?frame), Some ?frame, demo_engine)"
    by (simp add: demo_engine_eq writeRequest_def registerRequest_def engine_new_def Let_def
        allocate_def alloc_scan.simps txids_new_def INVALID_ID_def demo_read_def)
  have "readU16BE ?frame 0 = 1"
    using buildRequest_valid [OF valid] by (simp add: demo_read_def)
  then show ?thesis
    using response_paired [OF engine_reach.new _ wr demo_resp_parsed]
    by (auto simp: demo_read_def report_def mkResponse_def)
qed

text \<open>Property C1: the stream of any frames, split into chunks in any way (in the middle of a
  header, several frames in one chunk), makes the engine emit what the frames one by one make
  it emit, leave the same requests in flight, and hold no bytes back.\<close>

theorem stream_reassembly:
  assumes "engine_reach t e" and "contents (m_accumulator e) = []" and "concat cs = concat fs"
    and "\<forall>f \<in> set fs. wire_frame (m_transport e) f"
    and "\<forall>c \<in> set cs. \<forall>f \<in> set fs. length c + length f \<le> kCapacity"
  shows "fst (receive_all e cs) = fst (handle_frames e fs) \<and>
    m_inFlight (snd (receive_all e cs)) = m_inFlight (snd (handle_frames e fs)) \<and>
    contents (m_accumulator (snd (receive_all e cs))) = []"
proof -
  have "acc_wf (m_accumulator e)" using engine_reach_inv [OF assms(1)] by (simp add: engine_inv_def)
  then obtain a where "receive_all e cs = with_acc a (handle_frames e fs)" "contents a = []"
    using receive_all_frames [of e cs fs] assms(2-5) by (auto simp: between_frames_def)
  then show ?thesis by (simp add: with_acc_def)
qed

lemma demo_wire: "wire_frame Rtu (rtu_adu demo_body)"
proof (rule wire_rtu_adu)
  have "demo_body ! 2 = 2" by (simp add: demo_body_def)
  then show "demo_body ! 1 AND 0x80 \<noteq> 0 \<and> length demo_body = 3 \<or>
      demo_body ! 1 AND 0x80 = 0 \<and> demo_body ! 1 \<in> {1, 2, 3, 4} \<and> length demo_body = 3 + unat (demo_body ! 2) \<or>
      demo_body ! 1 AND 0x80 = 0 \<and> demo_body ! 1 \<in> {5, 6, 0x0F, 0x10} \<and> length demo_body = 6"
    by simp
qed simp

lemma demo_handled:
  "handle_frame (engine_new True Rtu) (rtu_adu demo_body) =
     ([ResponseParsed 0 7 ((mkResponse Rtu 7 3)\<lparr>rs_registerValues := [0x1234]\<rparr>)], engine_new True Rtu)"
  using demo_body_parsed by (simp add: handle_frame_def parse_for_def engine_new_def report_def mkResponse_def)

theorem stream_reassembly_witness:
  "fst (receive_all (engine_new True Rtu)
     [take 3 (rtu_adu demo_body), drop 3 (rtu_adu demo_body) @ take 2 (rtu_adu demo_body), drop 2 (rtu_adu demo_body)]) =
   replicate 2 (ResponseParsed 0 7 ((mkResponse Rtu 7 3)\<lparr>rs_registerValues := [0x1234]\<rparr>))"
proof -
  let ?f = "rtu_adu demo_body"
  have "take k xs @ drop k xs @ ys = xs @ ys" for k and xs ys :: bytes
    by (metis append_assoc append_take_drop_id)
  then have "concat [take 3 ?f, drop 3 ?f @ take 2 ?f, drop 2 ?f] = concat [?f, ?f]" by simp
  moreover have "contents (m_accumulator (engine_new True Rtu)) = []" by (simp add: engine_new_def)
  moreover have "\<forall>f \<in> set [?f, ?f]. wire_frame (m_transport (engine_new True Rtu)) f"
    using demo_wire by (simp add: engine_new_def)
  moreover have "\<forall>c \<in> set [take 3 ?f, drop 3 ?f @ take 2 ?f, drop 2 ?f]. \<forall>f \<in> set [?f, ?f].
      length c + length f \<le> kCapacity"
    by (simp add: kCapacity_def)
  ultimately have "fst (receive_all (engine_new True Rtu) [take 3 ?f, drop 3 ?f @ take 2 ?f, drop 2 ?f]) =
      fst (handle_frames (engine_new True Rtu) [?f, ?f])"
    using stream_reassembly [OF engine_reach.new [of Rtu True]] by blast
  then show ?thesis by (simp add: demo_handled numeral_2_eq_2)
qed

text \<open>A stray byte in front of a frame that arrives with it costs the frame its
  reception: the engine slides past the byte and returns without a signal, with the complete
  frame in its buffer, and only a later chunk makes it look at the frame again.\<close>

theorem stray_byte_delays_frame:
  assumes "engine_reach t e" and "contents (m_accumulator e) = []"
    and "m_huntSlidBytes (m_accumulator e) + 1 < kMaxHuntBytes"
    and "wire_frame (m_transport e) f" and "length f + 1 \<le> kCapacity"
    and "\<forall>stale. decide (m_transport e = Tcp) stale (g # f) = Slide c"
  shows "\<exists>e1. onBytesReceived e (g # f) = ([], e1) \<and> contents (m_accumulator e1) = f \<and>
    (\<forall>f2. wire_frame (m_transport e) f2 \<longrightarrow> length f + length f2 \<le> kCapacity \<longrightarrow>
       fst (onBytesReceived e1 f2) = fst (handle_frames e1 [f, f2]))"
proof -
  let ?a = "acc_append (m_accumulator e) (g # f)"
  have wf: "acc_wf (m_accumulator e)" using engine_reach_inv [OF assms(1)] by (simp add: engine_inv_def)
  then have wfa: "acc_wf ?a" by (rule acc_wf_append)
  have size: "m_size (m_accumulator e) = 0" using assms(2) length_contents [of "m_accumulator e"] by simp
  have c: "contents ?a = g # f"
    using contents_append_fits [OF wf, of "g # f"] assms(2,5) size by simp
  have slid: "m_huntSlidBytes ?a = m_huntSlidBytes (m_accumulator e)" by (simp add: acc_append_def Let_def)
  obtain out a' where ex: "tryExtractFrame ?a (m_transport e = Tcp) = (out, a')" by fastforce
  have a': "out = None" "acc_wf a'" "contents a' = f"
    using tryExtractFrame_contents [OF wfa ex] assms(3,6) c slid by auto
  let ?e1 = "e\<lparr>m_accumulator := a'\<rparr>"
  have r: "onBytesReceived e (g # f) = ([], ?e1)"
    unfolding onBytesReceived_def by (simp, subst receive_loop.simps) (simp add: ex a'(1))
  have "fst (onBytesReceived ?e1 f2) = fst (handle_frames ?e1 [f, f2])"
    if f2: "wire_frame (m_transport e) f2" "length f + length f2 \<le> kCapacity" for f2
  proof -
    have "f2 \<noteq> []" using wire_frame_size [OF f2(1)] by auto
    moreover have "m_size a' = length f" using a'(3) length_contents by metis
    then have "contents (acc_append a' f2) = f @ f2"
      using contents_append_fits [OF a'(2), of f2] a'(3) f2(2) by simp
    then obtain a2 where "receive_loop (?e1\<lparr>m_accumulator := acc_append a' f2\<rparr>) =
        with_acc a2 (handle_frames (?e1\<lparr>m_accumulator := acc_append a' f2\<rparr>) [f, f2])"
      using receive_loop_frames [of "?e1\<lparr>m_accumulator := acc_append a' f2\<rparr>" "[f, f2]" "[]"]
        acc_wf_append [OF a'(2), of f2] assms(4) f2(1) waits_nil by auto
    moreover have "fst (handle_frames (?e1\<lparr>m_accumulator := acc_append a' f2\<rparr>) [f, f2]) =
        fst (handle_frames ?e1 [f, f2])"
      unfolding handle_frames_with_acc by (simp add: with_acc_def)
    ultimately show ?thesis by (simp add: onBytesReceived_def with_acc_def)
  qed
  with r a'(3) show ?thesis by auto
qed

theorem stray_byte_delays_frame_witness:
  "\<exists>e1. onBytesReceived (engine_new True Rtu) (0xFF # rtu_adu demo_body) = ([], e1) \<and>
     contents (m_accumulator e1) = rtu_adu demo_body"
proof -
  have "\<forall>stale. decide (m_transport (engine_new True Rtu) = Tcp) stale (0xFF # rtu_adu demo_body) = Slide False"
    by (simp add: engine_new_def decide_def rtu_adu_def demo_body_def)
  from stray_byte_delays_frame [OF engine_reach.new _ _ _ _ this] demo_wire show ?thesis
    by (auto simp: engine_new_def acc_new_def kMaxHuntBytes_def kCapacity_def contents_def ring_def)
qed

end
