(* ===== verification/SimRegs.thy ===== *)
theory SimRegs
  imports Ens_Prelude
begin

text \<open>
  The registers of the simulated devices, \<^verbatim>\<open>apps/device_simulator/src/sim/register_bank.h\<close>
  and \<^verbatim>\<open>.cpp\<close>: per slave two word tables and two bit tables, packed eight to a byte, and
  the bank of snapshots. A snapshot is an immutable value, so a \<open>shared_ptr\<close> to it is the
  value itself, and replacing the pointer in the bank is an update of a map; every operation
  of the bank holds its mutex for the whole of its body and is one step. A \<open>Some None\<close> in
  the bank is a slave whose pointer is null. The branch of \<open>SlaveRegset::allocate\<close> for an
  exhausted memory is not modelled.
\<close>

section \<open>Bit tables\<close>

definition bit_mask :: "u16 \<Rightarrow> u8" where
  "bit_mask reg = push_bit (unat reg mod 8) 1"

definition readCoil :: "bytes \<Rightarrow> u16 \<Rightarrow> bool" where
  "readCoil bytes reg =
     (let byteIdx = unat reg div 8
      in if byteIdx \<ge> length bytes then False
         else drop_bit (unat reg mod 8) (bytes ! byteIdx) AND 1 \<noteq> 0)"

definition writeCoil :: "bytes \<Rightarrow> u16 \<Rightarrow> bool \<Rightarrow> bytes" where
  "writeCoil bytes reg v =
     (let byteIdx = unat reg div 8
      in if byteIdx \<ge> length bytes then bytes
         else let mask = bit_mask reg
              in if v then bytes[byteIdx := bytes ! byteIdx OR mask]
                 else bytes[byteIdx := bytes ! byteIdx AND NOT mask])"

section \<open>The registers of a slave\<close>

record SlaveRegset =
  rg_slaveId :: u8
  rg_holding :: "u16 list"
  rg_input :: "u16 list"
  rg_coils :: bytes
  rg_discretes :: bytes
  rg_alarmWord :: u16

definition getHolding :: "SlaveRegset \<Rightarrow> u16 \<Rightarrow> u16" where
  "getHolding r reg = (if unat reg < length (rg_holding r) then rg_holding r ! unat reg else 0)"

definition setHolding :: "SlaveRegset \<Rightarrow> u16 \<Rightarrow> u16 \<Rightarrow> SlaveRegset" where
  "setHolding r reg v =
     (if unat reg < length (rg_holding r) then r\<lparr>rg_holding := (rg_holding r)[unat reg := v]\<rparr> else r)"

definition getInput :: "SlaveRegset \<Rightarrow> u16 \<Rightarrow> u16" where
  "getInput r reg = (if unat reg < length (rg_input r) then rg_input r ! unat reg else 0)"

definition setInput :: "SlaveRegset \<Rightarrow> u16 \<Rightarrow> u16 \<Rightarrow> SlaveRegset" where
  "setInput r reg v =
     (if unat reg < length (rg_input r) then r\<lparr>rg_input := (rg_input r)[unat reg := v]\<rparr> else r)"

definition getCoil :: "SlaveRegset \<Rightarrow> u16 \<Rightarrow> bool" where
  "getCoil r reg = readCoil (rg_coils r) reg"

definition setCoil :: "SlaveRegset \<Rightarrow> u16 \<Rightarrow> bool \<Rightarrow> SlaveRegset" where
  "setCoil r reg v = r\<lparr>rg_coils := writeCoil (rg_coils r) reg v\<rparr>"

definition getDiscrete :: "SlaveRegset \<Rightarrow> u16 \<Rightarrow> bool" where
  "getDiscrete r reg = readCoil (rg_discretes r) reg"

definition setDiscrete :: "SlaveRegset \<Rightarrow> u16 \<Rightarrow> bool \<Rightarrow> SlaveRegset" where
  "setDiscrete r reg v = r\<lparr>rg_discretes := writeCoil (rg_discretes r) reg v\<rparr>"

definition SlaveRegset_allocate :: "u8 \<Rightarrow> nat \<Rightarrow> nat \<Rightarrow> SlaveRegset" where
  "SlaveRegset_allocate sid holdingSize inputSize =
     \<lparr>rg_slaveId = sid, rg_holding = replicate holdingSize 0, rg_input = replicate inputSize 0,
      rg_coils = replicate ((holdingSize + 7) div 8) 0,
      rg_discretes = replicate ((inputSize + 7) div 8) 0, rg_alarmWord = 0\<rparr>"

section \<open>The bank of snapshots\<close>

type_synonym RegisterBank = "u8 \<rightharpoonup> SlaveRegset option"

definition kControlRegCount :: u16 where
  "kControlRegCount = 16"

definition bank_new :: RegisterBank where
  "bank_new = Map.empty"

definition snapshot :: "RegisterBank \<Rightarrow> u8 \<Rightarrow> SlaveRegset option" where
  "snapshot b slave = (case b slave of Some p \<Rightarrow> p | None \<Rightarrow> None)"

definition publish :: "RegisterBank \<Rightarrow> u8 \<Rightarrow> SlaveRegset option \<Rightarrow> RegisterBank" where
  "publish b slave next = b(slave \<mapsto> next)"

definition install :: "RegisterBank \<Rightarrow> u8 \<Rightarrow> SlaveRegset option \<Rightarrow> RegisterBank" where
  "install b slave initial = publish b slave initial"

definition readControl :: "RegisterBank \<Rightarrow> u8 \<Rightarrow> u16 \<Rightarrow> u16" where
  "readControl b slave reg =
     (if reg \<ge> kControlRegCount then 0
      else case b slave of
        Some (Some r) \<Rightarrow> getHolding r reg
      | _ \<Rightarrow> 0)"

text \<open>Copy, modify the copy, replace the pointer.\<close>

definition cow :: "(SlaveRegset \<Rightarrow> SlaveRegset) \<Rightarrow> RegisterBank \<Rightarrow> u8 \<Rightarrow> RegisterBank" where
  "cow f b slave =
     (case b slave of
        Some (Some r) \<Rightarrow> b(slave \<mapsto> Some (f r))
      | _ \<Rightarrow> b)"

definition writeControl :: "RegisterBank \<Rightarrow> u8 \<Rightarrow> u16 \<Rightarrow> u16 \<Rightarrow> RegisterBank" where
  "writeControl b slave reg v =
     (if reg \<ge> kControlRegCount then b else cow (\<lambda>r. setHolding r reg v) b slave)"

definition bank_writeHolding :: "RegisterBank \<Rightarrow> u8 \<Rightarrow> u16 \<Rightarrow> u16 \<Rightarrow> RegisterBank" where
  "bank_writeHolding b slave addr v = cow (\<lambda>r. setHolding r addr v) b slave"

definition bank_writeCoil :: "RegisterBank \<Rightarrow> u8 \<Rightarrow> u16 \<Rightarrow> bool \<Rightarrow> RegisterBank" where
  "bank_writeCoil b slave addr v = cow (\<lambda>r. setCoil r addr v) b slave"

definition slaveCount :: "RegisterBank \<Rightarrow> nat" where
  "slaveCount b = card (dom b)"

definition bank_clear :: "RegisterBank \<Rightarrow> RegisterBank" where
  "bank_clear b = Map.empty"

section \<open>Reading back what was written\<close>

lemma and_one_bit: "(x :: u8) AND 1 \<noteq> 0 \<longleftrightarrow> bit x 0"
  by (simp add: and_one_eq bit_0 odd_iff_mod_2_eq_one)

lemma readCoil_bit: "readCoil bs reg \<longleftrightarrow> unat reg div 8 < length bs \<and> bit (bs ! (unat reg div 8)) (unat reg mod 8)"
  by (simp add: readCoil_def Let_def and_one_bit bit_drop_bit_eq not_le)

lemma length_writeCoil [simp]: "length (writeCoil bs reg v) = length bs"
  by (simp add: writeCoil_def Let_def)

lemma bit_bit_mask: "bit (bit_mask reg) n \<longleftrightarrow> n = unat reg mod 8"
proof -
  have "unat reg mod 8 < 8" by simp
  then show ?thesis by (auto simp: bit_mask_def bit_simps)
qed

lemma readCoil_writeCoil:
  "readCoil (writeCoil bs reg v) reg' =
     (if reg' = reg \<and> unat reg div 8 < length bs then v else readCoil bs reg')"
proof (cases "unat reg div 8 < length bs")
  case True
  have idx: "reg' \<noteq> reg \<Longrightarrow> unat reg' div 8 = unat reg div 8 \<Longrightarrow> unat reg' mod 8 \<noteq> unat reg mod 8"
    by (metis div_mod_decomp word_unat_eq_iff)
  have m: "unat reg mod 8 < 8" "unat reg' mod 8 < 8" by simp_all
  show ?thesis
    using True idx m
    by (auto simp: readCoil_bit writeCoil_def Let_def nth_list_update bit_or_iff bit_and_iff bit_not_iff
        bit_bit_mask)
next
  case False
  then show ?thesis by (simp add: readCoil_bit writeCoil_def Let_def)
qed

lemma getHolding_setHolding:
  "getHolding (setHolding r reg v) reg' =
     (if reg' = reg \<and> unat reg < length (rg_holding r) then v else getHolding r reg')"
  by (auto simp: getHolding_def setHolding_def nth_list_update word_unat_eq_iff)

lemma length_setHolding [simp]: "length (rg_holding (setHolding r reg v)) = length (rg_holding r)"
  by (simp add: setHolding_def)

lemma setHolding_frame [simp]:
  "rg_input (setHolding r reg v) = rg_input r" "rg_coils (setHolding r reg v) = rg_coils r"
  "rg_discretes (setHolding r reg v) = rg_discretes r" "rg_slaveId (setHolding r reg v) = rg_slaveId r"
  by (simp_all add: setHolding_def)

lemma snapshot_publish: "snapshot (publish b s p) s' = (if s' = s then p else snapshot b s')"
  by (simp add: snapshot_def publish_def)

lemma snapshot_cow: "snapshot (cow f b s) s' = (if s' = s then map_option f (snapshot b s) else snapshot b s')"
  by (auto simp: snapshot_def cow_def split: option.split)

end
