(* ===== verification/SimDispatch.thy ===== *)
theory SimDispatch
  imports SimRegs
begin

text \<open>
  The request dispatch of the simulated slaves, \<^verbatim>\<open>apps/device_simulator/src/sim/modbus_dispatch.h\<close>
  and \<^verbatim>\<open>.cpp\<close>, the handler \<^verbatim>\<open>modbus_slave_emulator.cpp\<close> installs in its transports, and the
  minimal 64-register slave of \<^verbatim>\<open>modbus_slave.cpp\<close>. A PDU is the list of its bytes, the null
  pointer the empty list. \<open>dispatchFull\<close> returns the register set it was given with its
  writes in place; \<open>regs = None\<close> is the null pointer.
\<close>

section \<open>The code\<close>

record DispatchResult =
  dr_bytes :: bytes
  dr_exception :: "u8 option"

datatype DeviceKind = Bms | Pcs | Meter | Liquid | Fire

datatype SimTransport = SimTcp | SimRtu

record SlaveRuntime =
  rt_slaveId :: u8
  rt_kind :: DeviceKind
  rt_transport :: SimTransport

definition be16 :: "bytes \<Rightarrow> nat \<Rightarrow> u16" where
  "be16 p off = mk16 (p ! off) (p ! (off + 1))"

definition appendU16BE :: "bytes \<Rightarrow> u16 \<Rightarrow> bytes" where
  "appendU16BE v x = v @ [hi8 x] @ [lo8 x]"

definition exceptionPdu :: "u8 \<Rightarrow> u8 \<Rightarrow> DispatchResult" where
  "exceptionPdu fc code = \<lparr>dr_bytes = [fc OR 0x80, code], dr_exception = Some code\<rparr>"

definition okPdu :: "bytes \<Rightarrow> DispatchResult" where
  "okPdu bs = \<lparr>dr_bytes = bs, dr_exception = None\<rparr>"

text \<open>FC01 and FC02, which differ in the table they read.\<close>

definition readBits :: "u8 \<Rightarrow> bytes \<Rightarrow> bytes \<Rightarrow> DispatchResult" where
  "readBits fc table pdu =
     (if length pdu \<noteq> 5 then exceptionPdu fc 3
      else let addr = be16 pdu 1; qty = be16 pdu 3
      in if qty = 0 \<or> qty > 2000 then exceptionPdu fc 3
      else if unat addr + unat qty > length table * 8 then exceptionPdu fc 2
      else let byteCount = (of_nat ((unat qty + 7) div 8) :: u8);
               r = [fc] @ [byteCount] @ replicate (unat byteCount) 0
      in okPdu (fold (\<lambda>i r. if readCoil table (addr + of_nat i)
                  then r[2 + i div 8 := r ! (2 + i div 8) OR push_bit (i mod 8) 1] else r)
                [0..<unat qty] r))"

text \<open>FC03 and FC04; \<open>get\<close> is \<open>getHolding\<close> or \<open>getInput\<close>, \<open>tableSize\<close> the size of that table.\<close>

definition readWords :: "u8 \<Rightarrow> (u16 \<Rightarrow> u16) \<Rightarrow> nat \<Rightarrow> bytes \<Rightarrow> DispatchResult" where
  "readWords fc get tableSize pdu =
     (if length pdu \<noteq> 5 then exceptionPdu fc 3
      else let addr = be16 pdu 1; qty = be16 pdu 3
      in if qty = 0 \<or> qty > 125 then exceptionPdu fc 3
      else if unat addr + unat qty > tableSize then exceptionPdu fc 2
      else okPdu (foldl appendU16BE ([fc] @ [of_nat (unat qty * 2)])
             (map (\<lambda>i. get (addr + of_nat i)) [0..<unat qty])))"

definition writeSingleCoil :: "SlaveRegset \<Rightarrow> bytes \<Rightarrow> bool \<Rightarrow> DispatchResult \<times> SlaveRegset" where
  "writeSingleCoil r pdu writable =
     (if \<not> writable then (exceptionPdu 5 1, r)
      else if length pdu \<noteq> 5 then (exceptionPdu 5 3, r)
      else let addr = be16 pdu 1; val = be16 pdu 3
      in if val \<noteq> 0xFF00 \<and> val \<noteq> 0 then (exceptionPdu 5 3, r)
      else if unat addr \<ge> length (rg_coils r) * 8 then (exceptionPdu 5 2, r)
      else (okPdu (take 5 pdu), r\<lparr>rg_coils := writeCoil (rg_coils r) addr (val = 0xFF00)\<rparr>))"

definition writeSingleRegister :: "SlaveRegset \<Rightarrow> bytes \<Rightarrow> bool \<Rightarrow> DispatchResult \<times> SlaveRegset" where
  "writeSingleRegister r pdu writable =
     (if \<not> writable then (exceptionPdu 6 1, r)
      else if length pdu \<noteq> 5 then (exceptionPdu 6 3, r)
      else let addr = be16 pdu 1; val = be16 pdu 3
      in if unat addr \<ge> length (rg_holding r) then (exceptionPdu 6 2, r)
      else (okPdu (take 5 pdu), setHolding r addr val))"

definition writeMultipleCoils :: "SlaveRegset \<Rightarrow> bytes \<Rightarrow> bool \<Rightarrow> DispatchResult \<times> SlaveRegset" where
  "writeMultipleCoils r pdu writable =
     (if \<not> writable then (exceptionPdu 0x0F 1, r)
      else if length pdu < 7 then (exceptionPdu 0x0F 3, r)
      else let addr = be16 pdu 1; qty = be16 pdu 3; byteCount = unat (pdu ! 5)
      in if qty = 0 \<or> qty > 1968 then (exceptionPdu 0x0F 3, r)
      else if byteCount \<noteq> (unat qty + 7) div 8 then (exceptionPdu 0x0F 3, r)
      else if 6 + byteCount \<noteq> length pdu then (exceptionPdu 0x0F 3, r)
      else if unat addr + unat qty > length (rg_coils r) * 8 then (exceptionPdu 0x0F 2, r)
      else (okPdu (appendU16BE (appendU16BE [0x0F] addr) qty),
            r\<lparr>rg_coils := fold (\<lambda>i cs. writeCoil cs (addr + of_nat i)
                 (drop_bit (i mod 8) (pdu ! (6 + i div 8)) AND 1 \<noteq> 0)) [0..<unat qty] (rg_coils r)\<rparr>))"

definition writeMultipleRegisters :: "SlaveRegset \<Rightarrow> bytes \<Rightarrow> bool \<Rightarrow> DispatchResult \<times> SlaveRegset" where
  "writeMultipleRegisters r pdu writable =
     (if \<not> writable then (exceptionPdu 0x10 1, r)
      else if length pdu < 7 then (exceptionPdu 0x10 3, r)
      else let addr = be16 pdu 1; qty = be16 pdu 3; byteCount = unat (pdu ! 5)
      in if qty = 0 \<or> qty > 123 then (exceptionPdu 0x10 3, r)
      else if byteCount \<noteq> unat qty * 2 then (exceptionPdu 0x10 3, r)
      else if 6 + byteCount \<noteq> length pdu then (exceptionPdu 0x10 3, r)
      else if unat addr + unat qty > length (rg_holding r) then (exceptionPdu 0x10 2, r)
      else (okPdu (appendU16BE (appendU16BE [0x10] addr) qty),
            fold (\<lambda>i r. setHolding r (addr + of_nat i) (be16 pdu (6 + 2 * i))) [0..<unat qty] r))"

definition dispatchFull ::
  "SlaveRegset option \<Rightarrow> bytes \<Rightarrow> bool \<Rightarrow> DispatchResult \<times> SlaveRegset option" where
  "dispatchFull regs pdu writable =
     (if pdu = [] then (exceptionPdu 0xFF 1, regs)
      else case regs of
        None \<Rightarrow> (exceptionPdu 0xFF 1, regs)
      | Some r \<Rightarrow>
          let fc = pdu ! 0
          in if fc = 1 then (readBits fc (rg_coils r) pdu, Some r)
             else if fc = 2 then (readBits fc (rg_discretes r) pdu, Some r)
             else if fc = 3 then (readWords fc (getHolding r) (length (rg_holding r)) pdu, Some r)
             else if fc = 4 then (readWords fc (getInput r) (length (rg_input r)) pdu, Some r)
             else if fc = 5 then map_prod id Some (writeSingleCoil r pdu writable)
             else if fc = 6 then map_prod id Some (writeSingleRegister r pdu writable)
             else if fc = 0x0F then map_prod id Some (writeMultipleCoils r pdu writable)
             else if fc = 0x10 then map_prod id Some (writeMultipleRegisters r pdu writable)
             else (exceptionPdu fc 1, Some r))"

definition isWriteFc :: "u8 \<Rightarrow> bool" where
  "isWriteFc fc \<longleftrightarrow> fc = 5 \<or> fc = 6 \<or> fc = 0x0F \<or> fc = 0x10"

definition dispatchBySlaveId ::
  "u8 \<Rightarrow> RegisterBank \<Rightarrow> SlaveRuntime list \<Rightarrow> bytes \<Rightarrow> DispatchResult option \<times> RegisterBank" where
  "dispatchBySlaveId slaveId bank allSlaves pdu =
     (case find (\<lambda>s. rt_slaveId s = slaveId) allSlaves of
        None \<Rightarrow> (None, bank)
      | Some _ \<Rightarrow>
          (case snapshot bank slaveId of
             None \<Rightarrow> (None, bank)
           | Some snap \<Rightarrow>
               let fc = (if pdu \<noteq> [] then pdu ! 0 else 0);
                   isWrite = isWriteFc fc
               in case dispatchFull (Some snap) pdu isWrite of
                    (r, copy) \<Rightarrow>
                      (Some r,
                       if isWrite \<and> dr_exception r = None then publish bank slaveId copy else bank)))"

text \<open>The handler of \<open>ModbusSlaveEmulator::installDispatchHandler\<close>; the bank is set.\<close>

definition emulatorHandler ::
  "SlaveRuntime list \<Rightarrow> RegisterBank \<Rightarrow> u8 \<Rightarrow> bytes \<Rightarrow> bytes \<times> RegisterBank" where
  "emulatorHandler slaves bank unitId pdu =
     (case dispatchBySlaveId unitId bank slaves pdu of
        (None, bank') \<Rightarrow> ([0x80 OR (if pdu = [] then 0xFF else pdu ! 0), 1], bank')
      | (Some r, bank') \<Rightarrow> (dr_bytes r, bank'))"

subsection \<open>The minimal slave\<close>

definition kRegCount :: nat where
  "kRegCount = 64"

definition slaveRegs_new :: "u16 list" where
  "slaveRegs_new = replicate kRegCount 0"

definition slaveRegs_get :: "u16 list \<Rightarrow> nat \<Rightarrow> u16" where
  "slaveRegs_get regs idx = (if idx < kRegCount then regs ! idx else 0)"

definition slaveRegs_set :: "u16 list \<Rightarrow> nat \<Rightarrow> u16 \<Rightarrow> bool \<times> u16 list" where
  "slaveRegs_set regs idx v = (if idx \<ge> kRegCount then (False, regs) else (True, regs[idx := v]))"

definition min_exceptionPdu :: "u8 \<Rightarrow> u8 \<Rightarrow> bytes" where
  "min_exceptionPdu fc code = [fc OR 0x80, code]"

definition buildReadResponse :: "u16 list \<Rightarrow> u8 \<Rightarrow> u16 \<Rightarrow> u16 \<Rightarrow> bytes" where
  "buildReadResponse regs fc addr qty =
     (if qty = 0 \<or> qty > 125 then min_exceptionPdu fc 3
      else if unat addr + unat qty > kRegCount then min_exceptionPdu fc 2
      else foldl (\<lambda>out i. out @ [hi8 (regs ! (unat addr + i))] @ [lo8 (regs ! (unat addr + i))])
             ([fc] @ [of_nat (unat qty * 2)]) [0..<unat qty])"

definition dispatchRequest :: "u16 list \<Rightarrow> bytes \<Rightarrow> bytes \<times> u16 list" where
  "dispatchRequest regs pdu =
     (if pdu = [] then ([], regs)
      else let fc = pdu ! 0
      in if fc = 3 \<or> fc = 4 then
           (if length pdu \<noteq> 5 then (min_exceptionPdu fc 3, regs)
            else (buildReadResponse regs fc (be16 pdu 1) (be16 pdu 3), regs))
         else if fc = 6 then
           (if length pdu \<noteq> 5 then (min_exceptionPdu fc 3, regs)
            else let addr = be16 pdu 1; val = be16 pdu 3
            in if unat addr \<ge> kRegCount then (min_exceptionPdu fc 2, regs)
            else case slaveRegs_set regs (unat addr) val of
              (ok, regs') \<Rightarrow>
                if \<not> ok then (min_exceptionPdu fc 2, regs')
                else ([fc, pdu ! 1, pdu ! 2, pdu ! 3, pdu ! 4], regs'))
         else (min_exceptionPdu fc 1, regs))"

section \<open>What a request reads and writes\<close>

lemma appendU16BE_eq [simp, codec]: "appendU16BE v x = v @ u16be x"
  by (simp add: appendU16BE_def u16be_def)

lemma foldl_appendU16BE [simp, codec]: "foldl appendU16BE v xs = v @ concat (map u16be xs)"
  by (induction xs arbitrary: v) simp_all

lemma be16_pdu [simp, codec]:
  "be16 (fc # u16be addr @ u16be qty @ rest) 1 = addr"
  "be16 (fc # u16be addr @ u16be qty @ rest) (Suc 0) = addr"
  "be16 (fc # u16be addr @ u16be qty @ rest) 3 = qty"
  "be16 (fc # u16be addr @ u16be qty) 1 = addr"
  "be16 (fc # u16be addr @ u16be qty) (Suc 0) = addr"
  "be16 (fc # u16be addr @ u16be qty) 3 = qty"
  by (simp_all add: be16_def u16be_def)

lemma offsets_inject:
  "i < 65536 \<Longrightarrow> j < 65536 \<Longrightarrow> (addr :: u16) + of_nat i = addr + of_nat j \<longleftrightarrow> i = j"
proof -
  assume "i < 65536" and "j < 65536"
  then have "unat (of_nat i :: u16) = i" "unat (of_nat j :: u16) = j" by (simp_all add: unat_of_nat)
  then show ?thesis by (metis add_left_cancel)
qed

text \<open>A run of register writes at consecutive addresses.\<close>

lemma fold_setHolding_length [simp]:
  "length (rg_holding (fold (\<lambda>i r. setHolding r (f i) (g i)) is r)) = length (rg_holding r)"
  by (induction "is" arbitrary: r) simp_all

lemma fold_setHolding_other:
  "(\<And>i. i < n \<Longrightarrow> a \<noteq> addr + of_nat i) \<Longrightarrow>
   getHolding (fold (\<lambda>i r. setHolding r (addr + of_nat i) (g i)) [0..<n] r) a = getHolding r a"
  by (induction n) (simp_all add: getHolding_setHolding)

lemma fold_setHolding_at:
  assumes "n < 65536" and "i < n" and "unat (addr + of_nat i) < length (rg_holding r)"
  shows "getHolding (fold (\<lambda>i r. setHolding r (addr + of_nat i) (g i)) [0..<n] r) (addr + of_nat i) = g i"
  using assms
proof (induction n)
  case (Suc n)
  show ?case
  proof (cases "i = n")
    case True
    with Suc.prems show ?thesis by (simp add: getHolding_setHolding)
  next
    case False
    with Suc.prems have "addr + of_nat i \<noteq> addr + of_nat n"
      using offsets_inject [of i n addr] by simp
    then have "getHolding (fold (\<lambda>i r. setHolding r (addr + of_nat i) (g i)) [0..<Suc n] r) (addr + of_nat i) =
        getHolding (fold (\<lambda>i r. setHolding r (addr + of_nat i) (g i)) [0..<n] r) (addr + of_nat i)"
      by (simp add: getHolding_setHolding)
    with False Suc show ?thesis by simp
  qed
qed simp

lemma range_unat:
  assumes "unat (addr :: u16) + n \<le> 65536" and "i < n"
  shows "unat (addr + of_nat i) = unat addr + i"
proof -
  have "unat addr + i < 2 ^ 16" "i < 2 ^ 16" using assms by simp_all
  then show ?thesis by (simp add: unat_word_ariths unat_of_nat)
qed

text \<open>Requests by their fields.\<close>

definition read_pdu :: "u8 \<Rightarrow> u16 \<Rightarrow> u16 \<Rightarrow> bytes" where
  "read_pdu fc addr qty = fc # u16be addr @ u16be qty"

definition write_words_pdu :: "u16 \<Rightarrow> u16 list \<Rightarrow> bytes" where
  "write_words_pdu addr vs =
     0x10 # u16be addr @ u16be (of_nat (length vs)) @ [of_nat (2 * length vs)] @ concat (map u16be vs)"

lemma readWords_ok:
  assumes "qty \<noteq> 0" and "qty \<le> 125" and "unat addr + unat qty \<le> tableSize"
  shows "readWords fc get tableSize (read_pdu fc addr qty) =
    okPdu ([fc, of_nat (2 * unat qty)] @ concat (map u16be (map (\<lambda>i. get (addr + of_nat i)) [0..<unat qty])))"
  using assms by (simp add: readWords_def read_pdu_def mult.commute)

lemma dispatch_find:
  assumes "find (\<lambda>s. rt_slaveId s = u) slaves = Some rt" and "snapshot bank u = Some r" and "pdu \<noteq> []"
  shows "dispatchBySlaveId u bank slaves pdu =
    (case dispatchFull (Some r) pdu (isWriteFc (pdu ! 0)) of
       (d, copy) \<Rightarrow> (Some d, if isWriteFc (pdu ! 0) \<and> dr_exception d = None then publish bank u copy else bank))"
  using assms by (simp add: dispatchBySlaveId_def Let_def)

text \<open>A handler call on a slave that exists.\<close>

lemma handler_known:
  assumes "find (\<lambda>s. rt_slaveId s = u) slaves = Some rt" and "snapshot bank u = Some r" and "pdu \<noteq> []"
    and "dispatchFull (Some r) pdu (isWriteFc (pdu ! 0)) = (d, copy)"
  shows "emulatorHandler slaves bank u pdu =
    (dr_bytes d, if isWriteFc (pdu ! 0) \<and> dr_exception d = None then publish bank u copy else bank)"
  using assms by (simp add: emulatorHandler_def dispatch_find [OF assms(1-3)])

lemma fold_setHolding_frame [simp]:
  "rg_input (fold (\<lambda>i r. setHolding r (f i) (g i)) is r) = rg_input r"
  "rg_coils (fold (\<lambda>i r. setHolding r (f i) (g i)) is r) = rg_coils r"
  "rg_discretes (fold (\<lambda>i r. setHolding r (f i) (g i)) is r) = rg_discretes r"
  by (induction "is" arbitrary: r) simp_all

lemma be16_words:
  assumes "i < length vs"
  shows "be16 (b # u16be a @ u16be q @ c # concat (map u16be vs)) (6 + 2 * i) = vs ! i"
proof -
  have "concat (map u16be vs) ! (2 * i) = hi8 (vs ! i) \<and> concat (map u16be vs) ! (2 * i + 1) = lo8 (vs ! i)"
    using assms
  proof (induction vs arbitrary: i)
    case (Cons v vs)
    then show ?case by (cases i) (auto simp: u16be_def)
  qed simp
  moreover have "(b # u16be a @ u16be q @ c # concat (map u16be vs)) ! (6 + k) = concat (map u16be vs) ! k" for k
    by (simp add: u16be_def)
  from this [of "2 * i"] this [of "2 * i + 1"] calculation show ?thesis
    unfolding be16_def add.assoc by simp
qed

lemma length_write_words_pdu [simp]: "length (write_words_pdu addr vs) = 6 + 2 * length vs"
  by (simp add: write_words_pdu_def)

lemma writeMultipleRegisters_ok:
  assumes "vs \<noteq> []" and "length vs \<le> 123" and "unat addr + length vs \<le> length (rg_holding r)"
  shows "writeMultipleRegisters r (write_words_pdu addr vs) True =
    (okPdu (0x10 # u16be addr @ u16be (of_nat (length vs))),
     fold (\<lambda>i r. setHolding r (addr + of_nat i) (vs ! i)) [0..<length vs] r)"
proof -
  let ?q = "of_nat (length vs) :: u16"
  have q: "unat ?q = length vs" using assms(2) by (simp add: unat_of_nat)
  have bc: "unat (of_nat (2 * length vs) :: u8) = 2 * length vs"
    using assms(2) by (simp add: unat_of_nat del: of_nat_mult)
  have nz: "?q \<noteq> 0" "?q \<le> 123"
    using q assms(1,2) by (auto simp: word_le_nat_alt simp flip: unat_eq_0)
  have words: "fold (\<lambda>i r. setHolding r (addr + of_nat i) (be16 (write_words_pdu addr vs) (6 + 2 * i))) [0..<length vs] r =
      fold (\<lambda>i r. setHolding r (addr + of_nat i) (vs ! i)) [0..<length vs] r"
    by (rule fold_cong) (simp_all add: write_words_pdu_def be16_words)
  have hd: "be16 (write_words_pdu addr vs) 1 = addr" "be16 (write_words_pdu addr vs) 3 = ?q"
    "write_words_pdu addr vs ! 5 = of_nat (2 * length vs)"
    by (simp_all add: write_words_pdu_def) (simp add: u16be_def)
  have seven: "\<not> length (write_words_pdu addr vs) < 7" using assms(1) by (cases vs) simp_all
  show ?thesis
    unfolding writeMultipleRegisters_def Let_def hd words q bc
    using nz seven assms(2,3) by simp
qed

lemma fold_length: "(\<And>i r. length (f i r) = length r) \<Longrightarrow> length (fold f is r) = length r"
  by (induction "is" arbitrary: r) simp_all

lemma coil_count_pos: "(q :: u16) \<noteq> 0 \<Longrightarrow> 0 < (unat q + 7) div 8"
  using unat_gt_0 [of q] by auto

text \<open>Packed bits: bit \<open>k\<close> of a byte list.\<close>

definition packed :: "bytes \<Rightarrow> nat \<Rightarrow> bool" where
  "packed bs k \<longleftrightarrow> bit (bs ! (k div 8)) (k mod 8)"

definition pack_step :: "(nat \<Rightarrow> bool) \<Rightarrow> nat \<Rightarrow> bytes \<Rightarrow> bytes" where
  "pack_step c i r = (if c i then r[2 + i div 8 := r ! (2 + i div 8) OR push_bit (i mod 8) 1] else r)"

lemma length_pack [simp]: "length (fold (pack_step c) is r) = length r"
  by (rule fold_length) (simp add: pack_step_def)

lemma bit_unit: "bit (2 ^ i :: u8) n \<longleftrightarrow> n = i \<and> n < 8"
  by (auto simp: bit_simps)

lemma two_more: "2 \<le> length xs \<Longrightarrow> xs = [xs ! 0, xs ! 1] @ drop 2 xs"
  by (cases xs; cases "tl xs") auto

lemma pack_bit:
  assumes "2 + k div 8 < length r"
  shows "bit (pack_step c i r ! (2 + k div 8)) (k mod 8) \<longleftrightarrow>
    bit (r ! (2 + k div 8)) (k mod 8) \<or> (k = i \<and> c i)"
proof (cases "k div 8 = i div 8")
  case True
  then have "k mod 8 = i mod 8 \<longleftrightarrow> k = i" by (metis div_mod_decomp)
  moreover have "k mod 8 < 8" by simp
  ultimately show ?thesis using True assms by (auto simp: pack_step_def bit_or_iff bit_unit)
next
  case False
  then show ?thesis by (auto simp: pack_step_def nth_list_update)
qed

lemma pack_bits:
  assumes "2 + k div 8 < length r"
  shows "bit (fold (pack_step c) [0..<q] r ! (2 + k div 8)) (k mod 8) \<longleftrightarrow>
    bit (r ! (2 + k div 8)) (k mod 8) \<or> (k < q \<and> c k)"
  using assms
proof (induction q)
  case (Suc q)
  then show ?case
    using pack_bit [of k "fold (pack_step c) [0..<q] r" c q] by (auto simp: less_Suc_eq simp del: add_2_eq_Suc)
qed simp

lemma pack_head:
  "j < 2 \<Longrightarrow> fold (pack_step c) is r ! j = r ! j"
  by (induction "is" arbitrary: r) (auto simp: pack_step_def)

lemma readBits_ok:
  assumes "qty \<noteq> 0" and "qty \<le> 2000" and "unat addr + unat qty \<le> length table * 8"
  shows "\<exists>bits. readBits fc table (read_pdu fc addr qty) = okPdu ([fc, of_nat ((unat qty + 7) div 8)] @ bits) \<and>
    length bits = (unat qty + 7) div 8 \<and> (\<forall>k < 8 * length bits. packed bits k \<longleftrightarrow> k < unat qty \<and> readCoil table (addr + of_nat k))"
proof -
  let ?c = "\<lambda>i. readCoil table (addr + of_nat i)"
  let ?n = "(unat qty + 7) div 8"
  let ?r = "[fc] @ [of_nat ?n] @ replicate ?n 0 :: bytes"
  let ?f = "fold (pack_step ?c) [0..<unat qty] ?r"
  have n: "unat (of_nat ?n :: u8) = ?n" using assms(2) by (simp add: unat_of_nat word_le_nat_alt)
  have eq: "readBits fc table (read_pdu fc addr qty) = okPdu ?f"
    using assms n by (simp add: readBits_def read_pdu_def Let_def pack_step_def [abs_def])
  have len: "length ?f = 2 + ?n" by simp
  have "?f ! 0 = fc" "?f ! 1 = of_nat ?n" by (simp_all add: pack_head)
  then have split: "?f = [fc, of_nat ?n] @ drop 2 ?f"
    using two_more [of ?f] len by (simp del: drop_append)
  have "packed (drop 2 ?f) k \<longleftrightarrow> k < unat qty \<and> ?c k" if "k < 8 * ?n" for k
  proof -
    have k: "2 + k div 8 < length ?r" using that by (simp add: less_mult_imp_div_less mult.commute)
    then have "bit (?r ! (2 + k div 8)) (k mod 8) = False" by simp
    with pack_bits [OF k, of ?c "unat qty"] show ?thesis by (simp add: packed_def)
  qed
  with eq split len show ?thesis by (intro exI [of _ "drop 2 ?f"]) auto
qed

lemma fold_writeCoil_length [simp]: "length (fold (\<lambda>i cs. writeCoil cs (f i) (g i)) is cs) = length cs"
  by (rule fold_length) simp

lemma fold_writeCoil_at:
  assumes "n < 65536" and "i < n" and "unat (addr + of_nat i) div 8 < length cs"
  shows "readCoil (fold (\<lambda>i cs. writeCoil cs (addr + of_nat i) (g i)) [0..<n] cs) (addr + of_nat i) = g i"
  using assms
proof (induction n)
  case (Suc n)
  show ?case
  proof (cases "i = n")
    case True
    with Suc.prems show ?thesis by (simp add: readCoil_writeCoil)
  next
    case False
    with Suc.prems have "addr + of_nat i \<noteq> addr + of_nat n"
      using offsets_inject [of i n addr] by simp
    then have "readCoil (fold (\<lambda>i cs. writeCoil cs (addr + of_nat i) (g i)) [0..<Suc n] cs) (addr + of_nat i) =
        readCoil (fold (\<lambda>i cs. writeCoil cs (addr + of_nat i) (g i)) [0..<n] cs) (addr + of_nat i)"
      by (simp add: readCoil_writeCoil)
    with False Suc show ?thesis by simp
  qed
qed simp

definition write_coils_pdu :: "u16 \<Rightarrow> u16 \<Rightarrow> bytes \<Rightarrow> bytes" where
  "write_coils_pdu addr qty bits = 0x0F # u16be addr @ u16be qty @ [of_nat (length bits)] @ bits"

lemma writeMultipleCoils_ok:
  assumes "qty \<noteq> 0" and "qty \<le> 1968" and "length bits = (unat qty + 7) div 8"
    and "unat addr + unat qty \<le> length (rg_coils r) * 8"
  shows "writeMultipleCoils r (write_coils_pdu addr qty bits) True =
    (okPdu (0x0F # u16be addr @ u16be qty),
     r\<lparr>rg_coils := fold (\<lambda>i cs. writeCoil cs (addr + of_nat i) (packed bits i)) [0..<unat qty] (rg_coils r)\<rparr>)"
proof -
  have n: "unat (of_nat (length bits) :: u8) = length bits"
    using assms(2,3) by (simp add: unat_of_nat word_le_nat_alt)
  have pos: "0 < length bits" using coil_count_pos [OF assms(1)] assms(3) by simp
  have nth: "write_coils_pdu addr qty bits ! (6 + k) = bits ! k" for k
    by (simp add: write_coils_pdu_def u16be_def)
  have hd: "be16 (write_coils_pdu addr qty bits) 1 = addr" "be16 (write_coils_pdu addr qty bits) 3 = qty"
    "write_coils_pdu addr qty bits ! 5 = of_nat (length bits)" "length (write_coils_pdu addr qty bits) = 6 + length bits"
    by (simp_all add: write_coils_pdu_def) (simp_all add: u16be_def)
  have bits: "drop_bit (i mod 8) (write_coils_pdu addr qty bits ! (6 + i div 8)) AND 1 \<noteq> 0 \<longleftrightarrow> packed bits i" for i
    unfolding nth packed_def and_one_bit by (simp add: bit_drop_bit_eq)
  show ?thesis
    unfolding writeMultipleCoils_def Let_def hd bits n
    using assms pos n by simp
qed

section \<open>Properties\<close>

lemma dispatch_parts:
  "dr_exception (fst (writeSingleCoil r pdu w)) \<noteq> None \<Longrightarrow> snd (writeSingleCoil r pdu w) = r"
  "dr_exception (fst (writeSingleRegister r pdu w)) \<noteq> None \<Longrightarrow> snd (writeSingleRegister r pdu w) = r"
  "dr_exception (fst (writeMultipleCoils r pdu w)) \<noteq> None \<Longrightarrow> snd (writeMultipleCoils r pdu w) = r"
  "dr_exception (fst (writeMultipleRegisters r pdu w)) \<noteq> None \<Longrightarrow> snd (writeMultipleRegisters r pdu w) = r"
  by (auto simp: writeSingleCoil_def writeSingleRegister_def writeMultipleCoils_def writeMultipleRegisters_def
      okPdu_def Let_def)

lemma dispatch_guarded:
  "snd (writeSingleCoil r pdu False) = r" "snd (writeSingleRegister r pdu False) = r"
  "snd (writeMultipleCoils r pdu False) = r" "snd (writeMultipleRegisters r pdu False) = r"
  by (simp_all add: writeSingleCoil_def writeSingleRegister_def writeMultipleCoils_def writeMultipleRegisters_def)

lemma length_readBits: "length (dr_bytes (readBits fc table pdu)) \<le> 252"
proof -
  let ?q = "be16 pdu 3"
  have "unat ?q \<le> 2000 \<Longrightarrow> unat (of_nat ((unat ?q + 7) div 8) :: u8) \<le> 250"
    by (simp add: unat_of_nat)
  then show ?thesis
    by (auto simp: readBits_def Let_def exceptionPdu_def okPdu_def fold_length word_le_nat_alt not_le not_less)
qed

lemma length_concat_words [simp]: "length (concat (map (u16be \<circ> f) is)) = 2 * length is"
  by (induction "is") simp_all

lemma length_readWords: "length (dr_bytes (readWords fc get n pdu)) \<le> 252"
  by (auto simp: readWords_def Let_def exceptionPdu_def okPdu_def word_le_nat_alt word_less_nat_alt)

lemma length_writes:
  "length (dr_bytes (fst (writeSingleCoil r pdu w))) \<le> 5" "length (dr_bytes (fst (writeSingleRegister r pdu w))) \<le> 5"
  "length (dr_bytes (fst (writeMultipleCoils r pdu w))) \<le> 5" "length (dr_bytes (fst (writeMultipleRegisters r pdu w))) \<le> 5"
  by (auto simp: writeSingleCoil_def writeSingleRegister_def writeMultipleCoils_def writeMultipleRegisters_def
      exceptionPdu_def okPdu_def Let_def)

text \<open>Property C15: whatever the request, the response of a slave fits a Modbus PDU, and a request
  that ends in an exception, or that was not admitted to write, leaves every register as it
  was.\<close>

theorem dispatch_safe:
  assumes "dispatchFull regs pdu writable = (d, regs')"
  shows "length (dr_bytes d) \<le> 252 \<and> (dr_exception d \<noteq> None \<or> \<not> writable \<longrightarrow> regs' = regs)"
proof (cases "pdu = [] \<or> regs = None")
  case True
  with assms show ?thesis by (auto simp: dispatchFull_def exceptionPdu_def split: option.splits)
next
  case False
  then obtain r where r: "regs = Some r" and ne: "pdu \<noteq> []" by auto
  show ?thesis
    using assms r ne dispatch_parts [where pdu = pdu and r = r and w = writable] dispatch_guarded [of r pdu] length_readBits length_readWords
      length_writes [where pdu = pdu and r = r and w = writable]
    by (auto simp: dispatchFull_def Let_def exceptionPdu_def map_prod_def case_prod_beta le_trans
        split: if_splits)
qed

definition demo_regs :: SlaveRegset where
  "demo_regs = SlaveRegset_allocate 7 64 64"

theorem dispatch_safe_witness:
  "snd (dispatchFull (Some demo_regs) [6, 0, 64, 0, 1] True) = Some demo_regs"
proof -
  obtain d regs' where d: "dispatchFull (Some demo_regs) [6, 0, 64, 0, 1] True = (d, regs')" by fastforce
  have "dr_exception d \<noteq> None"
    using d by (auto simp: dispatchFull_def writeSingleRegister_def demo_regs_def SlaveRegset_allocate_def
        be16_def mk16_def exceptionPdu_def)
  with dispatch_safe [OF d] d show ?thesis by simp
qed

text \<open>Property C14: after a write of several registers (FC10) that the slave holds, a read of the
  same range (FC03) gives the written values, and no other slave and no other register has
  changed.\<close>

theorem registers_write_then_read:
  assumes "find (\<lambda>s. rt_slaveId s = u) slaves = Some rt" and "snapshot bank u = Some r"
    and "vs \<noteq> []" and "length vs \<le> 123"
    and "unat addr + length vs \<le> length (rg_holding r)" and "unat addr + length vs \<le> 65536"
    and "emulatorHandler slaves bank u (write_words_pdu addr vs) = (resp, bank')"
  shows "resp = 0x10 # u16be addr @ u16be (of_nat (length vs)) \<and>
    emulatorHandler slaves bank' u (read_pdu 3 addr (of_nat (length vs))) =
      ([3, of_nat (2 * length vs)] @ concat (map u16be vs), bank') \<and>
    (\<forall>u'. u' \<noteq> u \<longrightarrow> snapshot bank' u' = snapshot bank u') \<and>
    (\<exists>r'. snapshot bank' u = Some r' \<and> rg_coils r' = rg_coils r \<and> rg_input r' = rg_input r \<and>
      (\<forall>a. unat a < unat addr \<or> unat addr + length vs \<le> unat a \<longrightarrow> getHolding r' a = getHolding r a))"
proof -
  let ?q = "of_nat (length vs) :: u16"
  let ?r = "fold (\<lambda>i r. setHolding r (addr + of_nat i) (vs ! i)) [0..<length vs] r"
  have q: "unat ?q = length vs" using assms(4) by (simp add: unat_of_nat)
  have nz: "?q \<noteq> 0" "?q \<le> 125"
    using q assms(3,4) by (auto simp: word_le_nat_alt simp flip: unat_eq_0)
  have fc: "write_words_pdu addr vs \<noteq> []" "write_words_pdu addr vs ! 0 = 0x10"
    by (simp_all add: write_words_pdu_def)
  have "dispatchFull (Some r) (write_words_pdu addr vs) (isWriteFc (write_words_pdu addr vs ! 0)) =
      (okPdu (0x10 # u16be addr @ u16be ?q), Some ?r)"
    using writeMultipleRegisters_ok [OF assms(3-5)] fc by (simp add: dispatchFull_def isWriteFc_def)
  from handler_known [OF assms(1,2) fc(1) this] assms(7)
  have resp: "resp = 0x10 # u16be addr @ u16be ?q" and bank': "bank' = publish bank u (Some ?r)"
    by (simp_all add: fc isWriteFc_def okPdu_def)
  have snap: "snapshot bank' u = Some ?r" by (simp add: bank' snapshot_publish)
  have at: "getHolding ?r (addr + of_nat i) = vs ! i" if "i < length vs" for i
    using that assms(4-6) range_unat [of addr "length vs" i] by (intro fold_setHolding_at) auto
  then have vals: "map (\<lambda>i. getHolding ?r (addr + of_nat i)) [0..<length vs] = vs"
    by (intro nth_equalityI) simp_all
  have rd: "read_pdu 3 addr ?q \<noteq> []" "read_pdu 3 addr ?q ! 0 = 3" by (simp_all add: read_pdu_def)
  have "readWords 3 (getHolding ?r) (length (rg_holding ?r)) (read_pdu 3 addr ?q) =
      okPdu ([3, of_nat (2 * length vs)] @ concat (map u16be vs))"
    using readWords_ok [OF nz, of addr "length (rg_holding ?r)" 3 "getHolding ?r"] assms(5) vals q
    by simp
  then have "dispatchFull (Some ?r) (read_pdu 3 addr ?q) (isWriteFc (read_pdu 3 addr ?q ! 0)) =
      (okPdu ([3, of_nat (2 * length vs)] @ concat (map u16be vs)), Some ?r)"
    using rd by (simp add: dispatchFull_def)
  from handler_known [OF assms(1) snap rd(1) this]
  have read: "emulatorHandler slaves bank' u (read_pdu 3 addr ?q) =
      ([3, of_nat (2 * length vs)] @ concat (map u16be vs), bank')"
    by (simp add: rd isWriteFc_def okPdu_def)
  have frame: "getHolding ?r a = getHolding r a" if "unat a < unat addr \<or> unat addr + length vs \<le> unat a" for a
    using that assms(6) range_unat [of addr "length vs"] by (intro fold_setHolding_other) fastforce
  have "\<forall>u'. u' \<noteq> u \<longrightarrow> snapshot bank' u' = snapshot bank u'" by (simp add: bank' snapshot_publish)
  moreover have "rg_coils ?r = rg_coils r" "rg_input ?r = rg_input r" by simp_all
  ultimately show ?thesis using resp read snap frame by blast
qed

definition demo_slaves :: "SlaveRuntime list" where
  "demo_slaves = [\<lparr>rt_slaveId = 7, rt_kind = Bms, rt_transport = SimTcp\<rparr>]"

definition demo_bank :: RegisterBank where
  "demo_bank = install bank_new 7 (Some demo_regs)"

lemma demo_slave: "find (\<lambda>s. rt_slaveId s = 7) demo_slaves = Some \<lparr>rt_slaveId = 7, rt_kind = Bms, rt_transport = SimTcp\<rparr>"
  "snapshot demo_bank 7 = Some demo_regs" "length (rg_holding demo_regs) = 64"
  by (simp_all add: demo_slaves_def demo_bank_def install_def snapshot_publish demo_regs_def SlaveRegset_allocate_def)

theorem registers_write_then_read_witness:
  "fst (emulatorHandler demo_slaves (snd (emulatorHandler demo_slaves demo_bank 7 (write_words_pdu 16 [0x1234, 5])))
     7 (read_pdu 3 16 2)) = [3, 4, 0x12, 0x34, 0, 5]"
proof -
  obtain resp bank' where w: "emulatorHandler demo_slaves demo_bank 7 (write_words_pdu 16 [0x1234, 5]) = (resp, bank')"
    by fastforce
  from registers_write_then_read [OF demo_slave(1,2) _ _ _ _ w] w show ?thesis
    by (simp add: demo_slave(3) u16be_def hi8_def lo8_def)
qed

text \<open>After a write of several coils (FC0F) that the slave holds, a read of the same
  range (FC01) gives exactly the written bits, packed the same way, with the padding clear.\<close>

theorem coils_write_then_read:
  assumes "find (\<lambda>s. rt_slaveId s = u) slaves = Some rt" and "snapshot bank u = Some r"
    and "qty \<noteq> 0" and "qty \<le> 1968" and "length bits = (unat qty + 7) div 8"
    and "unat addr + unat qty \<le> length (rg_coils r) * 8" and "unat addr + unat qty \<le> 65536"
    and "emulatorHandler slaves bank u (write_coils_pdu addr qty bits) = (resp, bank')"
  shows "resp = 0x0F # u16be addr @ u16be qty \<and>
    (\<exists>bits'. emulatorHandler slaves bank' u (read_pdu 1 addr qty) = ([1, of_nat (length bits)] @ bits', bank') \<and>
      length bits' = length bits \<and>
      (\<forall>k < 8 * length bits. packed bits' k \<longleftrightarrow> k < unat qty \<and> packed bits k))"
proof -
  let ?cs = "fold (\<lambda>i cs. writeCoil cs (addr + of_nat i) (packed bits i)) [0..<unat qty] (rg_coils r)"
  let ?r = "r\<lparr>rg_coils := ?cs\<rparr>"
  have fc: "write_coils_pdu addr qty bits \<noteq> []" "write_coils_pdu addr qty bits ! 0 = 0x0F"
    by (simp_all add: write_coils_pdu_def)
  have "dispatchFull (Some r) (write_coils_pdu addr qty bits) (isWriteFc (write_coils_pdu addr qty bits ! 0)) =
      (okPdu (0x0F # u16be addr @ u16be qty), Some ?r)"
    using writeMultipleCoils_ok [OF assms(3-6)] fc by (simp add: dispatchFull_def isWriteFc_def)
  from handler_known [OF assms(1,2) fc(1) this] assms(8)
  have resp: "resp = 0x0F # u16be addr @ u16be qty" and bank': "bank' = publish bank u (Some ?r)"
    by (simp_all add: fc isWriteFc_def okPdu_def)
  have snap: "snapshot bank' u = Some ?r" by (simp add: bank' snapshot_publish)
  have at: "readCoil ?cs (addr + of_nat i) = packed bits i" if "i < unat qty" for i
    using that assms(4,6,7) range_unat [of addr "unat qty" i]
    by (intro fold_writeCoil_at) (auto simp: less_mult_imp_div_less word_le_nat_alt)
  have q: "qty \<le> 2000" using assms(4) by (simp add: word_le_nat_alt)
  obtain bits' where read: "readBits 1 ?cs (read_pdu 1 addr qty) = okPdu ([1, of_nat ((unat qty + 7) div 8)] @ bits')"
    and len: "length bits' = (unat qty + 7) div 8"
    and bits': "\<forall>k < 8 * length bits'. packed bits' k \<longleftrightarrow> k < unat qty \<and> readCoil ?cs (addr + of_nat k)"
    using readBits_ok [OF assms(3) q, of addr ?cs 1] assms(6) by auto
  have rd: "read_pdu 1 addr qty \<noteq> []" "read_pdu 1 addr qty ! 0 = 1" by (simp_all add: read_pdu_def)
  have "dispatchFull (Some ?r) (read_pdu 1 addr qty) (isWriteFc (read_pdu 1 addr qty ! 0)) =
      (okPdu ([1, of_nat (length bits)] @ bits'), Some ?r)"
    using rd read assms(5) by (simp add: dispatchFull_def)
  from handler_known [OF assms(1) snap rd(1) this]
  have "emulatorHandler slaves bank' u (read_pdu 1 addr qty) = ([1, of_nat (length bits)] @ bits', bank')"
    by (simp add: rd isWriteFc_def okPdu_def)
  moreover have "\<forall>k < 8 * length bits. packed bits' k \<longleftrightarrow> k < unat qty \<and> packed bits k"
    using bits' at len assms(5) by auto
  ultimately show ?thesis using resp len assms(5) by auto
qed

theorem coils_write_then_read_witness:
  "\<exists>bits'. fst (emulatorHandler demo_slaves (snd (emulatorHandler demo_slaves demo_bank 7 (write_coils_pdu 3 10 [0xA5, 0xFE])))
     7 (read_pdu 1 3 10)) = [1, 2] @ bits' \<and> packed bits' 0 \<and> \<not> packed bits' 8 \<and> \<not> packed bits' 10"
proof -
  obtain resp bank' where w: "emulatorHandler demo_slaves demo_bank 7 (write_coils_pdu 3 10 [0xA5, 0xFE]) = (resp, bank')"
    by fastforce
  have "length (rg_coils demo_regs) = 8" by (simp add: demo_regs_def SlaveRegset_allocate_def)
  from coils_write_then_read [OF demo_slave(1,2) _ _ _ _ _ w] this obtain bits' where
    "emulatorHandler demo_slaves bank' 7 (read_pdu 1 3 10) = ([1, 2] @ bits', bank')"
    "\<forall>k < 16. packed bits' k \<longleftrightarrow> k < 10 \<and> packed [0xA5, 0xFE] k"
    by auto
  moreover have "packed [0xA5, 0xFE] 0" "\<not> packed [0xA5, 0xFE] 8" by (simp_all add: packed_def)
  ultimately show ?thesis using w by auto
qed

end
