(* ===== verification/FaultInjector.thy ===== *)
theory FaultInjector
  imports Ens_Prelude
begin

text \<open>
  The fault injection of the device simulator, \<^verbatim>\<open>apps/device_simulator/src/sim/FaultInjector.h\<close>
  and \<^verbatim>\<open>.cpp\<close>: fault sessions with their life cycle, the override table rebuilt from them,
  and the two queries of the generator and of the transports. Readings of the monotonic clock
  are arguments, one per call of \<open>nowMonoMs\<close> on the path. A \<open>float\<close> is a rational number
  here: the rounding of the ramp arithmetic is not modelled, and no property below depends
  on it. Every call holds the mutex throughout and is one step.
\<close>

section \<open>The code\<close>

datatype FaultType = OverTemp | CellVoltage | CommLoss | CrcError | FtTimeout

datatype Scope = SC_ALL | SC_SLAVE | SC_POINT

datatype FaultState = FS_IDLE | FS_ACTIVE | FS_RECOVERING | FS_ABORTED

record FaultOverride =
  fo_type :: FaultType
  fo_scope :: Scope
  fo_slave :: u8
  fo_reg :: u16
  fo_targetValue :: rat
  fo_rampRate :: rat
  fo_recoverValue :: rat
  fo_corruptMs :: int
  fo_durationMs :: int

record FaultEffect =
  ef_active :: bool
  ef_value :: rat
  ef_corruptCrc :: bool
  ef_corruptByte :: bool
  ef_dropLink :: bool
  ef_delayMs :: int
  ef_type :: FaultType

definition noEffect :: FaultEffect where
  "noEffect = \<lparr>ef_active = False, ef_value = 0, ef_corruptCrc = False, ef_corruptByte = False,
     ef_dropLink = False, ef_delayMs = 0, ef_type = OverTemp\<rparr>"

subsection \<open>The override table\<close>

record Entry =
  en_value :: rat
  en_type :: FaultType
  en_dropLink :: bool
  en_corruptCrc :: bool
  en_corruptByte :: bool
  en_delayMs :: int

type_synonym OverrideTable = "u32 \<rightharpoonup> Entry"

definition keyOf :: "u8 \<Rightarrow> u16 \<Rightarrow> u32" where
  "keyOf slave reg = push_bit 16 (ucast slave) OR ucast reg"

definition ALL_KEY :: u32 where
  "ALL_KEY = 0xFFFFFFFF"

definition entryToEffect :: "Entry \<Rightarrow> FaultEffect" where
  "entryToEffect e = \<lparr>ef_active = True, ef_value = en_value e, ef_corruptCrc = en_corruptCrc e,
     ef_corruptByte = en_corruptByte e, ef_dropLink = en_dropLink e, ef_delayMs = en_delayMs e,
     ef_type = en_type e\<rparr>"

definition resolve :: "OverrideTable \<Rightarrow> u8 \<Rightarrow> u16 \<Rightarrow> FaultEffect" where
  "resolve t slave reg =
     (case t (keyOf slave reg) of
        Some e \<Rightarrow> entryToEffect e
      | None \<Rightarrow> (case t ALL_KEY of
          Some e \<Rightarrow> entryToEffect e
        | None \<Rightarrow> noEffect))"

subsection \<open>Sessions\<close>

record FaultSession =
  fs_handle :: u32
  fs_spec :: FaultOverride
  fs_state :: FaultState
  fs_startMonoMs :: int
  fs_activeSinceMs :: int
  fs_recoverSinceMs :: int
  fs_currentValue :: rat
  fs_recoverTarget :: rat

definition kRecoverEpsilon :: rat where
  "kRecoverEpsilon = 1 / 1000"

definition session_new :: "u32 \<Rightarrow> FaultOverride \<Rightarrow> int \<Rightarrow> FaultSession" where
  "session_new h spec now = \<lparr>fs_handle = h, fs_spec = spec, fs_state = FS_IDLE,
     fs_startMonoMs = now, fs_activeSinceMs = 0, fs_recoverSinceMs = 0, fs_currentValue = 0,
     fs_recoverTarget = fo_recoverValue spec\<rparr>"

definition toActive :: "int \<Rightarrow> FaultSession \<Rightarrow> FaultSession" where
  "toActive now s = s\<lparr>fs_state := FS_ACTIVE, fs_activeSinceMs := now,
     fs_currentValue := fo_targetValue (fs_spec s)\<rparr>"

definition toRecovering :: "int \<Rightarrow> FaultSession \<Rightarrow> FaultSession" where
  "toRecovering now s = s\<lparr>fs_state := FS_RECOVERING, fs_recoverSinceMs := now,
     fs_recoverTarget := fo_recoverValue (fs_spec s)\<rparr>"

definition toAborted :: "FaultSession \<Rightarrow> FaultSession" where
  "toAborted s = s\<lparr>fs_state := FS_ABORTED, fs_currentValue := 0\<rparr>"

definition toIdle :: "FaultSession \<Rightarrow> FaultSession" where
  "toIdle s = s\<lparr>fs_state := FS_IDLE, fs_currentValue := 0\<rparr>"

definition setRecoverTarget :: "rat \<Rightarrow> FaultSession \<Rightarrow> FaultSession" where
  "setRecoverTarget v s = s\<lparr>fs_recoverTarget := v\<rparr>"

text \<open>\<open>tick(now)\<close>; \<open>now2\<close> is the reading \<open>toRecovering\<close> takes itself.\<close>

definition ramp :: "int \<Rightarrow> FaultSession \<Rightarrow> rat" where
  "ramp dt s =
     (let delta = fo_rampRate (fs_spec s) * (of_int dt / 1000); target = fs_recoverTarget s
      in if fs_currentValue s > target then max target (fs_currentValue s - delta)
         else if fs_currentValue s < target then min target (fs_currentValue s + delta)
         else fs_currentValue s)"

definition tick :: "int \<Rightarrow> int \<Rightarrow> FaultSession \<Rightarrow> FaultSession" where
  "tick now now2 s =
     (if fs_state s = FS_ACTIVE then
        (if fo_durationMs (fs_spec s) > 0 \<and> now - fs_activeSinceMs s \<ge> fo_durationMs (fs_spec s)
         then toRecovering now2 s else s)
      else if fs_state s = FS_RECOVERING then
        (let dt = now - fs_recoverSinceMs s
         in if dt \<le> 0 then s
            else let s1 = s\<lparr>fs_currentValue := ramp dt s\<rparr>
            in if \<bar>fs_currentValue s1 - fs_recoverTarget s1\<bar> < kRecoverEpsilon
               then toIdle (s1\<lparr>fs_currentValue := fs_recoverTarget s1\<rparr>) else s1)
      else s)"

definition live :: "FaultSession \<Rightarrow> bool" where
  "live s \<longleftrightarrow> fs_state s = FS_ACTIVE \<or> fs_state s = FS_RECOVERING"

definition covers :: "FaultSession \<Rightarrow> u8 \<Rightarrow> u16 \<Rightarrow> bool" where
  "covers s slave reg =
     (if \<not> live s then False
      else case fo_scope (fs_spec s) of
        SC_POINT \<Rightarrow> fo_slave (fs_spec s) = slave \<and> fo_reg (fs_spec s) = reg
      | SC_SLAVE \<Rightarrow> fo_slave (fs_spec s) = slave
      | SC_ALL \<Rightarrow> True)"

subsection \<open>The injector\<close>

record FaultInjector =
  fi_sessions :: "FaultSession list"
  fi_nextHandle :: u32
  fi_table :: OverrideTable

definition injector_new :: FaultInjector where
  "injector_new = \<lparr>fi_sessions = [], fi_nextHandle = 1, fi_table = Map.empty\<rparr>"

definition entry_of :: "FaultSession \<Rightarrow> Entry" where
  "entry_of s = (let t = fo_type (fs_spec s) in
     \<lparr>en_value = fs_currentValue s, en_type = t, en_dropLink = (t = CommLoss),
      en_corruptCrc = (t = CrcError), en_corruptByte = (t = CrcError),
      en_delayMs = (if t = FtTimeout then fo_corruptMs (fs_spec s) else 0)\<rparr>)"

definition entry_key :: "FaultSession \<Rightarrow> u32" where
  "entry_key s = (case fo_scope (fs_spec s) of
     SC_POINT \<Rightarrow> keyOf (fo_slave (fs_spec s)) (fo_reg (fs_spec s))
   | SC_SLAVE \<Rightarrow> ALL_KEY
   | SC_ALL \<Rightarrow> ALL_KEY)"

definition rebuild_entries :: "FaultSession list \<Rightarrow> OverrideTable" where
  "rebuild_entries ss = fold (\<lambda>s t. if \<not> live s then t else t(entry_key s \<mapsto> entry_of s)) ss Map.empty"

definition rebuildTable :: "FaultInjector \<Rightarrow> FaultInjector" where
  "rebuildTable fi = fi\<lparr>fi_table := rebuild_entries (fi_sessions fi)\<rparr>"

definition resolveOverride :: "FaultInjector \<Rightarrow> u8 \<Rightarrow> u16 \<Rightarrow> FaultEffect" where
  "resolveOverride fi slave reg =
     (let ef = resolve (fi_table fi) slave reg
      in if ef_active ef then
           (case find (\<lambda>s. covers s slave reg) (fi_sessions fi) of
              Some s \<Rightarrow> ef\<lparr>ef_value := fs_currentValue s\<rparr>
            | None \<Rightarrow> ef)
         else ef)"

definition link_match :: "FaultSession \<Rightarrow> u8 \<Rightarrow> bool" where
  "link_match s slave = (case fo_scope (fs_spec s) of
     SC_POINT \<Rightarrow> fo_slave (fs_spec s) = slave
   | SC_SLAVE \<Rightarrow> fo_slave (fs_spec s) = slave
   | SC_ALL \<Rightarrow> True)"

definition link_add :: "FaultSession \<Rightarrow> FaultEffect \<Rightarrow> FaultEffect" where
  "link_add s ef0 =
     (let t = fo_type (fs_spec s);
          ef1 = ef0\<lparr>ef_active := True, ef_type := t\<rparr>;
          ef2 = (if t = CommLoss then ef1\<lparr>ef_dropLink := True\<rparr> else ef1);
          ef3 = (if t = CrcError then ef2\<lparr>ef_corruptCrc := True, ef_corruptByte := True\<rparr> else ef2)
      in if t = FtTimeout then ef3\<lparr>ef_delayMs := fo_corruptMs (fs_spec s)\<rparr> else ef3)"

definition linkEffect :: "FaultInjector \<Rightarrow> u8 \<Rightarrow> FaultEffect" where
  "linkEffect fi slave =
     fold (\<lambda>s ef. if \<not> live s then ef else if \<not> link_match s slave then ef else link_add s ef)
       (fi_sessions fi) noEffect"

text \<open>The clock is read for the constructor and for \<open>toActive\<close>.\<close>

definition trigger :: "FaultInjector \<Rightarrow> FaultOverride \<Rightarrow> int \<Rightarrow> int \<Rightarrow> u32 \<times> FaultInjector" where
  "trigger fi spec now1 now2 =
     (let h = fi_nextHandle fi; fi1 = fi\<lparr>fi_nextHandle := h + 1\<rparr>
      in if h = 0 then (0, fi1)
         else (h, rebuildTable (fi1\<lparr>fi_sessions := fi_sessions fi1 @ [toActive now2 (session_new h spec now1)]\<rparr>)))"

text \<open>The first element that satisfies \<open>P\<close> is changed; whether there was one.\<close>

fun update_first :: "('a \<Rightarrow> bool) \<Rightarrow> ('a \<Rightarrow> 'a) \<Rightarrow> 'a list \<Rightarrow> bool \<times> 'a list" where
  "update_first P f [] = (False, [])"
| "update_first P f (x # xs) =
     (if P x then (True, f x # xs)
      else case update_first P f xs of (ok, ys) \<Rightarrow> (ok, x # ys))"

definition recover :: "FaultInjector \<Rightarrow> u32 \<Rightarrow> rat \<Rightarrow> int \<Rightarrow> bool \<times> FaultInjector" where
  "recover fi h recoverValue now =
     (case update_first (\<lambda>s. fs_handle s = h \<and> fs_state s = FS_ACTIVE)
             (\<lambda>s. toRecovering now (setRecoverTarget recoverValue s)) (fi_sessions fi) of
        (ok, ss) \<Rightarrow>
          let fi1 = fi\<lparr>fi_sessions := ss\<rparr> in (ok, if ok then rebuildTable fi1 else fi1))"

definition abort_fault :: "FaultInjector \<Rightarrow> u32 \<Rightarrow> bool \<times> FaultInjector" where
  "abort_fault fi h =
     (case update_first (\<lambda>s. fs_handle s = h) toAborted (fi_sessions fi) of
        (ok, ss) \<Rightarrow>
          let fi1 = fi\<lparr>fi_sessions := ss\<rparr> in (ok, if ok then rebuildTable fi1 else fi1))"

text \<open>\<open>now2\<close> gives the reading of the session at an index that leaves \<open>ACTIVE\<close>.\<close>

definition tickSessions :: "FaultInjector \<Rightarrow> int \<Rightarrow> (nat \<Rightarrow> int) \<Rightarrow> FaultInjector" where
  "tickSessions fi now now2 =
     (let ss = map (\<lambda>(i, s). tick now (now2 i) s) (List.enumerate 0 (fi_sessions fi));
          changed = (map fs_state ss \<noteq> map fs_state (fi_sessions fi));
          fi1 = fi\<lparr>fi_sessions := ss\<rparr>
      in if changed then rebuildTable fi1 else fi1)"

definition sessionCount :: "FaultInjector \<Rightarrow> nat" where
  "sessionCount fi = length (fi_sessions fi)"

definition sessionState :: "FaultInjector \<Rightarrow> u32 \<Rightarrow> FaultState" where
  "sessionState fi h =
     (case find (\<lambda>s. fs_handle s = h) (fi_sessions fi) of Some s \<Rightarrow> fs_state s | None \<Rightarrow> FS_IDLE)"

definition tableSize :: "FaultInjector \<Rightarrow> nat" where
  "tableSize fi = card (dom (fi_table fi))"

section \<open>The table follows the sessions\<close>

inductive fi_reach :: "FaultInjector \<Rightarrow> bool" where
  new: "fi_reach injector_new"
| trig: "fi_reach fi \<Longrightarrow> trigger fi spec now1 now2 = (h, fi') \<Longrightarrow> fi_reach fi'"
| recov: "fi_reach fi \<Longrightarrow> recover fi h rv now = (ok, fi') \<Longrightarrow> fi_reach fi'"
| abrt: "fi_reach fi \<Longrightarrow> abort_fault fi h = (ok, fi') \<Longrightarrow> fi_reach fi'"
| ticks: "fi_reach fi \<Longrightarrow> fi_reach (tickSessions fi now now2)"

text \<open>The table up to the values, which \<open>resolveOverride\<close> takes from the sessions.\<close>

definition strip :: "Entry option \<Rightarrow> Entry option" where
  "strip e = map_option (\<lambda>e. e\<lparr>en_value := 0\<rparr>) e"

definition table_ok :: "FaultInjector \<Rightarrow> bool" where
  "table_ok fi \<longleftrightarrow> (\<forall>k. strip (fi_table fi k) = strip (rebuild_entries (fi_sessions fi) k))"

lemma table_ok_rebuild: "table_ok (rebuildTable fi)"
  by (simp add: table_ok_def rebuildTable_def)

lemma rebuild_snoc:
  "rebuild_entries (ss @ [s]) =
     (if live s then (rebuild_entries ss)(entry_key s \<mapsto> entry_of s) else rebuild_entries ss)"
  by (simp add: rebuild_entries_def)

lemma rebuild_nil: "rebuild_entries [] = Map.empty"
  by (simp add: rebuild_entries_def)

lemma tick_spec [simp]: "fs_spec (tick now now2 s) = fs_spec s"
  by (simp add: tick_def toRecovering_def toIdle_def Let_def)

lemma strip_rebuild_cong:
  "map fs_spec ss = map fs_spec ss' \<Longrightarrow> map fs_state ss = map fs_state ss' \<Longrightarrow>
   strip (rebuild_entries ss k) = strip (rebuild_entries ss' k)"
proof (induction ss arbitrary: ss' rule: rev_induct)
  case Nil
  then show ?case by simp
next
  case (snoc s ss)
  from snoc.prems(1) obtain t ts where ss': "ss' = ts @ [t]"
    by (cases ss' rule: rev_cases) auto
  with snoc.prems have eq: "fs_spec s = fs_spec t" "fs_state s = fs_state t"
    and "strip (rebuild_entries ss k) = strip (rebuild_entries ts k)"
    using snoc.IH [of ts] by simp_all
  moreover from eq have "live s = live t" "entry_key s = entry_key t" "strip (Some (entry_of s)) = strip (Some (entry_of t))"
    by (simp_all add: live_def entry_key_def entry_of_def strip_def Let_def split: Scope.split)
  ultimately show ?case by (simp add: ss' rebuild_snoc)
qed

lemma update_first_none: "update_first P f xs = (False, ys) \<Longrightarrow> ys = xs"
  by (induction xs arbitrary: ys) (auto split: if_splits prod.splits)

lemma map_enumerate_map: "map g (map (\<lambda>(i, s). f i s) (List.enumerate n ss)) = map (\<lambda>(i, s). g (f i s)) (List.enumerate n ss)"
  by (simp add: case_prod_beta)

lemma tick_specs: "map fs_spec (map (\<lambda>(i, s). tick now (now2 i) s) (List.enumerate n ss)) = map fs_spec ss"
proof -
  have "map fs_spec (map (\<lambda>(i, s). tick now (now2 i) s) (List.enumerate n ss)) = map fs_spec (map snd (List.enumerate n ss))"
    unfolding map_map by (rule map_cong) auto
  then show ?thesis by simp
qed

lemma table_ok_tick: "table_ok fi \<Longrightarrow> table_ok (tickSessions fi now now2)"
proof -
  assume ok: "table_ok fi"
  let ?ss = "map (\<lambda>(i, s). tick now (now2 i) s) (List.enumerate 0 (fi_sessions fi))"
  show ?thesis
  proof (cases "map fs_state ?ss = map fs_state (fi_sessions fi)")
    case True
    from strip_rebuild_cong [OF tick_specs True] ok
    have "table_ok (fi\<lparr>fi_sessions := ?ss\<rparr>)" unfolding table_ok_def by simp
    with True show ?thesis unfolding tickSessions_def Let_def by simp
  next
    case False
    then show ?thesis unfolding tickSessions_def Let_def by (simp add: table_ok_rebuild)
  qed
qed

lemma fi_reach_table: "fi_reach fi \<Longrightarrow> table_ok fi"
proof (induction rule: fi_reach.induct)
  case new
  show ?case by (simp add: table_ok_def injector_new_def rebuild_entries_def)
next
  case (trig fi spec now1 now2 h fi')
  then show ?case
    by (auto simp: trigger_def Let_def table_ok_rebuild split: if_splits) (simp add: table_ok_def)
next
  case (recov fi h rv now ok fi')
  then show ?case
    by (auto simp: recover_def Let_def table_ok_rebuild split: prod.splits if_splits dest: update_first_none)
next
  case (abrt fi h ok fi')
  then show ?case
    by (auto simp: abort_fault_def Let_def table_ok_rebuild split: prod.splits if_splits dest: update_first_none)
qed (simp add: table_ok_tick)

lemma keyOf_less: "unat (keyOf slave reg) < 2 ^ 24"
proof -
  have "take_bit 24 (keyOf slave reg) = keyOf slave reg"
    by (rule bit_eqI) (auto simp: keyOf_def bit_simps dest: bit_u8_high bit_u16_high)
  then show ?thesis by (metis take_bit_nat_less_exp unsigned_take_bit_eq)
qed

lemma keyOf_not_ALL [simp]: "keyOf slave reg \<noteq> ALL_KEY" "ALL_KEY \<noteq> keyOf slave reg"
  using keyOf_less [of slave reg] by (auto simp: ALL_KEY_def)

lemma keyOf_inject [simp]: "keyOf s r = keyOf s' r' \<longleftrightarrow> s = s' \<and> r = r'"
proof
  assume eq: "keyOf s r = keyOf s' r'"
  have "bit r n = bit r' n" if "n < 16" for n
    using arg_cong [OF eq, of "\<lambda>x. bit x n"] that by (simp add: keyOf_def bit_simps)
  then have "r = r'" by (intro bit_word_eqI) simp
  moreover have "bit s n = bit s' n" if "n < 8" for n
    using arg_cong [OF eq, of "\<lambda>x. bit x (n + 16)"] that by (simp add: keyOf_def bit_simps)
  then have "s = s'" by (intro bit_word_eqI) simp
  ultimately show "s = s' \<and> r = r'" by simp
qed simp

lemma dom_rebuild: "rebuild_entries ss k \<noteq> None \<longleftrightarrow> (\<exists>s \<in> set ss. live s \<and> entry_key s = k)"
  by (induction ss rule: rev_induct) (auto simp: rebuild_snoc rebuild_nil)

lemma table_dom: "table_ok fi \<Longrightarrow> fi_table fi k \<noteq> None \<longleftrightarrow> (\<exists>s \<in> set (fi_sessions fi). live s \<and> entry_key s = k)"
  unfolding dom_rebuild [symmetric] table_ok_def strip_def by (metis option.map_disc_iff)

section \<open>Properties\<close>

lemma active_iff_key:
  assumes "table_ok fi"
  shows "ef_active (resolveOverride fi slave reg) \<longleftrightarrow>
    (\<exists>s \<in> set (fi_sessions fi). live s \<and> entry_key s \<in> {keyOf slave reg, ALL_KEY})"
proof -
  have "ef_active (resolveOverride fi slave reg) \<longleftrightarrow>
      fi_table fi (keyOf slave reg) \<noteq> None \<or> fi_table fi ALL_KEY \<noteq> None"
    by (auto simp: resolveOverride_def resolve_def entryToEffect_def noEffect_def Let_def split: option.splits)
  then show ?thesis unfolding table_dom [OF assms] by auto
qed

text \<open>Where every slave-scoped fault in force names the slave asked about, the keys of the
  table say what \<open>covers\<close> says.\<close>

lemma live_key_covers:
  assumes "live s" and "fo_scope (fs_spec s) = SC_SLAVE \<Longrightarrow> fo_slave (fs_spec s) = slave"
  shows "entry_key s \<in> {keyOf slave reg, ALL_KEY} \<longleftrightarrow> covers s slave reg"
  using assms by (cases "fo_scope (fs_spec s)") (auto simp: entry_key_def covers_def)

text \<open>Property C16: as long as every slave-scoped fault in force names the slave asked about, a
  register of it is overridden in a reachable injector exactly when some session covers it: a
  live one whose scope is the point, the slave or everything; and the value it is overridden
  with is the current one, ramp included, of the first session that covers it. Ended and
  aborted sessions override nothing.\<close>

theorem override_active_iff:
  assumes "fi_reach fi"
    and "\<forall>s \<in> set (fi_sessions fi). live s \<and> fo_scope (fs_spec s) = SC_SLAVE \<longrightarrow> fo_slave (fs_spec s) = slave"
  shows "(ef_active (resolveOverride fi slave reg) \<longleftrightarrow> (\<exists>s \<in> set (fi_sessions fi). covers s slave reg)) \<and>
    (\<forall>s. find (\<lambda>s. covers s slave reg) (fi_sessions fi) = Some s \<longrightarrow>
       ef_value (resolveOverride fi slave reg) = fs_currentValue s)"
proof (intro conjI allI impI)
  have "live s \<and> entry_key s \<in> {keyOf slave reg, ALL_KEY} \<longleftrightarrow> covers s slave reg" if "s \<in> set (fi_sessions fi)" for s
    using live_key_covers [of s slave reg] assms(2) that by (cases "live s") (auto simp: covers_def)
  then show active: "ef_active (resolveOverride fi slave reg) \<longleftrightarrow> (\<exists>s \<in> set (fi_sessions fi). covers s slave reg)"
    unfolding active_iff_key [OF fi_reach_table [OF assms(1)]] by blast
  fix s
  assume f: "find (\<lambda>s. covers s slave reg) (fi_sessions fi) = Some s"
  then have "\<exists>s \<in> set (fi_sessions fi). covers s slave reg"
    by (auto simp: find_Some_iff)
  with active have "ef_active (resolve (fi_table fi) slave reg)"
    by (auto simp: resolveOverride_def Let_def split: if_splits)
  with f show "ef_value (resolveOverride fi slave reg) = fs_currentValue s"
    by (simp add: resolveOverride_def Let_def)
qed

definition demo_fault :: "Scope \<Rightarrow> FaultOverride" where
  "demo_fault sc = \<lparr>fo_type = OverTemp, fo_scope = sc, fo_slave = 3, fo_reg = 8, fo_targetValue = 80,
     fo_rampRate = 5, fo_recoverValue = 35, fo_corruptMs = 0, fo_durationMs = 0\<rparr>"

lemma demo_fault_simps [simp]:
  "fo_scope (demo_fault sc) = sc" "fo_slave (demo_fault sc) = 3" "fo_reg (demo_fault sc) = 8"
  "fo_targetValue (demo_fault sc) = 80" "fo_rampRate (demo_fault sc) = 5" "fo_recoverValue (demo_fault sc) = 35"
  by (simp_all add: demo_fault_def)

lemma demo_triggered:
  "trigger injector_new (demo_fault sc) 0 0 =
    (1, rebuildTable \<lparr>fi_sessions = [toActive 0 (session_new 1 (demo_fault sc) 0)], fi_nextHandle = 2, fi_table = Map.empty\<rparr>)"
  by (simp add: trigger_def injector_new_def Let_def)

theorem override_active_iff_witness:
  "ef_active (resolveOverride (snd (trigger injector_new (demo_fault SC_SLAVE) 0 0)) 3 8) \<and>
   ef_value (resolveOverride (snd (trigger injector_new (demo_fault SC_SLAVE) 0 0)) 3 8) = 80 \<and>
   \<not> ef_active (resolveOverride (snd (trigger injector_new (demo_fault SC_POINT) 0 0)) 3 9)"
proof -
  have reach: "fi_reach (snd (trigger injector_new (demo_fault sc) 0 0))" for sc
    by (rule fi_reach.trig [OF fi_reach.new, of "demo_fault sc" 0 0 1]) (simp add: demo_triggered)
  note sessions = demo_triggered rebuildTable_def live_def covers_def toActive_def session_new_def
  show ?thesis
    using override_active_iff [OF reach, of SC_SLAVE 3 8] override_active_iff [OF reach, of SC_POINT 3 9]
    by (simp add: sessions)
qed

text \<open>A fault scoped to one slave overrides the registers of every other slave, with
  the value of its target, although it covers none of them and the transports of the other
  slaves are told of no fault.\<close>

theorem slave_scope_leaks:
  assumes "fi_reach fi" and "\<forall>s \<in> set (fi_sessions fi). \<not> live s"
    and "fo_scope spec = SC_SLAVE" and "other \<noteq> fo_slave spec"
    and "trigger fi spec now1 now2 = (h, fi')" and "h \<noteq> 0"
  shows "ef_active (resolveOverride fi' other reg) \<and> ef_value (resolveOverride fi' other reg) = fo_targetValue spec \<and>
    (\<forall>s \<in> set (fi_sessions fi'). \<not> covers s other reg) \<and> linkEffect fi' other = noEffect"
proof -
  let ?s = "toActive now2 (session_new h spec now1)"
  have fi': "fi' = rebuildTable (fi\<lparr>fi_nextHandle := fi_nextHandle fi + 1, fi_sessions := fi_sessions fi @ [?s]\<rparr>)"
    using assms(5,6) by (auto simp: trigger_def Let_def split: if_splits)
  have dead: "rebuild_entries ss = Map.empty" if "\<forall>s \<in> set ss. \<not> live s" for ss
    using that by (induction ss rule: rev_induct) (auto simp: rebuild_nil rebuild_snoc)
  have s: "live ?s" "entry_key ?s = ALL_KEY" "\<not> covers ?s other reg" "\<not> link_match ?s other"
      "fs_currentValue ?s = fo_targetValue spec"
    using assms(3,4) by (auto simp: toActive_def session_new_def live_def entry_key_def covers_def link_match_def)
  have table: "fi_table fi' = [ALL_KEY \<mapsto> entry_of ?s]"
    by (simp add: fi' rebuildTable_def rebuild_snoc dead [OF assms(2)] s)
  have cov: "\<forall>s \<in> set (fi_sessions fi'). \<not> covers s other reg"
    using assms(2) s(3) by (auto simp: fi' rebuildTable_def covers_def)
  then have "find (\<lambda>s. covers s other reg) (fi_sessions fi') = None" by (simp add: find_None_iff)
  then have "resolveOverride fi' other reg = entryToEffect (entry_of ?s)"
    by (simp add: resolveOverride_def resolve_def table Let_def entryToEffect_def)
  moreover have "fold (\<lambda>s ef. if \<not> live s then ef else if \<not> link_match s other then ef else link_add s ef) ss e = e"
    if "\<forall>s \<in> set ss. \<not> live s \<or> \<not> link_match s other" for ss e
    using that by (induction ss) auto
  then have "linkEffect fi' other = noEffect"
    using assms(2) s(4) by (simp add: linkEffect_def fi' rebuildTable_def)
  ultimately show ?thesis
    using cov s(5) by (simp add: entryToEffect_def entry_of_def Let_def)
qed

theorem slave_scope_leaks_witness:
  "ef_value (resolveOverride (snd (trigger injector_new (demo_fault SC_SLAVE) 0 0)) 17 0) = 80"
proof -
  have "\<forall>s \<in> set (fi_sessions injector_new). \<not> live s" by (simp add: injector_new_def)
  from slave_scope_leaks [OF fi_reach.new this _ _ demo_triggered, where other = 17 and reg = 0] show ?thesis
    by (simp add: demo_triggered)
qed

text \<open>The value that \<open>recover\<close> is given is ignored: the outcome is the same for any two
  of them, and the session returns to the value of its own specification.\<close>

theorem recover_value_ignored:
  "recover fi h rv now = recover fi h rv' now \<and>
   fs_recoverTarget (toRecovering now (setRecoverTarget rv s)) = fo_recoverValue (fs_spec s)"
proof -
  have "(\<lambda>s. toRecovering now (setRecoverTarget rv s)) = (\<lambda>s. toRecovering now (setRecoverTarget rv' s))"
    by (simp add: fun_eq_iff toRecovering_def setRecoverTarget_def)
  then show ?thesis by (simp add: recover_def toRecovering_def setRecoverTarget_def)
qed

lemma tick_falls:
  assumes "fs_state s = FS_RECOVERING" and "0 < now - fs_recoverSinceMs s"
    and "0 \<le> fo_rampRate (fs_spec s) * (of_int (now - fs_recoverSinceMs s) / 1000)"
    and "fs_recoverTarget s + kRecoverEpsilon \<le>
      fs_currentValue s - fo_rampRate (fs_spec s) * (of_int (now - fs_recoverSinceMs s) / 1000)"
  shows "tick now now2 s =
    s\<lparr>fs_currentValue := fs_currentValue s - fo_rampRate (fs_spec s) * (of_int (now - fs_recoverSinceMs s) / 1000)\<rparr>"
proof -
  let ?d = "fo_rampRate (fs_spec s) * (of_int (now - fs_recoverSinceMs s) / 1000)"
  have "0 < kRecoverEpsilon" by (simp add: kRecoverEpsilon_def)
  with assms(3,4) have lt: "fs_recoverTarget s < fs_currentValue s" "fs_recoverTarget s \<le> fs_currentValue s - ?d"
    and far: "\<not> \<bar>fs_currentValue s - ?d - fs_recoverTarget s\<bar> < kRecoverEpsilon"
    by linarith+
  then have "ramp (now - fs_recoverSinceMs s) s = fs_currentValue s - ?d"
    by (simp add: ramp_def Let_def)
  with assms(1,2) far show ?thesis by (simp add: tick_def Let_def)
qed

text \<open>A session that recovers, ticked every \<open>d\<close> milliseconds.\<close>

fun ticks_from :: "int \<Rightarrow> int \<Rightarrow> nat \<Rightarrow> FaultSession \<Rightarrow> FaultSession" where
  "ticks_from t0 d 0 s = s"
| "ticks_from t0 d (Suc n) s = tick (t0 + d * (int n + 1)) 0 (ticks_from t0 d n s)"

text \<open>The recovery ramp is not linear in the time since the recovery began: after
  \<open>n\<close> ticks the value has fallen by \<open>n (n + 1) / 2\<close> steps of \<open>rampRate * d\<close>, since each tick
  subtracts the whole elapsed time from a value that already fell.\<close>

theorem recovery_ramp_accumulates:
  assumes "fs_state s = FS_RECOVERING" and "fs_recoverSinceMs s = t0" and "0 < d" and "0 \<le> fo_rampRate (fs_spec s)"
    and "fs_recoverTarget s + kRecoverEpsilon \<le>
      fs_currentValue s - fo_rampRate (fs_spec s) * of_int d / 1000 * (of_nat n * (of_nat n + 1) / 2)"
  shows "ticks_from t0 d n s =
    s\<lparr>fs_currentValue := fs_currentValue s - fo_rampRate (fs_spec s) * of_int d / 1000 * (of_nat n * (of_nat n + 1) / 2)\<rparr>"
  using assms(5)
proof (induction n)
  case 0
  then show ?case by simp
next
  case (Suc n)
  let ?c = "fo_rampRate (fs_spec s) * of_int d / 1000"
  let ?v = "\<lambda>n. fs_currentValue s - ?c * (of_nat n * (of_nat n + 1) / 2)"
  have c: "0 \<le> ?c" using assms(3,4) by simp
  have step: "?v (Suc n) = ?v n - ?c * (of_nat n + 1)" by (simp add: field_simps)
  have pos: "0 < d * (int n + 1)" using assms(3) by simp
  have delta: "fo_rampRate (fs_spec s) * (of_int (d * (int n + 1)) / 1000) = ?c * (of_nat n + 1)"
    by (simp add: field_simps)
  have nonneg: "0 \<le> ?c * (of_nat n + 1)" using c by (intro mult_nonneg_nonneg) simp_all
  from Suc.prems nonneg have "fs_recoverTarget s + kRecoverEpsilon \<le> ?v n" unfolding step by linarith
  then have IH: "ticks_from t0 d n s = s\<lparr>fs_currentValue := ?v n\<rparr>" by (rule Suc.IH)
  have "tick (t0 + d * (int n + 1)) 0 (s\<lparr>fs_currentValue := ?v n\<rparr>) =
      s\<lparr>fs_currentValue := ?v n, fs_currentValue := ?v n - ?c * (of_nat n + 1)\<rparr>"
    using tick_falls [of "s\<lparr>fs_currentValue := ?v n\<rparr>" "t0 + d * (int n + 1)" 0] assms(1,2) pos delta nonneg
      Suc.prems unfolding step by simp
  then show ?case unfolding ticks_from.simps IH step by simp
qed

theorem recovery_ramp_accumulates_witness:
  "fs_currentValue (ticks_from 0 1000 3 (toRecovering 0 (toActive 0 (session_new 1 (demo_fault SC_POINT) 0)))) = 50"
proof -
  let ?s = "toRecovering 0 (toActive 0 (session_new 1 (demo_fault SC_POINT) 0))"
  have "fs_state ?s = FS_RECOVERING" "fs_recoverSinceMs ?s = 0"
    by (simp_all add: toRecovering_def)
  from recovery_ramp_accumulates [OF this, of 1000 3] show ?thesis
    by (simp add: toRecovering_def toActive_def session_new_def kRecoverEpsilon_def)
qed

end
