(* ===== verification/SimServer.thy ===== *)
theory SimServer
  imports SimDispatch FaultInjector Crc16
begin

text \<open>
  The two transports of the device simulator: the MBAP header (\<^verbatim>\<open>core/mbap.h\<close> and
  \<^verbatim>\<open>.cpp\<close>), the client loop of the TCP server (\<^verbatim>\<open>sim/modbus_tcp_server.cpp\<close>) and the frame
  handler of the RTU slave (\<^verbatim>\<open>sim/rtu_slave_port.cpp\<close>), all under
  \<^verbatim>\<open>apps/device_simulator/src\<close>. The installed request handler is a parameter that
  threads a state; the fault effect in force is an argument (\<open>None\<close>: no injector). The
  socket is the list of the bytes it delivers: a read past the end fails, as on a closed
  connection, and a write always succeeds. A delay is an output, not a wait.
\<close>

section \<open>MBAP headers\<close>

record MbapHeader =
  mb_transactionId :: u16
  mb_protocolId :: u16
  mb_length :: u16
  mb_unitId :: u8

definition parse_mbap :: "bytes \<Rightarrow> MbapHeader option" where
  "parse_mbap p =
     (if length p < 7 then None
      else let tid = mk16 (p ! 0) (p ! 1); pid = mk16 (p ! 2) (p ! 3)
      in if pid \<noteq> 0 then None
         else Some \<lparr>mb_transactionId = tid, mb_protocolId = pid, mb_length = mk16 (p ! 4) (p ! 5),
                    mb_unitId = p ! 6\<rparr>)"

definition emit_mbap :: "MbapHeader \<Rightarrow> bytes" where
  "emit_mbap h =
     [hi8 (mb_transactionId h), lo8 (mb_transactionId h), hi8 (mb_protocolId h), lo8 (mb_protocolId h),
      hi8 (mb_length h), lo8 (mb_length h), mb_unitId h]"

section \<open>The TCP server\<close>

text \<open>A response, or the loss of the connection, and the delay before it.\<close>

definition corruptByte3 :: "bytes \<Rightarrow> bytes" where
  "corruptByte3 pdu = pdu[3 := pdu ! 3 XOR 0xFF]"

definition tcp_respond :: "FaultEffect option \<Rightarrow> MbapHeader \<Rightarrow> bytes \<Rightarrow> (int \<times> bytes) option" where
  "tcp_respond fi hdr respPdu =
     (if respPdu = [] then None
      else let reply = (\<lambda>delay pdu. Some (delay,
             emit_mbap \<lparr>mb_transactionId = mb_transactionId hdr, mb_protocolId = 0,
               mb_length = of_nat (length pdu + 1), mb_unitId = mb_unitId hdr\<rparr> @ pdu))
      in case fi of
        None \<Rightarrow> reply 0 respPdu
      | Some eff \<Rightarrow>
          (if \<not> ef_active eff then reply 0 respPdu
           else if ef_dropLink eff then None
           else reply (if ef_delayMs eff > 0 then ef_delayMs eff else 0)
                  (if ef_corruptByte eff \<and> length respPdu > 3 then corruptByte3 respPdu else respPdu)))"

text \<open>One turn of \<open>clientLoop\<close> on the bytes still to come: \<open>None\<close> closes the connection.\<close>

definition client_turn ::
  "('s \<Rightarrow> u8 \<Rightarrow> bytes \<Rightarrow> bytes \<times> 's) \<Rightarrow> (u8 \<Rightarrow> FaultEffect option) \<Rightarrow> 's \<Rightarrow> bytes \<Rightarrow>
     ((int \<times> bytes) option \<times> bytes) option \<times> 's" where
  "client_turn handler fi st stream =
     (if length stream < 7 then (None, st)
      else case parse_mbap (take 7 stream) of
        None \<Rightarrow> (None, st)
      | Some hdr \<Rightarrow>
          if mb_length hdr < 2 \<or> unat (mb_length hdr) - 1 > 255 then (None, st)
          else let pduLen = unat (mb_length hdr) - 1; rest = drop 7 stream
          in if length rest < pduLen then (None, st)
             else case handler st (mb_unitId hdr) (take pduLen rest) of
               (respPdu, st') \<Rightarrow>
                 (Some (tcp_respond (fi (mb_unitId hdr)) hdr respPdu, drop pduLen rest), st'))"

function clientLoop ::
  "('s \<Rightarrow> u8 \<Rightarrow> bytes \<Rightarrow> bytes \<times> 's) \<Rightarrow> (u8 \<Rightarrow> FaultEffect option) \<Rightarrow> 's \<Rightarrow> bytes \<Rightarrow>
     (int \<times> bytes) list \<times> 's" where
  "clientLoop handler fi st stream =
     (case client_turn handler fi st stream of
        (None, st') \<Rightarrow> ([], st')
      | (Some (None, rest), st') \<Rightarrow> ([], st')
      | (Some (Some out, rest), st') \<Rightarrow>
          (case clientLoop handler fi st' rest of (outs, st'') \<Rightarrow> (out # outs, st'')))"
  by pat_completeness auto
termination
proof (relation "measure (\<lambda>(handler, fi, st, stream). length stream)")
  fix handler :: "'s \<Rightarrow> u8 \<Rightarrow> bytes \<Rightarrow> bytes \<times> 's" and fi st stream r st' x resp rest out
  assume "(r, st') = client_turn handler fi st stream" and "r = Some x"
    and "(resp, rest) = x" and "resp = Some out"
  then have "length rest < length stream"
    by (auto simp: client_turn_def Let_def split: if_splits option.splits prod.splits)
  then show "((handler, fi, st', rest), handler, fi, st, stream) \<in> measure (\<lambda>(handler, fi, st, stream). length stream)"
    by simp
qed simp

declare clientLoop.simps [simp del]

section \<open>The RTU slave\<close>

text \<open>\<open>processFrame\<close>: the delay and the bytes written, or nothing. The port is open.\<close>

definition rtu_frame :: "bytes \<Rightarrow> bytes" where
  "rtu_frame resp = (let crc = crc16_modbus resp in resp @ [lo8 crc] @ [hi8 crc])"

definition flip_crc_low :: "bytes \<Rightarrow> bytes" where
  "flip_crc_low resp = resp[length resp - 2 := resp ! (length resp - 2) XOR 0xFF]"

definition processFrame ::
  "('s \<Rightarrow> u8 \<Rightarrow> bytes \<Rightarrow> bytes \<times> 's) \<Rightarrow> (u8 \<Rightarrow> FaultEffect option) \<Rightarrow> 's \<Rightarrow> bytes \<Rightarrow>
     (int \<times> bytes) option \<times> 's" where
  "processFrame handler fi st p =
     (let n = length p
      in if n < 4 then (None, st)
      else let calc = crc16_modbus (take (n - 2) p); recv = mk16 (p ! (n - 1)) (p ! (n - 2))
      in if calc \<noteq> recv then (None, st)
      else let unitId = p ! 0; pdu = take (n - 1 - 2) (drop 1 p)
      in case handler st unitId pdu of (respPdu, st') \<Rightarrow>
           if respPdu = [] then (None, st')
           else let eff = (case fi unitId of None \<Rightarrow> noEffect | Some e \<Rightarrow> e)
           in if ef_active eff \<and> ef_dropLink eff then (None, st')
           else let respPdu' = (if ef_active eff \<and> ef_corruptByte eff \<and> length respPdu > 3
                                then corruptByte3 respPdu else respPdu);
                    resp = rtu_frame ([unitId] @ respPdu');
                    resp' = (if ef_active eff \<and> ef_corruptCrc eff then flip_crc_low resp else resp)
           in (Some (if ef_active eff \<and> ef_delayMs eff > 0 then ef_delayMs eff else 0, resp'), st'))"

text \<open>The port: bytes collected until the line is silent, and one response that waits for its
  delay. The result of a slot is what it writes to the port and the delay it starts the send
  timer with.\<close>

record RtuPort =
  rp_rxBuf :: bytes
  rp_pendingResp :: bytes

definition interFrameMs :: "u32 \<Rightarrow> int option" where
  "interFrameMs baud =
     (if baud = 0 then None
      else let delayUs = (if baud \<le> 19200 then (9 * 3500000) div uint baud else 1750)
      in Some (max 2 ((delayUs + 999) div 1000)))"

definition rtu_onReadyRead :: "RtuPort \<Rightarrow> bytes \<Rightarrow> RtuPort" where
  "rtu_onReadyRead port data = port\<lparr>rp_rxBuf := rp_rxBuf port @ data\<rparr>"

definition rtu_onFrameTimeout ::
  "('s \<Rightarrow> u8 \<Rightarrow> bytes \<Rightarrow> bytes \<times> 's) \<Rightarrow> (u8 \<Rightarrow> FaultEffect option) \<Rightarrow> 's \<Rightarrow> RtuPort \<Rightarrow>
     bytes \<times> int option \<times> 's \<times> RtuPort" where
  "rtu_onFrameTimeout handler fi st port =
     (if rp_rxBuf port = [] then ([], None, st, port)
      else let port1 = port\<lparr>rp_rxBuf := []\<rparr>
      in case processFrame handler fi st (rp_rxBuf port) of
           (None, st') \<Rightarrow> ([], None, st', port1)
         | (Some (delay, resp), st') \<Rightarrow>
             if delay > 0 then ([], Some delay, st', port1\<lparr>rp_pendingResp := resp\<rparr>)
             else (resp, None, st', port1))"

definition rtu_onSendDelayTimeout :: "RtuPort \<Rightarrow> bytes \<times> RtuPort" where
  "rtu_onSendDelayTimeout port =
     (if rp_pendingResp port = [] then ([], port)
      else (rp_pendingResp port, port\<lparr>rp_pendingResp := []\<rparr>))"

section \<open>Round trips of the header\<close>

lemma length_emit_mbap [simp, codec]: "length (emit_mbap h) = 7"
  by (simp add: emit_mbap_def)

lemma parse_emit_mbap [codec]: "mb_protocolId h = 0 \<Longrightarrow> parse_mbap (emit_mbap h @ rest) = Some h"
  by (simp add: parse_mbap_def emit_mbap_def)

lemma emit_parse_mbap: "parse_mbap p = Some h \<Longrightarrow> emit_mbap h = take 7 p"
proof -
  assume "parse_mbap p = Some h"
  then have len: "7 \<le> length p" and h: "mb_transactionId h = mk16 (p ! 0) (p ! 1)" "mb_protocolId h = mk16 (p ! 2) (p ! 3)"
    "mb_length h = mk16 (p ! 4) (p ! 5)" "mb_unitId h = p ! 6"
    by (auto simp: parse_mbap_def Let_def split: if_splits)
  have "take 7 p = [p ! 0, p ! 1, p ! 2, p ! 3, p ! 4, p ! 5, p ! 6]"
    using len by (auto simp: list_eq_iff_nth_eq less_Suc_eq numeral_eq_Suc nth_Cons')
  with h show ?thesis by (simp add: emit_mbap_def)
qed

text \<open>The MBAP codec is exact: a header is parsed from a byte string exactly when its
  protocol id is 0 and the string starts with its serialisation.\<close>

theorem mbap_roundtrip:
  "parse_mbap p = Some h \<longleftrightarrow> mb_protocolId h = 0 \<and> take 7 p = emit_mbap h"
proof
  assume "parse_mbap p = Some h"
  then show "mb_protocolId h = 0 \<and> take 7 p = emit_mbap h"
    using emit_parse_mbap [of p h] by (auto simp: parse_mbap_def Let_def split: if_splits)
next
  assume "mb_protocolId h = 0 \<and> take 7 p = emit_mbap h"
  then show "parse_mbap p = Some h"
    using parse_emit_mbap [of h "drop 7 p"] append_take_drop_id [of 7 p] by simp
qed

end
