(* ===== verification/EndToEnd.thy ===== *)
theory EndToEnd
  imports ModbusEngine SimServer
begin

text \<open>
  The master and the simulated slave against each other: what the protocol engine sends goes
  through the client loop of the simulator's TCP server, or the frame handler of its RTU
  slave, to a register bank, and the response back through the engine's accumulator and
  parser. The two programs share no code; the statements here are about both.
\<close>

section \<open>One exchange\<close>

lemma tcp_adu_emit:
  assumes "length pdu < 65535"
  shows "emit_mbap \<lparr>mb_transactionId = tid, mb_protocolId = 0, mb_length = of_nat (length pdu + 1), mb_unitId = u\<rparr> @ pdu =
    tcp_adu tid (u # pdu)"
  by (simp add: emit_mbap_def tcp_adu_def u16be_def)

lemma client_turn_adu:
  assumes "1 \<le> length pdu" and "length pdu \<le> 255" and "handler st u pdu = (resp, st')" and "resp \<noteq> []" and "length resp < 65535"
    and "fi u = None"
  shows "client_turn handler fi st (tcp_adu tid (u # pdu) @ rest) =
    (Some (Some (0, tcp_adu tid (u # resp)), rest), st')"
proof -
  let ?h = "\<lparr>mb_transactionId = tid, mb_protocolId = 0, mb_length = of_nat (length pdu + 1), mb_unitId = u\<rparr>"
  have len: "unat (of_nat (length pdu + 1) :: u16) = length pdu + 1"
    using assms(2) by (simp add: unat_of_nat del: of_nat_Suc of_nat_add)
  have adu: "tcp_adu tid (u # pdu) = emit_mbap ?h @ pdu"
    using tcp_adu_emit [of pdu tid u] assms(2) by simp
  have hd: "parse_mbap (take 7 (emit_mbap ?h @ pdu @ rest)) = Some ?h"
    using parse_emit_mbap [of ?h "[]"] by simp
  have lt: "\<not> mb_length ?h < 2" "\<not> unat (mb_length ?h) - 1 > 255"
    using assms(1,2) len by (auto simp: word_less_nat_alt simp del: of_nat_add)
  have "tcp_respond None ?h resp = Some (0, tcp_adu tid (u # resp))"
    using tcp_adu_emit [OF assms(5), of tid u] assms(4) by (simp add: tcp_respond_def)
  with assms(3,6) lt len hd show ?thesis
    unfolding client_turn_def adu by (simp add: Let_def del: of_nat_add)
qed

lemma clientLoop_one:
  assumes "1 \<le> length pdu" and "length pdu \<le> 255" and "handler st u pdu = (resp, st')" and "resp \<noteq> []" and "length resp < 65535"
    and "fi u = None"
  shows "clientLoop handler fi st (tcp_adu tid (u # pdu)) = ([(0, tcp_adu tid (u # resp))], st')"
proof -
  have "clientLoop handler fi st' [] = ([], st')"
    by (subst clientLoop.simps) (simp add: client_turn_def)
  moreover have "client_turn handler fi st (tcp_adu tid (u # pdu) @ []) = (Some (Some (0, tcp_adu tid (u # resp)), []), st')"
    using assms by (rule client_turn_adu)
  ultimately show ?thesis
    by (subst clientLoop.simps) simp
qed

text \<open>What the engine makes of one response that arrives alone, in whatever chunks.\<close>

lemma receive_one:
  assumes "acc_wf (m_accumulator e)" and "contents (m_accumulator e) = []"
    and "wire_frame (m_transport e) f" and "2 * length f \<le> kCapacity" and "concat cs = f"
  shows "fst (receive_all e cs) = fst (handle_frame e f)"
proof -
  have "length c \<le> length f" if "c \<in> set cs" for c
    using that assms(5) by (auto dest!: split_list)
  then have "\<forall>c \<in> set cs. \<forall>g \<in> set [f]. length c + length g \<le> kCapacity"
    using assms(4) by fastforce
  then obtain a where "receive_all e cs = with_acc a (handle_frames e [f])"
    using receive_all_frames [OF assms(1), of cs "[f]"] assms(2,3,5) by (auto simp: between_frames_def)
  then show ?thesis by (simp add: with_acc_def case_prod_beta)
qed

text \<open>What \<open>writeRequest\<close> on a TCP engine sends and registers.\<close>

lemma write_tcp:
  assumes "engine_inv e" and "m_transport e = Tcp" and "rq_transport r = Tcp"
    and "writeRequest w e r link = (n, Some frame, e1)"
  shows "\<exists>tid. frame = tcp_adu tid (req_body r) \<and> valid_request r \<and> m_transport e1 = Tcp \<and>
    m_accumulator e1 = m_accumulator e \<and>
    m_inFlight e1 tid = Some \<lparr>fl_linkId = link, fl_slaveAddress = rq_slaveAddress r\<rparr>"
proof -
  obtain tid ids where alloc: "allocate (m_txIdAllocator e) = (tid, ids)" by fastforce
  let ?r = "r\<lparr>rq_transactionId := tid\<rparr>"
  let ?entry = "\<lparr>fl_linkId = link, fl_slaveAddress = rq_slaveAddress r\<rparr>"
  have reg: "tid \<noteq> 0" and frame: "frame = buildRequest ?r" "frame \<noteq> []"
    and e1: "e1 = e\<lparr>m_txIdAllocator := ids, m_inFlight := (if m_inFlight e tid = None
      then (m_inFlight e)(tid \<mapsto> ?entry) else m_inFlight e)\<rparr>"
    using assms(2-4) alloc
    by (auto simp: writeRequest_def registerRequest_def INVALID_ID_def Let_def split: if_splits)
  have fresh: "m_inFlight e tid = None"
    using tx.register_in_step [OF _ _ alloc reg, of "m_inFlight e"] assms(1) by (auto simp: engine_inv_def)
  have valid: "valid_request ?r" using frame buildRequest_empty_iff [of ?r] by auto
  have pdu: "buildPdu ?r = buildPdu r" by (simp add: buildPdu_def)
  have "frame = tcp_adu tid (req_body ?r)"
    using frame(1) buildRequest_valid [OF valid] assms(3) by simp
  moreover have "req_body ?r = req_body r" by (simp add: req_body_def pdu)
  moreover have "valid_request r" using valid by (simp add: valid_request_def)
  ultimately show ?thesis using e1 fresh assms(2) by auto
qed

section \<open>Reading registers\<close>

text \<open>What a master should see of a read of \<open>qty\<close> holding registers from \<open>addr\<close> on.\<close>

definition read_outcome :: "SlaveRegset \<Rightarrow> u16 \<Rightarrow> u16 \<Rightarrow> u8 + u16 list" where
  "read_outcome rg addr qty =
     (if unat qty > 125 then Inl 3
      else if unat addr + unat qty > length (rg_holding rg) then Inl 2
      else Inr (map (\<lambda>i. getHolding rg (addr + of_nat i)) [0..<unat qty]))"

definition outcome_response :: "Transport \<Rightarrow> u16 \<Rightarrow> u8 \<Rightarrow> u8 + u16 list \<Rightarrow> ModbusResponse" where
  "outcome_response t tid u oc =
     (case oc of
        Inl code \<Rightarrow> (mkResponse t u 0x83)\<lparr>rs_transactionId := tid, rs_isException := True, rs_exceptionCode := code\<rparr>
      | Inr vs \<Rightarrow> (mkResponse t u 3)\<lparr>rs_transactionId := tid, rs_registerValues := vs\<rparr>)"

definition outcome_pdu :: "u8 + u16 list \<Rightarrow> bytes" where
  "outcome_pdu oc = (case oc of
     Inl code \<Rightarrow> [0x83, code]
   | Inr vs \<Rightarrow> [3, of_nat (2 * length vs)] @ concat (map u16be vs))"

lemma read_dispatch:
  assumes "find (\<lambda>s. rt_slaveId s = u) slaves = Some rt" and "snapshot bank u = Some rg" and "qty \<noteq> 0"
  shows "emulatorHandler slaves bank u (read_pdu 3 addr qty) = (outcome_pdu (read_outcome rg addr qty), bank)"
proof -
  have rd: "read_pdu 3 addr qty \<noteq> []" "read_pdu 3 addr qty ! 0 = 3" "length (read_pdu 3 addr qty) = 5"
    "be16 (read_pdu 3 addr qty) 1 = addr" "be16 (read_pdu 3 addr qty) 3 = qty"
    by (simp_all add: read_pdu_def)
  let ?d = "readWords 3 (getHolding rg) (length (rg_holding rg)) (read_pdu 3 addr qty)"
  have bytes: "dr_bytes ?d = outcome_pdu (read_outcome rg addr qty)"
    using assms(3) readWords_ok [OF assms(3), of addr "length (rg_holding rg)" 3 "getHolding rg"]
    by (auto simp: outcome_pdu_def read_outcome_def readWords_def rd exceptionPdu_def okPdu_def
        rd [simplified] Let_def word_less_nat_alt word_le_nat_alt not_less)
  have "dispatchFull (Some rg) (read_pdu 3 addr qty) (isWriteFc (read_pdu 3 addr qty ! 0)) = (?d, Some rg)"
    using rd by (simp add: dispatchFull_def)
  from handler_known [OF assms(1,2) rd(1) this] show ?thesis
    by (simp add: rd isWriteFc_def bytes)
qed

lemma outcome_sizes:
  "length (outcome_pdu (read_outcome rg addr qty)) \<le> 252" "outcome_pdu oc \<noteq> []"
  by (auto simp: outcome_pdu_def read_outcome_def split: sum.splits if_splits)

lemma outcome_parse:
  assumes "oc = read_outcome rg addr qty"
  shows "parse_body t tid (u # outcome_pdu oc) = Some (outcome_response t tid u oc)"
proof (cases oc)
  case (Inl code)
  then show ?thesis by (simp add: outcome_pdu_def outcome_response_def parse_body_def mkResponse_def)
next
  case (Inr vs)
  with assms have "length vs \<le> 125" by (auto simp: read_outcome_def split: if_splits)
  then have "unat (of_nat (2 * length vs) :: u8) = 2 * length vs" by (simp add: unat_of_nat del: of_nat_mult)
  with Inr show ?thesis
    by (simp add: outcome_pdu_def outcome_response_def parse_body_def mkResponse_def del: of_nat_mult)
qed

lemma outcome_head:
  "(u # outcome_pdu oc) ! 1 AND 0x80 \<noteq> 0 \<Longrightarrow> length (u # outcome_pdu oc) = 3"
  by (auto simp: outcome_pdu_def split: sum.splits)

section \<open>Properties\<close>

lemma tcp_read_chunks:
  assumes "engine_reach Tcp e" and "contents (m_accumulator e) = []"
    and "rq_transport r = Tcp" and "rq_functionCode r = 3"
    and "find (\<lambda>s. rt_slaveId s = rq_slaveAddress r) slaves = Some rt" and "snapshot bank (rq_slaveAddress r) = Some rg"
    and "writeRequest w e r link = (n, Some frame, e1)"
    and "clientLoop (emulatorHandler slaves) (\<lambda>_. None) bank frame = (outs, bank')"
  shows "bank' = bank \<and>
    (\<exists>tid resp. outs = [(0, resp)] \<and>
       (\<forall>chunks. concat chunks = resp \<longrightarrow>
          fst (receive_all e1 chunks) = report link (rq_slaveAddress r)
            (outcome_response Tcp tid (rq_slaveAddress r) (read_outcome rg (rq_startingAddress r) (rq_quantity r)))))"
proof -
  let ?u = "rq_slaveAddress r"
  let ?oc = "read_outcome rg (rq_startingAddress r) (rq_quantity r)"
  let ?body = "?u # outcome_pdu ?oc"
  have inv: "engine_inv e" by (rule engine_reach_inv [OF assms(1)])
  have t: "m_transport e = Tcp" by (rule engine_reach_transport [OF assms(1)])
  obtain tid where frame: "frame = tcp_adu tid (req_body r)" and valid: "valid_request r"
    and e1: "m_transport e1 = Tcp" "m_accumulator e1 = m_accumulator e"
      "m_inFlight e1 tid = Some \<lparr>fl_linkId = link, fl_slaveAddress = ?u\<rparr>"
    using write_tcp [OF inv t assms(3,7)] by blast
  have q: "rq_quantity r \<noteq> 0" using valid assms(4) by (auto simp: valid_request_def)
  then have body: "req_body r = ?u # read_pdu 3 (rq_startingAddress r) (rq_quantity r)"
    using assms(4) by (simp add: req_body_def buildPdu_def read_pdu_def)
  have "clientLoop (emulatorHandler slaves) (\<lambda>_. None) bank (tcp_adu tid (?u # read_pdu 3 (rq_startingAddress r) (rq_quantity r))) =
      ([(0, tcp_adu tid ?body)], bank)"
    by (rule clientLoop_one)
      (use read_dispatch [OF assms(5,6) q] outcome_sizes(2)
         outcome_sizes(1) [of rg "rq_startingAddress r" "rq_quantity r"] in \<open>simp_all add: read_pdu_def\<close>)
  then have outs: "outs = [(0, tcp_adu tid ?body)]" "bank' = bank"
    using assms(8) unfolding frame body by simp_all
  have len: "2 \<le> length ?body" "length ?body \<le> 253"
    using outcome_sizes(1) [of rg "rq_startingAddress r" "rq_quantity r"] outcome_sizes(2) [of ?oc]
    by (auto simp: Suc_le_eq)
  have wire: "wire_frame (m_transport e1) (tcp_adu tid ?body)"
    using wire_tcp_adu [OF len(1)] len(2) outcome_head [of ?u ?oc] e1(1) by (simp add: kCapacity_def)
  have "fst (receive_all e1 cs) = fst (handle_frame e1 (tcp_adu tid ?body))" if "concat cs = tcp_adu tid ?body" for cs
    using wire len(2) assms(2) e1(2) inv that by (intro receive_one) (simp_all add: engine_inv_def kCapacity_def)
  moreover have "parse_for Tcp (tcp_adu tid ?body) = Some (outcome_response Tcp tid ?u ?oc)"
    using parse_tcp_adu [OF len(1)] len(2) outcome_parse [OF refl] by (simp add: parse_for_def)
  moreover have "rs_transactionId (outcome_response Tcp tid ?u ?oc) = tid"
    by (simp add: outcome_response_def mkResponse_def split: sum.split)
  ultimately have "fst (receive_all e1 cs) = report link ?u (outcome_response Tcp tid ?u ?oc)"
    if "concat cs = tcp_adu tid ?body" for cs
    using e1 that by (simp add: handle_frame_def)
  with outs show ?thesis by blast
qed

lemma receive_whole: "fst (receive_all e [c]) = fst (onBytesReceived e c)"
  by (simp add: case_prod_beta)

lemma tcp_read_exchange:
  assumes "engine_reach Tcp e" and "contents (m_accumulator e) = []"
    and "rq_transport r = Tcp" and "rq_functionCode r = 3"
    and "find (\<lambda>s. rt_slaveId s = rq_slaveAddress r) slaves = Some rt" and "snapshot bank (rq_slaveAddress r) = Some rg"
    and "writeRequest w e r link = (n, Some frame, e1)"
    and "clientLoop (emulatorHandler slaves) (\<lambda>_. None) bank frame = (outs, bank')"
  shows "bank' = bank \<and>
    (\<exists>tid resp. outs = [(0, resp)] \<and>
       fst (onBytesReceived e1 resp) = report link (rq_slaveAddress r)
         (outcome_response Tcp tid (rq_slaveAddress r) (read_outcome rg (rq_startingAddress r) (rq_quantity r))))"
  using tcp_read_chunks [OF assms] by (force simp: receive_whole [symmetric] simp del: receive_all.simps)

text \<open>Property C13: a read request of the master, served by the simulator's TCP server from its
  register bank, makes the engine report for the link and the slave of the request either the
  values of exactly the registers asked for, or the exception for a quantity or a range that
  is refused, in whatever chunks the response is received; nothing else is reported and no
  register changes.\<close>

theorem tcp_read_end_to_end:
  assumes "engine_reach Tcp e" and "contents (m_accumulator e) = []"
    and "rq_transport r = Tcp" and "rq_functionCode r = 3"
    and "find (\<lambda>s. rt_slaveId s = rq_slaveAddress r) slaves = Some rt" and "snapshot bank (rq_slaveAddress r) = Some rg"
    and "writeRequest w e r link = (n, Some frame, e1)"
    and "clientLoop (emulatorHandler slaves) (\<lambda>_. None) bank frame = (outs, bank')"
  shows "bank' = bank \<and>
    (\<exists>tid resp. outs = [(0, resp)] \<and>
       (\<forall>chunks. concat chunks = resp \<longrightarrow>
          fst (receive_all e1 chunks) = report link (rq_slaveAddress r)
            (outcome_response Tcp tid (rq_slaveAddress r) (read_outcome rg (rq_startingAddress r) (rq_quantity r)))))"
  using assms by (rule tcp_read_chunks)

theorem tcp_read_end_to_end_witness:
  "\<exists>frame e1 resp tid. writeRequest (\<lambda>f. int (length f)) (engine_new True Tcp) demo_read 5 = (12, Some frame, e1) \<and>
     fst (clientLoop (emulatorHandler demo_slaves) (\<lambda>_. None) demo_bank frame) = [(0, resp)] \<and>
     fst (receive_all e1 [take 4 resp, drop 4 resp]) =
       [ResponseParsed 5 7 ((mkResponse Tcp 7 3)\<lparr>rs_transactionId := tid, rs_registerValues := [0]\<rparr>)]"
proof -
  let ?w = "\<lambda>f. int (length f)"
  let ?r = "demo_read\<lparr>rq_transactionId := 1\<rparr>"
  have valid: "valid_request ?r" by (simp add: valid_request_def demo_read_def)
  then have ne: "buildRequest ?r \<noteq> []" by (simp add: buildRequest_empty_iff)
  have "length (buildRequest ?r) = 12"
    using buildRequest_valid [OF valid] by (simp add: demo_read_def req_body_def buildPdu_def)
  with ne have wr: "writeRequest ?w (engine_new True Tcp) demo_read 5 = (12, Some (buildRequest ?r), demo_engine)"
    by (simp add: demo_engine_eq writeRequest_def registerRequest_def engine_new_def Let_def
        allocate_def alloc_scan.simps txids_new_def INVALID_ID_def demo_read_def)
  obtain outs bank' where served: "clientLoop (emulatorHandler demo_slaves) (\<lambda>_. None) demo_bank (buildRequest ?r) = (outs, bank')"
    by fastforce
  have r: "rq_transport demo_read = Tcp" "rq_functionCode demo_read = 3" "rq_slaveAddress demo_read = 7"
      "rq_startingAddress demo_read = 16" "rq_quantity demo_read = 1"
    by (simp_all add: demo_read_def)
  have oc: "read_outcome demo_regs 16 1 = Inr [0]"
    by (simp add: read_outcome_def demo_regs_def SlaveRegset_allocate_def getHolding_def)
  have s: "find (\<lambda>s. rt_slaveId s = rq_slaveAddress demo_read) demo_slaves = Some \<lparr>rt_slaveId = 7, rt_kind = Bms, rt_transport = SimTcp\<rparr>"
    "snapshot demo_bank (rq_slaveAddress demo_read) = Some demo_regs"
    using demo_slave by (simp_all add: r)
  have "contents (m_accumulator (engine_new True Tcp)) = []" by (simp add: engine_new_def)
  note e2e = tcp_read_end_to_end [OF engine_reach.new this r(1,2) s wr served, unfolded r oc]
  then obtain tid resp where "outs = [(0, resp)]"
    and chunks: "\<forall>chunks. concat chunks = resp \<longrightarrow> fst (receive_all demo_engine chunks) =
      report 5 7 (outcome_response Tcp tid 7 (Inr [0]))"
    by blast
  moreover from chunks have "fst (receive_all demo_engine [take 4 resp, drop 4 resp]) =
      report 5 7 (outcome_response Tcp tid 7 (Inr [0]))"
    by (simp del: receive_all.simps)
  moreover have "report 5 7 (outcome_response Tcp tid 7 (Inr [0])) =
      [ResponseParsed 5 7 ((mkResponse Tcp 7 3)\<lparr>rs_transactionId := tid, rs_registerValues := [0]\<rparr>)]"
    by (simp add: report_def outcome_response_def mkResponse_def)
  ultimately show ?thesis
    using wr served by (intro exI [of _ "buildRequest ?r"] exI [of _ demo_engine] exI [of _ resp] exI [of _ tid])
      (simp del: receive_all.simps)
qed

section \<open>A faulty line\<close>

lemma length_rtu_frame: "rtu_frame body = rtu_adu body"
  by (simp add: rtu_frame_def rtu_adu_def crc_tail_def sim_crc_eq Let_def)

lemma xor_ff_ne: "(x :: u8) XOR 0xFF \<noteq> x"
proof
  assume "x XOR 0xFF = x"
  then have "bit (x XOR 0xFF) 0 = bit x 0" by simp
  then show False by (simp add: bit_xor_iff)
qed

lemma read_response_size: "length p = length (outcome_pdu oc) \<Longrightarrow> 2 \<le> length (u # p)"
  by (auto simp: outcome_pdu_def split: sum.splits)

lemma read_response_shape:
  assumes "oc = read_outcome rg addr qty" and "length p = length (outcome_pdu oc)"
  shows "outcome_pdu oc ! 0 AND 0x80 \<noteq> 0 \<and> length (u # p) = 3 \<or>
     outcome_pdu oc ! 0 AND 0x80 = 0 \<and> outcome_pdu oc ! 0 \<in> {1, 2, 3, 4} \<and>
       length (u # p) = 3 + unat (outcome_pdu oc ! 1)"
proof (cases oc)
  case (Inl code)
  with assms(2) show ?thesis by (simp add: outcome_pdu_def)
next
  case (Inr vs)
  with assms(1) have "length vs \<le> 125" by (auto simp: read_outcome_def split: if_splits)
  then have "unat (of_nat (2 * length vs) :: u8) = 2 * length vs" by (simp add: unat_of_nat del: of_nat_mult)
  with Inr assms(2) show ?thesis by (simp add: outcome_pdu_def del: of_nat_mult)
qed

lemma flip_fails:
  assumes "2 \<le> length body"
  shows "\<not> crc16ModbusVerify (flip_crc_low (rtu_adu body))"
  unfolding flip_crc_low_def
  by (rule verify_update [OF rtu_adu_verify [OF assms]]) (use xor_ff_ne in \<open>simp_all add: eq_commute\<close>)

text \<open>A frame whose checksum fails is slid past without a signal.\<close>

lemma corrupted_frame_silent:
  assumes "engine_reach Rtu e" and "contents (m_accumulator e) = []"
    and "m_huntSlidBytes (m_accumulator e) + 1 < kMaxHuntBytes" and "2 \<le> length body"
    and "body ! 1 AND 0x80 \<noteq> 0 \<and> length body = 3 \<or>
      body ! 1 AND 0x80 = 0 \<and> body ! 1 \<in> {1, 2, 3, 4} \<and> length body = 3 + unat (body ! 2)"
    and "length body + 2 \<le> kCapacity"
  shows "fst (onBytesReceived e (flip_crc_low (rtu_adu body))) = []"
proof -
  let ?f = "flip_crc_low (rtu_adu body)"
  have len: "length ?f = length body + 2" by (simp add: flip_crc_low_def)
  have nth: "?f ! 1 = body ! 1" "3 \<le> length body \<Longrightarrow> ?f ! 2 = body ! 2"
    using assms(4) by (auto simp: flip_crc_low_def rtu_adu_nth)
  have four: "4 \<le> length ?f" using assms(4) len by simp
  have slide: "checked_cut False ?f (length body + 2) = Slide True"
    using flip_fails [OF assms(4)] len by (simp add: checked_cut_def)
  have decide: "decide False stale ?f = Slide True" for stale
    using assms(5)
  proof (elim disjE conjE)
    assume h: "body ! 1 AND 0x80 \<noteq> 0" "length body = 3"
    with slide show ?thesis by (simp add: decide_rtu_4 [OF four] nth(1) [simplified])
  next
    assume h: "body ! 1 AND 0x80 = 0" "body ! 1 \<in> {1, 2, 3, 4}" "length body = 3 + unat (body ! 2)"
    with slide nth(2) show ?thesis by (simp add: decide_rtu_4 [OF four] nth(1) [simplified] add.commute)
  qed
  have wf: "acc_wf (m_accumulator e)" using engine_reach_inv [OF assms(1)] by (simp add: engine_inv_def)
  have t: "m_transport e = Rtu" by (rule engine_reach_transport [OF assms(1)])
  have "m_size (m_accumulator e) = 0" using assms(2) length_contents [of "m_accumulator e"] by simp
  then have c: "contents (acc_append (m_accumulator e) ?f) = ?f"
    using contents_append_fits [OF wf, of ?f] assms(2,6) len by simp
  obtain out a' where ex: "tryExtractFrame (acc_append (m_accumulator e) ?f) False = (out, a')" by fastforce
  have "out = None"
    using tryExtractFrame_contents [OF acc_wf_append [OF wf] ex] decide c by simp
  moreover have "?f \<noteq> []" using len by auto
  ultimately show ?thesis
    unfolding onBytesReceived_def by (simp, subst receive_loop.simps) (simp add: ex t)
qed

text \<open>Under an injected CRC fault the response of a register read reaches the master
  over RTU with a checksum that fails: the engine reports nothing for it, neither a response
  nor an error, and the registers are untouched.\<close>

theorem rtu_crc_fault_silent:
  assumes "engine_reach Rtu e" and "contents (m_accumulator e) = []"
    and "m_huntSlidBytes (m_accumulator e) + 1 < kMaxHuntBytes"
    and "valid_request r" and "rq_transport r = Rtu" and "rq_functionCode r = 3"
    and "find (\<lambda>s. rt_slaveId s = rq_slaveAddress r) slaves = Some rt" and "snapshot bank (rq_slaveAddress r) = Some rg"
    and "fi (rq_slaveAddress r) = Some eff" and "ef_active eff" and "ef_corruptCrc eff" and "\<not> ef_dropLink eff"
  shows "\<exists>delay resp. processFrame (emulatorHandler slaves) fi bank (buildRequest r) = (Some (delay, resp), bank) \<and>
    fst (onBytesReceived e resp) = []"
proof -
  let ?u = "rq_slaveAddress r"
  let ?pdu = "read_pdu 3 (rq_startingAddress r) (rq_quantity r)"
  let ?oc = "read_outcome rg (rq_startingAddress r) (rq_quantity r)"
  have q: "rq_quantity r \<noteq> 0" using assms(4,6) by (auto simp: valid_request_def)
  then have frame: "buildRequest r = rtu_adu (?u # ?pdu)"
    using buildRequest_valid [OF assms(4)] assms(5,6) by (simp add: req_body_def buildPdu_def read_pdu_def)
  have len: "length ?pdu = 5" by (simp add: read_pdu_def)
  have crc: "crc16_modbus (take (length (rtu_adu (?u # ?pdu)) - 2) (rtu_adu (?u # ?pdu))) =
      mk16 (rtu_adu (?u # ?pdu) ! (length (rtu_adu (?u # ?pdu)) - 1)) (rtu_adu (?u # ?pdu) ! (length (rtu_adu (?u # ?pdu)) - 2))"
    using rtu_adu_verify [of "?u # ?pdu"] len by (simp add: crc16ModbusVerify_def sim_crc_eq Let_def)
  have cut: "rtu_adu (?u # ?pdu) ! 0 = ?u" "take (length (rtu_adu (?u # ?pdu)) - 1 - 2) (drop 1 (rtu_adu (?u # ?pdu))) = ?pdu"
    by (simp_all add: rtu_adu_def len)
  let ?p = "if ef_corruptByte eff \<and> length (outcome_pdu ?oc) > 3 then corruptByte3 (outcome_pdu ?oc) else outcome_pdu ?oc"
  let ?resp = "flip_crc_low (rtu_adu (?u # ?p))"
  let ?delay = "if ef_delayMs eff > 0 then ef_delayMs eff else 0"
  have four: "\<not> length (rtu_adu (?u # ?pdu)) < 4" by (simp add: len)
  have served: "processFrame (emulatorHandler slaves) fi bank (buildRequest r) = (Some (?delay, ?resp), bank)"
    unfolding processFrame_def Let_def frame crc cut length_rtu_frame
    using four read_dispatch [OF assms(7,8) q, of "rq_startingAddress r"] outcome_sizes(2) [of ?oc] assms(9-12)
    by (simp add: length_rtu_frame)
  have plen: "length ?p = length (outcome_pdu ?oc)" by (simp add: corruptByte3_def)
  have head: "?p ! 0 = outcome_pdu ?oc ! 0" "?p ! 1 = outcome_pdu ?oc ! 1"
    by (simp_all add: corruptByte3_def)
  have body: "(?u # ?p) ! 1 = outcome_pdu ?oc ! 0" "(?u # ?p) ! 2 = outcome_pdu ?oc ! 1"
    using head by (simp_all add: numeral_2_eq_2)
  have shape: "2 \<le> length (?u # ?p)"
    "(?u # ?p) ! 1 AND 0x80 \<noteq> 0 \<and> length (?u # ?p) = 3 \<or>
     (?u # ?p) ! 1 AND 0x80 = 0 \<and> (?u # ?p) ! 1 \<in> {1, 2, 3, 4} \<and> length (?u # ?p) = 3 + unat ((?u # ?p) ! 2)"
    unfolding body using read_response_size [OF plen] read_response_shape [OF refl plen] by blast+
  have "fst (onBytesReceived e ?resp) = []"
    by (rule corrupted_frame_silent [OF assms(1-3) shape]) (use plen outcome_sizes(1) [of rg "rq_startingAddress r" "rq_quantity r"] in \<open>simp add: kCapacity_def\<close>)
  with served show ?thesis by blast
qed

definition demo_crc_fault :: "u8 \<Rightarrow> FaultEffect option" where
  "demo_crc_fault u = Some (noEffect\<lparr>ef_active := True, ef_corruptCrc := True, ef_corruptByte := True\<rparr>)"

theorem rtu_crc_fault_silent_witness:
  "\<exists>delay resp. processFrame (emulatorHandler demo_slaves) demo_crc_fault demo_bank
       (buildRequest (demo_read\<lparr>rq_transport := Rtu\<rparr>)) = (Some (delay, resp), demo_bank) \<and>
     fst (onBytesReceived (engine_new True Rtu) resp) = []"
proof -
  let ?r = "demo_read\<lparr>rq_transport := Rtu\<rparr>"
  have valid: "valid_request ?r" by (simp add: valid_request_def demo_read_def)
  have r: "rq_transport ?r = Rtu" "rq_functionCode ?r = 3" "rq_slaveAddress ?r = 7"
    by (simp_all add: demo_read_def)
  have e: "contents (m_accumulator (engine_new True Rtu)) = []"
    "m_huntSlidBytes (m_accumulator (engine_new True Rtu)) + 1 < kMaxHuntBytes"
    by (simp_all add: engine_new_def acc_new_def kMaxHuntBytes_def contents_def ring_def)
  have s: "find (\<lambda>s. rt_slaveId s = rq_slaveAddress ?r) demo_slaves = Some \<lparr>rt_slaveId = 7, rt_kind = Bms, rt_transport = SimTcp\<rparr>"
    "snapshot demo_bank (rq_slaveAddress ?r) = Some demo_regs"
    using demo_slave by (simp_all add: r)
  show ?thesis
    by (rule rtu_crc_fault_silent [OF engine_reach.new e valid r(1,2) s,
          where eff = "noEffect\<lparr>ef_active := True, ef_corruptCrc := True, ef_corruptByte := True\<rparr>"])
      (simp_all add: demo_crc_fault_def noEffect_def)
qed

end
