(* ===== verification/PollScheduler.thy ===== *)
theory PollScheduler
  imports Ens_Prelude "HOL-Library.Multiset"
begin

text \<open>
  The polling scheduler, \<^verbatim>\<open>apps/ens_app/src/protocol/PollScheduler.h\<close> and \<^verbatim>\<open>.cpp\<close>:
  three queues per link with starvation and burst protection, and the health state machine
  of each slave. The value \<open>nowMs()\<close> returns is an argument of the operations that read the
  clock (two where they read it twice); signals are returned in the order of emission.
  The product \<open>originalIntervalMs * 3\<close> is taken at the width of the code's \<open>int\<close>
  (\<open>int32\<close>). The \<open>int\<close> counters grow by one at a time and are unbounded integers here:
  they leave the range of the code's type only after two thousand million failures in a row.
\<close>

section \<open>The code\<close>

datatype PollPriority = High | Normal | Low

record PollTask =
  pt_slaveId :: u8
  pt_linkId :: u8
  pt_priority :: PollPriority
  pt_intervalMs :: u32
  pt_isControlCommand :: bool
  pt_registerAddr :: u16
  pt_registerQty :: u16

definition emptyTask :: PollTask where
  "emptyTask = \<lparr>pt_slaveId = 0, pt_linkId = 0, pt_priority = Normal, pt_intervalMs = 1000,
     pt_isControlCommand = False, pt_registerAddr = 0, pt_registerQty = 0\<rparr>"

definition isValid :: "PollTask \<Rightarrow> bool" where
  "isValid t \<longleftrightarrow> pt_slaveId t \<noteq> 0 \<or> pt_isControlCommand t"

definition controlWrite :: "u8 \<Rightarrow> u8 \<Rightarrow> PollTask" where
  "controlWrite sid lid = emptyTask\<lparr>pt_slaveId := sid, pt_linkId := lid, pt_priority := High,
     pt_isControlCommand := True\<rparr>"

definition normalTask :: "u8 \<Rightarrow> u8 \<Rightarrow> u32 \<Rightarrow> PollTask" where
  "normalTask sid lid ms = emptyTask\<lparr>pt_slaveId := sid, pt_linkId := lid, pt_priority := Normal,
     pt_intervalMs := ms\<rparr>"

definition lowTask :: "u8 \<Rightarrow> u8 \<Rightarrow> u32 \<Rightarrow> PollTask" where
  "lowTask sid lid ms = emptyTask\<lparr>pt_slaveId := sid, pt_linkId := lid, pt_priority := Low,
     pt_intervalMs := ms\<rparr>"

record LinkParams =
  maxConsecutivePreempt :: int
  maxConsecutiveSboBurst :: int
  estimatedFrameTimeMs :: int
  isHalfDuplex :: bool

definition defaultParams :: LinkParams where
  "defaultParams = \<lparr>maxConsecutivePreempt = 5, maxConsecutiveSboBurst = 10,
     estimatedFrameTimeMs = 30, isHalfDuplex = True\<rparr>"

datatype SlaveHealth = HEALTHY | DEGRADED | ISOLATED | PROBING

record SlavePollState =
  consecutiveFailures :: int
  consecutiveSuccesses :: int
  health :: SlaveHealth
  lastProbeTimeMs :: int
  lastResponseTimeMs :: int
  originalIntervalMs :: int
  currentIntervalMs :: int
  sp_linkId :: u8

record LinkState =
  highPriorityQueue :: "PollTask list"
  normalQueue :: "PollTask list"
  lowPriorityQueue :: "PollTask list"
  consecutivePreemptCount :: int
  consecutiveSboCount :: int
  busy :: bool
  params :: LinkParams

definition newLink :: LinkState where
  "newLink = \<lparr>highPriorityQueue = [], normalQueue = [], lowPriorityQueue = [],
     consecutivePreemptCount = 0, consecutiveSboCount = 0, busy = False, params = defaultParams\<rparr>"

record Scheduler =
  m_links :: "u8 \<rightharpoonup> LinkState"
  m_slaveStates :: "u8 \<rightharpoonup> SlavePollState"
  m_timeoutCount :: int
  m_successCount :: int
  m_degradedCount :: int
  m_isolatedCount :: int

datatype PollSignal =
    slaveDegraded u8 int
  | slaveIsolated u8 int
  | slaveRecovered u8
  | slaveProbing u8

definition scheduler_new :: Scheduler where
  "scheduler_new = \<lparr>m_links = Map.empty, m_slaveStates = Map.empty, m_timeoutCount = 0,
     m_successCount = 0, m_degradedCount = 0, m_isolatedCount = 0\<rparr>"

text \<open>\<open>m_links[linkId]\<close> creates the link when it is absent.\<close>

definition link_at :: "Scheduler \<Rightarrow> u8 \<Rightarrow> LinkState" where
  "link_at s l = (case m_links s l of None \<Rightarrow> newLink | Some k \<Rightarrow> k)"

definition setLinkParams :: "Scheduler \<Rightarrow> u8 \<Rightarrow> LinkParams \<Rightarrow> Scheduler" where
  "setLinkParams s l p = s\<lparr>m_links := (m_links s)(l \<mapsto> (link_at s l)\<lparr>params := p\<rparr>)\<rparr>"

definition registerSlave :: "Scheduler \<Rightarrow> u8 \<Rightarrow> u8 \<Rightarrow> int \<Rightarrow> int \<Rightarrow> Scheduler" where
  "registerSlave s sid lid ms now =
     s\<lparr>m_slaveStates := (m_slaveStates s)(sid \<mapsto>
        \<lparr>consecutiveFailures = 0, consecutiveSuccesses = 0, health = HEALTHY,
         lastProbeTimeMs = now, lastResponseTimeMs = 0, originalIntervalMs = ms,
         currentIntervalMs = ms, sp_linkId = lid\<rparr>)\<rparr>"

definition unregisterSlave :: "Scheduler \<Rightarrow> u8 \<Rightarrow> Scheduler" where
  "unregisterSlave s sid = s\<lparr>m_slaveStates := (m_slaveStates s)(sid := None)\<rparr>"

definition enqueueLink :: "LinkState \<Rightarrow> PollTask \<Rightarrow> LinkState" where
  "enqueueLink k t =
     (if pt_isControlCommand t then k\<lparr>highPriorityQueue := t # highPriorityQueue k\<rparr>
      else if pt_priority t = Normal then k\<lparr>normalQueue := normalQueue k @ [t]\<rparr>
      else k\<lparr>lowPriorityQueue := lowPriorityQueue k @ [t]\<rparr>)"

definition enqueue :: "Scheduler \<Rightarrow> PollTask \<Rightarrow> Scheduler" where
  "enqueue s t =
     s\<lparr>m_links := (m_links s)(pt_linkId t \<mapsto> enqueueLink (link_at s (pt_linkId t)) t)\<rparr>"

text \<open>\<open>dequeueNext\<close> on the link it found.\<close>

definition dequeueLink :: "LinkState \<Rightarrow> PollTask \<times> LinkState" where
  "dequeueLink k =
     (if isHalfDuplex (params k) \<and> busy k then (emptyTask, k)
      else let limit = maxConsecutivePreempt (params k);
               sboLimit = maxConsecutiveSboBurst (params k)
      in case highPriorityQueue k of
        h # hs \<Rightarrow>
          (if consecutiveSboCount k \<ge> sboLimit \<and> normalQueue k \<noteq> [] then
             (hd (normalQueue k),
              k\<lparr>consecutiveSboCount := 0, consecutivePreemptCount := 0,
                normalQueue := tl (normalQueue k), busy := True\<rparr>)
           else
             (h, k\<lparr>consecutiveSboCount := consecutiveSboCount k + 1,
                   consecutivePreemptCount := consecutivePreemptCount k + 1,
                   highPriorityQueue := hs, busy := True\<rparr>))
      | [] \<Rightarrow>
          (if consecutivePreemptCount k \<ge> limit \<and> lowPriorityQueue k \<noteq> [] then
             (hd (lowPriorityQueue k),
              k\<lparr>consecutivePreemptCount := 0, lowPriorityQueue := tl (lowPriorityQueue k), busy := True\<rparr>)
           else case normalQueue k of
             n # ns \<Rightarrow>
               (n, k\<lparr>consecutivePreemptCount := consecutivePreemptCount k + 1,
                     normalQueue := ns, busy := True\<rparr>)
           | [] \<Rightarrow>
               (case lowPriorityQueue k of
                  l # ls \<Rightarrow>
                    (l, k\<lparr>consecutivePreemptCount := 0, lowPriorityQueue := ls, busy := True\<rparr>)
                | [] \<Rightarrow> (emptyTask, k))))"

definition dequeueNext :: "Scheduler \<Rightarrow> u8 \<Rightarrow> PollTask \<times> Scheduler" where
  "dequeueNext s l =
     (case m_links s l of
        None \<Rightarrow> (emptyTask, s)
      | Some k \<Rightarrow> (case dequeueLink k of (t, k') \<Rightarrow> (t, s\<lparr>m_links := (m_links s)(l \<mapsto> k')\<rparr>)))"

definition onLinkFree :: "Scheduler \<Rightarrow> u8 \<Rightarrow> Scheduler" where
  "onLinkFree s l =
     (case m_links s l of
        None \<Rightarrow> s
      | Some k \<Rightarrow> s\<lparr>m_links := (m_links s)(l \<mapsto> k\<lparr>busy := False\<rparr>)\<rparr>)"

text \<open>\<open>onResponseReceived\<close>, the part on the slave's own state and the signals. The two
  counters of the code are incremented exactly where their signal is emitted, so they are
  written as the number of signals.\<close>

definition slaveSuccess :: "u8 \<Rightarrow> int \<Rightarrow> SlavePollState \<Rightarrow> PollSignal list \<times> SlavePollState" where
  "slaveSuccess sid now s0 =
     (let s = s0\<lparr>consecutiveFailures := 0, consecutiveSuccesses := consecutiveSuccesses s0 + 1,
                 lastResponseTimeMs := now\<rparr>
      in if health s \<noteq> HEALTHY
         then ([slaveRecovered sid], s\<lparr>health := HEALTHY, currentIntervalMs := originalIntervalMs s\<rparr>)
         else ([], s))"

definition slaveFailure :: "u8 \<Rightarrow> int \<Rightarrow> SlavePollState \<Rightarrow> PollSignal list \<times> SlavePollState" where
  "slaveFailure sid now s0 =
     (let s = s0\<lparr>consecutiveSuccesses := 0, consecutiveFailures := consecutiveFailures s0 + 1\<rparr>;
          f = consecutiveFailures s
      in if f \<ge> 3 \<and> f < 8 then
           (if health s = HEALTHY
            then ([slaveDegraded sid f],
                  s\<lparr>health := DEGRADED, currentIntervalMs := int32 (originalIntervalMs s * 3)\<rparr>)
            else ([], s))
         else if f \<ge> 8 then
           (let wasNotIsolated = (health s \<noteq> ISOLATED \<and> health s \<noteq> PROBING);
                s' = s\<lparr>health := ISOLATED, currentIntervalMs := 30000, lastProbeTimeMs := now\<rparr>
            in (if wasNotIsolated then [slaveIsolated sid f] else [], s'))
         else ([], s))"

fun isDegradedSignal :: "PollSignal \<Rightarrow> bool" where
  "isDegradedSignal (slaveDegraded _ _) = True"
| "isDegradedSignal _ = False"

fun isIsolatedSignal :: "PollSignal \<Rightarrow> bool" where
  "isIsolatedSignal (slaveIsolated _ _) = True"
| "isIsolatedSignal _ = False"

definition onResponseReceived ::
  "Scheduler \<Rightarrow> u8 \<Rightarrow> bool \<Rightarrow> int \<Rightarrow> PollSignal list \<times> Scheduler" where
  "onResponseReceived s sid success now =
     (case m_slaveStates s sid of
        None \<Rightarrow> ([], s)
      | Some st \<Rightarrow>
          (if success then
             (case slaveSuccess sid now st of (sigs, st') \<Rightarrow>
               (sigs, s\<lparr>m_successCount := m_successCount s + 1,
                        m_slaveStates := (m_slaveStates s)(sid \<mapsto> st')\<rparr>))
           else
             (case slaveFailure sid now st of (sigs, st') \<Rightarrow>
               (sigs, s\<lparr>m_timeoutCount := m_timeoutCount s + 1,
                        m_degradedCount := m_degradedCount s +
                          int (length (filter isDegradedSignal sigs)),
                        m_isolatedCount := m_isolatedCount s +
                          int (length (filter isIsolatedSignal sigs)),
                        m_slaveStates := (m_slaveStates s)(sid \<mapsto> st')\<rparr>))))"

definition enterProbingIfDue :: "Scheduler \<Rightarrow> u8 \<Rightarrow> int \<Rightarrow> int \<Rightarrow> PollSignal list \<times> Scheduler" where
  "enterProbingIfDue s sid now1 now2 =
     (case m_slaveStates s sid of
        None \<Rightarrow> ([], s)
      | Some st \<Rightarrow>
          (if health st = ISOLATED \<and> now1 - lastProbeTimeMs st \<ge> 30000
           then ([slaveProbing sid],
                 s\<lparr>m_slaveStates := (m_slaveStates s)(sid \<mapsto>
                     st\<lparr>health := PROBING, lastProbeTimeMs := now2\<rparr>)\<rparr>)
           else ([], s)))"

definition healthOf :: "Scheduler \<Rightarrow> u8 \<Rightarrow> SlaveHealth" where
  "healthOf s sid = (case m_slaveStates s sid of Some st \<Rightarrow> health st | None \<Rightarrow> HEALTHY)"

definition getNextPollDelayMs :: "Scheduler \<Rightarrow> u8 \<Rightarrow> int \<Rightarrow> int" where
  "getNextPollDelayMs s sid now =
     (case m_slaveStates s sid of
        None \<Rightarrow> 0
      | Some st \<Rightarrow>
          (case health st of
             ISOLATED \<Rightarrow> max 0 (30000 - (now - lastProbeTimeMs st))
           | PROBING \<Rightarrow> 0
           | _ \<Rightarrow> currentIntervalMs st))"

definition isLinkBusy :: "Scheduler \<Rightarrow> u8 \<Rightarrow> bool" where
  "isLinkBusy s l = (case m_links s l of Some k \<Rightarrow> busy k | None \<Rightarrow> False)"

section \<open>The health state machine\<close>

definition slave_inv :: "SlavePollState \<Rightarrow> bool" where
  "slave_inv s \<longleftrightarrow> 0 \<le> consecutiveFailures s \<and>
     (case health s of
        HEALTHY \<Rightarrow> consecutiveFailures s < 3 \<and> currentIntervalMs s = originalIntervalMs s
      | DEGRADED \<Rightarrow> 3 \<le> consecutiveFailures s \<and> consecutiveFailures s < 8 \<and>
          currentIntervalMs s = int32 (originalIntervalMs s * 3)
      | ISOLATED \<Rightarrow> 8 \<le> consecutiveFailures s \<and> currentIntervalMs s = 30000
      | PROBING \<Rightarrow> 8 \<le> consecutiveFailures s \<and> currentIntervalMs s = 30000)"

definition scheduler_inv :: "Scheduler \<Rightarrow> bool" where
  "scheduler_inv s \<longleftrightarrow> (\<forall>sid st. m_slaveStates s sid = Some st \<longrightarrow> slave_inv st)"

lemma slave_inv_success [inv_intros]: "slave_inv st \<Longrightarrow> slave_inv (snd (slaveSuccess sid now st))"
  by (simp add: slave_inv_def slaveSuccess_def Let_def split: SlaveHealth.splits)

lemma slave_inv_failure [inv_intros]: "slave_inv st \<Longrightarrow> slave_inv (snd (slaveFailure sid now st))"
  by (auto simp: slave_inv_def slaveFailure_def Let_def split: SlaveHealth.splits)

lemma scheduler_inv_new [inv_intros]: "scheduler_inv scheduler_new"
  by (simp add: scheduler_inv_def scheduler_new_def)

lemma scheduler_inv_upd:
  "scheduler_inv s \<Longrightarrow> slave_inv st \<Longrightarrow>
   scheduler_inv (s\<lparr>m_slaveStates := (m_slaveStates s)(sid \<mapsto> st)\<rparr>)"
  by (simp add: scheduler_inv_def)

lemma scheduler_inv_registerSlave [inv_intros]:
  "scheduler_inv s \<Longrightarrow> scheduler_inv (registerSlave s sid lid ms now)"
  by (simp add: registerSlave_def scheduler_inv_upd slave_inv_def)

lemma scheduler_inv_unregisterSlave [inv_intros]:
  "scheduler_inv s \<Longrightarrow> scheduler_inv (unregisterSlave s sid)"
  by (simp add: unregisterSlave_def scheduler_inv_def)

lemma scheduler_inv_links:
  "m_slaveStates s' = m_slaveStates s \<Longrightarrow> scheduler_inv s' = scheduler_inv s"
  by (simp add: scheduler_inv_def)

lemma slaveStates_links [simp]:
  "m_slaveStates (setLinkParams s l p) = m_slaveStates s"
  "m_slaveStates (enqueue s t) = m_slaveStates s"
  "m_slaveStates (snd (dequeueNext s l)) = m_slaveStates s"
  "m_slaveStates (onLinkFree s l) = m_slaveStates s"
  by (simp_all add: setLinkParams_def enqueue_def dequeueNext_def onLinkFree_def
      split: option.split prod.split)

lemma scheduler_inv_lookup: "scheduler_inv s \<Longrightarrow> m_slaveStates s sid = Some st \<Longrightarrow> slave_inv st"
  by (simp add: scheduler_inv_def)

lemma scheduler_inv_changed:
  "scheduler_inv s \<Longrightarrow> slave_inv st \<Longrightarrow> m_slaveStates s' = (m_slaveStates s)(sid \<mapsto> st) \<Longrightarrow>
   scheduler_inv s'"
  by (simp add: scheduler_inv_def)

lemma scheduler_inv_response [inv_intros]:
  assumes "scheduler_inv s"
  shows "scheduler_inv (snd (onResponseReceived s sid success now))"
proof (cases "m_slaveStates s sid")
  case None
  with assms show ?thesis by (simp add: onResponseReceived_def)
next
  case (Some st)
  let ?st' = "snd (if success then slaveSuccess sid now st else slaveFailure sid now st)"
  have "slave_inv ?st'"
    using scheduler_inv_lookup [OF assms Some] by (simp add: slave_inv_success slave_inv_failure)
  then show ?thesis
    by (rule scheduler_inv_changed [OF assms, of _ _ sid])
      (simp add: onResponseReceived_def Some case_prod_beta)
qed

lemma scheduler_inv_probe [inv_intros]:
  assumes "scheduler_inv s"
  shows "scheduler_inv (snd (enterProbingIfDue s sid now1 now2))"
proof (cases "m_slaveStates s sid")
  case None
  with assms show ?thesis by (simp add: enterProbingIfDue_def)
next
  case (Some st)
  show ?thesis
  proof (cases "health st = ISOLATED \<and> now1 - lastProbeTimeMs st \<ge> 30000")
    case True
    then have "slave_inv (st\<lparr>health := PROBING, lastProbeTimeMs := now2\<rparr>)"
      using scheduler_inv_lookup [OF assms Some] by (simp add: slave_inv_def)
    then show ?thesis
      by (rule scheduler_inv_changed [OF assms, of _ _ sid])
        (use True in \<open>simp add: enterProbingIfDue_def Some\<close>)
  next
    case False
    with assms show ?thesis by (auto simp: enterProbingIfDue_def Some)
  qed
qed

text \<open>A run of the scheduler: the state it is in and the signals emitted so far.\<close>

inductive poll_run :: "Scheduler \<Rightarrow> PollSignal list \<Rightarrow> bool" where
  start: "poll_run scheduler_new []"
| link_params: "poll_run s tr \<Longrightarrow> poll_run (setLinkParams s l p) tr"
| register: "poll_run s tr \<Longrightarrow> poll_run (registerSlave s sid lid ms now) tr"
| unregister: "poll_run s tr \<Longrightarrow> poll_run (unregisterSlave s sid) tr"
| enq: "poll_run s tr \<Longrightarrow> poll_run (enqueue s t) tr"
| deq: "poll_run s tr \<Longrightarrow> poll_run (snd (dequeueNext s l)) tr"
| free: "poll_run s tr \<Longrightarrow> poll_run (onLinkFree s l) tr"
| response: "poll_run s tr \<Longrightarrow> onResponseReceived s sid success now = (sigs, s') \<Longrightarrow>
    poll_run s' (tr @ sigs)"
| probe: "poll_run s tr \<Longrightarrow> enterProbingIfDue s sid now1 now2 = (sigs, s') \<Longrightarrow>
    poll_run s' (tr @ sigs)"

lemma poll_run_inv: "poll_run s tr \<Longrightarrow> scheduler_inv s"
proof (induction rule: poll_run.induct)
  case (response s tr sid success now sigs s')
  then show ?case using scheduler_inv_response [of s sid success now] by simp
next
  case (probe s tr sid now1 now2 sigs s')
  then show ?case using scheduler_inv_probe [of s sid now1 now2] by simp
qed (auto intro: inv_intros simp: scheduler_inv_links [OF slaveStates_links(1)]
    scheduler_inv_links [OF slaveStates_links(2)] scheduler_inv_links [OF slaveStates_links(3)]
    scheduler_inv_links [OF slaveStates_links(4)])

lemma counts_links [simp]:
  "m_degradedCount (setLinkParams s l p) = m_degradedCount s"
  "m_isolatedCount (setLinkParams s l p) = m_isolatedCount s"
  "m_degradedCount (enqueue s t) = m_degradedCount s"
  "m_isolatedCount (enqueue s t) = m_isolatedCount s"
  "m_degradedCount (snd (dequeueNext s l)) = m_degradedCount s"
  "m_isolatedCount (snd (dequeueNext s l)) = m_isolatedCount s"
  "m_degradedCount (onLinkFree s l) = m_degradedCount s"
  "m_isolatedCount (onLinkFree s l) = m_isolatedCount s"
  "m_degradedCount (registerSlave s sid lid ms now) = m_degradedCount s"
  "m_isolatedCount (registerSlave s sid lid ms now) = m_isolatedCount s"
  "m_degradedCount (unregisterSlave s sid) = m_degradedCount s"
  "m_isolatedCount (unregisterSlave s sid) = m_isolatedCount s"
  by (simp_all add: setLinkParams_def enqueue_def dequeueNext_def onLinkFree_def registerSlave_def
      unregisterSlave_def split: option.split prod.split)

lemma slaveSuccess_signals: "slaveSuccess sid now st = (sigs, st') \<Longrightarrow>
    filter isDegradedSignal sigs = [] \<and> filter isIsolatedSignal sigs = []"
  by (auto simp: slaveSuccess_def Let_def split: if_splits)

lemma poll_run_counts:
  "poll_run s tr \<Longrightarrow>
     m_degradedCount s = int (length (filter isDegradedSignal tr)) \<and>
     m_isolatedCount s = int (length (filter isIsolatedSignal tr))"
proof (induction rule: poll_run.induct)
  case (response s tr sid success now sigs s')
  then show ?case
    by (auto simp: onResponseReceived_def dest: slaveSuccess_signals split: option.splits prod.splits if_splits)
next
  case (probe s tr sid now1 now2 sigs s')
  then show ?case
    by (auto simp: enterProbingIfDue_def split: option.splits if_splits)
qed (simp_all add: scheduler_new_def)

section \<open>What a row of failures does\<close>

text \<open>The documented thresholds: degraded from 3 failures in a row, isolated from 8.\<close>

definition breaker :: "nat \<Rightarrow> SlaveHealth" where
  "breaker n = (if n < 3 then HEALTHY else if n < 8 then DEGRADED else ISOLATED)"

fun failures :: "u8 \<Rightarrow> int list \<Rightarrow> SlavePollState \<Rightarrow> PollSignal list \<times> SlavePollState" where
  "failures sid [] st = ([], st)"
| "failures sid (now # ts) st =
     (case slaveFailure sid now st of (sigs, st') \<Rightarrow>
       (case failures sid ts st' of (rest, st'') \<Rightarrow> (sigs @ rest, st'')))"

definition breaker_signals :: "u8 \<Rightarrow> nat \<Rightarrow> PollSignal list" where
  "breaker_signals sid n =
     (if n < 3 then [] else if n < 8 then [slaveDegraded sid 3]
      else [slaveDegraded sid 3, slaveIsolated sid 8])"

lemma failures_snoc:
  "failures sid (ts @ [now]) st =
     (fst (failures sid ts st) @ fst (slaveFailure sid now (snd (failures sid ts st))),
      snd (slaveFailure sid now (snd (failures sid ts st))))"
  by (induction ts arbitrary: st) (simp_all add: case_prod_beta)

lemma failures_from_healthy:
  assumes "health st = HEALTHY" and "consecutiveFailures st = 0"
  shows "fst (failures sid ts st) = breaker_signals sid (length ts) \<and>
     health (snd (failures sid ts st)) = breaker (length ts) \<and>
     consecutiveFailures (snd (failures sid ts st)) = int (length ts)"
proof (induction ts rule: rev_induct)
  case Nil
  with assms show ?case by (simp add: breaker_signals_def breaker_def)
next
  case (snoc now ts)
  let ?st = "snd (failures sid ts st)"
  consider "length ts < 2" | "length ts = 2" | "3 \<le> length ts" "length ts < 7" | "length ts = 7"
    | "8 \<le> length ts" by linarith
  then show ?case
    using snoc
    by cases (simp_all add: failures_snoc slaveFailure_def Let_def breaker_def breaker_signals_def)
qed

section \<open>Queues\<close>

definition queued :: "LinkState \<Rightarrow> PollTask multiset" where
  "queued k = mset (highPriorityQueue k) + mset (normalQueue k) + mset (lowPriorityQueue k)"

definition link_inv :: "LinkState \<Rightarrow> bool" where
  "link_inv k \<longleftrightarrow> (\<forall>t \<in> set (highPriorityQueue k). pt_isControlCommand t) \<and>
     (\<forall>t \<in> set (normalQueue k) \<union> set (lowPriorityQueue k). \<not> pt_isControlCommand t)"

lemma link_inv_new [inv_intros]: "link_inv newLink"
  by (simp add: link_inv_def newLink_def)

lemma link_inv_enqueue [inv_intros]: "link_inv k \<Longrightarrow> link_inv (enqueueLink k t)"
  by (auto simp: link_inv_def enqueueLink_def)

lemma set_tl_subset: "x \<in> set (tl xs) \<Longrightarrow> x \<in> set xs"
  by (cases xs) auto

lemma link_inv_dequeue [inv_intros]: "link_inv k \<Longrightarrow> link_inv (snd (dequeueLink k))"
  by (auto simp: link_inv_def dequeueLink_def Let_def dest: set_tl_subset split: list.split)

lemma queued_enqueue: "queued (enqueueLink k t) = add_mset t (queued k)"
  by (simp add: queued_def enqueueLink_def)

text \<open>A dequeue either refuses and changes nothing, or takes exactly one queued task and
  occupies the link.\<close>

lemma dequeueLink_cases:
  "(isHalfDuplex (params k) \<and> busy k \<or> queued k = {#}) \<and> dequeueLink k = (emptyTask, k) \<or>
   \<not> (isHalfDuplex (params k) \<and> busy k) \<and> queued k \<noteq> {#} \<and>
     queued k = add_mset (fst (dequeueLink k)) (queued (snd (dequeueLink k))) \<and>
     busy (snd (dequeueLink k))"
proof (cases "isHalfDuplex (params k) \<and> busy k")
  case True
  then show ?thesis by (simp add: dequeueLink_def)
next
  case False
  then show ?thesis
    by (cases "highPriorityQueue k"; cases "normalQueue k"; cases "lowPriorityQueue k")
      (auto simp: dequeueLink_def Let_def queued_def)
qed

text \<open>One round of a link: the previous frame is done, tasks arrive, the next is taken.\<close>

definition serve :: "LinkState \<Rightarrow> PollTask list \<Rightarrow> PollTask \<times> LinkState" where
  "serve k arrivals = dequeueLink (foldl enqueueLink (k\<lparr>busy := False\<rparr>) arrivals)"

fun serve_all :: "LinkState \<Rightarrow> PollTask list list \<Rightarrow> PollTask list \<times> LinkState" where
  "serve_all k [] = ([], k)"
| "serve_all k (as # rounds) =
     (case serve k as of (t, k1) \<Rightarrow> (case serve_all k1 rounds of (ts, k2) \<Rightarrow> (t # ts, k2)))"

lemma foldl_enqueue_fields:
  "consecutivePreemptCount (foldl enqueueLink k as) = consecutivePreemptCount k"
  "consecutiveSboCount (foldl enqueueLink k as) = consecutiveSboCount k"
  "busy (foldl enqueueLink k as) = busy k"
  "params (foldl enqueueLink k as) = params k"
  "\<exists>ns. normalQueue (foldl enqueueLink k as) = normalQueue k @ ns"
  "\<exists>ls. lowPriorityQueue (foldl enqueueLink k as) = lowPriorityQueue k @ ls"
  by (induction as rule: rev_induct) (auto simp: enqueueLink_def)

lemma foldl_enqueue_no_control:
  "\<forall>t \<in> set as. \<not> pt_isControlCommand t \<Longrightarrow>
   highPriorityQueue (foldl enqueueLink k as) = highPriorityQueue k"
  by (induction as rule: rev_induct) (auto simp: enqueueLink_def)

lemma link_inv_foldl: "link_inv k \<Longrightarrow> link_inv (foldl enqueueLink k as)"
  by (induction as rule: rev_induct) (auto intro: link_inv_enqueue)

lemma link_inv_free: "link_inv (k\<lparr>busy := b\<rparr>) = link_inv k"
  by (simp add: link_inv_def)

text \<open>A round without control writes in the queue: the head of the LOW queue is served, or
  it stays the head and the preemption count grows.\<close>

lemma serve_low_step:
  assumes "highPriorityQueue k = []" and "lowPriorityQueue k = l # ls"
    and "\<forall>t \<in> set as. \<not> pt_isControlCommand t" and "serve k as = (t, k')"
  shows "t = l \<or>
     (highPriorityQueue k' = [] \<and> (\<exists>ls'. lowPriorityQueue k' = l # ls') \<and>
      consecutivePreemptCount k < maxConsecutivePreempt (params k) \<and>
      consecutivePreemptCount k' = consecutivePreemptCount k + 1 \<and> params k' = params k)"
proof -
  let ?k = "foldl enqueueLink (k\<lparr>busy := False\<rparr>) as"
  note f = foldl_enqueue_fields [of "k\<lparr>busy := False\<rparr>" as]
  have high: "highPriorityQueue ?k = []"
    using foldl_enqueue_no_control [OF assms(3), of "k\<lparr>busy := False\<rparr>"] assms(1) by simp
  obtain ls' where low: "lowPriorityQueue ?k = l # ls'" using f(6) assms(2) by auto
  from assms(4) show ?thesis
    by (auto simp: serve_def dequeueLink_def Let_def high low f(1,3,4) not_le split: if_splits list.splits)
qed

lemma low_served_in_time:
  assumes "highPriorityQueue k = []" and "lowPriorityQueue k = l # ls"
    and "\<forall>as \<in> set rounds. \<forall>t \<in> set as. \<not> pt_isControlCommand t"
    and "nat (maxConsecutivePreempt (params k) - consecutivePreemptCount k) < length rounds"
  shows "l \<in> set (fst (serve_all k rounds))"
  using assms
proof (induction rounds arbitrary: k ls)
  case Nil
  then show ?case by simp
next
  case (Cons as rounds)
  obtain t k' where sv: "serve k as = (t, k')" by fastforce
  have no_control: "\<forall>t \<in> set as. \<not> pt_isControlCommand t" using Cons.prems(3) by simp
  from serve_low_step [OF Cons.prems(1,2) no_control sv] show ?case
  proof (elim disjE)
    assume "t = l"
    with sv show ?thesis by (simp add: case_prod_beta)
  next
    assume h: "highPriorityQueue k' = [] \<and> (\<exists>ls'. lowPriorityQueue k' = l # ls') \<and>
      consecutivePreemptCount k < maxConsecutivePreempt (params k) \<and>
      consecutivePreemptCount k' = consecutivePreemptCount k + 1 \<and> params k' = params k"
    then obtain ls' where low: "lowPriorityQueue k' = l # ls'" by blast
    have "l \<in> set (fst (serve_all k' rounds))"
      by (rule Cons.IH [OF _ low]) (use h Cons.prems(3,4) in auto)
    with sv show ?thesis by (simp add: case_prod_beta)
  qed
qed

text \<open>Control writes in a row while a NORMAL task waits.\<close>

lemma serve_control_step:
  assumes "link_inv k" and "normalQueue k = n # ns" and "serve k as = (t, k')" and "pt_isControlCommand t"
  shows "consecutiveSboCount k < maxConsecutiveSboBurst (params k) \<and> link_inv k' \<and>
     (\<exists>ns'. normalQueue k' = n # ns') \<and> consecutiveSboCount k' = consecutiveSboCount k + 1 \<and>
     params k' = params k"
proof -
  let ?k = "foldl enqueueLink (k\<lparr>busy := False\<rparr>) as"
  note f = foldl_enqueue_fields [of "k\<lparr>busy := False\<rparr>" as]
  obtain ns' where normal: "normalQueue ?k = n # ns'" using f(5) assms(2) by auto
  have inv: "link_inv ?k" using assms(1) by (simp add: link_inv_foldl link_inv_free)
  have "link_inv k'" using link_inv_dequeue [OF inv] assms(3) by (simp add: serve_def)
  with inv assms(3,4) show ?thesis
    by (auto simp: serve_def dequeueLink_def Let_def normal f(2,3,4) not_le link_inv_def
        split: if_splits list.splits)
qed

lemma control_burst_bounded:
  assumes "link_inv k" and "normalQueue k = n # ns"
    and "\<forall>t \<in> set (fst (serve_all k rounds)). pt_isControlCommand t"
  shows "length rounds \<le> nat (maxConsecutiveSboBurst (params k) - consecutiveSboCount k)"
  using assms
proof (induction rounds arbitrary: k ns)
  case Nil
  then show ?case by simp
next
  case (Cons as rounds)
  obtain t k' where sv: "serve k as = (t, k')" by fastforce
  with Cons.prems(3) have "pt_isControlCommand t" "\<forall>t \<in> set (fst (serve_all k' rounds)). pt_isControlCommand t"
    by (simp_all add: case_prod_beta)
  with serve_control_step [OF Cons.prems(1,2) sv] Cons.IH [of k'] show ?case by auto
qed

section \<open>Properties\<close>

text \<open>Property C8: in every reachable scheduler the health of a slave, its failure count and its
  polling interval agree: healthy below 3 failures at the configured interval, degraded from 3
  to 7 at three times it, isolated or probing from 8 on at 30 s. The product has to fit the
  code's \<open>int\<close>.\<close>

theorem breaker_consistent:
  assumes "poll_run s tr" and "m_slaveStates s sid = Some st"
    and "- (2 ^ 31) \<le> 3 * originalIntervalMs st" and "3 * originalIntervalMs st < 2 ^ 31"
  shows "0 \<le> consecutiveFailures st \<and>
    (health st = HEALTHY \<longleftrightarrow> consecutiveFailures st < 3) \<and>
    (health st = DEGRADED \<longleftrightarrow> 3 \<le> consecutiveFailures st \<and> consecutiveFailures st < 8) \<and>
    (health st = HEALTHY \<longrightarrow> currentIntervalMs st = originalIntervalMs st) \<and>
    (health st = DEGRADED \<longrightarrow> currentIntervalMs st = 3 * originalIntervalMs st) \<and>
    (8 \<le> consecutiveFailures st \<longrightarrow> currentIntervalMs st = 30000)"
  using scheduler_inv_lookup [OF poll_run_inv [OF assms(1)] assms(2)] assms(3,4)
  by (auto simp: slave_inv_def mult.commute split: SlaveHealth.splits)

definition demo_scheduler :: Scheduler where
  "demo_scheduler = foldl (\<lambda>s now. snd (onResponseReceived s 7 False now))
     (registerSlave scheduler_new 7 1 1000 0) [10, 20, 30]"

lemma demo_scheduler_slave:
  "m_slaveStates demo_scheduler 7 = Some \<lparr>consecutiveFailures = 3, consecutiveSuccesses = 0,
     health = DEGRADED, lastProbeTimeMs = 0, lastResponseTimeMs = 0, originalIntervalMs = 1000,
     currentIntervalMs = 3000, sp_linkId = 1\<rparr>"
  by (simp add: demo_scheduler_def registerSlave_def scheduler_new_def onResponseReceived_def
      slaveFailure_def Let_def)

lemma poll_run_responses:
  "poll_run s tr \<Longrightarrow> \<exists>tr'. poll_run (foldl (\<lambda>s now. snd (onResponseReceived s sid ok now)) s ts) tr'"
proof (induction ts arbitrary: s tr)
  case (Cons t ts)
  obtain sigs s' where "onResponseReceived s sid ok t = (sigs, s')" by fastforce
  with Cons.IH [OF poll_run.response [OF Cons.prems this]] show ?case by simp
qed auto

theorem breaker_consistent_witness:
  "health (the (m_slaveStates demo_scheduler 7)) = DEGRADED \<and>
   currentIntervalMs (the (m_slaveStates demo_scheduler 7)) = 3 * originalIntervalMs (the (m_slaveStates demo_scheduler 7))"
proof -
  obtain tr where "poll_run demo_scheduler tr"
    using poll_run_responses [OF poll_run.register [OF poll_run.start]] unfolding demo_scheduler_def by blast
  from breaker_consistent [OF this demo_scheduler_slave] show ?thesis
    by (simp add: demo_scheduler_slave)
qed

text \<open>A slave that fails \<open>n\<close> times in a row from a healthy start is reported degraded
  exactly once, at its third failure, and isolated exactly once, at its eighth; the first
  success after that reports it recovered and restores its interval.\<close>

theorem breaker_on_failures:
  assumes "health st = HEALTHY" and "consecutiveFailures st = 0"
  shows "fst (failures sid ts st) = breaker_signals sid (length ts) \<and>
    health (snd (failures sid ts st)) = breaker (length ts) \<and>
    (3 \<le> length ts \<longrightarrow>
      (case slaveSuccess sid now (snd (failures sid ts st)) of (sigs, st') \<Rightarrow>
        sigs = [slaveRecovered sid] \<and> health st' = HEALTHY \<and> consecutiveFailures st' = 0 \<and>
        currentIntervalMs st' = originalIntervalMs st'))"
  using failures_from_healthy [OF assms, of sid ts]
  by (auto simp: slaveSuccess_def Let_def breaker_def)

theorem breaker_on_failures_witness:
  "fst (failures 7 [1, 2, 3, 4, 5, 6, 7, 8, 9] (the (m_slaveStates (registerSlave scheduler_new 7 1 1000 0) 7))) =
     [slaveDegraded 7 3, slaveIsolated 7 8]"
proof -
  let ?st = "the (m_slaveStates (registerSlave scheduler_new 7 1 1000 0) 7)"
  have "health ?st = HEALTHY" "consecutiveFailures ?st = 0"
    by (simp_all add: registerSlave_def)
  from breaker_on_failures [OF this, of 7 "[1, 2, 3, 4, 5, 6, 7, 8, 9]"] show ?thesis
    by (simp add: breaker_signals_def)
qed

text \<open>Property C6: no task is lost, duplicated or invented: a dequeue takes exactly one queued task
  off the link, or none, and none only on a busy half-duplex link or with empty queues; an
  enqueue adds exactly the task.\<close>

theorem tasks_conserved:
  shows "queued (enqueueLink k t) = add_mset t (queued k) \<and>
    (isHalfDuplex (params k) \<and> busy k \<or> queued k = {#} \<longrightarrow> dequeueLink k = (emptyTask, k)) \<and>
    (\<not> (isHalfDuplex (params k) \<and> busy k) \<and> queued k \<noteq> {#} \<longrightarrow>
      queued k = add_mset (fst (dequeueLink k)) (queued (snd (dequeueLink k))) \<and> busy (snd (dequeueLink k)))"
  using dequeueLink_cases [of k] by (auto simp: queued_enqueue)

theorem tasks_conserved_witness:
  "queued (enqueueLink newLink (normalTask 7 1 1000)) = {# normalTask 7 1 1000 #} \<and>
   busy (snd (dequeueLink (enqueueLink newLink (normalTask 7 1 1000))))"
proof -
  have "queued newLink = {#}" by (simp add: queued_def newLink_def)
  moreover have "\<not> busy (enqueueLink newLink (normalTask 7 1 1000))"
    by (simp add: enqueueLink_def newLink_def)
  ultimately show ?thesis
    using tasks_conserved [of newLink "normalTask 7 1 1000"]
      tasks_conserved [of "enqueueLink newLink (normalTask 7 1 1000)" "normalTask 7 1 1000"] by simp
qed

text \<open>Property C5: no starvation. On a link that gets no control commands the task at the head of
  the low queue is served within \<open>maxConsecutivePreempt + 1\<close> dequeues, whatever normal and low
  tasks arrive between them.\<close>

theorem low_priority_not_starved:
  assumes "highPriorityQueue k = []" and "lowPriorityQueue k = l # ls"
    and "\<forall>as \<in> set rounds. \<forall>t \<in> set as. \<not> pt_isControlCommand t"
    and "0 \<le> consecutivePreemptCount k" and "max 0 (maxConsecutivePreempt (params k)) < int (length rounds)"
  shows "l \<in> set (fst (serve_all k rounds))"
proof (rule low_served_in_time [OF assms(1-3)])
  show "nat (maxConsecutivePreempt (params k) - consecutivePreemptCount k) < length rounds"
    using assms(4,5) by linarith
qed

definition demo_link :: LinkState where
  "demo_link = foldl enqueueLink newLink [lowTask 9 1 5000, normalTask 7 1 1000]"

theorem low_priority_not_starved_witness:
  "lowTask 9 1 5000 \<in> set (fst (serve_all demo_link (replicate 6 [normalTask 8 1 1000, normalTask 7 1 1000])))"
  by (rule low_priority_not_starved [where ls = "[]"])
    (simp_all add: demo_link_def newLink_def enqueueLink_def lowTask_def normalTask_def emptyTask_def defaultParams_def)

text \<open>Property C7: control commands cannot monopolise a link: while a normal task waits, at most
  \<open>maxConsecutiveSboBurst\<close> dequeues in a row give control commands, however many arrive.\<close>

theorem control_burst_limited:
  assumes "link_inv k" and "normalQueue k \<noteq> []" and "0 \<le> consecutiveSboCount k"
    and "\<forall>t \<in> set (fst (serve_all k rounds)). pt_isControlCommand t"
  shows "int (length rounds) \<le> max 0 (maxConsecutiveSboBurst (params k))"
proof -
  obtain n ns where "normalQueue k = n # ns" using assms(2) by (cases "normalQueue k") auto
  from control_burst_bounded [OF assms(1) this assms(4)] assms(3) show ?thesis by linarith
qed

theorem control_burst_limited_witness:
  "\<not> (\<forall>t \<in> set (fst (serve_all demo_link (replicate 11 [controlWrite 7 1]))). pt_isControlCommand t)"
proof
  assume "\<forall>t \<in> set (fst (serve_all demo_link (replicate 11 [controlWrite 7 1]))). pt_isControlCommand t"
  moreover have "link_inv demo_link"
    unfolding demo_link_def by (intro link_inv_foldl link_inv_new)
  ultimately show False
    using control_burst_limited [of demo_link "replicate 11 [controlWrite 7 1]"]
    by (simp add: demo_link_def newLink_def enqueueLink_def lowTask_def normalTask_def emptyTask_def defaultParams_def)
qed

end
