(* ===== verification/SboGuard.thy ===== *)
theory SboGuard
  imports Ens_Prelude
begin

text \<open>
  The device lock of select-before-operate, \<^verbatim>\<open>apps/ens_app/src/business/DeviceSboGuard.h\<close>
  and \<^verbatim>\<open>.cpp\<close>: a table from device registers to the sequence that holds them. The value
  of the monotonic clock is an argument. \<open>device_lock\<close> is the contract the state machine
  relies on; in it, mutual exclusion between owners is proved once.
\<close>

section \<open>The code\<close>

record SboDeviceKey =
  k_linkId :: u32
  k_slaveId :: u32
  k_registerAddr :: u32

record ArmedOccupant =
  oc_sequenceId :: string
  oc_operatorName :: string
  oc_armedSinceMonoMs :: int
  oc_timeoutMs :: int

type_synonym Guard = "SboDeviceKey \<rightharpoonup> ArmedOccupant"

datatype GuardSignal =
    gArmedAcquired string SboDeviceKey
  | gArmedRejected string SboDeviceKey string int
  | gArmedReleased string SboDeviceKey

definition guard_new :: Guard where
  "guard_new = Map.empty"

text \<open>\<open>tryAcquire\<close>: its result, the occupant written to \<open>out\<close>, the signals, the table.\<close>

definition tryAcquire ::
  "Guard \<Rightarrow> SboDeviceKey \<Rightarrow> string \<Rightarrow> string \<Rightarrow> int \<Rightarrow>
     bool \<times> ArmedOccupant option \<times> GuardSignal list \<times> Guard" where
  "tryAcquire g key seq opr now =
     (case g key of
        Some occ \<Rightarrow>
          (let elapsed = now - oc_armedSinceMonoMs occ
           in (False, None, [gArmedRejected seq key (oc_operatorName occ) elapsed], g))
      | None \<Rightarrow>
          (let occ = \<lparr>oc_sequenceId = seq, oc_operatorName = opr, oc_armedSinceMonoMs = now,
                      oc_timeoutMs = 5000\<rparr>
           in (True, Some occ, [gArmedAcquired seq key], g(key \<mapsto> occ))))"

definition guard_release ::
  "Guard \<Rightarrow> SboDeviceKey \<Rightarrow> string \<Rightarrow> GuardSignal list \<times> Guard" where
  "guard_release g key seq =
     (case g key of
        None \<Rightarrow> ([], g)
      | Some occ \<Rightarrow>
          (if oc_sequenceId occ \<noteq> seq then ([], g)
           else ([gArmedReleased seq key], g(key := None))))"

definition guard_query :: "Guard \<Rightarrow> SboDeviceKey \<Rightarrow> ArmedOccupant option" where
  "guard_query g key = g key"

definition listActiveArmed :: "Guard \<Rightarrow> SboDeviceKey set" where
  "listActiveArmed g = dom g"

definition activeCount :: "Guard \<Rightarrow> nat" where
  "activeCount g = card (dom g)"

section \<open>The contract of a device lock\<close>

locale device_lock =
  fixes holder :: "'g \<Rightarrow> 'k \<Rightarrow> 's option"
    and acq :: "'g \<Rightarrow> 'k \<Rightarrow> 's \<Rightarrow> 'x \<Rightarrow> bool \<times> 'g"
    and rel :: "'g \<Rightarrow> 'k \<Rightarrow> 's \<Rightarrow> 'g"
  assumes try_free: "holder g k = None \<Longrightarrow> fst (acq g k s x) \<and> holder (snd (acq g k s x)) = (holder g)(k \<mapsto> s)"
    and try_busy: "holder g k = Some s' \<Longrightarrow> \<not> fst (acq g k s x) \<and> holder (snd (acq g k s x)) = holder g"
    and rel_own: "holder g k = Some s \<Longrightarrow> holder (rel g k s) = (holder g)(k := None)"
    and rel_other: "holder g k \<noteq> Some s \<Longrightarrow> holder (rel g k s) = holder g"
begin

text \<open>\<open>own i\<close> is the key and the sequence that owner \<open>i\<close> believes to hold.\<close>

definition owners_ok :: "('i \<Rightarrow> ('k \<times> 's) option) \<Rightarrow> 'g \<Rightarrow> bool" where
  "owners_ok own g \<longleftrightarrow>
     (\<forall>i k s. own i = Some (k, s) \<longrightarrow> holder g k = Some s) \<and>
     (\<forall>i j k k' s. own i = Some (k, s) \<longrightarrow> own j = Some (k', s) \<longrightarrow> i = j)"

lemma mutual_exclusion:
  "owners_ok own g \<Longrightarrow> own i = Some (k, s) \<Longrightarrow> own j = Some (k, s') \<Longrightarrow> i = j"
  unfolding owners_ok_def by (metis option.inject)

lemma owners_ok_try:
  assumes "owners_ok own g" and "own i = None" and "\<And>j k'. own j \<noteq> Some (k', s)"
    and "fst (acq g k s x)"
  shows "owners_ok (own(i \<mapsto> (k, s))) (snd (acq g k s x))"
proof -
  have free: "holder g k = None"
    using assms(4) try_busy by (cases "holder g k") blast+
  then have "holder (snd (acq g k s x)) = (holder g)(k \<mapsto> s)" using try_free by blast
  with assms(1,2,3) free show ?thesis by (auto simp: owners_ok_def)
qed

lemma owners_ok_try_other:
  assumes "owners_ok own g"
  shows "owners_ok own (snd (acq g k s x))"
proof (cases "holder g k")
  case None
  then have "holder (snd (acq g k s x)) = (holder g)(k \<mapsto> s)" using try_free by blast
  with assms None show ?thesis by (auto simp: owners_ok_def)
next
  case (Some s')
  with assms try_busy show ?thesis by (simp add: owners_ok_def)
qed

lemma owners_ok_rel:
  assumes "owners_ok own g" and "own i = Some (k, s)"
  shows "owners_ok (own(i := None)) (rel g k s)"
proof -
  have "holder g k = Some s" using assms by (simp add: owners_ok_def)
  then have "holder (rel g k s) = (holder g)(k := None)" by (rule rel_own)
  moreover have "k' \<noteq> k" if "j \<noteq> i" "own j = Some (k', s')" for j k' s'
    using mutual_exclusion [OF assms] that by blast
  ultimately have "holder (rel g k s) k' = Some s'" if "j \<noteq> i" "own j = Some (k', s')" for j k' s'
    using that assms(1) by (simp add: owners_ok_def)
  then show ?thesis
    using assms(1) unfolding owners_ok_def by (auto split: if_splits)
qed

lemma owners_ok_drop: "owners_ok own g \<Longrightarrow> owners_ok (own(i := None)) g"
  by (auto simp: owners_ok_def)

text \<open>A key whose holder nobody releases stays taken.\<close>

lemma kept_try: "holder g k = Some s \<Longrightarrow> holder (snd (acq g k' s' x)) k = Some s"
  by (cases "holder g k'") (use try_free [of g k' s' x] try_busy [of g k' _ s' x] in auto)

lemma kept_rel: "holder g k = Some s \<Longrightarrow> s' \<noteq> s \<Longrightarrow> holder (rel g k' s') k = Some s"
  by (cases "holder g k' = Some s'") (auto simp: rel_own rel_other)

end

definition guard_holder :: "Guard \<Rightarrow> SboDeviceKey \<Rightarrow> string option" where
  "guard_holder g key = map_option oc_sequenceId (g key)"

definition guard_try :: "Guard \<Rightarrow> SboDeviceKey \<Rightarrow> string \<Rightarrow> string \<times> int \<Rightarrow> bool \<times> Guard" where
  "guard_try g key seq x =
     (case tryAcquire g key seq (fst x) (snd x) of (ok, _, _, g') \<Rightarrow> (ok, g'))"

definition guard_rel :: "Guard \<Rightarrow> SboDeviceKey \<Rightarrow> string \<Rightarrow> Guard" where
  "guard_rel g key seq = snd (guard_release g key seq)"

interpretation lock: device_lock guard_holder guard_try guard_rel
  by unfold_locales
    (auto simp: guard_holder_def guard_try_def guard_rel_def tryAcquire_def guard_release_def
      fun_eq_iff Let_def split: option.splits)

end
