(* ===== verification/SboMachine.thy ===== *)
theory SboMachine
  imports SboGuard
begin

text \<open>
  The select-before-operate state machine, \<^verbatim>\<open>apps/ens_app/src/business/SboStateMachine.h\<close>
  and \<^verbatim>\<open>.cpp\<close>. A call takes the machine and its surroundings (the injected guard, which
  several machines may share, and the process-wide sequence counter) and returns its result,
  the signals in order of emission, and both states. A single-shot \<open>QTimer\<close> is whether it
  runs and its interval; its firing is an event of the environment.
\<close>

section \<open>The code\<close>

datatype SBOState = Idle | Selecting | Armed | Executed | Timeout | Aborted

record SboSelectRequest =
  sr_linkId :: u32
  sr_slaveId :: u32
  sr_registerAddr :: u32
  sr_value :: u16
  sr_emergency :: bool

record SboCommand =
  cm_linkId :: u32
  cm_slaveId :: u32
  cm_registerAddr :: u32
  cm_value :: u16

record Timer =
  tm_active :: bool
  tm_interval :: int

record SboStateMachine =
  m_state :: SBOState
  m_sequenceId :: string
  m_operator :: string
  m_pendingCommand :: SboCommand
  m_heldKey :: "SboDeviceKey option"
  m_armedTimer :: Timer
  m_flappingTimer :: Timer
  m_execTimer :: Timer
  m_linkConnected :: bool

text \<open>The surroundings: the guard (\<open>None\<close> is the null pointer) and the counter behind
  \<open>QCoreApplication_getPidSafe\<close>, a natural number here (the code's wraps after \<open>2^64\<close> calls).\<close>

record SboEnv =
  m_guard :: "Guard option"
  pid_seq :: nat

datatype SboSignal =
    sboStateChanged SBOState
  | armedAcquired string SboDeviceKey
  | armedCleared string
  | executingSucceeded string string
  | executingFailed string string string
  | commandReady SboCommand
  | fromGuard GuardSignal

type_synonym 'r sbo_result = "'r \<times> SboSignal list \<times> SboStateMachine \<times> SboEnv"

definition timer_stop :: "Timer \<Rightarrow> Timer" where
  "timer_stop t = t\<lparr>tm_active := False\<rparr>"

definition timer_start :: "Timer \<Rightarrow> Timer" where
  "timer_start t = t\<lparr>tm_active := True\<rparr>"

definition timer_start_ms :: "Timer \<Rightarrow> int \<Rightarrow> Timer" where
  "timer_start_ms t ms = t\<lparr>tm_active := True, tm_interval := ms\<rparr>"

definition sbo_new :: SboStateMachine where
  "sbo_new = \<lparr>m_state = Idle, m_sequenceId = [], m_operator = [],
     m_pendingCommand = \<lparr>cm_linkId = 0, cm_slaveId = 0, cm_registerAddr = 0, cm_value = 0\<rparr>,
     m_heldKey = None, m_armedTimer = \<lparr>tm_active = False, tm_interval = 0\<rparr>,
     m_flappingTimer = \<lparr>tm_active = False, tm_interval = 500\<rparr>,
     m_execTimer = \<lparr>tm_active = False, tm_interval = 2000\<rparr>, m_linkConnected = True\<rparr>"

definition transitionTo :: "SBOState \<Rightarrow> SboStateMachine \<Rightarrow> SboSignal list \<times> SboStateMachine" where
  "transitionTo next m = ([sboStateChanged next], m\<lparr>m_state := next\<rparr>)"

definition forget :: "SboStateMachine \<Rightarrow> SboStateMachine" where
  "forget m = m\<lparr>m_heldKey := None, m_sequenceId := [], m_operator := []\<rparr>"

text \<open>\<open>m_guard->release(*m_heldKey, m_sequenceId)\<close> under its two null tests.\<close>

definition releaseHeld :: "SboStateMachine \<Rightarrow> SboEnv \<Rightarrow> SboSignal list \<times> SboEnv" where
  "releaseHeld m v =
     (case (m_guard v, m_heldKey m) of
        (Some g, Some key) \<Rightarrow>
          (case guard_release g key (m_sequenceId m) of
             (sigs, g') \<Rightarrow> (map fromGuard sigs, v\<lparr>m_guard := Some g'\<rparr>))
      | _ \<Rightarrow> ([], v))"

definition enterArmedState ::
  "SboSelectRequest \<Rightarrow> SboStateMachine \<Rightarrow> SboSignal list \<times> SboStateMachine" where
  "enterArmedState req m =
     (case transitionTo Armed m of (s1, m1) \<Rightarrow>
        let timeoutMs = (if sr_emergency req then 3000 else 5000);
            m2 = m1\<lparr>m_armedTimer := timer_start_ms (m_armedTimer m1) timeoutMs\<rparr>
        in (s1 @ (case m_heldKey m2 of Some key \<Rightarrow> [armedAcquired (m_sequenceId m2) key] | None \<Rightarrow> []),
            m2))"

definition rejected_id :: "nat \<Rightarrow> string" where
  "rejected_id n = ''rejected-'' @ show_nat n"

definition sequence_id :: "nat \<Rightarrow> string" where
  "sequence_id n = ''sbo-'' @ show_nat (n * 1000)"

definition req_key :: "SboSelectRequest \<Rightarrow> SboDeviceKey" where
  "req_key req = \<lparr>k_linkId = sr_linkId req, k_slaveId = sr_slaveId req,
     k_registerAddr = sr_registerAddr req\<rparr>"

definition submitSelect ::
  "SboSelectRequest \<Rightarrow> string \<Rightarrow> int \<Rightarrow> SboStateMachine \<Rightarrow> SboEnv \<Rightarrow> bool sbo_result" where
  "submitSelect req operatorName now m v =
     (let key = req_key req
      in if m_state m \<noteq> Idle then
        (case m_guard v of
           None \<Rightarrow> (False, [], m, v)
         | Some g \<Rightarrow>
             (case tryAcquire g key (rejected_id (pid_seq v)) operatorName now of
                (_, _, sigs, g') \<Rightarrow>
                  (False, map fromGuard sigs, m, v\<lparr>m_guard := Some g', pid_seq := pid_seq v + 1\<rparr>)))
      else
        (let m1 = m\<lparr>m_sequenceId := sequence_id (pid_seq v), m_operator := operatorName,
               m_pendingCommand := \<lparr>cm_linkId = sr_linkId req, cm_slaveId = sr_slaveId req,
                 cm_registerAddr = sr_registerAddr req, cm_value = sr_value req\<rparr>\<rparr>;
             v1 = v\<lparr>pid_seq := pid_seq v + 1\<rparr>
         in case m_guard v1 of
              None \<Rightarrow> (False, [], m1\<lparr>m_sequenceId := [], m_operator := []\<rparr>, v1)
            | Some g \<Rightarrow>
                (case tryAcquire g key (m_sequenceId m1) operatorName now of
                   (ok, _, gsigs, g') \<Rightarrow>
                     let v2 = v1\<lparr>m_guard := Some g'\<rparr>
                     in if \<not> ok
                        then (False, map fromGuard gsigs, m1\<lparr>m_sequenceId := [], m_operator := []\<rparr>, v2)
                        else (case enterArmedState req (m1\<lparr>m_heldKey := Some key\<rparr>) of
                                (sigs, m2) \<Rightarrow> (True, map fromGuard gsigs @ sigs, m2, v2)))))"

definition submitOperate :: "string \<Rightarrow> SboStateMachine \<Rightarrow> SboEnv \<Rightarrow> bool sbo_result" where
  "submitOperate sequenceId m v =
     (if m_state m \<noteq> Armed then (False, [], m, v)
      else if sequenceId \<noteq> m_sequenceId m then (False, [], m, v)
      else let m1 = m\<lparr>m_armedTimer := timer_stop (m_armedTimer m)\<rparr>
      in case transitionTo Executed m1 of (s1, m2) \<Rightarrow>
        let m3 = m2\<lparr>m_execTimer := timer_start (m_execTimer m2)\<rparr>
        in case releaseHeld m3 v of (s2, v1) \<Rightarrow>
          (True, s1 @ s2 @ [commandReady (m_pendingCommand m3)], m3, v1))"

definition forceAbort :: "string \<Rightarrow> SboStateMachine \<Rightarrow> SboEnv \<Rightarrow> unit sbo_result" where
  "forceAbort reason m v =
     (if m_state m \<noteq> Armed then ((), [], forget m, v)
      else let m1 = m\<lparr>m_armedTimer := timer_stop (m_armedTimer m),
                      m_execTimer := timer_stop (m_execTimer m)\<rparr>
      in case releaseHeld m1 v of (s1, v1) \<Rightarrow>
        case transitionTo Aborted m1 of (s2, m2) \<Rightarrow>
        case transitionTo Idle (forget m2) of (s3, m3) \<Rightarrow>
          ((), s1 @ s2 @ [armedCleared reason] @ s3, m3, v1))"

definition submitCancel :: "string \<Rightarrow> SboStateMachine \<Rightarrow> SboEnv \<Rightarrow> bool sbo_result" where
  "submitCancel sequenceId m v =
     (if sequenceId \<noteq> m_sequenceId m then (False, [], m, v)
      else if m_state m \<noteq> Armed \<and> m_state m \<noteq> Selecting then (False, [], m, v)
      else case forceAbort ''user_cancel'' m v of (_, sigs, m', v') \<Rightarrow> (True, sigs, m', v'))"

definition deviceName :: "SboStateMachine \<Rightarrow> string" where
  "deviceName m = ''dev-'' @ show_nat (unat (cm_slaveId (m_pendingCommand m)))"

definition onDeviceAck ::
  "string \<Rightarrow> bool \<Rightarrow> string \<Rightarrow> SboStateMachine \<Rightarrow> SboEnv \<Rightarrow> unit sbo_result" where
  "onDeviceAck sequenceId success reason m v =
     (if sequenceId \<noteq> m_sequenceId m then ((), [], m, v)
      else if m_state m \<noteq> Executed then ((), [], m, v)
      else let m1 = m\<lparr>m_execTimer := timer_stop (m_execTimer m)\<rparr>;
               s1 = (if success then [executingSucceeded sequenceId (deviceName m1)]
                     else [executingFailed sequenceId (deviceName m1)
                             (if reason = [] then ''unknown'' else reason)])
      in case transitionTo Idle (forget m1) of (s2, m2) \<Rightarrow> ((), s1 @ s2, m2, v))"

definition onLinkStatusChanged :: "bool \<Rightarrow> SboStateMachine \<Rightarrow> SboEnv \<Rightarrow> unit sbo_result" where
  "onLinkStatusChanged isUp m v =
     (let m1 = m\<lparr>m_linkConnected := isUp\<rparr>
      in if \<not> isUp then ((), [], m1\<lparr>m_flappingTimer := timer_start (m_flappingTimer m1)\<rparr>, v)
         else ((), [], m1\<lparr>m_flappingTimer := timer_stop (m_flappingTimer m1)\<rparr>, v))"

definition onArmedTimeout :: "SboStateMachine \<Rightarrow> SboEnv \<Rightarrow> unit sbo_result" where
  "onArmedTimeout m v =
     (if m_state m \<noteq> Armed then ((), [], m, v)
      else case releaseHeld m v of (s1, v1) \<Rightarrow>
        case transitionTo Timeout m of (s2, m1) \<Rightarrow>
        case transitionTo Idle (forget m1) of (s3, m2) \<Rightarrow>
          ((), s1 @ s2 @ [armedCleared ''timeout''] @ s3, m2, v1))"

definition onFlappingTimeout :: "SboStateMachine \<Rightarrow> SboEnv \<Rightarrow> unit sbo_result" where
  "onFlappingTimeout m v =
     (if \<not> m_linkConnected m then forceAbort ''link_down'' m v else ((), [], m, v))"

definition onExecutingTimeout :: "SboStateMachine \<Rightarrow> SboEnv \<Rightarrow> unit sbo_result" where
  "onExecutingTimeout m v =
     (if m_state m \<noteq> Executed then ((), [], m, v)
      else case transitionTo Idle (forget m) of (s2, m1) \<Rightarrow>
        ((), [executingFailed (m_sequenceId m) (deviceName m) ''device_ack_timeout''] @ s2, m1, v))"

definition forceLinkDownForTest :: "int \<Rightarrow> SboStateMachine \<Rightarrow> SboEnv \<Rightarrow> unit sbo_result" where
  "forceLinkDownForTest flappingMs m v =
     ((), [], m\<lparr>m_linkConnected := False,
        m_flappingTimer := timer_start_ms (m_flappingTimer m) (if flappingMs > 0 then flappingMs else 500)\<rparr>, v)"

section \<open>Events and systems of machines\<close>

datatype SboEvent =
    Select SboSelectRequest string int
  | Operate string
  | Cancel string
  | DeviceAck string bool string
  | LinkStatus bool
  | ArmedTimerFires
  | FlappingTimerFires
  | ExecTimerFires
  | ForceArmedTimeout
  | ForceLinkDown int

text \<open>What one event does to one machine. A timer fires only while it runs, and has stopped
  when its slot is called.\<close>

fun sbo_step :: "SboEvent \<Rightarrow> SboStateMachine \<Rightarrow> SboEnv \<Rightarrow> SboSignal list \<times> SboStateMachine \<times> SboEnv" where
  "sbo_step (Select req opr now) m v = snd (submitSelect req opr now m v)"
| "sbo_step (Operate seq) m v = snd (submitOperate seq m v)"
| "sbo_step (Cancel seq) m v = snd (submitCancel seq m v)"
| "sbo_step (DeviceAck seq ok reason) m v = snd (onDeviceAck seq ok reason m v)"
| "sbo_step (LinkStatus isUp) m v = snd (onLinkStatusChanged isUp m v)"
| "sbo_step ArmedTimerFires m v =
     (if tm_active (m_armedTimer m)
      then snd (onArmedTimeout (m\<lparr>m_armedTimer := timer_stop (m_armedTimer m)\<rparr>) v) else ([], m, v))"
| "sbo_step FlappingTimerFires m v =
     (if tm_active (m_flappingTimer m)
      then snd (onFlappingTimeout (m\<lparr>m_flappingTimer := timer_stop (m_flappingTimer m)\<rparr>) v) else ([], m, v))"
| "sbo_step ExecTimerFires m v =
     (if tm_active (m_execTimer m)
      then snd (onExecutingTimeout (m\<lparr>m_execTimer := timer_stop (m_execTimer m)\<rparr>) v) else ([], m, v))"
| "sbo_step ForceArmedTimeout m v = snd (onArmedTimeout m v)"
| "sbo_step (ForceLinkDown ms) m v = snd (forceLinkDownForTest ms m v)"

text \<open>Any number of machines on one guard; each step is one event at one of them.\<close>

inductive sbo_reach :: "(nat \<Rightarrow> SboStateMachine) \<Rightarrow> SboEnv \<Rightarrow> bool" where
  init: "sbo_reach (\<lambda>_. sbo_new) \<lparr>m_guard = Some guard_new, pid_seq = 0\<rparr>"
| step: "sbo_reach ms v \<Longrightarrow> sbo_step ev (ms i) v = (sigs, m', v') \<Longrightarrow> sbo_reach (ms(i := m')) v'"

section \<open>What a machine holds\<close>

text \<open>The key and sequence an armed machine holds.\<close>

definition holds :: "SboStateMachine \<Rightarrow> (SboDeviceKey \<times> string) option" where
  "holds m = (if m_state m = Armed
    then map_option (\<lambda>k. (k, m_sequenceId m)) (m_heldKey m) else None)"

definition cmd_key :: "SboCommand \<Rightarrow> SboDeviceKey" where
  "cmd_key c = \<lparr>k_linkId = cm_linkId c, k_slaveId = cm_slaveId c, k_registerAddr = cm_registerAddr c\<rparr>"

definition sbo_ok :: "nat \<Rightarrow> SboStateMachine \<Rightarrow> bool" where
  "sbo_ok pid m \<longleftrightarrow>
     (m_state m = Idle \<and> m_heldKey m = None \<and> m_sequenceId m = [] \<or>
      m_state m = Armed \<and> m_heldKey m \<noteq> None \<and> (\<exists>n < pid. m_sequenceId m = sequence_id n) \<and>
        tm_active (m_armedTimer m) \<and> tm_interval (m_armedTimer m) \<in> {3000, 5000} \<or>
      m_state m = Executed \<and> tm_active (m_execTimer m)) \<and>
     tm_interval (m_execTimer m) = 2000 \<and>
     (\<forall>k. m_heldKey m = Some k \<longrightarrow> k = cmd_key (m_pendingCommand m))"

lemma sbo_ok_new: "sbo_ok pid sbo_new"
  by (simp add: sbo_ok_def sbo_new_def)

lemma sequence_id_inject [simp]: "sequence_id m = sequence_id n \<longleftrightarrow> m = n"
  by (simp add: sequence_id_def)

lemma rejected_not_sequence [simp]:
  "rejected_id m \<noteq> sequence_id n" "sequence_id n \<noteq> rejected_id m"
  by (simp_all add: rejected_id_def sequence_id_def)

text \<open>What a step does to the shared guard and to what the machine holds.\<close>

inductive effect ::
  "nat \<Rightarrow> Guard \<Rightarrow> (SboDeviceKey \<times> string) option \<Rightarrow>
   nat \<Rightarrow> Guard \<Rightarrow> (SboDeviceKey \<times> string) option \<Rightarrow> bool" where
  none: "effect n g h n g h"
| refused: "effect n g None (Suc n) g None"
| rejected: "g' = snd (guard_try g k (rejected_id n) x) \<Longrightarrow> effect n g h (Suc n) g' h"
| acquired: "guard_try g k (sequence_id n) x = (True, g') \<Longrightarrow>
    effect n g None (Suc n) g' (Some (k, sequence_id n))"
| released: "g' = guard_rel g k s \<Longrightarrow> effect n g (Some (k, s)) n g' None"

lemma guard_try_eq: "guard_try g k s (opr, now) =
    (fst (tryAcquire g k s opr now), snd (snd (snd (tryAcquire g k s opr now))))"
  by (simp add: guard_try_def case_prod_beta)

lemma step_select:
  assumes "m_guard v = Some g" and "sbo_ok (pid_seq v) m"
    and "submitSelect req opr now m v = (r, sigs, m', v')"
  shows "\<exists>g'. m_guard v' = Some g' \<and> effect (pid_seq v) g (holds m) (pid_seq v') g' (holds m')"
proof (cases "m_state m = Idle")
  case False
  with assms show ?thesis
    by (auto simp: submitSelect_def Let_def case_prod_beta
        intro!: effect.rejected [where x = "(opr, now)"] simp: guard_try_eq)
next
  case True
  let ?t = "tryAcquire g (req_key req) (sequence_id (pid_seq v)) opr now"
  have h: "holds m = None" using True by (simp add: holds_def)
  show ?thesis
  proof (cases "fst ?t")
    case True
    then have "guard_try g (req_key req) (sequence_id (pid_seq v)) (opr, now) = (True, snd (snd (snd ?t)))"
      by (simp add: guard_try_eq)
    from effect.acquired [OF this] show ?thesis
      using True \<open>m_state m = Idle\<close> assms h
      by (auto simp: submitSelect_def Let_def case_prod_beta enterArmedState_def transitionTo_def holds_def)
  next
    case False
    then have "snd (snd (snd ?t)) = g" by (simp add: tryAcquire_def Let_def split: option.splits)
    with False \<open>m_state m = Idle\<close> assms h show ?thesis
      by (auto simp: submitSelect_def Let_def case_prod_beta holds_def intro: effect.refused)
  qed
qed

lemma releaseHeld_env:
  "m_guard v = Some g \<Longrightarrow> m_heldKey m = Some k \<Longrightarrow>
   snd (releaseHeld m v) = v\<lparr>m_guard := Some (guard_rel g k (m_sequenceId m))\<rparr>"
  by (simp add: releaseHeld_def guard_rel_def case_prod_beta)

text \<open>A call that does not touch the shared guard, and one that gives up what is held.\<close>

definition guard_effect :: "SboStateMachine \<Rightarrow> SboEnv \<Rightarrow> SboSignal list \<times> SboStateMachine \<times> SboEnv \<Rightarrow> bool" where
  "guard_effect m v r \<longleftrightarrow> (\<forall>g. m_guard v = Some g \<longrightarrow>
     (\<exists>g'. m_guard (snd (snd r)) = Some g' \<and>
        effect (pid_seq v) g (holds m) (pid_seq (snd (snd r))) g' (holds (fst (snd r)))))"

lemma guard_effect_same:
  "snd (snd r) = v \<Longrightarrow> holds (fst (snd r)) = holds m \<Longrightarrow> guard_effect m v r"
  by (auto simp: guard_effect_def intro: effect.none)

lemma guard_effect_release:
  assumes "m_state m = Armed" and "m_heldKey m = Some k"
    and "snd (snd r) = snd (releaseHeld m' v)" and "m_heldKey m' = Some k"
    and "m_sequenceId m' = m_sequenceId m" and "holds (fst (snd r)) = None"
  shows "guard_effect m v r"
  unfolding guard_effect_def
proof (intro allI impI)
  fix g
  assume g: "m_guard v = Some g"
  have "holds m = Some (k, m_sequenceId m)" using assms(1,2) by (simp add: holds_def)
  then show "\<exists>g'. m_guard (snd (snd r)) = Some g' \<and>
      effect (pid_seq v) g (holds m) (pid_seq (snd (snd r))) g' (holds (fst (snd r)))"
    using releaseHeld_env [OF g assms(4)] assms(3,5,6) by (auto intro: effect.released)
qed

lemma sbo_ok_armed: "sbo_ok n m \<Longrightarrow> m_state m = Armed \<Longrightarrow> \<exists>k. m_heldKey m = Some k"
  by (auto simp: sbo_ok_def)

lemma effect_forceAbort:
  assumes "sbo_ok n m"
  shows "guard_effect m v (snd (forceAbort reason m v))"
proof (cases "m_state m = Armed")
  case True
  with assms obtain k where "m_heldKey m = Some k" using sbo_ok_armed by blast
  then show ?thesis
    by (rule guard_effect_release [OF True, where m' = "m\<lparr>m_armedTimer := timer_stop (m_armedTimer m),
          m_execTimer := timer_stop (m_execTimer m)\<rparr>"])
      (use True \<open>m_heldKey m = Some k\<close> in
        \<open>simp_all add: forceAbort_def Let_def case_prod_beta transitionTo_def holds_def forget_def\<close>)
next
  case False
  then show ?thesis by (intro guard_effect_same) (simp_all add: forceAbort_def holds_def forget_def)
qed

lemma effect_onArmedTimeout:
  assumes "sbo_ok n m"
  shows "guard_effect m v (snd (onArmedTimeout m v))"
proof (cases "m_state m = Armed")
  case True
  with assms obtain k where "m_heldKey m = Some k" using sbo_ok_armed by blast
  then show ?thesis
    by (rule guard_effect_release [OF True, where m' = m])
      (use True \<open>m_heldKey m = Some k\<close> in
        \<open>simp_all add: onArmedTimeout_def Let_def case_prod_beta transitionTo_def holds_def\<close>)
next
  case False
  then show ?thesis by (intro guard_effect_same) (simp_all add: onArmedTimeout_def)
qed

lemma effect_submitOperate:
  assumes "sbo_ok n m"
  shows "guard_effect m v (snd (submitOperate seq m v))"
proof (cases "m_state m = Armed \<and> seq = m_sequenceId m")
  case True
  with assms obtain k where "m_heldKey m = Some k" using sbo_ok_armed by blast
  then show ?thesis
    by (rule guard_effect_release [OF conjunct1 [OF True], where m' = "m\<lparr>m_armedTimer := timer_stop (m_armedTimer m),
          m_state := Executed, m_execTimer := timer_start (m_execTimer m)\<rparr>"])
      (use True \<open>m_heldKey m = Some k\<close> in
        \<open>simp_all add: submitOperate_def Let_def case_prod_beta transitionTo_def holds_def\<close>)
next
  case False
  then show ?thesis by (intro guard_effect_same) (auto simp: submitOperate_def)
qed

lemma effect_submitCancel:
  "sbo_ok n m \<Longrightarrow> guard_effect m v (snd (submitCancel seq m v))"
  using effect_forceAbort [of n m v "''user_cancel''"]
  by (auto simp: submitCancel_def case_prod_beta intro: guard_effect_same)

lemma holds_timer [simp]:
  "holds (m\<lparr>m_armedTimer := t\<rparr>) = holds m" "holds (m\<lparr>m_flappingTimer := t\<rparr>) = holds m"
  "holds (m\<lparr>m_execTimer := t\<rparr>) = holds m" "holds (m\<lparr>m_linkConnected := b\<rparr>) = holds m"
  by (simp_all add: holds_def)

lemma guard_effect_holds: "holds m' = holds m \<Longrightarrow> guard_effect m' v r = guard_effect m v r"
  by (simp add: guard_effect_def)

text \<open>The slots of the timers see the machine after its timer has stopped.\<close>

lemma effect_timers:
  assumes "sbo_ok n m"
  shows "guard_effect m v (snd (onArmedTimeout (m\<lparr>m_armedTimer := timer_stop (m_armedTimer m)\<rparr>) v))"
    and "guard_effect m v (snd (onFlappingTimeout (m\<lparr>m_flappingTimer := timer_stop (m_flappingTimer m)\<rparr>) v))"
    and "guard_effect m v (snd (onExecutingTimeout (m\<lparr>m_execTimer := timer_stop (m_execTimer m)\<rparr>) v))"
proof -
  show "guard_effect m v (snd (onArmedTimeout (m\<lparr>m_armedTimer := timer_stop (m_armedTimer m)\<rparr>) v))"
  proof (cases "m_state m = Armed")
    case True
    with assms obtain k where "m_heldKey m = Some k" using sbo_ok_armed by blast
    then show ?thesis
      by (rule guard_effect_release [OF True, where m' = "m\<lparr>m_armedTimer := timer_stop (m_armedTimer m)\<rparr>"])
        (use True \<open>m_heldKey m = Some k\<close> in
          \<open>simp_all add: onArmedTimeout_def Let_def case_prod_beta transitionTo_def holds_def\<close>)
  next
    case False
    then show ?thesis by (intro guard_effect_same) (simp_all add: onArmedTimeout_def)
  qed
  have "sbo_ok n (m\<lparr>m_flappingTimer := timer_stop (m_flappingTimer m)\<rparr>)"
    using assms by (simp add: sbo_ok_def)
  from effect_forceAbort [OF this, of v "''link_down''"]
  show "guard_effect m v (snd (onFlappingTimeout (m\<lparr>m_flappingTimer := timer_stop (m_flappingTimer m)\<rparr>) v))"
    by (auto simp: onFlappingTimeout_def guard_effect_holds [OF holds_timer(2)] intro: guard_effect_same)
  show "guard_effect m v (snd (onExecutingTimeout (m\<lparr>m_execTimer := timer_stop (m_execTimer m)\<rparr>) v))"
    by (intro guard_effect_same)
      (simp_all add: onExecutingTimeout_def transitionTo_def holds_def forget_def)
qed

lemma step_effect:
  assumes "sbo_ok (pid_seq v) m"
  shows "guard_effect m v (sbo_step ev m v)"
proof (cases ev)
  case (Select req opr now)
  then show ?thesis
    using step_select [OF _ assms, of _ req opr now]
    by (simp add: guard_effect_def) (metis prod.collapse)
next
  case (DeviceAck seq ok reason)
  then show ?thesis
    by (intro guard_effect_same) (auto simp: onDeviceAck_def Let_def case_prod_beta transitionTo_def holds_def forget_def)
next
  case (LinkStatus isUp)
  then show ?thesis by (intro guard_effect_same) (auto simp: onLinkStatusChanged_def Let_def)
next
  case (ForceLinkDown ms)
  then show ?thesis by (intro guard_effect_same) (auto simp: forceLinkDownForTest_def)
qed (use effect_submitOperate [OF assms] effect_submitCancel [OF assms] effect_timers [OF assms]
    effect_onArmedTimeout [OF assms] in \<open>auto intro: guard_effect_same\<close>)

section \<open>Every step keeps a machine well-formed\<close>

lemma sbo_ok_mono: "sbo_ok n m \<Longrightarrow> n \<le> k \<Longrightarrow> sbo_ok k m"
  unfolding sbo_ok_def by (meson order_less_le_trans)

lemma pid_releaseHeld [simp]: "pid_seq (snd (releaseHeld m v)) = pid_seq v"
  by (simp add: releaseHeld_def case_prod_beta split: option.split)

lemma timer_simps [simp]:
  "tm_active (timer_start t)" "tm_active (timer_start_ms t ms)" "tm_interval (timer_start t) = tm_interval t"
  "tm_interval (timer_stop t) = tm_interval t" "tm_interval (timer_start_ms t ms) = ms"
  by (simp_all add: timer_start_def timer_stop_def timer_start_ms_def)

lemma pid_forceAbort [simp]: "pid_seq (snd (snd (snd (forceAbort reason m v)))) = pid_seq v"
  by (simp add: forceAbort_def Let_def case_prod_beta transitionTo_def)

lemma ok_forceAbort: "sbo_ok n m \<Longrightarrow> sbo_ok n (fst (snd (snd (forceAbort reason m v))))"
  by (auto simp: forceAbort_def Let_def case_prod_beta transitionTo_def sbo_ok_def forget_def)

lemma ok_onArmedTimeout:
  "sbo_ok n m \<Longrightarrow> sbo_ok n (fst (snd (snd (onArmedTimeout m v)))) \<and>
     pid_seq (snd (snd (snd (onArmedTimeout m v)))) = pid_seq v"
  by (auto simp: onArmedTimeout_def Let_def case_prod_beta transitionTo_def sbo_ok_def forget_def)

text \<open>An armed machine whose timer has just stopped leaves the armed state in its slot.\<close>

lemma ok_armed_fires:
  "sbo_ok n m \<Longrightarrow>
   sbo_ok n (fst (snd (snd (onArmedTimeout (m\<lparr>m_armedTimer := timer_stop (m_armedTimer m)\<rparr>) v)))) \<and>
   pid_seq (snd (snd (snd (onArmedTimeout (m\<lparr>m_armedTimer := timer_stop (m_armedTimer m)\<rparr>) v)))) = pid_seq v"
  by (auto simp: onArmedTimeout_def Let_def case_prod_beta transitionTo_def sbo_ok_def forget_def)

lemma ok_exec_fires:
  "sbo_ok n m \<Longrightarrow>
   sbo_ok n (fst (snd (snd (onExecutingTimeout (m\<lparr>m_execTimer := timer_stop (m_execTimer m)\<rparr>) v)))) \<and>
   pid_seq (snd (snd (snd (onExecutingTimeout (m\<lparr>m_execTimer := timer_stop (m_execTimer m)\<rparr>) v)))) = pid_seq v"
  by (auto simp: onExecutingTimeout_def Let_def case_prod_beta transitionTo_def sbo_ok_def forget_def)

lemma ok_flapping_fires:
  assumes "sbo_ok n m"
  shows "sbo_ok n (fst (snd (snd (onFlappingTimeout (m\<lparr>m_flappingTimer := timer_stop (m_flappingTimer m)\<rparr>) v)))) \<and>
   pid_seq (snd (snd (snd (onFlappingTimeout (m\<lparr>m_flappingTimer := timer_stop (m_flappingTimer m)\<rparr>) v)))) = pid_seq v"
proof -
  have "sbo_ok n (m\<lparr>m_flappingTimer := timer_stop (m_flappingTimer m)\<rparr>)"
    using assms by (simp add: sbo_ok_def)
  then show ?thesis using ok_forceAbort by (simp add: onFlappingTimeout_def)
qed

lemma ok_submitOperate:
  "sbo_ok n m \<Longrightarrow> sbo_ok n (fst (snd (snd (submitOperate seq m v)))) \<and>
     pid_seq (snd (snd (snd (submitOperate seq m v)))) = pid_seq v"
  by (auto simp: submitOperate_def Let_def case_prod_beta transitionTo_def sbo_ok_def)

lemma ok_submitCancel:
  "sbo_ok n m \<Longrightarrow> sbo_ok n (fst (snd (snd (submitCancel seq m v)))) \<and>
     pid_seq (snd (snd (snd (submitCancel seq m v)))) = pid_seq v"
  using ok_forceAbort [of n m "''user_cancel''" v]
  by (auto simp: submitCancel_def case_prod_beta)

lemma ok_onDeviceAck:
  "sbo_ok n m \<Longrightarrow> sbo_ok n (fst (snd (snd (onDeviceAck seq ok reason m v)))) \<and>
     pid_seq (snd (snd (snd (onDeviceAck seq ok reason m v)))) = pid_seq v"
  by (auto simp: onDeviceAck_def Let_def case_prod_beta transitionTo_def sbo_ok_def forget_def)

lemma ok_links:
  "sbo_ok n m \<Longrightarrow> sbo_ok n (fst (snd (snd (onLinkStatusChanged up m v))))"
  "sbo_ok n m \<Longrightarrow> sbo_ok n (fst (snd (snd (forceLinkDownForTest ms m v))))"
  "pid_seq (snd (snd (snd (onLinkStatusChanged up m v)))) = pid_seq v"
  "pid_seq (snd (snd (snd (forceLinkDownForTest ms m v)))) = pid_seq v"
  by (simp_all add: onLinkStatusChanged_def forceLinkDownForTest_def sbo_ok_def Let_def)

lemma ok_submitSelect:
  assumes "sbo_ok (pid_seq v) m"
  shows "sbo_ok (pid_seq (snd (snd (snd (submitSelect req opr now m v)))))
      (fst (snd (snd (submitSelect req opr now m v)))) \<and>
    pid_seq v \<le> pid_seq (snd (snd (snd (submitSelect req opr now m v))))"
proof (cases "m_state m = Idle")
  case True
  with assms show ?thesis
    by (auto simp: submitSelect_def Let_def case_prod_beta enterArmedState_def transitionTo_def sbo_ok_def
        cmd_key_def req_key_def split: option.split)
next
  case False
  with sbo_ok_mono [OF assms, of "Suc (pid_seq v)"] assms show ?thesis
    by (auto simp: submitSelect_def Let_def case_prod_beta split: option.split)
qed

lemma step_ok:
  assumes "sbo_ok (pid_seq v) m"
  shows "sbo_ok (pid_seq (snd (snd (sbo_step ev m v)))) (fst (snd (sbo_step ev m v))) \<and>
    pid_seq v \<le> pid_seq (snd (snd (sbo_step ev m v)))"
  using assms ok_submitSelect [OF assms] ok_submitOperate [OF assms] ok_submitCancel [OF assms]
    ok_onDeviceAck [OF assms] ok_links(1,2) [OF assms] ok_links(3,4) ok_armed_fires [OF assms] ok_exec_fires [OF assms]
    ok_flapping_fires [OF assms] ok_onArmedTimeout [OF assms]
  by (cases ev) simp_all

section \<open>Systems of machines\<close>

text \<open>Every lock is held by the armed machine that believes to hold it, or by a refused
  select.\<close>

definition sbo_sys_inv :: "(nat \<Rightarrow> SboStateMachine) \<Rightarrow> SboEnv \<Rightarrow> bool" where
  "sbo_sys_inv ms v \<longleftrightarrow> (\<forall>i. sbo_ok (pid_seq v) (ms i)) \<and>
     (\<exists>g. m_guard v = Some g \<and> lock.owners_ok (\<lambda>i. holds (ms i)) g \<and>
       (\<forall>k s. guard_holder g k = Some s \<longrightarrow>
          (\<exists>i. holds (ms i) = Some (k, s)) \<or> (\<exists>n. s = rejected_id n)))"

lemma sys_effect:
  assumes owners: "lock.owners_ok own g"
    and names: "\<And>j k s. own j = Some (k, s) \<Longrightarrow> \<exists>n' < n. s = sequence_id n'"
    and held: "\<And>k s. guard_holder g k = Some s \<Longrightarrow>
      (\<exists>i. own i = Some (k, s)) \<or> (\<exists>n. s = rejected_id n)"
    and eff: "effect n g (own i) n' g' h"
  shows "lock.owners_ok (own(i := h)) g' \<and>
    (\<forall>k s. guard_holder g' k = Some s \<longrightarrow>
       (\<exists>j. (own(i := h)) j = Some (k, s)) \<or> (\<exists>n. s = rejected_id n))"
  using eff
proof cases
  case none
  then show ?thesis using owners held by (simp add: fun_upd_idem)
next
  case refused
  then show ?thesis using owners held by (simp add: fun_upd_idem)
next
  case (rejected k x)
  have "guard_holder g' k' = guard_holder g k' \<or> guard_holder g' k' = Some (rejected_id n)" for k'
    using lock.try_free [of g k "rejected_id n" x] lock.try_busy [of g k _ "rejected_id n" x] rejected
    by (cases "guard_holder g k") auto
  then have "\<forall>k s. guard_holder g' k = Some s \<longrightarrow> (\<exists>j. own j = Some (k, s)) \<or> (\<exists>n. s = rejected_id n)"
    using held by (metis option.inject)
  then show ?thesis
    using rejected lock.owners_ok_try_other [OF owners] by (simp add: fun_upd_idem)
next
  case (acquired k x)
  have fresh: "own j \<noteq> Some (k', sequence_id n)" for j k'
    using names [of j k' "sequence_id n"] by auto
  have "guard_holder g k = None"
    using lock.try_busy [of g k _ "sequence_id n" x] acquired(4) by (cases "guard_holder g k") auto
  then have "guard_holder g' = (guard_holder g)(k \<mapsto> sequence_id n)"
    using lock.try_free [of g k "sequence_id n" x] acquired(4) by simp
  then have "\<forall>k' s. guard_holder g' k' = Some s \<longrightarrow>
      (\<exists>j. (own(i := h)) j = Some (k', s)) \<or> (\<exists>n. s = rejected_id n)"
    using held acquired(1,3) by (auto split: if_splits) (metis option.distinct(1))
  then show ?thesis
    using lock.owners_ok_try [OF owners acquired(1) fresh, of k x] acquired by simp
next
  case (released k s)
  have mine: "guard_holder g k = Some s"
    using owners released(1) by (simp add: lock.owners_ok_def)
  then have "guard_holder g' = (guard_holder g)(k := None)" using lock.rel_own released by simp
  then have "\<forall>k' s'. guard_holder g' k' = Some s' \<longrightarrow>
      (\<exists>j. (own(i := h)) j = Some (k', s')) \<or> (\<exists>n. s' = rejected_id n)"
    using held released(1,3) by (auto split: if_splits) (metis option.inject prod.inject)
  then show ?thesis
    using lock.owners_ok_rel [OF owners released(1)] released by simp
qed

lemma holds_named:
  "sbo_ok n m \<Longrightarrow> holds m = Some (k, s) \<Longrightarrow> \<exists>n' < n. s = sequence_id n'"
  by (auto simp: holds_def sbo_ok_def split: if_splits)

lemma sbo_reach_inv: "sbo_reach ms v \<Longrightarrow> sbo_sys_inv ms v"
proof (induction rule: sbo_reach.induct)
  case init
  show ?case
    by (simp add: sbo_sys_inv_def sbo_ok_new guard_new_def guard_holder_def lock.owners_ok_def holds_def)
      (simp add: sbo_new_def)
next
  case (step ms v ev i sigs m' v')
  from step.IH obtain g where g: "m_guard v = Some g" and ok: "\<And>j. sbo_ok (pid_seq v) (ms j)"
    and owners: "lock.owners_ok (\<lambda>j. holds (ms j)) g"
    and held: "\<And>k s. guard_holder g k = Some s \<Longrightarrow> (\<exists>j. holds (ms j) = Some (k, s)) \<or> (\<exists>n. s = rejected_id n)"
    unfolding sbo_sys_inv_def by blast
  have r: "sbo_step ev (ms i) v = (sigs, m', v')" by (rule step.hyps)
  from step_effect [OF ok [of i], of ev] g r obtain g' where g': "m_guard v' = Some g'"
    and eff: "effect (pid_seq v) g (holds (ms i)) (pid_seq v') g' (holds m')"
    unfolding guard_effect_def by auto
  have own: "(\<lambda>j. holds ((ms(i := m')) j)) = (\<lambda>j. holds (ms j))(i := holds m')" by auto
  have sys: "lock.owners_ok (\<lambda>j. holds ((ms(i := m')) j)) g' \<and>
      (\<forall>k s. guard_holder g' k = Some s \<longrightarrow>
        (\<exists>j. holds ((ms(i := m')) j) = Some (k, s)) \<or> (\<exists>n. s = rejected_id n))"
    using sys_effect [OF owners _ held eff, unfolded own [symmetric]] holds_named [OF ok] by simp
  have le: "pid_seq v \<le> pid_seq v'" and okm: "sbo_ok (pid_seq v') m'"
    using step_ok [OF ok [of i], of ev] r by simp_all
  have "sbo_ok (pid_seq v') ((ms(i := m')) j)" for j
    using okm sbo_ok_mono [OF ok le] by simp
  with sys g' show ?case unfolding sbo_sys_inv_def by blast
qed

text \<open>A list of events, each at one machine, played from a system.\<close>

definition sbo_play ::
  "(nat \<times> SboEvent) list \<Rightarrow> (nat \<Rightarrow> SboStateMachine) \<times> SboEnv \<Rightarrow> (nat \<Rightarrow> SboStateMachine) \<times> SboEnv" where
  "sbo_play evs st = fold (\<lambda>(i, ev) (ms, v). (ms(i := fst (snd (sbo_step ev (ms i) v))), snd (snd (sbo_step ev (ms i) v)))) evs st"

lemma sbo_play_simps [simp]:
  "sbo_play [] st = st"
  "sbo_play ((i, ev) # evs) (ms, v) =
     sbo_play evs (ms(i := fst (snd (sbo_step ev (ms i) v))), snd (snd (sbo_step ev (ms i) v)))"
  by (simp_all add: sbo_play_def)

lemma sbo_play_snoc:
  "sbo_play (evs @ [(i, ev)]) st =
     (case sbo_play evs st of (ms, v) \<Rightarrow>
        (ms(i := fst (snd (sbo_step ev (ms i) v))), snd (snd (sbo_step ev (ms i) v))))"
  by (simp add: sbo_play_def split: prod.split)

definition sbo_start :: "(nat \<Rightarrow> SboStateMachine) \<times> SboEnv" where
  "sbo_start = (\<lambda>_. sbo_new, \<lparr>m_guard = Some guard_new, pid_seq = 0\<rparr>)"

lemma sbo_reach_play: "sbo_play evs sbo_start = (ms, v) \<Longrightarrow> sbo_reach ms v"
proof (induction evs arbitrary: ms v rule: rev_induct)
  case Nil
  then show ?case by (auto simp: sbo_start_def intro: sbo_reach.init)
next
  case (snoc x evs)
  obtain i ev where x: "x = (i, ev)" by fastforce
  obtain ms0 v0 where play: "sbo_play evs sbo_start = (ms0, v0)" by fastforce
  have "sbo_reach ms0 v0" by (rule snoc.IH [OF play])
  moreover obtain sigs m' v' where step: "sbo_step ev (ms0 i) v0 = (sigs, m', v')" using prod_cases3 by blast
  ultimately show ?case
    using snoc.prems unfolding x sbo_play_snoc play by (auto intro: sbo_reach.step)
qed

text \<open>A lock taken in the name of a refused select is never given back.\<close>

lemma effect_keeps_rejected:
  assumes "effect n g h n' g' h'" and "guard_holder g k = Some (rejected_id r)"
    and "\<And>k s. h = Some (k, s) \<Longrightarrow> \<exists>j < n. s = sequence_id j"
  shows "guard_holder g' k = Some (rejected_id r)"
  using assms(1)
proof cases
  case (rejected k' x)
  then show ?thesis using lock.kept_try [OF assms(2), of k' "rejected_id n" x] by simp
next
  case (acquired k' x)
  then show ?thesis using lock.kept_try [OF assms(2), of k' "sequence_id n" x] by simp
next
  case (released k' s)
  then have "s \<noteq> rejected_id r" using assms(3) [of k' s] by auto
  then show ?thesis using lock.kept_rel [OF assms(2)] released by simp
qed (use assms(2) in simp_all)

lemma play_keeps_rejected:
  assumes "sbo_reach ms v" and "m_guard v = Some g" and "guard_holder g k = Some (rejected_id r)"
    and "sbo_play evs (ms, v) = (ms', v')"
  shows "\<exists>g'. m_guard v' = Some g' \<and> guard_holder g' k = Some (rejected_id r)"
  using assms
proof (induction evs arbitrary: ms v g)
  case Nil
  then show ?case by simp
next
  case (Cons x evs)
  obtain i ev where x: "x = (i, ev)" by fastforce
  obtain sigs m1 v1 where step: "sbo_step ev (ms i) v = (sigs, m1, v1)" using prod_cases3 by blast
  have ok: "sbo_ok (pid_seq v) (ms i)"
    using sbo_reach_inv [OF Cons.prems(1)] by (simp add: sbo_sys_inv_def)
  from step_effect [OF ok, of ev] Cons.prems(2) step obtain g1 where g1: "m_guard v1 = Some g1"
    and eff: "effect (pid_seq v) g (holds (ms i)) (pid_seq v1) g1 (holds m1)"
    by (auto simp: guard_effect_def)
  have "guard_holder g1 k = Some (rejected_id r)"
    by (rule effect_keeps_rejected [OF eff Cons.prems(3) holds_named [OF ok]])
  moreover have "sbo_reach (ms(i := m1)) v1" by (rule sbo_reach.step [OF Cons.prems(1) step])
  moreover have "sbo_play evs (ms(i := m1), v1) = (ms', v')" using Cons.prems(4) step x by simp
  ultimately show ?case using Cons.IH g1 by blast
qed

section \<open>Properties\<close>

lemma sbo_armed_owner:
  assumes "sbo_reach ms v" and "m_state (ms i) = Armed" and "m_heldKey (ms i) = Some k"
  shows "(\<exists>g. m_guard v = Some g \<and> guard_holder g k = Some (m_sequenceId (ms i))) \<and>
    (\<forall>j. m_state (ms j) = Armed \<longrightarrow> m_heldKey (ms j) = Some k \<longrightarrow> j = i)"
proof -
  from sbo_reach_inv [OF assms(1)] obtain g where g: "m_guard v = Some g"
    and owners: "lock.owners_ok (\<lambda>i. holds (ms i)) g"
    unfolding sbo_sys_inv_def by blast
  have h: "holds (ms i) = Some (k, m_sequenceId (ms i))" using assms(2,3) by (simp add: holds_def)
  have "j = i" if "m_state (ms j) = Armed" "m_heldKey (ms j) = Some k" for j
    using lock.mutual_exclusion [OF owners _ h] that by (simp add: holds_def)
  moreover have "guard_holder g k = Some (m_sequenceId (ms i))"
    using owners h by (simp add: lock.owners_ok_def)
  ultimately show ?thesis using g by blast
qed
text \<open>Property C4: two machines on one guard are never armed on the same device register at
  once, and the key of an armed machine is held in the guard under the machine's own sequence.\<close>

theorem sbo_mutual_exclusion:
  assumes "sbo_reach ms v" and "m_state (ms i) = Armed" and "m_heldKey (ms i) = Some k"
  shows "(\<exists>g. m_guard v = Some g \<and> guard_holder g k = Some (m_sequenceId (ms i))) \<and>
    (\<forall>j. m_state (ms j) = Armed \<longrightarrow> m_heldKey (ms j) = Some k \<longrightarrow> j = i)"
  using assms by (rule sbo_armed_owner)

definition demo_req :: SboSelectRequest where
  "demo_req = \<lparr>sr_linkId = 1, sr_slaveId = 7, sr_registerAddr = 40, sr_value = 1, sr_emergency = False\<rparr>"

lemmas sbo_eval = sbo_start_def sbo_new_def guard_new_def submitSelect_def submitOperate_def
  enterArmedState_def transitionTo_def timer_start_ms_def timer_stop_def timer_start_def tryAcquire_def
  demo_req_def req_key_def onLinkStatusChanged_def onFlappingTimeout_def forceAbort_def forget_def releaseHeld_def
  guard_release_def Let_def

theorem sbo_mutual_exclusion_witness:
  "\<exists>ms v. sbo_reach ms v \<and> m_state (ms 0) = Armed \<and> m_heldKey (ms 0) = Some (req_key demo_req) \<and>
    (\<exists>g. m_guard v = Some g \<and> guard_holder g (req_key demo_req) = Some (sequence_id 0)) \<and>
    (\<forall>j. m_state (ms j) = Armed \<longrightarrow> m_heldKey (ms j) = Some (req_key demo_req) \<longrightarrow> j = 0)"
proof -
  obtain ms v where play: "sbo_play [(0, Select demo_req ''op'' 10)] sbo_start = (ms, v)" by fastforce
  have st: "m_state (ms 0) = Armed" "m_heldKey (ms 0) = Some (req_key demo_req)" "m_sequenceId (ms 0) = sequence_id 0"
    using play by (auto simp: sbo_eval)
  from sbo_mutual_exclusion [OF sbo_reach_play [OF play] st(1,2)] sbo_reach_play [OF play] st show ?thesis
    by auto
qed

text \<open>A select refused because the machine is busy, on a register that was free,
  takes the register's lock under the name \<open>rejected-N\<close>, and no later sequence of events at
  any machine gives that lock back: every later select on the register, by any machine, is
  refused.\<close>

theorem sbo_rejected_select_leaks:
  assumes "sbo_reach ms v" and "m_state (ms i) \<noteq> Idle"
    and "m_guard v = Some g" and "guard_holder g (req_key req) = None"
    and "submitSelect req opr now (ms i) v = (ok, sigs, m1, v1)"
  shows "\<not> ok \<and> m1 = ms i \<and>
    (\<forall>evs ms' v'. sbo_play evs (ms(i := m1), v1) = (ms', v') \<longrightarrow>
       (\<exists>g'. m_guard v' = Some g' \<and> guard_holder g' (req_key req) = Some (rejected_id (pid_seq v))) \<and>
       (\<forall>j opr' now' req'. req_key req' = req_key req \<longrightarrow> \<not> fst (submitSelect req' opr' now' (ms' j) v')))"
proof -
  have r: "\<not> ok" "m1 = ms i"
    using assms(2,3,5) by (auto simp: submitSelect_def Let_def case_prod_beta)
  let ?r = "rejected_id (pid_seq v)"
  obtain g1 where g1: "m_guard v1 = Some g1" "guard_holder g1 (req_key req) = Some ?r"
    using assms(2-5) by (auto simp: submitSelect_def Let_def case_prod_beta tryAcquire_def guard_holder_def)
  have reach: "sbo_reach (ms(i := m1)) v1"
    by (rule sbo_reach.step [OF assms(1), of "Select req opr now" i sigs]) (simp add: assms(5))
  have refused: "\<not> fst (submitSelect req' opr' now' m v')"
    if "m_guard v' = Some g'" "guard_holder g' (req_key req) = Some ?r" "req_key req' = req_key req"
    for g' v' req' opr' now' m
    using that by (auto simp: submitSelect_def Let_def case_prod_beta tryAcquire_def guard_holder_def split: option.split)
  show ?thesis using r play_keeps_rejected [OF reach g1] refused by blast
qed

definition demo_req2 :: SboSelectRequest where
  "demo_req2 = demo_req\<lparr>sr_slaveId := 8\<rparr>"

theorem sbo_rejected_select_leaks_witness:
  "\<exists>ms v m1 v1 sigs. sbo_reach ms v \<and> m_state (ms 0) = Armed \<and>
    submitSelect demo_req2 ''op'' 20 (ms 0) v = (False, sigs, m1, v1) \<and>
    (\<forall>evs ms' v'. sbo_play evs (ms(0 := m1), v1) = (ms', v') \<longrightarrow>
      \<not> fst (submitSelect demo_req2 ''other'' 99 (ms' 5) v'))"
proof -
  obtain ms v where play: "sbo_play [(0, Select demo_req ''op'' 10)] sbo_start = (ms, v)" by fastforce
  have st: "m_state (ms 0) = Armed" "\<exists>g. m_guard v = Some g \<and> guard_holder g (req_key demo_req2) = None"
    using play by (auto simp: sbo_eval demo_req2_def guard_holder_def)
  then obtain g where g: "m_guard v = Some g" "guard_holder g (req_key demo_req2) = None" by blast
  obtain ok sigs m1 v1 where r: "submitSelect demo_req2 ''op'' 20 (ms 0) v = (ok, sigs, m1, v1)"
    using prod_cases4 by blast
  have "m_state (ms 0) \<noteq> Idle" using st(1) by simp
  note leak = sbo_rejected_select_leaks [OF sbo_reach_play [OF play] this g r]
  then have "\<forall>evs ms' v'. sbo_play evs (ms(0 := m1), v1) = (ms', v') \<longrightarrow>
      \<not> fst (submitSelect demo_req2 ''other'' 99 (ms' 5) v')" by blast
  moreover have "submitSelect demo_req2 ''op'' 20 (ms 0) v = (False, sigs, m1, v1)" using leak r by simp
  ultimately show ?thesis using sbo_reach_play [OF play] st(1) by blast
qed

text \<open>In every reachable system a lock of the guard is held by exactly the armed
  machine whose sequence it names, or by a refused select: no lock outlives its command in any
  other way.\<close>

theorem sbo_lock_accounting:
  assumes "sbo_reach ms v" and "m_guard v = Some g" and "g k = Some occ"
  shows "(\<exists>i. m_state (ms i) = Armed \<and> m_heldKey (ms i) = Some k \<and> m_sequenceId (ms i) = oc_sequenceId occ) \<or>
    (\<exists>n. oc_sequenceId occ = rejected_id n)"
proof -
  have "guard_holder g k = Some (oc_sequenceId occ)" using assms(3) by (simp add: guard_holder_def)
  with sbo_reach_inv [OF assms(1)] assms(2)
  consider i where "holds (ms i) = Some (k, oc_sequenceId occ)" | n where "oc_sequenceId occ = rejected_id n"
    unfolding sbo_sys_inv_def by force
  then show ?thesis by cases (auto simp: holds_def split: if_splits)
qed

theorem sbo_lock_accounting_witness:
  "\<exists>ms v g occ. sbo_reach ms v \<and> m_guard v = Some g \<and> g (req_key demo_req) = Some occ \<and>
    ((\<exists>i. m_state (ms i) = Armed \<and> m_heldKey (ms i) = Some (req_key demo_req) \<and>
        m_sequenceId (ms i) = oc_sequenceId occ) \<or> (\<exists>n. oc_sequenceId occ = rejected_id n))"
proof -
  obtain ms v where play: "sbo_play [(0, Select demo_req ''op'' 10)] sbo_start = (ms, v)" by fastforce
  have "\<exists>g occ. m_guard v = Some g \<and> g (req_key demo_req) = Some occ"
    using play by (auto simp: sbo_eval)
  then obtain g occ where "m_guard v = Some g" "g (req_key demo_req) = Some occ" by blast
  with sbo_lock_accounting [OF sbo_reach_play [OF play] this] sbo_reach_play [OF play] show ?thesis by blast
qed

text \<open>Property C12: a machine is never stuck outside \<open>Idle\<close>. Every reachable machine is idle,
  armed or executed; an armed one runs its timer, 3000 ms for an emergency and 5000 ms otherwise,
  and when it fires the machine is idle and its register is free; an executed one runs its
  2000 ms timer, and when that fires the machine is idle.\<close>

theorem sbo_never_stuck:
  assumes "sbo_reach ms v"
  shows "m_state (ms i) = Idle \<or>
    m_state (ms i) = Armed \<and> tm_active (m_armedTimer (ms i)) \<and> tm_interval (m_armedTimer (ms i)) \<in> {3000, 5000} \<and>
      (case sbo_step ArmedTimerFires (ms i) v of (sigs, m', v') \<Rightarrow>
        m_state m' = Idle \<and> m_heldKey m' = None \<and>
        (\<exists>k g'. m_heldKey (ms i) = Some k \<and> m_guard v' = Some g' \<and> g' k = None)) \<or>
    m_state (ms i) = Executed \<and> tm_active (m_execTimer (ms i)) \<and> tm_interval (m_execTimer (ms i)) = 2000 \<and>
      (case sbo_step ExecTimerFires (ms i) v of (sigs, m', v') \<Rightarrow> m_state m' = Idle \<and> m_heldKey m' = None)"
proof -
  have inv: "sbo_sys_inv ms v" by (rule sbo_reach_inv [OF assms])
  then have ok: "sbo_ok (pid_seq v) (ms i)" by (simp add: sbo_sys_inv_def)
  then consider "m_state (ms i) = Idle" | "m_state (ms i) = Executed"
    | k where "m_state (ms i) = Armed" "m_heldKey (ms i) = Some k"
    by (auto simp: sbo_ok_def)
  then show ?thesis
  proof cases
    case 1
    then show ?thesis by blast
  next
    case 2
    with ok show ?thesis
      by (simp add: sbo_ok_def onExecutingTimeout_def transitionTo_def forget_def)
  next
    case 3
    from inv obtain g where g: "m_guard v = Some g" and owners: "lock.owners_ok (\<lambda>i. holds (ms i)) g"
      unfolding sbo_sys_inv_def by blast
    have "holds (ms i) = Some (k, m_sequenceId (ms i))" using 3 by (simp add: holds_def)
    then have "guard_holder g k = Some (m_sequenceId (ms i))" using owners by (simp add: lock.owners_ok_def)
    then obtain occ where "g k = Some occ" "oc_sequenceId occ = m_sequenceId (ms i)"
      by (auto simp: guard_holder_def)
    with 3 ok g show ?thesis
      by (simp add: sbo_ok_def onArmedTimeout_def releaseHeld_def guard_release_def transitionTo_def forget_def)
  qed
qed

theorem sbo_never_stuck_witness:
  "\<exists>ms v. sbo_reach ms v \<and> m_state (ms 0) = Armed \<and> tm_active (m_armedTimer (ms 0))"
proof -
  obtain ms v where play: "sbo_play [(0, Select demo_req ''op'' 10)] sbo_start = (ms, v)" by fastforce
  have "m_state (ms 0) = Armed" using play by (auto simp: sbo_eval)
  with sbo_never_stuck [OF sbo_reach_play [OF play], of 0] sbo_reach_play [OF play] show ?thesis by auto
qed

text \<open>When the flapping timer of a machine that waits for a device acknowledgement
  fires on a broken link, the machine forgets its sequence without leaving \<open>Executed\<close>; from
  then on every acknowledgement with a sequence is ignored, and the execution timer ends the
  command with a failure that names no sequence.\<close>

theorem sbo_link_down_loses_ack:
  assumes "m_state m = Executed" and "\<not> m_linkConnected m" and "tm_active (m_flappingTimer m)"
    and "sbo_step FlappingTimerFires m v = (sigs, m1, v1)" and "seq \<noteq> []"
  shows "sigs = [] \<and> m_state m1 = Executed \<and> m_sequenceId m1 = [] \<and>
    sbo_step (DeviceAck seq ok reason) m1 v1 = ([], m1, v1) \<and>
    (tm_active (m_execTimer m1) \<longrightarrow>
      fst (sbo_step ExecTimerFires m1 v1) =
        [executingFailed [] (deviceName m1) ''device_ack_timeout'', sboStateChanged Idle])"
  using assms
  by (auto simp: onFlappingTimeout_def forceAbort_def forget_def onDeviceAck_def onExecutingTimeout_def
      transitionTo_def deviceName_def)

theorem sbo_link_down_loses_ack_witness:
  "\<exists>ms v m1 v1. sbo_reach ms v \<and> sbo_step FlappingTimerFires (ms 0) v = ([], m1, v1) \<and>
    m_state m1 = Executed \<and>
    sbo_step (DeviceAck (m_sequenceId (ms 0)) True []) m1 v1 = ([], m1, v1)"
proof -
  let ?evs = "[(0, Select demo_req ''op'' 10), (0, Operate (sequence_id 0)), (0, LinkStatus False)]"
  obtain ms v where play: "sbo_play ?evs sbo_start = (ms, v)" by fastforce
  have st: "m_state (ms 0) = Executed" "\<not> m_linkConnected (ms 0)" "tm_active (m_flappingTimer (ms 0))"
    "m_sequenceId (ms 0) \<noteq> []"
    using play by (auto simp: sbo_eval sequence_id_def)
  obtain sigs m1 v1 where step: "sbo_step FlappingTimerFires (ms 0) v = (sigs, m1, v1)" using prod_cases3 by blast
  from sbo_link_down_loses_ack [OF st(1-3) step st(4)] step sbo_reach_play [OF play] show ?thesis
    by blast
qed

text \<open>Property C3: a command goes out to the device only by an operate request that names the
  sequence of an armed machine, which holds the lock of exactly the register the command
  writes; the machine is then executed, its timer runs, and the register is free again.\<close>

theorem sbo_command_only_when_armed:
  assumes "sbo_reach ms v" and "sbo_step ev (ms i) v = (sigs, m', v')" and "commandReady c \<in> set sigs"
  shows "ev = Operate (m_sequenceId (ms i)) \<and> m_state (ms i) = Armed \<and> c = m_pendingCommand (ms i) \<and>
    (\<exists>g g'. m_guard v = Some g \<and> guard_holder g (cmd_key c) = Some (m_sequenceId (ms i)) \<and>
       m_guard v' = Some g' \<and> guard_holder g' (cmd_key c) = None) \<and>
    m_state m' = Executed \<and> tm_active (m_execTimer m') \<and> \<not> tm_active (m_armedTimer m')"
proof -
  have ev: "ev = Operate (m_sequenceId (ms i)) \<and> m_state (ms i) = Armed"
  proof (cases ev)
    case (Select req opr now)
    then show ?thesis using assms(2,3)
      by (auto simp: submitSelect_def Let_def case_prod_beta enterArmedState_def transitionTo_def
          split: option.splits if_splits)
  next
    case (Operate seq)
    then show ?thesis using assms(2,3) by (auto simp: submitOperate_def split: if_splits)
  qed (use assms(2,3) in \<open>auto simp: submitCancel_def forceAbort_def releaseHeld_def guard_release_def
      onDeviceAck_def onLinkStatusChanged_def onArmedTimeout_def onFlappingTimeout_def onExecutingTimeout_def
      forceLinkDownForTest_def Let_def case_prod_beta transitionTo_def
      split: option.splits if_splits\<close>)
  have inv: "sbo_sys_inv ms v" by (rule sbo_reach_inv [OF assms(1)])
  then have ok: "sbo_ok (pid_seq v) (ms i)" by (simp add: sbo_sys_inv_def)
  let ?k = "cmd_key (m_pendingCommand (ms i))"
  have key: "m_heldKey (ms i) = Some ?k" using ok ev by (auto simp: sbo_ok_def)
  obtain g where g: "m_guard v = Some g" "guard_holder g ?k = Some (m_sequenceId (ms i))"
    using sbo_armed_owner [OF assms(1) conjunct2 [OF ev] key] by blast
  from g(1) assms(2,3) ev key show ?thesis
    using g(2) releaseHeld_env [of v g "ms i"] lock.rel_own [OF g(2)]
    by (auto simp: submitOperate_def Let_def case_prod_beta transitionTo_def timer_stop_def timer_start_def
        releaseHeld_def guard_rel_def)
qed

theorem sbo_command_only_when_armed_witness:
  "\<exists>ms v sigs m' v' c. sbo_reach ms v \<and> sbo_step (Operate (sequence_id 0)) (ms 0) v = (sigs, m', v') \<and>
    commandReady c \<in> set sigs \<and> m_state (ms 0) = Armed \<and> m_state m' = Executed"
proof -
  obtain ms v where play: "sbo_play [(0, Select demo_req ''op'' 10)] sbo_start = (ms, v)" by fastforce
  obtain sigs m' v' where step: "sbo_step (Operate (sequence_id 0)) (ms 0) v = (sigs, m', v')"
    using prod_cases3 by blast
  have "\<exists>c. commandReady c \<in> set sigs"
    using play step by (auto simp: sbo_eval)
  then obtain c where "commandReady c \<in> set sigs" by blast
  with sbo_command_only_when_armed [OF sbo_reach_play [OF play] step this] step sbo_reach_play [OF play]
  show ?thesis by blast
qed

end
