(* ===== verification/BizState.thy ===== *)
theory BizState
  imports Ens_Prelude
begin

text \<open>
  The station, device and point states, \<^verbatim>\<open>apps/ens_app/src/business/BusinessStateMachine.h\<close>
  and \<^verbatim>\<open>.cpp\<close>. Each operation runs under the mutex and is one function on the state; the
  signals it emits are returned in order. The hash maps are maps, the set of the points of a
  device is a set.
\<close>

section \<open>The code\<close>

datatype BusinessState = Config | Running | Stats

record DeviceRec =
  dv_stationId :: u32
  dv_state :: BusinessState
  dv_points :: "u32 set"

record BusinessStateMachine =
  m_stations :: "u32 \<rightharpoonup> BusinessState"
  m_devices :: "u32 \<rightharpoonup> DeviceRec"
  m_points :: "u32 \<rightharpoonup> u32 \<times> BusinessState"

datatype BizSignal = stateChanged u32 u32 u32 BusinessState BusinessState

definition biz_new :: BusinessStateMachine where
  "biz_new = \<lparr>m_stations = Map.empty, m_devices = Map.empty, m_points = Map.empty\<rparr>"

definition registerDevice ::
  "u32 \<Rightarrow> u32 \<Rightarrow> u32 list \<Rightarrow> BusinessStateMachine \<Rightarrow> BusinessStateMachine" where
  "registerDevice stationId deviceId points m =
     (let m1 = (if m_stations m stationId = None
                then m\<lparr>m_stations := (m_stations m)(stationId \<mapsto> Config)\<rparr> else m);
          recd = \<lparr>dv_stationId = stationId, dv_state = Config, dv_points = set points\<rparr>;
          m2 = m1\<lparr>m_points := fold (\<lambda>p pts. pts(p \<mapsto> (deviceId, Config))) points (m_points m1)\<rparr>
      in m2\<lparr>m_devices := (m_devices m2)(deviceId \<mapsto> recd)\<rparr>)"

definition unregisterDevice :: "u32 \<Rightarrow> BusinessStateMachine \<Rightarrow> BusinessStateMachine" where
  "unregisterDevice deviceId m =
     (case m_devices m deviceId of
        None \<Rightarrow> m
      | Some d \<Rightarrow>
          if dv_state d = Running then m
          else m\<lparr>m_points := m_points m |` (- dv_points d),
                 m_devices := (m_devices m)(deviceId := None)\<rparr>)"

definition toRunning ::
  "u32 \<Rightarrow> BusinessStateMachine \<Rightarrow> bool \<times> BizSignal list \<times> BusinessStateMachine" where
  "toRunning deviceId m =
     (case m_devices m deviceId of
        None \<Rightarrow> (False, [], m)
      | Some d \<Rightarrow>
          if dv_state d = Running then (True, [], m)
          else let m1 = m\<lparr>m_devices := (m_devices m)(deviceId \<mapsto> d\<lparr>dv_state := Running\<rparr>)\<rparr>;
                   sid = dv_stationId d;
                   own = stateChanged sid deviceId 0 (dv_state d) Running
          in if m_stations m1 sid = Some Config
             then (True, [stateChanged sid deviceId 0 Config Running, own],
                   m1\<lparr>m_stations := (m_stations m1)(sid \<mapsto> Running)\<rparr>)
             else (True, [own], m1))"

definition canStationEnterStats :: "BusinessStateMachine \<Rightarrow> u32 \<Rightarrow> bool" where
  "canStationEnterStats m stationId \<longleftrightarrow>
     (\<forall>d \<in> ran (m_devices m). \<not> (dv_stationId d = stationId \<and> dv_state d = Running))"

definition toStats ::
  "u32 \<Rightarrow> BusinessStateMachine \<Rightarrow> bool \<times> BizSignal list \<times> BusinessStateMachine" where
  "toStats stationId m =
     (case m_stations m stationId of
        None \<Rightarrow> (False, [], m)
      | Some old \<Rightarrow>
          if \<not> canStationEnterStats m stationId then (False, [], m)
          else (True, [stateChanged stationId 0 0 old Stats],
                m\<lparr>m_stations := (m_stations m)(stationId \<mapsto> Stats)\<rparr>))"

definition toConfigStation ::
  "u32 \<Rightarrow> BusinessStateMachine \<Rightarrow> bool \<times> BizSignal list \<times> BusinessStateMachine" where
  "toConfigStation stationId m =
     (case m_stations m stationId of
        None \<Rightarrow> (False, [], m)
      | Some old \<Rightarrow> (True, [stateChanged stationId 0 0 old Config],
                     m\<lparr>m_stations := (m_stations m)(stationId \<mapsto> Config)\<rparr>))"

definition toConfigDevice ::
  "u32 \<Rightarrow> BusinessStateMachine \<Rightarrow> bool \<times> BizSignal list \<times> BusinessStateMachine" where
  "toConfigDevice deviceId m =
     (case m_devices m deviceId of
        None \<Rightarrow> (False, [], m)
      | Some d \<Rightarrow> (True, [stateChanged (dv_stationId d) deviceId 0 (dv_state d) Config],
                   m\<lparr>m_devices := (m_devices m)(deviceId \<mapsto> d\<lparr>dv_state := Config\<rparr>)\<rparr>))"

definition toConfigPoint ::
  "u32 \<Rightarrow> BusinessStateMachine \<Rightarrow> bool \<times> BizSignal list \<times> BusinessStateMachine" where
  "toConfigPoint pointId m =
     (case m_points m pointId of
        None \<Rightarrow> (False, [], m)
      | Some (dev, old) \<Rightarrow> (True, [stateChanged 0 dev pointId old Config],
                           m\<lparr>m_points := (m_points m)(pointId \<mapsto> (dev, Config))\<rparr>))"

definition stationState :: "BusinessStateMachine \<Rightarrow> u32 \<Rightarrow> BusinessState" where
  "stationState m stationId = (case m_stations m stationId of Some s \<Rightarrow> s | None \<Rightarrow> Config)"

definition deviceState :: "BusinessStateMachine \<Rightarrow> u32 \<Rightarrow> BusinessState" where
  "deviceState m deviceId = (case m_devices m deviceId of Some d \<Rightarrow> dv_state d | None \<Rightarrow> Config)"

definition pointState :: "BusinessStateMachine \<Rightarrow> u32 \<Rightarrow> BusinessState" where
  "pointState m pointId = (case m_points m pointId of Some (d, s) \<Rightarrow> s | None \<Rightarrow> Config)"

definition stationCount :: "BusinessStateMachine \<Rightarrow> nat" where
  "stationCount m = card (dom (m_stations m))"

definition deviceCount :: "BusinessStateMachine \<Rightarrow> nat" where
  "deviceCount m = card (dom (m_devices m))"

definition pointCount :: "BusinessStateMachine \<Rightarrow> nat" where
  "pointCount m = card (dom (m_points m))"

section \<open>Reachable states\<close>

inductive biz_step :: "BusinessStateMachine \<Rightarrow> BusinessStateMachine \<Rightarrow> bool" where
  register: "biz_step m (registerDevice s d ps m)"
| unregister: "biz_step m (unregisterDevice d m)"
| running: "toRunning d m = (r, sigs, m') \<Longrightarrow> biz_step m m'"
| stats: "toStats s m = (r, sigs, m') \<Longrightarrow> biz_step m m'"
| config_station: "toConfigStation s m = (r, sigs, m') \<Longrightarrow> biz_step m m'"
| config_device: "toConfigDevice d m = (r, sigs, m') \<Longrightarrow> biz_step m m'"
| config_point: "toConfigPoint p m = (r, sigs, m') \<Longrightarrow> biz_step m m'"

inductive biz_reach :: "BusinessStateMachine \<Rightarrow> bool" where
  init: "biz_reach biz_new"
| step: "biz_reach m \<Longrightarrow> biz_step m m' \<Longrightarrow> biz_reach m'"

text \<open>What every operation keeps: the station of a device is known, the points of a device
  that still belong to it are known, and no point leaves the configuration state.\<close>

definition biz_ok :: "BusinessStateMachine \<Rightarrow> bool" where
  "biz_ok m \<longleftrightarrow>
     (\<forall>d r. m_devices m d = Some r \<longrightarrow> m_stations m (dv_stationId r) \<noteq> None) \<and>
     (\<forall>p d s. m_points m p = Some (d, s) \<longrightarrow> s = Config)"

lemma fold_points:
  "fold (\<lambda>p pts. pts(p \<mapsto> x)) ps pts q = (if q \<in> set ps then Some x else pts q)"
  by (induction ps arbitrary: pts) auto

lemma biz_ok_new: "biz_ok biz_new"
  by (simp add: biz_ok_def biz_new_def)

lemma biz_ok_register [inv_intros]: "biz_ok m \<Longrightarrow> biz_ok (registerDevice s d ps m)"
  by (auto simp: biz_ok_def registerDevice_def Let_def fold_points split: if_splits)

lemma biz_ok_unregister [inv_intros]: "biz_ok m \<Longrightarrow> biz_ok (unregisterDevice d m)"
  by (auto simp: biz_ok_def unregisterDevice_def restrict_map_def split: if_splits option.splits)

lemma biz_ok_step:
  assumes "biz_step m m'" and "biz_ok m"
  shows "biz_ok m'"
  using assms(1)
proof cases
  case (running d r sigs)
  with assms(2) show ?thesis
    by (auto simp: biz_ok_def toRunning_def Let_def split: if_splits option.splits)
next
  case (stats s r sigs)
  with assms(2) show ?thesis
    by (auto simp: biz_ok_def toStats_def split: if_splits option.splits)
next
  case (config_station s r sigs)
  with assms(2) show ?thesis
    by (auto simp: biz_ok_def toConfigStation_def split: if_splits option.splits)
next
  case (config_device d r sigs)
  with assms(2) show ?thesis
    by (auto simp: biz_ok_def toConfigDevice_def split: if_splits option.splits)
next
  case (config_point p r sigs)
  with assms(2) show ?thesis
    by (auto simp: biz_ok_def toConfigPoint_def split: if_splits option.splits)
qed (use assms(2) in \<open>auto intro: inv_intros\<close>)

lemma biz_reach_ok: "biz_reach m \<Longrightarrow> biz_ok m"
  by (induction rule: biz_reach.induct) (auto intro: biz_ok_new biz_ok_step)

section \<open>Properties\<close>

text \<open>The check across the layers is made on the way into the statistics state only.
  In every reachable state \<open>toStats\<close> succeeds exactly for a known station none of whose devices
  runs; but for a registered device of a station that is in the statistics state \<open>toRunning\<close>
  succeeds as well, the station stays in the statistics state, and then holds a running device
  with which it could not have entered it. Every point stays in the configuration state.\<close>

theorem stats_station_may_run:
  assumes "biz_reach m" and "m_devices m d = Some r" and "m_stations m (dv_stationId r) = Some Stats"
  shows "(fst (toStats s m) \<longleftrightarrow> m_stations m s \<noteq> None \<and> canStationEnterStats m s) \<and>
     (\<exists>sigs m'. toRunning d m = (True, sigs, m') \<and> stationState m' (dv_stationId r) = Stats \<and>
        deviceState m' d = Running \<and> \<not> canStationEnterStats m' (dv_stationId r)) \<and>
     pointState m p = Config"
proof (intro conjI)
  show "fst (toStats s m) \<longleftrightarrow> m_stations m s \<noteq> None \<and> canStationEnterStats m s"
    by (auto simp: toStats_def split: option.splits)
  show "\<exists>sigs m'. toRunning d m = (True, sigs, m') \<and> stationState m' (dv_stationId r) = Stats \<and>
      deviceState m' d = Running \<and> \<not> canStationEnterStats m' (dv_stationId r)"
    using assms by (auto simp: toRunning_def stationState_def deviceState_def canStationEnterStats_def ran_def)
  show "pointState m p = Config"
    using biz_reach_ok [OF assms(1)] by (auto simp: biz_ok_def pointState_def split: option.splits)
qed

definition demo_biz :: BusinessStateMachine where
  "demo_biz = snd (snd (toStats 1 (registerDevice 1 7 [70, 71] biz_new)))"

lemma demo_biz_facts:
  "biz_reach demo_biz"
  "m_devices demo_biz 7 = Some \<lparr>dv_stationId = 1, dv_state = Config, dv_points = {70, 71}\<rparr>"
  "m_stations demo_biz (dv_stationId \<lparr>dv_stationId = 1, dv_state = Config, dv_points = {70, 71}\<rparr>) = Some Stats"
proof -
  obtain r sigs m' where run: "toStats 1 (registerDevice 1 7 [70, 71] biz_new) = (r, sigs, m')"
    by (metis prod_cases3)
  then show "biz_reach demo_biz"
    unfolding demo_biz_def run snd_conv
    by (intro biz_reach.step [OF biz_reach.step [OF biz_reach.init biz_step.register [of _ 1 7 "[70, 71]"]]])
      (rule biz_step.stats [OF run])
qed (simp_all add: demo_biz_def toStats_def registerDevice_def biz_new_def canStationEnterStats_def ran_def)

theorem stats_station_may_run_witness:
  "fst (toStats 1 demo_biz) \<and>
   (\<exists>sigs m'. toRunning 7 demo_biz = (True, sigs, m') \<and> stationState m' 1 = Stats \<and>
      deviceState m' 7 = Running \<and> \<not> canStationEnterStats m' 1) \<and>
   pointState demo_biz 70 = Config"
  using stats_station_may_run [OF demo_biz_facts, of 1 70] demo_biz_facts(2,3)
  by (simp add: demo_biz_def toStats_def registerDevice_def biz_new_def canStationEnterStats_def ran_def)

end
