(* ===== verification/Floats.thy ===== *)
theory Floats
  imports Ens_Prelude
begin

text \<open>
  The values of a C++ \<open>float\<close>, as far as the program compares and prints them: a finite value is
  the rational number it stands for (the sign of zero is not kept), the others are named.
  Comparisons with a NaN are false, \<open>!=\<close> is true. \<open>show_fl\<close> is \<open>std::to_string\<close>, six digits
  after the point, ties to even. \<open>fl_round\<close> is the rounding of IEEE 754 to the nearest value of a
  binary format, ties to even, with subnormal numbers and overflow; the arithmetic of
  \<open>float\<close> and \<open>double\<close> is exact arithmetic and rounding.
\<close>

datatype fl = Fin rat | PInf | NInf | NaN

fun fl_less :: "fl \<Rightarrow> fl \<Rightarrow> bool" where
  "fl_less (Fin x) (Fin y) = (x < y)"
| "fl_less (Fin x) PInf = True"
| "fl_less NInf (Fin y) = True"
| "fl_less NInf PInf = True"
| "fl_less _ _ = False"

definition fl_ne :: "fl \<Rightarrow> fl \<Rightarrow> bool" where
  "fl_ne a b \<longleftrightarrow> a = NaN \<or> b = NaN \<or> a \<noteq> b"

lemma fl_less_irrefl [simp]: "\<not> fl_less a a"
  by (cases a) simp_all

lemma fl_less_asym: "fl_less a b \<Longrightarrow> \<not> fl_less b a"
  by (cases a; cases b) simp_all

lemma fl_less_trans: "fl_less a b \<Longrightarrow> fl_less b c \<Longrightarrow> fl_less a c"
  by (cases a; cases b; cases c) simp_all

lemma fl_less_NaN [simp]: "\<not> fl_less NaN a" "\<not> fl_less a NaN"
  by (cases a; simp)+

definition round_even :: "rat \<Rightarrow> nat" where
  "round_even x =
     (let f = nat \<lfloor>x\<rfloor>; d = x - of_nat f
      in if d < 1 / 2 then f else if d > 1 / 2 then f + 1 else if even f then f else f + 1)"

definition pad6 :: "nat \<Rightarrow> string" where
  "pad6 n = (let s = show_nat n in replicate (6 - length s) (CHR ''0'') @ s)"

definition show_fl :: "fl \<Rightarrow> string" where
  "show_fl v =
     (case v of
        Fin x \<Rightarrow> (let n = round_even (\<bar>x\<bar> * 1000000)
                  in (if x < 0 then ''-'' else []) @ show_nat (n div 1000000) @ ''.'' @ pad6 (n mod 1000000))
      | PInf \<Rightarrow> ''inf'' | NInf \<Rightarrow> ''-inf'' | NaN \<Rightarrow> ''nan'')"

section \<open>Rounding to a binary format\<close>

definition pow2 :: "int \<Rightarrow> rat" where
  "pow2 e = (if e \<ge> 0 then 2 ^ nat e else 1 / 2 ^ nat (- e))"

fun bits :: "nat \<Rightarrow> nat" where
  "bits n = (if n = 0 then 0 else Suc (bits (n div 2)))"

declare bits.simps [simp del]

definition ilog2 :: "rat \<Rightarrow> int" where
  "ilog2 x =
     (case quotient_of x of (p, q) \<Rightarrow>
        let k = int (bits (nat p)) - int (bits (nat q))
        in if pow2 k \<le> x then k else k - 1)"

text \<open>\<open>p\<close> is the precision in bits, \<open>emin\<close> and \<open>emax\<close> bound the exponents of normal numbers.\<close>

definition fl_round :: "int \<Rightarrow> int \<Rightarrow> int \<Rightarrow> rat \<Rightarrow> fl" where
  "fl_round p emin emax x =
     (if x = 0 then Fin 0
      else let a = \<bar>x\<bar>;
               ulp = pow2 (max (ilog2 a) emin - p + 1);
               r = of_nat (round_even (a / ulp)) * ulp
           in if r \<ge> pow2 (emax + 1) then (if x < 0 then NInf else PInf)
              else Fin (if x < 0 then - r else r))"

definition round32 :: "rat \<Rightarrow> fl" where "round32 = fl_round 24 (-126) 127"
definition round64 :: "rat \<Rightarrow> fl" where "round64 = fl_round 53 (-1022) 1023"

fun fl_add :: "(rat \<Rightarrow> fl) \<Rightarrow> fl \<Rightarrow> fl \<Rightarrow> fl" where
  "fl_add rnd (Fin x) (Fin y) = rnd (x + y)"
| "fl_add rnd NaN _ = NaN"
| "fl_add rnd _ NaN = NaN"
| "fl_add rnd PInf NInf = NaN"
| "fl_add rnd NInf PInf = NaN"
| "fl_add rnd PInf _ = PInf"
| "fl_add rnd _ PInf = PInf"
| "fl_add rnd NInf _ = NInf"
| "fl_add rnd _ NInf = NInf"

fun fl_neg :: "fl \<Rightarrow> fl" where
  "fl_neg (Fin x) = Fin (- x)" | "fl_neg PInf = NInf" | "fl_neg NInf = PInf" | "fl_neg NaN = NaN"

definition inf_mul :: "rat \<Rightarrow> fl" where
  "inf_mul y = (if y > 0 then PInf else if y < 0 then NInf else NaN)"

fun fl_mul :: "(rat \<Rightarrow> fl) \<Rightarrow> fl \<Rightarrow> fl \<Rightarrow> fl" where
  "fl_mul rnd (Fin x) (Fin y) = rnd (x * y)"
| "fl_mul rnd NaN _ = NaN"
| "fl_mul rnd _ NaN = NaN"
| "fl_mul rnd PInf (Fin y) = inf_mul y"
| "fl_mul rnd (Fin y) PInf = inf_mul y"
| "fl_mul rnd NInf (Fin y) = inf_mul (- y)"
| "fl_mul rnd (Fin y) NInf = inf_mul (- y)"
| "fl_mul rnd PInf PInf = PInf"
| "fl_mul rnd NInf NInf = PInf"
| "fl_mul rnd PInf NInf = NInf"
| "fl_mul rnd NInf PInf = NInf"

text \<open>A divisor zero counts as positive.\<close>

fun fl_div :: "(rat \<Rightarrow> fl) \<Rightarrow> fl \<Rightarrow> fl \<Rightarrow> fl" where
  "fl_div rnd (Fin x) (Fin y) = (if y = 0 then inf_mul x else rnd (x / y))"
| "fl_div rnd NaN _ = NaN"
| "fl_div rnd _ NaN = NaN"
| "fl_div rnd (Fin x) _ = Fin 0"
| "fl_div rnd PInf (Fin y) = (if y < 0 then NInf else PInf)"
| "fl_div rnd NInf (Fin y) = (if y < 0 then PInf else NInf)"
| "fl_div rnd _ _ = NaN"

text \<open>\<open>std::max(a, b)\<close> and \<open>std::min(a, b)\<close>\<close>

definition fl_max :: "fl \<Rightarrow> fl \<Rightarrow> fl" where
  "fl_max a b = (if fl_less a b then b else a)"

definition fl_min :: "fl \<Rightarrow> fl \<Rightarrow> fl" where
  "fl_min a b = (if fl_less b a then b else a)"

text \<open>The number a pattern of \<open>m\<close> bits of fraction and \<open>w\<close> bits of exponent stands for.\<close>

definition fl_of_bits :: "nat \<Rightarrow> nat \<Rightarrow> nat \<Rightarrow> fl" where
  "fl_of_bits w m u =
     (let f = u mod 2 ^ m; e = u div 2 ^ m mod 2 ^ w; neg = odd (u div 2 ^ (m + w)); bias = 2 ^ (w - 1) - 1;
          v = (if e = 0 then of_nat f * pow2 (1 - bias - int m)
               else of_nat (2 ^ m + f) * pow2 (int e - bias - int m))
      in if e = 2 ^ w - 1 then (if f \<noteq> 0 then NaN else if neg then NInf else PInf)
         else Fin (if neg then - v else v))"

definition float32 :: "u32 \<Rightarrow> fl" where "float32 u = fl_of_bits 8 23 (unat u)"
definition float64 :: "64 word \<Rightarrow> fl" where "float64 u = fl_of_bits 11 52 (unat u)"

lemma pow2_pos [simp]: "0 < pow2 e"
  by (simp add: pow2_def)

lemma pow2_nonzero [simp]: "pow2 e \<noteq> 0"
  using pow2_pos [of e] by linarith

lemma pow2_diff: "pow2 (int a - int b) = 2 ^ a / 2 ^ b"
proof (cases "b \<le> a")
  case True
  then have "nat (int a - int b) = a - b" by linarith
  with True show ?thesis by (simp add: pow2_def power_diff)
next
  case False
  then have "nat (- (int a - int b)) = b - a" by linarith
  with False show ?thesis by (simp add: pow2_def power_diff)
qed

lemma pow2_add: "pow2 (d + e) = pow2 d * pow2 e"
proof -
  obtain a b where d: "d = int a - int b" by (metis int_diff_cases)
  obtain a' b' where e: "e = int a' - int b'" by (metis int_diff_cases)
  have "d + e = int (a + a') - int (b + b')" by (simp add: d e)
  then show ?thesis unfolding d e pow2_diff by (simp only: pow2_diff power_add times_divide_times_eq)
qed

lemma pow2_ge_1: "0 \<le> e \<Longrightarrow> 1 \<le> pow2 e"
  by (simp add: pow2_def)

lemma pow2_mono: "d \<le> e \<Longrightarrow> pow2 d \<le> pow2 e"
  using pow2_add [of d "e - d"] mult_left_mono [OF pow2_ge_1 [of "e - d"], of "pow2 d"] pow2_pos [of d] by simp

lemma pow2_less_iff [simp]: "pow2 d < pow2 e \<longleftrightarrow> d < e"
proof
  assume "d < e"
  then have "2 * pow2 d \<le> pow2 e" using pow2_mono [of "d + 1" e] by (simp add: pow2_add) (simp add: pow2_def)
  then show "pow2 d < pow2 e" using pow2_pos [of d] by linarith
next
  assume "pow2 d < pow2 e"
  then show "d < e" using pow2_mono [of e d] by linarith
qed

lemma bits_bound: "n < 2 ^ bits n" and bits_low: "0 < n \<Longrightarrow> 2 ^ bits n \<le> 2 * n"
proof (induction n rule: bits.induct)
  case (1 n)
  { case 1 show ?case using "1.IH"(1) by (cases "n = 0") (simp_all add: bits.simps [of n]) }
  { case 2
    show ?case
    proof (cases "n = 1")
      case True then show ?thesis by (simp add: bits.simps)
    next
      case False
      with 2 have "0 < n div 2" by simp
      with "1.IH"(2) 2 have "2 ^ bits (n div 2) \<le> 2 * (n div 2)" by simp
      with 2 show ?thesis by (simp add: bits.simps [of n])
    qed }
qed

lemma ilog2_lower:
  assumes "0 < x"
  shows "pow2 (ilog2 x) \<le> x"
proof -
  obtain p q where pq: "quotient_of x = (p, q)" by fastforce
  then have q: "0 < q" and x: "x = of_int p / of_int q"
    by (simp_all add: quotient_of_denom_pos quotient_of_div)
  then have p: "0 < p" using assms by (simp add: zero_less_divide_iff)
  let ?k = "int (bits (nat p)) - int (bits (nat q))"
  have "pow2 ?k \<le> 2 * x"
  proof -
    have "2 ^ bits (nat p) \<le> 2 * nat p" using p by (simp add: bits_low)
    then have "of_nat (2 ^ bits (nat p)) \<le> (of_nat (2 * nat p) :: rat)" by (simp only: of_nat_le_iff)
    then have up: "2 ^ bits (nat p) \<le> 2 * (of_int p :: rat)" using p by simp
    have "nat q < 2 ^ bits (nat q)" by (rule bits_bound)
    then have "of_nat (nat q) \<le> (of_nat (2 ^ bits (nat q)) :: rat)" by (simp only: of_nat_le_iff less_imp_le)
    then have down: "of_int q \<le> (2 ^ bits (nat q) :: rat)" using q by simp
    have "pow2 ?k = 2 ^ bits (nat p) / 2 ^ bits (nat q)" by (rule pow2_diff)
    also have "\<dots> \<le> 2 * of_int p / of_int q" using up down q p by (intro frac_le) simp_all
    finally show ?thesis by (simp add: x)
  qed
  moreover have "pow2 ?k = 2 * pow2 (?k - 1)" using pow2_add [of "?k - 1" 1] by (simp add: pow2_def)
  ultimately show ?thesis by (simp add: ilog2_def pq Let_def)
qed

lemma round_even_nat [simp]: "round_even (of_nat n) = n"
  by (simp add: round_even_def)

text \<open>A number with at most \<open>p\<close> significant bits is not changed.\<close>

lemma fl_round_exact:
  assumes x: "\<bar>x\<bar> = of_nat n * pow2 k" and n: "n < 2 ^ p" and k: "emin - int p + 1 \<le> k"
    and max: "k + int p \<le> emax + 1"
  shows "fl_round (int p) emin emax x = Fin x"
proof (cases "n = 0")
  case True
  with x show ?thesis by (simp add: fl_round_def)
next
  case False
  let ?u = "max (ilog2 \<bar>x\<bar>) emin - int p + 1"
  have np: "(of_nat n :: rat) < pow2 (int p)"
    using n of_nat_less_iff [where 'a = rat, of n "2 ^ p"] by (simp add: pow2_def)
  then have lt: "\<bar>x\<bar> < pow2 (k + int p)"
    unfolding x by (subst add.commute) (simp add: pow2_add)
  have x0: "0 < \<bar>x\<bar>" using x False pow2_pos [of k] by simp
  then have "pow2 (ilog2 \<bar>x\<bar>) < pow2 (k + int p)" using ilog2_lower lt by (metis le_less_trans)
  then have "ilog2 \<bar>x\<bar> < k + int p" by simp
  then have u: "?u \<le> k" using k by simp
  then have ku: "pow2 (k - ?u) = of_nat (2 ^ nat (k - ?u))" by (simp add: pow2_def)
  have "pow2 k = of_nat (2 ^ nat (k - ?u)) * pow2 ?u"
    using pow2_add [of "k - ?u" ?u] unfolding ku by simp
  then have eq: "\<bar>x\<bar> = of_nat (n * 2 ^ nat (k - ?u)) * pow2 ?u" unfolding x by simp
  then have q: "\<bar>x\<bar> / pow2 ?u = of_nat (n * 2 ^ nat (k - ?u))"
    using pow2_nonzero [of ?u] by (metis nonzero_mult_div_cancel_right)
  have "of_nat (round_even (\<bar>x\<bar> / pow2 ?u)) * pow2 ?u = \<bar>x\<bar>"
    unfolding q round_even_nat by (rule eq [symmetric])
  moreover have "\<not> pow2 (emax + 1) \<le> \<bar>x\<bar>" using lt pow2_mono [OF max] by linarith
  ultimately show ?thesis using x0 by (auto simp: fl_round_def Let_def)
qed

lemma round64_exact:
  assumes "\<bar>x\<bar> = of_nat n * pow2 k" and "n < 2 ^ 53" and "- 1074 \<le> k" and "k \<le> 971"
  shows "round64 x = Fin x"
  unfolding round64_def using fl_round_exact [of x n k 53 "-1022" 1023] assms by simp

lemma round64_int: "\<bar>i\<bar> < 2 ^ 53 \<Longrightarrow> round64 (of_int i) = Fin (of_int i)"
  by (rule round64_exact [where n = "nat \<bar>i\<bar>" and k = 0]) (simp_all add: pow2_def nat_less_iff)

lemma round32_exact:
  assumes "\<bar>x\<bar> = of_nat n * pow2 k" and "n < 2 ^ 24" and "- 149 \<le> k" and "k \<le> 104"
  shows "round32 x = Fin x"
  unfolding round32_def using fl_round_exact [of x n k 24 "-126" 127] assms by simp

lemma round32_int: "\<bar>i\<bar> < 2 ^ 24 \<Longrightarrow> round32 (of_int i) = Fin (of_int i)"
  by (rule round32_exact [where n = "nat \<bar>i\<bar>" and k = 0]) (simp_all add: pow2_def nat_less_iff)

text \<open>Every finite number of a format is an integer of its precision times a power of two.\<close>

lemma fl_of_bits_finite:
  assumes "fl_of_bits w m u = Fin x"
  shows "\<exists>n k. \<bar>x\<bar> = of_nat n * pow2 k \<and> n < 2 ^ (m + 1) \<and>
    2 - 2 ^ (w - 1) - int m \<le> k \<and> k \<le> max (2 - 2 ^ (w - 1)) (2 ^ w - 1 - 2 ^ (w - 1)) - int m"
proof -
  let ?f = "u mod 2 ^ m" and ?e = "u div 2 ^ m mod 2 ^ w"
  let ?b = "2 ^ (w - 1) - 1 :: int"
  let ?k = "(if ?e = 0 then 1 else int ?e) - ?b - int m"
  let ?n = "if ?e = 0 then ?f else 2 ^ m + ?f"
  let ?v = "of_nat ?n * pow2 ?k"
  have ne: "?e \<noteq> 2 ^ w - 1" using assms by (auto simp: fl_of_bits_def Let_def split: if_splits)
  have step: "E < N \<Longrightarrow> E \<noteq> N - 1 \<Longrightarrow> int E \<le> int N - 2" for E N :: nat by linarith
  have lt: "?e < 2 ^ w" by simp
  have e: "int ?e \<le> 2 ^ w - 2" using step [OF lt ne] by simp
  have "x = ?v \<or> x = - ?v"
    using assms ne by (auto simp: fl_of_bits_def Let_def split: if_splits)
  then have "\<bar>x\<bar> = ?v" by (auto simp: abs_mult abs_of_pos)
  moreover have dbl: "f < M \<Longrightarrow> (if z then f else M + f) < 2 * M" for f M :: nat and z by simp
  have "?f < 2 ^ m" by simp
  then have "?n < 2 ^ (m + 1)" unfolding power_add power_one_right mult.commute [of _ 2] by (rule dbl)
  moreover have "2 - 2 ^ (w - 1) - int m \<le> ?k" by auto
  moreover have "?k \<le> max (2 - 2 ^ (w - 1)) (2 ^ w - 1 - 2 ^ (w - 1)) - int m" using e by auto
  ultimately show ?thesis by blast
qed

text \<open>Every \<open>float\<close> is a \<open>double\<close>.\<close>

lemma round64_float32: "float32 u = Fin x \<Longrightarrow> round64 x = Fin x"
  using fl_of_bits_finite [of 8 23 "unat u" x] by (auto simp: float32_def intro: round64_exact)

lemma round64_float64: "float64 u = Fin x \<Longrightarrow> round64 x = Fin x"
  using fl_of_bits_finite [of 11 52 "unat u" x] by (auto simp: float64_def intro: round64_exact)

section \<open>The error of rounding\<close>

lemma round_even_error: "0 \<le> y \<Longrightarrow> \<bar>of_nat (round_even y) - y\<bar> \<le> 1 / 2"
proof -
  assume "0 \<le> y"
  then have f: "of_nat (nat \<lfloor>y\<rfloor>) = (of_int \<lfloor>y\<rfloor> :: rat)" by simp
  have "of_int \<lfloor>y\<rfloor> \<le> y" "y < of_int \<lfloor>y\<rfloor> + 1" by linarith+
  then show ?thesis by (simp add: round_even_def Let_def f abs_if) linarith?
qed

lemma fl_round_error:
  assumes "\<bar>x\<bar> < pow2 (k + 1)" and "emin \<le> k" and "k + 2 \<le> emax" and "0 < p"
  shows "\<exists>r. fl_round p emin emax x = Fin r \<and> \<bar>r - x\<bar> \<le> pow2 (k - p)"
proof (cases "x = 0")
  case True
  then show ?thesis by (simp add: fl_round_def less_imp_le)
next
  case False
  let ?a = "\<bar>x\<bar>" and ?u = "pow2 (max (ilog2 \<bar>x\<bar>) emin - p + 1)"
  let ?r = "of_nat (round_even (?a / ?u)) * ?u"
  have "pow2 (ilog2 ?a) < pow2 (k + 1)" by (rule le_less_trans [OF ilog2_lower assms(1)]) (use False in simp)
  then have "max (ilog2 ?a) emin - p + 1 \<le> k - p + 1" using assms(2) by simp
  then have u: "?u \<le> pow2 (k - p + 1)" by (rule pow2_mono)
  have half: "pow2 (k - p + 1) = 2 * pow2 (k - p)" using pow2_add [of "k - p" 1] by (simp add: pow2_def)
  have "\<bar>of_nat (round_even (?a / ?u)) - ?a / ?u\<bar> * ?u \<le> 1 / 2 * ?u"
    by (intro mult_right_mono round_even_error) (simp_all add: less_imp_le)
  moreover have "(of_nat (round_even (?a / ?u)) - ?a / ?u) * ?u = ?r - ?a" by (simp add: left_diff_distrib)
  then have "\<bar>of_nat (round_even (?a / ?u)) - ?a / ?u\<bar> * ?u = \<bar>?r - ?a\<bar>"
    by (metis abs_mult abs_of_pos pow2_pos)
  ultimately have err: "\<bar>?r - ?a\<bar> \<le> pow2 (k - p)" using u half by linarith
  have "pow2 (k - p) \<le> pow2 (k + 1)" using assms(4) by (intro pow2_mono) simp
  moreover have "?r - ?a \<le> pow2 (k - p)" using err by (simp only: abs_le_iff)
  moreover have "pow2 (k + 2) = 2 * pow2 (k + 1)" using pow2_add [of "k + 1" 1] by (simp add: pow2_def [of 1] add.commute mult.commute)
  ultimately have "?r < pow2 (k + 2)" using assms(1) by linarith
  then have "\<not> pow2 (emax + 1) \<le> ?r" using pow2_mono [of "k + 2" "emax + 1"] assms(3) by linarith
  then have "fl_round p emin emax x = Fin (if x < 0 then - ?r else ?r)"
    using False by (simp add: fl_round_def Let_def)
  moreover have "\<bar>(if x < 0 then - r else r) - x\<bar> = \<bar>r - \<bar>x\<bar>\<bar>" for r
    by (cases "x < 0") (simp_all add: abs_minus_commute)
  ultimately show ?thesis using err by auto
qed

end
