(* ===== verification/AlarmEngine.thy ===== *)
theory AlarmEngine
  imports Floats "HOL-Library.AList" "HOL-Library.Multiset"
begin

text \<open>
  The alarm engine, \<^verbatim>\<open>apps/ens_app/src/business/AlarmEntities.h\<close>, \<^verbatim>\<open>AlarmEngine.h\<close> and
  \<^verbatim>\<open>AlarmEngine.cpp\<close>. The engine runs in the event loop of one thread, so each call is one
  function on its state that also returns the signals emitted, in order. The readings of the
  monotonic and of the wall clock are arguments. The hash map of the point states is an
  association list in the order the map is iterated in (points in the order first seen); the
  counter of alarm ids is a natural number (the code's wraps after \<open>2^64\<close> alarms).
\<close>

section \<open>The code\<close>

datatype AlarmLevel = Info | Warning | Critical

datatype AlarmStatus = Active | Confirmed | Recovered

datatype AlarmDirection = High | Low

datatype AlarmRecoveryReason = Normal | RuleRemoved | Manual | LinkDown

record AlarmRule =
  ar_pointId :: u32
  ar_level :: AlarmLevel
  ar_direction :: AlarmDirection
  ar_onThreshold :: fl
  ar_offThreshold :: fl
  ar_enabled :: bool
  ar_onDelayMs :: u32
  ar_offDelayMs :: u32
  ar_suppressWindowMs :: u32

definition default_rule :: AlarmRule where
  "default_rule = \<lparr>ar_pointId = 0, ar_level = Warning, ar_direction = High, ar_onThreshold = Fin 0,
     ar_offThreshold = Fin 0, ar_enabled = True, ar_onDelayMs = 3000, ar_offDelayMs = 3000,
     ar_suppressWindowMs = 60000\<rparr>"

record AlarmStormConfig =
  sc_windowMs :: u32
  sc_threshold :: u32
  sc_flushIntervalMs :: u32

record AlarmEvent =
  ev_id :: nat
  ev_pointId :: u32
  ev_level :: AlarmLevel
  ev_status :: AlarmStatus
  ev_triggerTime :: u64
  ev_recoverTime :: u64
  ev_alarmValue :: fl
  ev_threshold :: fl
  ev_description :: string
  ev_blackboxId :: u64
  ev_recoveryReason :: AlarmRecoveryReason

record PointAlarmState =
  ps_pointId :: u32
  ps_inAlarmBand :: bool
  ps_lastRaw :: fl
  ps_lastRaiseMono :: int
  ps_pendingOn :: bool
  ps_onSinceMono :: int
  ps_pendingOff :: bool
  ps_offSinceMono :: int
  ps_status :: AlarmStatus
  ps_activeId :: nat

definition new_state :: PointAlarmState where
  "new_state = \<lparr>ps_pointId = 0, ps_inAlarmBand = False, ps_lastRaw = Fin 0, ps_lastRaiseMono = 0,
     ps_pendingOn = False, ps_onSinceMono = 0, ps_pendingOff = False, ps_offSinceMono = 0,
     ps_status = Recovered, ps_activeId = 0\<rparr>"

record AlarmEngine =
  ae_rules :: "u32 \<rightharpoonup> AlarmRule"
  ae_states :: "(u32 \<times> PointAlarmState) list"
  ae_suppressed :: "u32 set"
  ae_stormConfig :: AlarmStormConfig
  ae_ring :: "int list"
  ae_ringHead :: nat
  ae_ringCount :: nat
  ae_pendingStorm :: "AlarmEvent list"
  ae_stormDropped :: nat
  ae_stormActive :: bool
  ae_flushInterval :: int
  ae_alarmIdSeq :: nat

datatype AlarmSignal =
    alarmTriggered AlarmEvent
  | alarmRecovered nat
  | alarmAcknowledged nat string
  | blackBoxRequested u32 u64 AlarmLevel
  | alarmStormTriggered nat nat "AlarmEvent list"
  | alarmStormCleared

definition MAX_PENDING_STORM :: nat where
  "MAX_PENDING_STORM = 2000"

definition ALARM_TIME_RING_SIZE :: nat where
  "ALARM_TIME_RING_SIZE = 128"

definition default_storm :: AlarmStormConfig where
  "default_storm = \<lparr>sc_windowMs = 1000, sc_threshold = 200, sc_flushIntervalMs = 200\<rparr>"

definition alarm_new :: AlarmEngine where
  "alarm_new = \<lparr>ae_rules = Map.empty, ae_states = [], ae_suppressed = {},
     ae_stormConfig = default_storm, ae_ring = replicate ALARM_TIME_RING_SIZE 0, ae_ringHead = 0,
     ae_ringCount = 0, ae_pendingStorm = [], ae_stormDropped = 0, ae_stormActive = False,
     ae_flushInterval = 200, ae_alarmIdSeq = 0\<rparr>"

definition is_live :: "PointAlarmState \<Rightarrow> bool" where
  "is_live st \<longleftrightarrow> ps_status st = Active \<or> ps_status st = Confirmed"

text \<open>\<open>m_states[pid]\<close>, with the insertion of a default state on a lookup that finds none.\<close>

definition state_of :: "AlarmEngine \<Rightarrow> u32 \<Rightarrow> PointAlarmState" where
  "state_of e pid = (case map_of (ae_states e) pid of Some st \<Rightarrow> st | None \<Rightarrow> new_state)"

definition put_state :: "u32 \<Rightarrow> PointAlarmState \<Rightarrow> AlarmEngine \<Rightarrow> AlarmEngine" where
  "put_state pid st e = e\<lparr>ae_states := AList.update pid st (ae_states e)\<rparr>"

subsection \<open>Storm window\<close>

definition in_window :: "AlarmEngine \<Rightarrow> int \<Rightarrow> nat" where
  "in_window e nowMono =
     length (filter (\<lambda>i. nowMono - ae_ring e ! i \<le> uint (sc_windowMs (ae_stormConfig e)))
       [0..<ae_ringCount e])"

definition ring_record :: "int \<Rightarrow> AlarmEngine \<Rightarrow> AlarmEngine" where
  "ring_record nowMono e =
     (let cap = length (ae_ring e)
      in if ae_ringCount e < cap
         then e\<lparr>ae_ring := (ae_ring e)[(ae_ringHead e + ae_ringCount e) mod cap := nowMono],
                ae_ringCount := ae_ringCount e + 1\<rparr>
         else e\<lparr>ae_ring := (ae_ring e)[ae_ringHead e := nowMono],
                ae_ringHead := (ae_ringHead e + 1) mod cap\<rparr>)"

definition isStormTriggered :: "int \<Rightarrow> AlarmEngine \<Rightarrow> bool \<times> AlarmEngine" where
  "isStormTriggered nowMono e =
     (if sc_windowMs (ae_stormConfig e) = 0 then (False, e)
      else let e1 = ring_record nowMono e;
               active = in_window e1 nowMono > unat (sc_threshold (ae_stormConfig e1))
      in (active, e1\<lparr>ae_stormActive := active\<rparr>))"

subsection \<open>Raise and recover\<close>

definition alarm_text :: "u32 \<Rightarrow> fl \<Rightarrow> fl \<Rightarrow> string" where
  "alarm_text pid value threshold =
     ''point='' @ show_nat (unat pid) @ '' value='' @ show_fl value @ '' threshold='' @ show_fl threshold"

definition alarm_event :: "nat \<Rightarrow> u32 \<Rightarrow> AlarmRule \<Rightarrow> fl \<Rightarrow> u64 \<Rightarrow> AlarmEvent" where
  "alarm_event new_id pid r value nowEpoch =
     \<lparr>ev_id = new_id, ev_pointId = pid, ev_level = ar_level r, ev_status = Active,
      ev_triggerTime = nowEpoch, ev_recoverTime = 0, ev_alarmValue = value,
      ev_threshold = ar_onThreshold r, ev_description = alarm_text pid value (ar_onThreshold r),
      ev_blackboxId = 0, ev_recoveryReason = Normal\<rparr>"

definition raiseAlarm ::
  "u32 \<Rightarrow> AlarmRule \<Rightarrow> fl \<Rightarrow> int \<Rightarrow> u64 \<Rightarrow> AlarmEngine \<Rightarrow> AlarmSignal list \<times> AlarmEngine" where
  "raiseAlarm pid r value nowMono nowEpoch e =
     (let st = state_of e pid
      in if ar_suppressWindowMs r > 0 \<and> nowMono - ps_lastRaiseMono st < uint (ar_suppressWindowMs r)
         then ([], put_state pid st e)
         else let evt = alarm_event (ae_alarmIdSeq e + 1) pid r value nowEpoch;
                  e1 = e\<lparr>ae_alarmIdSeq := ae_alarmIdSeq e + 1\<rparr>;
                  e2 = put_state pid (st\<lparr>ps_activeId := ev_id evt, ps_status := Active,
                         ps_lastRaiseMono := nowMono\<rparr>) e1;
                  blackbox = (if ar_level r = Critical
                              then [blackBoxRequested pid (ev_triggerTime evt) (ar_level r)] else [])
         in if ae_stormActive e2
            then (if ar_level r = Critical then alarmTriggered evt # blackbox else [],
                  if length (ae_pendingStorm e2) \<ge> MAX_PENDING_STORM
                  then e2\<lparr>ae_stormDropped := ae_stormDropped e2 + 1\<rparr>
                  else e2\<lparr>ae_pendingStorm := ae_pendingStorm e2 @ [evt]\<rparr>)
            else (alarmTriggered evt # blackbox, e2))"

definition recoverAlarm :: "u32 \<Rightarrow> AlarmEngine \<Rightarrow> AlarmSignal list \<times> AlarmEngine" where
  "recoverAlarm pid e =
     (case map_of (ae_states e) pid of
        None \<Rightarrow> ([], e)
      | Some st \<Rightarrow>
          if \<not> is_live st then ([], e)
          else ([alarmRecovered (ps_activeId st)],
                put_state pid (st\<lparr>ps_status := Recovered, ps_activeId := 0, ps_inAlarmBand := False,
                  ps_pendingOn := False, ps_pendingOff := False\<rparr>) e))"

subsection \<open>Evaluation of a sample\<close>

definition inOnSide :: "AlarmRule \<Rightarrow> fl \<Rightarrow> bool" where
  "inOnSide r v =
     (if ar_direction r = Low then fl_less v (ar_onThreshold r) else fl_less (ar_onThreshold r) v)"

definition inOffSide :: "AlarmRule \<Rightarrow> fl \<Rightarrow> bool" where
  "inOffSide r v =
     (if ar_direction r = Low then fl_less (ar_offThreshold r) v else fl_less v (ar_offThreshold r))"

definition on_side ::
  "u32 \<Rightarrow> AlarmRule \<Rightarrow> fl \<Rightarrow> int \<Rightarrow> u64 \<Rightarrow> PointAlarmState \<Rightarrow> AlarmEngine \<Rightarrow>
     AlarmSignal list \<times> AlarmEngine" where
  "on_side pid r value nowMono nowEpoch st e =
     (let e1 = snd (isStormTriggered nowMono e);
          st1 = (if \<not> ps_pendingOn st \<and> \<not> ps_inAlarmBand st
                 then st\<lparr>ps_pendingOn := True, ps_onSinceMono := nowMono\<rparr> else st)
      in if ps_pendingOn st1 \<and> nowMono - ps_onSinceMono st1 \<ge> uint (ar_onDelayMs r)
         then raiseAlarm pid r value nowMono nowEpoch
                (put_state pid (st1\<lparr>ps_pendingOn := False, ps_inAlarmBand := True\<rparr>) e1)
         else ([], put_state pid st1 e1))"

definition off_side ::
  "u32 \<Rightarrow> AlarmRule \<Rightarrow> int \<Rightarrow> PointAlarmState \<Rightarrow> AlarmEngine \<Rightarrow> AlarmSignal list \<times> AlarmEngine" where
  "off_side pid r nowMono st e =
     (let st1 = (if ps_inAlarmBand st \<and> \<not> ps_pendingOff st
                 then st\<lparr>ps_pendingOff := True, ps_offSinceMono := nowMono\<rparr> else st)
      in if ps_pendingOff st1 \<and> nowMono - ps_offSinceMono st1 \<ge> uint (ar_offDelayMs r)
         then recoverAlarm pid
                (put_state pid (st1\<lparr>ps_pendingOff := False, ps_inAlarmBand := False\<rparr>) e)
         else ([], put_state pid st1 e))"

definition evaluate ::
  "u32 \<Rightarrow> fl \<Rightarrow> int \<Rightarrow> u64 \<Rightarrow> AlarmEngine \<Rightarrow> AlarmSignal list \<times> AlarmEngine" where
  "evaluate pid value nowMono nowEpoch e =
     (case ae_rules e pid of
        None \<Rightarrow> ([], e)
      | Some r \<Rightarrow>
          if pid \<in> ae_suppressed e then ([], e)
          else let st = (state_of e pid)\<lparr>ps_pointId := pid, ps_lastRaw := value\<rparr>
          in if inOnSide r value then on_side pid r value nowMono nowEpoch st e
             else if inOffSide r value then off_side pid r nowMono st e
             else ([], put_state pid (st\<lparr>ps_pendingOn := False, ps_pendingOff := False\<rparr>) e))"

subsection \<open>Configuration\<close>

definition new_rules :: "AlarmRule list \<Rightarrow> u32 \<rightharpoonup> AlarmRule" where
  "new_rules rules =
     fold (\<lambda>r m. if ar_enabled r then m(ar_pointId r \<mapsto> r) else m) rules Map.empty"

definition reset_delays :: "PointAlarmState \<Rightarrow> PointAlarmState" where
  "reset_delays st = st\<lparr>ps_pendingOn := False, ps_pendingOff := False, ps_onSinceMono := 0,
     ps_offSinceMono := 0, ps_lastRaiseMono := 0\<rparr>"

definition rule_changed :: "AlarmRule \<Rightarrow> AlarmRule \<Rightarrow> bool" where
  "rule_changed old new \<longleftrightarrow>
     fl_ne (ar_onThreshold old) (ar_onThreshold new) \<or>
     fl_ne (ar_offThreshold old) (ar_offThreshold new) \<or> ar_level old \<noteq> ar_level new"

definition migrate ::
  "(u32 \<rightharpoonup> AlarmRule) \<Rightarrow> u32 \<Rightarrow> AlarmSignal list \<times> AlarmEngine \<Rightarrow> AlarmSignal list \<times> AlarmEngine" where
  "migrate newRules pid acc =
     (case acc of (sigs, e) \<Rightarrow>
       (case newRules pid of
          None \<Rightarrow>
            (case (if is_live (state_of e pid) then recoverAlarm pid e else ([], e)) of
               (s, e1) \<Rightarrow> (sigs @ s, e1\<lparr>ae_states := AList.delete pid (ae_states e1)\<rparr>))
        | Some new \<Rightarrow>
            let old = (case ae_rules e pid of Some r \<Rightarrow> r | None \<Rightarrow> default_rule)
            in (sigs, if rule_changed old new
                      then put_state pid (reset_delays (state_of e pid)) e else e)))"

definition doReloadRules :: "AlarmRule list \<Rightarrow> AlarmEngine \<Rightarrow> AlarmSignal list \<times> AlarmEngine" where
  "doReloadRules rules e =
     (let newRules = new_rules rules
      in case fold (migrate newRules) (map fst (ae_states e)) ([], e) of
           (sigs, e') \<Rightarrow> (sigs, e'\<lparr>ae_rules := newRules\<rparr>))"

definition doSuppressPoint :: "u32 \<Rightarrow> u64 \<Rightarrow> u64 \<Rightarrow> AlarmEngine \<Rightarrow> AlarmEngine" where
  "doSuppressPoint pid expireTimeEpoch nowEpoch e =
     (if expireTimeEpoch \<le> nowEpoch then e\<lparr>ae_suppressed := ae_suppressed e - {pid}\<rparr>
      else e\<lparr>ae_suppressed := insert pid (ae_suppressed e)\<rparr>)"

definition doUnsuppressPoint :: "u32 \<Rightarrow> AlarmEngine \<Rightarrow> AlarmEngine" where
  "doUnsuppressPoint pid e = e\<lparr>ae_suppressed := ae_suppressed e - {pid}\<rparr>"

definition doSetStormConfig :: "AlarmStormConfig \<Rightarrow> AlarmEngine \<Rightarrow> AlarmEngine" where
  "doSetStormConfig cfg e =
     e\<lparr>ae_stormConfig := cfg, ae_flushInterval := sint (sc_flushIntervalMs cfg)\<rparr>"

subsection \<open>Storm batches, acknowledgement, queries\<close>

definition flushStormBatch :: "int \<Rightarrow> AlarmEngine \<Rightarrow> AlarmSignal list \<times> AlarmEngine" where
  "flushStormBatch nowMono e =
     (let batch = alarmStormTriggered (length (ae_pendingStorm e)) (ae_stormDropped e) (ae_pendingStorm e);
          e1 = e\<lparr>ae_stormDropped := 0, ae_pendingStorm := []\<rparr>
      in if in_window e1 nowMono \<le> unat (sc_threshold (ae_stormConfig e1))
         then ([batch, alarmStormCleared], e1\<lparr>ae_stormActive := False\<rparr>)
         else ([batch], e1))"

definition onStormFlush :: "int \<Rightarrow> AlarmEngine \<Rightarrow> AlarmSignal list \<times> AlarmEngine" where
  "onStormFlush nowMono e =
     (if \<not> ae_stormActive e then ([], e)
      else if ae_pendingStorm e = [] then ([], e)
      else flushStormBatch nowMono e)"

definition acknowledgeAlarm :: "nat \<Rightarrow> string \<Rightarrow> AlarmEngine \<Rightarrow> AlarmSignal list \<times> AlarmEngine" where
  "acknowledgeAlarm alarmId user e =
     ([alarmAcknowledged alarmId user],
      case find (\<lambda>(pid, st). ps_activeId st = alarmId \<and> ps_status st = Active) (ae_states e) of
        Some (pid, st) \<Rightarrow> put_state pid (st\<lparr>ps_status := Confirmed\<rparr>) e
      | None \<Rightarrow> e)"

fun acknowledgeAlarms :: "nat list \<Rightarrow> string \<Rightarrow> AlarmEngine \<Rightarrow> AlarmSignal list \<times> AlarmEngine" where
  "acknowledgeAlarms [] user e = ([], e)"
| "acknowledgeAlarms (i # ids) user e =
     (case acknowledgeAlarm i user e of (s, e1) \<Rightarrow>
      case acknowledgeAlarms ids user e1 of (s', e2) \<Rightarrow> (s @ s', e2))"

definition activeAlarmCount :: "AlarmEngine \<Rightarrow> nat" where
  "activeAlarmCount e = length (filter (is_live \<circ> snd) (ae_states e))"

definition isPointInAlarm :: "AlarmEngine \<Rightarrow> u32 \<Rightarrow> bool" where
  "isPointInAlarm e pid =
     (case map_of (ae_states e) pid of None \<Rightarrow> False | Some st \<Rightarrow> ps_inAlarmBand st)"

definition ruleCount :: "AlarmEngine \<Rightarrow> nat" where
  "ruleCount e = card (dom (ae_rules e))"

section \<open>Runs\<close>

datatype AlarmCall =
    Reload "AlarmRule list"
  | Suppress u32 u64 u64
  | Unsuppress u32
  | StormConfig AlarmStormConfig
  | Sample u32 fl int u64
  | Acknowledge "nat list" string
  | FlushTimer int

fun alarm_call :: "AlarmCall \<Rightarrow> AlarmEngine \<Rightarrow> AlarmSignal list \<times> AlarmEngine" where
  "alarm_call (Reload rules) e = doReloadRules rules e"
| "alarm_call (Suppress pid expire nowEpoch) e = ([], doSuppressPoint pid expire nowEpoch e)"
| "alarm_call (Unsuppress pid) e = ([], doUnsuppressPoint pid e)"
| "alarm_call (StormConfig cfg) e = ([], doSetStormConfig cfg e)"
| "alarm_call (Sample pid v nowMono nowEpoch) e = evaluate pid v nowMono nowEpoch e"
| "alarm_call (Acknowledge ids user) e = acknowledgeAlarms ids user e"
| "alarm_call (FlushTimer nowMono) e = onStormFlush nowMono e"

fun alarm_run :: "AlarmCall list \<Rightarrow> AlarmEngine \<Rightarrow> AlarmSignal list \<times> AlarmEngine" where
  "alarm_run [] e = ([], e)"
| "alarm_run (c # cs) e =
     (case alarm_call c e of (s, e1) \<Rightarrow> case alarm_run cs e1 of (s', e2) \<Rightarrow> (s @ s', e2))"

fun recovered_ids :: "AlarmSignal list \<Rightarrow> nat list" where
  "recovered_ids (alarmRecovered i # sigs) = i # recovered_ids sigs"
| "recovered_ids (_ # sigs) = recovered_ids sigs"
| "recovered_ids [] = []"

fun triggered_ids :: "AlarmSignal list \<Rightarrow> nat list" where
  "triggered_ids (alarmTriggered ev # sigs) = ev_id ev # triggered_ids sigs"
| "triggered_ids (_ # sigs) = triggered_ids sigs"
| "triggered_ids [] = []"

lemma recovered_ids_append [simp]: "recovered_ids (xs @ ys) = recovered_ids xs @ recovered_ids ys"
  by (induction xs rule: recovered_ids.induct) simp_all

lemma triggered_ids_append [simp]: "triggered_ids (xs @ ys) = triggered_ids xs @ triggered_ids ys"
  by (induction xs rule: triggered_ids.induct) simp_all

section \<open>The table of point states\<close>

definition live_ids_of :: "PointAlarmState \<Rightarrow> nat multiset" where
  "live_ids_of st = (if is_live st then {# ps_activeId st #} else {#})"

definition live_ids :: "AlarmEngine \<Rightarrow> nat multiset" where
  "live_ids e = (\<Sum>(pid, st) \<in># mset (ae_states e). live_ids_of st)"

definition keys_ok :: "AlarmEngine \<Rightarrow> bool" where
  "keys_ok e \<longleftrightarrow> distinct (map fst (ae_states e))"

lemma live_ids_update:
  assumes "distinct (map fst al)"
  shows "(\<Sum>(p, st) \<in># mset (AList.update pid st al). live_ids_of st) +
           (case map_of al pid of Some old \<Rightarrow> live_ids_of old | None \<Rightarrow> {#}) =
         (\<Sum>(p, st) \<in># mset al. live_ids_of st) + live_ids_of st"
  using assms
proof (induction al)
  case (Cons kv al)
  obtain k v where [simp]: "kv = (k, v)" by (cases kv)
  show ?case
  proof (cases "k = pid")
    case True
    with Cons show ?thesis by (simp add: ac_simps)
  next
    case False
    with Cons show ?thesis by (auto simp: ac_simps)
  qed
qed simp

lemma live_ids_delete:
  assumes "distinct (map fst al)"
  shows "(\<Sum>(p, st) \<in># mset (AList.delete pid al). live_ids_of st) +
           (case map_of al pid of Some old \<Rightarrow> live_ids_of old | None \<Rightarrow> {#}) =
         (\<Sum>(p, st) \<in># mset al. live_ids_of st)"
  using assms
proof (induction al)
  case (Cons kv al)
  obtain k v where [simp]: "kv = (k, v)" by (cases kv)
  show ?case
  proof (cases "k = pid")
    case True
    with Cons have "pid \<notin> fst ` set al" by auto
    then have "map_of al pid = None" and "AList.delete pid al = al"
      by (simp_all add: map_of_eq_None_iff)
    with True show ?thesis by (simp add: ac_simps)
  next
    case False
    with Cons show ?thesis by (auto simp: ac_simps)
  qed
qed simp

lemma live_fields [simp]:
  "is_live (st\<lparr>ps_pointId := v0\<rparr>) = is_live st"
  "is_live (st\<lparr>ps_lastRaw := v1\<rparr>) = is_live st"
  "is_live (st\<lparr>ps_pendingOn := v2\<rparr>) = is_live st"
  "is_live (st\<lparr>ps_pendingOff := v3\<rparr>) = is_live st"
  "is_live (st\<lparr>ps_inAlarmBand := v4\<rparr>) = is_live st"
  "is_live (st\<lparr>ps_onSinceMono := v5\<rparr>) = is_live st"
  "is_live (st\<lparr>ps_offSinceMono := v6\<rparr>) = is_live st"
  "is_live (st\<lparr>ps_lastRaiseMono := v7\<rparr>) = is_live st"
  by (simp_all add: is_live_def)

lemma live_ids_of_fields [simp]:
  "live_ids_of (st\<lparr>ps_pointId := v0\<rparr>) = live_ids_of st"
  "live_ids_of (st\<lparr>ps_lastRaw := v1\<rparr>) = live_ids_of st"
  "live_ids_of (st\<lparr>ps_pendingOn := v2\<rparr>) = live_ids_of st"
  "live_ids_of (st\<lparr>ps_pendingOff := v3\<rparr>) = live_ids_of st"
  "live_ids_of (st\<lparr>ps_inAlarmBand := v4\<rparr>) = live_ids_of st"
  "live_ids_of (st\<lparr>ps_onSinceMono := v5\<rparr>) = live_ids_of st"
  "live_ids_of (st\<lparr>ps_offSinceMono := v6\<rparr>) = live_ids_of st"
  "live_ids_of (st\<lparr>ps_lastRaiseMono := v7\<rparr>) = live_ids_of st"
  by (simp_all add: live_ids_of_def)

lemma live_ids_of_new [simp]: "live_ids_of new_state = {#}"
  by (simp add: live_ids_of_def is_live_def new_state_def)

lemma live_ids_put:
  assumes "keys_ok e"
  shows "live_ids (put_state pid st e) + live_ids_of (state_of e pid) = live_ids e + live_ids_of st"
  using live_ids_update [of "ae_states e" pid st] assms
  by (cases "map_of (ae_states e) pid") (simp_all add: live_ids_def keys_ok_def put_state_def state_of_def)

lemma state_of_put [simp]:
  "state_of (put_state pid st e) q = (if q = pid then st else state_of e q)"
  by (simp add: state_of_def put_state_def update_conv')

lemma put_put [simp]: "put_state pid st (put_state pid st' e) = put_state pid st e"
  by (simp add: put_state_def)

lemma keys_ok_put [simp]: "keys_ok e \<Longrightarrow> keys_ok (put_state pid st e)"
  by (simp add: keys_ok_def put_state_def distinct_update)

lemma map_of_put [simp]:
  "map_of (ae_states (put_state pid st e)) q = (if q = pid then Some st else map_of (ae_states e) q)"
  by (simp add: put_state_def update_conv')

lemma put_fields [simp]:
  "ae_alarmIdSeq (put_state pid st e) = ae_alarmIdSeq e"
  "ae_rules (put_state pid st e) = ae_rules e"
  "ae_stormActive (put_state pid st e) = ae_stormActive e"
  "ae_stormConfig (put_state pid st e) = ae_stormConfig e"
  "ae_ring (put_state pid st e) = ae_ring e"
  "ae_ringCount (put_state pid st e) = ae_ringCount e"
  "ae_ringHead (put_state pid st e) = ae_ringHead e"
  "ae_suppressed (put_state pid st e) = ae_suppressed e"
  "ae_pendingStorm (put_state pid st e) = ae_pendingStorm e"
  by (simp_all add: put_state_def)

text \<open>What the bookkeeping reads of an engine, so that operations on other fields do not matter.\<close>

lemma bookkeeping_cong:
  assumes "ae_states e = ae_states e'"
  shows "live_ids e = live_ids e'" and "keys_ok e = keys_ok e'" and "state_of e p = state_of e' p"
  using assms by (simp_all add: live_ids_def keys_ok_def state_of_def)

lemma storm_states [simp]:
  "ae_states (snd (isStormTriggered n e)) = ae_states e"
  "ae_alarmIdSeq (snd (isStormTriggered n e)) = ae_alarmIdSeq e"
  "ae_rules (snd (isStormTriggered n e)) = ae_rules e"
  "ae_suppressed (snd (isStormTriggered n e)) = ae_suppressed e"
  by (simp_all add: isStormTriggered_def ring_record_def Let_def)

section \<open>Every alarm is accounted for\<close>

definition ps_ok :: "PointAlarmState \<Rightarrow> bool" where
  "ps_ok st \<longleftrightarrow> (is_live st \<longrightarrow> ps_inAlarmBand st) \<and> (ps_pendingOn st \<longrightarrow> \<not> ps_inAlarmBand st)"

definition issued :: "AlarmEngine \<Rightarrow> nat multiset" where
  "issued e = mset [1..<Suc (ae_alarmIdSeq e)]"

text \<open>The ids issued so far are the recovered ones and the ones that are live at some point.\<close>

definition accounted :: "nat list \<Rightarrow> AlarmEngine \<Rightarrow> bool" where
  "accounted R e \<longleftrightarrow> mset R + live_ids e = issued e"

definition alarm_ok :: "AlarmEngine \<Rightarrow> bool" where
  "alarm_ok e \<longleftrightarrow> keys_ok e \<and> (\<forall>pid. ps_ok (state_of e pid))"

lemma ps_ok_new [simp]: "ps_ok new_state"
  by (simp add: ps_ok_def new_state_def is_live_def)

lemma alarm_ok_put [intro]: "alarm_ok e \<Longrightarrow> ps_ok st \<Longrightarrow> alarm_ok (put_state pid st e)"
  by (simp add: alarm_ok_def)

lemma alarm_ok_state: "alarm_ok e \<Longrightarrow> ps_ok (state_of e pid)"
  by (simp add: alarm_ok_def)

text \<open>A table update that leaves the live id of the point as it is.\<close>

lemma accounted_put:
  assumes "alarm_ok e" and "live_ids_of st = live_ids_of (state_of e pid)" and "accounted R e"
  shows "accounted R (put_state pid st e)"
proof -
  have "live_ids (put_state pid st e) = live_ids e"
    using live_ids_put [of e pid st] assms(1,2) by (simp add: alarm_ok_def)
  with assms(3) show ?thesis by (simp add: accounted_def issued_def)
qed

text \<open>What one operation does to the bookkeeping: it keeps it, with the ids it reports recovered
  added, and reports as triggered only the id it issued.\<close>

definition books ::
  "AlarmEngine \<Rightarrow> AlarmSignal list \<times> AlarmEngine \<Rightarrow> bool" where
  "books e res \<longleftrightarrow>
     alarm_ok (snd res) \<and>
     (\<forall>R. accounted R e \<longrightarrow> accounted (R @ recovered_ids (fst res)) (snd res)) \<and>
     mset (triggered_ids (fst res)) \<subseteq># mset [Suc (ae_alarmIdSeq e)..<Suc (ae_alarmIdSeq (snd res))] \<and>
     ae_alarmIdSeq e \<le> ae_alarmIdSeq (snd res)"

lemma books_same:
  assumes "alarm_ok e" and "ae_states e' = ae_states e" and "ae_alarmIdSeq e' = ae_alarmIdSeq e"
    and "recovered_ids sigs = []" and "triggered_ids sigs = []"
  shows "books e (sigs, e')"
  using assms bookkeeping_cong [of e' e]
  by (simp add: books_def alarm_ok_def accounted_def issued_def)

lemma books_put:
  assumes "alarm_ok e" and "ps_ok st" and "live_ids_of st = live_ids_of (state_of e pid)"
  shows "books e ([], put_state pid st e)"
  using assms accounted_put [OF assms(1,3)] by (auto simp: books_def)

lemma books_trans:
  assumes "books e (s1, e1)" and "books e1 (s2, e2)"
  shows "books e (s1 @ s2, e2)"
proof -
  let ?a = "ae_alarmIdSeq e" and ?b = "ae_alarmIdSeq e1" and ?c = "ae_alarmIdSeq e2"
  have le: "?a \<le> ?b" "?b \<le> ?c" using assms by (simp_all add: books_def)
  have "mset (triggered_ids s1) + mset (triggered_ids s2) \<subseteq>#
      mset [Suc ?a..<Suc ?b] + mset [Suc ?b..<Suc ?c]"
    using assms by (intro subset_mset.add_mono) (simp_all add: books_def)
  moreover have "[Suc ?a..<Suc ?c] = [Suc ?a..<Suc ?b] @ [Suc ?b..<Suc ?c]"
    using upt_add_eq_append [of "Suc ?a" "Suc ?b" "?c - ?b"] le by simp
  ultimately have "mset (triggered_ids (s1 @ s2)) \<subseteq># mset [Suc ?a..<Suc ?c]"
    by (simp only: triggered_ids_append mset_append)
  then show ?thesis
    using assms le by (auto simp: books_def simp del: upt_Suc)
qed

lemma books_pre:
  assumes "alarm_ok e" and "ae_states e' = ae_states e" and "ae_alarmIdSeq e' = ae_alarmIdSeq e"
    and "books e' res"
  shows "books e res"
  using books_trans [OF books_same [OF assms(1-3), of "[]"], of "fst res" "snd res"] assms(4) by simp

lemma books_put_pre:
  assumes "alarm_ok e" and "ps_ok st" and "live_ids_of st = live_ids_of (state_of e pid)"
    and "books (put_state pid st e) res"
  shows "books e res"
  using books_trans [OF books_put [OF assms(1-3)], of "fst res" "snd res"] assms(4) by simp

text \<open>Raising issues one id, for a point that had none.\<close>

lemma issue_books:
  assumes ok: "alarm_ok e" and none: "live_ids_of (state_of e pid) = {#}"
    and st: "ps_ok st" "live_ids_of st = {# Suc (ae_alarmIdSeq e) #}"
    and e': "ae_states e' = ae_states (put_state pid st e)" "ae_alarmIdSeq e' = Suc (ae_alarmIdSeq e)"
    and sigs: "recovered_ids sigs = []" "triggered_ids sigs = [] \<or> triggered_ids sigs = [Suc (ae_alarmIdSeq e)]"
  shows "books e (sigs, e')"
proof -
  have "live_ids e' = live_ids e + {# Suc (ae_alarmIdSeq e) #}"
    using live_ids_put [of e pid st] bookkeeping_cong(1) [OF e'(1)] ok none st
    by (simp add: alarm_ok_def)
  moreover have "alarm_ok e'"
    using alarm_ok_put [OF ok st(1), of pid] bookkeeping_cong(2,3) [OF e'(1)] by (simp add: alarm_ok_def)
  ultimately show ?thesis
    using e'(2) sigs by (auto simp: books_def accounted_def issued_def)
qed

lemma raise_books:
  assumes ok: "alarm_ok e" and dead: "\<not> is_live (state_of e pid)"
    and band: "ps_inAlarmBand (state_of e pid)"
  shows "books e (raiseAlarm pid r value nowMono nowEpoch e)"
proof (cases "ar_suppressWindowMs r > 0 \<and> nowMono - ps_lastRaiseMono (state_of e pid) < uint (ar_suppressWindowMs r)")
  case True
  then show ?thesis
    using books_put [OF ok alarm_ok_state [OF ok], of pid pid] by (simp add: raiseAlarm_def Let_def)
next
  case False
  define st where "st = (state_of e pid)\<lparr>ps_activeId := Suc (ae_alarmIdSeq e), ps_status := Active,
    ps_lastRaiseMono := nowMono\<rparr>"
  have st: "ps_ok st" "live_ids_of st = {# Suc (ae_alarmIdSeq e) #}"
    using alarm_ok_state [OF ok, of pid] band by (simp_all add: st_def ps_ok_def is_live_def live_ids_of_def)
  have none: "live_ids_of (state_of e pid) = {#}"
    using dead by (simp add: live_ids_of_def)
  show ?thesis
  proof (cases "raiseAlarm pid r value nowMono nowEpoch e")
    case (Pair sigs e')
    have "ae_states e' = ae_states (put_state pid st e)" "ae_alarmIdSeq e' = Suc (ae_alarmIdSeq e)"
      "recovered_ids sigs = []" "triggered_ids sigs = [] \<or> triggered_ids sigs = [Suc (ae_alarmIdSeq e)]"
      using Pair False
      by (auto simp: raiseAlarm_def Let_def st_def alarm_event_def put_state_def split: if_splits)
    then show ?thesis
      unfolding Pair by (rule issue_books [OF ok none st])
  qed
qed

text \<open>Recovery retires the id of a point.\<close>

lemma retire_books:
  assumes ok: "alarm_ok e" and st: "ps_ok st" "live_ids_of st = {#}"
    and old: "live_ids_of (state_of e pid) = {# i #}"
  shows "books e ([alarmRecovered i], put_state pid st e)"
proof -
  have "live_ids (put_state pid st e) + {# i #} = live_ids e"
    using live_ids_put [of e pid st] ok st old by (simp add: alarm_ok_def)
  then have "mset (R @ [i]) + live_ids (put_state pid st e) = mset R + live_ids e" for R
    by (simp flip: \<open>_ = live_ids e\<close>)
  then have "accounted (R @ [i]) (put_state pid st e) \<longleftrightarrow> accounted R e" for R
    by (simp only: accounted_def issued_def put_fields)
  with alarm_ok_put [OF ok st(1)] show ?thesis by (simp add: books_def)
qed

lemma recover_put_books:
  assumes ok: "alarm_ok e" and same: "ps_status s = ps_status (state_of e pid)"
    "ps_activeId s = ps_activeId (state_of e pid)"
    and band: "is_live s \<or> \<not> ps_inAlarmBand s \<and> \<not> ps_pendingOn s \<or> ps_ok s"
  shows "books e (recoverAlarm pid (put_state pid s e))"
proof (cases "is_live s")
  case True
  then have "live_ids_of (state_of e pid) = {# ps_activeId s #}"
    using same by (simp add: live_ids_of_def is_live_def)
  with True show ?thesis
    by (simp add: recoverAlarm_def) (rule retire_books [OF ok], simp_all add: ps_ok_def live_ids_of_def is_live_def)
next
  case False
  then have "live_ids_of s = live_ids_of (state_of e pid)" and "ps_ok s"
    using same band by (auto simp: live_ids_of_def is_live_def ps_ok_def)
  with False show ?thesis
    using books_put [OF ok] by (simp add: recoverAlarm_def)
qed

lemma on_side_books:
  assumes ok: "alarm_ok e" and st: "ps_ok st" "live_ids_of st = live_ids_of (state_of e pid)"
  shows "books e (on_side pid r value nowMono nowEpoch st e)"
proof -
  define e1 where "e1 = snd (isStormTriggered nowMono e)"
  define st1 where "st1 = (if \<not> ps_pendingOn st \<and> \<not> ps_inAlarmBand st
    then st\<lparr>ps_pendingOn := True, ps_onSinceMono := nowMono\<rparr> else st)"
  have e1: "ae_states e1 = ae_states e" "ae_alarmIdSeq e1 = ae_alarmIdSeq e"
    by (simp_all add: e1_def)
  have ok1: "alarm_ok e1"
    using ok bookkeeping_cong(2,3) [OF e1(1)] by (simp add: alarm_ok_def)
  have "live_ids_of st1 = live_ids_of st"
    by (simp add: st1_def is_live_def live_ids_of_def)
  then have st1: "ps_ok st1" "live_ids_of st1 = live_ids_of (state_of e1 pid)"
    using st bookkeeping_cong(3) [OF e1(1)] by (auto simp: st1_def ps_ok_def is_live_def)
  show ?thesis
  proof (rule books_pre [OF ok e1])
    let ?up = "st1\<lparr>ps_pendingOn := False, ps_inAlarmBand := True\<rparr>"
    show "books e1 (on_side pid r value nowMono nowEpoch st e)"
    proof (cases "ps_pendingOn st1 \<and> nowMono - ps_onSinceMono st1 \<ge> uint (ar_onDelayMs r)")
      case True
      then have dead: "\<not> is_live st1" using st1(1) by (auto simp: ps_ok_def)
      have "books e1 (raiseAlarm pid r value nowMono nowEpoch (put_state pid ?up e1))"
      proof (rule books_put_pre [OF ok1])
        show up: "ps_ok ?up" by (simp add: ps_ok_def)
        show "live_ids_of ?up = live_ids_of (state_of e1 pid)"
          using st1(2) by simp
        show "books (put_state pid ?up e1) (raiseAlarm pid r value nowMono nowEpoch (put_state pid ?up e1))"
          using dead by (intro raise_books alarm_ok_put ok1 up) (simp_all add: is_live_def)
      qed
      with True show ?thesis by (simp add: on_side_def Let_def flip: e1_def st1_def)
    next
      case False
      then show ?thesis
        using books_put [OF ok1 st1] by (auto simp: on_side_def Let_def simp flip: e1_def st1_def)
    qed
  qed
qed

lemma off_side_books:
  assumes ok: "alarm_ok e" and st: "ps_ok st" "ps_status st = ps_status (state_of e pid)"
    "ps_activeId st = ps_activeId (state_of e pid)" 
  shows "books e (off_side pid r nowMono st e)"
proof -
  define st1 where "st1 = (if ps_inAlarmBand st \<and> \<not> ps_pendingOff st
    then st\<lparr>ps_pendingOff := True, ps_offSinceMono := nowMono\<rparr> else st)"
  have st1: "ps_ok st1" "ps_status st1 = ps_status (state_of e pid)"
    "ps_activeId st1 = ps_activeId (state_of e pid)"
    using st by (auto simp: st1_def ps_ok_def is_live_def)
  let ?down = "st1\<lparr>ps_pendingOff := False, ps_inAlarmBand := False\<rparr>"
  have "books e (recoverAlarm pid (put_state pid ?down e))"
    by (rule recover_put_books [OF ok]) (use st1 in \<open>auto simp: ps_ok_def is_live_def\<close>)
  moreover have "books e ([], put_state pid st1 e)"
    by (rule books_put [OF ok st1(1)]) (use st1 in \<open>simp add: live_ids_of_def is_live_def\<close>)
  ultimately show ?thesis by (simp add: off_side_def Let_def flip: st1_def)
qed

lemma evaluate_books:
  assumes ok: "alarm_ok e"
  shows "books e (evaluate pid value nowMono nowEpoch e)"
proof (cases "ae_rules e pid")
  case None
  then show ?thesis using books_same [OF ok] by (simp add: evaluate_def)
next
  case (Some r)
  let ?st = "(state_of e pid)\<lparr>ps_pointId := pid, ps_lastRaw := value\<rparr>"
  have st: "ps_ok ?st" "live_ids_of ?st = live_ids_of (state_of e pid)"
    using alarm_ok_state [OF ok, of pid] by (simp_all add: ps_ok_def is_live_def live_ids_of_def)
  have mid: "books e ([], put_state pid (?st\<lparr>ps_pendingOn := False, ps_pendingOff := False\<rparr>) e)"
    by (rule books_put [OF ok]) (use st in \<open>simp_all add: ps_ok_def is_live_def live_ids_of_def\<close>)
  show ?thesis
    using Some on_side_books [OF ok st] off_side_books [OF ok st(1)] mid books_same [OF ok, of e "[]"]
    by (simp add: evaluate_def Let_def)
qed

text \<open>Reloading: each point in turn.\<close>

lemma delete_books:
  assumes ok: "alarm_ok e" and dead: "\<not> is_live (state_of e pid)"
  shows "books e ([], e\<lparr>ae_states := AList.delete pid (ae_states e)\<rparr>)"
proof -
  have keys: "distinct (map fst (ae_states e))" using ok by (simp add: alarm_ok_def keys_ok_def)
  let ?e = "e\<lparr>ae_states := AList.delete pid (ae_states e)\<rparr>"
  have "live_ids ?e = live_ids e"
    using live_ids_delete [OF keys, of pid] dead
    by (cases "map_of (ae_states e) pid") (simp_all add: live_ids_def state_of_def live_ids_of_def)
  moreover have "state_of ?e q = (if q = pid then new_state else state_of e q)" for q
    by (simp add: state_of_def delete_conv')
  ultimately show ?thesis
    using ok distinct_delete [OF keys, of pid]
    by (simp add: books_def alarm_ok_def keys_ok_def accounted_def issued_def)
qed

lemma recoverAlarm_state: "\<not> is_live (state_of (snd (recoverAlarm pid e)) pid)"
  by (auto simp: recoverAlarm_def is_live_def state_of_def put_state_def update_conv' new_state_def
      split: option.splits)

lemma recover_books:
  assumes "alarm_ok e"
  shows "books e (recoverAlarm pid e)"
proof (cases "map_of (ae_states e) pid")
  case None
  then show ?thesis using books_same [OF assms] by (simp add: recoverAlarm_def)
next
  case (Some st)
  then have "state_of e pid = st" and "put_state pid st e = e"
    by (simp_all add: state_of_def put_state_def update_triv)
  then show ?thesis
    using recover_put_books [OF assms, of st pid] alarm_ok_state [OF assms, of pid] by simp
qed

lemma migrate_books:
  assumes "books e0 acc"
  shows "books e0 (migrate rules pid acc)"
proof -
  obtain sigs e where acc: "acc = (sigs, e)" by (cases acc)
  with assms have ok: "alarm_ok e" and b: "books e0 (sigs, e)" by (auto simp: books_def)
  show ?thesis
  proof (cases "rules pid")
    case (Some new)
    have "live_ids_of (reset_delays (state_of e pid)) = live_ids_of (state_of e pid)"
      and "ps_ok (reset_delays (state_of e pid))"
      using alarm_ok_state [OF ok, of pid] by (simp_all add: reset_delays_def ps_ok_def)
    from books_put [OF ok this(2,1)] show ?thesis
      using b books_trans [OF b, of "[]"] by (simp add: migrate_def acc Some Let_def)
  next
    case None
    obtain s e1 where r: "(if is_live (state_of e pid) then recoverAlarm pid e else ([], e)) = (s, e1)"
      by (cases "if is_live (state_of e pid) then recoverAlarm pid e else ([], e)") auto
    have b1: "books e (s, e1)"
      using recover_books [OF ok, of pid] books_same [OF ok, of e "[]"] r by (auto split: if_splits)
    moreover have "\<not> is_live (state_of e1 pid)"
      using r recoverAlarm_state [of pid e] by (auto split: if_splits)
    ultimately have "books e1 ([], e1\<lparr>ae_states := AList.delete pid (ae_states e1)\<rparr>)"
      by (intro delete_books) (simp_all add: books_def)
    then show ?thesis
      using books_trans [OF books_trans [OF b b1], of "[]"] by (simp add: migrate_def acc None r)
  qed
qed

lemma reload_books:
  assumes ok: "alarm_ok e"
  shows "books e (doReloadRules rules e)"
proof -
  have fold: "books e acc \<Longrightarrow> books e (fold (migrate m) ps acc)" for m ps acc
    by (induction ps arbitrary: acc) (simp_all del: split_paired_All add: migrate_books)
  obtain sigs e' where r: "fold (migrate (new_rules rules)) (map fst (ae_states e)) ([], e) = (sigs, e')"
    by (cases "fold (migrate (new_rules rules)) (map fst (ae_states e)) ([], e)") auto
  then have b: "books e (sigs, e')"
    using fold [OF books_same [OF ok, of e "[]"], of "new_rules rules" "map fst (ae_states e)"] by simp
  then have "alarm_ok e'" by (simp add: books_def)
  from books_trans [OF b books_same [OF this, of "e'\<lparr>ae_rules := new_rules rules\<rparr>" "[]"]] show ?thesis
    using r by (simp add: doReloadRules_def Let_def)
qed

lemma acknowledge_books:
  assumes ok: "alarm_ok e"
  shows "books e (acknowledgeAlarm i user e)"
proof (cases "find (\<lambda>(pid, st). ps_activeId st = i \<and> ps_status st = Active) (ae_states e)")
  case None
  then show ?thesis using books_same [OF ok] by (simp add: acknowledgeAlarm_def)
next
  case (Some ps)
  obtain pid st where ps: "ps = (pid, st)" by (cases ps)
  from Some have mem: "(pid, st) \<in> set (ae_states e)" and act: "ps_status st = Active"
    unfolding ps find_Some_iff by (metis nth_mem, auto)
  then have st: "state_of e pid = st"
    using ok by (auto simp: alarm_ok_def keys_ok_def state_of_def dest: map_of_is_SomeI)
  have "books e ([], put_state pid (st\<lparr>ps_status := Confirmed\<rparr>) e)"
    using alarm_ok_state [OF ok, of pid] act
    by (intro books_put [OF ok]) (auto simp: st ps_ok_def is_live_def live_ids_of_def)
  then show ?thesis
    using Some ps by (simp add: acknowledgeAlarm_def books_def)
qed

lemma acknowledge_all_books: "alarm_ok e \<Longrightarrow> books e (acknowledgeAlarms ids user e)"
proof (induction ids arbitrary: e)
  case Nil
  then show ?case using books_same [of e e "[]"] by simp
next
  case (Cons i ids)
  obtain s e1 where a: "acknowledgeAlarm i user e = (s, e1)" by (cases "acknowledgeAlarm i user e")
  obtain s' e2 where b: "acknowledgeAlarms ids user e1 = (s', e2)" by (cases "acknowledgeAlarms ids user e1")
  have "books e (s, e1)" using acknowledge_books [OF Cons.prems, of i user] a by simp
  moreover from this have "books e1 (s', e2)" using Cons.IH [of e1] b by (simp add: books_def)
  ultimately show ?case using books_trans a b by simp
qed

lemma flush_books:
  assumes "alarm_ok e"
  shows "books e (onStormFlush nowMono e)"
  using assms by (auto simp: onStormFlush_def flushStormBatch_def Let_def intro!: books_same)

lemma alarm_call_books: "alarm_ok e \<Longrightarrow> books e (alarm_call c e)"
  by (cases c) (auto simp: doSuppressPoint_def doUnsuppressPoint_def doSetStormConfig_def
      intro: books_same reload_books evaluate_books acknowledge_all_books flush_books)

lemma alarm_run_books: "alarm_ok e \<Longrightarrow> books e (alarm_run cs e)"
proof (induction cs arbitrary: e)
  case Nil
  then show ?case using books_same [of e e "[]"] by simp
next
  case (Cons c cs)
  obtain s e1 where a: "alarm_call c e = (s, e1)" by (cases "alarm_call c e")
  obtain s' e2 where b: "alarm_run cs e1 = (s', e2)" by (cases "alarm_run cs e1")
  have "books e (s, e1)" using alarm_call_books [OF Cons.prems, of c] a by simp
  moreover from this have "books e1 (s', e2)" using Cons.IH [of e1] b by (simp add: books_def)
  ultimately show ?case using books_trans a b by simp
qed

lemma alarm_ok_new: "alarm_ok alarm_new"
  by (simp add: alarm_ok_def alarm_new_def keys_ok_def state_of_def)

lemma accounted_new: "accounted [] alarm_new"
  by (simp add: accounted_def issued_def live_ids_def alarm_new_def)

section \<open>Properties\<close>

text \<open>Property C17: no alarm is lost or doubled by the engine's bookkeeping. After any calls, every
  alarm id issued since the start either was reported recovered exactly once or is the id of
  exactly one point that is now active or confirmed, and of nothing else; and no id is triggered
  twice. Reloading the rules is no exception: the alarms of a point whose rule is gone are
  recovered before the point is dropped.\<close>

theorem alarms_accounted:
  "mset (recovered_ids (fst (alarm_run calls alarm_new))) + live_ids (snd (alarm_run calls alarm_new)) =
     mset [1..<Suc (ae_alarmIdSeq (snd (alarm_run calls alarm_new)))] \<and>
   mset (triggered_ids (fst (alarm_run calls alarm_new))) \<subseteq>#
     mset [1..<Suc (ae_alarmIdSeq (snd (alarm_run calls alarm_new)))]"
proof -
  have "books alarm_new (alarm_run calls alarm_new)"
    by (rule alarm_run_books [OF alarm_ok_new])
  moreover from this have "accounted ([] @ recovered_ids (fst (alarm_run calls alarm_new))) (snd (alarm_run calls alarm_new))"
    using accounted_new unfolding books_def by blast
  ultimately show ?thesis
    by (simp add: books_def accounted_def issued_def alarm_new_def del: upt_Suc)
qed

subsection \<open>Alarms swallowed by the suppression window\<close>

definition swallowed :: "AlarmRule \<Rightarrow> u32 \<Rightarrow> AlarmEngine \<Rightarrow> bool" where
  "swallowed r pid e \<longleftrightarrow> ae_rules e pid = Some r \<and> pid \<notin> ae_suppressed e \<and>
     ps_inAlarmBand (state_of e pid) \<and> \<not> ps_pendingOn (state_of e pid) \<and> \<not> is_live (state_of e pid)"

definition samples :: "u32 \<Rightarrow> (fl \<times> int \<times> u64) list \<Rightarrow> AlarmCall list" where
  "samples pid = map (\<lambda>(v, nowMono, nowEpoch). Sample pid v nowMono nowEpoch)"

lemma swallowed_step:
  assumes "swallowed r pid e" and "\<not> inOffSide r v"
  shows "fst (evaluate pid v nowMono nowEpoch e) = [] \<and>
     swallowed r pid (snd (evaluate pid v nowMono nowEpoch e)) \<and>
     ae_alarmIdSeq (snd (evaluate pid v nowMono nowEpoch e)) = ae_alarmIdSeq e"
  using assms by (simp add: swallowed_def evaluate_def on_side_def Let_def)

lemma swallowed_run:
  assumes "swallowed r pid e" and "\<forall>(v, t, ep) \<in> set xs. \<not> inOffSide r v"
  shows "fst (alarm_run (samples pid xs) e) = [] \<and> swallowed r pid (snd (alarm_run (samples pid xs) e)) \<and>
     ae_alarmIdSeq (snd (alarm_run (samples pid xs) e)) = ae_alarmIdSeq e"
  using assms
proof (induction xs arbitrary: e)
  case (Cons x xs)
  obtain v t ep where x: "x = (v, t, ep)" by (cases x)
  note step = swallowed_step [OF Cons.prems(1), of v t ep]
  with Cons.prems(2) show ?case
    using Cons.IH [of "snd (evaluate pid v t ep e)"]
    by (auto simp: samples_def x split: prod.splits)
qed (simp add: samples_def)

lemma swallow:
  assumes "ae_rules e pid = Some r" and "pid \<notin> ae_suppressed e" and "\<not> is_live (state_of e pid)"
    and "inOnSide r v" and "ps_pendingOn (state_of e pid)"
    and "nowMono - ps_onSinceMono (state_of e pid) \<ge> uint (ar_onDelayMs r)"
    and "ar_suppressWindowMs r > 0"
    and "nowMono - ps_lastRaiseMono (state_of e pid) < uint (ar_suppressWindowMs r)"
  shows "fst (evaluate pid v nowMono nowEpoch e) = [] \<and>
     swallowed r pid (snd (evaluate pid v nowMono nowEpoch e)) \<and>
     ae_alarmIdSeq (snd (evaluate pid v nowMono nowEpoch e)) = ae_alarmIdSeq e"
  using assms by (simp add: evaluate_def on_side_def raiseAlarm_def swallowed_def Let_def)

text \<open>An alarm that is confirmed inside the suppression window is not delayed but
  dropped for good. When the delay of a point that has no active alarm runs out less than
  \<open>suppressWindowMs\<close> after its last alarm (for a fresh engine: after the start of the monotonic
  clock), nothing is emitted, and nothing is emitted or issued by any later samples of the point,
  however far beyond the threshold and however long after the window, as long as no sample lies
  on the recovery side; all that time the engine answers that the point is in alarm.\<close>

theorem suppressed_alarm_lost:
  assumes "ae_rules e pid = Some r" and "pid \<notin> ae_suppressed e" and "\<not> is_live (state_of e pid)"
    and "inOnSide r v" and "ps_pendingOn (state_of e pid)"
    and "nowMono - ps_onSinceMono (state_of e pid) \<ge> uint (ar_onDelayMs r)"
    and "ar_suppressWindowMs r > 0"
    and "nowMono - ps_lastRaiseMono (state_of e pid) < uint (ar_suppressWindowMs r)"
    and "\<forall>(v', t, ep) \<in> set later. \<not> inOffSide r v'"
  shows "case alarm_run (samples pid ((v, nowMono, nowEpoch) # later)) e of
     (sigs, e') \<Rightarrow> sigs = [] \<and> ae_alarmIdSeq e' = ae_alarmIdSeq e \<and> isPointInAlarm e' pid"
proof -
  let ?e1 = "snd (evaluate pid v nowMono nowEpoch e)"
  note first = swallow [OF assms(1-8), of nowEpoch]
  then have rest: "fst (alarm_run (samples pid later) ?e1) = [] \<and>
      swallowed r pid (snd (alarm_run (samples pid later) ?e1)) \<and>
      ae_alarmIdSeq (snd (alarm_run (samples pid later) ?e1)) = ae_alarmIdSeq ?e1"
    using swallowed_run [of r pid ?e1 later] assms(9) by blast
  then have "isPointInAlarm (snd (alarm_run (samples pid later) ?e1)) pid"
    by (auto simp: swallowed_def isPointInAlarm_def state_of_def new_state_def split: option.splits)
  with first rest show ?thesis
    by (auto simp: samples_def split: prod.splits)
qed

definition demo_rule :: AlarmRule where
  "demo_rule = default_rule\<lparr>ar_pointId := 9, ar_onThreshold := Fin 55, ar_offThreshold := Fin 50\<rparr>"

definition demo_alarm :: AlarmEngine where
  "demo_alarm = snd (alarm_run [Reload [demo_rule], Sample 9 (Fin 60) 5000 0] alarm_new)"

lemmas alarm_defs = evaluate_def on_side_def off_side_def raiseAlarm_def recoverAlarm_def Let_def
  isStormTriggered_def ring_record_def doReloadRules_def new_rules_def state_of_def put_state_def
  inOnSide_def inOffSide_def is_live_def new_state_def alarm_new_def default_storm_def
  demo_rule_def default_rule_def

lemma demo_alarm_facts:
  "ae_rules demo_alarm 9 = Some demo_rule" "9 \<notin> ae_suppressed demo_alarm"
  "\<not> is_live (state_of demo_alarm 9)" "ps_pendingOn (state_of demo_alarm 9)"
  "ps_onSinceMono (state_of demo_alarm 9) = 5000" "ps_lastRaiseMono (state_of demo_alarm 9) = 0"
  "ae_alarmIdSeq demo_alarm = 0"
  by (simp_all add: demo_alarm_def alarm_defs)

theorem suppressed_alarm_lost_witness:
  "case alarm_run (samples 9 [(Fin 60, 9000, 0), (Fin 500, 10000000000, 0)]) demo_alarm of
     (sigs, e') \<Rightarrow> sigs = [] \<and> ae_alarmIdSeq e' = 0 \<and> isPointInAlarm e' 9"
  using suppressed_alarm_lost [OF demo_alarm_facts(1-3), of "Fin 60" 9000 "[(Fin 500, 10000000000, 0)]" 0]
    demo_alarm_facts(4-7)
  by (simp add: inOnSide_def inOffSide_def demo_rule_def default_rule_def)

subsection \<open>Storm detection\<close>

definition calm :: "AlarmEngine \<Rightarrow> bool" where
  "calm e \<longleftrightarrow> \<not> ae_stormActive e \<and> ae_pendingStorm e = [] \<and> length (ae_ring e) = ALARM_TIME_RING_SIZE \<and>
     ae_ringCount e \<le> ALARM_TIME_RING_SIZE \<and>
     ALARM_TIME_RING_SIZE \<le> unat (sc_threshold (ae_stormConfig e))"

lemma in_window_bound: "in_window e nowMono \<le> ae_ringCount e"
  unfolding in_window_def by (rule order_trans [OF length_filter_le]) simp

lemma calm_cong:
  assumes "calm e" and "ae_stormActive e' = ae_stormActive e" and "ae_ring e' = ae_ring e"
    and "ae_pendingStorm e' = ae_pendingStorm e"
    and "ae_ringCount e' = ae_ringCount e" and "ae_stormConfig e' = ae_stormConfig e"
  shows "calm e'"
  using assms by (simp add: calm_def)

lemma calm_put [simp]: "calm (put_state pid st e) = calm e"
  by (simp add: calm_def)

lemma calm_record: "calm e \<Longrightarrow> calm (ring_record n e)"
  by (auto simp: calm_def ring_record_def Let_def)

lemma calm_storm: "calm e \<Longrightarrow> calm (snd (isStormTriggered n e))"
proof -
  assume "calm e"
  then have c: "calm (ring_record n e)" by (rule calm_record)
  then have "\<not> in_window (ring_record n e) n > unat (sc_threshold (ae_stormConfig (ring_record n e)))"
    using in_window_bound [of "ring_record n e" n] by (auto simp: calm_def)
  with c \<open>calm e\<close> show ?thesis
    by (auto simp: isStormTriggered_def Let_def calm_def)
qed

lemma calm_raise: "calm e \<Longrightarrow> calm (snd (raiseAlarm pid r v n ep e))"
  by (auto simp: raiseAlarm_def Let_def calm_def)

lemma calm_recover: "calm e \<Longrightarrow> calm (snd (recoverAlarm pid e))"
  by (auto simp: recoverAlarm_def split: option.splits)

lemma calm_evaluate: "calm e \<Longrightarrow> calm (snd (evaluate pid v n ep e))"
  by (auto simp: evaluate_def on_side_def off_side_def Let_def
      intro!: calm_raise calm_recover calm_storm split: option.splits)

lemma calm_migrate: "calm (snd acc) \<Longrightarrow> calm (snd (migrate m pid acc))"
proof (cases acc)
  case (Pair sigs e)
  moreover assume "calm (snd acc)"
  ultimately have "calm e" by simp
  then show ?thesis
    using calm_recover [of e pid]
    by (auto simp: migrate_def Pair Let_def split: option.splits prod.splits intro: calm_cong)
qed

lemma calm_reload: "calm e \<Longrightarrow> calm (snd (doReloadRules rules e))"
proof -
  assume "calm e"
  moreover have "calm (snd acc) \<Longrightarrow> calm (snd (fold (migrate m) ps acc))" for m ps acc
    by (induction ps arbitrary: acc) (simp_all del: split_paired_All add: calm_migrate)
  ultimately have "calm (snd (fold (migrate (new_rules rules)) (map fst (ae_states e)) ([], e)))"
    by simp
  then show ?thesis
    by (auto simp: doReloadRules_def Let_def calm_def split: prod.splits)
qed

lemma calm_acknowledge: "calm e \<Longrightarrow> calm (snd (acknowledgeAlarms ids user e))"
  by (induction ids arbitrary: e)
    (auto simp: acknowledgeAlarm_def split: option.splits prod.splits, (metis calm_put snd_conv)+)

definition high_threshold :: "AlarmCall \<Rightarrow> bool" where
  "high_threshold c \<longleftrightarrow> (case c of StormConfig cfg \<Rightarrow> ALARM_TIME_RING_SIZE \<le> unat (sc_threshold cfg) | _ \<Rightarrow> True)"

lemma calm_call: "calm e \<Longrightarrow> high_threshold c \<Longrightarrow> calm (snd (alarm_call c e))"
  by (cases c) (auto simp: high_threshold_def doSuppressPoint_def doUnsuppressPoint_def doSetStormConfig_def
      onStormFlush_def calm_def [of "_\<lparr>ae_stormConfig := _, ae_flushInterval := _\<rparr>"]
      intro: calm_reload calm_evaluate calm_acknowledge calm_cong, simp_all add: calm_def)

lemma calm_run: "calm e \<Longrightarrow> \<forall>c \<in> set cs. high_threshold c \<Longrightarrow> calm (snd (alarm_run cs e))"
proof (induction cs arbitrary: e)
  case (Cons c cs)
  then have "calm (snd (alarm_call c e))" by (simp add: calm_call)
  with Cons show ?case by (auto split: prod.splits) (metis snd_conv)
qed simp

text \<open>The storm protection is out of reach of its own default configuration. The window
  remembers 128 over-limit samples, so as long as no call configures a threshold below 128 (the
  default is 200) the engine is never in storm mode and never collects alarms for a batch,
  whatever the number and rate of the samples.\<close>

theorem storm_never_detected:
  assumes "\<forall>c \<in> set calls. high_threshold c"
  shows "\<not> ae_stormActive (snd (alarm_run calls alarm_new)) \<and>
     ae_pendingStorm (snd (alarm_run calls alarm_new)) = [] \<and>
     (\<forall>n. in_window (snd (alarm_run calls alarm_new)) n \<le>
        unat (sc_threshold (ae_stormConfig (snd (alarm_run calls alarm_new)))))"
proof -
  have "calm alarm_new"
    by (simp add: calm_def alarm_new_def default_storm_def ALARM_TIME_RING_SIZE_def)
  then have "calm (snd (alarm_run calls alarm_new))" (is "calm ?e")
    using assms by (rule calm_run)
  moreover from this have "in_window ?e n \<le> unat (sc_threshold (ae_stormConfig ?e))" for n
    using in_window_bound [of ?e n] by (simp add: calm_def)
  ultimately show ?thesis by (simp add: calm_def)
qed

theorem storm_never_detected_witness:
  "\<not> ae_stormActive (snd (alarm_run (Reload [demo_rule] # replicate 5000 (Sample 9 (Fin 60) 1000 0)) alarm_new)) \<and>
   ae_pendingStorm (snd (alarm_run (Reload [demo_rule] # replicate 5000 (Sample 9 (Fin 60) 1000 0)) alarm_new)) = [] \<and>
   (\<forall>n. in_window (snd (alarm_run (Reload [demo_rule] # replicate 5000 (Sample 9 (Fin 60) 1000 0)) alarm_new)) n \<le>
      unat (sc_threshold (ae_stormConfig
        (snd (alarm_run (Reload [demo_rule] # replicate 5000 (Sample 9 (Fin 60) 1000 0)) alarm_new)))))"
  by (rule storm_never_detected) (simp add: high_threshold_def)

subsection \<open>Confirmation delays\<close>

lemma off_sample_keeps_pending:
  assumes "ae_rules e pid = Some r" and "pid \<notin> ae_suppressed e"
    and "inOffSide r v" and "\<not> inOnSide r v" and "\<not> ps_inAlarmBand (state_of e pid)"
    and "\<not> ps_pendingOff (state_of e pid)"
  shows "evaluate pid v nowMono ep e =
    ([], put_state pid ((state_of e pid)\<lparr>ps_pointId := pid, ps_lastRaw := v\<rparr>) e)"
  using assms by (simp add: evaluate_def off_side_def Let_def)

lemma pending_survives:
  assumes "ae_rules e pid = Some r" and "pid \<notin> ae_suppressed e"
    and "\<not> ps_inAlarmBand (state_of e pid)" and "\<not> ps_pendingOff (state_of e pid)"
    and "\<forall>(v, t, ep) \<in> set xs. inOffSide r v \<and> \<not> inOnSide r v"
  shows "\<exists>e'. alarm_run (samples pid xs) e = ([], e') \<and> ae_rules e' = ae_rules e \<and>
     ae_suppressed e' = ae_suppressed e \<and> ae_alarmIdSeq e' = ae_alarmIdSeq e \<and>
     ae_stormActive e' = ae_stormActive e \<and> ae_stormConfig e' = ae_stormConfig e \<and> 
     (\<exists>v. state_of e' pid = (state_of e pid)\<lparr>ps_pointId := ps_pointId (state_of e' pid), ps_lastRaw := v\<rparr>)"
  using assms
proof (induction xs arbitrary: e)
  case Nil
  then show ?case by (auto simp: samples_def intro: exI [of _ "ps_lastRaw (state_of e pid)"])
next
  case (Cons x xs)
  obtain v t ep where x: "x = (v, t, ep)" by (cases x)
  let ?st = "(state_of e pid)\<lparr>ps_pointId := pid, ps_lastRaw := v\<rparr>"
  have ev: "evaluate pid v t ep e = ([], put_state pid ?st e)"
    using Cons.prems x by (intro off_sample_keeps_pending) auto
  obtain e' w where e': "alarm_run (samples pid xs) (put_state pid ?st e) = ([], e')"
    "ae_rules e' = ae_rules e" "ae_suppressed e' = ae_suppressed e" "ae_alarmIdSeq e' = ae_alarmIdSeq e"
    "ae_stormActive e' = ae_stormActive e" "ae_stormConfig e' = ae_stormConfig e"
    and st: "state_of e' pid = ?st\<lparr>ps_pointId := ps_pointId (state_of e' pid), ps_lastRaw := w\<rparr>"
    using Cons.IH [of "put_state pid ?st e"] Cons.prems by auto
  have "state_of e' pid = (state_of e pid)\<lparr>ps_pointId := ps_pointId (state_of e' pid), ps_lastRaw := w\<rparr>"
    using st by (metis PointAlarmState.surjective PointAlarmState.update_convs(1,3))
  with e' ev show ?case
    by (auto simp: samples_def x intro!: exI [of _ e'])
qed

lemma alarm_run_append:
  "alarm_run (xs @ ys) e =
     (case alarm_run xs e of (s, e1) \<Rightarrow> case alarm_run ys e1 of (s', e2) \<Rightarrow> (s @ s', e2))"
  by (induction xs arbitrary: e) (auto split: prod.splits)

lemma confirm_issues:
  assumes "ae_rules e pid = Some r" and "pid \<notin> ae_suppressed e" and "inOnSide r v"
    and "ps_pendingOn (state_of e pid)"
    and "nowMono - ps_onSinceMono (state_of e pid) \<ge> uint (ar_onDelayMs r)"
    and "nowMono - ps_lastRaiseMono (state_of e pid) \<ge> uint (ar_suppressWindowMs r)"
  shows "ae_alarmIdSeq (snd (evaluate pid v nowMono ep e)) = Suc (ae_alarmIdSeq e) \<and>
     is_live (state_of (snd (evaluate pid v nowMono ep e)) pid)"
  using assms
  by (simp add: evaluate_def on_side_def raiseAlarm_def Let_def alarm_event_def)
    (simp add: state_of_def put_state_def update_conv' is_live_def)

text \<open>The confirmation delay of an alarm is not a continuous one. While a point waits
  for its delay, samples back on the recovery side do not cancel the wait, however many they are;
  the first sample beyond the threshold after the delay raises the alarm at once, even if no two
  consecutive samples were beyond it.\<close>

theorem interrupted_delay_confirms:
  assumes "ae_rules e pid = Some r" and "pid \<notin> ae_suppressed e"
    and "\<not> ps_inAlarmBand (state_of e pid)" and "\<not> ps_pendingOff (state_of e pid)"
    and "ps_pendingOn (state_of e pid)"
    and "\<forall>(v', t, ep) \<in> set dips. inOffSide r v' \<and> \<not> inOnSide r v'"
    and "inOnSide r v"
    and "nowMono - ps_onSinceMono (state_of e pid) \<ge> uint (ar_onDelayMs r)"
    and "nowMono - ps_lastRaiseMono (state_of e pid) \<ge> uint (ar_suppressWindowMs r)"
  shows "case alarm_run (samples pid (dips @ [(v, nowMono, nowEpoch)])) e of
     (sigs, e') \<Rightarrow> ae_alarmIdSeq e' = Suc (ae_alarmIdSeq e) \<and> is_live (state_of e' pid)"
proof -
  obtain e' w where e': "alarm_run (samples pid dips) e = ([], e')" "ae_rules e' = ae_rules e"
    "ae_suppressed e' = ae_suppressed e" "ae_alarmIdSeq e' = ae_alarmIdSeq e"
    and st: "state_of e' pid = (state_of e pid)\<lparr>ps_pointId := ps_pointId (state_of e' pid), ps_lastRaw := w\<rparr>"
    using pending_survives [OF assms(1-4,6)] by auto
  have "ps_pendingOn (state_of e' pid)"
    and "ps_onSinceMono (state_of e' pid) = ps_onSinceMono (state_of e pid)"
    and "ps_lastRaiseMono (state_of e' pid) = ps_lastRaiseMono (state_of e pid)"
    using assms(5) by (subst st, simp)+
  then have "ae_alarmIdSeq (snd (evaluate pid v nowMono nowEpoch e')) = Suc (ae_alarmIdSeq e) \<and>
      is_live (state_of (snd (evaluate pid v nowMono nowEpoch e')) pid)"
    using confirm_issues [of e' pid r v nowMono nowEpoch] assms e' by simp
  then show ?thesis
    using e'(1) by (simp add: samples_def alarm_run_append split: prod.splits) auto
qed

theorem interrupted_delay_confirms_witness:
  "case alarm_run (samples 9 [(Fin 20, 5001, 0), (Fin 20, 99999, 0), (Fin 56, 100000, 0)]) demo_alarm of
     (sigs, e') \<Rightarrow> ae_alarmIdSeq e' = 1 \<and> is_live (state_of e' 9)"
proof -
  have "\<not> ps_inAlarmBand (state_of demo_alarm 9)" "\<not> ps_pendingOff (state_of demo_alarm 9)"
    by (simp_all add: demo_alarm_def alarm_defs)
  then show ?thesis
    using interrupted_delay_confirms [of demo_alarm 9 demo_rule "[(Fin 20, 5001, 0), (Fin 20, 99999, 0)]"
        "Fin 56" 100000 0] demo_alarm_facts
    by (simp add: inOnSide_def inOffSide_def demo_rule_def default_rule_def)
qed

end
