(* ===== verification/RingBuffer.thy ===== *)
theory RingBuffer
  imports Ens_Prelude "HOL-Library.Sublist"
begin

text \<open>
  The ring buffer of the snapshot store, \<^verbatim>\<open>apps/ens_app/src/datahub/RingBuffer.h\<close>: one producer,
  four consumers with a cursor each. Positions count all elements ever written, a slot is a
  position masked with \<open>capacity - 1\<close>. Each operation is one step (the relaxed and
  release/acquire accesses of one call are not interleaved with those of another); positions are
  natural numbers, which the code's 64-bit counters are until \<open>2^64\<close> writes. \<open>out\<close> is not null.
\<close>

section \<open>The code\<close>

record 'a RingBuffer =
  rb_mask :: nat
  rb_buffer :: "'a list"
  rb_writePos :: nat
  rb_publishedPos :: nat
  rb_cursors :: "nat list"

definition MAX_CONSUMERS :: nat where
  "MAX_CONSUMERS = 4"

definition ringbuffer_new :: "'a \<Rightarrow> nat \<Rightarrow> 'a RingBuffer option" where
  "ringbuffer_new zero capacity =
     (if capacity < 2 \<or> capacity > 65536 \<or> capacity AND (capacity - 1) \<noteq> 0 then None
      else Some \<lparr>rb_mask = capacity - 1, rb_buffer = replicate capacity zero, rb_writePos = 0,
                 rb_publishedPos = 0, rb_cursors = replicate MAX_CONSUMERS 0\<rparr>)"

definition rb_slot :: "'a RingBuffer \<Rightarrow> nat \<Rightarrow> nat" where
  "rb_slot rb pos = pos AND rb_mask rb"

definition rb_push :: "'a \<Rightarrow> 'a RingBuffer \<Rightarrow> 'a RingBuffer" where
  "rb_push item rb =
     (let pos = rb_writePos rb;
          rb1 = rb\<lparr>rb_writePos := rb_writePos rb + 1\<rparr>;
          rb2 = rb1\<lparr>rb_buffer := (rb_buffer rb1)[rb_slot rb1 pos := item]\<rparr>
      in rb2\<lparr>rb_publishedPos := pos + 1\<rparr>)"

definition pushBatch :: "'a list \<Rightarrow> 'a RingBuffer \<Rightarrow> 'a RingBuffer" where
  "pushBatch items rb =
     (if items = [] then rb
      else let startPos = rb_writePos rb;
               rb1 = rb\<lparr>rb_writePos := rb_writePos rb + length items\<rparr>;
               rb2 = fold (\<lambda>i rb. rb\<lparr>rb_buffer := (rb_buffer rb)[rb_slot rb (startPos + i) := items ! i]\<rparr>)
                       [0..<length items] rb1
           in rb2\<lparr>rb_publishedPos := startPos + length items\<rparr>)"

definition latestPublished :: "'a RingBuffer \<Rightarrow> nat" where
  "latestPublished rb = rb_publishedPos rb"

definition capacity_of :: "'a RingBuffer \<Rightarrow> nat" where
  "capacity_of rb = length (rb_buffer rb)"

definition valid_consumer :: "int \<Rightarrow> bool" where
  "valid_consumer cid \<longleftrightarrow> \<not> (cid < 0 \<or> cid \<ge> int MAX_CONSUMERS)"

definition readRecent :: "int \<Rightarrow> nat \<Rightarrow> 'a RingBuffer \<Rightarrow> 'a list \<times> 'a RingBuffer" where
  "readRecent cid count rb =
     (if count = 0 \<or> \<not> valid_consumer cid then ([], rb)
      else let cap = capacity_of rb;
               count = (if count > cap then cap else count);
               published = rb_publishedPos rb;
               cursor = rb_cursors rb ! nat cid
      in if published \<le> cursor then ([], rb)
         else let cursor = (if published - cursor \<ge> cap then published - cap else cursor);
                  readable = min (published - cursor) count
              in (map (\<lambda>i. rb_buffer rb ! rb_slot rb (cursor + i)) [0..<readable],
                  rb\<lparr>rb_cursors := (rb_cursors rb)[nat cid := cursor + readable]\<rparr>))"

fun extract_scan ::
  "('a \<Rightarrow> u64) \<Rightarrow> u64 \<Rightarrow> u64 \<Rightarrow> nat \<Rightarrow> 'a RingBuffer \<Rightarrow> nat list \<Rightarrow> 'a list \<Rightarrow> 'a list" where
  "extract_scan ts startTs endTs maxCount rb [] out = out"
| "extract_scan ts startTs endTs maxCount rb (pos # ps) out =
     (if \<not> length out < maxCount then out
      else let val = rb_buffer rb ! rb_slot rb pos
      in if ts val \<ge> startTs
         then (if ts val > endTs then out
               else extract_scan ts startTs endTs maxCount rb ps (out @ [val]))
         else extract_scan ts startTs endTs maxCount rb ps out)"

definition extractRange ::
  "('a \<Rightarrow> u64) \<Rightarrow> u64 \<Rightarrow> u64 \<Rightarrow> nat \<Rightarrow> 'a RingBuffer \<Rightarrow> 'a list" where
  "extractRange ts startTs endTs maxCount rb =
     (if maxCount = 0 \<or> startTs > endTs then []
      else if rb_publishedPos rb = 0 then []
      else extract_scan ts startTs endTs maxCount rb [0..<rb_publishedPos rb] [])"

definition evictSlowConsumer :: "int \<Rightarrow> 'a RingBuffer \<Rightarrow> bool \<times> 'a RingBuffer" where
  "evictSlowConsumer cid rb =
     (if \<not> valid_consumer cid then (True, rb)
      else let cap = capacity_of rb; published = rb_publishedPos rb; cursor = rb_cursors rb ! nat cid
      in if published - cursor \<ge> cap
         then (False, rb\<lparr>rb_cursors := (rb_cursors rb)[nat cid := published - cap]\<rparr>)
         else (True, rb))"

section \<open>Powers of two and masks\<close>

lemma and_pred_zero:
  assumes "0 < (c :: nat)" and "c AND (c - 1) = 0"
  shows "\<exists>k. c = 2 ^ k"
proof -
  obtain k where k: "2 ^ k \<le> c" "c < 2 ^ (k + 1)"
    using assms(1) ex_power_ivl1 [of 2 c] by auto
  have "c = 2 ^ k"
  proof (rule ccontr)
    assume "c \<noteq> 2 ^ k"
    then have "2 ^ k \<le> c - 1" using k by simp
    then have "c div 2 ^ k = 1" "(c - 1) div 2 ^ k = 1"
      using k by (auto intro!: div_nat_eqI)
    then have "bit c k" and "bit (c - 1) k"
      by (simp_all add: bit_iff_odd)
    then have "bit (c AND (c - 1)) k"
      by (simp only: bit_and_iff)
    with assms(2) show False by simp
  qed
  then show ?thesis by blast
qed

lemma and_mask_mod: "pos AND (2 ^ k - 1) = pos mod (2 ^ k :: nat)"
  by (simp only: take_bit_eq_mask take_bit_eq_mod [symmetric] mask_eq_exp_minus_1 [symmetric])

section \<open>The history behind the buffer\<close>

text \<open>A buffer holds a history when its slots are the last \<open>capacity\<close> elements of it.\<close>

definition rb_wf :: "'a RingBuffer \<Rightarrow> bool" where
  "rb_wf rb \<longleftrightarrow> (\<exists>k. 0 < k \<and> k \<le> 16 \<and> capacity_of rb = 2 ^ k \<and> rb_mask rb = 2 ^ k - 1) \<and>
     rb_writePos rb = rb_publishedPos rb \<and> length (rb_cursors rb) = MAX_CONSUMERS \<and>
     (\<forall>c \<in> set (rb_cursors rb). c \<le> rb_publishedPos rb)"

definition holds_history :: "'a RingBuffer \<Rightarrow> 'a list \<Rightarrow> bool" where
  "holds_history rb h \<longleftrightarrow> rb_wf rb \<and> rb_publishedPos rb = length h \<and>
     (\<forall>i < length h. length h \<le> i + capacity_of rb \<longrightarrow> rb_buffer rb ! (i mod capacity_of rb) = h ! i)"

lemma rb_slot_mod: "rb_wf rb \<Longrightarrow> rb_slot rb pos = pos mod capacity_of rb"
  using and_mask_mod [of pos] by (auto simp: rb_wf_def rb_slot_def)

lemma rb_wf_capacity: "rb_wf rb \<Longrightarrow> 0 < capacity_of rb"
  by (auto simp: rb_wf_def)

lemma ringbuffer_new_wf:
  assumes "ringbuffer_new zero capacity = Some rb"
  shows "holds_history rb [] \<and> capacity_of rb = capacity"
proof -
  from assms have c: "2 \<le> capacity" "capacity \<le> 65536" "capacity AND (capacity - 1) = 0"
    by (simp_all add: ringbuffer_new_def split: if_splits)
  then obtain k where k: "capacity = 2 ^ k" using and_pred_zero [of capacity] by auto
  have "0 < k" using c(1) k by (cases k) simp_all
  moreover have "k \<le> 16"
  proof -
    have "(2 :: nat) ^ k \<le> 2 ^ 16" using c(2) k by simp
    then show ?thesis by (simp only: power_increasing_iff)
  qed
  ultimately show ?thesis
    using assms c k
    by (auto simp: ringbuffer_new_def holds_history_def rb_wf_def capacity_of_def split: if_splits)
qed

lemma mod_eq_near:
  assumes "(i :: nat) mod c = j mod c" and "i < j" and "j \<le> i + c"
  shows "j = i + c"
proof -
  have "c dvd j - i" using assms mod_eq_dvd_iff_nat [of i j c] by (simp add: eq_commute)
  moreover have "0 < j - i" "j - i \<le> c" using assms by auto
  ultimately have "j - i = c" by (meson dvd_imp_le le_antisym)
  with assms(2) show ?thesis by simp
qed

text \<open>Storing the next element, whatever is published and read meanwhile.\<close>

lemma store_history:
  assumes "\<forall>i < n. n \<le> i + c \<longrightarrow> buf ! (i mod c) = (h @ [x]) ! i" and "length buf = c" and "0 < c"
    and "n = length h"
  shows "\<forall>i < Suc n. Suc n \<le> i + c \<longrightarrow> buf[n mod c := x] ! (i mod c) = (h @ [x]) ! i"
proof (intro allI impI)
  fix i
  assume i: "i < Suc n" "Suc n \<le> i + c"
  show "buf[n mod c := x] ! (i mod c) = (h @ [x]) ! i"
  proof (cases "i = n")
    case True
    then show ?thesis using assms by (simp add: nth_append)
  next
    case False
    then have "i mod c \<noteq> n mod c"
      using i mod_eq_near [of i c n] by auto
    then show ?thesis
      using assms(1) i False by simp
  qed
qed

lemma push_history:
  assumes "holds_history rb h"
  shows "holds_history (rb_push x rb) (h @ [x]) \<and> capacity_of (rb_push x rb) = capacity_of rb \<and>
     rb_cursors (rb_push x rb) = rb_cursors rb"
proof -
  let ?c = "capacity_of rb"
  have wf: "rb_wf rb" and pos: "rb_writePos rb = length h" "rb_publishedPos rb = length h"
    and inv: "\<forall>i < length h. length h \<le> i + ?c \<longrightarrow> rb_buffer rb ! (i mod ?c) = (h @ [x]) ! i"
    using assms by (auto simp: holds_history_def rb_wf_def nth_append)
  have buf: "rb_buffer (rb_push x rb) = (rb_buffer rb)[length h mod ?c := x]"
    using rb_slot_mod [OF wf, of "length h"] pos by (simp add: rb_push_def rb_slot_def Let_def)
  have "capacity_of (rb_push x rb) = ?c" by (simp add: capacity_of_def buf)
  moreover have "rb_wf (rb_push x rb)"
    using wf calculation by (auto simp: rb_wf_def rb_push_def Let_def)
  moreover have "rb_publishedPos (rb_push x rb) = Suc (length h)"
    and "rb_cursors (rb_push x rb) = rb_cursors rb"
    using pos by (simp_all add: rb_push_def Let_def)
  ultimately show ?thesis
    using store_history [OF inv _ rb_wf_capacity [OF wf]] pos
    by (simp add: holds_history_def buf capacity_of_def)
qed

text \<open>A batch leaves the buffer as the same number of single writes would.\<close>

lemma pushBatch_eq_pushes:
  assumes "rb_writePos rb = rb_publishedPos rb"
  shows "pushBatch items rb = fold rb_push items rb"
proof -
  define f where "f = (\<lambda>n i (rb :: 'a RingBuffer). rb\<lparr>rb_buffer := (rb_buffer rb)[rb_slot rb (n + i) := items ! i]\<rparr>)"
  have push: "rb_push x r = (r\<lparr>rb_buffer := (rb_buffer r)[rb_slot r (rb_writePos r) := x],
      rb_writePos := rb_writePos r + 1, rb_publishedPos := rb_writePos r + 1\<rparr>)" for x and r :: "'a RingBuffer"
    by (simp add: rb_push_def rb_slot_def Let_def)
  have "fold rb_push (take n items) rb =
      (fold (f (rb_writePos rb)) [0..<n] rb)\<lparr>rb_writePos := rb_writePos rb + n, rb_publishedPos := rb_publishedPos rb + n\<rparr>"
    if "n \<le> length items" for n
    using that
  proof (induction n)
    case (Suc n)
    then show ?case
      by (simp add: take_Suc_conv_app_nth push assms f_def rb_slot_def)
  qed simp
  from this [of "length items"]
  have "fold rb_push items rb = (fold (f (rb_writePos rb)) [0..<length items] rb)
      \<lparr>rb_writePos := rb_writePos rb + length items, rb_publishedPos := rb_publishedPos rb + length items\<rparr>"
    by simp
  moreover have "fold (f n) is (r\<lparr>rb_writePos := w\<rparr>) = (fold (f n) is r)\<lparr>rb_writePos := w\<rparr>" for n "is" r w
  proof (induction "is" arbitrary: r)
    case (Cons i "is")
    have "f n i (r\<lparr>rb_writePos := w\<rparr>) = (f n i r)\<lparr>rb_writePos := w\<rparr>"
      by (simp add: f_def rb_slot_def)
    then show ?case by (simp add: Cons.IH)
  qed simp
  moreover have "pushBatch items rb = (if items = [] then rb else
      (fold (f (rb_writePos rb)) [0..<length items] (rb\<lparr>rb_writePos := rb_writePos rb + length items\<rparr>))
        \<lparr>rb_publishedPos := rb_writePos rb + length items\<rparr>)"
    by (simp add: pushBatch_def Let_def f_def)
  ultimately show ?thesis by (simp add: assms)
qed

section \<open>What a consumer reads\<close>

lemma pushes_history:
  assumes "holds_history rb h"
  shows "holds_history (fold rb_push xs rb) (h @ xs) \<and>
    capacity_of (fold rb_push xs rb) = capacity_of rb \<and> rb_cursors (fold rb_push xs rb) = rb_cursors rb"
  using assms
proof (induction xs arbitrary: rb h)
  case (Cons x xs)
  from push_history [OF Cons.prems, of x] Cons.IH [of "rb_push x rb" "h @ [x]"] show ?case by simp
qed simp

lemma cursor_le:
  assumes "rb_wf rb" and "valid_consumer cid"
  shows "nat cid < length (rb_cursors rb)" and "rb_cursors rb ! nat cid \<le> rb_publishedPos rb"
proof -
  show l: "nat cid < length (rb_cursors rb)"
    using assms by (auto simp: rb_wf_def valid_consumer_def)
  show "rb_cursors rb ! nat cid \<le> rb_publishedPos rb"
    using assms(1) nth_mem [OF l] by (auto simp: rb_wf_def)
qed

lemma cursor_same [simp]: "rb_cursors rb ! i = c \<Longrightarrow> rb\<lparr>rb_cursors := (rb_cursors rb)[i := c]\<rparr> = rb"
  by auto

text \<open>The position a consumer reads from: its own, or the oldest one still in the buffer.\<close>

definition read_from :: "'a RingBuffer \<Rightarrow> int \<Rightarrow> nat" where
  "read_from rb cid = max (rb_cursors rb ! nat cid) (rb_publishedPos rb - capacity_of rb)"

lemma readRecent_contents:
  assumes h: "holds_history rb h" and cid: "valid_consumer cid" and n: "0 < count"
  shows "readRecent cid count rb =
    (let out = take (min count (capacity_of rb)) (drop (read_from rb cid) h)
     in (out, rb\<lparr>rb_cursors := (rb_cursors rb)[nat cid :=
           if out = [] then rb_cursors rb ! nat cid else read_from rb cid + length out]\<rparr>))"
proof -
  let ?c = "capacity_of rb" and ?p = "rb_publishedPos rb" and ?k = "rb_cursors rb ! nat cid"
  have wf: "rb_wf rb" and p: "?p = length h" using h by (simp_all add: holds_history_def)
  note cur = cursor_le [OF wf cid]
  show ?thesis
  proof (cases "?p \<le> ?k")
    case True
    then show ?thesis
      using cid n cur p rb_wf_capacity [OF wf] by (simp add: readRecent_def read_from_def Let_def)
  next
    case False
    then have from_eq: "read_from rb cid = (if ?p - ?k \<ge> ?c then ?p - ?c else ?k)"
      by (auto simp: read_from_def max_def)
    let ?f = "read_from rb cid"
    have near: "length h \<le> ?f + ?c" "?f < length h"
      using False p rb_wf_capacity [OF wf] by (auto simp: from_eq)
    let ?r = "min (?p - ?f) (if count > ?c then ?c else count)"
    have "map (\<lambda>i. rb_buffer rb ! rb_slot rb (?f + i)) [0..<?r] = take (min count ?c) (drop ?f h)"
    proof (rule nth_equalityI)
      show "length (map (\<lambda>i. rb_buffer rb ! rb_slot rb (?f + i)) [0..<?r]) = length (take (min count ?c) (drop ?f h))"
        using p by auto
    next
      fix i
      assume "i < length (map (\<lambda>i. rb_buffer rb ! rb_slot rb (?f + i)) [0..<?r])"
      then have i: "i < ?r" by simp
      then have "?f + i < length h" "length h \<le> ?f + i + ?c" using p near by auto
      then have "rb_buffer rb ! ((?f + i) mod ?c) = h ! (?f + i)"
        using h by (simp add: holds_history_def)
      moreover have "map (\<lambda>i. rb_buffer rb ! rb_slot rb (?f + i)) [0..<?r] ! i = rb_buffer rb ! rb_slot rb (?f + i)"
        using nth_map_upt [of i ?r 0] i by simp
      moreover have "take (min count ?c) (drop ?f h) ! i = h ! (?f + i)"
        using i near by (simp split: if_split_asm)
      ultimately show "map (\<lambda>i. rb_buffer rb ! rb_slot rb (?f + i)) [0..<?r] ! i = take (min count ?c) (drop ?f h) ! i"
        by (simp only: rb_slot_mod [OF wf])
    qed
    moreover have "?r = length (take (min count ?c) (drop ?f h))"
      using p by (simp add: min_def)
    moreover have "take (min count ?c) (drop ?f h) \<noteq> []"
      using near(2) n rb_wf_capacity [OF wf] by simp
    moreover have "readRecent cid count rb = (map (\<lambda>i. rb_buffer rb ! rb_slot rb (?f + i)) [0..<?r],
        rb\<lparr>rb_cursors := (rb_cursors rb)[nat cid := ?f + ?r]\<rparr>)"
      unfolding readRecent_def Let_def from_eq [symmetric] using False cid n by simp
    ultimately show ?thesis by (simp only: Let_def if_False)
  qed
qed

lemma read_keeps_history:
  assumes h: "holds_history rb h" and cid: "valid_consumer cid" and n: "0 < count"
  shows "holds_history (snd (readRecent cid count rb)) h"
proof -
  have wf: "rb_wf rb" and p: "rb_publishedPos rb = length h" using h by (simp_all add: holds_history_def)
  note cur = cursor_le [OF wf cid]
  have "read_from rb cid \<le> length h"
    using cur p by (simp add: read_from_def)
  then have "rb_wf (snd (readRecent cid count rb))"
    unfolding readRecent_contents [OF assms] Let_def snd_conv
    using wf p cur by (auto simp: rb_wf_def capacity_of_def dest!: in_set_conv_nth [THEN iffD1]
      split: if_splits) (auto simp: nth_list_update split: if_splits)
  then show ?thesis
    using h unfolding readRecent_contents [OF assms] Let_def
    by (simp add: holds_history_def capacity_of_def)
qed

lemma evict_moves:
  assumes h: "holds_history rb h" and cid: "valid_consumer cid"
  shows "snd (evictSlowConsumer cid rb) = rb\<lparr>rb_cursors := (rb_cursors rb)[nat cid := read_from rb cid]\<rparr>"
    and "fst (evictSlowConsumer cid rb) \<longleftrightarrow> length h < rb_cursors rb ! nat cid + capacity_of rb"
proof -
  have p: "rb_publishedPos rb = length h" and wf: "rb_wf rb" using h by (simp_all add: holds_history_def)
  note cur = cursor_le [OF wf cid] and pos = rb_wf_capacity [OF wf]
  have "\<not> rb_publishedPos rb - rb_cursors rb ! nat cid \<ge> capacity_of rb \<Longrightarrow>
      read_from rb cid = rb_cursors rb ! nat cid"
    using cur by (simp add: read_from_def)
  moreover have "rb_publishedPos rb - rb_cursors rb ! nat cid \<ge> capacity_of rb \<Longrightarrow>
      read_from rb cid = rb_publishedPos rb - capacity_of rb"
    using cur pos by (simp add: read_from_def)
  ultimately show "snd (evictSlowConsumer cid rb) = rb\<lparr>rb_cursors := (rb_cursors rb)[nat cid := read_from rb cid]\<rparr>"
    using cid by (simp add: evictSlowConsumer_def Let_def)
  show "fst (evictSlowConsumer cid rb) \<longleftrightarrow> length h < rb_cursors rb ! nat cid + capacity_of rb"
    using cid cur p pos by (auto simp: evictSlowConsumer_def Let_def)
qed

section \<open>Runs\<close>

datatype 'a RbOp = Push 'a | Put "'a list" | Get int nat | Evict int

fun rb_op :: "'a RbOp \<Rightarrow> 'a RingBuffer \<Rightarrow> (int \<times> 'a list) list \<times> 'a RingBuffer" where
  "rb_op (Push x) rb = ([], rb_push x rb)"
| "rb_op (Put xs) rb = ([], pushBatch xs rb)"
| "rb_op (Get cid n) rb = (case readRecent cid n rb of (out, rb') \<Rightarrow> ([(cid, out)], rb'))"
| "rb_op (Evict cid) rb = ([], snd (evictSlowConsumer cid rb))"

fun rb_run :: "'a RbOp list \<Rightarrow> 'a RingBuffer \<Rightarrow> (int \<times> 'a list) list \<times> 'a RingBuffer" where
  "rb_run [] rb = ([], rb)"
| "rb_run (op # ops) rb =
     (case rb_op op rb of (o1, rb1) \<Rightarrow> case rb_run ops rb1 of (o2, rb2) \<Rightarrow> (o1 @ o2, rb2))"

fun written :: "'a RbOp list \<Rightarrow> 'a list" where
  "written [] = []"
| "written (Push x # ops) = x # written ops"
| "written (Put xs # ops) = xs @ written ops"
| "written (_ # ops) = written ops"

definition received :: "int \<Rightarrow> (int \<times> 'a list) list \<Rightarrow> 'a list" where
  "received cid outs = concat (map snd (filter (\<lambda>(c, _). c = cid) outs))"

lemma received_simps [simp]:
  "received cid [] = []" "received cid (xs @ ys) = received cid xs @ received cid ys"
  "received cid ((c, out) # outs) = (if c = cid then out else []) @ received cid outs"
  by (simp_all add: received_def)

text \<open>What a consumer got so far: elements of the part of the history before its cursor, all of
  them as long as the buffer has not lapped.\<close>

definition served :: "'a RingBuffer \<Rightarrow> 'a list \<Rightarrow> int \<Rightarrow> 'a list \<Rightarrow> bool" where
  "served rb h cid got \<longleftrightarrow> holds_history rb h \<and> subseq got (take (rb_cursors rb ! nat cid) h) \<and>
     (length h \<le> capacity_of rb \<longrightarrow> got = take (rb_cursors rb ! nat cid) h)"

lemma subseq_take_mono: "i \<le> j \<Longrightarrow> subseq (take i xs) (take j xs)"
  by (metis prefix_imp_subseq take_is_prefix min.absorb_iff1 take_take)

lemma take_length_take: "take (length (take m ys)) ys = take m ys"
  by (simp add: min_def)

lemma take_add_drop: "take i xs @ take n (drop i xs) = take (i + n) xs"
  by (simp add: take_add)

lemma served_pushes:
  assumes "served rb h cid got" and cid: "valid_consumer cid"
  shows "served (fold rb_push xs rb) (h @ xs) cid got \<and> capacity_of (fold rb_push xs rb) = capacity_of rb"
proof -
  have h: "holds_history rb h" using assms by (simp add: served_def)
  then have wf: "rb_wf rb" and p: "rb_publishedPos rb = length h" by (simp_all add: holds_history_def)
  have "take (rb_cursors rb ! nat cid) (h @ xs) = take (rb_cursors rb ! nat cid) h"
    using cursor_le [OF wf cid] p by simp
  then show ?thesis
    using pushes_history [OF h, of xs] assms(1) by (simp add: served_def del: take_append)
qed

lemma served_put:
  assumes "served rb h cid got" and cid: "valid_consumer cid"
  shows "served (pushBatch xs rb) (h @ xs) cid got \<and> capacity_of (pushBatch xs rb) = capacity_of rb"
proof -
  have "rb_wf rb" using assms(1) by (simp add: served_def holds_history_def)
  then have "pushBatch xs rb = fold rb_push xs rb"
    using pushBatch_eq_pushes [of rb xs] by (simp add: rb_wf_def)
  with served_pushes [OF assms] show ?thesis by simp
qed

lemma served_get:
  assumes s: "served rb h cid got" and cid: "valid_consumer cid"
  shows "served (snd (readRecent c n rb)) h cid (got @ (if c = cid then fst (readRecent c n rb) else [])) \<and>
     capacity_of (snd (readRecent c n rb)) = capacity_of rb"
proof (cases "0 < n \<and> valid_consumer c")
  case False
  then have "readRecent c n rb = ([], rb)" by (auto simp: readRecent_def)
  with s show ?thesis by auto
next
  case True
  have h: "holds_history rb h" using s by (simp add: served_def)
  then have wf: "rb_wf rb" and p: "rb_publishedPos rb = length h" by (simp_all add: holds_history_def)
  note eq = readRecent_contents [OF h conjunct2 [OF True] conjunct1 [OF True]]
  have h': "holds_history (snd (readRecent c n rb)) h"
    using read_keeps_history [OF h] True by blast
  have cap: "capacity_of (snd (readRecent c n rb)) = capacity_of rb"
    by (simp add: eq Let_def capacity_of_def)
  show ?thesis
  proof (cases "c = cid")
    case False
    have "nat c \<noteq> nat cid" using False True cid by (auto simp: valid_consumer_def)
    then have "rb_cursors (snd (readRecent c n rb)) ! nat cid = rb_cursors rb ! nat cid"
      by (simp add: eq Let_def)
    with s h' cap False show ?thesis by (simp add: served_def)
  next
    case same: True
    define out where "out = take (min n (capacity_of rb)) (drop (read_from rb cid) h)"
    define k where "k = rb_cursors rb ! nat cid"
    define k' where "k' = (if out = [] then k else read_from rb cid + length out)"
    have r: "fst (readRecent c n rb) = out" "rb_cursors (snd (readRecent c n rb)) ! nat cid = k'"
      unfolding same eq [unfolded same] using cursor_le(1) [OF wf cid] rb_wf_capacity [OF wf] True
      by (auto simp: Let_def out_def k'_def k_def min_def)
    have from_k: "k \<le> read_from rb cid" by (simp add: read_from_def k_def)
    have tail: "out \<noteq> [] \<Longrightarrow> take (read_from rb cid) h @ out = take k' h"
    proof -
      assume "out \<noteq> []"
      have "take (length out) (drop (read_from rb cid) h) = out"
        unfolding out_def by (rule take_length_take)
      then show ?thesis
        using take_add_drop [of "read_from rb cid" h "length out"] \<open>out \<noteq> []\<close> by (simp add: k'_def)
    qed
    have "subseq (got @ out) (take k' h)"
    proof (cases "out = []")
      case True
      then show ?thesis using s by (simp add: served_def k'_def k_def)
    next
      case False
      have "subseq got (take (read_from rb cid) h)"
        using s subseq_take_mono [OF from_k, of h] subseq_order.trans
        by (fastforce simp: served_def k_def)
      then have "subseq (got @ out) (take (read_from rb cid) h @ out)" by simp
      with tail [OF False] show ?thesis by simp
    qed
    moreover have "got @ out = take k' h" if "length h \<le> capacity_of rb"
    proof -
      have "read_from rb cid = k" using that p by (simp add: read_from_def k_def)
      moreover have "got = take k h" using s that by (simp add: served_def k_def)
      ultimately show ?thesis using tail by (cases "out = []") (simp_all add: k'_def)
    qed
    ultimately show ?thesis
      using h' cap same r by (simp add: served_def)
  qed
qed

lemma served_evict:
  assumes s: "served rb h cid got" and cid: "valid_consumer cid"
  shows "served (snd (evictSlowConsumer c rb)) h cid got \<and>
     capacity_of (snd (evictSlowConsumer c rb)) = capacity_of rb"
proof (cases "valid_consumer c")
  case False
  then show ?thesis using s by (simp add: evictSlowConsumer_def)
next
  case True
  have h: "holds_history rb h" using s by (simp add: served_def)
  then have wf: "rb_wf rb" and p: "rb_publishedPos rb = length h" by (simp_all add: holds_history_def)
  let ?rb = "rb\<lparr>rb_cursors := (rb_cursors rb)[nat c := read_from rb c]\<rparr>"
  have "read_from rb c \<le> length h"
    using cursor_le [OF wf True] p by (simp add: read_from_def)
  then have "rb_wf ?rb"
    using wf p by (auto simp: rb_wf_def capacity_of_def dest!: subsetD [OF set_update_subset_insert])
  then have h': "holds_history ?rb h" and cap: "capacity_of ?rb = capacity_of rb"
    using h by (simp_all add: holds_history_def capacity_of_def)
  have k: "rb_cursors ?rb ! nat cid = (if c = cid then read_from rb cid else rb_cursors rb ! nat cid)"
    using cursor_le(1) [OF wf cid] True cid by (auto simp: valid_consumer_def nth_list_update)
  have "rb_cursors rb ! nat cid \<le> read_from rb cid" by (simp add: read_from_def)
  then have "subseq got (take (rb_cursors ?rb ! nat cid) h)"
    unfolding k using s subseq_take_mono [of "rb_cursors rb ! nat cid" "read_from rb cid" h] subseq_order.trans
    by (fastforce simp: served_def)
  moreover have "length h \<le> capacity_of rb \<Longrightarrow> read_from rb cid = rb_cursors rb ! nat cid"
    using p by (simp add: read_from_def)
  ultimately show ?thesis
    using s h' cap k evict_moves(1) [OF h True] by (simp add: served_def)
qed

lemma served_run:
  assumes "served rb h cid got" and cid: "valid_consumer cid"
  shows "case rb_run ops rb of (outs, rb') \<Rightarrow> served rb' (h @ written ops) cid (got @ received cid outs) \<and>
     capacity_of rb' = capacity_of rb"
  using assms(1)
proof (induction ops arbitrary: rb h got)
  case (Cons op ops)
  obtain o1 rb1 where 1: "rb_op op rb = (o1, rb1)" by (cases "rb_op op rb")
  have "\<exists>xs. written (op # ops) = xs @ written ops \<and>
      served rb1 (h @ xs) cid (got @ received cid o1) \<and> capacity_of rb1 = capacity_of rb"
  proof (cases op)
    case (Push x)
    then show ?thesis
      using 1 served_pushes [OF Cons.prems cid, of "[x]"] by (auto intro!: exI [of _ "[x]"])
  next
    case (Put xs)
    then show ?thesis
      using 1 served_put [OF Cons.prems cid, of xs] by (auto intro!: exI [of _ xs])
  next
    case (Get c n)
    then show ?thesis
      using 1 served_get [OF Cons.prems cid, of c n]
      by (auto intro!: exI [of _ "[]"] split: prod.splits if_splits)
  next
    case (Evict c)
    then show ?thesis
      using 1 served_evict [OF Cons.prems cid, of c] by (auto intro!: exI [of _ "[]"])
  qed
  then obtain xs where xs: "written (op # ops) = xs @ written ops"
    "served rb1 (h @ xs) cid (got @ received cid o1)" "capacity_of rb1 = capacity_of rb"
    by blast
  obtain o2 rb2 where 2: "rb_run ops rb1 = (o2, rb2)" by (cases "rb_run ops rb1")
  show ?case
    using Cons.IH [OF xs(2)] 1 2 xs(1,3) by simp
qed simp

lemma run_holds_history:
  assumes "ringbuffer_new zero capacity = Some rb" and "rb_run ops rb = (outs, rb')"
  shows "holds_history rb' (written ops) \<and> capacity_of rb' = capacity"
proof -
  have "served rb [] 0 []"
    using ringbuffer_new_wf [OF assms(1)] by (simp add: served_def)
  from served_run [OF this, of ops] assms(2) show ?thesis
    using ringbuffer_new_wf [OF assms(1)] by (simp add: valid_consumer_def MAX_CONSUMERS_def served_def)
qed

section \<open>Time windows\<close>

text \<open>Until the first lap the scan is a filter, cut off at the first later element.\<close>

definition in_range :: "('a \<Rightarrow> u64) \<Rightarrow> u64 \<Rightarrow> u64 \<Rightarrow> 'a \<Rightarrow> bool" where
  "in_range ts lo hi x \<longleftrightarrow> lo \<le> ts x \<and> ts x \<le> hi"

lemma extract_scan_sorted:
  assumes "map (\<lambda>p. rb_buffer rb ! rb_slot rb p) ps = xs" and "sorted (map ts xs)" and "length out \<le> m"
  shows "extract_scan ts lo hi m rb ps out = take m (out @ filter (in_range ts lo hi) xs)"
  using assms
proof (induction ps arbitrary: xs out)
  case Nil
  then show ?case by simp
next
  case (Cons p ps)
  then obtain x xs' where xs: "xs = x # xs'" and x: "rb_buffer rb ! rb_slot rb p = x"
    and ps: "map (\<lambda>p. rb_buffer rb ! rb_slot rb p) ps = xs'" by auto
  have sorted: "sorted (map ts xs')" "\<forall>y \<in> set xs'. ts x \<le> ts y"
    using Cons.prems(2) xs by auto
  show ?case
  proof (cases "length out < m \<and> ts x \<ge> lo \<and> ts x > hi")
    case True
    have "\<not> in_range ts lo hi y" if "y \<in> set xs" for y
    proof -
      have "hi < ts y" using that True sorted(2) xs by (auto intro: less_le_trans)
      then show ?thesis by (simp add: in_range_def not_le)
    qed
    then have "filter (in_range ts lo hi) xs = []" by (simp add: filter_empty_conv)
    with True x show ?thesis by simp
  next
    case False
    then show ?thesis
      using Cons.IH [OF ps sorted(1), of out] Cons.IH [OF ps sorted(1), of "out @ [x]"] Cons.prems(3) x
      by (auto simp: xs in_range_def not_less)
  qed
qed

lemma extract_unlapped:
  assumes h: "holds_history rb h" and fits: "length h \<le> capacity_of rb" and "sorted (map ts h)"
    and "lo \<le> hi"
  shows "extractRange ts lo hi m rb = take m (filter (in_range ts lo hi) h)"
proof -
  have wf: "rb_wf rb" and p: "rb_publishedPos rb = length h" using h by (simp_all add: holds_history_def)
  have "map (\<lambda>p. rb_buffer rb ! rb_slot rb p) [0..<length h] = h"
    using h fits by (intro nth_equalityI) (simp_all add: rb_slot_mod [OF wf] holds_history_def)
  from extract_scan_sorted [OF this assms(3), of "[]" m lo hi] show ?thesis
    using p assms(4) by (auto simp: extractRange_def)
qed

text \<open>The element in slot 0 of a buffer that has lapped: the first of the current lap.\<close>

definition lap_start :: "nat \<Rightarrow> nat \<Rightarrow> nat" where
  "lap_start cap n = cap * ((n - 1) div cap)"

lemma lap_start_slot:
  assumes h: "holds_history rb h" and ne: "h \<noteq> []"
  shows "rb_buffer rb ! 0 = h ! lap_start (capacity_of rb) (length h)"
proof -
  let ?c = "capacity_of rb" and ?l = "lap_start (capacity_of rb) (length h)"
  have pos: "0 < ?c" using h rb_wf_capacity by (auto simp: holds_history_def)
  have split: "?l + (length h - 1) mod ?c = length h - 1" by (simp add: lap_start_def)
  then have "?l < length h" using ne by (cases h) auto
  moreover have "length h \<le> ?l + ?c"
    using split pos mod_less_divisor [OF pos, of "length h - 1"] by simp
  ultimately have "rb_buffer rb ! (?l mod ?c) = h ! ?l" using h by (simp add: holds_history_def)
  then show ?thesis by (simp add: lap_start_def)
qed

lemma extract_lapped_empty:
  assumes h: "holds_history rb h" and ne: "h \<noteq> []" and "lo \<le> hi"
    and late: "hi < ts (h ! lap_start (capacity_of rb) (length h))"
  shows "extractRange ts lo hi m rb = []"
proof -
  have wf: "rb_wf rb" and p: "rb_publishedPos rb = length h" using h by (simp_all add: holds_history_def)
  have "[0..<length h] = 0 # [1..<length h]" using ne by (simp add: upt_rec)
  moreover have "rb_buffer rb ! rb_slot rb 0 = h ! lap_start (capacity_of rb) (length h)"
    using lap_start_slot [OF h ne] by (simp add: rb_slot_mod [OF wf])
  moreover have "lo \<le> ts (h ! lap_start (capacity_of rb) (length h))"
    using assms(3) late by simp
  ultimately show ?thesis
    using p late by (simp add: extractRange_def)
qed

section \<open>Properties\<close>

text \<open>Property C18: after any interleaving of writes, batches, reads and evictions of a new buffer,
  what one consumer has received is a subsequence of what was written (in order, no element
  twice, none invented), whatever the other consumers do; as long as no more elements were
  written than the buffer holds it is exactly the part before the consumer's cursor, with
  nothing left out; and its next read gives the written elements from its cursor on, or from
  the oldest one still in the buffer if that is later, as many as it asks for and the buffer
  holds.\<close>

theorem consumer_gets_history:
  assumes "ringbuffer_new zero capacity = Some rb" and "rb_run ops rb = (outs, rb')"
    and "valid_consumer cid"
  shows "subseq (received cid outs) (written ops) \<and>
     (length (written ops) \<le> capacity \<longrightarrow>
        received cid outs = take (rb_cursors rb' ! nat cid) (written ops)) \<and>
     (0 < n \<longrightarrow> fst (readRecent cid n rb') =
        take (min n capacity) (drop (max (rb_cursors rb' ! nat cid) (length (written ops) - capacity)) (written ops)))"
proof -
  have "served rb [] cid []" using ringbuffer_new_wf [OF assms(1)] by (simp add: served_def)
  from served_run [OF this assms(3), of ops] have "served rb' (written ops) cid (received cid outs)"
    and cap: "capacity_of rb' = capacity"
    using assms(2) ringbuffer_new_wf [OF assms(1)] by auto
  moreover from this have h: "holds_history rb' (written ops)" by (simp add: served_def)
  then have "rb_publishedPos rb' = length (written ops)" by (simp add: holds_history_def)
  with cap readRecent_contents [OF h assms(3), of n]
  have "0 < n \<longrightarrow> fst (readRecent cid n rb') =
      take (min n capacity) (drop (max (rb_cursors rb' ! nat cid) (length (written ops) - capacity)) (written ops))"
    by (simp add: read_from_def Let_def)
  ultimately show ?thesis
    using subseq_order.trans [OF _ prefix_imp_subseq [OF take_is_prefix]] by (auto simp: served_def)
qed

definition demo_ops :: "nat RbOp list" where
  "demo_ops = [Put [1, 2, 3], Get 0 2, Put [4, 5, 6], Get 1 9, Push 7, Get 0 9]"

definition demo_ring :: "nat RingBuffer" where
  "demo_ring = \<lparr>rb_mask = 3, rb_buffer = [0, 0, 0, 0], rb_writePos = 0, rb_publishedPos = 0,
     rb_cursors = [0, 0, 0, 0]\<rparr>"

lemma demo_ring_new: "ringbuffer_new 0 4 = Some demo_ring"
proof -
  have four: "replicate 4 (0 :: nat) = [0, 0, 0, 0]" by (simp add: numeral_eq_Suc)
  have "(4 :: nat) AND 3 = 0" by simp
  then show ?thesis
    by (simp add: ringbuffer_new_def demo_ring_def MAX_CONSUMERS_def four)
qed

lemma demo_written: "written demo_ops = [1, 2, 3, 4, 5, 6, 7]" "valid_consumer 0"
  by (simp_all add: demo_ops_def valid_consumer_def MAX_CONSUMERS_def)

theorem consumer_gets_history_witness:
  "subseq (received 0 (fst (rb_run demo_ops demo_ring))) [1, 2, 3, 4, 5, 6, 7] \<and>
   set (fst (readRecent 1 3 (snd (rb_run demo_ops demo_ring)))) \<subseteq> {4, 5, 6, 7}"
proof -
  obtain outs rb' where run: "rb_run demo_ops demo_ring = (outs, rb')" by fastforce
  have one: "valid_consumer 1" by (simp add: valid_consumer_def MAX_CONSUMERS_def)
  have tail: "set (take m (drop (max k 3) [1, 2, 3, 4, 5, 6, 7 :: nat])) \<subseteq> {4, 5, 6, 7}" for k m
  proof -
    have "set (take m (drop (max k 3) xs)) \<subseteq> set (drop 3 xs)" for xs :: "nat list"
      using set_take_subset set_drop_subset_set_drop [of 3 "max k 3" xs] by fastforce
    from this [of "[1, 2, 3, 4, 5, 6, 7]"] show ?thesis by simp
  qed
  from consumer_gets_history [OF demo_ring_new run demo_written(2), of 1]
    consumer_gets_history [OF demo_ring_new run one, of 3] tail
  show ?thesis
    unfolding demo_written(1) run fst_conv snd_conv by (simp add: eval_nat_numeral)
qed

text \<open>Extraction by time is right until the buffer laps and wrong afterwards. On a
  buffer filled by any operations with non-decreasing time stamps, the extracted elements are the
  first \<open>maxCount\<close> in the window while nothing has been overwritten; once the buffer has lapped,
  the scan starts at the first element of the current lap, and when that is younger than the
  window nothing at all is extracted, even though the buffer may hold every element of the
  window.\<close>

theorem extractRange_lapped:
  assumes "ringbuffer_new zero capacity = Some rb" and "rb_run ops rb = (outs, rb')"
    and "sorted (map ts (written ops))" and "lo \<le> hi" and "written ops \<noteq> []"
  shows "(length (written ops) \<le> capacity \<longrightarrow>
       extractRange ts lo hi m rb' = take m (filter (in_range ts lo hi) (written ops))) \<and>
     (hi < ts (written ops ! lap_start capacity (length (written ops))) \<longrightarrow>
       extractRange ts lo hi m rb' = [])"
  using run_holds_history [OF assms(1,2)] extract_unlapped [of rb' "written ops" ts lo hi m]
    extract_lapped_empty [of rb' "written ops" lo hi ts m] assms(3-5)
  by auto

definition lapped_ops :: "nat RbOp list" where
  "lapped_ops = [Put [10, 20, 30, 40], Put [50], Put [60]]"

lemma lapped_written: "written lapped_ops = [10, 20, 30, 40, 50, 60]"
  by (simp add: lapped_ops_def)

theorem extractRange_lapped_witness:
  "extractRange of_nat 30 40 100 (snd (rb_run lapped_ops demo_ring)) = [] \<and>
   {30, 40} \<subseteq> set (rb_buffer (snd (rb_run lapped_ops demo_ring)))"
proof
  obtain outs rb' where run: "rb_run lapped_ops demo_ring = (outs, rb')" by fastforce
  show "extractRange of_nat 30 40 100 (snd (rb_run lapped_ops demo_ring)) = []"
    using extractRange_lapped [OF demo_ring_new run, of of_nat 30 40 100] lapped_written
    by (simp add: run lap_start_def)
  have "rb_buffer (snd (rb_run lapped_ops demo_ring)) = [50, 60, 30, 40]"
    by code_simp
  then show "{30, 40} \<subseteq> set (rb_buffer (snd (rb_run lapped_ops demo_ring)))"
    by simp
qed

end
