(* ===== verification/L1Store.thy ===== *)
theory L1Store
  imports RingBuffer Floats
begin

text \<open>
  The snapshot store of the data hub: \<^verbatim>\<open>Sample.h\<close>, \<^verbatim>\<open>L1SnapshotStore.h\<close> and \<^verbatim>\<open>.cpp\<close> under
  \<^verbatim>\<open>apps/ens_app/src/datahub\<close>. The store owns one ring buffer per point, in a vector when the
  ids are dense and in a hash map otherwise. \<open>initFromPolicy\<close> returns \<open>None\<close> where the code
  throws or indexes a vector out of range.
\<close>

section \<open>The code\<close>

record Sample =
  sm_timestamp :: u64
  sm_pointId :: u32
  sm_value :: fl

definition zeroSample :: Sample where
  "zeroSample = \<lparr>sm_timestamp = 0, sm_pointId = 0, sm_value = Fin 0\<rparr>"

record RingBufferPolicyEntry =
  pe_pointId :: u32
  pe_sampleRateMs :: u32
  pe_retentionMs :: u32
  pe_priority :: u8

type_synonym Ring = "Sample RingBuffer"

record L1SnapshotStore =
  l1_byIndex :: "Ring option list"
  l1_minPointId :: u32
  l1_maxPointId :: u32
  l1_sparse :: "u32 \<rightharpoonup> Ring"

definition l1_new :: L1SnapshotStore where
  "l1_new = \<lparr>l1_byIndex = [], l1_minPointId = 0, l1_maxPointId = 0, l1_sparse = Map.empty\<rparr>"

definition nextPow2 :: "u64 \<Rightarrow> u64" where
  "nextPow2 v =
     (if v \<le> 1 then 1
      else fold (\<lambda>i v. v OR drop_bit i v) [1, 2, 4, 8, 16, 32] (v - 1) + 1)"

definition capacityForPolicy :: "RingBufferPolicyEntry \<Rightarrow> u64" where
  "capacityForPolicy e =
     (if pe_sampleRateMs e = 0 then 256
      else let slots = ucast (pe_retentionMs e div pe_sampleRateMs e) + 1;
               slots = nextPow2 slots
      in if slots < 256 then 256 else if 65536 < slots then 65536 else slots)"

definition min_id :: "RingBufferPolicyEntry list \<Rightarrow> u32" where
  "min_id policy = foldl (\<lambda>m e. min m (pe_pointId e)) 0xFFFFFFFF policy"

definition max_id :: "RingBufferPolicyEntry list \<Rightarrow> u32" where
  "max_id policy = foldl (\<lambda>m e. max m (pe_pointId e)) 0 policy"

definition isDensePolicy :: "RingBufferPolicyEntry list \<Rightarrow> bool" where
  "isDensePolicy policy \<longleftrightarrow>
     max_id policy - min_id policy + 1 \<le> (of_nat (length policy * 2) :: u32)"

definition place ::
  "bool \<Rightarrow> u32 \<Rightarrow> RingBufferPolicyEntry \<Rightarrow> L1SnapshotStore \<Rightarrow> L1SnapshotStore option" where
  "place dense minId e st =
     (case ringbuffer_new zeroSample (unat (capacityForPolicy e)) of
        None \<Rightarrow> None
      | Some rb \<Rightarrow>
          if dense
          then (let idx = unat (pe_pointId e - minId)
                in if idx < length (l1_byIndex st)
                   then Some (st\<lparr>l1_byIndex := (l1_byIndex st)[idx := Some rb]\<rparr>) else None)
          else Some (st\<lparr>l1_sparse := (l1_sparse st)(pe_pointId e \<mapsto> rb)\<rparr>))"

fun place_all ::
  "bool \<Rightarrow> u32 \<Rightarrow> RingBufferPolicyEntry list \<Rightarrow> L1SnapshotStore \<Rightarrow> L1SnapshotStore option" where
  "place_all dense minId [] st = Some st"
| "place_all dense minId (e # es) st =
     (case place dense minId e st of None \<Rightarrow> None | Some st' \<Rightarrow> place_all dense minId es st')"

definition initFromPolicy ::
  "RingBufferPolicyEntry list \<Rightarrow> L1SnapshotStore \<Rightarrow> (bool \<times> L1SnapshotStore) option" where
  "initFromPolicy policy st =
     (if policy = [] then Some (False, st)
      else let st1 = st\<lparr>l1_byIndex := [], l1_sparse := Map.empty\<rparr>;
               minId = min_id policy; maxId = max_id policy;
               range = maxId - minId + 1;
               dense = isDensePolicy policy;
               st2 = (if dense
                      then st1\<lparr>l1_minPointId := minId, l1_maxPointId := maxId,
                               l1_byIndex := replicate (unat range) None\<rparr>
                      else st1)
      in case place_all dense minId policy st2 of
           None \<Rightarrow> None | Some st3 \<Rightarrow> Some (True, st3))"

definition in_vector :: "u32 \<Rightarrow> L1SnapshotStore \<Rightarrow> bool" where
  "in_vector pid st \<longleftrightarrow> l1_byIndex st \<noteq> [] \<and> pid \<ge> l1_minPointId st \<and> pid \<le> l1_maxPointId st"

definition lookup :: "u32 \<Rightarrow> L1SnapshotStore \<Rightarrow> Ring option" where
  "lookup pid st =
     (if in_vector pid st then l1_byIndex st ! unat (pid - l1_minPointId st) else l1_sparse st pid)"

text \<open>The ring buffer behind the pointer \<open>lookup\<close> returns, changed in place.\<close>

definition put_ring :: "u32 \<Rightarrow> Ring \<Rightarrow> L1SnapshotStore \<Rightarrow> L1SnapshotStore" where
  "put_ring pid rb st =
     (if in_vector pid st
      then st\<lparr>l1_byIndex := (l1_byIndex st)[unat (pid - l1_minPointId st) := Some rb]\<rparr>
      else st\<lparr>l1_sparse := (l1_sparse st)(pid \<mapsto> rb)\<rparr>)"

definition l1_write :: "u32 \<Rightarrow> Sample \<Rightarrow> L1SnapshotStore \<Rightarrow> L1SnapshotStore" where
  "l1_write pid s st = (case lookup pid st of Some rb \<Rightarrow> put_ring pid (rb_push s rb) st | None \<Rightarrow> st)"

definition l1_readRecent ::
  "u32 \<Rightarrow> int \<Rightarrow> nat \<Rightarrow> L1SnapshotStore \<Rightarrow> Sample list \<times> L1SnapshotStore" where
  "l1_readRecent pid cid count st =
     (case lookup pid st of
        Some rb \<Rightarrow> (case readRecent cid count rb of (out, rb') \<Rightarrow> (out, put_ring pid rb' st))
      | None \<Rightarrow> ([], st))"

definition l1_extractRange :: "u32 \<Rightarrow> u64 \<Rightarrow> u64 \<Rightarrow> nat \<Rightarrow> L1SnapshotStore \<Rightarrow> Sample list" where
  "l1_extractRange pid startTs endTs maxCount st =
     (case lookup pid st of
        Some rb \<Rightarrow> extractRange sm_timestamp startTs endTs maxCount rb
      | None \<Rightarrow> [])"

definition replayExtract :: "u32 \<Rightarrow> u64 \<Rightarrow> u64 \<Rightarrow> nat \<Rightarrow> L1SnapshotStore \<Rightarrow> Sample list" where
  "replayExtract pid beginMs endMs maxCount st = l1_extractRange pid beginMs endMs maxCount st"

definition lockRange :: "u32 \<Rightarrow> u64 \<Rightarrow> u64 \<Rightarrow> L1SnapshotStore \<Rightarrow> L1SnapshotStore" where
  "lockRange pid startTs endTs st = st"

definition hasPoint :: "u32 \<Rightarrow> L1SnapshotStore \<Rightarrow> bool" where
  "hasPoint pid st \<longleftrightarrow> lookup pid st \<noteq> None"

definition registeredCount :: "L1SnapshotStore \<Rightarrow> nat" where
  "registeredCount st = length (filter (\<lambda>up. up \<noteq> None) (l1_byIndex st)) + card (dom (l1_sparse st))"

definition isDense :: "L1SnapshotStore \<Rightarrow> bool" where
  "isDense st \<longleftrightarrow> l1_byIndex st \<noteq> []"

section \<open>Rounding up to a power of two\<close>

text \<open>Or-ing a word with its shifts spreads its highest bit down.\<close>

lemma bit_spread:
  "bit (fold (\<lambda>i v. v OR drop_bit i v) [1, 2, 4, 8, 16, 32] (v :: u64)) n \<longleftrightarrow> (\<exists>k < 64. bit v (n + k))"
proof -
  define smear where "smear = (\<lambda>i (v :: u64). v OR drop_bit i v)"
  have one: "(\<forall>n. bit w n \<longleftrightarrow> (\<exists>k < i. bit v (n + k))) \<Longrightarrow>
      (\<forall>n. bit (smear i w) n \<longleftrightarrow> (\<exists>k < 2 * i. bit v (n + k)))" for w i
  proof (intro allI)
    fix n
    assume w: "\<forall>n. bit w n \<longleftrightarrow> (\<exists>k < i. bit v (n + k))"
    have "(\<exists>k < 2 * i. bit v (n + k)) \<longleftrightarrow> (\<exists>k < i. bit v (n + k)) \<or> (\<exists>k < i. bit v (i + n + k))"
    proof
      assume "\<exists>k < 2 * i. bit v (n + k)"
      then obtain k where "k < 2 * i" "bit v (n + k)" by blast
      then have "k < i \<and> bit v (n + k) \<or> k - i < i \<and> bit v (i + n + (k - i))"
        by (cases "k < i") (auto simp: ac_simps)
      then show "(\<exists>k < i. bit v (n + k)) \<or> (\<exists>k < i. bit v (i + n + k))" by blast
    next
      assume "(\<exists>k < i. bit v (n + k)) \<or> (\<exists>k < i. bit v (i + n + k))"
      then obtain k where "k < i" and "bit v (n + k) \<or> bit v (n + (i + k))"
        by (auto simp: ac_simps)
      then have "\<exists>k' \<in> {k, i + k}. k' < 2 * i \<and> bit v (n + k')" by auto
      then show "\<exists>k < 2 * i. bit v (n + k)" by blast
    qed
    then show "bit (smear i w) n \<longleftrightarrow> (\<exists>k < 2 * i. bit v (n + k))"
      using w by (simp add: smear_def bit_or_iff bit_drop_bit_eq)
  qed
  have "\<forall>n. bit v n \<longleftrightarrow> (\<exists>k < 1. bit v (n + k))" by simp
  from one [OF one [OF one [OF one [OF one [OF one [OF this]]]]]] show ?thesis
    by (simp add: smear_def)
qed

lemma bit_above: "unat (v :: u64) < 2 ^ k \<Longrightarrow> k \<le> n \<Longrightarrow> \<not> bit v n"
proof -
  assume "unat v < 2 ^ k" and "k \<le> n"
  then have "unat v < 2 ^ n"
    by (meson less_le_trans one_le_numeral power_increasing)
  then have "unat v div 2 ^ n = 0" by simp
  then have "\<not> bit (unat v) n" by (simp add: bit_iff_odd)
  then show ?thesis by (simp add: bit_unsigned_iff)
qed

lemma bit_top: "2 ^ k \<le> unat (v :: u64) \<Longrightarrow> unat v < 2 ^ (k + 1) \<Longrightarrow> bit v k"
proof -
  assume "2 ^ k \<le> unat v" and "unat v < 2 ^ (k + 1)"
  then have "unat v div 2 ^ k = 1" by (auto intro!: div_nat_eqI)
  then have "bit (unat v) k" by (simp add: bit_iff_odd)
  then show ?thesis by (simp add: bit_unsigned_iff)
qed

lemma spread_mask:
  assumes "2 ^ k \<le> unat (v :: u64)" and "unat v < 2 ^ (k + 1)" and "k < 64"
  shows "fold (\<lambda>i v. v OR drop_bit i v) [1, 2, 4, 8, 16, 32] v = mask (k + 1)"
proof (rule bit_word_eqI)
  fix n
  assume "n < LENGTH(64)"
  have "(\<exists>j < 64. bit v (n + j)) \<longleftrightarrow> n < k + 1"
  proof
    assume "\<exists>j < 64. bit v (n + j)"
    then obtain j where "bit v (n + j)" by blast
    then show "n < k + 1" using bit_above [OF assms(2), of "n + j"] by linarith
  next
    assume "n < k + 1"
    then have "bit v (n + (k - n))" "k - n < 64" using bit_top [OF assms(1,2)] assms(3) by auto
    then show "\<exists>j < 64. bit v (n + j)" by blast
  qed
  with \<open>n < LENGTH(64)\<close>
  show "bit (fold (\<lambda>i v. v OR drop_bit i v) [1, 2, 4, 8, 16, 32] v) n \<longleftrightarrow> bit (mask (k + 1) :: u64) n"
    by (simp only: bit_spread bit_mask_iff possible_bit_word) simp
qed

lemma nextPow2_least:
  assumes "unat v \<le> 2 ^ 63"
  shows "\<exists>k \<le> 63. unat (nextPow2 v) = 2 ^ k \<and> unat v \<le> 2 ^ k \<and> (\<forall>j. unat v \<le> 2 ^ j \<longrightarrow> k \<le> j)"
proof (cases "v \<le> 1")
  case True
  then have "unat v \<le> 1" by (simp add: word_le_nat_alt)
  with True show ?thesis by (auto simp: nextPow2_def intro!: exI [of _ 0])
next
  case False
  then have v: "1 < unat v" by (simp add: not_le word_less_nat_alt)
  have pred: "unat (v - 1) = unat v - 1"
    using v by (intro unat_minus_one) (auto simp: unat_eq_0)
  obtain k where k: "2 ^ k \<le> unat v - 1" "unat v - 1 < 2 ^ (k + 1)"
  proof -
    have "1 \<le> unat v - 1" using v by linarith
    from ex_power_ivl1 [OF order_refl this] that show ?thesis by blast
  qed
  have "(2 :: nat) ^ k < 2 ^ 63" using k(1) assms v by linarith
  then have k63: "k < 63" by (simp only: power_strict_increasing_iff one_less_numeral_iff semiring_norm)
  have "nextPow2 v = mask (k + 1) + 1"
    using spread_mask [of k "v - 1"] k k63 pred False by (simp add: nextPow2_def)
  also have "\<dots> = 2 ^ (k + 1)" by (simp add: mask_eq_exp_minus_1)
  also have "\<dots> = of_nat (2 ^ (k + 1))" by simp
  finally have "unat (nextPow2 v) = take_bit 64 (2 ^ (k + 1))"
    by (simp only: unsigned_of_nat) simp
  also have "\<dots> = 2 ^ (k + 1)"
  proof (rule take_bit_nat_eq_self)
    show "(2 :: nat) ^ (k + 1) < 2 ^ 64" using k63 by (intro power_strict_increasing) auto
  qed
  finally have "unat (nextPow2 v) = 2 ^ (k + 1)" .
  moreover have "unat v \<le> 2 ^ (k + 1)" using k(2) by linarith
  moreover have "k + 1 \<le> j" if "unat v \<le> 2 ^ j" for j
  proof (rule ccontr)
    assume "\<not> k + 1 \<le> j"
    then have "(2 :: nat) ^ j \<le> 2 ^ k" by simp
    with that k(1) v show False by linarith
  qed
  ultimately show ?thesis using k63 by (intro exI [of _ "k + 1"]) simp
qed

text \<open>So every capacity the store asks for is one the ring buffer accepts.\<close>

lemma capacity_bounds:
  "\<exists>k. 8 \<le> k \<and> k \<le> 16 \<and> unat (capacityForPolicy e) = 2 ^ k"
proof (cases "pe_sampleRateMs e = 0")
  case True
  then show ?thesis by (auto simp: capacityForPolicy_def intro!: exI [of _ 8])
next
  case False
  define q where "q = (ucast (pe_retentionMs e div pe_sampleRateMs e) + 1 :: u64)"
  have "unat (ucast (pe_retentionMs e div pe_sampleRateMs e) :: u64) < 2 ^ 32"
    by (rule le_less_trans [OF eq_refl [OF unat_ucast_u32_u64]]) (rule order_less_le_trans [OF unsigned_less], simp)
  then have "unat q \<le> 2 ^ 63" by (simp add: q_def unat_word_ariths)
  then obtain k where k: "unat (nextPow2 q) = 2 ^ k" by (meson nextPow2_least)
  show ?thesis
  proof (cases "nextPow2 q < 256 \<or> 65536 < nextPow2 q")
    case True
    then show ?thesis
      using False by (auto simp: capacityForPolicy_def q_def Let_def intro: exI [of _ 8] exI [of _ 16])
  next
    case mid: False
    then have "(2 :: nat) ^ 8 \<le> 2 ^ k" "(2 :: nat) ^ k \<le> 2 ^ 16"
      using k by (simp_all add: not_less word_le_nat_alt)
    then have "8 \<le> k" "k \<le> 16" by (simp_all only: power_increasing_iff)
    moreover have "capacityForPolicy e = nextPow2 q"
      using mid False by (auto simp: capacityForPolicy_def q_def Let_def)
    ultimately show ?thesis using k by auto
  qed
qed

section \<open>Routing\<close>

text \<open>The contract of a store of rings: a lookup after an update in place.\<close>

locale ring_store =
  fixes look :: "'k \<Rightarrow> 's \<Rightarrow> 'r option" and put :: "'k \<Rightarrow> 'r \<Rightarrow> 's \<Rightarrow> 's" and ok :: "'s \<Rightarrow> bool"
  assumes look_put: "ok s \<Longrightarrow> look k s \<noteq> None \<Longrightarrow> look q (put k r s) = (if q = k then Some r else look q s)"
    and ok_put: "ok s \<Longrightarrow> look k s \<noteq> None \<Longrightarrow> ok (put k r s)"
begin

text \<open>Updates by key reach the ring of their key, in order, and no other.\<close>

lemma look_updates:
  assumes "ok s"
  shows "ok (fold (\<lambda>(k, f) s. case look k s of Some r \<Rightarrow> put k (f r) s | None \<Rightarrow> s) us s) \<and>
    look q (fold (\<lambda>(k, f) s. case look k s of Some r \<Rightarrow> put k (f r) s | None \<Rightarrow> s) us s) =
      map_option (fold (\<lambda>(k, f) r. if k = q then f r else r) us) (look q s)"
  using assms
proof (induction us arbitrary: s)
  case Nil
  then show ?case by (cases "look q s") simp_all
next
  case (Cons u us)
  obtain k f where u: "u = (k, f)" by (cases u)
  show ?case
  proof (cases "look k s")
    case None
    then have "k \<noteq> q \<or> look q s = None" by auto
    with None Cons show ?thesis by (cases "look q s") (auto simp: u)
  next
    case (Some r)
    then have "ok (put k (f r) s)" "look q (put k (f r) s) = (if q = k then Some (f r) else look q s)"
      using Cons.prems look_put [of s k q "f r"] ok_put [of s k "f r"] by auto
    with Some Cons.IH [of "put k (f r) s"] show ?thesis
      by (cases "look q s") (auto simp: u)
  qed
qed

end

definition l1_ok :: "L1SnapshotStore \<Rightarrow> bool" where
  "l1_ok st \<longleftrightarrow> l1_byIndex st = [] \<or>
     l1_minPointId st \<le> l1_maxPointId st \<and>
     length (l1_byIndex st) = unat (l1_maxPointId st - l1_minPointId st) + 1"

lemma in_vector_index:
  assumes "l1_ok st" and "in_vector pid st"
  shows "unat (pid - l1_minPointId st) < length (l1_byIndex st)"
proof -
  have "l1_minPointId st \<le> pid" "pid \<le> l1_maxPointId st" using assms(2) by (simp_all add: in_vector_def)
  then have "unat (pid - l1_minPointId st) \<le> unat (l1_maxPointId st - l1_minPointId st)"
    by (simp add: unat_sub word_le_nat_alt)
  with assms show ?thesis by (auto simp: l1_ok_def in_vector_def)
qed

lemma in_vector_put [simp]: "in_vector q (put_ring pid rb st) = in_vector q st"
  by (simp add: in_vector_def put_ring_def)

lemma min_put [simp]: "l1_minPointId (put_ring pid rb st) = l1_minPointId st"
  by (simp add: put_ring_def)

lemma lookup_put:
  assumes "l1_ok st"
  shows "lookup q (put_ring pid rb st) = (if q = pid then Some rb else lookup q st)"
proof (cases "in_vector pid st \<and> in_vector q st")
  case True
  have "unat (q - l1_minPointId st) = unat (pid - l1_minPointId st) \<longleftrightarrow> q = pid"
    using word_unat_eq_iff [of "q - l1_minPointId st" "pid - l1_minPointId st"] by auto
  with True in_vector_index [OF assms, of pid] show ?thesis
    by (auto simp: lookup_def) (auto simp: put_ring_def)
next
  case False
  then show ?thesis
    by (auto simp: lookup_def) (auto simp: put_ring_def)
qed

lemma l1_ok_put: "l1_ok st \<Longrightarrow> l1_ok (put_ring pid rb st)"
  by (simp add: l1_ok_def put_ring_def)

interpretation l1: ring_store lookup put_ring l1_ok
  by unfold_locales (simp_all add: lookup_put l1_ok_put)

lemma l1_write_history:
  assumes ok: "l1_ok st"
  shows "lookup q (fold (\<lambda>(pid, s). l1_write pid s) ws st) =
     map_option (fold rb_push (map snd (filter (\<lambda>(pid, _). pid = q) ws))) (lookup q st)"
proof -
  let ?us = "map (\<lambda>(pid, s). (pid, rb_push s)) ws"
  have "fold (\<lambda>(pid, s). l1_write pid s) ws st =
      fold (\<lambda>(k, f) s. case lookup k s of Some r \<Rightarrow> put_ring k (f r) s | None \<Rightarrow> s) ?us st"
    by (induction ws arbitrary: st) (auto simp: l1_write_def)
  moreover have "fold (\<lambda>(k, f) r. if k = q then f r else r) ?us rb =
      fold rb_push (map snd (filter (\<lambda>(pid, _). pid = q) ws)) rb" for rb
    by (induction ws arbitrary: rb) auto
  ultimately show ?thesis
    using l1.look_updates [OF ok, of ?us q] by (cases "lookup q st") simp_all
qed

section \<open>Initialisation\<close>

lemma min_id_le: "e \<in> set policy \<Longrightarrow> min_id policy \<le> pe_pointId e"
  and max_id_ge: "e \<in> set policy \<Longrightarrow> pe_pointId e \<le> max_id policy"
proof -
  have mono: "foldl (\<lambda>m e. min m (pe_pointId e)) a es \<le> a" "b \<le> foldl (\<lambda>m e. max m (pe_pointId e)) b es"
    for a b and es :: "RingBufferPolicyEntry list"
    by (induction es arbitrary: a b)
      (auto intro: order_trans [OF _ min.cobounded1] order_trans [OF max.cobounded1])
  have "e \<in> set es \<Longrightarrow> foldl (\<lambda>m e. min m (pe_pointId e)) a es \<le> pe_pointId e" for a es
    by (induction es arbitrary: a) (auto intro: order_trans [OF mono(1) min.cobounded2])
  moreover have "e \<in> set es \<Longrightarrow> pe_pointId e \<le> foldl (\<lambda>m e. max m (pe_pointId e)) b es" for b es
    by (induction es arbitrary: b) (auto intro: order_trans [OF max.cobounded2 mono(2)])
  ultimately show "e \<in> set policy \<Longrightarrow> min_id policy \<le> pe_pointId e"
    and "e \<in> set policy \<Longrightarrow> pe_pointId e \<le> max_id policy"
    by (simp_all add: min_id_def max_id_def)
qed

definition fresh_ring :: "RingBufferPolicyEntry \<Rightarrow> Ring" where
  "fresh_ring e = the (ringbuffer_new zeroSample (unat (capacityForPolicy e)))"

lemma fresh_ring_new: "ringbuffer_new zeroSample (unat (capacityForPolicy e)) = Some (fresh_ring e)"
proof -
  obtain k where k: "8 \<le> k" "k \<le> 16" "unat (capacityForPolicy e) = 2 ^ k" using capacity_bounds by blast
  have "(2 :: nat) ^ 8 \<le> 2 ^ k" "(2 :: nat) ^ k \<le> 2 ^ 16" using k by (intro power_increasing; simp)+
  moreover have "(2 :: nat) ^ k AND (2 ^ k - 1) = 0" using and_mask_mod [of "2 ^ k" k] by simp
  ultimately show ?thesis
    by (simp add: fresh_ring_def ringbuffer_new_def k(3))
qed

lemma place_put:
  assumes "l1_ok st" and "dense \<Longrightarrow> in_vector (pe_pointId e) st \<and> minId = l1_minPointId st"
    and "\<not> dense \<Longrightarrow> l1_byIndex st = []"
  shows "place dense minId e st = Some (put_ring (pe_pointId e) (fresh_ring e) st)"
  using in_vector_index [OF assms(1), of "pe_pointId e"] assms
  by (auto simp: place_def fresh_ring_new put_ring_def in_vector_def Let_def)

definition placeable :: "bool \<Rightarrow> u32 \<Rightarrow> RingBufferPolicyEntry list \<Rightarrow> L1SnapshotStore \<Rightarrow> bool" where
  "placeable dense minId es st \<longleftrightarrow> l1_ok st \<and>
     (if dense then minId = l1_minPointId st \<and> (\<forall>e \<in> set es. in_vector (pe_pointId e) st)
      else l1_byIndex st = [])"

lemma place_all_put:
  assumes "placeable dense minId es st"
  shows "place_all dense minId es st = Some (fold (\<lambda>e. put_ring (pe_pointId e) (fresh_ring e)) es st) \<and>
    l1_ok (fold (\<lambda>e. put_ring (pe_pointId e) (fresh_ring e)) es st)"
  using assms
proof (induction es arbitrary: st)
  case Nil
  then show ?case by (simp add: placeable_def)
next
  case (Cons e es)
  let ?st = "put_ring (pe_pointId e) (fresh_ring e) st"
  have "place dense minId e st = Some ?st"
    using Cons.prems by (intro place_put) (auto simp: placeable_def split: if_splits)
  moreover have "placeable dense minId es ?st"
    using Cons.prems l1_ok_put [of st] by (auto simp: placeable_def put_ring_def in_vector_def split: if_splits)
  ultimately show ?case using Cons.IH by simp
qed

lemma lookup_place:
  "l1_ok st \<Longrightarrow> lookup q (fold (\<lambda>e. put_ring (pe_pointId e) (fresh_ring e)) es st) =
    (case map_of (rev (map (\<lambda>e. (pe_pointId e, e)) es)) q of
       Some e \<Rightarrow> Some (fresh_ring e) | None \<Rightarrow> lookup q st)"
proof (induction es arbitrary: st)
  case (Cons e es)
  then show ?case
    using l1_ok_put [of st "pe_pointId e" "fresh_ring e"] lookup_put [of st q "pe_pointId e" "fresh_ring e"]
    by (auto simp: map_add_def split: option.splits)
qed simp

definition policy_ids :: "RingBufferPolicyEntry list \<Rightarrow> u32 set" where
  "policy_ids policy = pe_pointId ` set policy"

lemma unat_numeral_u32_max: "unat (0xFFFFFFFF :: u32) = 4294967295"
  by simp

lemma range_wraps:
  assumes "policy \<noteq> []"
  shows "max_id policy - min_id policy + 1 = 0 \<longleftrightarrow> 0 \<in> policy_ids policy \<and> 0xFFFFFFFF \<in> policy_ids policy"
    and "min_id policy \<le> max_id policy"
proof -
  have attained: "foldl (\<lambda>m e. min m (pe_pointId e)) a es \<in> insert a (policy_ids es)"
    "foldl (\<lambda>m e. max m (pe_pointId e)) b es \<in> insert b (policy_ids es)" for a b es
    by (induction es arbitrary: a b) (auto simp: policy_ids_def min_def max_def)
  from assms obtain e where e: "e \<in> set policy" by (cases policy) auto
  show le: "min_id policy \<le> max_id policy"
    using min_id_le [OF e] max_id_ge [OF e] by (rule order_trans)
  have top: "x \<le> 0xFFFFFFFF" for x :: u32
  proof -
    have "(0xFFFFFFFF :: u32) = - 1" by simp
    then show ?thesis by (simp only: word_order.extremum)
  qed
  have "0 \<in> policy_ids policy \<and> 0xFFFFFFFF \<in> policy_ids policy \<longleftrightarrow>
      min_id policy = 0 \<and> max_id policy = 0xFFFFFFFF"
  proof
    assume "0 \<in> policy_ids policy \<and> 0xFFFFFFFF \<in> policy_ids policy"
    then obtain e0 e1 where "e0 \<in> set policy" "pe_pointId e0 = 0" "e1 \<in> set policy" "pe_pointId e1 = 0xFFFFFFFF"
      by (auto simp: policy_ids_def)
    then show "min_id policy = 0 \<and> max_id policy = 0xFFFFFFFF"
      using min_id_le [of e0 policy] max_id_ge [of e1 policy] top [of "max_id policy"] by auto
  next
    assume "min_id policy = 0 \<and> max_id policy = 0xFFFFFFFF"
    then show "0 \<in> policy_ids policy \<and> 0xFFFFFFFF \<in> policy_ids policy"
      using attained(1) [of "0xFFFFFFFF" policy] attained(2) [of 0 policy]
      by (auto simp: min_id_def max_id_def)
  qed
  moreover have "max_id policy - min_id policy + 1 = 0 \<longleftrightarrow> min_id policy = 0 \<and> max_id policy = 0xFFFFFFFF"
  proof
    assume "max_id policy - min_id policy + 1 = 0"
    then have "max_id policy - min_id policy = 0xFFFFFFFF" by (simp add: eq_neg_iff_add_eq_0 [symmetric])
    then have "unat (max_id policy) - unat (min_id policy) = 4294967295"
      using le by (metis unat_sub unat_numeral_u32_max)
    moreover have "unat (max_id policy) \<le> 4294967295" using unsigned_less [of "max_id policy", where ?'a = nat] by simp
    ultimately have "unat (min_id policy) = 0" "unat (max_id policy) = 4294967295" by auto
    then show "min_id policy = 0 \<and> max_id policy = 0xFFFFFFFF"
      by (simp add: unat_eq_0) (metis unat_numeral_u32_max word_unat_eq_iff)
  qed simp
  ultimately show "max_id policy - min_id policy + 1 = 0 \<longleftrightarrow>
      0 \<in> policy_ids policy \<and> 0xFFFFFFFF \<in> policy_ids policy" by simp
qed

text \<open>The store that \<open>initFromPolicy\<close> starts to fill.\<close>

definition cleared :: "RingBufferPolicyEntry list \<Rightarrow> L1SnapshotStore \<Rightarrow> L1SnapshotStore" where
  "cleared policy st =
     (let st1 = st\<lparr>l1_byIndex := [], l1_sparse := Map.empty\<rparr>
      in if isDensePolicy policy
         then st1\<lparr>l1_minPointId := min_id policy, l1_maxPointId := max_id policy,
                  l1_byIndex := replicate (unat (max_id policy - min_id policy + 1)) None\<rparr>
         else st1)"

lemma init_place:
  "policy \<noteq> [] \<Longrightarrow> initFromPolicy policy st =
    map_option (Pair True) (place_all (isDensePolicy policy) (min_id policy) policy (cleared policy st))"
  by (simp add: initFromPolicy_def cleared_def Let_def split: option.split)

lemma cleared_placeable:
  assumes "policy \<noteq> []" and nowrap: "\<not> (0 \<in> policy_ids policy \<and> 0xFFFFFFFF \<in> policy_ids policy)"
  shows "placeable (isDensePolicy policy) (min_id policy) policy (cleared policy st)"
    and "lookup q (cleared policy st) = None"
proof -
  let ?r = "max_id policy - min_id policy + 1"
  have "?r \<noteq> 0" using range_wraps(1) [OF assms(1)] nowrap by simp
  then have len: "unat ?r = unat (max_id policy - min_id policy) + 1"
    using unatSuc [of "max_id policy - min_id policy"] by (simp add: add.commute)
  then have "replicate (unat ?r) None \<noteq> []" by simp
  then show "placeable (isDensePolicy policy) (min_id policy) policy (cleared policy st)"
    using len range_wraps(2) [OF assms(1)] min_id_le [of _ policy] max_id_ge [of _ policy]
    by (auto simp: placeable_def cleared_def l1_ok_def in_vector_def Let_def)
  have index: "unat (q - min_id policy) < unat ?r" if "min_id policy \<le> q" "q \<le> max_id policy"
  proof -
    have "unat (q - min_id policy) \<le> unat (max_id policy - min_id policy)"
      using that range_wraps(2) [OF assms(1)] by (simp add: unat_sub word_le_nat_alt)
    then show ?thesis by (simp add: len)
  qed
  then show "lookup q (cleared policy st) = None"
    by (simp add: lookup_def in_vector_def cleared_def Let_def)
qed

lemma init_ok:
  assumes "policy \<noteq> []" and "\<not> (0 \<in> policy_ids policy \<and> 0xFFFFFFFF \<in> policy_ids policy)"
  shows "\<exists>st'. initFromPolicy policy st = Some (True, st') \<and> l1_ok st' \<and>
    (\<forall>q. lookup q st' = map_option fresh_ring (map_of (rev (map (\<lambda>e. (pe_pointId e, e)) policy)) q))"
proof -
  let ?st = "cleared policy st"
  note p = cleared_placeable [OF assms, where st = st]
  have "l1_ok ?st" using p(1) by (simp add: placeable_def)
  from lookup_place [OF this, of _ policy] have
    "lookup q (fold (\<lambda>e. put_ring (pe_pointId e) (fresh_ring e)) policy ?st) =
       map_option fresh_ring (map_of (rev (map (\<lambda>e. (pe_pointId e, e)) policy)) q)" for q
    using p(2) by (simp split: option.split)
  with place_all_put [OF p(1)] show ?thesis
    by (simp add: init_place [OF assms(1)])
qed

section \<open>Properties\<close>

text \<open>Property C19: the store is the map from points to histories it stands for. Initialisation with
  a non-empty policy succeeds unless the policy names both the point 0 and the point
  \<open>0xFFFFFFFF\<close> (then the computed range is 0 and the code writes outside an empty vector);
  after it, and after any writes, a point is registered exactly when the policy names it, and
  its ring, whose capacity is the one of its last policy entry, between 256 and 65536, holds
  exactly the samples written to that point, in order.\<close>

theorem store_routes_samples:
  assumes "policy \<noteq> []"
  shows "case initFromPolicy policy st of
     None \<Rightarrow> 0 \<in> policy_ids policy \<and> 0xFFFFFFFF \<in> policy_ids policy
   | Some (r, st1) \<Rightarrow> r \<and> \<not> (0 \<in> policy_ids policy \<and> 0xFFFFFFFF \<in> policy_ids policy) \<and>
       (\<forall>q. case lookup q (fold (\<lambda>(pid, s). l1_write pid s) ws st1) of
          None \<Rightarrow> q \<notin> policy_ids policy
        | Some rb \<Rightarrow> q \<in> policy_ids policy \<and> 256 \<le> capacity_of rb \<and> capacity_of rb \<le> 65536 \<and>
            holds_history rb (map snd (filter (\<lambda>(pid, _). pid = q) ws)))"
proof (cases "0 \<in> policy_ids policy \<and> 0xFFFFFFFF \<in> policy_ids policy")
  case True
  then have "max_id policy - min_id policy + 1 = 0" using range_wraps(1) [OF assms] by simp
  then have "isDensePolicy policy" and "l1_byIndex (cleared policy st) = []"
    by (simp_all add: isDensePolicy_def cleared_def Let_def)
  then have "initFromPolicy policy st = None"
    using assms by (cases policy) (simp_all add: init_place place_def fresh_ring_new Let_def)
  with True show ?thesis by simp
next
  case False
  from init_ok [OF assms False, of st] obtain st1 where st1: "initFromPolicy policy st = Some (True, st1)"
    and ok: "l1_ok st1"
    and look: "\<And>q. lookup q st1 = map_option fresh_ring (map_of (rev (map (\<lambda>e. (pe_pointId e, e)) policy)) q)"
    by blast
  have "case lookup q (fold (\<lambda>(pid, s). l1_write pid s) ws st1) of
      None \<Rightarrow> q \<notin> policy_ids policy
    | Some rb \<Rightarrow> q \<in> policy_ids policy \<and> 256 \<le> capacity_of rb \<and> capacity_of rb \<le> 65536 \<and>
        holds_history rb (map snd (filter (\<lambda>(pid, _). pid = q) ws))" for q
  proof (cases "map_of (rev (map (\<lambda>e. (pe_pointId e, e)) policy)) q")
    case None
    then have "q \<notin> policy_ids policy" by (force simp: map_of_eq_None_iff policy_ids_def)
    with None look [of q] show ?thesis by (simp add: l1_write_history [OF ok])
  next
    case (Some e)
    then have "q \<in> policy_ids policy" by (auto dest!: map_of_SomeD simp: policy_ids_def)
    obtain k where k: "8 \<le> k" "k \<le> 16" "unat (capacityForPolicy e) = 2 ^ k" using capacity_bounds by blast
    have "(2 :: nat) ^ 8 \<le> 2 ^ k" "(2 :: nat) ^ k \<le> 2 ^ 16" using k by (intro power_increasing; simp)+
    moreover have "holds_history (fresh_ring e) []" "capacity_of (fresh_ring e) = 2 ^ k"
      using ringbuffer_new_wf [OF fresh_ring_new] k(3) by auto
    ultimately show ?thesis
      using Some look [of q] \<open>q \<in> policy_ids policy\<close>
        pushes_history [of "fresh_ring e" "[]" "map snd (filter (\<lambda>(pid, _). pid = q) ws)"]
      by (simp add: l1_write_history [OF ok])
  qed
  then show ?thesis using st1 False by simp
qed

theorem store_routes_samples_witness:
  "\<exists>st1 rb. initFromPolicy [\<lparr>pe_pointId = 5, pe_sampleRateMs = 100, pe_retentionMs = 60000, pe_priority = 1\<rparr>] l1_new =
       Some (True, st1) \<and>
     lookup 5 (l1_write 7 zeroSample (l1_write 5 zeroSample st1)) = Some rb \<and> holds_history rb [zeroSample]"
proof -
  let ?p = "[\<lparr>pe_pointId = 5, pe_sampleRateMs = 100, pe_retentionMs = 60000, pe_priority = 1 :: u8\<rparr>]"
  note inst = store_routes_samples [where policy = ?p and st = l1_new and ws = "[(5, zeroSample), (7, zeroSample)]"]
  show ?thesis
  proof (cases "initFromPolicy ?p l1_new")
    case None
    with inst show ?thesis by (simp add: policy_ids_def)
  next
    case (Some r)
    obtain b st1 where r: "r = (b, st1)" by (cases r)
    from inst Some r have b: "b" and all: "\<forall>q. case lookup q (l1_write 7 zeroSample (l1_write 5 zeroSample st1)) of
        None \<Rightarrow> q \<notin> policy_ids ?p
      | Some rb \<Rightarrow> q \<in> policy_ids ?p \<and> 256 \<le> capacity_of rb \<and> capacity_of rb \<le> 65536 \<and>
          holds_history rb (map snd (filter (\<lambda>(pid, _). pid = q) [(5, zeroSample), (7, zeroSample)]))"
      by (simp_all add: case_prod_unfold)
    from all [THEN spec, of 5] obtain rb where "lookup 5 (l1_write 7 zeroSample (l1_write 5 zeroSample st1)) = Some rb"
      and "holds_history rb [zeroSample]"
      by (cases "lookup 5 (l1_write 7 zeroSample (l1_write 5 zeroSample st1))") (simp_all add: policy_ids_def)
    with Some r b show ?thesis by (intro exI [of _ st1] exI [of _ rb]) simp
  qed
qed

end
