(* ===== verification/BlackBox.thy ===== *)
theory BlackBox
  imports L1Store
begin

text \<open>
  The black box of the data hub: \<^verbatim>\<open>CriticalSwapFile.h\<close>, \<^verbatim>\<open>.cpp\<close> and \<^verbatim>\<open>BlackBoxManager.h\<close>, \<^verbatim>\<open>.cpp\<close>
  under \<^verbatim>\<open>apps/ens_app/src/datahub\<close>. The memory-mapped swap file is its structured content: the
  header and 64 slots of metadata and 1024 samples (reserved bytes are not kept). Mapping a
  file is the operating system's: what it yields (\<open>None\<close>: it failed) is an argument, and closing
  returns the content that stays on disk. The answers of the file system in the recovery are a
  record.
\<close>

section \<open>The swap file\<close>

datatype BbLevel = BbInfo | BbWarning | BbCritical | BbOther u8

text \<open>\<open>static_cast\<close> between the level and its byte; a byte that is no level stays what it is.\<close>

definition level_byte :: "BbLevel \<Rightarrow> u8" where
  "level_byte l = (case l of BbInfo \<Rightarrow> 0 | BbWarning \<Rightarrow> 1 | BbCritical \<Rightarrow> 2 | BbOther b \<Rightarrow> b)"

definition byte_level :: "u8 \<Rightarrow> BbLevel" where
  "byte_level b = (if b = 0 then BbInfo else if b = 1 then BbWarning else if b = 2 then BbCritical else BbOther b)"

record BlackBoxSnapshot =
  bb_pointId :: u32
  bb_alarmTime :: u64
  bb_level :: BbLevel
  bb_samples :: "Sample list"

record SlotMeta =
  mt_pointId :: u32
  mt_alarmTime :: u64
  mt_level :: u8
  mt_count :: u32

record SwapImage =
  im_magic :: string
  im_version :: u32
  im_snapshotCount :: u32
  im_writePos :: u32
  im_slots :: "(SlotMeta \<times> Sample list) list"

definition kMaxSamplesPerSnap :: nat where
  "kMaxSamplesPerSnap = 1024"

definition kSlotCount :: nat where
  "kSlotCount = 64"

definition kMaxPending :: nat where
  "kMaxPending = 16"

definition kHeaderSize :: nat where
  "kHeaderSize = 64"

definition kSlotMetaSize :: nat where
  "kSlotMetaSize = 32"

definition slotSize :: nat where
  "slotSize = kSlotMetaSize + kMaxSamplesPerSnap * 16"

definition totalFileSize :: nat where
  "totalFileSize = kHeaderSize + kSlotCount * slotSize"

definition kMagic :: string where
  "kMagic = ''ENSBBX01''"

record CriticalSwapFile =
  cs_mmap :: "SwapImage option"
  cs_path :: string
  cs_writePos :: u32
  cs_snapshotCount :: u32
  cs_initialized :: bool

definition swap_new :: CriticalSwapFile where
  "swap_new = \<lparr>cs_mmap = None, cs_path = [], cs_writePos = 0, cs_snapshotCount = 0,
     cs_initialized = False\<rparr>"

definition zero_slot :: "SlotMeta \<times> Sample list" where
  "zero_slot = (\<lparr>mt_pointId = 0, mt_alarmTime = 0, mt_level = 0, mt_count = 0\<rparr>,
     replicate kMaxSamplesPerSnap zeroSample)"

definition new_image :: SwapImage where
  "new_image = \<lparr>im_magic = kMagic, im_version = 1, im_snapshotCount = 0, im_writePos = 0,
     im_slots = replicate kSlotCount zero_slot\<rparr>"

definition swap_close :: "CriticalSwapFile \<Rightarrow> SwapImage option \<times> CriticalSwapFile" where
  "swap_close st =
     (cs_mmap st, st\<lparr>cs_mmap := None, cs_path := [], cs_initialized := False, cs_writePos := 0,
        cs_snapshotCount := 0\<rparr>)"

definition swap_open ::
  "string \<Rightarrow> SwapImage option \<Rightarrow> CriticalSwapFile \<Rightarrow> bool \<times> CriticalSwapFile" where
  "swap_open path opened st =
     (let st = snd (swap_close st)
      in case opened of
        None \<Rightarrow> (False, st)
      | Some im \<Rightarrow>
          let isNewFile = im_magic im \<noteq> kMagic
          in if \<not> isNewFile \<and> im_version im \<noteq> 1 then (False, st)
             else let im = (if isNewFile then new_image
                            else if unat (im_writePos im) \<ge> kSlotCount then im\<lparr>im_writePos := 0\<rparr> else im)
             in (True, st\<lparr>cs_mmap := Some im, cs_path := path, cs_writePos := im_writePos im,
                          cs_snapshotCount := im_snapshotCount im, cs_initialized := True\<rparr>))"

definition appendSnapshot :: "BlackBoxSnapshot \<Rightarrow> CriticalSwapFile \<Rightarrow> bool \<times> CriticalSwapFile" where
  "appendSnapshot snap st =
     (case cs_mmap st of
        None \<Rightarrow> (False, st)
      | Some im \<Rightarrow>
          if \<not> cs_initialized st then (False, st)
          else if length (bb_samples snap) > kMaxSamplesPerSnap then (False, st)
          else let slot = unat (cs_writePos st) mod kSlotCount;
                   metadata = \<lparr>mt_pointId = bb_pointId snap, mt_alarmTime = bb_alarmTime snap,
                           mt_level = level_byte (bb_level snap),
                           mt_count = of_nat (length (bb_samples snap))\<rparr>;
                   old = snd (im_slots im ! slot);
                   stored = bb_samples snap @ drop (length (bb_samples snap)) old;
                   count = cs_snapshotCount st + 1;
                   pos = of_nat ((unat (cs_writePos st) + 1) mod kSlotCount)
               in (True, st\<lparr>cs_mmap := Some (im\<lparr>im_slots := (im_slots im)[slot := (metadata, stored)],
                              im_snapshotCount := count, im_writePos := pos\<rparr>),
                            cs_snapshotCount := count, cs_writePos := pos\<rparr>))"

fun parse_slots :: "nat \<Rightarrow> (SlotMeta \<times> Sample list) list \<Rightarrow> BlackBoxSnapshot list \<Rightarrow> BlackBoxSnapshot list" where
  "parse_slots count [] out = out"
| "parse_slots count ((m, samples) # slots) out =
     (if \<not> length out < count then out
      else if mt_count m = 0 \<or> unat (mt_count m) > kMaxSamplesPerSnap then parse_slots count slots out
      else parse_slots count slots (out @ [\<lparr>bb_pointId = mt_pointId m, bb_alarmTime = mt_alarmTime m,
             bb_level = byte_level (mt_level m), bb_samples = take (unat (mt_count m)) samples\<rparr>]))"

definition parsePendingSnapshots :: "nat \<Rightarrow> CriticalSwapFile \<Rightarrow> BlackBoxSnapshot list" where
  "parsePendingSnapshots limit st =
     (case cs_mmap st of
        None \<Rightarrow> []
      | Some im \<Rightarrow>
          if \<not> cs_initialized st then []
          else let count = min (unat (cs_snapshotCount st)) limit
          in if cs_snapshotCount st = 0 then [] else parse_slots count (im_slots im) [])"

definition swap_snapshotCount :: "CriticalSwapFile \<Rightarrow> u32" where
  "swap_snapshotCount st = cs_snapshotCount st"

section \<open>Recovery at start\<close>

record RecoveryResult =
  rr_recovered :: bool
  rr_pendingSnapshots :: int
  rr_backupPath :: string

text \<open>What the operating system answers: the two attempts to map the file and the one that
  follows a rename or a removal, whether another process holds it, whether it exists, and
  whether it can be renamed to the backup path.\<close>

record RecoveryEnv =
  re_first :: "SwapImage option"
  re_second :: "SwapImage option"
  re_locked :: bool
  re_exists :: bool
  re_renamed :: bool
  re_backupPath :: string
  re_rebuilt :: "SwapImage option"

definition recovery_start :: "string \<Rightarrow> RecoveryEnv \<Rightarrow> RecoveryResult \<times> CriticalSwapFile" where
  "recovery_start swapPath env =
     (let result = \<lparr>rr_recovered = False, rr_pendingSnapshots = 0, rr_backupPath = []\<rparr>
      in case swap_open swapPath (re_first env) swap_new of
        (True, swap) \<Rightarrow>
          (result\<lparr>rr_recovered := True,
             rr_pendingSnapshots := int (length (parsePendingSnapshots kMaxPending swap))\<rparr>, swap)
      | (False, swap) \<Rightarrow>
          if re_second env = None then
            (if re_locked env then
               (if \<not> re_exists env then (result, swap)
                else if re_renamed env
                then (result\<lparr>rr_backupPath := re_backupPath env, rr_recovered := True,
                        rr_pendingSnapshots := 0\<rparr>, snd (swap_open swapPath (re_rebuilt env) swap))
                else (result\<lparr>rr_recovered := True, rr_pendingSnapshots := 0\<rparr>,
                      snd (swap_open swapPath (re_rebuilt env) swap)))
             else (result, swap))
          else (result, swap))"

section \<open>The manager\<close>

record BlackBoxManager =
  bm_l1Store :: "L1SnapshotStore option"
  bm_swap :: "CriticalSwapFile option"
  bm_criticalTriggers :: u32

definition kPreWindowMs :: u64 where
  "kPreWindowMs = 30000"

definition kPostWindowMs :: u64 where
  "kPostWindowMs = 30000"

definition kMaxSamples :: nat where
  "kMaxSamples = 1200"

definition blackbox_new :: "L1SnapshotStore option \<Rightarrow> BlackBoxManager" where
  "blackbox_new l1Store = \<lparr>bm_l1Store = l1Store, bm_swap = None, bm_criticalTriggers = 0\<rparr>"

definition enableCriticalSwap ::
  "string \<Rightarrow> SwapImage option \<Rightarrow> BlackBoxManager \<Rightarrow> bool \<times> BlackBoxManager" where
  "enableCriticalSwap swapPath opened bm =
     (case swap_open swapPath opened swap_new of
        (False, _) \<Rightarrow> (False, bm)
      | (True, swap) \<Rightarrow> (True, bm\<lparr>bm_swap := Some swap\<rparr>))"

definition triggerBlackBox ::
  "u32 \<Rightarrow> u64 \<Rightarrow> BbLevel \<Rightarrow> BlackBoxManager \<Rightarrow> BlackBoxSnapshot \<times> BlackBoxManager" where
  "triggerBlackBox pointId alarmTime level bm =
     (let samples = (case bm_l1Store bm of
            None \<Rightarrow> []
          | Some l1 \<Rightarrow> l1_extractRange pointId
                (if alarmTime > kPreWindowMs then alarmTime - kPreWindowMs else 0)
                (alarmTime + kPostWindowMs) kMaxSamples l1);
          snap = \<lparr>bb_pointId = pointId, bb_alarmTime = alarmTime, bb_level = level, bb_samples = samples\<rparr>
      in if level = BbCritical
         then let bm1 = bm\<lparr>bm_criticalTriggers := bm_criticalTriggers bm + 1\<rparr>
              in (snap, bm1\<lparr>bm_swap := map_option (snd \<circ> appendSnapshot snap) (bm_swap bm1)\<rparr>)
         else (snap, bm))"

definition criticalSnapshotCount :: "BlackBoxManager \<Rightarrow> u32" where
  "criticalSnapshotCount bm = (case bm_swap bm of Some swap \<Rightarrow> swap_snapshotCount swap | None \<Rightarrow> 0)"

definition criticalTriggerCount :: "BlackBoxManager \<Rightarrow> u32" where
  "criticalTriggerCount bm = bm_criticalTriggers bm"

definition criticalSwapEnabled :: "BlackBoxManager \<Rightarrow> bool" where
  "criticalSwapEnabled bm \<longleftrightarrow> bm_swap bm \<noteq> None"

definition forceSync :: "BlackBoxManager \<Rightarrow> BlackBoxManager" where
  "forceSync bm = bm\<lparr>bm_swap := map_option (snd \<circ> swap_close) (bm_swap bm)\<rparr>"

section \<open>The file as a list of snapshots\<close>

definition storable :: "BlackBoxSnapshot \<Rightarrow> bool" where
  "storable snap \<longleftrightarrow> bb_samples snap \<noteq> [] \<and> length (bb_samples snap) \<le> kMaxSamplesPerSnap \<and>
     byte_level (level_byte (bb_level snap)) = bb_level snap"

definition slot_of :: "BlackBoxSnapshot \<Rightarrow> SlotMeta \<times> Sample list" where
  "slot_of snap = (\<lparr>mt_pointId = bb_pointId snap, mt_alarmTime = bb_alarmTime snap,
       mt_level = level_byte (bb_level snap), mt_count = of_nat (length (bb_samples snap))\<rparr>,
     bb_samples snap @ replicate (kMaxSamplesPerSnap - length (bb_samples snap)) zeroSample)"

text \<open>A file that has not lapped holds the snapshots in its first slots.\<close>

definition holds_snapshots :: "CriticalSwapFile \<Rightarrow> BlackBoxSnapshot list \<Rightarrow> bool" where
  "holds_snapshots st xs \<longleftrightarrow> length xs \<le> kSlotCount \<and> cs_initialized st \<and>
     cs_writePos st = of_nat (length xs mod kSlotCount) \<and> cs_snapshotCount st = of_nat (length xs) \<and>
     cs_mmap st = Some \<lparr>im_magic = kMagic, im_version = 1, im_snapshotCount = of_nat (length xs),
       im_writePos = of_nat (length xs mod kSlotCount),
       im_slots = map slot_of xs @ replicate (kSlotCount - length xs) zero_slot\<rparr>"

lemma open_new_holds:
  "im_magic im \<noteq> kMagic \<Longrightarrow> fst (swap_open p (Some im) st) \<and> holds_snapshots (snd (swap_open p (Some im) st)) []"
  by (simp add: swap_open_def new_image_def holds_snapshots_def Let_def)

lemma unat_small_nat: "n \<le> 64 \<Longrightarrow> unat (of_nat n :: u32) = n"
proof -
  assume "n \<le> 64"
  then have "n < 2 ^ 32" by (rule le_less_trans) simp
  then show ?thesis by (simp add: unsigned_of_nat take_bit_nat_eq_self)
qed

lemma mod_slots: "n mod kSlotCount \<le> 64"
  using mod_less_divisor [of kSlotCount n] by (simp add: kSlotCount_def)

lemma append_holds:
  assumes h: "holds_snapshots st xs" and room: "length xs < kSlotCount" and x: "storable x"
  shows "fst (appendSnapshot x st) \<and> holds_snapshots (snd (appendSnapshot x st)) (xs @ [x])"
proof -
  have n: "length xs \<le> 64" using room by (simp add: kSlotCount_def)
  have pos: "unat (cs_writePos st) = length xs"
    using h room n by (simp add: holds_snapshots_def unat_small_nat)
  obtain im where im: "cs_mmap st = Some im" using h by (auto simp: holds_snapshots_def)
  have slots: "im_slots im = map slot_of xs @ replicate (kSlotCount - length xs) zero_slot"
    using h im by (simp add: holds_snapshots_def)
  have old: "im_slots im ! length xs = zero_slot"
    using room by (simp add: slots nth_append)
  obtain m where m: "kSlotCount - length xs = Suc m" using room by (metis Suc_diff_Suc)
  then have m': "kSlotCount - length (xs @ [x]) = m" by simp
  have "(map slot_of xs @ replicate (Suc m) zero_slot)[length xs := slot_of x] =
      map slot_of (xs @ [x]) @ replicate m zero_slot"
    by (simp add: list_update_append)
  moreover have "(\<lparr>mt_pointId = bb_pointId x, mt_alarmTime = bb_alarmTime x,
        mt_level = level_byte (bb_level x), mt_count = of_nat (length (bb_samples x))\<rparr>,
      bb_samples x @ drop (length (bb_samples x)) (snd zero_slot)) = slot_of x"
    by (simp add: slot_of_def zero_slot_def)
  ultimately have new_slots: "(im_slots im)[length xs := (\<lparr>mt_pointId = bb_pointId x, mt_alarmTime = bb_alarmTime x,
        mt_level = level_byte (bb_level x), mt_count = of_nat (length (bb_samples x))\<rparr>,
      bb_samples x @ drop (length (bb_samples x)) (snd (im_slots im ! length xs)))] =
      map slot_of (xs @ [x]) @ replicate (kSlotCount - length (xs @ [x])) zero_slot"
    by (simp only: slots m m' old [unfolded slots m])
  have len: "length (bb_samples x) \<le> kMaxSamplesPerSnap" using x by (simp add: storable_def)
  have slot: "length xs mod kSlotCount = length xs" using room by simp
  have "cs_initialized st" using h by (simp add: holds_snapshots_def)
  then have "appendSnapshot x st = (True,
      st\<lparr>cs_mmap := Some (im\<lparr>im_slots := map slot_of (xs @ [x]) @ replicate (kSlotCount - length (xs @ [x])) zero_slot,
           im_snapshotCount := cs_snapshotCount st + 1, im_writePos := of_nat ((length xs + 1) mod kSlotCount)\<rparr>),
         cs_snapshotCount := cs_snapshotCount st + 1, cs_writePos := of_nat ((length xs + 1) mod kSlotCount)\<rparr>)"
    using im len pos slot new_slots by (simp add: appendSnapshot_def Let_def)
  then show ?thesis
    using h im room by (simp add: holds_snapshots_def Suc_le_eq ac_simps)
qed

lemma appends_hold:
  assumes "holds_snapshots st ys" and "length ys + length xs \<le> kSlotCount" and "\<forall>x \<in> set xs. storable x"
  shows "holds_snapshots (fold (\<lambda>x st. snd (appendSnapshot x st)) xs st) (ys @ xs)"
  using assms
proof (induction xs arbitrary: st ys)
  case (Cons x xs)
  then have "holds_snapshots (snd (appendSnapshot x st)) (ys @ [x])"
    using append_holds [of st ys x] by simp
  from Cons.IH [OF this] Cons.prems show ?case by simp
qed simp

lemma reopen_holds:
  assumes h: "holds_snapshots st xs"
  shows "fst (swap_open p (fst (swap_close st)) st') \<and>
    holds_snapshots (snd (swap_open p (fst (swap_close st)) st')) xs"
proof -
  have "unat (of_nat (length xs mod kSlotCount) :: u32) < kSlotCount"
    using unat_small_nat [OF mod_slots] by (simp add: kSlotCount_def)
  with h show ?thesis
    by (simp add: swap_open_def swap_close_def holds_snapshots_def Let_def)
qed

lemma parse_slot_of:
  assumes x: "storable x"
  shows "parse_slots count (slot_of x # slots) out =
    (if length out < count then parse_slots count slots (out @ [x]) else out)"
proof -
  from x have "length (bb_samples x) < 2 ^ 32" by (simp add: storable_def kMaxSamplesPerSnap_def)
  then have n: "unat (of_nat (length (bb_samples x)) :: u32) = length (bb_samples x)"
    by (simp add: unsigned_of_nat take_bit_nat_eq_self)
  then have nz: "(of_nat (length (bb_samples x)) :: u32) \<noteq> 0"
    using x by (metis length_0_conv storable_def unsigned_0)
  show ?thesis
    using x n nz by (cases x) (simp add: slot_of_def storable_def)
qed

lemma parse_slots_holds:
  assumes "\<forall>x \<in> set xs. storable x"
  shows "parse_slots count (map slot_of xs @ replicate m zero_slot) out = out @ take (count - length out) xs"
  using assms
proof (induction xs arbitrary: out)
  case Nil
  have "parse_slots count (replicate m zero_slot) out = out"
    by (induction m) (simp_all add: zero_slot_def)
  then show ?case by simp
next
  case (Cons x xs)
  have "length out < count \<Longrightarrow> count - length out = Suc (count - length (out @ [x]))" by simp
  then show ?case
    using Cons.IH [of "out @ [x]"] Cons.prems parse_slot_of [of x count "map slot_of xs @ replicate m zero_slot" out]
    by auto
qed

lemma parse_holds:
  assumes h: "holds_snapshots st xs" and x: "\<forall>x \<in> set xs. storable x"
  shows "parsePendingSnapshots limit st = take limit xs"
proof -
  have n: "unat (of_nat (length xs) :: u32) = length xs"
    using h by (intro unat_small_nat) (simp add: holds_snapshots_def kSlotCount_def)
  obtain im where im: "cs_mmap st = Some im" "cs_initialized st" "cs_snapshotCount st = of_nat (length xs)"
    and slots: "im_slots im = map slot_of xs @ replicate (kSlotCount - length xs) zero_slot"
    using h by (auto simp: holds_snapshots_def)
  have parse: "parse_slots (min (length xs) limit) (im_slots im) [] = take limit xs"
    using parse_slots_holds [OF x, of "min (length xs) limit" "kSlotCount - length xs" "[]"] slots
    by (simp add: min_def)
  show ?thesis
  proof (cases xs)
    case Nil
    with im show ?thesis by (simp add: parsePendingSnapshots_def)
  next
    case (Cons y ys)
    then have "unat (cs_snapshotCount st) \<noteq> 0" using n im by simp
    then have "cs_snapshotCount st \<noteq> 0" by auto
    with im n parse show ?thesis by (simp add: parsePendingSnapshots_def)
  qed
qed

section \<open>Properties\<close>

text \<open>Property C20: what was written to the swap file is recovered after a restart. When a fresh
  file is opened, at most 64 snapshots of 1 to 1024 samples are appended and the file is closed
  (or left behind by a crash), opening it again succeeds and parsing returns the snapshots, with
  all their samples, in the order they were written, as far as the limit allows.\<close>

theorem swap_recovers:
  assumes "im_magic im \<noteq> kMagic" and "length xs \<le> kSlotCount" and "\<forall>x \<in> set xs. storable x"
  shows "case swap_close (fold (\<lambda>x st. snd (appendSnapshot x st)) xs (snd (swap_open p (Some im) swap_new))) of
    (img, st0) \<Rightarrow> (case swap_open p img st0 of
      (opened, st) \<Rightarrow> opened \<and> swap_snapshotCount st = of_nat (length xs) \<and>
        parsePendingSnapshots limit st = take limit xs)"
proof -
  let ?st = "fold (\<lambda>x st. snd (appendSnapshot x st)) xs (snd (swap_open p (Some im) swap_new))"
  have h: "holds_snapshots ?st xs"
    using appends_hold [of "snd (swap_open p (Some im) swap_new)" "[]" xs] open_new_holds [OF assms(1)] assms(2,3)
    by simp
  let ?st' = "snd (swap_open p (fst (swap_close ?st)) (snd (swap_close ?st)))"
  have "fst (swap_open p (fst (swap_close ?st)) (snd (swap_close ?st)))" and h': "holds_snapshots ?st' xs"
    using reopen_holds [OF h] by blast+
  moreover have "swap_snapshotCount ?st' = of_nat (length xs)"
    using h' by (simp add: swap_snapshotCount_def holds_snapshots_def)
  ultimately show ?thesis
    using parse_holds [OF h' assms(3), of limit] by (simp add: case_prod_unfold)
qed

definition demo_snap :: "u32 \<Rightarrow> BlackBoxSnapshot" where
  "demo_snap pid = \<lparr>bb_pointId = pid, bb_alarmTime = 1000, bb_level = BbCritical,
     bb_samples = [\<lparr>sm_timestamp = 990, sm_pointId = pid, sm_value = Fin 61\<rparr>]\<rparr>"

theorem swap_recovers_witness:
  "case swap_close (fold (\<lambda>x st. snd (appendSnapshot x st)) [demo_snap 1, demo_snap 2]
      (snd (swap_open ''bb.swp'' (Some (new_image\<lparr>im_magic := []\<rparr>)) swap_new))) of
    (img, st0) \<Rightarrow> (case swap_open ''bb.swp'' img st0 of
      (opened, st) \<Rightarrow> opened \<and> swap_snapshotCount st = 2 \<and>
        parsePendingSnapshots 16 st = [demo_snap 1, demo_snap 2])"
  using swap_recovers [of "new_image\<lparr>im_magic := []\<rparr>" "[demo_snap 1, demo_snap 2]" 16 "''bb.swp''"]
  by (simp add: kMagic_def storable_def demo_snap_def kMaxSamplesPerSnap_def kSlotCount_def
      byte_level_def level_byte_def)

definition window_start :: "u64 \<Rightarrow> u64" where
  "window_start t = (if t > kPreWindowMs then t - kPreWindowMs else 0)"

lemma window_order: "t \<le> t + kPostWindowMs \<Longrightarrow> window_start t \<le> t + kPostWindowMs"
  by (auto simp: window_start_def kPreWindowMs_def word_le_nat_alt unat_sub word_less_nat_alt)

lemma snapshot_samples:
  assumes l1: "bm_l1Store bm = Some l1" and rb: "lookup pid l1 = Some rb"
    and h: "holds_history rb h" "length h \<le> capacity_of rb" "sorted (map sm_timestamp h)"
    and t: "t \<le> t + kPostWindowMs"
  shows "triggerBlackBox pid t BbCritical bm =
    (let snap = \<lparr>bb_pointId = pid, bb_alarmTime = t, bb_level = BbCritical, bb_samples = take kMaxSamples
           (filter (in_range sm_timestamp (window_start t) (t + kPostWindowMs)) h)\<rparr>
     in (snap, bm\<lparr>bm_criticalTriggers := bm_criticalTriggers bm + 1,
                  bm_swap := map_option (snd \<circ> appendSnapshot snap) (bm_swap bm)\<rparr>))"
proof -
  have ext: "extractRange sm_timestamp (window_start t) (t + kPostWindowMs) kMaxSamples rb =
      take kMaxSamples (filter (in_range sm_timestamp (window_start t) (t + kPostWindowMs)) h)"
    by (rule extract_unlapped [OF h window_order [OF t]])
  show ?thesis
    using l1 rb ext by (simp add: triggerBlackBox_def l1_extractRange_def window_start_def Let_def)
qed

text \<open>What a critical alarm leaves in the swap file. For a point whose ring has not
  lapped, the snapshot consists of the samples from 30 s before to 30 s after the alarm, at most
  1200. When there are 1 to 1024 of them and the file has a free slot, the file then holds one
  snapshot more, this one; when there are more than 1024, nothing is written: the snapshot
  exists in memory only, and only the trigger counter tells.\<close>

theorem critical_snapshot_stored:
  assumes "bm_l1Store bm = Some l1" and "lookup pid l1 = Some rb"
    and "holds_history rb h" and "length h \<le> capacity_of rb" and "sorted (map sm_timestamp h)"
    and "t \<le> t + kPostWindowMs"
    and "bm_swap bm = Some swap" and "holds_snapshots swap xs" and "length xs < kSlotCount"
    and "window = filter (in_range sm_timestamp (window_start t) (t + kPostWindowMs)) h"
  shows "case triggerBlackBox pid t BbCritical bm of (snap, bm') \<Rightarrow>
     bb_samples snap = take 1200 window \<and> criticalTriggerCount bm' = criticalTriggerCount bm + 1 \<and>
     (window \<noteq> [] \<and> length window \<le> 1024 \<longrightarrow>
        (\<exists>swap'. bm_swap bm' = Some swap' \<and> holds_snapshots swap' (xs @ [snap]))) \<and>
     (1024 < length window \<longrightarrow> bm_swap bm' = bm_swap bm)"
proof -
  define snap where "snap = \<lparr>bb_pointId = pid, bb_alarmTime = t, bb_level = BbCritical,
    bb_samples = take kMaxSamples window\<rparr>"
  have trig: "triggerBlackBox pid t BbCritical bm = (snap, bm\<lparr>bm_criticalTriggers := bm_criticalTriggers bm + 1,
      bm_swap := map_option (snd \<circ> appendSnapshot snap) (bm_swap bm)\<rparr>)"
    using snapshot_samples [OF assms(1-6)] assms(10) by (simp add: snap_def Let_def)
  have "holds_snapshots (snd (appendSnapshot snap swap)) (xs @ [snap])"
    if "window \<noteq> []" and "length window \<le> 1024"
  proof -
    have "storable snap"
      using that by (simp add: storable_def snap_def kMaxSamplesPerSnap_def kMaxSamples_def
          byte_level_def level_byte_def)
    with append_holds [OF assms(8,9)] show ?thesis by blast
  qed
  moreover have "snd (appendSnapshot snap swap) = swap" if "1024 < length window"
    using that by (simp add: appendSnapshot_def snap_def kMaxSamplesPerSnap_def kMaxSamples_def
        split: option.split)
  ultimately show ?thesis
    using assms(7) by (simp add: trig criticalTriggerCount_def) (simp add: snap_def kMaxSamples_def)
qed

definition demo_history :: "Sample list" where
  "demo_history = map (\<lambda>i. \<lparr>sm_timestamp = of_nat (100000 + i), sm_pointId = 5, sm_value = Fin 61\<rparr>) [0..<1025]"

definition demo_entry :: RingBufferPolicyEntry where
  "demo_entry = \<lparr>pe_pointId = 5, pe_sampleRateMs = 50, pe_retentionMs = 60000, pe_priority = 0\<rparr>"

definition demo_bm :: BlackBoxManager where
  "demo_bm = \<lparr>bm_l1Store = Some (l1_new\<lparr>l1_sparse := [5 \<mapsto> fold rb_push demo_history (fresh_ring demo_entry)]\<rparr>),
     bm_swap = Some (snd (swap_open ''bb.swp'' (Some (new_image\<lparr>im_magic := []\<rparr>)) swap_new)),
     bm_criticalTriggers = 0\<rparr>"

lemma demo_stamp: "i < 2000 \<Longrightarrow> unat (of_nat (100000 + i) :: u64) = 100000 + i"
proof -
  assume "i < 2000"
  then have "100000 + i < 2 ^ 64" by (rule less_trans [OF add_strict_left_mono]) simp
  then show ?thesis by (simp add: unsigned_of_nat take_bit_nat_eq_self del: of_nat_add)
qed

lemma demo_sorted: "sorted (map sm_timestamp demo_history)"
  by (simp add: demo_history_def sorted_iff_nth_mono word_le_nat_alt demo_stamp del: of_nat_add)

lemma demo_window: "filter (in_range sm_timestamp (window_start 101000) (101000 + kPostWindowMs)) demo_history = demo_history"
  by (rule filter_True) (auto simp: demo_history_def in_range_def window_start_def kPreWindowMs_def
      kPostWindowMs_def word_le_nat_alt demo_stamp simp del: of_nat_add)

lemma demo_capacity: "unat (capacityForPolicy demo_entry) = 2048"
  by (simp add: capacityForPolicy_def demo_entry_def nextPow2_def word_le_nat_alt)

theorem critical_snapshot_stored_witness:
  "case triggerBlackBox 5 101000 BbCritical demo_bm of (snap, bm') \<Rightarrow>
     bb_samples snap = take 1200 demo_history \<and> criticalTriggerCount bm' = 1 \<and> bm_swap bm' = bm_swap demo_bm"
proof -
  let ?swap = "snd (swap_open ''bb.swp'' (Some (new_image\<lparr>im_magic := []\<rparr>)) swap_new)"
  let ?rb = "fold rb_push demo_history (fresh_ring demo_entry)"
  have h: "holds_history ?rb demo_history" "capacity_of ?rb = 2048"
    using pushes_history [of "fresh_ring demo_entry" "[]" demo_history]
      ringbuffer_new_wf [OF fresh_ring_new, of demo_entry] demo_capacity by auto
  have len: "length demo_history = 1025" by (simp add: demo_history_def)
  have swap: "holds_snapshots ?swap []"
    using open_new_holds [of "new_image\<lparr>im_magic := []\<rparr>" "''bb.swp''" swap_new] by (simp add: kMagic_def)
  have look: "lookup 5 (l1_new\<lparr>l1_sparse := [5 \<mapsto> ?rb]\<rparr>) = Some ?rb"
    by (simp add: lookup_def in_vector_def l1_new_def)
  have "case triggerBlackBox 5 101000 BbCritical demo_bm of (snap, bm') \<Rightarrow>
     bb_samples snap = take 1200 demo_history \<and> criticalTriggerCount bm' = criticalTriggerCount demo_bm + 1 \<and>
     (demo_history \<noteq> [] \<and> length demo_history \<le> 1024 \<longrightarrow>
        (\<exists>swap'. bm_swap bm' = Some swap' \<and> holds_snapshots swap' ([] @ [snap]))) \<and>
     (1024 < length demo_history \<longrightarrow> bm_swap bm' = bm_swap demo_bm)"
    by (rule critical_snapshot_stored [where ?l1.0 = "l1_new\<lparr>l1_sparse := [5 \<mapsto> ?rb]\<rparr>" and rb = ?rb
          and h = demo_history and swap = ?swap and xs = "[]"])
      (use h len swap look demo_sorted demo_window in \<open>simp_all add: demo_bm_def kPostWindowMs_def kSlotCount_def\<close>)
  then show ?thesis
    using len by (auto simp: criticalTriggerCount_def demo_bm_def)
qed

end
