(* ===== verification/DataBus.thy ===== *)
theory DataBus
  imports L1Store "HOL-Library.Multiset"
begin

text \<open>
  The broadcast bus of the data hub, \<^verbatim>\<open>apps/ens_app/src/datahub/DataBus.h\<close> and \<^verbatim>\<open>.cpp\<close>.
  Subscribers are pointers and here numbers, \<open>None\<close> the null pointer; what their callback does
  is not modelled, a broadcast is the list of the subscribers called, in order. The hash map
  from handles to indices is an association list in its iteration order. Each operation is
  atomic (the read-write lock). Handles are natural numbers; the code's wrap after \<open>2^64\<close>.
\<close>

section \<open>The code\<close>

record BusEntry =
  be_pointId :: u32
  be_sub :: "nat option"

record DataBus =
  db_entries :: "BusEntry list"
  db_handleIndex :: "(nat \<times> nat) list"
  db_nextHandle :: nat

definition kWildcardPointId :: u32 where
  "kWildcardPointId = 0xFFFFFFFF"

definition bus_new :: DataBus where
  "bus_new = \<lparr>db_entries = [], db_handleIndex = [], db_nextHandle = 1\<rparr>"

definition subscribe :: "u32 \<Rightarrow> nat option \<Rightarrow> DataBus \<Rightarrow> nat \<times> DataBus" where
  "subscribe pointId sub b =
     (if sub = None then (0, b)
      else let h = db_nextHandle b; idx = length (db_entries b)
      in (h, b\<lparr>db_nextHandle := h + 1,
              db_entries := db_entries b @ [\<lparr>be_pointId = pointId, be_sub = sub\<rparr>],
              db_handleIndex := db_handleIndex b @ [(h, idx)]\<rparr>))"

definition subscribeWildcard :: "nat option \<Rightarrow> DataBus \<Rightarrow> nat \<times> DataBus" where
  "subscribeWildcard sub b = subscribe kWildcardPointId sub b"

text \<open>The first handle with index \<open>lastIdx\<close> is given the index \<open>idx\<close>.\<close>

fun reindex :: "nat \<Rightarrow> nat \<Rightarrow> (nat \<times> nat) list \<Rightarrow> (nat \<times> nat) list" where
  "reindex lastIdx idx [] = []"
| "reindex lastIdx idx ((h, i) # hs) = (if i = lastIdx then (h, idx) # hs else (h, i) # reindex lastIdx idx hs)"

definition unsubscribeImpl_locked :: "nat \<Rightarrow> DataBus \<Rightarrow> bool \<times> DataBus" where
  "unsubscribeImpl_locked handle b =
     (case map_of (db_handleIndex b) handle of
        None \<Rightarrow> (False, b)
      | Some idx \<Rightarrow>
          let lastIdx = length (db_entries b) - 1;
              b1 = (if idx \<noteq> lastIdx
                    then b\<lparr>db_handleIndex := reindex lastIdx idx (db_handleIndex b),
                           db_entries := (db_entries b)[idx := db_entries b ! lastIdx]\<rparr>
                    else b)
          in (True, b1\<lparr>db_entries := butlast (db_entries b1),
                       db_handleIndex := filter (\<lambda>(h, i). h \<noteq> handle) (db_handleIndex b1)\<rparr>))"

definition unsubscribe :: "nat \<Rightarrow> DataBus \<Rightarrow> bool \<times> DataBus" where
  "unsubscribe handle b = (if handle = 0 then (False, b) else unsubscribeImpl_locked handle b)"

definition matches :: "u32 \<Rightarrow> BusEntry \<Rightarrow> bool" where
  "matches pid e \<longleftrightarrow> be_pointId e = pid \<or> be_pointId e = kWildcardPointId"

definition broadcast :: "Sample \<Rightarrow> DataBus \<Rightarrow> nat list" where
  "broadcast s b =
     foldl (\<lambda>targets e. if matches (sm_pointId s) e
                        then (case be_sub e of Some sub \<Rightarrow> targets @ [sub] | None \<Rightarrow> targets)
                        else targets) [] (db_entries b)"

definition subscriberCount :: "DataBus \<Rightarrow> nat" where
  "subscriberCount b = length (db_entries b)"

definition wildcardCount :: "DataBus \<Rightarrow> nat" where
  "wildcardCount b = foldl (\<lambda>n e. if be_pointId e = kWildcardPointId then n + 1 else n) 0 (db_entries b)"

section \<open>The subscriptions behind the table\<close>

definition subs :: "DataBus \<Rightarrow> nat \<rightharpoonup> BusEntry" where
  "subs b h = map_option (nth (db_entries b)) (map_of (db_handleIndex b) h)"

text \<open>The handles number the entries one to one.\<close>

definition bus_ok :: "DataBus \<Rightarrow> bool" where
  "bus_ok b \<longleftrightarrow> distinct (map fst (db_handleIndex b)) \<and> distinct (map snd (db_handleIndex b)) \<and>
     set (map snd (db_handleIndex b)) = {..<length (db_entries b)} \<and>
     (\<forall>h \<in> fst ` set (db_handleIndex b). 0 < h \<and> h < db_nextHandle b) \<and> 0 < db_nextHandle b"

lemma bus_okD:
  assumes "bus_ok b"
  shows "distinct (map fst (db_handleIndex b))" and "distinct (map snd (db_handleIndex b))"
    and "set (map snd (db_handleIndex b)) = {..<length (db_entries b)}"
    and "h \<in> fst ` set (db_handleIndex b) \<Longrightarrow> 0 < h \<and> h < db_nextHandle b"
    and "0 < db_nextHandle b"
  using assms unfolding bus_ok_def by blast+

lemma bus_okI:
  assumes "distinct (map fst (db_handleIndex b))" and "distinct (map snd (db_handleIndex b))"
    and "set (map snd (db_handleIndex b)) = {..<length (db_entries b)}"
    and "\<And>h. h \<in> fst ` set (db_handleIndex b) \<Longrightarrow> 0 < h \<and> h < db_nextHandle b"
    and "0 < db_nextHandle b"
  shows "bus_ok b"
  using assms unfolding bus_ok_def by blast

lemma bus_ok_new: "bus_ok bus_new"
  by (simp add: bus_ok_def bus_new_def)

lemma map_of_append_new:
  "k \<notin> fst ` set al \<Longrightarrow> map_of (al @ [(k, v)]) = (map_of al)(k \<mapsto> v)"
  by (induction al) (auto simp: fun_eq_iff)

lemma bus_index_less:
  assumes "bus_ok b" and "map_of (db_handleIndex b) h = Some i"
  shows "i < length (db_entries b)"
proof -
  have "i \<in> set (map snd (db_handleIndex b))" using assms(2) by (force dest: map_of_SomeD)
  then show ?thesis unfolding bus_okD(3) [OF assms(1)] by simp
qed

lemma subscribe_ok:
  assumes ok: "bus_ok b"
  shows "bus_ok (snd (subscribe pid (Some s) b))"
    and "subs (snd (subscribe pid (Some s) b)) =
      (subs b)(db_nextHandle b \<mapsto> \<lparr>be_pointId = pid, be_sub = Some s\<rparr>)"
proof -
  let ?n = "length (db_entries b)" and ?k = "db_nextHandle b"
  have new: "?k \<notin> fst ` set (db_handleIndex b)" using bus_okD(4) [OF ok, of ?k] by blast
  have b': "snd (subscribe pid (Some s) b) = b\<lparr>db_nextHandle := ?k + 1,
      db_entries := db_entries b @ [\<lparr>be_pointId = pid, be_sub = Some s\<rparr>],
      db_handleIndex := db_handleIndex b @ [(?k, ?n)]\<rparr>"
    by (simp add: subscribe_def Let_def)
  show "bus_ok (snd (subscribe pid (Some s) b))"
  proof (rule bus_okI)
    show "distinct (map fst (db_handleIndex (snd (subscribe pid (Some s) b))))"
      using bus_okD(1) [OF ok] new unfolding b' by simp
    show "distinct (map snd (db_handleIndex (snd (subscribe pid (Some s) b))))"
      using bus_okD(2,3) [OF ok] unfolding b' by simp
    show "set (map snd (db_handleIndex (snd (subscribe pid (Some s) b)))) =
        {..<length (db_entries (snd (subscribe pid (Some s) b)))}"
      using bus_okD(3) [OF ok] unfolding b' by (simp add: lessThan_Suc)
  next
    fix h
    assume "h \<in> fst ` set (db_handleIndex (snd (subscribe pid (Some s) b)))"
    then consider "h = ?k" | "h \<in> fst ` set (db_handleIndex b)" unfolding b' by auto
    then show "0 < h \<and> h < db_nextHandle (snd (subscribe pid (Some s) b))"
    proof cases
      case 1
      then show ?thesis using bus_okD(5) [OF ok] by (simp add: b')
    next
      case 2
      from bus_okD(4) [OF ok this] show ?thesis by (simp add: b')
    qed
  qed (simp add: b')
  show "subs (snd (subscribe pid (Some s) b)) =
      (subs b)(?k \<mapsto> \<lparr>be_pointId = pid, be_sub = Some s\<rparr>)"
  proof
    fix h
    show "subs (snd (subscribe pid (Some s) b)) h =
        ((subs b)(?k \<mapsto> \<lparr>be_pointId = pid, be_sub = Some s\<rparr>)) h"
    proof (cases "h = ?k")
      case True
      have "map_of (db_handleIndex b @ [(?k, ?n)]) ?k = Some ?n"
        unfolding map_of_append_new [OF new] by simp
      with True show ?thesis by (simp add: b' subs_def del: map_of_append)
    next
      case False
      then have "map_of (db_handleIndex b @ [(?k, ?n)]) h = map_of (db_handleIndex b) h"
        unfolding map_of_append_new [OF new] by simp
      with False show ?thesis using bus_index_less [OF ok, of h]
        by (cases "map_of (db_handleIndex b) h") (simp_all add: b' subs_def nth_append del: map_of_append)
    qed
  qed
qed

text \<open>Moving the last entry to a free place keeps every other subscription.\<close>

lemma reindex_map_of:
  "distinct (map fst al) \<Longrightarrow> distinct (map snd al) \<Longrightarrow>
    map_of (reindex l i al) h = (if map_of al h = Some l then Some i else map_of al h)"
proof (induction al)
  case (Cons kv al)
  obtain k v where kv: "kv = (k, v)" by (cases kv)
  show ?case
  proof (cases "v = l")
    case True
    then have "map_of al h \<noteq> Some l" using Cons.prems kv by (force dest: map_of_SomeD)
    with True kv show ?thesis by auto
  next
    case False
    with Cons kv show ?thesis by auto
  qed
qed simp

lemma reindex_fst [simp]: "map fst (reindex l i al) = map fst al"
  by (induction l i al rule: reindex.induct) simp_all

lemma reindex_snd: "distinct (map snd al) \<Longrightarrow> map snd (reindex l i al) = map (\<lambda>v. if v = l then i else v) (map snd al)"
proof (induction l i al rule: reindex.induct)
  case (2 l i h v hs)
  show ?case
  proof (cases "v = l")
    case True
    then have "map (\<lambda>v. if v = l then i else v) (map snd hs) = map snd hs"
      using 2(2) by (intro map_idI) auto
    with True show ?thesis by simp
  next
    case False
    with 2 show ?thesis by simp
  qed
qed simp

lemma map_of_filter_key: "map_of (filter (\<lambda>(h, i). h \<noteq> k) al) = (map_of al)(k := None)"
  by (induction al) (auto simp: fun_eq_iff)

lemma butlast_nth_upd:
  "j < length xs - 1 \<Longrightarrow> butlast (xs[i := x]) ! j = (if j = i then x else xs ! j)"
  by (simp add: nth_butlast nth_list_update)

lemma distinct_values:
  assumes "distinct (map fst al)"
  shows "distinct (map snd al) \<longleftrightarrow>
    (\<forall>h h' v. map_of al h = Some v \<longrightarrow> map_of al h' = Some v \<longrightarrow> h = h')"
proof -
  have "distinct al" using assms by (simp add: distinct_map)
  then have "distinct (map snd al) \<longleftrightarrow> inj_on snd (set al)" by (simp add: distinct_map)
  also have "\<dots> \<longleftrightarrow> (\<forall>h h' v. (h, v) \<in> set al \<longrightarrow> (h', v) \<in> set al \<longrightarrow> h = h')"
    unfolding inj_on_def by force
  finally show ?thesis by (simp add: map_of_eq_Some_iff [OF assms])
qed

lemma unsubscribe_none:
  assumes "bus_ok b" and "subs b handle = None"
  shows "unsubscribe handle b = (False, b)"
  using assms by (simp add: subs_def unsubscribe_def unsubscribeImpl_locked_def)

lemma unsubscribe_some:
  assumes ok: "bus_ok b" and i: "map_of (db_handleIndex b) handle = Some i"
  defines "b' \<equiv> snd (unsubscribe handle b)"
  shows "fst (unsubscribe handle b)" and "bus_ok b'" and "subs b' = (subs b)(handle := None)"
proof -
  let ?n = "length (db_entries b)" and ?al = "db_handleIndex b"
  let ?l = "?n - 1"
  let ?al1 = "if i \<noteq> ?l then reindex ?l i ?al else ?al"
  have "handle \<in> fst ` set ?al" using i by (force dest: map_of_SomeD)
  then have pos: "handle \<noteq> 0" using bus_okD(4) [OF ok] by blast
  show "fst (unsubscribe handle b)" using pos i by (simp add: unsubscribe_def unsubscribeImpl_locked_def Let_def)
  have i_less: "i < ?n" using bus_index_less [OF ok i] .
  have next': "db_nextHandle b' = db_nextHandle b" and
    entries': "db_entries b' = (if i \<noteq> ?l then butlast ((db_entries b)[i := db_entries b ! ?l]) else butlast (db_entries b))"
    and al': "db_handleIndex b' = filter (\<lambda>(h, j). h \<noteq> handle) ?al1"
    using pos i by (simp_all add: b'_def unsubscribe_def unsubscribeImpl_locked_def Let_def)
  have inj: "h = handle" if "map_of ?al h = Some i" for h
    using bus_okD(2) [OF ok] that i by (metis distinct_map inj_on_def map_of_SomeD prod.inject snd_conv)
  have look: "map_of (db_handleIndex b') h = (if h = handle then None
      else if i \<noteq> ?l \<and> map_of ?al h = Some ?l then Some i else map_of ?al h)" for h
    unfolding al' map_of_filter_key using reindex_map_of [OF bus_okD(1) [OF ok] bus_okD(2) [OF ok], of ?l i h] by simp
  show "subs b' = (subs b)(handle := None)"
  proof
    fix h
    show "subs b' h = ((subs b)(handle := None)) h"
    proof (cases "h = handle")
      case True
      then show ?thesis by (simp add: subs_def look)
    next
      case h: False
      show ?thesis
      proof (cases "map_of ?al h")
        case None
        with h show ?thesis by (simp add: subs_def look)
      next
        case (Some j)
        then have "j \<noteq> i" using inj h by blast
        moreover have "j < ?n" using bus_index_less [OF ok Some] .
        ultimately show ?thesis using h Some i_less
          by (cases "j = ?l") (simp_all add: subs_def look entries' nth_butlast)
      qed
    qed
  qed
  have len': "length (db_entries b') = ?l" by (simp add: entries')
  have keys': "distinct (map fst (db_handleIndex b'))"
    using bus_okD(1) [OF ok] unfolding al' by (simp add: distinct_map_filter)
  show "bus_ok b'"
  proof (rule bus_okI)
    show "distinct (map snd (db_handleIndex b'))"
      unfolding distinct_values [OF keys'] look
      using bus_okD(2) [OF ok, unfolded distinct_values [OF bus_okD(1) [OF ok]]] i
      by (smt (verit) option.distinct(1) option.inject)
    have vals: "j \<in> set (map snd (db_handleIndex b')) \<longleftrightarrow> (\<exists>h. map_of (db_handleIndex b') h = Some j)" for j
      using ran_distinct [OF keys'] by (auto simp: ran_def)
    have old: "(\<exists>h. map_of ?al h = Some j) \<longleftrightarrow> j < ?n" for j
      using bus_okD(3) [OF ok] ran_distinct [OF bus_okD(1) [OF ok]] by (auto simp: ran_def set_eq_iff)
    show "set (map snd (db_handleIndex b')) = {..<length (db_entries b')}"
    proof (rule set_eqI)
      fix j
      have "(\<exists>h. map_of (db_handleIndex b') h = Some j) \<longleftrightarrow> j < ?l"
      proof
        assume "\<exists>h. map_of (db_handleIndex b') h = Some j"
        then obtain h where h: "h \<noteq> handle" "(if i \<noteq> ?l \<and> map_of ?al h = Some ?l then Some i else map_of ?al h) = Some j"
          unfolding look by (auto split: if_split_asm)
        show "j < ?l"
        proof (cases "i \<noteq> ?l \<and> map_of ?al h = Some ?l")
          case True
          with h(2) have "i = j" by simp
          with True i_less show ?thesis by linarith
        next
          case False
          with h(2) have j: "map_of ?al h = Some j" unfolding if_not_P [OF False] by simp
          then have "j < ?n" and "j \<noteq> ?l" using old False inj h(1) by blast+
          then show ?thesis by simp
        qed
      next
        assume j: "j < ?l"
        then obtain h where h: "map_of ?al h = Some (if j = i then ?l else j)"
          using old [of "if j = i then ?l else j"] by (auto split: if_split_asm)
        then have "h \<noteq> handle" using i j by (auto split: if_split_asm)
        then have "map_of (db_handleIndex b') h = Some j" unfolding look using h j by (auto split: if_split_asm)
        then show "\<exists>h. map_of (db_handleIndex b') h = Some j" by blast
      qed
      then show "j \<in> set (map snd (db_handleIndex b')) \<longleftrightarrow> j \<in> {..<length (db_entries b')}"
        unfolding vals len' by simp
    qed
    fix h
    assume "h \<in> fst ` set (db_handleIndex b')"
    then have "h \<in> fst ` set ?al1" unfolding al' by auto
    moreover have "map fst ?al1 = map fst ?al" by simp
    then have "set (map fst ?al1) = set (map fst ?al)" by (rule arg_cong)
    ultimately have "h \<in> fst ` set ?al" by (simp only: set_map)
    then show "0 < h \<and> h < db_nextHandle b'" using bus_okD(4) [OF ok] unfolding next' by blast
  qed (use bus_okD(5) [OF ok] keys' next' in simp_all)
qed

section \<open>A broadcast reaches the matching subscriptions\<close>

lemma dom_subs: "dom (subs b) = fst ` set (db_handleIndex b)"
  by (simp add: subs_def dom_def dom_map_of_conv_image_fst [symmetric] map_option_case split: option.splits)

lemma entries_subs:
  assumes ok: "bus_ok b"
  shows "mset (db_entries b) = image_mset (\<lambda>h. the (subs b h)) (mset_set (dom (subs b)))"
proof -
  let ?al = "db_handleIndex b"
  have "mset (db_entries b) = image_mset (nth (db_entries b)) (mset [0..<length (db_entries b)])"
    by (metis map_nth mset_map)
  also have "mset [0..<length (db_entries b)] = mset_set (set (map snd ?al))"
    by (simp only: bus_okD(3) [OF ok] mset_upt atLeast0LessThan)
  also have "\<dots> = mset (map snd ?al)" by (rule mset_set_set [OF bus_okD(2) [OF ok]])
  also have "image_mset (nth (db_entries b)) \<dots> = mset (map (\<lambda>(h, i). db_entries b ! i) ?al)"
    by (simp add: comp_def case_prod_unfold flip: mset_map)
  also have "map (\<lambda>(h, i). db_entries b ! i) ?al = map (\<lambda>h. the (subs b h)) (map fst ?al)"
    unfolding map_map
  proof (rule map_cong [OF refl])
    fix p assume p: "p \<in> set ?al"
    obtain h i where "p = (h, i)" by (cases p)
    with p map_of_is_SomeI [OF bus_okD(1) [OF ok], of h i]
    show "(case p of (h, i) \<Rightarrow> db_entries b ! i) = ((\<lambda>h. the (subs b h)) \<circ> fst) p"
      by (simp add: subs_def)
  qed
  also have "mset \<dots> = image_mset (\<lambda>h. the (subs b h)) (mset (map fst ?al))" by (simp only: mset_map)
  also have "mset (map fst ?al) = mset_set (dom (subs b))"
    unfolding dom_subs by (simp only: mset_set_set [OF bus_okD(1) [OF ok], symmetric] set_map)
  finally show ?thesis .
qed

lemma broadcast_aux:
  "foldl (\<lambda>targets e. if matches pid e
            then (case be_sub e of Some sub \<Rightarrow> targets @ [sub] | None \<Rightarrow> targets) else targets) ts es =
   ts @ List.map_filter (\<lambda>e. if matches pid e then be_sub e else None) es"
  by (induction es arbitrary: ts) (simp_all add: map_filter_simps split: option.split)

lemma mset_map_filter_some:
  "\<forall>e \<in> set es. f e \<noteq> None \<Longrightarrow>
   mset (List.map_filter (\<lambda>e. if P e then f e else None) es) =
   image_mset (\<lambda>e. the (f e)) (filter_mset P (mset es))"
  by (induction es) (auto simp: map_filter_simps)

section \<open>Runs\<close>

datatype BusOp = Subscribe u32 "nat option" | Unsubscribe nat | Broadcast Sample

datatype BusOut = Handle nat | Removed bool | Called "nat multiset"

fun bus_step :: "BusOp \<Rightarrow> DataBus \<Rightarrow> BusOut \<times> DataBus" where
  "bus_step (Subscribe pid sub) b = (case subscribe pid sub b of (h, b') \<Rightarrow> (Handle h, b'))"
| "bus_step (Unsubscribe h) b = (case unsubscribe h b of (r, b') \<Rightarrow> (Removed r, b'))"
| "bus_step (Broadcast s) b = (Called (mset (broadcast s b)), b)"

fun bus_run :: "BusOp list \<Rightarrow> DataBus \<Rightarrow> BusOut list" where
  "bus_run [] b = []"
| "bus_run (p # ps) b = (case bus_step p b of (out, b') \<Rightarrow> out # bus_run ps b')"

text \<open>The specification: a map from the handles in use to a point and a subscriber.\<close>

fun spec_step :: "BusOp \<Rightarrow> nat \<times> (nat \<rightharpoonup> u32 \<times> nat) \<Rightarrow> BusOut \<times> nat \<times> (nat \<rightharpoonup> u32 \<times> nat)" where
  "spec_step (Subscribe pid None) (k, m) = (Handle 0, k, m)"
| "spec_step (Subscribe pid (Some sub)) (k, m) = (Handle k, k + 1, m(k \<mapsto> (pid, sub)))"
| "spec_step (Unsubscribe h) (k, m) = (Removed (h \<in> dom m), k, m(h := None))"
| "spec_step (Broadcast s) (k, m) =
     (Called {# snd (the (m h)). h \<in># mset_set {h \<in> dom m. fst (the (m h)) \<in> {sm_pointId s, kWildcardPointId}} #}, k, m)"

fun spec_run :: "BusOp list \<Rightarrow> nat \<times> (nat \<rightharpoonup> u32 \<times> nat) \<Rightarrow> BusOut list" where
  "spec_run [] st = []"
| "spec_run (p # ps) st = (case spec_step p st of (out, st') \<Rightarrow> out # spec_run ps st')"

definition bus_abs :: "DataBus \<Rightarrow> nat \<times> (nat \<rightharpoonup> u32 \<times> nat)" where
  "bus_abs b = (db_nextHandle b, map_option (\<lambda>e. (be_pointId e, the (be_sub e))) \<circ> subs b)"

definition bus_inv :: "DataBus \<Rightarrow> bool" where
  "bus_inv b \<longleftrightarrow> bus_ok b \<and> (\<forall>e \<in> ran (subs b). be_sub e \<noteq> None)"

lemma finite_subs [simp]: "finite (dom (subs b))"
  by (simp add: dom_subs)

lemma entries_ran: "bus_ok b \<Longrightarrow> set (db_entries b) = ran (subs b)"
  using arg_cong [OF entries_subs, of b set_mset] by (force simp: ran_def)

lemma broadcast_subs:
  assumes inv: "bus_inv b"
  shows "mset (broadcast s b) =
    {# the (be_sub (the (subs b h))). h \<in># mset_set {h \<in> dom (subs b). matches (sm_pointId s) (the (subs b h))} #}"
proof -
  have ok: "bus_ok b" and some: "\<forall>e \<in> set (db_entries b). be_sub e \<noteq> None"
    using inv entries_ran [of b] by (simp_all add: bus_inv_def)
  have "mset (broadcast s b) =
      image_mset (\<lambda>e. the (be_sub e)) (filter_mset (matches (sm_pointId s)) (mset (db_entries b)))"
    unfolding broadcast_def broadcast_aux append_Nil by (rule mset_map_filter_some [OF some])
  also have "\<dots> = {# the (be_sub (the (subs b h))). h \<in>#
      filter_mset (\<lambda>h. matches (sm_pointId s) (the (subs b h))) (mset_set (dom (subs b))) #}"
    unfolding entries_subs [OF ok] by (simp add: filter_mset_image_mset image_mset.compositionality comp_def)
  finally show ?thesis by (simp add: filter_mset_mset_set)
qed

lemma subs_new: "subs bus_new = Map.empty"
  by (simp add: bus_new_def subs_def fun_eq_iff)

lemma bus_inv_new: "bus_inv bus_new"
  by (simp add: bus_inv_def bus_ok_new subs_new)

lemma bus_abs_new: "bus_abs bus_new = (1, Map.empty)"
  by (simp add: bus_abs_def bus_new_def subs_def fun_eq_iff)

lemma ran_upd_none: "e \<in> ran (m(h := None)) \<Longrightarrow> e \<in> ran m"
  by (auto simp: ran_def split: if_split_asm)

lemma ran_upd_some: "e \<in> ran (m(h \<mapsto> x)) \<Longrightarrow> e = x \<or> e \<in> ran m"
  by (auto simp: ran_def split: if_split_asm)

lemma subscribe_sim:
  assumes inv: "bus_inv b"
  shows "bus_inv (snd (subscribe pid sub b))"
    and "spec_step (Subscribe pid sub) (bus_abs b) =
      (Handle (fst (subscribe pid sub b)), bus_abs (snd (subscribe pid sub b)))"
proof -
  have ok: "bus_ok b" and some: "\<forall>e \<in> ran (subs b). be_sub e \<noteq> None" using inv by (simp_all add: bus_inv_def)
  have "bus_inv (snd (subscribe pid sub b)) \<and> spec_step (Subscribe pid sub) (bus_abs b) =
      (Handle (fst (subscribe pid sub b)), bus_abs (snd (subscribe pid sub b)))"
  proof (cases sub)
    case None
    with inv show ?thesis by (simp add: subscribe_def bus_abs_def)
  next
    case (Some s)
    note sub = subscribe_ok [OF ok, of pid s]
    have "bus_inv (snd (subscribe pid sub b))"
      unfolding bus_inv_def Some sub(2) using sub(1) some by (auto dest!: ran_upd_some)
    moreover have "db_nextHandle (snd (subscribe pid (Some s) b)) = db_nextHandle b + 1"
      and "fst (subscribe pid (Some s) b) = db_nextHandle b"
      by (simp_all add: subscribe_def Let_def)
    ultimately show ?thesis by (simp add: Some bus_abs_def sub(2) fun_eq_iff)
  qed
  then show "bus_inv (snd (subscribe pid sub b))"
    and "spec_step (Subscribe pid sub) (bus_abs b) =
      (Handle (fst (subscribe pid sub b)), bus_abs (snd (subscribe pid sub b)))" by blast+
qed

lemma unsubscribe_next [simp]: "db_nextHandle (snd (unsubscribe h b)) = db_nextHandle b"
  by (simp add: unsubscribe_def unsubscribeImpl_locked_def Let_def split: option.split)

lemma unsubscribe_sim:
  assumes inv: "bus_inv b"
  shows "bus_inv (snd (unsubscribe h b)) \<and> spec_step (Unsubscribe h) (bus_abs b) =
      (Removed (fst (unsubscribe h b)), bus_abs (snd (unsubscribe h b)))"
proof -
  have ok: "bus_ok b" and some: "\<forall>e \<in> ran (subs b). be_sub e \<noteq> None" using inv by (simp_all add: bus_inv_def)
  show ?thesis
  proof (cases "map_of (db_handleIndex b) h")
    case None
    then have h: "subs b h = None" by (simp add: subs_def)
    then show ?thesis using inv unsubscribe_none [OF ok h] by (auto simp: bus_abs_def fun_eq_iff)
  next
    case (Some i)
    note rm = unsubscribe_some [OF ok Some]
    have "h \<in> dom (subs b)" using Some by (simp add: subs_def dom_def)
    moreover have "bus_inv (snd (unsubscribe h b))"
      unfolding bus_inv_def rm(3) using rm(2) some by (auto dest!: ran_upd_none)
    ultimately show ?thesis using rm(1) by (auto simp: bus_abs_def rm(3) fun_eq_iff)
  qed
qed

lemma broadcast_sim:
  assumes inv: "bus_inv b"
  shows "spec_step (Broadcast s) (bus_abs b) = (Called (mset (broadcast s b)), bus_abs b)"
proof -
  let ?m = "map_option (\<lambda>e. (be_pointId e, the (be_sub e))) \<circ> subs b"
  have dom: "{h \<in> dom ?m. fst (the (?m h)) \<in> {sm_pointId s, kWildcardPointId}} =
      {h \<in> dom (subs b). matches (sm_pointId s) (the (subs b h))}"
    by (auto simp: dom_def matches_def)
  have "{# snd (the (?m h)). h \<in># mset_set {h \<in> dom (subs b). matches (sm_pointId s) (the (subs b h))} #} =
      {# the (be_sub (the (subs b h))). h \<in># mset_set {h \<in> dom (subs b). matches (sm_pointId s) (the (subs b h))} #}"
  proof (rule image_mset_cong)
    fix h assume "h \<in># mset_set {h \<in> dom (subs b). matches (sm_pointId s) (the (subs b h))}"
    then have "h \<in> dom (subs b)" by (simp add: elem_mset_set)
    then show "snd (the (?m h)) = the (be_sub (the (subs b h)))" by (auto simp: dom_def)
  qed
  with dom show ?thesis by (simp only: bus_abs_def spec_step.simps broadcast_subs [OF inv])
qed

lemma bus_step_sim:
  assumes inv: "bus_inv b" and step: "bus_step p b = (out, b')"
  shows "bus_inv b'" and "spec_step p (bus_abs b) = (out, bus_abs b')"
proof -
  have "bus_inv b' \<and> spec_step p (bus_abs b) = (out, bus_abs b')"
  proof (cases p)
    case (Subscribe pid sub)
    then show ?thesis using step subscribe_sim [OF inv, of pid sub] by (simp split: prod.splits)
  next
    case (Unsubscribe h)
    then show ?thesis using step unsubscribe_sim [OF inv, of h] by (simp split: prod.splits)
  next
    case (Broadcast s)
    with step have "out = Called (mset (broadcast s b)) \<and> b' = b" by (metis bus_step.simps(3) prod.inject)
    with Broadcast show ?thesis using inv broadcast_sim [OF inv, of s] by simp
  qed
  then show "bus_inv b'" and "spec_step p (bus_abs b) = (out, bus_abs b')" by blast+
qed

lemma bus_run_sim: "bus_inv b \<Longrightarrow> bus_run ps b = spec_run ps (bus_abs b)"
proof (induction ps arbitrary: b)
  case (Cons p ps)
  obtain out b' where step: "bus_step p b = (out, b')" by (cases "bus_step p b")
  show ?case using Cons.IH [OF bus_step_sim(1) [OF Cons.prems step]]
    by (simp add: step bus_step_sim(2) [OF Cons.prems step])
qed simp

text \<open>Property C21: for every sequence of subscriptions, removals and broadcasts the bus answers
  as a map from handles to subscriptions does: handles are fresh and never zero, a removal
  succeeds exactly once, a null subscriber is refused, and a broadcast calls the subscriber of
  every live subscription of the point or of all points once per subscription. The order of the
  calls is not promised: a removal moves the last entry to the place of the removed one.\<close>

theorem bus_refines: "bus_run ps bus_new = spec_run ps (1, Map.empty)"
  using bus_run_sim [OF bus_inv_new] by (simp add: bus_abs_new)

end
