(* ===== verification/Json.thy ===== *)
theory Json
  imports Floats
begin

text \<open>
  JSON documents as the loaders of the program see them. Parsing text into a document is library
  code and a parameter of the loaders; the documents, their members and the conversions the
  loaders call are here. Objects are association lists, of which the first entry of a key counts.
  \<open>None\<close> stands for the exception the C++ conversion throws. A number written without fraction and
  exponent is a \<open>JInt\<close>, the others are \<open>JFloat\<close>; a \<open>JFloat\<close> outside of the range of an integer type is
  undefined behaviour in C++ and refused here.
\<close>

datatype json = JNull | JBool bool | JInt int | JFloat rat | JString string
  | JArray "json list" | JObject "(string \<times> json) list"

section \<open>The conversions of \<open>nlohmann::json\<close>\<close>

fun is_object :: "json \<Rightarrow> bool" where
  "is_object (JObject _) = True"
| "is_object _ = False"

fun is_array :: "json \<Rightarrow> bool" where
  "is_array (JArray _) = True"
| "is_array _ = False"

fun is_string :: "json \<Rightarrow> bool" where
  "is_string (JString _) = True"
| "is_string _ = False"

fun is_number_integer :: "json \<Rightarrow> bool" where
  "is_number_integer (JInt _) = True"
| "is_number_integer _ = False"

fun member_of :: "string \<Rightarrow> json \<Rightarrow> json option" where
  "member_of k (JObject ms) = map_of ms k"
| "member_of k _ = None"

definition contains :: "json \<Rightarrow> string \<Rightarrow> bool" where
  "contains j k \<longleftrightarrow> member_of k j \<noteq> None"

text \<open>\<open>j.value(k, d)\<close>: the default for a missing member, an exception for a value that is not an
  object or a member that cannot be converted.\<close>

definition j_value :: "(json \<Rightarrow> 'a option) \<Rightarrow> string \<Rightarrow> 'a \<Rightarrow> json \<Rightarrow> 'a option" where
  "j_value get k d j =
     (case j of
        JObject ms \<Rightarrow> (case map_of ms k of None \<Rightarrow> Some d | Some v \<Rightarrow> get v)
      | _ \<Rightarrow> None)"

text \<open>\<open>j.at(k).get<T>()\<close>\<close>

definition j_at :: "(json \<Rightarrow> 'a option) \<Rightarrow> string \<Rightarrow> json \<Rightarrow> 'a option" where
  "j_at get k j = Option.bind (member_of k j) get"

fun get_string :: "json \<Rightarrow> string option" where
  "get_string (JString s) = Some s"
| "get_string _ = None"

text \<open>The library's own number types (\<open>double\<close> and the 64-bit integers) refuse a boolean; the other
  arithmetic types take it for 0 or 1.\<close>

fun get_bool :: "json \<Rightarrow> bool option" where
  "get_bool (JBool b) = Some b"
| "get_bool _ = None"

fun get_word :: "json \<Rightarrow> 'w::len word option" where
  "get_word (JInt i) = Some (word_of_int i)"
| "get_word (JBool b) = (if LENGTH('w) = 64 then None else Some (if b then 1 else 0))"
| "get_word (JFloat x) =
     (let i = (if x \<ge> 0 then \<lfloor>x\<rfloor> else \<lceil>x\<rceil>)
      in if 0 \<le> i \<and> i < 2 ^ LENGTH('w) then Some (word_of_int i) else None)"
| "get_word _ = None"

fun get_float :: "json \<Rightarrow> fl option" where
  "get_float (JInt i) = Some (round32 (of_int i))"
| "get_float (JBool b) = Some (Fin (if b then 1 else 0))"
| "get_float (JFloat x) = Some (round32 x)"
| "get_float _ = None"

fun get_double :: "json \<Rightarrow> fl option" where
  "get_double (JInt i) = Some (round64 (of_int i))"
| "get_double (JFloat x) = Some (round64 x)"
| "get_double _ = None"

text \<open>\<open>static_cast<float>\<close> of a \<open>double\<close>.\<close>

fun to_float :: "fl \<Rightarrow> fl" where
  "to_float (Fin x) = round32 x"
| "to_float v = v"

section \<open>The conversions of \<open>QJsonValue\<close>\<close>

text \<open>They do not fail: a value of another type gives the default.\<close>

definition q_value :: "string \<Rightarrow> json \<Rightarrow> json option" where
  "q_value k j = member_of k j"

fun q_string :: "json option \<Rightarrow> string" where
  "q_string (Some (JString s)) = s"
| "q_string _ = []"

fun q_bool :: "bool \<Rightarrow> json option \<Rightarrow> bool" where
  "q_bool d (Some (JBool b)) = b"
| "q_bool d _ = d"

fun q_array :: "json option \<Rightarrow> json list" where
  "q_array (Some (JArray a)) = a"
| "q_array _ = []"

section \<open>\<open>std::stoul\<close>\<close>

text \<open>\<open>ulong_max\<close> is the largest \<open>unsigned long\<close>. White space is skipped, a sign is read (a minus
  negates modulo the range), base 16 skips \<open>0x\<close> before a digit; no digit and a value out of
  range throw.\<close>

definition is_space :: "char \<Rightarrow> bool" where
  "is_space c \<longleftrightarrow> c \<in> {CHR 0x09, CHR 0x0A, CHR 0x0B, CHR 0x0C, CHR 0x0D, CHR '' ''}"

definition digit_value :: "nat \<Rightarrow> char \<Rightarrow> nat option" where
  "digit_value base c =
     (let n = of_char c :: nat;
          v = (if 48 \<le> n \<and> n \<le> 57 then n - 48
               else if 65 \<le> n \<and> n \<le> 90 then n - 55
               else if 97 \<le> n \<and> n \<le> 122 then n - 87 else 99)
      in if v < base then Some v else None)"

fun digits :: "nat \<Rightarrow> string \<Rightarrow> nat list" where
  "digits base [] = []"
| "digits base (c # cs) = (case digit_value base c of None \<Rightarrow> [] | Some v \<Rightarrow> v # digits base cs)"

definition skip_0x :: "nat \<Rightarrow> string \<Rightarrow> string" where
  "skip_0x base s =
     (if base = 16 \<and> length s > 2 \<and> s ! 0 = CHR ''0'' \<and> s ! 1 \<in> {CHR ''x'', CHR ''X''} \<and>
         digit_value 16 (s ! 2) \<noteq> None
      then drop 2 s else s)"

definition stoul :: "nat \<Rightarrow> nat \<Rightarrow> string \<Rightarrow> nat option" where
  "stoul ulong_max base s0 =
     (let s = dropWhile is_space s0;
          neg = (s \<noteq> [] \<and> hd s = CHR ''-'');
          s1 = (if s \<noteq> [] \<and> hd s \<in> {CHR ''-'', CHR ''+''} then tl s else s);
          ds = digits base (skip_0x base s1);
          v = foldl (\<lambda>a d. a * base + d) 0 ds
      in if ds = [] \<or> v > ulong_max then None
         else Some (if neg \<and> v \<noteq> 0 then ulong_max + 1 - v else v))"

end
