(* ===== verification/PointTable.thy ===== *)
theory PointTable
  imports Json "HOL-Library.Multiset"
begin

text \<open>
  The point table of the station application, \<^verbatim>\<open>apps/ens_app/src/protocol/PointTable.h\<close> and
  \<^verbatim>\<open>.cpp\<close>: loading from a JSON document, the three indexes, the byte orders and the conversion to
  engineering values. Reading the file and parsing the text are parameters: the content of the
  file (\<open>None\<close> when it cannot be opened) and the parser. The hash map from point ids is the list of
  its entries in iteration order, which the loader leaves open: its parameter \<open>rank\<close> gives the
  place of an id in that order, and every order of distinct ids is that of some rank. Arithmetic on \<open>double\<close> is rounded as in the theory Floats.
\<close>

section \<open>The code: data\<close>

datatype RegisterType = Coil | DiscreteInput | HoldingRegister | InputRegister

datatype DataType = Bool | Int16 | Uint16 | Int32 | Float32 | Float64

datatype ByteOrder = ABCD | BADC | CDAB | DCBA

record PointRuntime =
  pr_pointId :: u32
  pr_linkId :: u32
  pr_slaveAddress :: u8
  pr_regType :: RegisterType
  pr_dataType :: DataType
  pr_byteOrder :: ByteOrder
  pr_registerAddr :: u16
  pr_scaleFactor :: fl
  pr_offset :: fl
  pr_pollIntervalMs :: u32
  pr_priority :: u8
  pr_enabled :: bool
  pr_pointName :: string
  pr_unit :: string

record PointTable =
  m_byPointId :: "(u32 \<times> PointRuntime) list"
  m_byAddr :: "u64 \<rightharpoonup> u32"
  m_bySlave :: "u8 \<rightharpoonup> u32 list"

definition point_table_new :: PointTable where
  "point_table_new = \<lparr>m_byPointId = [], m_byAddr = Map.empty, m_bySlave = Map.empty\<rparr>"

text \<open>The exceptions of the loader: its own, those of the JSON library and those of \<open>std::stoul\<close>.\<close>

datatype LoadError = CannotOpen | ParseFailed | MissingSchemaVersion | UnsupportedSchema string
  | MissingPoints | JsonException | StoulException | UnknownName string | BadRegisterAddr
  | DuplicatePointId u32 | DuplicateAddr u8 u16 u32

fun bindE :: "'e + 'a \<Rightarrow> ('a \<Rightarrow> 'e + 'b) \<Rightarrow> 'e + 'b" where
  "bindE (Inl e) f = Inl e"
| "bindE (Inr x) f = f x"

definition json_need :: "'a option \<Rightarrow> LoadError + 'a" where
  "json_need v = (case v of None \<Rightarrow> Inl JsonException | Some x \<Rightarrow> Inr x)"

section \<open>The code: loading\<close>

definition parseRegType :: "string \<Rightarrow> LoadError + RegisterType" where
  "parseRegType s =
     (if s = ''Coil'' then Inr Coil
      else if s = ''DiscreteInput'' then Inr DiscreteInput
      else if s = ''HoldingRegister'' then Inr HoldingRegister
      else if s = ''InputRegister'' then Inr InputRegister
      else Inl (UnknownName s))"

definition parseDataType :: "string \<Rightarrow> LoadError + DataType" where
  "parseDataType s =
     (if s = ''Bool'' then Inr Bool
      else if s = ''Int16'' then Inr Int16
      else if s = ''Uint16'' then Inr Uint16
      else if s = ''Int32'' then Inr Int32
      else if s = ''Float32'' then Inr Float32
      else if s = ''Float64'' then Inr Float64
      else Inl (UnknownName s))"

definition parseByteOrder :: "string \<Rightarrow> LoadError + ByteOrder" where
  "parseByteOrder s =
     (if s = ''ABCD'' then Inr ABCD
      else if s = ''BADC'' then Inr BADC
      else if s = ''CDAB'' then Inr CDAB
      else if s = ''DCBA'' then Inr DCBA
      else Inl (UnknownName s))"

definition parseRegisterAddr :: "nat \<Rightarrow> json \<Rightarrow> LoadError + u16" where
  "parseRegisterAddr ulong_max j =
     (case j of
        JInt i \<Rightarrow> Inr (word_of_int i)
      | JString s \<Rightarrow>
          (let hex = (length s \<ge> 2 \<and> s ! 0 = CHR ''0'' \<and> (s ! 1 = CHR ''x'' \<or> s ! 1 = CHR ''X''))
           in case stoul ulong_max (if hex then 16 else 10) s of
                None \<Rightarrow> Inl StoulException | Some v \<Rightarrow> Inr (of_nat v))
      | _ \<Rightarrow> Inl BadRegisterAddr)"

definition kAddrKey :: "u8 \<Rightarrow> u16 \<Rightarrow> u64" where
  "kAddrKey slave addr = push_bit 32 (ucast slave) OR ucast addr"

text \<open>The members of one entry of \<open>points\<close>, in the order the loader reads them.\<close>

definition parsePoint :: "nat \<Rightarrow> json \<Rightarrow> LoadError + PointRuntime" where
  "parsePoint ulong_max pj =
     bindE (json_need (j_at get_word ''pointId'' pj)) (\<lambda>pid.
     bindE (json_need (j_at get_word ''slaveAddress'' pj)) (\<lambda>slave.
     bindE (json_need (j_value get_word ''linkId'' (ucast (slave :: u8)) pj)) (\<lambda>link.
     bindE (bindE (json_need (j_at get_string ''regType'' pj)) parseRegType) (\<lambda>rt.
     bindE (bindE (json_need (j_at get_string ''dataType'' pj)) parseDataType) (\<lambda>dt.
     bindE (bindE (json_need (j_at get_string ''byteOrder'' pj)) parseByteOrder) (\<lambda>order.
     bindE (bindE (json_need (member_of ''registerAddr'' pj)) (parseRegisterAddr ulong_max)) (\<lambda>addr.
     bindE (json_need (j_value get_float ''scaleFactor'' (Fin 1) pj)) (\<lambda>scale.
     bindE (json_need (j_value get_float ''offset'' (Fin 0) pj)) (\<lambda>off.
     bindE (json_need (j_value get_word ''pollIntervalMs'' 1000 pj)) (\<lambda>poll.
     bindE (json_need (j_value get_word ''priority'' 1 pj)) (\<lambda>prio.
     bindE (json_need (j_value get_bool ''enabled'' True pj)) (\<lambda>enabled.
     bindE (json_need (j_value get_string ''pointName'' [] pj)) (\<lambda>name.
     bindE (json_need (j_value get_string ''unit'' [] pj)) (\<lambda>unit.
       Inr \<lparr>pr_pointId = pid, pr_linkId = link, pr_slaveAddress = slave, pr_regType = rt,
            pr_dataType = dt, pr_byteOrder = order, pr_registerAddr = addr,
            pr_scaleFactor = scale, pr_offset = off, pr_pollIntervalMs = poll,
            pr_priority = prio, pr_enabled = enabled, pr_pointName = name, pr_unit = unit\<rparr>))))))))))))))"

text \<open>The indexes after one point.\<close>

definition addPoint :: "PointTable \<Rightarrow> PointRuntime \<Rightarrow> LoadError + PointTable" where
  "addPoint t pr =
     (if map_of (m_byPointId t) (pr_pointId pr) \<noteq> None then Inl (DuplicatePointId (pr_pointId pr))
      else let key = kAddrKey (pr_slaveAddress pr) (pr_registerAddr pr)
      in if m_byAddr t key \<noteq> None
         then Inl (DuplicateAddr (pr_slaveAddress pr) (pr_registerAddr pr) (pr_pointId pr))
         else Inr \<lparr>m_byPointId = m_byPointId t @ [(pr_pointId pr, pr)],
                   m_byAddr = (m_byAddr t)(key \<mapsto> pr_pointId pr),
                   m_bySlave = (m_bySlave t)(pr_slaveAddress pr \<mapsto>
                     (case m_bySlave t (pr_slaveAddress pr) of None \<Rightarrow> [] | Some ids \<Rightarrow> ids) @ [pr_pointId pr])\<rparr>)"

fun loadPoints :: "nat \<Rightarrow> json list \<Rightarrow> PointTable \<Rightarrow> LoadError + PointTable" where
  "loadPoints ulong_max [] t = Inr t"
| "loadPoints ulong_max (pj # pjs) t =
     bindE (bindE (parsePoint ulong_max pj) (addPoint t)) (loadPoints ulong_max pjs)"

text \<open>The final sort of the points of each slave; the addresses of a slave are distinct, so the
  result of \<open>std::sort\<close> is determined.\<close>

definition addr_of :: "PointTable \<Rightarrow> u32 \<Rightarrow> u16" where
  "addr_of t pid = pr_registerAddr (the (map_of (m_byPointId t) pid))"

definition sortSlaves :: "PointTable \<Rightarrow> PointTable" where
  "sortSlaves t = t\<lparr>m_bySlave := (\<lambda>s. map_option (sort_key (addr_of t)) (m_bySlave t s))\<rparr>"

text \<open>The order in which an \<open>unordered_map\<close> of these ids is walked.\<close>

definition hashOrder :: "(u32 \<Rightarrow> nat) \<Rightarrow> PointTable \<Rightarrow> PointTable" where
  "hashOrder rank t = t\<lparr>m_byPointId := sort_key (rank \<circ> fst) (m_byPointId t)\<rparr>"

definition loadFromJsonFile ::
  "(string \<Rightarrow> json option) \<Rightarrow> nat \<Rightarrow> (u32 \<Rightarrow> nat) \<Rightarrow> string option \<Rightarrow> LoadError + PointTable" where
  "loadFromJsonFile parse ulong_max rank file =
     (case file of None \<Rightarrow> Inl CannotOpen
      | Some content \<Rightarrow>
          (case parse content of None \<Rightarrow> Inl ParseFailed
           | Some doc \<Rightarrow>
               (case Option.bind (member_of ''meta'' doc) (member_of ''schemaVersion'') of
                  None \<Rightarrow> Inl MissingSchemaVersion
                | Some svj \<Rightarrow>
                    bindE (json_need (get_string svj)) (\<lambda>sv.
                      if sv \<noteq> ''1.1'' \<and> sv \<noteq> ''1.0'' then Inl (UnsupportedSchema sv)
                      else (case member_of ''points'' doc of
                              Some (JArray ps) \<Rightarrow>
                                bindE (loadPoints ulong_max ps point_table_new) (\<lambda>t. Inr (hashOrder rank (sortSlaves t)))
                            | _ \<Rightarrow> Inl MissingPoints)))))"

section \<open>The code: queries\<close>

definition pt_resolve :: "PointTable \<Rightarrow> u8 \<Rightarrow> u16 \<Rightarrow> PointRuntime option" where
  "pt_resolve t slave addr =
     (case m_byAddr t (kAddrKey slave addr) of
        None \<Rightarrow> None | Some pid \<Rightarrow> map_of (m_byPointId t) pid)"

definition pointIdOf :: "PointTable \<Rightarrow> u32 \<Rightarrow> PointRuntime option" where
  "pointIdOf t pid = map_of (m_byPointId t) pid"

definition allOnSlave :: "PointTable \<Rightarrow> u8 \<Rightarrow> PointRuntime list" where
  "allOnSlave t slave =
     (case m_bySlave t slave of None \<Rightarrow> []
      | Some ids \<Rightarrow> List.map_filter (\<lambda>pid. map_of (m_byPointId t) pid) ids)"

definition allPoints :: "PointTable \<Rightarrow> PointRuntime list" where
  "allPoints t = map snd (m_byPointId t)"

definition pt_size :: "PointTable \<Rightarrow> nat" where
  "pt_size t = length (m_byPointId t)"

fun registerCountFor :: "DataType \<Rightarrow> nat" where
  "registerCountFor Bool = 1"
| "registerCountFor Int16 = 1"
| "registerCountFor Uint16 = 1"
| "registerCountFor Int32 = 2"
| "registerCountFor Float32 = 2"
| "registerCountFor Float64 = 4"

section \<open>The code: byte orders and engineering values\<close>

text \<open>\<open>reassembleBytes\<close>: the number of bytes reported and the output buffer afterwards; \<open>None\<close> is a
  null pointer. The buffer \<open>out\<close> has \<open>outCap\<close> bytes.\<close>

definition swap_halves :: "bytes \<Rightarrow> nat \<Rightarrow> nat \<Rightarrow> bytes \<Rightarrow> bytes" where
  "swap_halves buf regCount i out =
     (let src = 2 * i; dst = 2 * (i + regCount div 2)
      in out[dst := buf ! src, dst + 1 := buf ! (src + 1), src := buf ! dst, src + 1 := buf ! (dst + 1)])"

definition reassembleBytes ::
  "u16 list option \<Rightarrow> ByteOrder \<Rightarrow> bytes option \<Rightarrow> nat \<Rightarrow> nat \<times> bytes option" where
  "reassembleBytes regs order out outCap =
     (case (regs, out) of
        (Some rs, Some ob) \<Rightarrow>
          (let regCount = length rs; need = regCount * 2
           in if regCount = 0 \<or> regCount > 4 then (0, out)
              else if outCap < need then (0, out)
              else let buf = concat (map (\<lambda>r. [hi8 r, lo8 r]) rs)
              in (need, Some (case order of
                    ABCD \<Rightarrow> fold (\<lambda>i ob. ob[i := buf ! i]) [0..<need] ob
                  | CDAB \<Rightarrow> fold (swap_halves buf regCount) [0..<regCount div 2] ob
                  | BADC \<Rightarrow> fold (\<lambda>k ob. ob[2 * k := buf ! (2 * k + 1), 2 * k + 1 := buf ! (2 * k)]) [0..<regCount] ob
                  | DCBA \<Rightarrow> fold (\<lambda>i ob. ob[i := buf ! (need - 1 - i)]) [0..<need] ob)))
      | _ \<Rightarrow> (0, out))"

definition beToHost32 :: "bytes \<Rightarrow> u32" where
  "beToHost32 b =
     push_bit 24 (ucast (b ! 0)) OR push_bit 16 (ucast (b ! 1)) OR
     push_bit 8 (ucast (b ! 2)) OR ucast (b ! 3)"

definition beToHost64 :: "bytes \<Rightarrow> u64" where
  "beToHost64 b =
     push_bit 56 (ucast (b ! 0)) OR push_bit 48 (ucast (b ! 1)) OR
     push_bit 40 (ucast (b ! 2)) OR push_bit 32 (ucast (b ! 3)) OR
     push_bit 24 (ucast (b ! 4)) OR push_bit 16 (ucast (b ! 5)) OR
     push_bit 8 (ucast (b ! 6)) OR ucast (b ! 7)"

definition decodeToEngineering :: "bytes option \<Rightarrow> DataType \<Rightarrow> fl \<Rightarrow> fl \<Rightarrow> fl" where
  "decodeToEngineering bytes dt scale offset =
     (case bytes of None \<Rightarrow> Fin 0
      | Some b \<Rightarrow>
          (let len = length b;
               raw = (case dt of
                   Int16 \<Rightarrow> (if len < 2 then None else Some (Fin (of_int (sint (mk16 (b ! 0) (b ! 1))))))
                 | Uint16 \<Rightarrow> (if len < 2 then None else Some (Fin (of_nat (unat (mk16 (b ! 0) (b ! 1))))))
                 | Int32 \<Rightarrow> (if len < 4 then None else Some (Fin (of_int (sint (beToHost32 b)))))
                 | Float32 \<Rightarrow> (if len < 4 then None else Some (float32 (beToHost32 b)))
                 | Float64 \<Rightarrow> (if len < 8 then None else Some (float64 (beToHost64 b)))
                 | Bool \<Rightarrow> Some (Fin (if len \<ge> 1 \<and> b ! 0 \<noteq> 0 then 1 else 0)))
           in case raw of None \<Rightarrow> Fin 0
              | Some v \<Rightarrow> fl_add round64 (fl_mul round64 v scale) offset))"

section \<open>The indexes agree\<close>

lemma kAddrKey_unat: "unat (kAddrKey s a) = 2 ^ 32 * unat s + unat a"
proof -
  have s: "unat (ucast s :: u64) = unat s"
    by (simp add: unsigned_ucast_eq take_bit_nat_eq_self less_trans [OF unat_u8_less])
  have a: "unat (ucast a :: u64) = unat a"
    by (simp add: unsigned_ucast_eq take_bit_nat_eq_self less_trans [OF unat_u16_less])
  have "kAddrKey s a = push_bit 32 (ucast s) + ucast a"
    unfolding kAddrKey_def
    by (rule disjunctive_add [symmetric]) (auto simp: bit_simps dest: bit_u8_high bit_u16_high)
  moreover have "unat (push_bit 32 (ucast s :: u64)) = 2 ^ 32 * unat s"
  proof -
    have "unat s * 2 ^ 32 < 2 ^ 64" using unat_u8_less [of s] by (simp del: unat_u8_less)
    then show ?thesis using s by (simp add: push_bit_eq_mult unat_word_ariths mult.commute)
  qed
  ultimately show ?thesis
    using a unat_u8_less [of s] unat_u16_less [of a] by (simp add: unat_word_ariths del: unat_u8_less unat_u16_less)
qed

lemma kAddrKey_inject [simp]: "kAddrKey s a = kAddrKey s' a' \<longleftrightarrow> s = s' \<and> a = a'"
proof
  assume "kAddrKey s a = kAddrKey s' a'"
  then have e: "2 ^ 32 * unat s + unat a = 2 ^ 32 * unat s' + unat a'" by (metis kAddrKey_unat)
  have "unat a < 2 ^ 32" and "unat a' < 2 ^ 32" by (rule less_trans [OF unat_u16_less], simp)+
  then have "unat s = unat s'" using arg_cong [OF e, of "\<lambda>n. n div 2 ^ 32"] by simp
  with e show "s = s' \<and> a = a'" by (simp add: word_unat_eq_iff)
qed simp

text \<open>What the indexes of a table hold, over its points \<open>ps\<close> in the order of the document.\<close>

definition slave_ids :: "PointRuntime list \<Rightarrow> u8 \<Rightarrow> u32 list" where
  "slave_ids ps s = map pr_pointId (filter (\<lambda>p. pr_slaveAddress p = s) ps)"

definition addr_key :: "PointRuntime \<Rightarrow> u8 \<times> u16" where
  "addr_key p = (pr_slaveAddress p, pr_registerAddr p)"

definition table_of :: "PointRuntime list \<Rightarrow> PointTable \<Rightarrow> bool" where
  "table_of ps t \<longleftrightarrow>
     m_byPointId t = map (\<lambda>p. (pr_pointId p, p)) ps \<and>
     distinct (map pr_pointId ps) \<and> distinct (map addr_key ps) \<and>
     (\<forall>s a. m_byAddr t (kAddrKey s a) = map_of (map (\<lambda>p. (addr_key p, pr_pointId p)) ps) (s, a)) \<and>
     (\<forall>s. m_bySlave t s = (if slave_ids ps s = [] then None else Some (slave_ids ps s)))"

lemma table_of_new: "table_of [] point_table_new"
  by (simp add: table_of_def point_table_new_def slave_ids_def)

lemma map_of_key_None:
  "map_of (map (\<lambda>p. (f p, g p)) ps) k = None \<longleftrightarrow> k \<notin> f ` set ps"
  by (induction ps) auto

lemma addPoint_table_of:
  assumes t: "table_of ps t" and add: "addPoint t pr = Inr t'"
  shows "table_of (ps @ [pr]) t'"
proof -
  from add have pid: "map_of (m_byPointId t) (pr_pointId pr) = None"
    and key: "m_byAddr t (kAddrKey (pr_slaveAddress pr) (pr_registerAddr pr)) = None"
    and t': "t' = \<lparr>m_byPointId = m_byPointId t @ [(pr_pointId pr, pr)],
        m_byAddr = (m_byAddr t)(kAddrKey (pr_slaveAddress pr) (pr_registerAddr pr) \<mapsto> pr_pointId pr),
        m_bySlave = (m_bySlave t)(pr_slaveAddress pr \<mapsto>
          (case m_bySlave t (pr_slaveAddress pr) of None \<Rightarrow> [] | Some ids \<Rightarrow> ids) @ [pr_pointId pr])\<rparr>"
    by (simp_all add: addPoint_def Let_def split: if_split_asm)
  have ids: "pr_pointId pr \<notin> pr_pointId ` set ps"
    using pid t by (simp add: table_of_def map_of_key_None)
  have keys: "addr_key pr \<notin> addr_key ` set ps"
    using key t by (simp add: table_of_def map_of_key_None addr_key_def)
  have addr: "m_byAddr t' (kAddrKey s a) = map_of (map (\<lambda>p. (addr_key p, pr_pointId p)) (ps @ [pr])) (s, a)" for s a
  proof (cases "(s, a) = addr_key pr")
    case True
    have "map_of (map (\<lambda>p. (addr_key p, pr_pointId p)) ps) (s, a) = None"
      unfolding True map_of_key_None by (rule keys)
    with True show ?thesis by (simp add: t' addr_key_def map_add_def)
  next
    case False
    then show ?thesis using t by (auto simp: t' table_of_def addr_key_def map_add_def split: option.split)
  qed
  have slave: "m_bySlave t' s = (if slave_ids (ps @ [pr]) s = [] then None else Some (slave_ids (ps @ [pr]) s))" for s
    using t by (auto simp: t' table_of_def slave_ids_def)
  from t ids keys addr slave show ?thesis by (simp add: table_of_def) (simp add: t')
qed

lemma bindE_Inr: "bindE r f = Inr y \<longleftrightarrow> (\<exists>x. r = Inr x \<and> f x = Inr y)"
  by (cases r) simp_all

lemma loadPoints_table_of:
  "loadPoints m pjs t = Inr t' \<Longrightarrow> table_of ps t \<Longrightarrow>
    \<exists>qs. map (parsePoint m) pjs = map Inr qs \<and> table_of (ps @ qs) t'"
proof (induction pjs arbitrary: t ps)
  case (Cons pj pjs)
  then obtain pr t1 where pr: "parsePoint m pj = Inr pr" and add: "addPoint t pr = Inr t1"
    and rest: "loadPoints m pjs t1 = Inr t'"
    by (auto simp: bindE_Inr)
  from Cons.IH [OF rest addPoint_table_of [OF Cons.prems(2) add]] obtain qs where
    "map (parsePoint m) pjs = map Inr qs" "table_of ((ps @ [pr]) @ qs) t'" by blast
  then show ?case using pr by (intro exI [of _ "pr # qs"]) simp
qed simp

lemma load_document:
  assumes "loadFromJsonFile parse m rank (Some content) = Inr t"
  obtains doc sv pjs ps t0 where "parse content = Some doc"
    "Option.bind (member_of ''meta'' doc) (member_of ''schemaVersion'') = Some (JString sv)"
    "sv = ''1.0'' \<or> sv = ''1.1''" "member_of ''points'' doc = Some (JArray pjs)"
    "map (parsePoint m) pjs = map Inr ps" "table_of ps t0" "t = hashOrder rank (sortSlaves t0)"
proof -
  from assms obtain doc where doc: "parse content = Some doc"
    by (auto simp: loadFromJsonFile_def split: option.splits)
  with assms obtain svj where sv: "Option.bind (member_of ''meta'' doc) (member_of ''schemaVersion'') = Some svj"
    by (auto simp: loadFromJsonFile_def split: option.splits)
  with doc assms obtain v where v: "get_string svj = Some v"
    by (auto simp: loadFromJsonFile_def json_need_def bindE_Inr split: option.splits)
  with doc sv assms have ver: "v = ''1.0'' \<or> v = ''1.1''"
    by (auto simp: loadFromJsonFile_def json_need_def bindE_Inr split: if_splits)
  obtain pjs t0 where pts: "member_of ''points'' doc = Some (JArray pjs)" "loadPoints m pjs point_table_new = Inr t0"
      "t = hashOrder rank (sortSlaves t0)"
    using doc sv v ver assms
    by (auto simp: loadFromJsonFile_def json_need_def bindE_Inr split: option.splits json.splits)
  from v have "svj = JString v" by (cases svj) simp_all
  with loadPoints_table_of [OF pts(2) table_of_new] show ?thesis
    using doc sv ver pts by (auto intro: that)
qed

text \<open>The queries of a loaded table, over its points.\<close>

lemma map_of_points:
  "distinct (map pr_pointId ps) \<Longrightarrow>
    map_of (map (\<lambda>p. (pr_pointId p, p)) ps) pid = Some p \<longleftrightarrow> p \<in> set ps \<and> pr_pointId p = pid"
  by (subst map_of_eq_Some_iff) (auto simp: comp_def)

lemma map_of_addrs:
  "distinct (map addr_key ps) \<Longrightarrow>
    map_of (map (\<lambda>p. (addr_key p, pr_pointId p)) ps) k = Some i \<longleftrightarrow>
    (\<exists>p \<in> set ps. addr_key p = k \<and> pr_pointId p = i)"
  by (subst map_of_eq_Some_iff) (auto simp: comp_def)

lemma table_queries:
  assumes t: "table_of ps t"
  shows "pointIdOf t pid = Some p \<longleftrightarrow> p \<in> set ps \<and> pr_pointId p = pid"
    and "pt_resolve t s a = Some p \<longleftrightarrow> p \<in> set ps \<and> pr_slaveAddress p = s \<and> pr_registerAddr p = a"
    and "allPoints t = ps"
proof -
  have ids: "distinct (map pr_pointId ps)" and keys: "distinct (map addr_key ps)"
    using t by (simp_all add: table_of_def)
  show pid: "pointIdOf t pid = Some p \<longleftrightarrow> p \<in> set ps \<and> pr_pointId p = pid" for pid p
    using t map_of_points [OF ids] by (simp add: pointIdOf_def table_of_def)
  show "allPoints t = ps" using t by (simp add: allPoints_def table_of_def comp_def)
  have "pt_resolve t s a = Option.bind (map_of (map (\<lambda>p. (addr_key p, pr_pointId p)) ps) (s, a)) (pointIdOf t)"
    using t by (cases "m_byAddr t (kAddrKey s a)") (simp_all add: pt_resolve_def table_of_def pointIdOf_def)
  also have "\<dots> = Some p \<longleftrightarrow> (\<exists>i. (\<exists>q \<in> set ps. addr_key q = (s, a) \<and> pr_pointId q = i) \<and> pointIdOf t i = Some p)"
    unfolding bind_eq_Some_conv map_of_addrs [OF keys] ..
  also have "\<dots> \<longleftrightarrow> p \<in> set ps \<and> addr_key p = (s, a)"
    unfolding pid using ids by (auto simp: distinct_map dest: inj_onD)
  finally show "pt_resolve t s a = Some p \<longleftrightarrow> p \<in> set ps \<and> pr_slaveAddress p = s \<and> pr_registerAddr p = a"
    by (simp add: addr_key_def)
qed

lemma map_filter_all: "(\<And>x. x \<in> set xs \<Longrightarrow> f x = Some (g x)) \<Longrightarrow> List.map_filter f xs = map g xs"
  by (induction xs) (simp_all add: map_filter_simps)

lemma sorted_distinct_less:
  assumes "sorted (map f xs)" and "distinct (map f xs)"
  shows "sorted_wrt (\<lambda>x y. f x < f y) xs"
proof -
  have "sorted_wrt (<) (map f xs)" using assms by (simp add: strict_sorted_iff)
  then show ?thesis by (simp add: sorted_wrt_map)
qed

lemma hashOrder_lookup:
  assumes "table_of ps t0"
  shows "map_of (m_byPointId (hashOrder rank t0)) = map_of (m_byPointId t0)"
proof -
  have "distinct (map fst (m_byPointId t0))" using assms by (simp add: table_of_def comp_def)
  moreover from this have "distinct (map fst (sort_key (rank \<circ> fst) (m_byPointId t0)))"
    by (simp add: distinct_map)
  ultimately show ?thesis by (simp add: hashOrder_def map_of_inject_set)
qed

lemma table_of_sortSlaves: "table_of ps t0 \<Longrightarrow> m_byPointId (sortSlaves t0) = m_byPointId t0"
  by (simp add: sortSlaves_def)

text \<open>The table that is loaded answers by id and by address as the one built from the document, and
  lists the same points.\<close>

lemma loaded_same:
  assumes t0: "table_of ps t0" and t: "t = hashOrder rank (sortSlaves t0)"
  shows "map_of (m_byPointId t) = map_of (m_byPointId t0)" and "m_byAddr t = m_byAddr t0"
    and "m_bySlave t = (\<lambda>s. map_option (sort_key (addr_of t0)) (m_bySlave t0 s))"
    and "mset (allPoints t) = mset ps"
proof -
  show "map_of (m_byPointId t) = map_of (m_byPointId t0)"
    using hashOrder_lookup [OF t0, of rank] by (simp add: t hashOrder_def sortSlaves_def)
  show "m_byAddr t = m_byAddr t0"
    and "m_bySlave t = (\<lambda>s. map_option (sort_key (addr_of t0)) (m_bySlave t0 s))"
    by (simp_all add: t hashOrder_def sortSlaves_def)
  have "mset (allPoints t) = mset (allPoints t0)"
    by (simp add: t hashOrder_def sortSlaves_def allPoints_def mset_map)
  then show "mset (allPoints t) = mset ps" by (simp add: table_queries(3) [OF t0])
qed

lemma loaded_slave:
  assumes t0: "table_of ps t0" and t: "t = hashOrder rank (sortSlaves t0)"
  shows "allOnSlave t s = sort_key pr_registerAddr (filter (\<lambda>p. pr_slaveAddress p = s) ps)"
proof -
  let ?ps = "filter (\<lambda>p. pr_slaveAddress p = s) ps"
  note same = loaded_same [OF t0 t]
  have get: "map_of (m_byPointId t0) (pr_pointId p) = Some p" if "p \<in> set ps" for p
    using that table_queries(1) [OF t0, of "pr_pointId p" p] by (simp add: pointIdOf_def)
  show ?thesis
  proof (cases "slave_ids ps s = []")
    case True
    then have "?ps = []" by (simp add: slave_ids_def)
    then show ?thesis using True t0 by (simp add: allOnSlave_def same table_of_def)
  next
    case False
    then have "m_bySlave t s = Some (sort_key (addr_of t0) (map pr_pointId ?ps))"
      using t0 by (simp add: same table_of_def slave_ids_def)
    also have "sort_key (addr_of t0) (map pr_pointId ?ps) = map pr_pointId (sort_key (addr_of t0 \<circ> pr_pointId) ?ps)"
      by (rule sort_key_map)
    also have "sort_key (addr_of t0 \<circ> pr_pointId) ?ps = sort_key pr_registerAddr ?ps"
      by (rule sort_key_cong) (simp add: addr_of_def get)
    finally have "m_bySlave t s = Some (map pr_pointId (sort_key pr_registerAddr ?ps))" .
    then have "allOnSlave t s =
        List.map_filter (map_of (m_byPointId t0)) (map pr_pointId (sort_key pr_registerAddr ?ps))"
      by (simp add: allOnSlave_def same(1))
    also have "\<dots> = List.map_filter (map_of (m_byPointId t0) \<circ> pr_pointId) (sort_key pr_registerAddr ?ps)"
      by (simp add: List.map_filter_def filter_map comp_def)
    also have "\<dots> = map (\<lambda>p. p) (sort_key pr_registerAddr ?ps)"
      by (rule map_filter_all) (simp add: get)
    finally show ?thesis by simp
  qed
qed

lemma loaded_table:
  assumes t0: "table_of ps t0" and t: "t = hashOrder rank (sortSlaves t0)"
  shows "distinct (map pr_pointId ps)"
    and "pointIdOf t pid = Some p \<longleftrightarrow> p \<in> set ps \<and> pr_pointId p = pid"
    and "pt_resolve t s a = Some p \<longleftrightarrow> p \<in> set ps \<and> pr_slaveAddress p = s \<and> pr_registerAddr p = a"
    and "set (allOnSlave t s) = {p \<in> set ps. pr_slaveAddress p = s}"
    and "sorted_wrt (\<lambda>p q. pr_registerAddr p < pr_registerAddr q) (allOnSlave t s)"
proof -
  let ?ps = "filter (\<lambda>p. pr_slaveAddress p = s) ps"
  have queries: "pointIdOf t = pointIdOf t0" "pt_resolve t = pt_resolve t0"
    by (simp_all add: fun_eq_iff pointIdOf_def pt_resolve_def loaded_same [OF t0 t] split: option.split)
  show "distinct (map pr_pointId ps)" using t0 by (simp add: table_of_def)
  show "pointIdOf t pid = Some p \<longleftrightarrow> p \<in> set ps \<and> pr_pointId p = pid"
    and "pt_resolve t s a = Some p \<longleftrightarrow> p \<in> set ps \<and> pr_slaveAddress p = s \<and> pr_registerAddr p = a"
    unfolding queries by (rule table_queries [OF t0])+
  show "set (allOnSlave t s) = {p \<in> set ps. pr_slaveAddress p = s}"
    by (simp add: loaded_slave [OF t0 t])
  have "distinct (map addr_key ps)" using t0 by (simp add: table_of_def)
  then have "distinct (map pr_registerAddr (sort_key pr_registerAddr ?ps))"
    by (auto simp: distinct_map inj_on_def addr_key_def)
  then show "sorted_wrt (\<lambda>p q. pr_registerAddr p < pr_registerAddr q) (allOnSlave t s)"
    unfolding loaded_slave [OF t0 t] by (intro sorted_distinct_less) simp_all
qed

lemma loaded_resolve:
  assumes "loadFromJsonFile parse m rank (Some content) = Inr t"
  shows "pt_resolve t s a = Some p \<longleftrightarrow>
    p \<in> set (allPoints t) \<and> pr_slaveAddress p = s \<and> pr_registerAddr p = a"
proof -
  from assms obtain ps t0 where t: "table_of ps t0" "t = hashOrder rank (sortSlaves t0)"
    by (rule load_document)
  have "set (allPoints t) = set ps" using loaded_same(4) [OF t] by (metis set_mset_mset)
  then show ?thesis by (simp add: loaded_table(3) [OF t])
qed

text \<open>Property C23: a table that loads has exactly the points of the document: every entry of its
  \<open>points\<close> is read as a point, none is dropped and none added, and no two have one id. The query
  by id and the query by address find a point if and only if the document has it, and the list
  of a slave holds its points, strictly ascending in the address.\<close>

theorem point_table_indexed:
  assumes "loadFromJsonFile parse m rank (Some content) = Inr t" and "parse content = Some doc"
  shows "\<exists>pjs ps. member_of ''points'' doc = Some (JArray pjs) \<and> map (parsePoint m) pjs = map Inr ps
    \<and> mset (allPoints t) = mset ps \<and> distinct (map pr_pointId ps)
    \<and> (\<forall>pid p. pointIdOf t pid = Some p \<longleftrightarrow> p \<in> set ps \<and> pr_pointId p = pid)
    \<and> (\<forall>s a p. pt_resolve t s a = Some p \<longleftrightarrow>
        p \<in> set ps \<and> pr_slaveAddress p = s \<and> pr_registerAddr p = a)
    \<and> (\<forall>s. set (allOnSlave t s) = {p \<in> set ps. pr_slaveAddress p = s}
        \<and> sorted_wrt (\<lambda>p q. pr_registerAddr p < pr_registerAddr q) (allOnSlave t s))"
proof -
  obtain doc' sv pjs ps t0 where d: "parse content = Some doc'" "member_of ''points'' doc' = Some (JArray pjs)"
      "map (parsePoint m) pjs = map Inr ps" and t: "table_of ps t0" "t = hashOrder rank (sortSlaves t0)"
    using assms(1) by (rule load_document)
  have doc: "doc' = doc" using d(1) assms(2) by simp
  note loaded = loaded_table [OF t] and same = loaded_same(4) [OF t]
  show ?thesis
    using d(2,3) [unfolded doc] same loaded by (intro exI [of _ pjs] exI [of _ ps] conjI allI)
qed

definition demo_point_json :: "int \<Rightarrow> json \<Rightarrow> json" where
  "demo_point_json i addr = JObject [(''pointId'', JInt i), (''slaveAddress'', JInt 3),
     (''regType'', JString ''HoldingRegister''), (''dataType'', JString ''Int32''),
     (''byteOrder'', JString ''CDAB''), (''registerAddr'', addr)]"

definition demo_table_json :: json where
  "demo_table_json = JObject [(''meta'', JObject [(''schemaVersion'', JString ''1.1'')]),
     (''points'', JArray [demo_point_json 7 (JInt 16), demo_point_json 8 (JInt 4)])]"

definition demo_point :: "u32 \<Rightarrow> u16 \<Rightarrow> PointRuntime" where
  "demo_point i addr = \<lparr>pr_pointId = i, pr_linkId = 3, pr_slaveAddress = 3, pr_regType = HoldingRegister,
     pr_dataType = Int32, pr_byteOrder = CDAB, pr_registerAddr = addr, pr_scaleFactor = Fin 1,
     pr_offset = Fin 0, pr_pollIntervalMs = 1000, pr_priority = 1, pr_enabled = True,
     pr_pointName = [], pr_unit = []\<rparr>"

definition demo_load :: "LoadError + PointTable" where
  "demo_load = loadFromJsonFile (\<lambda>_. Some demo_table_json) 4294967295 unat (Some [])"

lemma demo_parse:
  "parsePoint m (demo_point_json 7 (JInt 16)) = Inr (demo_point 7 16)"
  "parsePoint m (demo_point_json 8 (JInt 4)) = Inr (demo_point 8 4)"
  by (simp_all add: parsePoint_def demo_point_json_def demo_point_def j_at_def j_value_def json_need_def
      parseRegType_def parseDataType_def parseByteOrder_def parseRegisterAddr_def)

lemma demo_fields: "pr_pointId (demo_point i a) = i" "pr_slaveAddress (demo_point i a) = 3"
  "pr_registerAddr (demo_point i a) = a"
  by (simp_all add: demo_point_def)

lemma demo_load_points:
  "\<exists>t. demo_load = Inr t \<and> allPoints t = [demo_point 7 16, demo_point 8 4] \<and>
    map pr_pointId (allOnSlave t 3) = [8, 7]"
  by (simp add: demo_load_def loadFromJsonFile_def demo_table_json_def json_need_def demo_parse
      addPoint_def point_table_new_def Let_def demo_fields allPoints_def sortSlaves_def hashOrder_def allOnSlave_def
      addr_of_def map_filter_simps)

theorem point_table_indexed_witness:
  "\<exists>t. demo_load = Inr t \<and> pt_resolve t 3 16 = Some (demo_point 7 16) \<and> pointIdOf t 8 = Some (demo_point 8 4) \<and>
    set (allOnSlave t 3) = {demo_point 8 4, demo_point 7 16}"
proof -
  from demo_load_points obtain t where t: "demo_load = Inr t" by blast
  from point_table_indexed [OF t [unfolded demo_load_def] refl] obtain pjs ps where
    pjs: "member_of ''points'' demo_table_json = Some (JArray pjs)" "map (parsePoint 4294967295) pjs = map Inr ps"
    and byid: "\<forall>pid p. pointIdOf t pid = Some p \<longleftrightarrow> p \<in> set ps \<and> pr_pointId p = pid"
    and byaddr: "\<forall>s a p. pt_resolve t s a = Some p \<longleftrightarrow>
      p \<in> set ps \<and> pr_slaveAddress p = s \<and> pr_registerAddr p = a"
    and slave: "\<forall>s. set (allOnSlave t s) = {p \<in> set ps. pr_slaveAddress p = s}
      \<and> sorted_wrt (\<lambda>p q. pr_registerAddr p < pr_registerAddr q) (allOnSlave t s)"
    by (elim exE conjE) (rule that)
  have "pjs = [demo_point_json 7 (JInt 16), demo_point_json 8 (JInt 4)]"
    using pjs(1) by (simp add: demo_table_json_def)
  with pjs(2) have ps: "ps = [demo_point 7 16, demo_point 8 4]" by (auto simp: demo_parse)
  have "pt_resolve t 3 16 = Some (demo_point 7 16)"
    using byaddr by (simp add: ps demo_fields)
  moreover have "pointIdOf t 8 = Some (demo_point 8 4)"
    using byid by (simp add: ps demo_fields)
  moreover have "set (allOnSlave t 3) = {demo_point 8 4, demo_point 7 16}"
    using slave by (auto simp: ps demo_fields)
  ultimately show ?thesis using t by (intro exI [of _ t] conjI)
qed

section \<open>What a device sends is what is decoded\<close>

text \<open>The bytes a device with a byte order puts on the wire for a value with the big-endian bytes
  \<open>raw\<close>, and the value of the bytes.\<close>

fun swap_pairs :: "'a list \<Rightarrow> 'a list" where
  "swap_pairs (a # b # cs) = b # a # swap_pairs cs"
| "swap_pairs cs = cs"

fun wire :: "ByteOrder \<Rightarrow> 'a list \<Rightarrow> 'a list" where
  "wire ABCD raw = raw"
| "wire BADC raw = swap_pairs raw"
| "wire CDAB raw = drop (length raw div 2) raw @ take (length raw div 2) raw"
| "wire DCBA raw = rev raw"

definition uint_be :: "bytes \<Rightarrow> nat" where
  "uint_be bs = foldl (\<lambda>a b. 256 * a + unat b) 0 bs"

definition signed_of :: "nat \<Rightarrow> nat \<Rightarrow> int" where
  "signed_of w n = (if n < 2 ^ (w - 1) then int n else int n - 2 ^ w)"

fun raw_value :: "DataType \<Rightarrow> bytes \<Rightarrow> fl" where
  "raw_value Bool raw = Fin (if raw ! 0 \<noteq> 0 then 1 else 0)"
| "raw_value Int16 raw = Fin (of_int (signed_of 16 (uint_be raw)))"
| "raw_value Uint16 raw = Fin (of_nat (uint_be raw))"
| "raw_value Int32 raw = Fin (of_int (signed_of 32 (uint_be raw)))"
| "raw_value Float32 raw = fl_of_bits 8 23 (uint_be raw)"
| "raw_value Float64 raw = fl_of_bits 11 52 (uint_be raw)"

lemma length_cases:
  assumes "length xs = 2 * n" and "n \<in> {1, 2, 4}"
  obtains a b where "n = 1" "xs = [a, b]" | a b c d where "n = 2" "xs = [a, b, c, d]"
  | a b c d e f g h where "n = 4" "xs = [a, b, c, d, e, f, g, h]"
  using assms by (auto simp: length_Suc_conv eval_nat_numeral)

lemma upto_8: "[0..<2] = [0, 1]" "[0..<4] = [0, 1, 2, 3]" "[0..<8] = [0, 1, 2, 3, 4, 5, 6, 7]"
  by (simp_all add: upt_rec)

lemma update_numeral: "(x # xs)[numeral k := y] = x # xs[pred_numeral k := y]"
  by (simp add: numeral_eq_Suc)

lemmas list_eval = upto_8 update_numeral nth_Cons_numeral pred_numeral_simps

lemma reassemble_wire:
  assumes "length raw = 2 * n" and "n \<in> {1, 2, 4}" and "order = CDAB \<longrightarrow> n \<noteq> 1" and "2 * n \<le> length ob"
  shows "reassembleBytes (Some (words_be (wire order raw))) order (Some ob) (length ob) =
    (2 * n, Some (raw @ drop (2 * n) ob))"
proof -
  obtain xs ys where ob: "ob = xs @ ys" "length xs = 2 * n"
    using assms(4) by (metis append_take_drop_id length_take min.absorb2)
  from assms(1,2) show ?thesis
  proof (cases rule: length_cases)
    case (1 a b)
    then obtain x0 x1 where "ob = x0 # x1 # ys" using ob by (auto simp: length_Suc_conv eval_nat_numeral)
    then show ?thesis using 1 assms(3)
      by (cases order) (simp_all add: reassembleBytes_def Let_def upt_rec)
  next
    case (2 a b c d)
    then obtain x0 x1 x2 x3 where "ob = x0 # x1 # x2 # x3 # ys"
      using ob by (auto simp: length_Suc_conv eval_nat_numeral)
    with 2 show ?thesis
      by (cases order) (simp_all add: reassembleBytes_def Let_def swap_halves_def list_eval)
  next
    case (3 a b c d e f g h)
    then obtain x0 x1 x2 x3 x4 x5 x6 x7 where "ob = x0 # x1 # x2 # x3 # x4 # x5 # x6 # x7 # ys"
      using ob by (auto simp: length_Suc_conv eval_nat_numeral)
    with 3 show ?thesis
      by (cases order) (simp_all add: reassembleBytes_def Let_def swap_halves_def list_eval)
  qed
qed

text \<open>A single register in the order CDAB leaves the output as it was.\<close>

lemma reassemble_CDAB_single:
  "reassembleBytes (Some [r]) CDAB (Some (x # y # ob)) (2 + length ob) = (2, Some (x # y # ob))"
  by (simp add: reassembleBytes_def Let_def)

lemma or_byte:
  assumes "n < 2 ^ k"
  shows "push_bit k (ucast (b :: u8)) OR of_nat n = (of_nat (unat b * 2 ^ k + n) :: 'a::len word)"
proof -
  have "take_bit k n = n" using assms by (rule take_bit_nat_eq_self)
  then have low: "bit n i \<Longrightarrow> i < k" for i by (metis bit_take_bit_iff)
  have "push_bit k (ucast b) OR of_nat n = push_bit k (ucast b) + (of_nat n :: 'a word)"
    by (rule disjunctive_add [symmetric]) (auto simp: bit_simps dest: low)
  then show ?thesis by (simp add: push_bit_eq_mult)
qed

lemma byte_step: "n < 2 ^ k \<Longrightarrow> unat (b :: u8) * 2 ^ k + n < 2 ^ (8 + k)"
proof -
  assume n: "n < 2 ^ k"
  have "(unat b + 1) * 2 ^ k \<le> 256 * 2 ^ k"
    using unat_u8_less [of b] by (intro mult_right_mono) (simp_all add: Suc_le_eq del: unat_u8_less)
  then have "unat b * 2 ^ k + 1 * 2 ^ k \<le> 256 * 2 ^ k" unfolding add_mult_distrib .
  with n have "unat b * 2 ^ k + n < 256 * 2 ^ k" by linarith
  then show ?thesis by (simp add: power_add)
qed

lemma unat_word_small: "w = (of_nat n :: 'a::len word) \<Longrightarrow> n < 2 ^ LENGTH('a) \<Longrightarrow> unat w = n"
  by (simp only: unat_of_nat mod_less)

lemma beToHost32_value: "unat (beToHost32 [a, b, c, d]) = uint_be [a, b, c, d]"
proof -
  have d: "unat d < 2 ^ 8" by simp
  note c = byte_step [OF d, of c] and b = byte_step [OF byte_step [OF d, of c], of b]
  have "beToHost32 [a, b, c, d] = of_nat (unat a * 2 ^ 24 + (unat b * 2 ^ 16 + (unat c * 2 ^ 8 + unat d)))"
    unfolding beToHost32_def
    using or_byte [OF d, of c, where 'a = 32] or_byte [OF c, of b, where 'a = 32] or_byte [OF b, of a, where 'a = 32]
    by (simp add: nth_Cons_numeral)
  moreover have "unat a * 2 ^ 24 + (unat b * 2 ^ 16 + (unat c * 2 ^ 8 + unat d)) < 2 ^ 32"
    using byte_step [OF b, of a] by simp
  ultimately have "unat (beToHost32 [a, b, c, d]) = unat a * 2 ^ 24 + (unat b * 2 ^ 16 + (unat c * 2 ^ 8 + unat d))"
    by (intro unat_word_small) simp_all
  then show ?thesis by (simp add: uint_be_def)
qed

lemma beToHost64_value: "unat (beToHost64 [a, b, c, d, e, f, g, h]) = uint_be [a, b, c, d, e, f, g, h]"
proof -
  have h: "unat h < 2 ^ 8" by simp
  note g = byte_step [OF h, of g]
  note f = byte_step [OF g, of f]
  note e = byte_step [OF f, of e]
  note d = byte_step [OF e, of d]
  note c = byte_step [OF d, of c]
  note b = byte_step [OF c, of b]
  note orb = or_byte [where 'a = 64]
  let ?n = "unat a * 2 ^ 56 + (unat b * 2 ^ 48 + (unat c * 2 ^ 40 + (unat d * 2 ^ 32 +
      (unat e * 2 ^ 24 + (unat f * 2 ^ 16 + (unat g * 2 ^ 8 + unat h))))))"
  have "beToHost64 [a, b, c, d, e, f, g, h] = of_nat ?n"
    unfolding beToHost64_def
    using orb [OF h, of g] orb [OF g, of f] orb [OF f, of e] orb [OF e, of d] orb [OF d, of c]
      orb [OF c, of b] orb [OF b, of a]
    by (simp add: nth_Cons_numeral)
  moreover have "?n < 2 ^ 64" using byte_step [OF b, of a] by simp
  ultimately have "unat (beToHost64 [a, b, c, d, e, f, g, h]) = ?n"
    by (intro unat_word_small) simp_all
  then show ?thesis by (simp add: uint_be_def)
qed

lemma sint_signed: "sint (w :: 'a::len word) = signed_of LENGTH('a) (unat w)"
proof -
  obtain n where n: "LENGTH('a) = Suc n" by (metis Suc_pred len_gt_0)
  have lt: "uint w < 2 ^ Suc n" using uint_bounded [of w] n by simp
  have u: "uint w = int (unat w)" by simp
  have "sint w = (uint w + 2 ^ n) mod 2 ^ Suc n - 2 ^ n"
    by (simp add: sint_uint n signed_take_bit_eq_take_bit_shift take_bit_eq_mod)
  also have "\<dots> = (if uint w < 2 ^ n then uint w else uint w - 2 ^ Suc n)"
  proof (cases "uint w < 2 ^ n")
    case True
    then show ?thesis by (simp add: mod_pos_pos_trivial)
  next
    case False
    have "(uint w + 2 ^ n) mod 2 ^ Suc n = (uint w + 2 ^ n - 2 ^ Suc n) mod 2 ^ Suc n" by (simp only: minus_mod_self2)
    also have "\<dots> = uint w - 2 ^ n" using False lt by (subst mod_pos_pos_trivial) simp_all
    finally show ?thesis using False by simp
  qed
  also have "uint w < 2 ^ n \<longleftrightarrow> unat w < 2 ^ n"
    unfolding u by (metis of_nat_less_iff of_nat_numeral of_nat_power)
  finally show ?thesis by (simp add: signed_of_def n)
qed

lemma decode_raw:
  assumes "length raw = 2 * registerCountFor dt" and "dt \<noteq> Bool"
  shows "decodeToEngineering (Some raw) dt scale off = fl_add round64 (fl_mul round64 (raw_value dt raw) scale) off"
proof -
  have "registerCountFor dt \<in> {1, 2, 4}" by (cases dt) simp_all
  from assms(1) this show ?thesis
  proof (cases rule: length_cases)
    case (1 a b)
    then show ?thesis using assms(2)
      by (cases dt) (simp_all add: decodeToEngineering_def sint_signed unat_mk16 uint_be_def)
  next
    case (2 a b c d)
    then show ?thesis using assms(2)
      by (cases dt) (simp_all add: decodeToEngineering_def sint_signed beToHost32_value float32_def)
  next
    case (3 a b c d e f g h)
    then show ?thesis using assms(2)
      by (cases dt) (simp_all add: decodeToEngineering_def beToHost64_value float64_def)
  qed
qed

lemma signed_of_bound: "n < 2 ^ 32 \<Longrightarrow> \<bar>signed_of 32 n\<bar> < 2 ^ 53"
  by (auto simp: signed_of_def)

lemma raw_value_double:
  assumes "length raw = 2 * registerCountFor dt" and "dt \<noteq> Bool" and "raw_value dt raw = Fin x"
  shows "round64 x = Fin x"
proof -
  have "registerCountFor dt \<in> {1, 2, 4}" by (cases dt) simp_all
  from assms(1) this show ?thesis
  proof (cases rule: length_cases)
    case (1 a b)
    have "uint_be raw < 2 ^ 16" using byte_step [of "unat b" 8 a] 1 by (simp add: uint_be_def)
    then have "\<bar>signed_of 16 (uint_be raw)\<bar> < 2 ^ 53" "\<bar>int (uint_be raw)\<bar> < 2 ^ 53" by (auto simp: signed_of_def)
    then show ?thesis using 1 assms round64_int [of "signed_of 16 (uint_be raw)"] round64_int [of "int (uint_be raw)"]
      by (cases dt) auto
  next
    case (2 a b c d)
    have u: "uint_be raw = unat (beToHost32 raw)" using beToHost32_value [of a b c d] 2 by simp
    have "unat (beToHost32 raw) < 2 ^ 32" by (rule order_less_le_trans [OF unsigned_less]) simp
    then have b: "\<bar>signed_of 32 (uint_be raw)\<bar> < 2 ^ 53" unfolding u by (rule signed_of_bound)
    have f: "float32 (beToHost32 raw) = fl_of_bits 8 23 (uint_be raw)" by (simp add: float32_def u)
    from b f show ?thesis
      using 2(1) assms(2,3) round64_int [of "signed_of 32 (uint_be raw)"] round64_float32 [of "beToHost32 raw" x]
      by (cases dt) simp_all
  next
    case (3 a b c d e f g h)
    have u: "uint_be raw = unat (beToHost64 raw)" using beToHost64_value [of a b c d e f g h] 3 by simp
    have f: "float64 (beToHost64 raw) = fl_of_bits 11 52 (uint_be raw)" by (simp add: float64_def u)
    then show ?thesis using 3(1) assms(2,3) round64_float64 [of "beToHost64 raw" x]
      by (cases dt) simp_all
  qed
qed

lemma scale_one:
  "(\<And>x. v = Fin x \<Longrightarrow> round64 x = Fin x) \<Longrightarrow> fl_add round64 (fl_mul round64 v (Fin 1)) (Fin 0) = v"
  by (cases v) (simp_all add: inf_mul_def)

text \<open>Property C24: the registers of a device with byte order \<open>order\<close> that holds a value with the
  big-endian bytes \<open>raw\<close> are reassembled to \<open>raw\<close>, and \<open>raw\<close> is decoded to the number it stands
  for in the data type, scaled and offset in \<open>double\<close>; without a scale the number is exact, for
  every bit pattern. The orders are permutations of the bytes, except that CDAB does nothing for
  a single register: then the output buffer is not written.\<close>

theorem engineering_value_roundtrip:
  assumes "length raw = 2 * registerCountFor dt" and "dt \<noteq> Bool"
    and "order = CDAB \<longrightarrow> registerCountFor dt \<noteq> 1" and "length raw \<le> length ob"
  shows "reassembleBytes (Some (words_be (wire order raw))) order (Some ob) (length ob) =
      (length raw, Some (raw @ drop (length raw) ob))
    \<and> decodeToEngineering (Some raw) dt scale off =
        fl_add round64 (fl_mul round64 (raw_value dt raw) scale) off
    \<and> decodeToEngineering (Some raw) dt (Fin 1) (Fin 0) = raw_value dt raw"
proof -
  have n: "registerCountFor dt \<in> {1, 2, 4}" by (cases dt) simp_all
  show ?thesis
    using reassemble_wire [OF assms(1) n assms(3), of ob] assms(1,4)
      decode_raw [OF assms(1,2)] scale_one [OF raw_value_double [OF assms(1,2)]] by simp
qed

theorem engineering_value_roundtrip_witness:
  "reassembleBytes (Some [0x5678, 0x1234]) CDAB (Some [0, 0, 0, 0]) 4 = (4, Some [0x12, 0x34, 0x56, 0x78])
    \<and> decodeToEngineering (Some [0x12, 0x34, 0x56, 0x78]) Int32 (Fin 1) (Fin 0) = Fin 305419896"
proof -
  let ?raw = "[0x12, 0x34, 0x56, 0x78] :: bytes"
  have "mk16 0x56 0x78 = 0x5678" and "mk16 0x12 0x34 = 0x1234" by (simp_all add: mk16_def push_bit_eq_mult)
  then have w: "words_be (wire CDAB ?raw) = [0x5678, 0x1234]" by simp
  have v: "raw_value Int32 ?raw = Fin 305419896" by (simp add: uint_be_def signed_of_def)
  have "reassembleBytes (Some (words_be (wire CDAB ?raw))) CDAB (Some [0, 0, 0, 0]) (length [0, 0, 0, 0 :: u8]) =
      (length ?raw, Some (?raw @ drop (length ?raw) [0, 0, 0, 0]))
    \<and> decodeToEngineering (Some ?raw) Int32 (Fin 1) (Fin 0) = raw_value Int32 ?raw"
    using engineering_value_roundtrip [of ?raw Int32 CDAB "[0, 0, 0, 0]" NaN NaN] by simp
  then show ?thesis unfolding w v by (simp add: eval_nat_numeral)
qed

end
