(* ===== verification/PollDriver.thy ===== *)
theory PollDriver
  imports PointTable ModbusEngine PollScheduler
begin

text \<open>
  The polling driver of the station application, the class \<open>PollDriver\<close> of
  \<^verbatim>\<open>apps/ens_app/src/app/EnerSentryApp.cpp\<close>, with the bounded queue \<open>SampleBridge\<close> of
  \<^verbatim>\<open>EnerSentryApp.h\<close>. It turns the point table into read segments, requests one segment per timer
  tick through the scheduler and the engine, and converts responses to samples. Engine and
  scheduler are the objects the driver points to. A pending single-shot timer is counted in
  \<open>pd_timers\<close>; clock readings are arguments; the debug counters are not modelled.
\<close>

section \<open>The code: segments\<close>

record PendingPoll =
  pp_linkId :: u32
  pp_slave :: u8
  pp_functionCode :: u8
  pp_startAddr :: u16
  pp_qty :: u16
  pp_segmentIndex :: nat
  pp_active :: bool

record Segment =
  sg_slave :: u8
  sg_startAddr :: u16
  sg_qty :: u16
  sg_rt :: RegisterType
  sg_points :: "PointRuntime list"

fun fcForRead :: "RegisterType \<Rightarrow> u8" where
  "fcForRead Coil = 1"
| "fcForRead DiscreteInput = 2"
| "fcForRead InputRegister = 4"
| "fcForRead HoldingRegister = 3"

definition kMaxRegistersPerRead :: nat where "kMaxRegistersPerRead = 125"
definition kMaxBitsPerRead :: nat where "kMaxBitsPerRead = 2000"

definition isBitType :: "RegisterType \<Rightarrow> bool" where
  "isBitType rt \<longleftrightarrow> rt = Coil \<or> rt = DiscreteInput"

definition pointWidth :: "PointRuntime \<Rightarrow> nat" where
  "pointWidth pr = (if isBitType (pr_regType pr) then 1 else registerCountFor (pr_dataType pr))"

text \<open>The groups of a \<open>std::map\<close> are visited in the order of their keys, the points of a group in
  the order of address and id.\<close>

fun rt_ord :: "RegisterType \<Rightarrow> nat" where
  "rt_ord Coil = 0" | "rt_ord DiscreteInput = 1" | "rt_ord HoldingRegister = 2" | "rt_ord InputRegister = 3"

definition group_key :: "PointRuntime \<Rightarrow> u8 \<times> RegisterType" where
  "group_key pr = (pr_slaveAddress pr, pr_regType pr)"

definition group_keys :: "PointRuntime list \<Rightarrow> (u8 \<times> RegisterType) list" where
  "group_keys ps = sort_key (\<lambda>(s, rt). unat s * 4 + rt_ord rt) (remdups (map group_key ps))"

definition point_order :: "PointRuntime \<Rightarrow> nat" where
  "point_order pr = unat (pr_registerAddr pr) * 2 ^ 32 + unat (pr_pointId pr)"

text \<open>The loop over the points of a group: the segments pushed so far, the current segment
  (with points or empty) and \<open>endExclusive\<close>.\<close>

definition emptySegment :: Segment where
  "emptySegment = \<lparr>sg_slave = 0, sg_startAddr = 0, sg_qty = 0, sg_rt = HoldingRegister, sg_points = []\<rparr>"

definition closeSegment :: "Segment list \<Rightarrow> Segment \<Rightarrow> nat \<Rightarrow> Segment list" where
  "closeSegment segs cur endExclusive =
     (if sg_points cur \<noteq> []
      then segs @ [cur\<lparr>sg_qty := of_nat (endExclusive - unat (sg_startAddr cur))\<rparr>] else segs)"

definition segStep ::
  "u8 \<times> RegisterType \<Rightarrow> nat \<Rightarrow> PointRuntime \<Rightarrow> Segment list \<times> Segment \<times> nat \<Rightarrow> Segment list \<times> Segment \<times> nat" where
  "segStep key maxQty pr acc =
     (case acc of (segs, cur, endExclusive) \<Rightarrow>
        let pointStart = unat (pr_registerAddr pr); pointEnd = pointStart + pointWidth pr;
            split = (sg_points cur = [] \<or> pointStart > endExclusive \<or> pointEnd - unat (sg_startAddr cur) > maxQty)
        in case (if split
                 then (closeSegment segs cur endExclusive,
                       emptySegment\<lparr>sg_slave := fst key, sg_rt := snd key, sg_startAddr := pr_registerAddr pr\<rparr>,
                       pointEnd)
                 else (segs, cur, max endExclusive pointEnd)) of
             (segs', cur', stop') \<Rightarrow> (segs', cur'\<lparr>sg_points := sg_points cur' @ [pr]\<rparr>, stop'))"

definition segmentsOf :: "u8 \<times> RegisterType \<Rightarrow> PointRuntime list \<Rightarrow> Segment list" where
  "segmentsOf key points =
     (let maxQty = (if isBitType (snd key) then kMaxBitsPerRead else kMaxRegistersPerRead)
      in case fold (segStep key maxQty) points ([], emptySegment, 0) of
           (segs, cur, endExclusive) \<Rightarrow> closeSegment segs cur endExclusive)"

definition buildSegments :: "PointTable \<Rightarrow> Segment list" where
  "buildSegments pt =
     (let ps = filter pr_enabled (allPoints pt)
      in concat (map (\<lambda>key. segmentsOf key (sort_key point_order (filter (\<lambda>p. group_key p = key) ps)))
                     (group_keys ps)))"

section \<open>The code: the bridge to the main thread\<close>

definition bridge_kMaxPending :: nat where "bridge_kMaxPending = 4096"

definition bridge_push :: "'a \<Rightarrow> 'a list \<Rightarrow> 'a list" where
  "bridge_push x q = (if length q \<ge> bridge_kMaxPending then tl q else q) @ [x]"

definition bridge_tryPop :: "'a list \<Rightarrow> 'a option \<times> 'a list" where
  "bridge_tryPop q = (if q = [] then (None, q) else (Some (hd q), tl q))"

section \<open>The code: the driver\<close>

record PollDriver =
  pd_engine :: Engine
  pd_sched :: Scheduler
  pd_pt :: PointTable
  pd_bridge :: "(u32 \<times> int \<times> fl) list"
  pd_segments :: "Segment list"
  pd_nextSegIdx :: nat
  pd_intervalMs :: int
  pd_running :: bool
  pd_pending :: PendingPoll
  pd_timers :: nat

definition noPending :: PendingPoll where
  "noPending = \<lparr>pp_linkId = 0, pp_slave = 0, pp_functionCode = 0, pp_startAddr = 0, pp_qty = 0,
     pp_segmentIndex = 0, pp_active = False\<rparr>"

definition driver_new :: "Engine \<Rightarrow> Scheduler \<Rightarrow> PointTable \<Rightarrow> PollDriver" where
  "driver_new e s pt =
     (let slaves = sort_key unat (remdups (map pr_slaveAddress (filter pr_enabled (allPoints pt))));
          s' = fold (\<lambda>sid s. setLinkParams s sid (defaultParams\<lparr>isHalfDuplex := False\<rparr>)) slaves s
      in \<lparr>pd_engine = e, pd_sched = s', pd_pt = pt, pd_bridge = [], pd_segments = buildSegments pt,
          pd_nextSegIdx = 0, pd_intervalMs = 100, pd_running = False, pd_pending = noPending,
          pd_timers = 0\<rparr>)"

definition scheduleNext :: "PollDriver \<Rightarrow> PollDriver" where
  "scheduleNext d = (if pd_running d then d\<lparr>pd_timers := pd_timers d + 1\<rparr> else d)"

definition startPolling :: "int \<Rightarrow> PollDriver \<Rightarrow> PollDriver" where
  "startPolling ms d = scheduleNext (d\<lparr>pd_intervalMs := ms, pd_running := True\<rparr>)"

definition stopPolling :: "PollDriver \<Rightarrow> PollDriver" where
  "stopPolling d = d\<lparr>pd_running := False\<rparr>"

definition resetPending :: "PollDriver \<Rightarrow> PollDriver" where
  "resetPending d = d\<lparr>pd_pending := (pd_pending d)\<lparr>pp_active := False\<rparr>\<rparr>"

definition pollRequest :: "Segment \<Rightarrow> ModbusRequest" where
  "pollRequest seg = \<lparr>rq_transport = Tcp, rq_transactionId = 0, rq_slaveAddress = sg_slave seg,
     rq_functionCode = fcForRead (sg_rt seg), rq_startingAddress = sg_startAddr seg,
     rq_quantity = sg_qty seg, rq_registerValues = [], rq_coilBytes = []\<rparr>"

text \<open>\<open>onPollTick\<close>: the bytes given to the channel, if any, and the state.\<close>

definition onPollTick :: "(bytes \<Rightarrow> int) \<Rightarrow> PollDriver \<Rightarrow> bytes option \<times> PollDriver" where
  "onPollTick chWrite d =
     (if \<not> pd_running d then (None, d)
      else if pp_active (pd_pending d) then (None, scheduleNext d)
      else if pd_segments d = [] then (None, scheduleNext d)
      else
        let segmentIndex = pd_nextSegIdx d mod length (pd_segments d);
            seg = pd_segments d ! segmentIndex;
            sched = enqueue (pd_sched d) (normalTask (sg_slave seg) (sg_slave seg) 1000)
        in case dequeueNext sched (sg_slave seg) of (task, sched') \<Rightarrow>
          let d1 = d\<lparr>pd_nextSegIdx := pd_nextSegIdx d + 1, pd_sched := sched'\<rparr>
          in if \<not> isValid task then (None, scheduleNext d1)
             else (case writeRequest chWrite (pd_engine d1) (pollRequest seg) (ucast (sg_slave seg)) of
                     (n, frame, e') \<Rightarrow>
                       let d2 = d1\<lparr>pd_engine := e'\<rparr>
                       in if n < 0 then (frame, scheduleNext d2)
                          else (frame, scheduleNext (d2\<lparr>pd_pending :=
                            \<lparr>pp_linkId = ucast (sg_slave seg), pp_slave = sg_slave seg,
                             pp_functionCode = fcForRead (sg_rt seg), pp_startAddr = sg_startAddr seg,
                             pp_qty = sg_qty seg, pp_segmentIndex = segmentIndex, pp_active = True\<rparr>\<rparr>))))"

text \<open>The value of one point in a response, \<open>None\<close> where the code counts a dropped value.\<close>

definition pointValue :: "Segment \<Rightarrow> ModbusResponse \<Rightarrow> PointRuntime \<Rightarrow> fl option" where
  "pointValue seg resp pr =
     (let off = unat (pr_registerAddr pr) - unat (sg_startAddr seg)
      in if isBitType (sg_rt seg) then
           (let byteIndex = off div 8
            in if off \<ge> unat (sg_qty seg) \<or> byteIndex \<ge> length (rs_coilBytes resp) then None
               else let set = (rs_coilBytes resp ! byteIndex AND push_bit (off mod 8) 1 \<noteq> 0)
               in Some (fl_add round64 (fl_mul round64 (Fin (if set then 1 else 0)) (pr_scaleFactor pr)) (pr_offset pr)))
         else
           (let simF32 = (pr_dataType pr = Float32);
                cnt = (if simF32 then 1 else registerCountFor (pr_dataType pr))
            in if off + cnt > length (rs_registerValues resp) then None
               else if simF32
               then Some (fl_add round64 (fl_mul round64
                      (Fin (of_nat (unat (rs_registerValues resp ! off)))) (pr_scaleFactor pr)) (pr_offset pr))
               else (case reassembleBytes (Some (take cnt (drop off (rs_registerValues resp)))) (pr_byteOrder pr)
                            (Some (replicate 8 0)) 8 of
                       (blen, ob) \<Rightarrow>
                         if blen = 0 then None
                         else Some (decodeToEngineering (map_option (take blen) ob) (pr_dataType pr)
                                (pr_scaleFactor pr) (pr_offset pr)))))"

definition publish_sample :: "int \<Rightarrow> PointRuntime \<Rightarrow> fl \<Rightarrow> PollDriver \<Rightarrow> PollDriver" where
  "publish_sample now pr v d = d\<lparr>pd_bridge := bridge_push (pr_pointId pr, now, v) (pd_bridge d)\<rparr>"

definition onResponseParsed :: "int \<Rightarrow> u32 \<Rightarrow> u8 \<Rightarrow> ModbusResponse \<Rightarrow> PollDriver \<Rightarrow> PollDriver" where
  "onResponseParsed now linkId slave resp d =
     (let responseFc = rs_functionCode resp AND 0x7F; p = pd_pending d
      in if responseFc < 1 \<or> responseFc > 4 then d
         else if \<not> pp_active p \<or> linkId \<noteq> pp_linkId p \<or> slave \<noteq> pp_slave p \<or> responseFc \<noteq> pp_functionCode p then d
         else
           let ok = (\<not> rs_isException resp);
               d1 = d\<lparr>pd_sched := snd (onResponseReceived (pd_sched d) slave ok now),
                      pd_pending := p\<lparr>pp_active := False\<rparr>\<rparr>
           in if \<not> ok then d1
              else let seg = pd_segments d ! pp_segmentIndex p
              in fold (\<lambda>pr d. case pointValue seg resp pr of None \<Rightarrow> d | Some v \<Rightarrow> publish_sample now pr v d)
                   (sg_points seg) d1)"

definition onFrameError :: "int \<Rightarrow> u32 \<Rightarrow> u8 \<Rightarrow> FrameErrorKind \<Rightarrow> PollDriver \<Rightarrow> PollDriver" where
  "onFrameError now linkId slave kind d =
     (let p = pd_pending d
      in if pp_active p \<and> kind \<noteq> Exception \<and> kind \<noteq> Spurious \<and>
            (slave = 0 \<or> linkId = pp_linkId p \<and> slave = pp_slave p)
         then d\<lparr>pd_sched := snd (onResponseReceived (pd_sched d) (pp_slave p) False now),
                pd_pending := p\<lparr>pp_active := False\<rparr>\<rparr>
         else d)"

section \<open>The worker thread\<close>

text \<open>The slots connected to the signals of the engine run inside its receive loop; they do not
  touch the engine, so they are run here on its emissions in order.\<close>

fun onSignal :: "int \<Rightarrow> EngineSignal \<Rightarrow> PollDriver \<Rightarrow> PollDriver" where
  "onSignal now (ResponseParsed l s r) d = onResponseParsed now l s r d"
| "onSignal now (FrameError l s k) d = onFrameError now l s k d"

datatype WorkerEvent = StartPolling int | StopPolling | ResetPending | TimerFired
  | DataReceived int bytes | ConnectionChanged bool | WriteCommand ModbusRequest

text \<open>One turn of the event loop; \<open>TimerFired\<close> needs a pending timer.\<close>

definition worker_step :: "(bytes \<Rightarrow> int) \<Rightarrow> WorkerEvent \<Rightarrow> PollDriver \<Rightarrow> bytes option \<times> PollDriver" where
  "worker_step chWrite ev d =
     (case ev of
        StartPolling ms \<Rightarrow> (None, startPolling ms d)
      | StopPolling \<Rightarrow> (None, stopPolling d)
      | ResetPending \<Rightarrow> (None, resetPending d)
      | TimerFired \<Rightarrow>
          (if pd_timers d = 0 then (None, d) else onPollTick chWrite (d\<lparr>pd_timers := pd_timers d - 1\<rparr>))
      | DataReceived now data \<Rightarrow>
          (case onBytesReceived (pd_engine d) data of (sigs, e') \<Rightarrow>
             (None, fold (onSignal now) sigs (d\<lparr>pd_engine := e'\<rparr>)))
      | ConnectionChanged up \<Rightarrow> (None, d\<lparr>pd_engine := onConnectionChanged (pd_engine d) up\<rparr>)
      | WriteCommand req \<Rightarrow>
          (case writeRequest chWrite (pd_engine d) req 1 of (n, frame, e') \<Rightarrow>
             (frame, d\<lparr>pd_engine := e'\<rparr>)))"

fun worker_run :: "(bytes \<Rightarrow> int) \<Rightarrow> WorkerEvent list \<Rightarrow> PollDriver \<Rightarrow> bytes list \<times> PollDriver" where
  "worker_run chWrite [] d = ([], d)"
| "worker_run chWrite (ev # evs) d =
     (case worker_step chWrite ev d of (out, d1) \<Rightarrow>
      case worker_run chWrite evs d1 of (outs, d2) \<Rightarrow>
        ((case out of None \<Rightarrow> [] | Some f \<Rightarrow> [f]) @ outs, d2))"

section \<open>The segments cover the points\<close>

definition addr :: "PointRuntime \<Rightarrow> nat" where
  "addr p = unat (pr_registerAddr p)"

definition covered :: "nat \<Rightarrow> nat \<Rightarrow> PointRuntime list \<Rightarrow> bool" where
  "covered s e ps \<longleftrightarrow> (\<forall>p \<in> set ps. s \<le> addr p \<and> addr p + pointWidth p \<le> e) \<and>
     (\<forall>a. s \<le> a \<longrightarrow> a < e \<longrightarrow> (\<exists>p \<in> set ps. addr p \<le> a \<and> a < addr p + pointWidth p))"

definition max_qty :: "RegisterType \<Rightarrow> nat" where
  "max_qty rt = (if isBitType rt then kMaxBitsPerRead else kMaxRegistersPerRead)"

text \<open>A segment asks for a contiguous range of at most the limit of the protocol, holds points of
  one slave and one register type, each inside of the range, and no register of the range is
  asked for in vain.\<close>

definition segment_ok :: "Segment \<Rightarrow> bool" where
  "segment_ok seg \<longleftrightarrow> sg_points seg \<noteq> [] \<and> (\<forall>p \<in> set (sg_points seg). group_key p = (sg_slave seg, sg_rt seg)) \<and>
     0 < unat (sg_qty seg) \<and> unat (sg_qty seg) \<le> max_qty (sg_rt seg) \<and>
     covered (unat (sg_startAddr seg)) (unat (sg_startAddr seg) + unat (sg_qty seg)) (sg_points seg)"

lemma pointWidth_bounds: "1 \<le> pointWidth p" "pointWidth p \<le> 4"
  by (cases "pr_dataType p"; simp add: pointWidth_def)+

lemma max_qty_bounds: "4 \<le> max_qty rt" "max_qty rt < 65536"
  by (simp_all add: max_qty_def kMaxBitsPerRead_def kMaxRegistersPerRead_def)

definition cur_ok :: "u8 \<times> RegisterType \<Rightarrow> Segment \<Rightarrow> nat \<Rightarrow> bool" where
  "cur_ok key cur e \<longleftrightarrow> sg_points cur \<noteq> [] \<longrightarrow>
     (sg_slave cur, sg_rt cur) = key \<and> (\<forall>p \<in> set (sg_points cur). group_key p = key) \<and>
     unat (sg_startAddr cur) < e \<and> e - unat (sg_startAddr cur) \<le> max_qty (snd key) \<and>
     covered (unat (sg_startAddr cur)) e (sg_points cur)"

definition seg_inv ::
  "u8 \<times> RegisterType \<Rightarrow> PointRuntime list \<Rightarrow> Segment list \<times> Segment \<times> nat \<Rightarrow> bool" where
  "seg_inv key ps acc \<longleftrightarrow> (case acc of (segs, cur, e) \<Rightarrow>
     concat (map sg_points segs) @ sg_points cur = ps \<and> (\<forall>seg \<in> set segs. segment_ok seg) \<and> cur_ok key cur e)"

lemma close_ok:
  assumes "cur_ok key cur e" and "sg_points cur \<noteq> []"
  shows "segment_ok (cur\<lparr>sg_qty := of_nat (e - unat (sg_startAddr cur))\<rparr>)"
proof -
  let ?s = "unat (sg_startAddr cur)"
  have "e - ?s \<le> max_qty (snd key)" and "?s < e" and key: "(sg_slave cur, sg_rt cur) = key"
    using assms by (auto simp: cur_ok_def)
  moreover from this have "unat (of_nat (e - ?s) :: u16) = e - ?s"
    using max_qty_bounds(2) [of "snd key"] by (intro unat_word_small [OF refl]) simp
  ultimately show ?thesis using assms by (auto simp: cur_ok_def segment_ok_def)
qed

lemma closeSegment_inv:
  assumes "seg_inv key ps (segs, cur, e)"
  shows "concat (map sg_points (closeSegment segs cur e)) = ps" and "\<forall>seg \<in> set (closeSegment segs cur e). segment_ok seg"
  using assms close_ok [of key cur e] by (auto simp: seg_inv_def closeSegment_def)

lemma covered_append:
  assumes "covered s e ps" and "s \<le> addr p" and "addr p \<le> e"
  shows "covered s (max e (addr p + pointWidth p)) (ps @ [p])"
  unfolding covered_def
proof (intro conjI allI impI)
  show "\<forall>q \<in> set (ps @ [p]). s \<le> addr q \<and> addr q + pointWidth q \<le> max e (addr p + pointWidth p)"
    using assms by (auto simp: covered_def)
next
  fix a
  assume "s \<le> a" and a: "a < max e (addr p + pointWidth p)"
  show "\<exists>q \<in> set (ps @ [p]). addr q \<le> a \<and> a < addr q + pointWidth q"
  proof (cases "a < e")
    case True
    then show ?thesis using assms(1) \<open>s \<le> a\<close> by (auto simp: covered_def)
  next
    case False
    then show ?thesis using a assms(3) by auto
  qed
qed

lemma segStep_inv:
  assumes inv: "seg_inv key ps acc" and after: "\<forall>q \<in> set ps. addr q \<le> addr pr" and key: "group_key pr = key"
  shows "seg_inv key (ps @ [pr]) (segStep key (max_qty (snd key)) pr acc)"
proof -
  obtain segs cur e where acc: "acc = (segs, cur, e)" by (cases acc)
  note w = pointWidth_bounds [of pr] and m = max_qty_bounds [of "snd key"]
  let ?stop = "addr pr + pointWidth pr"
  let ?split = "sg_points cur = [] \<or> addr pr > e \<or> ?stop - unat (sg_startAddr cur) > max_qty (snd key)"
  show ?thesis
  proof (cases ?split)
    case True
    have "segStep key (max_qty (snd key)) pr acc = (closeSegment segs cur e,
        emptySegment\<lparr>sg_slave := fst key, sg_rt := snd key, sg_startAddr := pr_registerAddr pr,
          sg_points := [pr]\<rparr>, ?stop)"
      using True by (simp add: segStep_def acc Let_def addr_def emptySegment_def)
    moreover have "covered (addr pr) ?stop [pr]" by (auto simp: covered_def)
    ultimately show ?thesis
      using closeSegment_inv [OF inv [unfolded acc]] w m key
      by (simp add: seg_inv_def cur_ok_def addr_def emptySegment_def)
  next
    case False
    then have ne: "sg_points cur \<noteq> []" by simp
    have step: "segStep key (max_qty (snd key)) pr acc = (segs, cur\<lparr>sg_points := sg_points cur @ [pr]\<rparr>, max e ?stop)"
      using False by (simp add: segStep_def acc Let_def addr_def)
    have cur: "cur_ok key cur e" and ps: "concat (map sg_points segs) @ sg_points cur = ps"
      and segs: "\<forall>seg \<in> set segs. segment_ok seg"
      using inv by (simp_all add: seg_inv_def acc)
    obtain q where q: "q \<in> set (sg_points cur)" using ne by (cases "sg_points cur") auto
    then have "addr q \<le> addr pr" using after ps by auto
    moreover have "unat (sg_startAddr cur) \<le> addr q" using cur ne q by (auto simp: cur_ok_def covered_def)
    ultimately have start: "unat (sg_startAddr cur) \<le> addr pr" by simp
    then have "covered (unat (sg_startAddr cur)) (max e ?stop) (sg_points cur @ [pr])"
      using cur ne False by (intro covered_append) (auto simp: cur_ok_def)
    moreover have "max e ?stop - unat (sg_startAddr cur) \<le> max_qty (snd key)"
      using cur ne False by (auto simp: cur_ok_def max_def)
    ultimately show ?thesis
      using cur ne key start w ps segs by (auto simp: step seg_inv_def cur_ok_def)
  qed
qed

lemma fold_segStep:
  "seg_inv key ps acc \<Longrightarrow> sorted_wrt (\<lambda>p q. addr p \<le> addr q) (ps @ qs) \<Longrightarrow> \<forall>q \<in> set qs. group_key q = key \<Longrightarrow>
    seg_inv key (ps @ qs) (fold (segStep key (max_qty (snd key))) qs acc)"
proof (induction qs arbitrary: ps acc)
  case (Cons q qs)
  have "\<forall>p \<in> set ps. addr p \<le> addr q" using Cons.prems(2) by (simp add: sorted_wrt_append)
  then have "seg_inv key (ps @ [q]) (segStep key (max_qty (snd key)) q acc)"
    using segStep_inv [OF Cons.prems(1)] Cons.prems(3) by simp
  from Cons.IH [OF this] Cons.prems(2,3) show ?case by simp
qed simp

lemma segmentsOf_ok:
  assumes "sorted_wrt (\<lambda>p q. addr p \<le> addr q) ps" and "\<forall>p \<in> set ps. group_key p = key"
  shows "concat (map sg_points (segmentsOf key ps)) = ps" and "\<forall>seg \<in> set (segmentsOf key ps). segment_ok seg"
proof -
  let ?acc = "fold (segStep key (max_qty (snd key))) ps ([], emptySegment, 0)"
  obtain segs cur e where acc: "?acc = (segs, cur, e)" by (cases ?acc)
  have "seg_inv key [] ([], emptySegment, 0)" by (simp add: seg_inv_def cur_ok_def emptySegment_def)
  from fold_segStep [OF this, of ps] assms have "seg_inv key ps (segs, cur, e)" by (simp add: acc)
  moreover have "segmentsOf key ps = closeSegment segs cur e"
    using acc by (simp add: segmentsOf_def Let_def max_qty_def)
  ultimately show "concat (map sg_points (segmentsOf key ps)) = ps" and "\<forall>seg \<in> set (segmentsOf key ps). segment_ok seg"
    using closeSegment_inv by metis+
qed

lemma sort_point_order: "sorted_wrt (\<lambda>p q. addr p \<le> addr q) (sort_key point_order ps)"
proof -
  have mono: "point_order p \<le> point_order q \<Longrightarrow> addr p \<le> addr q" for p q
  proof (rule ccontr)
    assume le: "point_order p \<le> point_order q" and "\<not> addr p \<le> addr q"
    then have "(addr q + 1) * 2 ^ 32 \<le> addr p * 2 ^ 32" by (intro mult_right_mono) simp_all
    moreover have "unat (pr_pointId q) < 2 ^ 32" by (rule order_less_le_trans [OF unsigned_less]) simp
    ultimately show False using le by (simp add: point_order_def addr_def)
  qed
  have "sorted_wrt (\<lambda>p q. point_order p \<le> point_order q) (sort_key point_order ps)"
    using sorted_sort_key [of point_order ps] by (simp add: sorted_map)
  then show ?thesis by (rule sorted_wrt_mono_rel [rotated]) (rule mono)
qed

lemma mset_groups:
  "distinct ks \<Longrightarrow> f ` set xs \<subseteq> set ks \<Longrightarrow>
    (\<Sum>k \<leftarrow> ks. mset (filter (\<lambda>x. f x = k) xs)) = mset xs"
proof (induction ks arbitrary: xs)
  case (Cons k ks)
  let ?ys = "filter (\<lambda>x. f x \<noteq> k) xs"
  have "(\<Sum>k \<leftarrow> ks. mset (filter (\<lambda>x. f x = k) ?ys)) = mset ?ys"
    using Cons.prems by (intro Cons.IH) auto
  moreover have "filter (\<lambda>x. f x = k') ?ys = filter (\<lambda>x. f x = k') xs" if "k' \<in> set ks" for k'
    using Cons.prems(1) that by (auto intro: filter_cong)
  then have "(\<Sum>k \<leftarrow> ks. mset (filter (\<lambda>x. f x = k) ?ys)) = (\<Sum>k \<leftarrow> ks. mset (filter (\<lambda>x. f x = k) xs))"
    by (intro arg_cong [where f = sum_list] map_cong) simp_all
  ultimately show ?case using multiset_partition [of "mset xs" "\<lambda>x. f x = k"] by simp
qed simp

lemma mset_concat_map: "mset (concat (map g ks)) = (\<Sum>k \<leftarrow> ks. mset (g k))"
  by (induction ks) simp_all

lemma concat_concat_map: "concat (map h (concat (map f ks))) = concat (map (\<lambda>k. concat (map h (f k))) ks)"
  by (induction ks) simp_all

lemma buildSegments_ok:
  "mset (concat (map sg_points (buildSegments pt))) = mset (filter pr_enabled (allPoints pt)) \<and>
   (\<forall>seg \<in> set (buildSegments pt). segment_ok seg)"
proof -
  let ?ps = "filter pr_enabled (allPoints pt)"
  let ?g = "\<lambda>key. sort_key point_order (filter (\<lambda>p. group_key p = key) ?ps)"
  have seg: "concat (map sg_points (segmentsOf key (?g key))) = ?g key"
    "\<forall>seg \<in> set (segmentsOf key (?g key)). segment_ok seg" for key
    using segmentsOf_ok [OF sort_point_order, of "filter (\<lambda>p. group_key p = key) ?ps" key] by simp_all
  have "concat (map sg_points (buildSegments pt)) = concat (map ?g (group_keys ?ps))"
    unfolding buildSegments_def Let_def concat_concat_map seg(1) ..
  also have "mset \<dots> = (\<Sum>key \<leftarrow> group_keys ?ps. mset (filter (\<lambda>p. group_key p = key) ?ps))"
    unfolding mset_concat_map by (simp add: comp_def)
  also have "\<dots> = mset ?ps" by (rule mset_groups) (auto simp: group_keys_def)
  finally show ?thesis using seg(2) by (auto simp: buildSegments_def Let_def)
qed

text \<open>The segments hold every enabled point of the table exactly once; each segment is
  one valid read: at most 125 registers or 2000 bits of one slave and type, every point of it
  inside of the range, no register or bit of the range outside of its points.\<close>

theorem segments_cover:
  "mset (concat (map sg_points (buildSegments pt))) = mset (filter pr_enabled (allPoints pt)) \<and>
   (\<forall>seg \<in> set (buildSegments pt). segment_ok seg)"
  by (rule buildSegments_ok)

definition seg_point :: "u32 \<Rightarrow> u16 \<Rightarrow> bool \<Rightarrow> PointRuntime" where
  "seg_point i a en = \<lparr>pr_pointId = i, pr_linkId = 7, pr_slaveAddress = 7, pr_regType = HoldingRegister,
     pr_dataType = Uint16, pr_byteOrder = ABCD, pr_registerAddr = a, pr_scaleFactor = Fin 1, pr_offset = Fin 0,
     pr_pollIntervalMs = 100, pr_priority = 1, pr_enabled = en, pr_pointName = [], pr_unit = []\<rparr>"

definition demo_three :: PointTable where
  "demo_three = \<lparr>m_byPointId = [(1, seg_point 1 16 True), (2, seg_point 2 17 True), (3, seg_point 3 18 False)],
     m_byAddr = [kAddrKey 7 16 \<mapsto> 1, kAddrKey 7 17 \<mapsto> 2, kAddrKey 7 18 \<mapsto> 3], m_bySlave = [7 \<mapsto> [1, 2, 3]]\<rparr>"

theorem segments_cover_witness:
  "mset (concat (map sg_points (buildSegments demo_three))) = {#seg_point 1 16 True, seg_point 2 17 True#} \<and>
   list_all segment_ok (buildSegments demo_three)"
  using segments_cover [of demo_three]
  by (simp add: list_all_iff allPoints_def demo_three_def) (simp add: seg_point_def)

section \<open>One poll at a time\<close>

text \<open>The link of a polled slave: full duplex, with empty queues.\<close>

definition link_ready :: "Scheduler \<Rightarrow> u8 \<Rightarrow> bool" where
  "link_ready s l \<longleftrightarrow> (\<exists>k. m_links s l = Some k \<and> \<not> isHalfDuplex (params k) \<and>
     highPriorityQueue k = [] \<and> normalQueue k = [] \<and> lowPriorityQueue k = [])"

lemma link_ready_poll:
  assumes "link_ready s l" and "dequeueNext (enqueue s (normalTask l l ms)) l = (task, s')"
  shows "task = normalTask l l ms" and "link_ready s l' \<Longrightarrow> link_ready s' l'"
  using assms
  by (auto simp: link_ready_def dequeueNext_def enqueue_def link_at_def enqueueLink_def normalTask_def
      emptyTask_def dequeueLink_def Let_def split: prod.splits if_splits)

lemma link_ready_response [simp]:
  "link_ready (snd (onResponseReceived s sid ok now)) l = link_ready s l"
  by (auto simp: link_ready_def onResponseReceived_def Let_def split: option.splits prod.splits)

inductive driver_reach :: "PointTable \<Rightarrow> (bytes \<Rightarrow> int) \<Rightarrow> PollDriver \<Rightarrow> bool" for pt w where
  new: "driver_reach pt w (driver_new (engine_new True Tcp) scheduler_new pt)"
| step: "driver_reach pt w d \<Longrightarrow> worker_step w ev d = (out, d') \<Longrightarrow> driver_reach pt w d'"

definition driver_inv :: "PointTable \<Rightarrow> PollDriver \<Rightarrow> bool" where
  "driver_inv pt d \<longleftrightarrow> engine_reach Tcp (pd_engine d) \<and> pd_segments d = buildSegments pt \<and>
     (\<forall>seg \<in> set (pd_segments d). link_ready (pd_sched d) (sg_slave seg))"

lemma scheduleNext_fields [simp]:
  "pd_engine (scheduleNext d) = pd_engine d" "pd_segments (scheduleNext d) = pd_segments d"
  "pd_sched (scheduleNext d) = pd_sched d" "pd_pending (scheduleNext d) = pd_pending d"
  "pd_bridge (scheduleNext d) = pd_bridge d" "pd_running (scheduleNext d) = pd_running d"
  by (simp_all add: scheduleNext_def)

lemma publish_fold_fields:
  "pd_engine (fold (\<lambda>pr d. case f pr of None \<Rightarrow> d | Some v \<Rightarrow> publish_sample now pr v d) ps d) = pd_engine d"
  "pd_segments (fold (\<lambda>pr d. case f pr of None \<Rightarrow> d | Some v \<Rightarrow> publish_sample now pr v d) ps d) = pd_segments d"
  "pd_sched (fold (\<lambda>pr d. case f pr of None \<Rightarrow> d | Some v \<Rightarrow> publish_sample now pr v d) ps d) = pd_sched d"
  "pd_pending (fold (\<lambda>pr d. case f pr of None \<Rightarrow> d | Some v \<Rightarrow> publish_sample now pr v d) ps d) = pd_pending d"
  by (induction ps arbitrary: d) (simp_all add: publish_sample_def split: option.split)

lemma driver_inv_signal: "driver_inv pt d \<Longrightarrow> driver_inv pt (onSignal now sig d)"
  by (cases sig) (simp_all add: driver_inv_def onResponseParsed_def onFrameError_def Let_def publish_fold_fields)

lemma driver_inv_signals: "driver_inv pt d \<Longrightarrow> driver_inv pt (fold (onSignal now) sigs d)"
  by (induction sigs arbitrary: d) (simp_all add: driver_inv_signal)

lemma driver_inv_engine:
  "driver_inv pt d \<Longrightarrow> engine_reach Tcp e \<Longrightarrow> driver_inv pt (d\<lparr>pd_engine := e\<rparr>)"
  by (simp add: driver_inv_def)

lemma next_segment:
  "pd_segments d \<noteq> [] \<Longrightarrow> pd_segments d ! (pd_nextSegIdx d mod length (pd_segments d)) \<in> set (pd_segments d)"
  by simp

text \<open>What a tick of an idle, running driver does.\<close>

lemma tick_sends:
  assumes inv: "driver_inv pt d" and run: "pd_running d" and idle: "\<not> pp_active (pd_pending d)"
    and ne: "pd_segments d \<noteq> []"
    and seg: "seg = pd_segments d ! (pd_nextSegIdx d mod length (pd_segments d))"
    and slave: "sg_slave seg \<noteq> 0"
    and wr: "writeRequest w (pd_engine d) (pollRequest seg) (ucast (sg_slave seg)) = (n, frame, e')"
  obtains s' where "onPollTick w d = (frame, scheduleNext (d\<lparr>pd_nextSegIdx := pd_nextSegIdx d + 1, pd_sched := s',
      pd_engine := e', pd_pending := (if n < 0 then pd_pending d else
        \<lparr>pp_linkId = ucast (sg_slave seg), pp_slave = sg_slave seg, pp_functionCode = fcForRead (sg_rt seg),
         pp_startAddr = sg_startAddr seg, pp_qty = sg_qty seg,
         pp_segmentIndex = pd_nextSegIdx d mod length (pd_segments d), pp_active = True\<rparr>)\<rparr>))"
    and "\<And>l. link_ready (pd_sched d) l \<Longrightarrow> link_ready s' l"
proof -
  have "link_ready (pd_sched d) (sg_slave seg)" using inv next_segment [OF ne] seg by (simp add: driver_inv_def)
  moreover obtain task s' where deq:
    "dequeueNext (enqueue (pd_sched d) (normalTask (sg_slave seg) (sg_slave seg) 1000)) (sg_slave seg) = (task, s')"
    by fastforce
  ultimately have "task = normalTask (sg_slave seg) (sg_slave seg) 1000"
    and ready: "\<And>l. link_ready (pd_sched d) l \<Longrightarrow> link_ready s' l"
    using link_ready_poll by blast+
  then have "isValid task" using slave by (simp add: isValid_def normalTask_def)
  then have "onPollTick w d = (frame, scheduleNext (d\<lparr>pd_nextSegIdx := pd_nextSegIdx d + 1, pd_sched := s',
      pd_engine := e', pd_pending := (if n < 0 then pd_pending d else
        \<lparr>pp_linkId = ucast (sg_slave seg), pp_slave = sg_slave seg, pp_functionCode = fcForRead (sg_rt seg),
         pp_startAddr = sg_startAddr seg, pp_qty = sg_qty seg,
         pp_segmentIndex = pd_nextSegIdx d mod length (pd_segments d), pp_active = True\<rparr>)\<rparr>))"
    using run idle ne wr deq by (auto simp: onPollTick_def Let_def seg [symmetric])
  with ready show thesis by (rule that [rotated])
qed

lemma driver_inv_tick:
  assumes inv: "driver_inv pt d" and tick: "onPollTick w d = (out, d')"
  shows "driver_inv pt d'"
proof (cases "pd_running d \<and> \<not> pp_active (pd_pending d) \<and> pd_segments d \<noteq> []")
  case False
  then have "d' = d \<or> d' = scheduleNext d" using tick
    by (cases "pd_running d"; cases "pp_active (pd_pending d)"; cases "pd_segments d = []") (auto simp: onPollTick_def)
  then show ?thesis using inv by (auto simp: driver_inv_def)
next
  case True
  let ?seg = "pd_segments d ! (pd_nextSegIdx d mod length (pd_segments d))"
  let ?l = "sg_slave ?seg"
  have ready: "link_ready (pd_sched d) ?l" using inv True next_segment [of d] by (auto simp: driver_inv_def)
  obtain task s' where deq: "dequeueNext (enqueue (pd_sched d) (normalTask ?l ?l 1000)) ?l = (task, s')" by fastforce
  obtain n frame e' where wr: "writeRequest w (pd_engine d) (pollRequest ?seg) (ucast ?l) = (n, frame, e')"
    using prod_cases3 by blast
  have links: "link_ready (pd_sched d) l \<Longrightarrow> link_ready s' l" for l by (rule link_ready_poll(2) [OF ready deq])
  have "pd_segments d' = pd_segments d" "pd_sched d' = s'" "pd_engine d' = pd_engine d \<or> pd_engine d' = e'"
    using tick True deq wr by (auto simp: onPollTick_def Let_def split: if_splits)
  moreover have "engine_reach Tcp e'" using inv wr by (auto simp: driver_inv_def intro: engine_reach.write_step)
  ultimately show ?thesis using inv links by (auto simp: driver_inv_def)
qed

lemma setLinkParams_ready:
  "link_ready (setLinkParams s sid (defaultParams\<lparr>isHalfDuplex := False\<rparr>)) l \<longleftrightarrow>
     (if l = sid then m_links s sid = None \<or> (\<exists>k. m_links s sid = Some k \<and>
        highPriorityQueue k = [] \<and> normalQueue k = [] \<and> lowPriorityQueue k = [])
      else link_ready s l)"
  by (auto simp: link_ready_def setLinkParams_def link_at_def newLink_def split: option.split)

lemma links_of_new:
  "l \<in> set sids \<or> link_ready s l \<Longrightarrow> \<forall>l. m_links s l = None \<or> link_ready s l \<Longrightarrow>
    link_ready (fold (\<lambda>sid s. setLinkParams s sid (defaultParams\<lparr>isHalfDuplex := False\<rparr>)) sids s) l"
proof (induction sids arbitrary: s)
  case (Cons sid sids)
  let ?s = "setLinkParams s sid (defaultParams\<lparr>isHalfDuplex := False\<rparr>)"
  have "m_links s sid = None \<or> link_ready s sid" using Cons.prems(2) by blast
  then have ready: "link_ready ?s sid" unfolding setLinkParams_ready by (auto simp: link_ready_def)
  have other: "m_links ?s l' = None \<or> link_ready ?s l'" for l'
  proof (cases "l' = sid")
    case True
    then show ?thesis using ready by simp
  next
    case False
    then show ?thesis using Cons.prems(2) [THEN spec, of l'] by (simp add: setLinkParams_ready) (simp add: setLinkParams_def)
  qed
  have "l \<in> set sids \<or> link_ready ?s l"
  proof (cases "l = sid")
    case True
    then show ?thesis using ready by simp
  next
    case False
    then show ?thesis using Cons.prems(1) by (simp add: setLinkParams_ready)
  qed
  from Cons.IH [OF this] other show ?case by simp
qed simp

lemma segment_slave:
  assumes "seg \<in> set (buildSegments pt)"
  shows "sg_slave seg \<in> pr_slaveAddress ` set (filter pr_enabled (allPoints pt))"
proof -
  from assms have ok: "segment_ok seg" using buildSegments_ok by blast
  then obtain p where p: "p \<in> set (sg_points seg)" "pr_slaveAddress p = sg_slave seg"
    by (cases "sg_points seg") (auto simp: segment_ok_def group_key_def)
  have "p \<in># mset (concat (map sg_points (buildSegments pt)))" using p(1) assms by auto
  then have "p \<in># mset (filter pr_enabled (allPoints pt))" using buildSegments_ok by metis
  with p(2) show ?thesis by (metis image_eqI set_mset_mset)
qed

lemma driver_inv_new: "driver_inv pt (driver_new (engine_new True Tcp) scheduler_new pt)"
proof -
  have "\<forall>l. m_links scheduler_new l = None \<or> link_ready scheduler_new l" by (simp add: scheduler_new_def)
  then show ?thesis
    using segment_slave [of _ pt]
    by (auto simp: driver_inv_def driver_new_def Let_def intro!: engine_reach.new links_of_new)
qed

lemma driver_inv_step:
  assumes inv: "driver_inv pt d" and step: "worker_step w ev d = (out, d')"
  shows "driver_inv pt d'"
proof (cases ev)
  case TimerFired
  have "driver_inv pt (d\<lparr>pd_timers := pd_timers d - 1\<rparr>)" using inv by (simp add: driver_inv_def)
  with inv step TimerFired driver_inv_tick show ?thesis by (auto simp: worker_step_def split: if_splits)
next
  case (DataReceived now data)
  obtain sigs e' where rx: "onBytesReceived (pd_engine d) data = (sigs, e')" by fastforce
  then have "engine_reach Tcp e'" using inv by (auto simp: driver_inv_def intro: engine_reach.bytes)
  then show ?thesis
    using step DataReceived rx driver_inv_signals [OF driver_inv_engine [OF inv]] by (auto simp: worker_step_def)
next
  case (WriteCommand req)
  obtain n frame e' where wr: "writeRequest w (pd_engine d) req 1 = (n, frame, e')" using prod_cases3 by blast
  then have "engine_reach Tcp e'" using inv by (auto simp: driver_inv_def intro: engine_reach.write_step)
  then show ?thesis using step WriteCommand wr driver_inv_engine [OF inv] by (auto simp: worker_step_def)
next
  case (ConnectionChanged up)
  then show ?thesis
    using step inv driver_inv_engine [OF inv engine_reach.connection [of Tcp "pd_engine d" up]]
    by (auto simp: worker_step_def driver_inv_def)
qed (use step inv in \<open>auto simp: worker_step_def driver_inv_def startPolling_def stopPolling_def resetPending_def\<close>)

lemma driver_reach_inv: "driver_reach pt w d \<Longrightarrow> driver_inv pt d"
proof (induction rule: driver_reach.induct)
  case (step d ev out d')
  then show ?case using driver_inv_step by blast
qed (rule driver_inv_new)

text \<open>The events that do not end the wait for a response.\<close>

fun is_waiting :: "WorkerEvent \<Rightarrow> bool" where
  "is_waiting (DataReceived _ _) = False"
| "is_waiting ResetPending = False"
| "is_waiting (WriteCommand _) = False"
| "is_waiting _ = True"

lemma waiting_step:
  "pp_active (pd_pending d) \<Longrightarrow> is_waiting ev \<Longrightarrow>
    fst (worker_step w ev d) = None \<and> pd_pending (snd (worker_step w ev d)) = pd_pending d"
  by (cases ev) (simp_all add: worker_step_def startPolling_def stopPolling_def onPollTick_def)

text \<open>While a poll waits for its response the driver sends no other: whatever timers
  fire and however often polling is stopped and started or the engine told of the connection,
  nothing is written and the poll stays pending until bytes arrive or the pending poll is reset.
  There is no time limit on a response.\<close>

theorem poll_waits_for_response:
  "pp_active (pd_pending d) \<Longrightarrow> \<forall>ev \<in> set evs. is_waiting ev \<Longrightarrow>
    fst (worker_run w evs d) = [] \<and> pd_pending (snd (worker_run w evs d)) = pd_pending d"
proof (induction evs arbitrary: d)
  case (Cons ev evs)
  obtain out d1 where step: "worker_step w ev d = (out, d1)" by fastforce
  with waiting_step [OF Cons.prems(1), of ev w] Cons.prems(2) have "out = None" "pd_pending d1 = pd_pending d" by simp_all
  with Cons.IH [of d1] Cons.prems step show ?case by (simp split: prod.split)
qed simp

definition demo_waiting :: PollDriver where
  "demo_waiting = (driver_new (engine_new True Tcp) scheduler_new point_table_new)
     \<lparr>pd_running := True, pd_timers := 1, pd_pending := noPending\<lparr>pp_slave := 3, pp_active := True\<rparr>\<rparr>"

theorem poll_waits_for_response_witness:
  "fst (worker_run (\<lambda>f. int (length f)) [TimerFired, TimerFired, StopPolling, StartPolling 100, TimerFired] demo_waiting) = [] \<and>
   pp_active (pd_pending (snd (worker_run (\<lambda>f. int (length f)) [TimerFired, TimerFired, StopPolling, StartPolling 100, TimerFired] demo_waiting)))"
proof -
  let ?evs = "[TimerFired, TimerFired, StopPolling, StartPolling 100, TimerFired]"
  have active: "pp_active (pd_pending demo_waiting)" by (simp add: demo_waiting_def)
  have "\<forall>ev \<in> set ?evs. is_waiting ev" by simp
  from poll_waits_for_response [OF active this, of "\<lambda>f. int (length f)"] active show ?thesis
    by (simp del: worker_run.simps)
qed

end
