(* ===== verification/PollEndToEnd.thy ===== *)
theory PollEndToEnd
  imports PollDriver EndToEnd
begin

text \<open>
  A poll of the station application against the simulator: the driver's tick frames the read of a
  segment, the simulator answers it from a register bank, and the values of the points reach the
  bridge to the main thread. The two programs share no code.
\<close>

section \<open>What the registers of a device hold\<close>

text \<open>The number a device holds for a point: a big-endian bit pattern in the byte order of the
  point, over the registers of its data type. For the data type \<open>Float32\<close> the driver follows the
  simulator, which holds an unscaled number in a single register.\<close>

definition holds_value :: "SlaveRegset \<Rightarrow> PointRuntime \<Rightarrow> fl \<Rightarrow> bool" where
  "holds_value rg p v \<longleftrightarrow>
     (if pr_dataType p = Float32 then v = Fin (of_nat (unat (getHolding rg (pr_registerAddr p))))
      else let n = registerCountFor (pr_dataType p)
      in pr_dataType p \<noteq> Bool \<and> (pr_byteOrder p = CDAB \<longrightarrow> n \<noteq> 1) \<and>
         (\<exists>raw. length raw = 2 * n \<and> v = raw_value (pr_dataType p) raw \<and>
           map (\<lambda>i. getHolding rg (pr_registerAddr p + of_nat i)) [0..<n] = words_be (wire (pr_byteOrder p) raw)))"

definition scaled :: "PointRuntime \<Rightarrow> fl \<Rightarrow> fl" where
  "scaled p v = fl_add round64 (fl_mul round64 v (pr_scaleFactor p)) (pr_offset p)"

lemma read_slice:
  assumes off: "unat s \<le> addr p" "addr p + n \<le> unat s + q"
  shows "take n (drop (addr p - unat s) (map (\<lambda>i. getHolding rg (s + of_nat i)) [0..<q])) =
    map (\<lambda>i. getHolding rg (pr_registerAddr p + of_nat i)) [0..<n]"
proof (rule nth_equalityI)
  show "length (take n (drop (addr p - unat s) (map (\<lambda>i. getHolding rg (s + of_nat i)) [0..<q]))) =
      length (map (\<lambda>i. getHolding rg (pr_registerAddr p + of_nat i)) [0..<n])"
    using off by simp
next
  fix i
  assume "i < length (take n (drop (addr p - unat s) (map (\<lambda>i. getHolding rg (s + of_nat i)) [0..<q])))"
  then have i: "i < n" "addr p - unat s + i < q" using off by auto
  have "of_nat (addr p - unat s) = pr_registerAddr p - s"
    using off(1) by (simp add: addr_def of_nat_diff)
  then have "s + of_nat (addr p - unat s + i) = pr_registerAddr p + of_nat i" by simp
  with i show "take n (drop (addr p - unat s) (map (\<lambda>i. getHolding rg (s + of_nat i)) [0..<q])) ! i =
      map (\<lambda>i. getHolding rg (pr_registerAddr p + of_nat i)) [0..<n] ! i"
    by (simp del: of_nat_add)
qed

lemma pointValue_read:
  assumes rt: "sg_rt seg = HoldingRegister" and p: "group_key p = (sg_slave seg, sg_rt seg)"
    and inside: "unat (sg_startAddr seg) \<le> addr p" "addr p + pointWidth p \<le> unat (sg_startAddr seg) + unat (sg_qty seg)"
    and regs: "rs_registerValues resp = map (\<lambda>i. getHolding rg (sg_startAddr seg + of_nat i)) [0..<unat (sg_qty seg)]"
    and holds: "holds_value rg p v"
  shows "pointValue seg resp p = Some (scaled p v)"
proof -
  let ?off = "addr p - unat (sg_startAddr seg)" and ?n = "registerCountFor (pr_dataType p)"
  have word: "\<not> isBitType (sg_rt seg)" using rt by (simp add: isBitType_def)
  have "pr_regType p = HoldingRegister" using p rt by (simp add: group_key_def)
  then have w: "pointWidth p = ?n" by (simp add: pointWidth_def isBitType_def)
  have n: "?n \<in> {1, 2, 4}" by (cases "pr_dataType p") simp_all
  note slice = read_slice [OF inside(1), of _ "unat (sg_qty seg)" rg]
  show ?thesis
  proof (cases "pr_dataType p = Float32")
    case True
    then have one: "addr p + 1 \<le> unat (sg_startAddr seg) + unat (sg_qty seg)" using inside(2) w by simp
    then have lt: "?off < unat (sg_qty seg)" using inside(1) by simp
    have "take 1 (drop ?off (rs_registerValues resp)) = [getHolding rg (pr_registerAddr p)]"
      unfolding regs using slice [OF one] by simp
    then have "rs_registerValues resp ! ?off = getHolding rg (pr_registerAddr p)"
      using lt by (simp add: regs take_Suc hd_drop_conv_nth split: if_splits)
    then show ?thesis
      using True word lt holds by (simp add: pointValue_def Let_def addr_def holds_value_def scaled_def regs Suc_leI)
  next
    case False
    with holds obtain raw where raw: "length raw = 2 * ?n" "v = raw_value (pr_dataType p) raw"
      and dt: "pr_dataType p \<noteq> Bool" and order: "pr_byteOrder p = CDAB \<longrightarrow> ?n \<noteq> 1"
      and hold: "map (\<lambda>i. getHolding rg (pr_registerAddr p + of_nat i)) [0..<?n] = words_be (wire (pr_byteOrder p) raw)"
      by (auto simp: holds_value_def Let_def)
    have le: "?off + ?n \<le> length (rs_registerValues resp)" using inside w by (simp add: regs)
    have "take ?n (drop ?off (rs_registerValues resp)) = words_be (wire (pr_byteOrder p) raw)"
      unfolding regs hold [symmetric] using inside(2) w by (intro slice) simp
    moreover have "reassembleBytes (Some (words_be (wire (pr_byteOrder p) raw))) (pr_byteOrder p) (Some (replicate 8 0)) 8 =
        (2 * ?n, Some (raw @ drop (2 * ?n) (replicate 8 0)))"
      using reassemble_wire [OF raw(1) n order, of "replicate 8 0"] n by auto
    ultimately show ?thesis
      using False word le raw(1) n decode_raw [OF raw(1) dt] raw(2)
      by (auto simp: pointValue_def Let_def addr_def scaled_def not_less)
  qed
qed

lemma publish_all:
  assumes "\<forall>p \<in> set ps. f p = Some (g p)"
  shows "pd_bridge (fold (\<lambda>p d. case f p of None \<Rightarrow> d | Some v \<Rightarrow> publish_sample now p v d) ps d) =
    fold bridge_push (map (\<lambda>p. (pr_pointId p, now, g p)) ps) (pd_bridge d)"
  using assms by (induction ps arbitrary: d) (simp_all add: publish_sample_def)

section \<open>One poll\<close>

lemma writeRequest_result: "writeRequest w e r link = (n, Some f, e') \<Longrightarrow> n = w f"
  by (auto simp: writeRequest_def Let_def split: option.splits prod.splits if_splits)

lemma response_published:
  assumes "pp_active (pd_pending d)" and "pp_linkId (pd_pending d) = link" and "pp_slave (pd_pending d) = u"
    and "pp_functionCode (pd_pending d) = 3" and "rs_functionCode r = 3" and "\<not> rs_isException r"
    and seg: "pd_segments d ! pp_segmentIndex (pd_pending d) = seg"
    and "\<forall>p \<in> set (sg_points seg). pointValue seg r p = Some (g p)"
  shows "pd_bridge (onResponseParsed now link u r d) =
      fold bridge_push (map (\<lambda>p. (pr_pointId p, now, g p)) (sg_points seg)) (pd_bridge d)"
    and "\<not> pp_active (pd_pending (onResponseParsed now link u r d))"
proof -
  have fc: "rs_functionCode r AND 0x7F = 3" using assms(5) by simp
  let ?d = "d\<lparr>pd_sched := snd (onResponseReceived (pd_sched d) u True now),
    pd_pending := (pd_pending d)\<lparr>pp_active := False\<rparr>\<rparr>"
  have "onResponseParsed now link u r d =
      fold (\<lambda>p d. case pointValue seg r p of None \<Rightarrow> d | Some v \<Rightarrow> publish_sample now p v d) (sg_points seg) ?d"
    using assms(1-4,6) seg fc by (simp add: onResponseParsed_def Let_def)
  then show "pd_bridge (onResponseParsed now link u r d) =
      fold bridge_push (map (\<lambda>p. (pr_pointId p, now, g p)) (sg_points seg)) (pd_bridge d)"
    and "\<not> pp_active (pd_pending (onResponseParsed now link u r d))"
    using publish_all [OF assms(8)] by (simp_all add: publish_fold_fields)
qed

lemma segment_read:
  assumes "segment_ok seg" and "sg_rt seg = HoldingRegister"
    and "unat (sg_startAddr seg) + unat (sg_qty seg) \<le> length (rg_holding rg)"
  shows "read_outcome rg (sg_startAddr seg) (sg_qty seg) =
    Inr (map (\<lambda>i. getHolding rg (sg_startAddr seg + of_nat i)) [0..<unat (sg_qty seg)])"
  using assms by (simp add: read_outcome_def segment_ok_def max_qty_def isBitType_def kMaxRegistersPerRead_def)

lemma poll_exchange:
  assumes reach: "driver_reach pt w d" and run: "pd_running d" and idle: "\<not> pp_active (pd_pending d)"
    and ne: "pd_segments d \<noteq> []" and acc: "contents (m_accumulator (pd_engine d)) = []"
    and seg: "seg = pd_segments d ! (pd_nextSegIdx d mod length (pd_segments d))"
    and rt: "sg_rt seg = HoldingRegister" and slave: "sg_slave seg \<noteq> 0"
    and dev: "find (\<lambda>s. rt_slaveId s = sg_slave seg) slaves = Some dev" "snapshot bank (sg_slave seg) = Some rg"
    and range: "unat (sg_startAddr seg) + unat (sg_qty seg) \<le> length (rg_holding rg)"
    and holds: "\<forall>p \<in> set (sg_points seg). holds_value rg p (val p)"
    and tick: "onPollTick w d = (Some frame, d1)" and chan: "0 \<le> w frame"
    and sim: "clientLoop (emulatorHandler slaves) (\<lambda>_. None) bank frame = (outs, bank')"
  shows "\<exists>resp. outs = [(0, resp)] \<and> (case worker_step w (DataReceived now resp) d1 of (out, d2) \<Rightarrow>
    \<not> pp_active (pd_pending d2) \<and>
    pd_bridge d2 = fold bridge_push (map (\<lambda>p. (pr_pointId p, now, scaled p (val p))) (sg_points seg)) (pd_bridge d))"
proof -
  let ?u = "sg_slave seg" and ?idx = "pd_nextSegIdx d mod length (pd_segments d)"
  have inv: "driver_inv pt d" by (rule driver_reach_inv [OF reach])
  have er: "engine_reach Tcp (pd_engine d)" using inv by (simp add: driver_inv_def)
  have ok: "segment_ok seg" using inv next_segment [OF ne] seg buildSegments_ok by (auto simp: driver_inv_def)
  obtain n frame' e' where wr': "writeRequest w (pd_engine d) (pollRequest seg) (ucast ?u) = (n, frame', e')"
    using prod_cases3 by blast
  obtain s' where d1: "frame' = Some frame" "d1 = scheduleNext (d\<lparr>pd_nextSegIdx := pd_nextSegIdx d + 1,
      pd_sched := s', pd_engine := e', pd_pending := (if n < 0 then pd_pending d else
        \<lparr>pp_linkId = ucast ?u, pp_slave = ?u, pp_functionCode = fcForRead (sg_rt seg),
         pp_startAddr = sg_startAddr seg, pp_qty = sg_qty seg, pp_segmentIndex = ?idx, pp_active = True\<rparr>)\<rparr>)"
    using tick_sends [OF inv run idle ne seg slave wr'] tick by (metis Pair_inject)
  have wr: "writeRequest w (pd_engine d) (pollRequest seg) (ucast ?u) = (n, Some frame, e')" using wr' d1(1) by simp
  then have "n = w frame" by (rule writeRequest_result)
  then have n: "0 \<le> n" using chan by simp
  have req: "rq_transport (pollRequest seg) = Tcp" "rq_functionCode (pollRequest seg) = 3"
    "rq_slaveAddress (pollRequest seg) = ?u" "rq_startingAddress (pollRequest seg) = sg_startAddr seg"
    "rq_quantity (pollRequest seg) = sg_qty seg" by (simp_all add: pollRequest_def rt)
  obtain tid resp where outs: "outs = [(0, resp)]"
    and rx: "fst (onBytesReceived e' resp) = report (ucast ?u) ?u
      (outcome_response Tcp tid ?u (read_outcome rg (sg_startAddr seg) (sg_qty seg)))"
    using tcp_read_exchange [OF er acc req(1,2) _ _ wr sim, of dev rg] dev by (auto simp: req)
  let ?vs = "map (\<lambda>i. getHolding rg (sg_startAddr seg + of_nat i)) [0..<unat (sg_qty seg)]"
  let ?r = "outcome_response Tcp tid ?u (Inr ?vs)"
  have r: "rs_functionCode ?r = 3" "\<not> rs_isException ?r" "rs_registerValues ?r = ?vs"
    by (simp_all add: outcome_response_def mkResponse_def)
  obtain e2 where e2: "onBytesReceived e' resp = ([ResponseParsed (ucast ?u) ?u ?r], e2)"
    using rx r(2) by (cases "onBytesReceived e' resp") (simp add: segment_read [OF ok rt range] report_def)
  have val: "\<forall>p \<in> set (sg_points seg). pointValue seg ?r p = Some (scaled p (val p))"
    using ok holds by (auto simp: segment_ok_def covered_def intro!: pointValue_read [OF rt _ _ _ r(3)])
  let ?d = "d1\<lparr>pd_engine := e2\<rparr>"
  have "pd_engine d1 = e'" by (simp add: d1)
  then have step: "worker_step w (DataReceived now resp) d1 = (None, onResponseParsed now (ucast ?u) ?u ?r ?d)"
    by (simp add: worker_step_def e2)
  have pend: "pd_pending ?d = \<lparr>pp_linkId = ucast ?u, pp_slave = ?u, pp_functionCode = 3,
      pp_startAddr = sg_startAddr seg, pp_qty = sg_qty seg, pp_segmentIndex = ?idx, pp_active = True\<rparr>"
    "pd_segments ?d = pd_segments d" "pd_bridge ?d = pd_bridge d"
    using n by (simp_all add: d1 rt)
  then show ?thesis
    using response_published [of ?d "ucast ?u" ?u ?r seg "\<lambda>p. scaled p (val p)" now] r val seg outs step
    by simp
qed

text \<open>Property C22: whenever the idle driver sends the read of a segment of holding registers and the
  simulator answers it from a register bank that holds a value for every point of the segment,
  the samples of exactly these points reach the bridge, in the order of their addresses, each
  with its value scaled and offset; and the driver is idle again.\<close>

theorem poll_end_to_end:
  assumes reach: "driver_reach pt w d" and run: "pd_running d" and idle: "\<not> pp_active (pd_pending d)"
    and ne: "pd_segments d \<noteq> []" and acc: "contents (m_accumulator (pd_engine d)) = []"
    and seg: "seg = pd_segments d ! (pd_nextSegIdx d mod length (pd_segments d))"
    and rt: "sg_rt seg = HoldingRegister" and slave: "sg_slave seg \<noteq> 0"
    and dev: "find (\<lambda>s. rt_slaveId s = sg_slave seg) slaves = Some dev" "snapshot bank (sg_slave seg) = Some rg"
    and range: "unat (sg_startAddr seg) + unat (sg_qty seg) \<le> length (rg_holding rg)"
    and holds: "\<forall>p \<in> set (sg_points seg). holds_value rg p (val p)"
    and tick: "onPollTick w d = (Some frame, d1)" and chan: "0 \<le> w frame"
    and sim: "clientLoop (emulatorHandler slaves) (\<lambda>_. None) bank frame = (outs, bank')"
  shows "\<exists>resp. outs = [(0, resp)] \<and> (case worker_step w (DataReceived now resp) d1 of (out, d2) \<Rightarrow>
    \<not> pp_active (pd_pending d2) \<and>
    pd_bridge d2 = fold bridge_push (map (\<lambda>p. (pr_pointId p, now, scaled p (val p))) (sg_points seg)) (pd_bridge d))"
  by (rule poll_exchange [OF assms])

definition demo_meter :: PointRuntime where
  "demo_meter = \<lparr>pr_pointId = 8, pr_linkId = 7, pr_slaveAddress = 7, pr_regType = HoldingRegister,
     pr_dataType = Uint16, pr_byteOrder = ABCD, pr_registerAddr = 16, pr_scaleFactor = Fin 2,
     pr_offset = Fin 1, pr_pollIntervalMs = 1000, pr_priority = 1, pr_enabled = True,
     pr_pointName = [], pr_unit = []\<rparr>"

definition demo_pt :: PointTable where
  "demo_pt = \<lparr>m_byPointId = [(8, demo_meter)], m_byAddr = [kAddrKey 7 16 \<mapsto> 8], m_bySlave = [7 \<mapsto> [8]]\<rparr>"

definition demo_driver :: PollDriver where
  "demo_driver = startPolling 100 (driver_new (engine_new True Tcp) scheduler_new demo_pt)"

definition demo_meter_bank :: RegisterBank where
  "demo_meter_bank = install bank_new 7 (Some (setHolding demo_regs 16 0x1234))"

lemma demo_segments: "buildSegments demo_pt =
    [\<lparr>sg_slave = 7, sg_startAddr = 16, sg_qty = 1, sg_rt = HoldingRegister, sg_points = [demo_meter]\<rparr>]"
  by (simp add: buildSegments_def Let_def allPoints_def demo_pt_def group_keys_def demo_meter_def group_key_def
      segmentsOf_def isBitType_def segStep_def pointWidth_def closeSegment_def emptySegment_def)

lemma demo_reach: "driver_reach demo_pt w demo_driver"
proof -
  have "worker_step w (StartPolling 100) (driver_new (engine_new True Tcp) scheduler_new demo_pt) = (None, demo_driver)"
    by (simp add: worker_step_def demo_driver_def)
  then show ?thesis by (rule driver_reach.step [OF driver_reach.new])
qed

lemma demo_driver_fields:
  "pd_running demo_driver" "\<not> pp_active (pd_pending demo_driver)" "pd_segments demo_driver = buildSegments demo_pt"
  "pd_nextSegIdx demo_driver = 0" "pd_engine demo_driver = engine_new True Tcp" "pd_bridge demo_driver = []"
  by (simp_all add: demo_driver_def startPolling_def scheduleNext_def driver_new_def Let_def noPending_def)

lemma demo_holds: "holds_value (setHolding demo_regs 16 0x1234) demo_meter (Fin 4660)"
proof -
  have w: "words_be (wire ABCD [0x12, 0x34 :: u8]) = [0x1234]" by (simp add: mk16_def push_bit_eq_mult)
  have v: "raw_value Uint16 [0x12, 0x34] = Fin 4660" by (simp add: uint_be_def)
  have g: "getHolding (setHolding demo_regs 16 0x1234) 16 = 0x1234"
    by (simp add: getHolding_def setHolding_def demo_slave(3))
  show ?thesis unfolding holds_value_def Let_def
    using w v g by (auto simp: demo_meter_def intro!: exI [of _ "[0x12, 0x34]"])
qed

lemma demo_scaled: "scaled demo_meter (Fin 4660) = Fin 9321"
  using round64_int [of 9320] round64_int [of 9321] by (simp add: scaled_def demo_meter_def)

theorem poll_end_to_end_witness:
  "\<exists>frame d1 resp. onPollTick (\<lambda>f. int (length f)) demo_driver = (Some frame, d1) \<and>
     fst (clientLoop (emulatorHandler demo_slaves) (\<lambda>_. None) demo_meter_bank frame) = [(0, resp)] \<and>
     pd_bridge (snd (worker_step (\<lambda>f. int (length f)) (DataReceived 1000 resp) d1)) = [(8, 1000, Fin 9321)]"
proof -
  let ?w = "\<lambda>f. int (length f) :: int"
  let ?seg = "\<lparr>sg_slave = 7, sg_startAddr = 16, sg_qty = 1, sg_rt = HoldingRegister, sg_points = [demo_meter]\<rparr>"
  let ?rg = "setHolding demo_regs 16 0x1234"
  have ne: "pd_segments demo_driver \<noteq> []" by (simp add: demo_driver_fields demo_segments)
  have seg: "?seg = pd_segments demo_driver ! (pd_nextSegIdx demo_driver mod length (pd_segments demo_driver))"
    by (simp add: demo_driver_fields demo_segments)
  have acc: "contents (m_accumulator (pd_engine demo_driver)) = []" by (simp add: demo_driver_fields engine_new_def)
  have dev: "find (\<lambda>s. rt_slaveId s = sg_slave ?seg) demo_slaves = Some \<lparr>rt_slaveId = 7, rt_kind = Bms, rt_transport = SimTcp\<rparr>"
    using demo_slave(1) by simp
  have bank: "snapshot demo_meter_bank (sg_slave ?seg) = Some ?rg"
    by (simp add: demo_meter_bank_def install_def snapshot_publish)
  have range: "unat (sg_startAddr ?seg) + unat (sg_qty ?seg) \<le> length (rg_holding ?rg)" by (simp add: demo_slave(3))
  have holds: "\<forall>p \<in> set (sg_points ?seg). holds_value ?rg p (Fin 4660)" using demo_holds by simp
  obtain n frame' e' where wr: "writeRequest ?w (pd_engine demo_driver) (pollRequest ?seg) (ucast (sg_slave ?seg)) = (n, frame', e')"
    using prod_cases3 by blast
  have "valid_request (pollRequest ?seg\<lparr>rq_transactionId := 1\<rparr>)" by (simp add: valid_request_def pollRequest_def)
  then have "buildRequest (pollRequest ?seg\<lparr>rq_transactionId := 1\<rparr>) \<noteq> []" by (simp add: buildRequest_empty_iff)
  then obtain frame where frame: "frame' = Some frame"
    using wr by (auto simp: demo_driver_fields writeRequest_def registerRequest_def engine_new_def Let_def
        allocate_def alloc_scan.simps txids_new_def INVALID_ID_def pollRequest_def)
  obtain d1 where tick: "onPollTick ?w demo_driver = (Some frame, d1)"
    using tick_sends [OF driver_reach_inv [OF demo_reach] demo_driver_fields(1,2) ne seg _ wr] frame by auto
  obtain outs bank' where sim: "clientLoop (emulatorHandler demo_slaves) (\<lambda>_. None) demo_meter_bank frame = (outs, bank')"
    by fastforce
  from poll_end_to_end [OF demo_reach demo_driver_fields(1,2) ne acc seg _ _ dev bank range holds tick _ sim, of 1000]
  obtain resp where "outs = [(0, resp)]"
    "pd_bridge (snd (worker_step ?w (DataReceived 1000 resp) d1)) = [(8, 1000, Fin 9321)]"
    by (auto simp: demo_driver_fields(6) demo_scaled bridge_push_def bridge_kMaxPending_def case_prod_beta)
      (simp add: demo_meter_def)
  then show ?thesis using tick sim by (intro exI [of _ frame] exI [of _ d1] exI [of _ resp]) simp
qed

end
