(* ===== verification/AuthManager.thy ===== *)
theory AuthManager
  imports Json
begin

text \<open>
  Users, sessions, permissions and the audit log, \<^verbatim>\<open>apps/ens_app/src/business/AuthManager.h\<close> and
  \<^verbatim>\<open>.cpp\<close>. The hash \<open>sha256Hex\<close> of the Qt library is a parameter, of the characters of its
  argument; a random salt, the JSON parser and the outcome of file operations are arguments.
  \<open>now\<close> is the epoch clock, \<open>tick\<close> the clock of the idle timer, in milliseconds. The manager is used
  by one thread. Strings are lists of characters, case and blanks those of ASCII.
\<close>

section \<open>The code: data\<close>

datatype UserRole = Operator | Engineer | Admin

record AuditEntry =
  ad_tsMs :: int
  ad_user :: string
  ad_action :: string
  ad_detail :: string
  ad_granted :: bool

record UserRec =
  us_username :: string
  us_password :: string
  us_role :: UserRole
  us_mustChange :: bool

record FailRec =
  fr_count :: int
  fr_lockUntilMs :: int

record AuthManager =
  am_users :: "UserRec list"
  am_currentUser :: string
  am_currentRole :: UserRole
  am_loggedIn :: bool
  am_locked :: bool
  am_idle :: "int option"
  am_fails :: "string \<rightharpoonup> FailRec"
  am_audit :: "AuditEntry list"

datatype AuthSignal = loginChanged string UserRole | loggedOut | lockedChanged bool

definition auth_new :: AuthManager where
  "auth_new = \<lparr>am_users = [], am_currentUser = [], am_currentRole = Operator, am_loggedIn = False,
     am_locked = False, am_idle = None, am_fails = Map.empty, am_audit = []\<rparr>"

definition kAuditCap :: nat where "kAuditCap = 1000"
definition kMaxLoginFails :: int where "kMaxLoginFails = 5"
definition kLockMs :: int where "kLockMs = 15 * 60 * 1000"

definition kSboSelect :: string where "kSboSelect = ''sbo.select''"
definition kSboOperate :: string where "kSboOperate = ''sbo.operate''"
definition kSboCancel :: string where "kSboCancel = ''sbo.cancel''"
definition kConfigView :: string where "kConfigView = ''config.view''"
definition kAuthManage :: string where "kAuthManage = ''auth.manage''"
definition kSystemExit :: string where "kSystemExit = ''system.exit''"

section \<open>The code: passwords\<close>

definition trimmed :: "string \<Rightarrow> string" where
  "trimmed s = rev (dropWhile is_space (rev (dropWhile is_space s)))"

definition char_lower :: "char \<Rightarrow> char" where
  "char_lower c = (let n = of_char c :: nat in if 65 \<le> n \<and> n \<le> 90 then char_of (n + 32) else c)"

definition roleFromString :: "string \<Rightarrow> UserRole" where
  "roleFromString s =
     (let low = map char_lower (trimmed s)
      in if low = ''admin'' then Admin else if low = ''engineer'' then Engineer else Operator)"

definition kDefaultUsers :: "(string \<times> string \<times> string) list" where
  "kDefaultUsers =
     [(''admin'', ''sha256$ens-salt-v1$21888813a45eed2911e66baa92ca2cc6269ce425b8d3ff2b303ce139a03283e1'', ''Admin''),
      (''operator'', ''sha256$ens-salt-v1$0acfaa9f0eac4258061f2521fabb91108bb97f07271d4acc2d256e16d4d03a3b'', ''Operator'')]"

fun split_at :: "char \<Rightarrow> string \<Rightarrow> string list" where
  "split_at c [] = [[]]"
| "split_at c (x # xs) =
     (if x = c then [] # split_at c xs else (case split_at c xs of [] \<Rightarrow> [[x]] | w # ws \<Rightarrow> (x # w) # ws))"

definition starts_with :: "string \<Rightarrow> string \<Rightarrow> bool" where
  "starts_with p s \<longleftrightarrow> take (length p) s = p"

definition verifyPassword :: "(string \<Rightarrow> string) \<Rightarrow> string \<Rightarrow> string \<Rightarrow> bool" where
  "verifyPassword sha256Hex stored password =
     (if starts_with ''sha256$'' stored then
        (let parts = split_at CHR ''$'' stored
         in if length parts \<noteq> 3 then False
            else sha256Hex (parts ! 1 @ password) = parts ! 2)
      else stored = password)"

definition hashPasswordWithSalt :: "(string \<Rightarrow> string) \<Rightarrow> string \<Rightarrow> string \<Rightarrow> string" where
  "hashPasswordWithSalt sha256Hex password salt =
     ''sha256$'' @ salt @ ''$'' @ sha256Hex (salt @ password)"

section \<open>The code: the audit log\<close>

definition appendAudit :: "int \<Rightarrow> string \<Rightarrow> string \<Rightarrow> string \<Rightarrow> bool \<Rightarrow> AuthManager \<Rightarrow> AuthManager" where
  "appendAudit now user action detail granted m =
     (let a = am_audit m @ [\<lparr>ad_tsMs = now, ad_user = user, ad_action = action, ad_detail = detail,
                              ad_granted = granted\<rparr>]
      in m\<lparr>am_audit := (if length a > kAuditCap then tl a else a)\<rparr>)"

definition auditRecord :: "int \<Rightarrow> string \<Rightarrow> string \<Rightarrow> bool \<Rightarrow> AuthManager \<Rightarrow> AuthManager" where
  "auditRecord now action detail granted m = appendAudit now (am_currentUser m) action detail granted m"

definition recentAudit :: "int \<Rightarrow> AuthManager \<Rightarrow> AuditEntry list" where
  "recentAudit n m =
     (let size = int (length (am_audit m)); tk = min n size
      in map (\<lambda>i. am_audit m ! nat i) [size - tk..size - 1])"

definition clearAudit :: "AuthManager \<Rightarrow> AuthManager" where
  "clearAudit m = m\<lparr>am_audit := []\<rparr>"

section \<open>The code: users\<close>

definition findUser :: "AuthManager \<Rightarrow> string \<Rightarrow> UserRec option" where
  "findUser m username = find (\<lambda>u. us_username u = username) (am_users m)"

text \<open>A change through the pointer \<open>findUser\<close> returned: the first record of the name.\<close>

fun update_user :: "string \<Rightarrow> (UserRec \<Rightarrow> UserRec) \<Rightarrow> UserRec list \<Rightarrow> UserRec list" where
  "update_user n f [] = []"
| "update_user n f (u # us) = (if us_username u = n then f u # us else u # update_user n f us)"

fun remove_user :: "string \<Rightarrow> UserRec list \<Rightarrow> UserRec list" where
  "remove_user n [] = []"
| "remove_user n (u # us) = (if us_username u = n then us else u # remove_user n us)"

definition user_from_json :: "json \<Rightarrow> UserRec" where
  "user_from_json v =
     \<lparr>us_username = q_string (q_value ''username'' v), us_password = q_string (q_value ''password'' v),
      us_role = roleFromString (q_string (q_value ''role'' v)),
      us_mustChange = q_bool False (q_value ''mustChange'' v)\<rparr>"

text \<open>\<open>loadUsersFromJson\<close>: the file content is \<open>None\<close> when the file cannot be opened.\<close>

definition loadUsersFromJson ::
  "(string \<Rightarrow> json option) \<Rightarrow> string option \<Rightarrow> AuthManager \<Rightarrow> bool \<times> AuthManager" where
  "loadUsersFromJson parse file m =
     (let users = (case Option.bind file parse of
            Some doc \<Rightarrow>
              (if is_object doc
               then filter (\<lambda>u. us_username u \<noteq> [] \<and> us_password u \<noteq> [])
                      (map user_from_json (q_array (q_value ''users'' doc)))
               else [])
          | None \<Rightarrow> [])
      in if users = []
         then (False, m\<lparr>am_users := map (\<lambda>(name, pass, role). \<lparr>us_username = name, us_password = pass,
                          us_role = roleFromString role, us_mustChange = False\<rparr>) kDefaultUsers\<rparr>)
         else (True, m\<lparr>am_users := users\<rparr>))"

fun role_name :: "UserRole \<Rightarrow> string" where
  "role_name Admin = ''Admin''"
| "role_name Engineer = ''Engineer''"
| "role_name Operator = ''Operator''"

definition user_to_json :: "UserRec \<Rightarrow> json" where
  "user_to_json u =
     JObject [(''username'', JString (us_username u)), (''password'', JString (us_password u)),
              (''role'', JString (role_name (us_role u))), (''mustChange'', JBool (us_mustChange u))]"

definition users_to_json :: "UserRec list \<Rightarrow> json" where
  "users_to_json us = JObject [(''users'', JArray (map user_to_json us))]"

text \<open>\<open>saveUsersToJson\<close>: the document written, if any. \<open>dirOk\<close> says that the directory exists or
  was made, \<open>openOk\<close> that the file was opened.\<close>

definition saveUsersToJson ::
  "int \<Rightarrow> bool \<Rightarrow> bool \<Rightarrow> string \<Rightarrow> AuthManager \<Rightarrow> bool \<times> json option \<times> AuthManager" where
  "saveUsersToJson now dirOk openOk path m =
     (if \<not> dirOk then (False, None, m)
      else if \<not> openOk then (False, None, m)
      else (True, Some (users_to_json (am_users m)),
            appendAudit now ''admin'' ''user.save'' path True m))"

definition listUsers :: "AuthManager \<Rightarrow> (string \<times> UserRole \<times> bool) list" where
  "listUsers m = map (\<lambda>u. (us_username u, us_role u, us_mustChange u)) (am_users m)"

definition setMustChange :: "int \<Rightarrow> string \<Rightarrow> bool \<Rightarrow> AuthManager \<Rightarrow> bool \<times> AuthManager" where
  "setMustChange now username must m =
     (if findUser m username = None then (False, m)
      else (True, appendAudit now ''admin'' ''user.mustchange'' username True
              (m\<lparr>am_users := update_user username (\<lambda>u. u\<lparr>us_mustChange := must\<rparr>) (am_users m)\<rparr>)))"

definition requiresPasswordChange :: "AuthManager \<Rightarrow> bool" where
  "requiresPasswordChange m =
     (if \<not> am_loggedIn m then False
      else (case findUser m (am_currentUser m) of None \<Rightarrow> False | Some u \<Rightarrow> us_mustChange u))"

definition addUser ::
  "(string \<Rightarrow> string) \<Rightarrow> int \<Rightarrow> string \<Rightarrow> string \<Rightarrow> string \<Rightarrow> UserRole \<Rightarrow> AuthManager \<Rightarrow> bool \<times> AuthManager" where
  "addUser sha256Hex now salt username password role m =
     (if username = [] \<or> password = [] then (False, m)
      else if findUser m username \<noteq> None then (False, m)
      else (True, appendAudit now ''admin'' ''user.add'' username True
              (m\<lparr>am_users := am_users m @ [\<lparr>us_username = username,
                  us_password = hashPasswordWithSalt sha256Hex password salt,
                  us_role = role, us_mustChange = False\<rparr>]\<rparr>)))"

definition removeUser :: "int \<Rightarrow> string \<Rightarrow> AuthManager \<Rightarrow> bool \<times> AuthManager" where
  "removeUser now username m =
     (if username = am_currentUser m then (False, m)
      else if findUser m username = None then (False, m)
      else (True, appendAudit now ''admin'' ''user.remove'' username True
              (m\<lparr>am_users := remove_user username (am_users m)\<rparr>)))"

definition changePassword ::
  "(string \<Rightarrow> string) \<Rightarrow> int \<Rightarrow> string \<Rightarrow> string \<Rightarrow> string \<Rightarrow> AuthManager \<Rightarrow> bool \<times> AuthManager" where
  "changePassword sha256Hex now salt username newPassword m =
     (if newPassword = [] then (False, m)
      else if findUser m username = None then (False, m)
      else (True, appendAudit now username ''user.chpwd'' [] True
              (m\<lparr>am_users := update_user username (\<lambda>u. u\<lparr>us_password := hashPasswordWithSalt sha256Hex newPassword salt,
                    us_mustChange := False\<rparr>) (am_users m)\<rparr>)))"

section \<open>The code: sessions\<close>

text \<open>\<open>m_fails[username]\<close> creates the record of a name that has none.\<close>

definition loginFailed :: "int \<Rightarrow> string \<Rightarrow> AuthManager \<Rightarrow> AuthManager" where
  "loginFailed now username m =
     (let f0 = (case am_fails m username of Some f \<Rightarrow> f | None \<Rightarrow> \<lparr>fr_count = 0, fr_lockUntilMs = 0\<rparr>);
          f = f0\<lparr>fr_count := fr_count f0 + 1\<rparr>
      in if fr_count f \<ge> kMaxLoginFails
         then appendAudit now username ''login'' ''locked-5x'' False
                (m\<lparr>am_fails := (am_fails m)(username \<mapsto> f\<lparr>fr_lockUntilMs := now + kLockMs, fr_count := 0\<rparr>)\<rparr>)
         else appendAudit now username ''login'' ''rejected'' False
                (m\<lparr>am_fails := (am_fails m)(username \<mapsto> f)\<rparr>))"

definition login ::
  "(string \<Rightarrow> string) \<Rightarrow> int \<Rightarrow> int \<Rightarrow> string \<Rightarrow> string \<Rightarrow> AuthManager \<Rightarrow> bool \<times> AuthSignal list \<times> AuthManager" where
  "login sha256Hex now tick username password m =
     (if am_locked m then (False, [], m)
      else if (case am_fails m username of Some f \<Rightarrow> fr_lockUntilMs f > now | None \<Rightarrow> False)
      then (False, [], appendAudit now username ''login'' ''locked'' False m)
      else case findUser m username of
        Some u \<Rightarrow>
          (if verifyPassword sha256Hex (us_password u) password then
             (let m1 = m\<lparr>am_fails := (am_fails m)(username := None), am_currentUser := username,
                         am_currentRole := us_role u, am_loggedIn := True, am_locked := False,
                         am_idle := Some tick\<rparr>
              in (True, [loginChanged username (us_role u)],
                  appendAudit now username ''login'' ''ok'' True m1))
           else (False, [], loginFailed now username m))
      | None \<Rightarrow> (False, [], loginFailed now username m))"

definition lockRemainingSeconds :: "int \<Rightarrow> string \<Rightarrow> AuthManager \<Rightarrow> int" where
  "lockRemainingSeconds now username m =
     (case am_fails m username of None \<Rightarrow> 0
      | Some f \<Rightarrow> (let remain = fr_lockUntilMs f - now in if remain > 0 then remain div 1000 else 0))"

definition logout :: "int \<Rightarrow> AuthManager \<Rightarrow> AuthSignal list \<times> AuthManager" where
  "logout now m =
     (let m1 = (if am_loggedIn m then appendAudit now (am_currentUser m) ''logout'' [] True m else m)
      in ([loggedOut], m1\<lparr>am_loggedIn := False, am_locked := False, am_currentUser := [],
                          am_currentRole := Operator\<rparr>))"

definition lock :: "int \<Rightarrow> AuthManager \<Rightarrow> AuthSignal list \<times> AuthManager" where
  "lock now m =
     (if \<not> am_loggedIn m then ([], m)
      else ([lockedChanged True], appendAudit now (am_currentUser m) ''lock'' [] True (m\<lparr>am_locked := True\<rparr>)))"

definition unlock :: "(string \<Rightarrow> string) \<Rightarrow> int \<Rightarrow> int \<Rightarrow> string \<Rightarrow> AuthManager \<Rightarrow> bool \<times> AuthSignal list \<times> AuthManager" where
  "unlock sha256Hex now tick password m =
     (if \<not> am_loggedIn m \<or> \<not> am_locked m then (False, [], m)
      else if (case findUser m (am_currentUser m) of None \<Rightarrow> True
               | Some u \<Rightarrow> \<not> verifyPassword sha256Hex (us_password u) password)
      then (False, [], appendAudit now (am_currentUser m) ''unlock'' ''rejected'' False m)
      else (True, [lockedChanged False],
            appendAudit now (am_currentUser m) ''unlock'' [] True (m\<lparr>am_locked := False, am_idle := Some tick\<rparr>)))"

definition touchActivity :: "int \<Rightarrow> AuthManager \<Rightarrow> AuthManager" where
  "touchActivity tick m = m\<lparr>am_idle := Some tick\<rparr>"

definition idleSeconds :: "int \<Rightarrow> AuthManager \<Rightarrow> int" where
  "idleSeconds tick m =
     (if \<not> am_loggedIn m then 0
      else (case am_idle m of None \<Rightarrow> 0 | Some t \<Rightarrow> (tick - t) div 1000))"

section \<open>The code: permissions\<close>

definition roleHasPermission :: "UserRole \<Rightarrow> string \<Rightarrow> bool" where
  "roleHasPermission role permPoint =
     (case role of
        Admin \<Rightarrow> True
      | Engineer \<Rightarrow> permPoint \<noteq> kAuthManage
      | Operator \<Rightarrow> permPoint = kSystemExit \<or> permPoint = ''history.view'' \<or> permPoint = ''diag.view'' \<or>
          permPoint = ''trend.view'' \<or> permPoint = ''alarm.view'' \<or> permPoint = ''overview.view'')"

definition checkPermission :: "int \<Rightarrow> string \<Rightarrow> AuthManager \<Rightarrow> bool \<times> AuthManager" where
  "checkPermission now permPoint m =
     (let ok = (am_loggedIn m \<and> \<not> am_locked m \<and> roleHasPermission (am_currentRole m) permPoint)
      in (ok, if \<not> ok then appendAudit now (am_currentUser m) (''perm:'' @ permPoint) ''denied'' False m else m))"

text \<open>\<open>ScopedAuthGuard\<close>: construction at \<open>now1\<close>, destruction at \<open>now2\<close>; without a manager it denies.\<close>

definition guard_open :: "int \<Rightarrow> string \<Rightarrow> AuthManager option \<Rightarrow> bool \<times> AuthManager option" where
  "guard_open now perm auth =
     (case auth of None \<Rightarrow> (False, None)
      | Some m \<Rightarrow> (case checkPermission now perm m of (ok, m') \<Rightarrow> (ok, Some m')))"

definition guard_close :: "int \<Rightarrow> string \<Rightarrow> string \<Rightarrow> bool \<Rightarrow> AuthManager option \<Rightarrow> AuthManager option" where
  "guard_close now perm action granted auth = map_option (auditRecord now action perm granted) auth"

section \<open>Runs\<close>

datatype AuthEvent = Login string string | Logout | Lock | Unlock string | Touch
  | AddUser string string string UserRole | RemoveUser string | ChangePassword string string string
  | SetMustChange string bool | LoadUsers "json option" | CheckPermission string
  | AuditRecord string string bool | ClearAudit

text \<open>A call at the two clock readings: its result (true where it returns nothing) and the state.\<close>

fun auth_step :: "(string \<Rightarrow> string) \<Rightarrow> int \<times> int \<times> AuthEvent \<Rightarrow> AuthManager \<Rightarrow> bool \<times> AuthManager" where
  "auth_step sha (now, tick, Login u p) m = (case login sha now tick u p m of (r, _, m') \<Rightarrow> (r, m'))"
| "auth_step sha (now, tick, Logout) m = (True, snd (logout now m))"
| "auth_step sha (now, tick, Lock) m = (True, snd (lock now m))"
| "auth_step sha (now, tick, Unlock p) m = (case unlock sha now tick p m of (r, _, m') \<Rightarrow> (r, m'))"
| "auth_step sha (now, tick, Touch) m = (True, touchActivity tick m)"
| "auth_step sha (now, tick, AddUser salt u p r) m = addUser sha now salt u p r m"
| "auth_step sha (now, tick, RemoveUser u) m = removeUser now u m"
| "auth_step sha (now, tick, ChangePassword salt u p) m = changePassword sha now salt u p m"
| "auth_step sha (now, tick, SetMustChange u b) m = setMustChange now u b m"
| "auth_step sha (now, tick, LoadUsers doc) m = loadUsersFromJson (\<lambda>_. doc) (Some []) m"
| "auth_step sha (now, tick, CheckPermission pp) m = checkPermission now pp m"
| "auth_step sha (now, tick, AuditRecord a d g) m = (True, auditRecord now a d g m)"
| "auth_step sha (now, tick, ClearAudit) m = (True, clearAudit m)"

definition auth_state :: "(string \<Rightarrow> string) \<Rightarrow> (int \<times> int \<times> AuthEvent) list \<Rightarrow> AuthManager \<Rightarrow> AuthManager" where
  "auth_state sha evs m = foldl (\<lambda>m ev. snd (auth_step sha ev m)) m evs"

lemma auth_state_simps [simp]:
  "auth_state sha [] m = m"
  "auth_state sha (ev # evs) m = auth_state sha evs (snd (auth_step sha ev m))"
  "auth_state sha (evs @ evs') m = auth_state sha evs' (auth_state sha evs m)"
  by (simp_all add: auth_state_def)

lemma appendAudit_fields [simp]:
  "am_users (appendAudit now u a d g m) = am_users m"
  "am_currentUser (appendAudit now u a d g m) = am_currentUser m"
  "am_currentRole (appendAudit now u a d g m) = am_currentRole m"
  "am_loggedIn (appendAudit now u a d g m) = am_loggedIn m"
  "am_locked (appendAudit now u a d g m) = am_locked m"
  "am_fails (appendAudit now u a d g m) = am_fails m"
  "findUser (appendAudit now u a d g m) n = findUser m n"
  by (simp_all add: appendAudit_def Let_def findUser_def)

section \<open>Guessing passwords at the login\<close>

definition fail_count :: "AuthManager \<Rightarrow> string \<Rightarrow> int" where
  "fail_count m u = (case am_fails m u of None \<Rightarrow> 0 | Some f \<Rightarrow> fr_count f)"

definition fail_locked :: "int \<Rightarrow> AuthManager \<Rightarrow> string \<Rightarrow> bool" where
  "fail_locked now m u \<longleftrightarrow> (case am_fails m u of None \<Rightarrow> False | Some f \<Rightarrow> fr_lockUntilMs f > now)"

text \<open>The logins of \<open>u\<close> in a run that compare the password, and those that succeed. That a login
  compares the password is observed on its outcome: with some user list in place of the present
  one, this very call lets the caller in.\<close>

fun is_guess :: "(string \<Rightarrow> string) \<Rightarrow> string \<Rightarrow> int \<times> int \<times> AuthEvent \<Rightarrow> AuthManager \<Rightarrow> bool" where
  "is_guess sha u (now, tick, Login n p) m \<longleftrightarrow>
     n = u \<and> (\<exists>users. fst (login sha now tick n p (m\<lparr>am_users := users\<rparr>)))"
| "is_guess sha u _ m \<longleftrightarrow> False"

declare is_guess.simps(1) [simp del]

fun guesses :: "(string \<Rightarrow> string) \<Rightarrow> string \<Rightarrow> (int \<times> int \<times> AuthEvent) list \<Rightarrow> AuthManager \<Rightarrow> nat" where
  "guesses sha u [] m = 0"
| "guesses sha u (ev # evs) m = (if is_guess sha u ev m then 1 else 0) + guesses sha u evs (snd (auth_step sha ev m))"

fun is_login :: "string \<Rightarrow> int \<times> int \<times> AuthEvent \<Rightarrow> bool" where
  "is_login u (now, tick, Login n p) \<longleftrightarrow> n = u"
| "is_login u _ \<longleftrightarrow> False"

fun login_ok :: "(string \<Rightarrow> string) \<Rightarrow> string \<Rightarrow> (int \<times> int \<times> AuthEvent) list \<Rightarrow> AuthManager \<Rightarrow> bool" where
  "login_ok sha u [] m \<longleftrightarrow> False"
| "login_ok sha u (ev # evs) m \<longleftrightarrow>
     is_login u ev \<and> fst (auth_step sha ev m) \<or> login_ok sha u evs (snd (auth_step sha ev m))"

lemma is_login_iff: "is_login u ev \<longleftrightarrow> (\<exists>p. snd (snd ev) = Login u p)"
  by (cases "(u, ev)" rule: is_login.cases) auto

declare is_login.simps [simp del]
declare is_login_iff [simp]

lemma login_fails:
  "am_fails (snd (snd (login sha now tick n p m))) u =
     (if n \<noteq> u \<or> am_locked m \<or> fail_locked now m u then am_fails m u
      else if fst (login sha now tick n p m) then None
      else Some (if fail_count m u + 1 \<ge> kMaxLoginFails then \<lparr>fr_count = 0, fr_lockUntilMs = now + kLockMs\<rparr>
            else \<lparr>fr_count = fail_count m u + 1,
              fr_lockUntilMs = (case am_fails m u of None \<Rightarrow> 0 | Some f \<Rightarrow> fr_lockUntilMs f)\<rparr>))"
  by (auto simp: login_def loginFailed_def fail_locked_def fail_count_def Let_def split: option.split)

lemma step_fails:
  "\<forall>n p. snd (snd ev) \<noteq> Login n p \<Longrightarrow> am_fails (snd (auth_step sha ev m)) = am_fails m"
  by (cases "(sha, ev, m)" rule: auth_step.cases)
    (auto simp: logout_def lock_def unlock_def touchActivity_def addUser_def removeUser_def changePassword_def
      setMustChange_def loadUsersFromJson_def checkPermission_def auditRecord_def clearAudit_def Let_def split: option.split)

lemma locked_no_guess:
  "n \<noteq> u \<or> am_locked m \<or> fail_locked now m u \<Longrightarrow> \<not> is_guess sha u (now, tick, Login n p) m"
  by (auto simp: is_guess.simps(1) login_def fail_locked_def split: option.splits)

text \<open>A free login is one: the list with that very password lets it in.\<close>

lemma free_guess:
  assumes "\<not> am_locked m" and "\<not> fail_locked now m u" and "\<not> starts_with ''sha256$'' p"
  shows "is_guess sha u (now, tick, Login u p) m"
proof -
  let ?users = "[\<lparr>us_username = u, us_password = p, us_role = Operator, us_mustChange = False\<rparr>]"
  have "fst (login sha now tick u p (m\<lparr>am_users := ?users\<rparr>))"
    using assms by (simp add: login_def fail_locked_def findUser_def verifyPassword_def Let_def split: option.splits)
  then show ?thesis by (auto simp only: is_guess.simps(1))
qed

text \<open>The failures a name still has before it is locked until \<open>T\<close>.\<close>

definition budget :: "int \<Rightarrow> string \<Rightarrow> AuthManager \<Rightarrow> nat" where
  "budget T u m = (if fail_locked T m u then 0 else nat (kMaxLoginFails - fail_count m u))"

definition counts_ok :: "AuthManager \<Rightarrow> bool" where
  "counts_ok m \<longleftrightarrow> (\<forall>u. 0 \<le> fail_count m u \<and> fail_count m u < kMaxLoginFails)"

lemma guess_step:
  assumes ok: "counts_ok m" and window: "T \<le> fst ev" "fst ev < T + kLockMs"
    and fail: "\<not> ((\<exists>p. snd (snd ev) = Login u p) \<and> fst (auth_step sha ev m))"
  shows "(if is_guess sha u ev m then 1 else 0) + budget (T + kLockMs - 1) u (snd (auth_step sha ev m))
      \<le> budget (T + kLockMs - 1) u m" and "counts_ok (snd (auth_step sha ev m))"
proof -
  obtain now tick e where ev: "ev = (now, tick, e)" by (cases ev)
  have "(if is_guess sha u ev m then 1 else 0) + budget (T + kLockMs - 1) u (snd (auth_step sha ev m))
      \<le> budget (T + kLockMs - 1) u m \<and> counts_ok (snd (auth_step sha ev m))"
  proof (cases "\<exists>n p. e = Login n p")
    case False
    then have "am_fails (snd (auth_step sha ev m)) = am_fails m" and "\<not> is_guess sha u ev m"
      using step_fails [of ev sha m] by (auto simp: ev elim: is_guess.elims)
    with ok show ?thesis by (simp add: budget_def fail_locked_def fail_count_def counts_ok_def)
  next
    case True
    then obtain n p where e: "e = Login n p" by blast
    let ?m = "snd (snd (login sha now tick n p m))"
    have m': "snd (auth_step sha ev m) = ?m" by (simp add: ev e case_prod_beta)
    have fails: "am_fails ?m v = (if n \<noteq> v \<or> am_locked m \<or> fail_locked now m v then am_fails m v
        else if fst (login sha now tick n p m) then None
        else Some (if fail_count m v + 1 \<ge> kMaxLoginFails then \<lparr>fr_count = 0, fr_lockUntilMs = now + kLockMs\<rparr>
            else \<lparr>fr_count = fail_count m v + 1,
              fr_lockUntilMs = (case am_fails m v of None \<Rightarrow> 0 | Some f \<Rightarrow> fr_lockUntilMs f)\<rparr>))" for v
      by (rule login_fails)
    have c: "counts_ok ?m"
      using ok fails unfolding counts_ok_def fail_count_def kMaxLoginFails_def by (auto split: option.split)
    show ?thesis
    proof (cases "n \<noteq> u \<or> am_locked m \<or> fail_locked now m u")
      case True
      then have "am_fails ?m u = am_fails m u" and "\<not> is_guess sha u ev m" 
        using fails locked_no_guess [of n u m now sha tick p]
        by (auto simp: ev e)
      with c show ?thesis by (simp add: m' budget_def fail_locked_def fail_count_def)
    next
      case False
      then have "\<not> fst (login sha now tick n p m)" using fail False by (simp add: ev e case_prod_beta)
      then have f: "am_fails ?m u = Some (if fail_count m u + 1 \<ge> kMaxLoginFails then \<lparr>fr_count = 0, fr_lockUntilMs = now + kLockMs\<rparr>
          else \<lparr>fr_count = fail_count m u + 1,
            fr_lockUntilMs = (case am_fails m u of None \<Rightarrow> 0 | Some f \<Rightarrow> fr_lockUntilMs f)\<rparr>)"
        using fails [of u] False by simp
      have open_now: "\<not> fail_locked (T + kLockMs - 1) m u" "now < T + kLockMs" "T \<le> now"
        using False window by (auto simp: fail_locked_def ev split: option.splits)
      have cnt: "0 \<le> fail_count m u" "fail_count m u < kMaxLoginFails" using ok by (auto simp: counts_ok_def)
      then have left: "Suc 0 \<le> nat (kMaxLoginFails - fail_count m u)"
        "nat (kMaxLoginFails - fail_count m u) = Suc (nat (kMaxLoginFails - (fail_count m u + 1)))"
        by (simp_all add: Suc_nat_eq_nat_zadd1)
      show ?thesis
      proof (cases "fail_count m u + 1 \<ge> kMaxLoginFails")
        case True
        then have "budget (T + kLockMs - 1) u ?m = 0" using f open_now by (simp add: budget_def fail_locked_def)
        then show ?thesis using open_now cnt left c by (simp add: m' budget_def)
      next
        case False
        then have "fail_count ?m u = fail_count m u + 1" using f by (simp add: fail_count_def)
        moreover have "budget (T + kLockMs - 1) u ?m \<le> nat (kMaxLoginFails - fail_count ?m u)" by (simp add: budget_def)
        ultimately show ?thesis using open_now cnt left c by (simp add: m' budget_def)
      qed
    qed
  qed
  then show "(if is_guess sha u ev m then 1 else 0) + budget (T + kLockMs - 1) u (snd (auth_step sha ev m))
      \<le> budget (T + kLockMs - 1) u m" and "counts_ok (snd (auth_step sha ev m))" by blast+
qed

lemma guesses_budget:
  "counts_ok m \<Longrightarrow> \<forall>ev \<in> set evs. T \<le> fst ev \<and> fst ev < T + kLockMs \<Longrightarrow> \<not> login_ok sha u evs m \<Longrightarrow>
    guesses sha u evs m \<le> budget (T + kLockMs - 1) u m"
proof (induction evs arbitrary: m)
  case (Cons ev evs)
  then have "T \<le> fst ev" "fst ev < T + kLockMs"
    and fail: "\<not> ((\<exists>p. snd (snd ev) = Login u p) \<and> fst (auth_step sha ev m))" by auto
  note step = guess_step [OF Cons.prems(1) this]
  from Cons.IH [OF step(2)] Cons.prems step(1) show ?case by simp
qed simp

lemma counts_ok_step: "counts_ok m \<Longrightarrow> counts_ok (snd (auth_step sha ev m))"
proof (cases "\<exists>n p. snd (snd ev) = Login n p")
  case True
  assume ok: "counts_ok m"
  obtain now tick n p where ev: "ev = (now, tick, Login n p)" using True by (cases ev) auto
  show ?thesis
    using ok login_fails [of sha now tick n p m]
    unfolding counts_ok_def fail_count_def kMaxLoginFails_def by (auto simp: ev case_prod_beta split: option.split)
next
  case False
  assume "counts_ok m"
  with step_fails [of ev sha m] False show ?thesis by (auto simp: counts_ok_def fail_count_def)
qed

lemma counts_ok_state: "counts_ok m \<Longrightarrow> counts_ok (auth_state sha evs m)"
  by (induction evs arbitrary: m) (simp_all add: counts_ok_step)

lemma counts_ok_new: "counts_ok auth_new"
  by (simp add: counts_ok_def fail_count_def auth_new_def kMaxLoginFails_def)

text \<open>Property C26: in any 15 minutes without a successful login of a user, at most five passwords are
  compared for that user by the login, whatever else is called in between: logins of other users,
  logouts, locking and unlocking, removing the user or changing the password.\<close>

theorem login_guesses_bounded:
  assumes "\<forall>ev \<in> set evs. T \<le> fst ev \<and> fst ev < T + kLockMs"
    and "\<not> login_ok sha u evs (auth_state sha before auth_new)"
  shows "guesses sha u evs (auth_state sha before auth_new) \<le> 5"
proof -
  let ?m = "auth_state sha before auth_new"
  have ok: "counts_ok ?m" by (rule counts_ok_state [OF counts_ok_new])
  then have "0 \<le> fail_count ?m u" by (simp add: counts_ok_def)
  then have "budget (T + kLockMs - 1) u ?m \<le> 5" by (simp add: budget_def kMaxLoginFails_def nat_le_iff)
  with guesses_budget [OF ok assms] show ?thesis by linarith
qed

theorem login_guesses_bounded_witness:
  "let evs = replicate 7 (1000, 0, Login ''operator'' ''x'') in
     guesses (\<lambda>s. s) ''operator'' evs (auth_state (\<lambda>s. s) [(0, 0, LoadUsers None)] auth_new) \<le> 5"
proof -
  let ?evs = "replicate 7 (1000, 0, Login ''operator'' ''x'') :: (int \<times> int \<times> AuthEvent) list"
  have "\<not> login_ok (\<lambda>s. s) ''operator'' ?evs (auth_state (\<lambda>s. s) [(0, 0, LoadUsers None)] auth_new)"
    by code_simp
  from login_guesses_bounded [of ?evs 1000, OF _ this] show ?thesis by (simp add: kLockMs_def)
qed

section \<open>A permission is a verified session\<close>

text \<open>Every \<open>lock\<close> in \<open>post\<close> is followed by an \<open>unlock\<close> with a password that the record of the
  user accepted at that moment; \<open>pre\<close> is what happened before.\<close>

definition unlocked_again ::
  "(string \<Rightarrow> string) \<Rightarrow> (int \<times> int \<times> AuthEvent) list \<Rightarrow> (int \<times> int \<times> AuthEvent) list \<Rightarrow> string \<Rightarrow> bool" where
  "unlocked_again sha pre post name \<longleftrightarrow>
     (\<forall>post1 ev post2. post = post1 @ ev # post2 \<longrightarrow> snd (snd ev) = Lock \<longrightarrow>
       (\<exists>q1 ev' q2 p u. post2 = q1 @ ev' # q2 \<and> snd (snd ev') = Unlock p \<and>
          findUser (auth_state sha (pre @ post1 @ ev # q1) auth_new) name = Some u \<and>
          verifyPassword sha (us_password u) p))"

definition session_of ::
  "(string \<Rightarrow> string) \<Rightarrow> (int \<times> int \<times> AuthEvent) list \<Rightarrow> string \<Rightarrow> UserRole \<Rightarrow> bool \<Rightarrow> bool" where
  "session_of sha evs name role locked \<longleftrightarrow>
     (\<exists>pre ev p post u. evs = pre @ ev # post \<and> snd (snd ev) = Login name p \<and>
        findUser (auth_state sha pre auth_new) name = Some u \<and> verifyPassword sha (us_password u) p \<and>
        us_role u = role \<and> (\<forall>ev' \<in> set post. snd (snd ev') \<noteq> Logout) \<and>
        (\<not> locked \<longrightarrow> unlocked_again sha (pre @ [ev]) post name))"

lemma unlocked_again_snoc:
  assumes "unlocked_again sha pre post name" and "snd (snd ev) \<noteq> Lock"
  shows "unlocked_again sha pre (post @ [ev]) name"
  unfolding unlocked_again_def
proof (intro allI impI)
  fix post1 x post2
  assume split: "post @ [ev] = post1 @ x # post2" and x: "snd (snd x) = Lock"
  with assms(2) obtain post2' where p2: "post2 = post2' @ [ev]" and post: "post = post1 @ x # post2'"
    by (cases post2 rule: rev_cases) auto
  with assms(1) x obtain q1 ev' q2 p u where "post2' = q1 @ ev' # q2" "snd (snd ev') = Unlock p"
    "findUser (auth_state sha (pre @ post1 @ x # q1) auth_new) name = Some u" "verifyPassword sha (us_password u) p"
    unfolding unlocked_again_def by blast
  then show "\<exists>q1 ev' q2 p u. post2 = q1 @ ev' # q2 \<and> snd (snd ev') = Unlock p \<and>
      findUser (auth_state sha (pre @ post1 @ x # q1) auth_new) name = Some u \<and> verifyPassword sha (us_password u) p"
    unfolding p2 by (intro exI [of _ q1] exI [of _ ev'] exI [of _ "q2 @ [ev]"] exI [of _ p] exI [of _ u]) simp
qed

lemma unlocked_again_unlock:
  assumes "snd (snd ev) = Unlock p" and "findUser (auth_state sha (pre @ post) auth_new) name = Some u"
    and "verifyPassword sha (us_password u) p"
  shows "unlocked_again sha pre (post @ [ev]) name"
  unfolding unlocked_again_def
proof (intro allI impI)
  fix post1 x post2
  assume split: "post @ [ev] = post1 @ x # post2" and x: "snd (snd x) = Lock"
  with assms(1) obtain post2' where p2: "post2 = post2' @ [ev]" and post: "post = post1 @ x # post2'"
    by (cases post2 rule: rev_cases) auto
  show "\<exists>q1 ev' q2 p u. post2 = q1 @ ev' # q2 \<and> snd (snd ev') = Unlock p \<and>
      findUser (auth_state sha (pre @ post1 @ x # q1) auth_new) name = Some u \<and> verifyPassword sha (us_password u) p"
    using assms post by (intro exI [of _ post2'] exI [of _ ev] exI [of _ "[]"] exI [of _ p] exI [of _ u]) (simp add: p2)
qed

lemma session_snoc:
  assumes "session_of sha evs name role locked" and "snd (snd ev) \<noteq> Logout"
    and "\<not> locked' \<Longrightarrow> \<not> locked \<and> snd (snd ev) \<noteq> Lock"
  shows "session_of sha (evs @ [ev]) name role locked'"
proof -
  from assms(1) obtain pre e p post u where s: "evs = pre @ e # post" "snd (snd e) = Login name p"
    "findUser (auth_state sha pre auth_new) name = Some u" "verifyPassword sha (us_password u) p" "us_role u = role"
    "\<forall>ev' \<in> set post. snd (snd ev') \<noteq> Logout" "\<not> locked \<longrightarrow> unlocked_again sha (pre @ [e]) post name"
    unfolding session_of_def by blast
  have "\<not> locked' \<longrightarrow> unlocked_again sha (pre @ [e]) (post @ [ev]) name"
    using s(7) assms(3) unlocked_again_snoc by blast
  with s assms(2) show ?thesis
    unfolding session_of_def
    by (intro exI [of _ pre] exI [of _ e] exI [of _ p] exI [of _ "post @ [ev]"] exI [of _ u]) auto
qed

lemma session_unlock:
  assumes "session_of sha evs name role locked" and "snd (snd ev) = Unlock p"
    and "findUser (auth_state sha evs auth_new) name = Some u" and "verifyPassword sha (us_password u) p"
  shows "session_of sha (evs @ [ev]) name role False"
proof -
  from assms(1) obtain pre e p' post u' where s: "evs = pre @ e # post" "snd (snd e) = Login name p'"
    "findUser (auth_state sha pre auth_new) name = Some u'" "verifyPassword sha (us_password u') p'" "us_role u' = role"
    "\<forall>ev' \<in> set post. snd (snd ev') \<noteq> Logout"
    unfolding session_of_def by blast
  have "unlocked_again sha (pre @ [e]) (post @ [ev]) name"
    by (rule unlocked_again_unlock [OF assms(2) _ assms(4)]) (use assms(3) s(1) in simp)
  with s assms(2) show ?thesis
    unfolding session_of_def
    by (intro exI [of _ pre] exI [of _ e] exI [of _ p'] exI [of _ "post @ [ev]"] exI [of _ u']) auto
qed

lemma session_login:
  assumes "snd (snd ev) = Login name p" and "findUser (auth_state sha evs auth_new) name = Some u"
    and "verifyPassword sha (us_password u) p"
  shows "session_of sha (evs @ [ev]) name (us_role u) locked"
  unfolding session_of_def
  by (intro exI [of _ evs] exI [of _ ev] exI [of _ p] exI [of _ "[]"] exI [of _ u])
    (use assms in \<open>simp add: unlocked_again_def\<close>)

text \<open>The calls that leave the session alone.\<close>

fun is_session_call :: "AuthEvent \<Rightarrow> bool" where
  "is_session_call (Login _ _) = True"
| "is_session_call Logout = True"
| "is_session_call Lock = True"
| "is_session_call (Unlock _) = True"
| "is_session_call _ = False"

lemma step_session:
  assumes "\<not> is_session_call (snd (snd ev))"
  shows "am_loggedIn (snd (auth_step sha ev m)) = am_loggedIn m"
    and "am_locked (snd (auth_step sha ev m)) = am_locked m"
    and "am_currentUser (snd (auth_step sha ev m)) = am_currentUser m"
    and "am_currentRole (snd (auth_step sha ev m)) = am_currentRole m"
  using assms
  by (cases "(sha, ev, m)" rule: auth_step.cases;
      auto simp: touchActivity_def addUser_def removeUser_def changePassword_def setMustChange_def
        loadUsersFromJson_def checkPermission_def auditRecord_def clearAudit_def Let_def)+

lemma session_other:
  assumes "\<not> is_session_call (snd (snd ev))" and "m' = snd (auth_step sha ev m)"
    and "am_loggedIn m \<Longrightarrow> session_of sha evs (am_currentUser m) (am_currentRole m) (am_locked m)"
    and "am_loggedIn m'"
  shows "session_of sha (evs @ [ev]) (am_currentUser m') (am_currentRole m') (am_locked m')"
  using assms(3,4) unfolding assms(2) step_session [OF assms(1)]
  by (intro session_snoc [of sha evs _ _ "am_locked m"]) (use assms(1) in auto)

lemma session_reach:
  "am_loggedIn (auth_state sha evs auth_new) \<Longrightarrow>
    session_of sha evs (am_currentUser (auth_state sha evs auth_new)) (am_currentRole (auth_state sha evs auth_new))
      (am_locked (auth_state sha evs auth_new))"
proof (induction evs rule: rev_induct)
  case Nil
  then show ?case by (simp add: auth_new_def)
next
  case (snoc ev evs)
  let ?m = "auth_state sha evs auth_new" and ?m' = "auth_state sha (evs @ [ev]) auth_new"
  obtain now tick e where ev: "ev = (now, tick, e)" by (cases ev)
  have m': "?m' = snd (auth_step sha ev ?m)" by simp
  show ?case
  proof (cases e)
    case (Login name p)
    show ?thesis
    proof (cases "fst (login sha now tick name p ?m)")
      case True
      then obtain u where "findUser ?m name = Some u" "verifyPassword sha (us_password u) p"
        "am_currentUser ?m' = name" "am_currentRole ?m' = us_role u"
        by (auto simp: ev Login login_def Let_def case_prod_beta split: if_splits option.splits)
      then show ?thesis using session_login [of ev name p] by (simp add: ev Login del: auth_state_simps(3))
    next
      case False
      then have "am_loggedIn ?m' = am_loggedIn ?m" "am_locked ?m' = am_locked ?m"
        "am_currentUser ?m' = am_currentUser ?m" "am_currentRole ?m' = am_currentRole ?m"
        by (auto simp: ev Login login_def loginFailed_def Let_def case_prod_beta split: if_splits option.splits)
      then show ?thesis using snoc session_snoc [of sha evs _ _ _ ev] by (simp add: ev Login del: auth_state_simps(3))
    qed
  next
    case Logout
    then show ?thesis using snoc.prems by (simp add: ev logout_def Let_def)
  next
    case Lock
    then have "am_loggedIn ?m" and s: "am_locked ?m'" "am_currentUser ?m' = am_currentUser ?m" "am_currentRole ?m' = am_currentRole ?m"
      using snoc.prems by (auto simp: ev lock_def split: if_splits)
    then show ?thesis using snoc.IH session_snoc [of sha evs _ _ _ ev True] by (simp add: ev Lock del: auth_state_simps(3))
  next
    case (Unlock p)
    show ?thesis
    proof (cases "fst (unlock sha now tick p ?m)")
      case True
      then obtain u where "am_loggedIn ?m" "findUser ?m (am_currentUser ?m) = Some u" "verifyPassword sha (us_password u) p"
        "\<not> am_locked ?m'" "am_currentUser ?m' = am_currentUser ?m" "am_currentRole ?m' = am_currentRole ?m"
        by (auto simp: ev Unlock unlock_def Let_def case_prod_beta split: if_splits option.splits)
      then show ?thesis using snoc.IH session_unlock [of sha evs _ _ _ ev p u] by (simp add: ev Unlock del: auth_state_simps(3))
    next
      case False
      then have "am_loggedIn ?m' = am_loggedIn ?m" "am_locked ?m' = am_locked ?m"
        "am_currentUser ?m' = am_currentUser ?m" "am_currentRole ?m' = am_currentRole ?m"
        by (auto simp: ev Unlock unlock_def Let_def case_prod_beta split: if_splits option.splits)
      then show ?thesis using snoc session_snoc [of sha evs _ _ _ ev] by (simp add: ev Unlock del: auth_state_simps(3))
    qed
  qed (use snoc session_other [of ev ?m' sha ?m evs] in \<open>simp_all add: ev\<close>)
qed

text \<open>Property C25: whenever \<open>checkPermission\<close> grants a permission, some user logged in earlier with a
  password that the user's record accepted at that moment, the role of that record has the permission, nobody
  logged out since, and every lock since was followed by an unlock with a password that the user's record
  accepted.\<close>

theorem permission_needs_login:
  assumes "fst (checkPermission now perm (auth_state sha evs auth_new))"
  shows "\<exists>pre ev post name p u. evs = pre @ ev # post \<and> snd (snd ev) = Login name p \<and>
    findUser (auth_state sha pre auth_new) name = Some u \<and> verifyPassword sha (us_password u) p \<and>
    roleHasPermission (us_role u) perm \<and> (\<forall>ev' \<in> set post. snd (snd ev') \<noteq> Logout) \<and>
    unlocked_again sha (pre @ [ev]) post name"
proof -
  have "am_loggedIn (auth_state sha evs auth_new)" and free: "\<not> am_locked (auth_state sha evs auth_new)"
    and perm: "roleHasPermission (am_currentRole (auth_state sha evs auth_new)) perm"
    using assms by (simp_all add: checkPermission_def Let_def)
  from session_reach [OF this(1)] free perm show ?thesis unfolding session_of_def by metis
qed

definition demo_auth :: "(int \<times> int \<times> AuthEvent) list" where
  "demo_auth = [(0, 0, AddUser ''na'' ''ann'' ''pw'' Engineer), (5, 0, Login ''ann'' ''pw''), (6, 0, Lock),
     (7, 0, Unlock ''no''), (8, 0, Unlock ''pw'')]"

lemma demo_auth_permits: "fst (checkPermission 9 kSboSelect (auth_state (\<lambda>s. s) demo_auth auth_new))"
  by code_simp

theorem permission_needs_login_witness:
  "\<exists>pre ev post name p u. demo_auth = pre @ ev # post \<and> snd (snd ev) = Login name p \<and>
    findUser (auth_state (\<lambda>s. s) pre auth_new) name = Some u \<and> verifyPassword (\<lambda>s. s) (us_password u) p \<and>
    roleHasPermission (us_role u) kSboSelect \<and> (\<forall>ev' \<in> set post. snd (snd ev') \<noteq> Logout) \<and>
    unlocked_again (\<lambda>s. s) (pre @ [ev]) post name"
  by (rule permission_needs_login [OF demo_auth_permits])

section \<open>The user file\<close>

lemma roleFromString_known:
  "roleFromString ''Admin'' = Admin" "roleFromString ''Engineer'' = Engineer" "roleFromString ''Operator'' = Operator"
  by code_simp+

lemma roleFromString_name [simp]: "roleFromString (role_name r) = r"
  by (cases r) (simp_all add: roleFromString_known)

lemma user_from_to_json [simp]: "user_from_json (user_to_json u) = u"
  by (simp add: user_from_json_def user_to_json_def q_value_def)

text \<open>Property C27: the user file that \<open>saveUsersToJson\<close> writes gives, read back by
  \<open>loadUsersFromJson\<close>, the users that were saved, with their roles and flags, when there is one and each has
  a name and a password.\<close>

theorem users_save_load:
  assumes "saveUsersToJson now True True path m = (True, Some doc, m1)"
    and "parse text = Some doc"
    and "am_users m \<noteq> []" and "\<forall>u \<in> set (am_users m). us_username u \<noteq> [] \<and> us_password u \<noteq> []"
  shows "loadUsersFromJson parse (Some text) m2 = (True, m2\<lparr>am_users := am_users m\<rparr>)"
proof -
  have doc: "doc = users_to_json (am_users m)" using assms(1) by (simp add: saveUsersToJson_def)
  show ?thesis
    using assms(2-) by (simp add: loadUsersFromJson_def doc users_to_json_def q_value_def comp_def Let_def)
qed

theorem users_save_load_witness:
  "let m = auth_state (\<lambda>s. s) demo_auth auth_new; doc = users_to_json (am_users m) in
     loadUsersFromJson (\<lambda>_. Some doc) (Some ''text'') auth_new = (True, auth_new\<lparr>am_users := am_users m\<rparr>)"
proof -
  let ?m = "auth_state (\<lambda>s. s) demo_auth auth_new"
  have "am_users ?m \<noteq> []" and "list_all (\<lambda>u. us_username u \<noteq> [] \<and> us_password u \<noteq> []) (am_users ?m)" by code_simp+
  then show ?thesis unfolding Let_def
    by (intro users_save_load [of 0 "''f''" ?m _ "appendAudit 0 ''admin'' ''user.save'' ''f'' True ?m"])
      (simp_all add: saveUsersToJson_def list_all_iff)
qed

end
