(* ===== verification/DownSampler.thy ===== *)
theory DownSampler
  imports L1Store "HOL-Library.AList"
begin

text \<open>
  Aggregation of samples over time windows, \<^verbatim>\<open>apps/ens_app/src/datahub/DownSampler.h\<close> and
  \<^verbatim>\<open>.cpp\<close>. The hash map of the points is a map; the hash map of the windows of a point is an
  association list in the order of insertion, which stands for the order the map is iterated
  in. \<open>nowMs\<close> is the argument of \<open>rollUp\<close>, \<open>sysMs\<close> the system clock it reads for \<open>nowMs = 0\<close>.
\<close>

section \<open>The code\<close>

datatype HistoryGranularity = Gran100ms | Gran1s | Gran5s | Gran1m

record Bucket =
  bk_windowStart :: u64
  bk_maxV :: fl
  bk_minV :: fl
  bk_sumV :: fl
  bk_firstV :: fl
  bk_lastV :: fl
  bk_count :: u32
  bk_hasFirst :: bool

definition bucket_new :: Bucket where
  "bucket_new = \<lparr>bk_windowStart = 0, bk_maxV = NInf, bk_minV = PInf, bk_sumV = Fin 0, bk_firstV = Fin 0,
     bk_lastV = Fin 0, bk_count = 0, bk_hasFirst = False\<rparr>"

record DownSampledSample =
  ds_pointId :: u32
  ds_timestamp :: u64
  ds_maxValue :: fl
  ds_minValue :: fl
  ds_avgValue :: fl
  ds_sampleCount :: u16

type_synonym DownSampler = "u32 \<rightharpoonup> (u64 \<times> Bucket) list"

definition downsampler_new :: DownSampler where
  "downsampler_new = Map.empty"

fun windowMs :: "HistoryGranularity \<Rightarrow> u64" where
  "windowMs Gran100ms = 100"
| "windowMs Gran1s = 1000"
| "windowMs Gran5s = 5000"
| "windowMs Gran1m = 60000"

definition alignToWindow :: "u64 \<Rightarrow> HistoryGranularity \<Rightarrow> u64" where
  "alignToWindow ts gran = (let w = windowMs gran in (ts div w) * w)"

definition bucket_add :: "u64 \<Rightarrow> fl \<Rightarrow> Bucket \<Rightarrow> Bucket" where
  "bucket_add win v b =
     (let b1 = (if bk_windowStart b = 0 then b\<lparr>bk_windowStart := win\<rparr> else b);
          b2 = (if \<not> bk_hasFirst b1 then b1\<lparr>bk_firstV := v, bk_hasFirst := True\<rparr> else b1)
      in b2\<lparr>bk_lastV := v, bk_maxV := fl_max (bk_maxV b2) v, bk_minV := fl_min (bk_minV b2) v,
            bk_sumV := fl_add round32 (bk_sumV b2) v, bk_count := bk_count b2 + 1\<rparr>)"

definition feed :: "u32 \<Rightarrow> Sample \<Rightarrow> HistoryGranularity \<Rightarrow> DownSampler \<Rightarrow> DownSampler" where
  "feed pointId s gran m =
     (if sm_timestamp s = 0 then m
      else let win = alignToWindow (sm_timestamp s) gran;
               perPoint = (case m pointId of Some l \<Rightarrow> l | None \<Rightarrow> []);
               b = (case map_of perPoint win of Some b \<Rightarrow> b | None \<Rightarrow> bucket_new)
           in m(pointId \<mapsto> AList.update win (bucket_add win (sm_value s) b) perPoint))"

definition summary_of :: "u32 \<Rightarrow> Bucket \<Rightarrow> DownSampledSample" where
  "summary_of pointId b =
     \<lparr>ds_pointId = pointId, ds_timestamp = bk_windowStart b, ds_maxValue = bk_maxV b, ds_minValue = bk_minV b,
      ds_avgValue = (if bk_count b \<noteq> 0
                     then fl_div round32 (bk_sumV b) (round32 (of_nat (unat (bk_count b)))) else Fin 0),
      ds_sampleCount = ucast (bk_count b)\<rparr>"

definition rollUp ::
  "u32 \<Rightarrow> HistoryGranularity \<Rightarrow> u64 \<Rightarrow> u64 \<Rightarrow> DownSampler \<Rightarrow> DownSampledSample list \<times> DownSampler" where
  "rollUp pointId gran nowMs sysMs m =
     (case m pointId of
        None \<Rightarrow> ([], m)
      | Some perPoint \<Rightarrow>
          let nowWin = alignToWindow (if nowMs = 0 then sysMs else nowMs) gran
          in (map (\<lambda>(_, b). summary_of pointId b) (filter (\<lambda>(k, _). k < nowWin) perPoint),
              m(pointId \<mapsto> filter (\<lambda>(k, _). \<not> k < nowWin) perPoint)))"

definition bucketCount :: "u32 \<Rightarrow> DownSampler \<Rightarrow> nat" where
  "bucketCount pointId m = (case m pointId of None \<Rightarrow> 0 | Some l \<Rightarrow> length l)"

definition downsampler_clear :: "DownSampler \<Rightarrow> DownSampler" where
  "downsampler_clear m = Map.empty"

section \<open>Runs at one granularity\<close>

datatype DsEvent = Feed u32 Sample | Roll u32 u64 u64

fun ds_step :: "HistoryGranularity \<Rightarrow> DsEvent \<Rightarrow> DownSampler \<Rightarrow> DownSampledSample list \<times> DownSampler" where
  "ds_step g (Feed p s) m = ([], feed p s g m)"
| "ds_step g (Roll p now sys) m = rollUp p g now sys m"

fun ds_run :: "HistoryGranularity \<Rightarrow> DsEvent list \<Rightarrow> DownSampler \<Rightarrow> DownSampledSample list \<times> DownSampler" where
  "ds_run g [] m = ([], m)"
| "ds_run g (e # es) m =
     (case ds_step g e m of (out, m1) \<Rightarrow> case ds_run g es m1 of (out', m2) \<Rightarrow> (out @ out', m2))"

text \<open>The values fed to a point in a window, in order.\<close>

fun fed_values :: "HistoryGranularity \<Rightarrow> u32 \<Rightarrow> u64 \<Rightarrow> DsEvent list \<Rightarrow> fl list" where
  "fed_values g p w [] = []"
| "fed_values g p w (Feed q s # es) =
     (if q = p \<and> sm_timestamp s \<noteq> 0 \<and> alignToWindow (sm_timestamp s) g = w then [sm_value s] else []) @
     fed_values g p w es"
| "fed_values g p w (Roll _ _ _ # es) = fed_values g p w es"

definition bucket_of :: "u64 \<Rightarrow> fl list \<Rightarrow> Bucket" where
  "bucket_of w vs = foldl (\<lambda>b v. bucket_add w v b) bucket_new vs"

section \<open>A bucket is the aggregate of its values\<close>

lemma bucket_of_simps [simp]:
  "bucket_of w [] = bucket_new" "bucket_of w [v] = bucket_add w v bucket_new" "bucket_of w (vs @ [v]) = bucket_add w v (bucket_of w vs)"
  by (simp_all add: bucket_of_def)

lemma bucket_of_start [simp]: "vs \<noteq> [] \<Longrightarrow> bk_windowStart (bucket_of w vs) = w"
proof (induction vs rule: rev_induct)
  case (snoc v vs)
  then show ?case by (cases "vs = []") (simp_all add: bucket_add_def bucket_new_def Let_def)
qed simp

lemma bucket_of_fields:
  "bk_maxV (bucket_of w vs) = foldl fl_max NInf vs"
  "bk_minV (bucket_of w vs) = foldl fl_min PInf vs"
  "bk_sumV (bucket_of w vs) = foldl (fl_add round32) (Fin 0) vs"
  "bk_count (bucket_of w vs) = of_nat (length vs)"
  by (induction vs rule: rev_induct) (simp_all add: bucket_add_def bucket_new_def Let_def)

lemma fl_max_bounds: "v \<in> set vs \<Longrightarrow> \<not> fl_less (foldl fl_max a vs) v"
proof (induction vs rule: rev_induct)
  case (snoc x vs)
  have "\<not> fl_less m v \<Longrightarrow> \<not> fl_less (fl_max m x) v" for m
    unfolding fl_max_def by (cases m; cases x; cases v) auto
  moreover have "\<not> fl_less (fl_max m x) x" for m unfolding fl_max_def by simp
  ultimately show ?case using snoc by auto
qed simp

lemma fl_min_bounds: "v \<in> set vs \<Longrightarrow> \<not> fl_less v (foldl fl_min a vs)"
proof (induction vs rule: rev_induct)
  case (snoc x vs)
  have "\<not> fl_less v m \<Longrightarrow> \<not> fl_less v (fl_min m x)" for m
    unfolding fl_min_def by (cases m; cases x; cases v) auto
  moreover have "\<not> fl_less x (fl_min m x)" for m unfolding fl_min_def by simp
  ultimately show ?case using snoc by auto
qed simp

text \<open>The record of a window in which the values \<open>vs\<close> were fed.\<close>

definition window_summary :: "u32 \<Rightarrow> u64 \<Rightarrow> fl list \<Rightarrow> DownSampledSample" where
  "window_summary p w vs =
     \<lparr>ds_pointId = p, ds_timestamp = w, ds_maxValue = foldl fl_max NInf vs, ds_minValue = foldl fl_min PInf vs,
      ds_avgValue = (if (of_nat (length vs) :: u32) \<noteq> 0
        then fl_div round32 (foldl (fl_add round32) (Fin 0) vs) (round32 (of_nat (unat (of_nat (length vs) :: u32))))
        else Fin 0),
      ds_sampleCount = ucast (of_nat (length vs) :: u32)\<rparr>"

lemma summary_of_bucket [simp]: "vs \<noteq> [] \<Longrightarrow> summary_of p (bucket_of w vs) = window_summary p w vs"
  by (simp add: summary_of_def window_summary_def bucket_of_fields)

section \<open>Every sample is in one record or in the open bucket\<close>

definition ds_holds :: "DownSampler \<Rightarrow> (u32 \<Rightarrow> u64 \<Rightarrow> fl list) \<Rightarrow> bool" where
  "ds_holds m pend \<longleftrightarrow>
     (\<forall>p. case m p of
        None \<Rightarrow> \<forall>w. pend p w = []
      | Some l \<Rightarrow> distinct (map fst l) \<and>
          (\<forall>w. map_of l w = (if pend p w = [] then None else Some (bucket_of w (pend p w)))))"

lemma ds_holds_new: "ds_holds downsampler_new (\<lambda>p w. [])"
  by (simp add: ds_holds_def downsampler_new_def)

lemma ds_holds_feed:
  assumes "ds_holds m pend"
  shows "ds_holds (feed p s g m) (\<lambda>q w. pend q w @ fed_values g q w [Feed p s])"
  unfolding ds_holds_def
proof
  fix q
  from assms have q: "case m q of None \<Rightarrow> \<forall>w. pend q w = []
      | Some l \<Rightarrow> distinct (map fst l) \<and> (\<forall>w. map_of l w = (if pend q w = [] then None else Some (bucket_of w (pend q w))))"
    by (simp add: ds_holds_def)
  show "case feed p s g m q of None \<Rightarrow> \<forall>w. pend q w @ fed_values g q w [Feed p s] = []
      | Some l \<Rightarrow> distinct (map fst l) \<and> (\<forall>w. map_of l w = (if pend q w @ fed_values g q w [Feed p s] = [] then None
          else Some (bucket_of w (pend q w @ fed_values g q w [Feed p s]))))"
  proof (cases "p = q \<and> sm_timestamp s \<noteq> 0")
    case False
    with q show ?thesis by (auto simp: feed_def Let_def split: option.split)
  next
    case True
    with q show ?thesis
      by (cases "m q") (auto simp: feed_def Let_def distinct_update update_conv' split: option.split)
  qed
qed

lemma filter_key:
  "distinct (map fst l) \<Longrightarrow> filter (\<lambda>(k, _). k = w) l = (case map_of l w of None \<Rightarrow> [] | Some b \<Rightarrow> [(w, b)])"
proof (induction l)
  case (Cons x l)
  then show ?case
    by (cases x) (auto simp: filter_empty_conv map_of_eq_None_iff image_iff split: option.splits)
qed simp

lemma map_of_filter_keys: "map_of (filter (\<lambda>(k, _). P k) l) w = (if P w then map_of l w else None)"
  by (induction l) auto

lemma ds_holds_roll:
  assumes "ds_holds m pend" and roll: "rollUp p g now sys m = (out, m')"
  defines "nw \<equiv> alignToWindow (if now = 0 then sys else now) g"
  shows "ds_holds m' (\<lambda>q w. if q = p \<and> w < nw then [] else pend q w)"
    and "filter (\<lambda>r. ds_pointId r = q \<and> ds_timestamp r = w) out =
      (if q = p \<and> w < nw \<and> pend p w \<noteq> [] then [window_summary p w (pend p w)] else [])"
proof -
  have P: "case m p of None \<Rightarrow> \<forall>w. pend p w = []
      | Some l \<Rightarrow> distinct (map fst l) \<and> (\<forall>w. map_of l w = (if pend p w = [] then None else Some (bucket_of w (pend p w))))"
    using assms(1) by (simp add: ds_holds_def)
  show "ds_holds m' (\<lambda>q w. if q = p \<and> w < nw then [] else pend q w)"
  proof (cases "m p")
    case None
    with P roll have "m' = m" and "(\<lambda>q w. if q = p \<and> w < nw then [] else pend q w) = pend"
      by (auto simp: rollUp_def fun_eq_iff)
    with assms(1) show ?thesis by simp
  next
    case (Some l)
    have m': "m' = m(p \<mapsto> filter (\<lambda>(k, _). \<not> k < nw) l)"
      using roll Some by (simp add: rollUp_def Let_def nw_def)
    show ?thesis unfolding ds_holds_def
    proof
      fix q
      show "case m' q of None \<Rightarrow> \<forall>w. (if q = p \<and> w < nw then [] else pend q w) = []
          | Some l \<Rightarrow> distinct (map fst l) \<and> (\<forall>w. map_of l w = (if (if q = p \<and> w < nw then [] else pend q w) = [] then None
              else Some (bucket_of w (if q = p \<and> w < nw then [] else pend q w))))"
      proof (cases "q = p")
        case True
        with P Some show ?thesis by (simp add: m' distinct_map_filter map_of_filter_keys)
      next
        case False
        then show ?thesis
          using spec [OF assms(1) [unfolded ds_holds_def], of q] by (cases "m q") (simp_all add: m')
      qed
    qed
  qed
  show "filter (\<lambda>r. ds_pointId r = q \<and> ds_timestamp r = w) out =
      (if q = p \<and> w < nw \<and> pend p w \<noteq> [] then [window_summary p w (pend p w)] else [])"
  proof (cases "m p")
    case None
    with P roll show ?thesis by (simp add: rollUp_def)
  next
    case (Some l)
    with P have d: "distinct (map fst l)"
      and l: "map_of l w = (if pend p w = [] then None else Some (bucket_of w (pend p w)))" for w by auto
    have start: "bk_windowStart b = k" if "(k, b) \<in> set l" for k b
      using l [of k] map_of_is_SomeI [OF d that] by (auto split: if_splits)
    have out: "out = map (\<lambda>(_, b). summary_of p b) (filter (\<lambda>(k, _). k < nw) l)"
      using roll Some by (simp add: rollUp_def Let_def nw_def)
    have "filter (\<lambda>r. ds_pointId r = q \<and> ds_timestamp r = w) out =
        map (\<lambda>(_, b). summary_of p b) (filter (\<lambda>(k, _). q = p \<and> k = w \<and> k < nw) l)"
      unfolding out filter_map filter_filter comp_def
      by (rule arg_cong [of _ _ "map (\<lambda>(_, b). summary_of p b)"], rule filter_cong)
        (auto simp: summary_of_def dest: start)
    also have "filter (\<lambda>(k, _). q = p \<and> k = w \<and> k < nw) l = (if q = p \<and> w < nw then filter (\<lambda>(k, _). k = w) l else [])"
    proof (cases "q = p \<and> w < nw")
      case True
      then show ?thesis by (simp cong: conj_cong)
    next
      case False
      then have "filter (\<lambda>(k, _). q = p \<and> k = w \<and> k < nw) l = []" by (auto simp: filter_empty_conv)
      with False show ?thesis by presburger
    qed
    finally show ?thesis unfolding filter_key [OF d, of w] l by simp
  qed
qed

lemma ds_run_chunks:
  "ds_holds m pend \<Longrightarrow> ds_run g evs m = (out, m') \<Longrightarrow>
    \<exists>chunks rest. pend p w @ fed_values g p w evs = concat chunks @ rest \<and> [] \<notin> set chunks \<and>
      filter (\<lambda>r. ds_pointId r = p \<and> ds_timestamp r = w) out = map (window_summary p w) chunks \<and>
      (case m' p of None \<Rightarrow> rest = [] | Some l \<Rightarrow> map_of l w = (if rest = [] then None else Some (bucket_of w rest)))"
proof (induction evs arbitrary: m pend out)
  case Nil
  have "case m p of None \<Rightarrow> \<forall>w. pend p w = []
      | Some l \<Rightarrow> distinct (map fst l) \<and> (\<forall>w. map_of l w = (if pend p w = [] then None else Some (bucket_of w (pend p w))))"
    using Nil.prems(1) by (simp add: ds_holds_def)
  with Nil.prems(2) show ?case
    by (intro exI [of _ "[]"] exI [of _ "pend p w"]) (auto split: option.splits)
next
  case (Cons ev evs)
  obtain o1 m1 o2 where step: "ds_step g ev m = (o1, m1)" and run: "ds_run g evs m1 = (o2, m')" and out: "out = o1 @ o2"
    using Cons.prems(2) by (auto split: prod.splits)
  show ?case
  proof (cases ev)
    case (Feed q s)
    with step have m1: "m1 = feed q s g m" and o1: "o1 = []" by auto
    have "fed_values g p w (ev # evs) = fed_values g p w [Feed q s] @ fed_values g p w evs" by (simp add: Feed)
    with Cons.IH [OF ds_holds_feed [OF Cons.prems(1)] run [unfolded m1]] show ?thesis
      unfolding out o1 by simp
  next
    case (Roll q now sys)
    with step have roll: "rollUp q g now sys m = (o1, m1)" by simp
    define nw where "nw = alignToWindow (if now = 0 then sys else now) g"
    note held = ds_holds_roll [OF Cons.prems(1) roll, folded nw_def]
    obtain chunks rest where IH: "(if p = q \<and> w < nw then [] else pend p w) @ fed_values g p w evs = concat chunks @ rest"
      "[] \<notin> set chunks" "filter (\<lambda>r. ds_pointId r = p \<and> ds_timestamp r = w) o2 = map (window_summary p w) chunks"
      "case m' p of None \<Rightarrow> rest = [] | Some l \<Rightarrow> map_of l w = (if rest = [] then None else Some (bucket_of w rest))"
      using Cons.IH [OF held(1) run] by blast
    let ?c = "if p = q \<and> w < nw \<and> pend p w \<noteq> [] then [pend p w] else []"
    have "pend p w @ fed_values g p w (ev # evs) = concat (?c @ chunks) @ rest"
      using IH(1) by (auto simp: Roll split: if_splits)
    moreover have "filter (\<lambda>r. ds_pointId r = p \<and> ds_timestamp r = w) out = map (window_summary p w) (?c @ chunks)"
      using IH(3) held(2) [of p w] by (auto simp: out)
    ultimately show ?thesis using IH(2,4) by (intro exI [of _ "?c @ chunks"] exI [of _ rest]) auto
  qed
qed

text \<open>Whatever the order in which samples are fed and windows rolled up at one
  granularity, the samples of a point in a window are split, in order, into the groups that the records of the
  window aggregate and the open bucket. A record carries the number of its samples (below 65536), and every
  value that is a number lies between its minimum and its maximum.\<close>

theorem downsample_accounts:
  "let (out, m) = ds_run g evs downsampler_new in
    \<exists>chunks rest. fed_values g p w evs = concat chunks @ rest \<and> [] \<notin> set chunks \<and>
      filter (\<lambda>r. ds_pointId r = p \<and> ds_timestamp r = w) out = map (window_summary p w) chunks \<and>
      (case m p of None \<Rightarrow> rest = [] | Some l \<Rightarrow> map_of l w = (if rest = [] then None else Some (bucket_of w rest))) \<and>
      (\<forall>vs \<in> set chunks. \<forall>v \<in> set vs. \<not> fl_less (ds_maxValue (window_summary p w vs)) v \<and>
          \<not> fl_less v (ds_minValue (window_summary p w vs))) \<and>
      (\<forall>vs \<in> set chunks. length vs < 2 ^ 16 \<longrightarrow> unat (ds_sampleCount (window_summary p w vs)) = length vs)"
proof -
  obtain out m where run: "ds_run g evs downsampler_new = (out, m)" by (cases "ds_run g evs downsampler_new")
  have count: "length vs < 2 ^ 16 \<Longrightarrow> unat (ds_sampleCount (window_summary p w vs)) = length vs" for vs
    by (simp add: window_summary_def unat_ucast_u32_u16 unat_of_nat)
  show ?thesis
    using ds_run_chunks [OF ds_holds_new run, of p w] fl_max_bounds [of _ _ NInf] fl_min_bounds [of _ _ PInf] count
    unfolding run Let_def by (auto simp: window_summary_def)
qed

definition demo_ds :: "DsEvent list" where
  "demo_ds = [Feed 7 \<lparr>sm_timestamp = 1100, sm_pointId = 7, sm_value = Fin 3\<rparr>,
     Feed 7 \<lparr>sm_timestamp = 1900, sm_pointId = 7, sm_value = Fin 5\<rparr>, Roll 7 2000 0,
     Feed 7 \<lparr>sm_timestamp = 1950, sm_pointId = 7, sm_value = Fin 1\<rparr>, Roll 7 2500 0]"

lemma demo_ds_fed: "fed_values Gran1s 7 1000 demo_ds = [Fin 3, Fin 5, Fin 1]"
  by (simp add: demo_ds_def alignToWindow_def Let_def)

theorem downsample_accounts_witness:
  "\<exists>chunks rest. [Fin 3, Fin 5, Fin 1] = concat chunks @ rest \<and> [] \<notin> set chunks \<and>
     filter (\<lambda>r. ds_pointId r = 7 \<and> ds_timestamp r = 1000) (fst (ds_run Gran1s demo_ds downsampler_new)) =
       map (window_summary 7 1000) chunks"
  using downsample_accounts [of Gran1s demo_ds 7 1000]
  unfolding demo_ds_fed by (cases "ds_run Gran1s demo_ds downsampler_new") auto

end
