(* ===== verification/SqlStore.thy ===== *)
theory SqlStore
  imports DownSampler Json
begin

text \<open>
  The SQLite access layer, \<^verbatim>\<open>apps/ens_app/src/datahub/SQLiteDataAccess.h\<close> and \<^verbatim>\<open>.cpp\<close>, with
  \<^verbatim>\<open>AlarmRecord.h\<close> and \<^verbatim>\<open>IAlarmAccess.h\<close>. The database files are part of the state: a file maps
  table names to rows, and the SQL statements of the code are written out on the rows
  (\<open>CREATE TABLE IF NOT EXISTS\<close>, \<open>INSERT\<close> with the primary key and the constraints, where a NaN is stored as
  NULL, \<open>UPDATE\<close>, \<open>SELECT\<close>). The order of alarms of one trigger time is left open, by SQL and by the
  unstable \<open>std::sort\<close> of the code: it is given by two parameters, \<open>tie\<close> for the table and \<open>ord\<close> for the
  final sort, of which nothing is assumed.
  A transaction that fails leaves the table as it was. Whether an access to a file succeeds is the answer
  \<open>ok\<close>, an argument of every operation. The calendar of the local time zone is a parameter. The layer is used
  by one thread, so the flag \<open>m_isWritingBatch\<close>, set and cleared within a call, is left out.
\<close>

section \<open>The code: data\<close>

record AlarmRecord =
  rc_id :: u64
  rc_pointId :: u32
  rc_level :: int
  rc_status :: int
  rc_triggerTime :: u64
  rc_recoverTime :: u64
  rc_confirmUser :: string
  rc_confirmTime :: u64
  rc_alarmValue :: fl
  rc_threshold :: fl
  rc_description :: string
  rc_blackboxId :: u64

record AlarmQueryFilter =
  fq_beginMs :: u64
  fq_endMs :: u64
  fq_level :: int
  fq_status :: int
  fq_pointId :: u32
  fq_limit :: int

record HistoryRow =
  hr_point_id :: int
  hr_ts :: int
  hr_v_max :: fl
  hr_v_min :: fl
  hr_v_avg :: fl
  hr_sample_count :: int

text \<open>\<open>QDateTime\<close> in local time, on milliseconds since the epoch: \<open>isValid\<close>, \<open>toString("yyyyMM")\<close>,
  \<open>fromString(s, "yyyyMM")\<close> (\<open>None\<close> if invalid), the first instant of the month, \<open>addMonths(1)\<close>.\<close>

record Calendar =
  cal_valid :: "int \<Rightarrow> bool"
  cal_month :: "int \<Rightarrow> string"
  cal_parse :: "string \<Rightarrow> int option"
  cal_first :: "int \<Rightarrow> int"
  cal_next :: "int \<Rightarrow> int"

datatype SqlOp = OpOpen | OpPragmas | OpCreate | OpBegin | OpPrepare | OpExec | OpCommit | OpQuery

type_synonym SqlAnswer = "SqlOp \<Rightarrow> string \<Rightarrow> bool"

text \<open>\<open>sq_conns\<close> is \<open>m_connForPath\<close>: \<open>True\<close> for an open connection, \<open>False\<close> for the default value that
  \<open>operator[]\<close> inserts, on which every statement fails.\<close>

record SqlState =
  sq_root :: string
  sq_conns :: "string \<rightharpoonup> bool"
  sq_nextConnIdx :: nat
  sq_hist :: "string \<rightharpoonup> string \<rightharpoonup> HistoryRow list"
  sq_alarm :: "string \<rightharpoonup> string \<rightharpoonup> AlarmRecord list"

definition kMaxSaneTs :: u64 where "kMaxSaneTs = 4102444800000"

definition dal_new :: "string \<Rightarrow> (string \<rightharpoonup> string \<rightharpoonup> HistoryRow list) \<Rightarrow>
    (string \<rightharpoonup> string \<rightharpoonup> AlarmRecord list) \<Rightarrow> SqlState" where
  "dal_new dir hist alarm = \<lparr>sq_root = dir, sq_conns = Map.empty, sq_nextConnIdx = 0, sq_hist = hist,
     sq_alarm = alarm\<rparr>"

section \<open>The code: names\<close>

definition file_name :: "string \<Rightarrow> string" where
  "file_name path = rev (takeWhile (\<lambda>c. c \<noteq> CHR ''/'') (rev path))"

definition month_start :: "Calendar \<Rightarrow> string \<Rightarrow> u64" where
  "month_start cal yyyymm = (case cal_parse cal yyyymm of None \<Rightarrow> 0 | Some t \<Rightarrow> word_of_int t)"

definition monthStartFromDbPath :: "Calendar \<Rightarrow> string \<Rightarrow> u64" where
  "monthStartFromDbPath cal dbPath =
     (let filename = file_name dbPath
      in if take 5 filename \<noteq> ''data_'' then 0 else month_start cal (take 6 (drop 5 filename)))"

definition alarmMonthFromDbPath :: "Calendar \<Rightarrow> string \<Rightarrow> u64" where
  "alarmMonthFromDbPath cal dbPath =
     (let filename = file_name dbPath
      in if take 6 filename \<noteq> ''alarm_'' then 0 else month_start cal (take 6 (drop 6 filename)))"

definition alarmTableNameOf :: "Calendar \<Rightarrow> u64 \<Rightarrow> string" where
  "alarmTableNameOf cal ts =
     (if ts = 0 \<or> ts > kMaxSaneTs then []
      else if \<not> cal_valid cal (sint ts) then []
      else ''alarm_record_'' @ cal_month cal (sint ts))"

fun granularitySuffix :: "HistoryGranularity \<Rightarrow> string" where
  "granularitySuffix Gran100ms = ''_100ms''"
| "granularitySuffix Gran1s = ''_1s''"
| "granularitySuffix Gran5s = ''_5s''"
| "granularitySuffix Gran1m = ''_1m''"

definition getTableName :: "Calendar \<Rightarrow> u64 \<Rightarrow> HistoryGranularity \<Rightarrow> string" where
  "getTableName cal ts gran =
     (if ts = 0 \<or> ts > kMaxSaneTs then []
      else if \<not> cal_valid cal (sint ts) then []
      else ''history'' @ granularitySuffix gran @ ''_'' @ cal_month cal (sint ts))"

definition getDatabasePath :: "Calendar \<Rightarrow> string \<Rightarrow> u64 \<Rightarrow> string" where
  "getDatabasePath cal dir ts =
     (let yyyymm = cal_month cal (sint ts)
      in dir @ ''/history/'' @ yyyymm @ ''/data_'' @ yyyymm @ ''.db'')"

definition getAlarmDatabasePath :: "Calendar \<Rightarrow> string \<Rightarrow> u64 \<Rightarrow> string" where
  "getAlarmDatabasePath cal dir ts =
     (let yyyymm = cal_month cal (sint ts)
      in dir @ ''/alarm/'' @ yyyymm @ ''/alarm_'' @ yyyymm @ ''.db'')"

section \<open>The code: connections and tables\<close>

definition make_table :: "string \<Rightarrow> string \<Rightarrow> (string \<rightharpoonup> string \<rightharpoonup> 'r list) \<Rightarrow> (string \<rightharpoonup> string \<rightharpoonup> 'r list)" where
  "make_table path table files =
     (let ts = (case files path of Some ts \<Rightarrow> ts | None \<Rightarrow> Map.empty)
      in files(path \<mapsto> (if ts table = None then ts(table \<mapsto> []) else ts)))"

definition make_file :: "string \<Rightarrow> (string \<rightharpoonup> string \<rightharpoonup> 'r list) \<Rightarrow> (string \<rightharpoonup> string \<rightharpoonup> 'r list)" where
  "make_file path files = (if files path = None then files(path \<mapsto> Map.empty) else files)"

definition table_rows :: "(string \<rightharpoonup> string \<rightharpoonup> 'r list) \<Rightarrow> string \<Rightarrow> string \<Rightarrow> 'r list option" where
  "table_rows files path table = Option.bind (files path) (\<lambda>ts. ts table)"

definition put_rows ::
  "string \<Rightarrow> string \<Rightarrow> 'r list \<Rightarrow> (string \<rightharpoonup> string \<rightharpoonup> 'r list) \<Rightarrow> (string \<rightharpoonup> string \<rightharpoonup> 'r list)" where
  "put_rows path table rows files =
     files(path \<mapsto> (case files path of Some ts \<Rightarrow> ts(table \<mapsto> rows) | None \<Rightarrow> [table \<mapsto> rows]))"

text \<open>\<open>m_connForPath[dbPath]\<close>\<close>

definition conn_ref :: "string \<Rightarrow> SqlState \<Rightarrow> SqlState" where
  "conn_ref path s = (if sq_conns s path = None then s\<lparr>sq_conns := (sq_conns s)(path \<mapsto> False)\<rparr> else s)"

definition create_history :: "Calendar \<Rightarrow> SqlAnswer \<Rightarrow> string \<Rightarrow> HistoryGranularity \<Rightarrow> SqlState \<Rightarrow> bool \<times> SqlState" where
  "create_history cal ok path gran s =
     (let ts = monthStartFromDbPath cal path
      in if ts = 0 then (False, s)
         else let table = getTableName cal ts gran
         in if table = [] \<or> sq_conns s path \<noteq> Some True \<or> \<not> ok OpCreate path then (False, s)
            else (True, s\<lparr>sq_hist := make_table path table (sq_hist s)\<rparr>))"

definition openMonth :: "Calendar \<Rightarrow> SqlAnswer \<Rightarrow> u64 \<Rightarrow> SqlState \<Rightarrow> bool \<times> SqlState" where
  "openMonth cal ok ts s =
     (let path = getDatabasePath cal (sq_root s) ts
      in if sq_conns s path \<noteq> None then (True, s)
         else let s1 = s\<lparr>sq_nextConnIdx := sq_nextConnIdx s + 1\<rparr>
         in if \<not> ok OpOpen path \<or> \<not> ok OpPragmas path then (False, s1)
            else (case create_history cal ok path Gran1s
                         (s1\<lparr>sq_conns := (sq_conns s1)(path \<mapsto> True), sq_hist := make_file path (sq_hist s1)\<rparr>) of
                    (True, s2) \<Rightarrow> (True, s2)
                  | (False, s2) \<Rightarrow> (False, s2\<lparr>sq_conns := (sq_conns s2)(path := None)\<rparr>)))"

definition ensureSchema :: "Calendar \<Rightarrow> SqlAnswer \<Rightarrow> string \<Rightarrow> HistoryGranularity \<Rightarrow> SqlState \<Rightarrow> bool \<times> SqlState" where
  "ensureSchema cal ok path gran s =
     (if sq_conns s path \<noteq> None then create_history cal ok path gran s
      else if monthStartFromDbPath cal path = 0 then (False, s)
      else (case openMonth cal ok (monthStartFromDbPath cal path) s of
              (False, s1) \<Rightarrow> (False, s1)
            | (True, s1) \<Rightarrow> create_history cal ok path gran (conn_ref path s1)))"

definition closeAll :: "SqlState \<Rightarrow> SqlState" where
  "closeAll s = s\<lparr>sq_conns := Map.empty\<rparr>"

section \<open>The code: history\<close>

definition row_of_sample :: "DownSampledSample \<Rightarrow> HistoryRow" where
  "row_of_sample s =
     \<lparr>hr_point_id = uint (ds_pointId s), hr_ts = sint (ds_timestamp s), hr_v_max = ds_maxValue s,
      hr_v_min = ds_minValue s, hr_v_avg = ds_avgValue s, hr_sample_count = uint (ds_sampleCount s)\<rparr>"

definition insert_row :: "HistoryRow \<Rightarrow> HistoryRow list \<Rightarrow> HistoryRow list option" where
  "insert_row r rows =
     (if hr_v_max r = NaN \<or> hr_v_min r = NaN \<or> hr_v_avg r = NaN then None
      else if (hr_point_id r, hr_ts r) \<in> set (map (\<lambda>x. (hr_point_id x, hr_ts x)) rows) then None
      else Some (rows @ [r]))"

fun insert_rows :: "HistoryRow list \<Rightarrow> HistoryRow list \<Rightarrow> HistoryRow list option" where
  "insert_rows [] rows = Some rows"
| "insert_rows (r # rs) rows = Option.bind (insert_row r rows) (insert_rows rs)"

definition batchInsert ::
  "Calendar \<Rightarrow> SqlAnswer \<Rightarrow> string \<Rightarrow> HistoryGranularity \<Rightarrow> DownSampledSample list \<Rightarrow> SqlState \<Rightarrow> bool \<times> SqlState" where
  "batchInsert cal ok path gran samples s =
     (if samples = [] then (True, s)
      else let ts = monthStartFromDbPath cal path
      in if ts = 0 then (False, s)
         else case (if sq_conns s path \<noteq> None then (True, s) else openMonth cal ok ts s) of
           (False, s1) \<Rightarrow> (False, s1)
         | (True, s1) \<Rightarrow>
             let s2 = conn_ref path s1; table = getTableName cal ts gran
             in if table = [] then (False, s2)
                else case ensureSchema cal ok path gran s2 of
                  (False, s3) \<Rightarrow> (False, s3)
                | (True, s3) \<Rightarrow>
                    if \<not> ok OpBegin path then (False, s3)
                    else if \<not> ok OpPrepare path then (False, s3)
                    else case Option.bind (table_rows (sq_hist s3) path table)
                                (insert_rows (map row_of_sample samples)) of
                      None \<Rightarrow> (False, s3)
                    | Some rows \<Rightarrow>
                        if \<not> ok OpExec path then (False, s3)
                        else if \<not> ok OpCommit path then (False, s3)
                        else (True, s3\<lparr>sq_hist := put_rows path table rows (sq_hist s3)\<rparr>))"

definition sample_of_row :: "u32 \<Rightarrow> HistoryRow \<Rightarrow> DownSampledSample" where
  "sample_of_row pointId r =
     \<lparr>ds_pointId = pointId, ds_timestamp = word_of_int (hr_ts r), ds_maxValue = to_float (hr_v_max r),
      ds_minValue = to_float (hr_v_min r), ds_avgValue = to_float (hr_v_avg r),
      ds_sampleCount = word_of_int (hr_sample_count r)\<rparr>"

definition select_rows :: "int \<Rightarrow> int \<Rightarrow> int \<Rightarrow> HistoryRow list \<Rightarrow> HistoryRow list" where
  "select_rows pid qb qe rows =
     sort_key hr_ts (filter (\<lambda>r. hr_point_id r = pid \<and> hr_ts r \<ge> qb \<and> hr_ts r < qe) rows)"

text \<open>One turn of the loop of \<open>queryRange\<close>, for the month that starts at \<open>cur\<close>.\<close>

definition queryMonth ::
  "Calendar \<Rightarrow> SqlAnswer \<Rightarrow> u32 \<Rightarrow> u64 \<Rightarrow> u64 \<Rightarrow> HistoryGranularity \<Rightarrow> int \<Rightarrow> SqlState \<Rightarrow>
     DownSampledSample list \<times> SqlState" where
  "queryMonth cal ok pointId beginMs endMs gran cur s =
     (let monthStart = word_of_int cur; monthEnd = word_of_int (cal_next cal cur);
          qBegin = max beginMs monthStart; qEnd = min endMs monthEnd
      in if \<not> qBegin < qEnd then ([], s)
         else let table = getTableName cal qBegin gran
         in if table = [] then ([], s)
            else case openMonth cal ok qBegin s of
              (False, s1) \<Rightarrow> ([], s1)
            | (True, s1) \<Rightarrow>
                let path = getDatabasePath cal (sq_root s1) qBegin
                in if sq_conns s1 path \<noteq> Some True \<or> \<not> ok OpQuery path then ([], s1)
                   else (case table_rows (sq_hist s1) path table of
                           None \<Rightarrow> ([], s1)
                         | Some rows \<Rightarrow>
                             (map (sample_of_row pointId)
                                (select_rows (uint pointId) (sint qBegin) (sint qEnd) rows), s1)))"

partial_function (option) query_months ::
  "Calendar \<Rightarrow> SqlAnswer \<Rightarrow> u32 \<Rightarrow> u64 \<Rightarrow> u64 \<Rightarrow> HistoryGranularity \<Rightarrow> int \<Rightarrow> DownSampledSample list \<Rightarrow>
     SqlState \<Rightarrow> (DownSampledSample list \<times> SqlState) option" where
  "query_months cal ok pointId beginMs endMs gran cur out s =
     (if cur < sint endMs
      then (case queryMonth cal ok pointId beginMs endMs gran cur s of
              (rs, s1) \<Rightarrow> query_months cal ok pointId beginMs endMs gran (cal_next cal cur) (out @ rs) s1)
      else Some (out, s))"

definition queryRange ::
  "Calendar \<Rightarrow> SqlAnswer \<Rightarrow> u32 \<Rightarrow> u64 \<Rightarrow> u64 \<Rightarrow> HistoryGranularity \<Rightarrow> SqlState \<Rightarrow>
     (DownSampledSample list \<times> SqlState) option" where
  "queryRange cal ok pointId beginMs endMs gran s =
     (if beginMs \<ge> endMs then Some ([], s)
      else query_months cal ok pointId beginMs endMs gran (cal_first cal (sint beginMs)) [] s)"

section \<open>The code: alarms\<close>

text \<open>The table of a month and its three indexes.\<close>

definition create_alarm :: "Calendar \<Rightarrow> SqlAnswer \<Rightarrow> string \<Rightarrow> SqlState \<Rightarrow> bool \<times> SqlState" where
  "create_alarm cal ok path s =
     (let ts = alarmMonthFromDbPath cal path
      in if ts = 0 then (False, s)
         else let table = alarmTableNameOf cal ts
         in if table = [] \<or> sq_conns s path \<noteq> Some True \<or> \<not> ok OpCreate path then (False, s)
            else (True, s\<lparr>sq_alarm := make_table path table (sq_alarm s)\<rparr>))"

definition openAlarmMonth :: "Calendar \<Rightarrow> SqlAnswer \<Rightarrow> u64 \<Rightarrow> SqlState \<Rightarrow> bool \<times> SqlState" where
  "openAlarmMonth cal ok ts s =
     (if ts = 0 \<or> ts > kMaxSaneTs then (False, s)
      else let path = getAlarmDatabasePath cal (sq_root s) ts
      in if sq_conns s path \<noteq> None then (True, s)
         else let s1 = s\<lparr>sq_nextConnIdx := sq_nextConnIdx s + 1\<rparr>
         in if \<not> ok OpOpen path \<or> \<not> ok OpPragmas path then (False, s1)
            else (case create_alarm cal ok path
                         (s1\<lparr>sq_conns := (sq_conns s1)(path \<mapsto> True), sq_alarm := make_file path (sq_alarm s1)\<rparr>) of
                    (True, s2) \<Rightarrow> (True, s2)
                  | (False, s2) \<Rightarrow> (False, s2\<lparr>sq_conns := (sq_conns s2)(path := None)\<rparr>)))"

definition ensureAlarmSchema :: "Calendar \<Rightarrow> SqlAnswer \<Rightarrow> string \<Rightarrow> SqlState \<Rightarrow> bool \<times> SqlState" where
  "ensureAlarmSchema cal ok path s =
     (if sq_conns s path = None
      then let ts = alarmMonthFromDbPath cal path
           in if ts = 0 then (False, s) else openAlarmMonth cal ok ts s
      else create_alarm cal ok path s)"

definition insert_record :: "AlarmRecord \<Rightarrow> AlarmRecord list \<Rightarrow> AlarmRecord list option" where
  "insert_record r rows =
     (if rc_alarmValue r = NaN \<or> rc_threshold r = NaN then None
      else if \<not> (0 \<le> rc_level r \<and> rc_level r \<le> 2) \<or> \<not> (0 \<le> rc_status r \<and> rc_status r \<le> 2) then None
      else if rc_id r \<in> set (map rc_id rows) then None
      else Some (rows @ [r]))"

fun insert_records :: "AlarmRecord list \<Rightarrow> AlarmRecord list \<Rightarrow> AlarmRecord list option" where
  "insert_records [] rows = Some rows"
| "insert_records (r # rs) rows = Option.bind (insert_record r rows) (insert_records rs)"

definition insertAlarmRecords ::
  "Calendar \<Rightarrow> SqlAnswer \<Rightarrow> AlarmRecord list \<Rightarrow> SqlState \<Rightarrow> bool \<times> SqlState" where
  "insertAlarmRecords cal ok records s =
     (if records = [] then (True, s)
      else let ts = rc_triggerTime (hd records)
      in if ts = 0 \<or> ts > kMaxSaneTs then (False, s)
         else let path = getAlarmDatabasePath cal (sq_root s) ts
         in case (if sq_conns s path \<noteq> None then (True, s) else openAlarmMonth cal ok ts s) of
              (False, s1) \<Rightarrow> (False, s1)
            | (True, s1) \<Rightarrow>
                let table = alarmTableNameOf cal ts
                in case (if table = [] then (False, s1) else ensureAlarmSchema cal ok path s1) of
                     (False, s2) \<Rightarrow> (False, s2)
                   | (True, s2) \<Rightarrow>
                       if \<not> ok OpBegin path then (False, s2)
                       else if \<not> ok OpPrepare path then (False, s2)
                       else case Option.bind (table_rows (sq_alarm s2) path table) (insert_records records) of
                         None \<Rightarrow> (False, s2)
                       | Some rows \<Rightarrow>
                           if \<not> ok OpExec path then (False, s2)
                           else if \<not> ok OpCommit path then (False, s2)
                           else (True, s2\<lparr>sq_alarm := put_rows path table rows (sq_alarm s2)\<rparr>))"

text \<open>The common part of the two updates: \<open>UPDATE table SET f WHERE P\<close>.\<close>

definition update_alarm ::
  "Calendar \<Rightarrow> SqlAnswer \<Rightarrow> u64 \<Rightarrow> (AlarmRecord \<Rightarrow> bool) \<Rightarrow> (AlarmRecord \<Rightarrow> AlarmRecord) \<Rightarrow> SqlState \<Rightarrow>
     bool \<times> SqlState" where
  "update_alarm cal ok triggerTime P f s =
     (if triggerTime = 0 \<or> triggerTime > kMaxSaneTs then (False, s)
      else let path = getAlarmDatabasePath cal (sq_root s) triggerTime
      in case (if sq_conns s path \<noteq> None then (True, s) else openAlarmMonth cal ok triggerTime s) of
           (False, s1) \<Rightarrow> (False, s1)
         | (True, s1) \<Rightarrow>
             let table = alarmTableNameOf cal triggerTime
             in if table = [] then (False, s1)
                else if sq_conns s1 path \<noteq> Some True \<or> \<not> ok OpExec path then (False, s1)
                else (case table_rows (sq_alarm s1) path table of
                        None \<Rightarrow> (False, s1)
                      | Some rows \<Rightarrow>
                          (True, s1\<lparr>sq_alarm := put_rows path table (map (\<lambda>r. if P r then f r else r) rows)
                             (sq_alarm s1)\<rparr>)))"

definition setAlarmRecovered ::
  "Calendar \<Rightarrow> SqlAnswer \<Rightarrow> u64 \<Rightarrow> u64 \<Rightarrow> u64 \<Rightarrow> SqlState \<Rightarrow> bool \<times> SqlState" where
  "setAlarmRecovered cal ok triggerTime alarmId recoverTime s =
     update_alarm cal ok triggerTime (\<lambda>r. rc_id r = alarmId)
       (\<lambda>r. r\<lparr>rc_status := 2, rc_recoverTime := recoverTime\<rparr>) s"

definition setAlarmConfirmed ::
  "Calendar \<Rightarrow> SqlAnswer \<Rightarrow> u64 \<Rightarrow> u64 \<Rightarrow> string \<Rightarrow> u64 \<Rightarrow> SqlState \<Rightarrow> bool \<times> SqlState" where
  "setAlarmConfirmed cal ok triggerTime alarmId user confirmTime s =
     update_alarm cal ok triggerTime (\<lambda>r. rc_id r = alarmId \<and> rc_status r = 0)
       (\<lambda>r. r\<lparr>rc_status := 1, rc_confirmUser := user, rc_confirmTime := confirmTime\<rparr>) s"

text \<open>\<open>ORDER BY trigger_time DESC LIMIT\<close>; records of one time come in the order of \<open>tie\<close>.\<close>

definition select_alarms ::
  "(AlarmRecord \<Rightarrow> nat) \<Rightarrow> AlarmQueryFilter \<Rightarrow> int \<Rightarrow> int \<Rightarrow> AlarmRecord list \<Rightarrow> AlarmRecord list" where
  "select_alarms tie f qb qe rows =
     (let found = sort_key (\<lambda>r. - sint (rc_triggerTime r)) (sort_key tie
            (filter (\<lambda>r. sint (rc_triggerTime r) \<ge> qb \<and> sint (rc_triggerTime r) < qe \<and>
               (fq_pointId f \<noteq> 0 \<longrightarrow> rc_pointId r = fq_pointId f) \<and>
               (fq_level f \<ge> 0 \<longrightarrow> rc_level r = fq_level f) \<and>
               (fq_status f \<ge> 0 \<longrightarrow> rc_status r = fq_status f)) rows))
      in if fq_limit f > 0 then take (nat (fq_limit f)) found else found)"

definition queryAlarmMonth ::
  "Calendar \<Rightarrow> SqlAnswer \<Rightarrow> (AlarmRecord \<Rightarrow> nat) \<Rightarrow> AlarmQueryFilter \<Rightarrow> u64 \<Rightarrow> u64 \<Rightarrow> int \<Rightarrow> SqlState \<Rightarrow>
     AlarmRecord list \<times> SqlState" where
  "queryAlarmMonth cal ok tie f beginMs endMs cur s =
     (let monthStart = word_of_int cur; monthEnd = word_of_int (cal_next cal cur);
          qBegin = max beginMs monthStart; qEnd = min endMs monthEnd
      in if qBegin \<ge> qEnd then ([], s)
         else let path = getAlarmDatabasePath cal (sq_root s) qBegin
         in if sq_alarm s path = None then ([], s)
            else case (if sq_conns s path = None then openAlarmMonth cal ok qBegin s else (True, s)) of
              (False, s1) \<Rightarrow> ([], s1)
            | (True, s1) \<Rightarrow>
                let table = alarmTableNameOf cal qBegin
                in if table = [] then ([], s1)
                   else if sq_conns s1 path \<noteq> Some True \<or> \<not> ok OpPrepare path \<or> \<not> ok OpQuery path then ([], s1)
                   else (case table_rows (sq_alarm s1) path table of
                           None \<Rightarrow> ([], s1)
                         | Some rows \<Rightarrow> (select_alarms tie f (sint qBegin) (sint qEnd) rows, s1)))"

partial_function (option) alarm_months ::
  "Calendar \<Rightarrow> SqlAnswer \<Rightarrow> (AlarmRecord \<Rightarrow> nat) \<Rightarrow> AlarmQueryFilter \<Rightarrow> u64 \<Rightarrow> u64 \<Rightarrow> int \<Rightarrow> AlarmRecord list \<Rightarrow>
     SqlState \<Rightarrow> (AlarmRecord list \<times> SqlState) option" where
  "alarm_months cal ok tie f beginMs endMs cur out s =
     (if cur < sint endMs
      then (case queryAlarmMonth cal ok tie f beginMs endMs cur s of
              (rs, s1) \<Rightarrow> alarm_months cal ok tie f beginMs endMs (cal_next cal cur) (out @ rs) s1)
      else Some (out, s))"

definition queryAlarms ::
  "Calendar \<Rightarrow> SqlAnswer \<Rightarrow> (AlarmRecord \<Rightarrow> nat) \<Rightarrow> (AlarmRecord \<Rightarrow> nat) \<Rightarrow> u64 \<Rightarrow> AlarmQueryFilter \<Rightarrow> SqlState \<Rightarrow>
     (AlarmRecord list \<times> SqlState) option" where
  "queryAlarms cal ok tie ord nowMs f s =
     (let beginMs = fq_beginMs f; endMs = (if fq_endMs f = 0 then nowMs else fq_endMs f)
      in if beginMs \<ge> endMs then Some ([], s)
         else (case alarm_months cal ok tie f beginMs endMs (cal_first cal (sint beginMs)) [] s of
                 None \<Rightarrow> None
               | Some (out, s1) \<Rightarrow>
                   let sorted_out = sort_key (\<lambda>r. - uint (rc_triggerTime r)) (sort_key ord out)
                   in Some (if fq_limit f > 0 \<and> int (length sorted_out) > fq_limit f
                            then take (nat (fq_limit f)) sorted_out else sorted_out, s1)))"

end
