(* ===== verification/HistoryQueries.thy ===== *)
theory HistoryQueries
  imports SqlStore "HOL-Library.Multiset"
begin

text \<open>
  The history tables of \<open>SqlStore\<close> as one list of accepted samples: what a batch adds, what a query returns.
  \<open>calendar_laws\<close> collects what the code relies on of \<open>QDateTime\<close> between 1970 and 2100.
\<close>

section \<open>The calendar\<close>

definition sane_time :: "int \<Rightarrow> bool" where
  "sane_time t \<longleftrightarrow> 0 \<le> t \<and> t \<le> uint kMaxSaneTs"

definition calendar_laws :: "Calendar \<Rightarrow> bool" where
  "calendar_laws cal \<longleftrightarrow>
     (\<forall>t. sane_time t \<longrightarrow>
        cal_valid cal t \<and> length (cal_month cal t) = 6 \<and> CHR ''/'' \<notin> set (cal_month cal t) \<and>
        cal_parse cal (cal_month cal t) = Some (cal_first cal t) \<and> - (2 ^ 63) \<le> cal_first cal t \<and>
        cal_first cal t \<le> t \<and> t < cal_next cal (cal_first cal t) \<and> cal_next cal (cal_first cal t) < 2 ^ 63 \<and>
        cal_month cal (cal_first cal t) = cal_month cal t \<and>
        cal_first cal (cal_next cal (cal_first cal t)) = cal_next cal (cal_first cal t) \<and>
        (\<forall>u. cal_first cal t \<le> u \<and> u < cal_next cal (cal_first cal t) \<longrightarrow> cal_first cal u = cal_first cal t))"

lemma calendarD:
  assumes "calendar_laws cal" and "sane_time t"
  shows "cal_valid cal t" "length (cal_month cal t) = 6" "CHR ''/'' \<notin> set (cal_month cal t)"
    "cal_parse cal (cal_month cal t) = Some (cal_first cal t)" "- (2 ^ 63) \<le> cal_first cal t"
    "cal_first cal t \<le> t" "t < cal_next cal (cal_first cal t)" "cal_next cal (cal_first cal t) < 2 ^ 63"
    "cal_month cal (cal_first cal t) = cal_month cal t"
    "cal_first cal (cal_next cal (cal_first cal t)) = cal_next cal (cal_first cal t)"
    "cal_first cal t \<le> u \<Longrightarrow> u < cal_next cal (cal_first cal t) \<Longrightarrow> cal_first cal u = cal_first cal t"
  using assms unfolding calendar_laws_def by blast+

lemma sint_small:
  assumes "uint (x :: u64) < 2 ^ 63"
  shows "sint x = uint x"
proof -
  have "- (2 ^ 63) \<le> uint x" by (rule order_trans [OF _ uint_ge_0]) simp
  with assms show ?thesis by (simp add: sint_uint signed_take_bit_int_eq_self)
qed

lemma kMaxSaneTs_uint: "uint kMaxSaneTs = 4102444800000"
  by (simp add: kMaxSaneTs_def)

lemma sane_word: "x \<le> kMaxSaneTs \<Longrightarrow> sane_time (uint x) \<and> sint x = uint x"
  using sint_small [of x] by (simp add: sane_time_def word_le_def kMaxSaneTs_uint)

lemma word_of_sane: "sane_time t \<Longrightarrow> uint (word_of_int t :: u64) = t"
  by (simp add: sane_time_def kMaxSaneTs_uint uint_word_of_int_eq take_bit_int_eq_self)

lemma sint_of_int: "- (2 ^ 63) \<le> t \<Longrightarrow> t < 2 ^ 63 \<Longrightarrow> sint (word_of_int t :: u64) = t"
  by (simp add: sint_uint uint_word_of_int_eq signed_take_bit_int_eq_self signed_take_bit_take_bit)

lemma file_name_last: "CHR ''/'' \<notin> set f \<Longrightarrow> file_name (d @ ''/'' @ f) = f"
proof -
  assume "CHR ''/'' \<notin> set f"
  then have "takeWhile (\<lambda>c. c \<noteq> CHR ''/'') (rev f @ rev ''/'' @ rev d) = rev f"
    by (subst takeWhile_append2) auto
  then show ?thesis by (simp add: file_name_def)
qed

lemma month_of_path:
  assumes "calendar_laws cal" and "sane_time (sint ts)"
  shows "monthStartFromDbPath cal (getDatabasePath cal dir ts) = word_of_int (cal_first cal (sint ts))"
proof -
  let ?m = "cal_month cal (sint ts)"
  have path: "getDatabasePath cal dir ts = (dir @ ''/history/'' @ ?m) @ ''/'' @ ''data_'' @ ?m @ ''.db''"
    by (simp add: getDatabasePath_def Let_def)
  have "CHR ''/'' \<notin> set (''data_'' @ ?m @ ''.db'')" using calendarD(3) [OF assms] by simp
  then have "file_name (getDatabasePath cal dir ts) = ''data_'' @ ?m @ ''.db''"
    unfolding path by (rule file_name_last)
  with calendarD(2,4) [OF assms] show ?thesis
    by (simp add: monthStartFromDbPath_def month_start_def Let_def)
qed

section \<open>The rows of a table\<close>

definition rows_at :: "(string \<rightharpoonup> string \<rightharpoonup> 'r list) \<Rightarrow> string \<Rightarrow> string \<Rightarrow> 'r list" where
  "rows_at files path table = (case table_rows files path table of None \<Rightarrow> [] | Some rows \<Rightarrow> rows)"

lemma rows_at_make [simp]:
  "rows_at (make_table p t files) = rows_at files" "rows_at (make_file p files) = rows_at files"
  by (auto simp: fun_eq_iff rows_at_def table_rows_def make_table_def make_file_def Let_def split: option.split)

lemma table_rows_make: "table_rows (make_table p t files) p t = Some (rows_at files p t)"
  by (auto simp: rows_at_def table_rows_def make_table_def Let_def split: option.split)

lemma rows_at_put [simp]: "rows_at (put_rows p t rows files) = (rows_at files)(p := (rows_at files p)(t := rows))"
  by (auto simp: fun_eq_iff rows_at_def table_rows_def put_rows_def split: option.split)

text \<open>What the operations other than a successful batch keep.\<close>

definition sql_same :: "SqlState \<Rightarrow> SqlState \<Rightarrow> bool" where
  "sql_same s s' \<longleftrightarrow> sq_root s' = sq_root s \<and> rows_at (sq_hist s') = rows_at (sq_hist s) \<and>
     ((\<forall>p. sq_conns s p \<noteq> Some False) \<longrightarrow> (\<forall>p. sq_conns s' p \<noteq> Some False))"

lemma sql_same_refl [simp]: "sql_same s s"
  by (simp add: sql_same_def)

lemma sql_same_trans: "sql_same s s1 \<Longrightarrow> sql_same s1 s2 \<Longrightarrow> sql_same s s2"
  by (auto simp: sql_same_def)

lemma create_history_same: "create_history cal ok p g s = (r, s') \<Longrightarrow> sql_same s s' \<and> sq_conns s' = sq_conns s"
  by (auto simp: create_history_def Let_def sql_same_def split: if_splits)

lemma openMonth_same:
  assumes "openMonth cal ok ts s = (r, s')"
  shows "sql_same s s'" and "r \<Longrightarrow> sq_conns s' (getDatabasePath cal (sq_root s) ts) \<noteq> None"
    and "p \<noteq> getDatabasePath cal (sq_root s) ts \<Longrightarrow> sq_conns s' p = sq_conns s p"
proof -
  let ?p = "getDatabasePath cal (sq_root s) ts"
  define s1 where "s1 = s\<lparr>sq_nextConnIdx := sq_nextConnIdx s + 1, sq_conns := (sq_conns s)(?p \<mapsto> True),
    sq_hist := make_file ?p (sq_hist s)\<rparr>"
  have s1: "sql_same s s1" by (auto simp: s1_def sql_same_def)
  obtain r2 s2 where c: "create_history cal ok ?p Gran1s s1 = (r2, s2)" by (cases "create_history cal ok ?p Gran1s s1")
  from create_history_same [OF this] have s2: "sql_same s1 s2" "sq_conns s2 = sq_conns s1" by blast+
  have s2': "sql_same s (s2\<lparr>sq_conns := (sq_conns s2)(?p := None)\<rparr>)"
    using sql_same_trans [OF s1 s2(1)] by (auto simp: sql_same_def)
  have skip: "sql_same s (s\<lparr>sq_nextConnIdx := n\<rparr>)" for n by (simp add: sql_same_def)
  have eq: "openMonth cal ok ts s = (if sq_conns s ?p \<noteq> None then (True, s)
      else if \<not> ok OpOpen ?p \<or> \<not> ok OpPragmas ?p then (False, s\<lparr>sq_nextConnIdx := sq_nextConnIdx s + 1\<rparr>)
      else if r2 then (True, s2) else (False, s2\<lparr>sq_conns := (sq_conns s2)(?p := None)\<rparr>))"
    using c by (cases r2) (simp_all add: openMonth_def Let_def s1_def)
  show "sql_same s s'" using assms s2' skip sql_same_trans [OF s1 s2(1)] unfolding eq by (auto split: if_splits)
  show "r \<Longrightarrow> sq_conns s' ?p \<noteq> None" using assms s2(2) unfolding eq by (auto simp: s1_def split: if_splits)
  show "p \<noteq> ?p \<Longrightarrow> sq_conns s' p = sq_conns s p"
    using assms s2(2) unfolding eq by (auto simp: s1_def split: if_splits)
qed

lemma insert_rows_appends: "insert_rows rs rows = Some rows' \<Longrightarrow> rows' = rows @ rs"
proof (induction rs arbitrary: rows)
  case (Cons r rs)
  then obtain rows1 where "insert_row r rows = Some rows1" and rs: "insert_rows rs rows1 = Some rows'"
    by (auto simp: bind_eq_Some_conv)
  then have "rows1 = rows @ [r]" by (simp add: insert_row_def split: if_splits)
  with Cons.IH [OF rs] show ?case by simp
qed simp

definition row_keys :: "HistoryRow list \<Rightarrow> (int \<times> int) list" where
  "row_keys rows = map (\<lambda>x. (hr_point_id x, hr_ts x)) rows"

lemma insert_rows_keys: "insert_rows rs rows = Some rows' \<Longrightarrow> distinct (row_keys rows) \<Longrightarrow> distinct (row_keys rows')"
proof (induction rs arbitrary: rows)
  case (Cons r rs)
  then obtain rows1 where r: "insert_row r rows = Some rows1" and rs: "insert_rows rs rows1 = Some rows'"
    by (auto simp: bind_eq_Some_conv)
  from r Cons.prems(2) have "distinct (row_keys rows1)" by (auto simp: insert_row_def row_keys_def split: if_splits)
  with Cons.IH [OF rs] show ?case by blast
qed simp

section \<open>The accepted samples\<close>

type_synonym Accepted = "(HistoryGranularity \<times> DownSampledSample) list"

definition stored_in :: "Calendar \<Rightarrow> string \<Rightarrow> string \<Rightarrow> string \<Rightarrow> HistoryGranularity \<times> DownSampledSample \<Rightarrow> bool" where
  "stored_in cal dir path table gx \<longleftrightarrow>
     getDatabasePath cal dir (ds_timestamp (snd gx)) = path \<and>
     getTableName cal (monthStartFromDbPath cal path) (fst gx) = table"

definition acc_keys :: "Accepted \<Rightarrow> (HistoryGranularity \<times> u32 \<times> u64) list" where
  "acc_keys acc = map (\<lambda>(g, x). (g, ds_pointId x, ds_timestamp x)) acc"

lemma acc_keys_append:
  assumes "distinct (acc_keys acc)" and stored: "\<forall>x \<in> set xs. stored_in cal dir p t (g, x)"
    and "distinct (row_keys (map (row_of_sample \<circ> snd) (filter (stored_in cal dir p t) acc) @ map row_of_sample xs))"
  shows "distinct (acc_keys (acc @ map (Pair g) xs))"
proof -
  have keys: "distinct (map (\<lambda>x. (uint (ds_pointId x), sint (ds_timestamp x))) xs)"
    "\<forall>gy \<in> set acc. \<forall>x \<in> set xs. stored_in cal dir p t gy \<longrightarrow>
      (uint (ds_pointId (snd gy)), sint (ds_timestamp (snd gy))) \<noteq> (uint (ds_pointId x), sint (ds_timestamp x))"
    using assms(3) by (auto simp: row_keys_def row_of_sample_def comp_def)
  have "distinct (acc_keys (map (Pair g) xs))"
    using keys(1) by (auto simp: acc_keys_def comp_def distinct_map inj_on_def)
  moreover have "(h, y) \<in> set acc \<Longrightarrow> x \<in> set xs \<Longrightarrow> \<not> (h = g \<and> ds_pointId y = ds_pointId x \<and> ds_timestamp y = ds_timestamp x)" for h y x
    using keys(2) stored by (fastforce simp: stored_in_def)
  ultimately show ?thesis using assms(1) by (fastforce simp: acc_keys_def)
qed

text \<open>The tables hold exactly the accepted samples; each has a sane time in a month that starts after 1970.\<close>

definition store_holds :: "Calendar \<Rightarrow> SqlState \<Rightarrow> Accepted \<Rightarrow> bool" where
  "store_holds cal s acc \<longleftrightarrow>
     (\<forall>path table. rows_at (sq_hist s) path table =
        map (row_of_sample \<circ> snd) (filter (stored_in cal (sq_root s) path table) acc)) \<and>
     (\<forall>path table. distinct (row_keys (rows_at (sq_hist s) path table))) \<and>
     (\<forall>p. sq_conns s p \<noteq> Some False) \<and>
     (\<forall>(g, x) \<in> set acc. ds_timestamp x \<le> kMaxSaneTs) \<and> distinct (acc_keys acc)"

lemma store_holdsD:
  assumes "store_holds cal s acc"
  shows "rows_at (sq_hist s) path table = map (row_of_sample \<circ> snd) (filter (stored_in cal (sq_root s) path table) acc)"
    and "distinct (row_keys (rows_at (sq_hist s) path table))" and "sq_conns s p \<noteq> Some False"
    and "(g, x) \<in> set acc \<Longrightarrow> ds_timestamp x \<le> kMaxSaneTs" and "distinct (acc_keys acc)"
  using assms unfolding store_holds_def by blast+

lemma store_holds_same:
  assumes "store_holds cal s acc" and "sql_same s s'"
  shows "store_holds cal s' acc"
proof -
  from assms(2) have r: "sq_root s' = sq_root s" "rows_at (sq_hist s') = rows_at (sq_hist s)" by (simp_all add: sql_same_def)
  from assms have "\<forall>p. sq_conns s' p \<noteq> Some False" by (simp add: store_holds_def sql_same_def)
  with assms(1) show ?thesis unfolding store_holds_def r by blast
qed

lemma month_time:
  assumes "calendar_laws cal" and "ts \<le> kMaxSaneTs" and p_def: "p = getDatabasePath cal dir ts"
  shows "monthStartFromDbPath cal p = word_of_int (cal_first cal (uint ts))"
    and "getDatabasePath cal dir (monthStartFromDbPath cal p) = p"
proof -
  have sane: "sane_time (uint ts)" and sint: "sint ts = uint ts" using sane_word [OF assms(2)] by auto
  show start: "monthStartFromDbPath cal p = word_of_int (cal_first cal (uint ts))"
    using month_of_path [OF assms(1), of ts dir] sane by (simp add: p_def sint)
  have "cal_first cal (uint ts) < 2 ^ 63"
    using calendarD(6) [OF assms(1) sane] sane by (simp add: sane_time_def kMaxSaneTs_uint)
  with calendarD(5) [OF assms(1) sane] have "sint (word_of_int (cal_first cal (uint ts)) :: u64) = cal_first cal (uint ts)"
    by (rule sint_of_int)
  with calendarD(9) [OF assms(1) sane] show "getDatabasePath cal dir (monthStartFromDbPath cal p) = p"
    unfolding start by (simp add: p_def getDatabasePath_def sint)
qed

lemma batchInsert_holds:
  assumes "calendar_laws cal" and holds: "store_holds cal s acc"
    and path: "\<forall>x \<in> set xs. ds_timestamp x \<le> kMaxSaneTs \<and> getDatabasePath cal (sq_root s) (ds_timestamp x) = p"
    and batch: "batchInsert cal ok p g xs s = (r, s')"
  shows "store_holds cal s' (if r then acc @ map (Pair g) xs else acc)" and "sq_root s' = sq_root s"
proof -
  have "store_holds cal s' (if r then acc @ map (Pair g) xs else acc) \<and> sq_root s' = sq_root s"
  proof (cases "xs = [] \<or> monthStartFromDbPath cal p = 0")
    case True
    with holds batch show ?thesis by (auto simp: batchInsert_def split: if_splits)
  next
    case False
    then obtain x where x: "x \<in> set xs" by (cases xs) auto
    let ?ts = "monthStartFromDbPath cal p" and ?table = "getTableName cal (monthStartFromDbPath cal p) g"
    have p: "getDatabasePath cal (sq_root s) ?ts = p"
      using month_time(2) [OF assms(1), of "ds_timestamp x" p "sq_root s"] path x by auto
    obtain o1 s1 where o1: "(if sq_conns s p \<noteq> None then (True, s) else openMonth cal ok ?ts s) = (o1, s1)"
      by (cases "if sq_conns s p \<noteq> None then (True, s) else openMonth cal ok ?ts s")
    then have s1: "sql_same s s1" and conn: "o1 \<Longrightarrow> sq_conns s1 p \<noteq> None"
      using openMonth_same [of cal ok ?ts s o1 s1] p by (auto split: if_splits)
    show ?thesis
    proof (cases "o1 \<and> ?table \<noteq> []")
      case False
      with batch o1 conn \<open>\<not> (xs = [] \<or> ?ts = 0)\<close> have "\<not> r" and "sq_root s' = sq_root s1" and "sql_same s1 s'"
        by (cases o1; auto simp: batchInsert_def Let_def conn_ref_def split: if_splits)+
      with store_holds_same [OF holds sql_same_trans [OF s1]] s1 show ?thesis by (auto simp: sql_same_def)
    next
      case True
      then have ref: "conn_ref p s1 = s1" using conn by (auto simp: conn_ref_def)
      obtain e3 s3 where e3: "ensureSchema cal ok p g s1 = (e3, s3)" by (cases "ensureSchema cal ok p g s1")
      then have c3: "create_history cal ok p g s1 = (e3, s3)" using True conn by (simp add: ensureSchema_def)
      have s3: "sql_same s s3" using create_history_same [OF c3] sql_same_trans [OF s1] by blast
      have table: "table_rows (sq_hist s3) p ?table = Some (rows_at (sq_hist s) p ?table)" if e3
        using c3 that s1 by (auto simp: create_history_def Let_def table_rows_make sql_same_def split: if_splits)
      show ?thesis
      proof (cases r)
        case False
        then have "s' = s3 \<or> s' = s3" using batch o1 ref e3 True \<open>\<not> (xs = [] \<or> ?ts = 0)\<close>
          by (auto simp: batchInsert_def Let_def split: if_splits bool.splits option.splits)
        with False store_holds_same [OF holds s3] s3 show ?thesis by (simp add: sql_same_def)
      next
        case r: True
        then obtain rows where e3 and rows: "insert_rows (map row_of_sample xs) (rows_at (sq_hist s) p ?table) = Some rows"
          and s': "s' = s3\<lparr>sq_hist := put_rows p ?table rows (sq_hist s3)\<rparr>"
          using batch o1 ref e3 True table \<open>\<not> (xs = [] \<or> ?ts = 0)\<close>
          by (auto simp: batchInsert_def Let_def split: if_splits bool.splits option.splits)
        have stored: "stored_in cal (sq_root s) q t (g, y) \<longleftrightarrow> q = p \<and> t = ?table" if "y \<in> set xs" for y q t
          using path that by (auto simp: stored_in_def)
        have "filter (stored_in cal (sq_root s) q t) (map (Pair g) xs) = (if q = p \<and> t = ?table then map (Pair g) xs else [])" for q t
          by (auto simp: filter_map filter_empty_conv comp_def stored intro!: filter_True)
        moreover have "rows = rows_at (sq_hist s) p ?table @ map row_of_sample xs"
          by (rule insert_rows_appends [OF rows])
        moreover have "distinct (row_keys rows)"
          by (rule insert_rows_keys [OF rows store_holdsD(2) [OF holds]])
        moreover have "distinct (acc_keys (acc @ map (Pair g) xs))"
          by (rule acc_keys_append [OF store_holdsD(5) [OF holds]])
            (use stored calculation store_holdsD(1) [OF holds, of p ?table] in auto)
        moreover have "\<forall>q. sq_conns s3 q \<noteq> Some False" using s3 store_holdsD(3) [OF holds] by (simp add: sql_same_def)
        moreover have "\<forall>(h, x) \<in> set (acc @ map (Pair g) xs). ds_timestamp x \<le> kMaxSaneTs"
          using path store_holdsD(4) [OF holds] by auto
        moreover have "sq_root s3 = sq_root s" and "rows_at (sq_hist s3) = rows_at (sq_hist s)" using s3 by (simp_all add: sql_same_def)
        ultimately show ?thesis
          using store_holdsD(1,2) [OF holds] r by (simp add: s' store_holds_def comp_def)
      qed
    qed
  qed
  then show "store_holds cal s' (if r then acc @ map (Pair g) xs else acc)" and "sq_root s' = sq_root s" by blast+
qed

section \<open>Queries\<close>

text \<open>Sorting the small and the large part apart.\<close>

lemma sort_key_split:
  fixes f :: "'a \<Rightarrow> 'k::linorder"
  shows "sort_key f (filter (\<lambda>x. f x < c) xs) @ sort_key f (filter (\<lambda>x. \<not> f x < c) xs) = sort_key f xs"
proof (rule sym, rule properties_for_sort_key)
  let ?a = "filter (\<lambda>x. f x < c) xs" and ?b = "filter (\<lambda>x. \<not> f x < c) xs"
  show "mset (sort_key f ?a @ sort_key f ?b) = mset xs" by simp
  show "filter (\<lambda>x. f k = f x) (sort_key f ?a @ sort_key f ?b) = filter (\<lambda>x. f k = f x) xs" for k
  proof -
    have flip: "(\<lambda>x. f k = f x) = (\<lambda>x. f x = f k)" by auto
    have "filter (\<lambda>x. f x = f k) ?a @ filter (\<lambda>x. f x = f k) ?b = filter (\<lambda>x. f x = f k) xs"
    proof (cases "f k < c")
      case True
      then have "filter (\<lambda>x. f x = f k) ?b = []" and "filter (\<lambda>x. f x = f k) ?a = filter (\<lambda>x. f x = f k) xs"
        by (auto simp: filter_empty_conv intro!: filter_cong)
      then show ?thesis by simp
    next
      case False
      then have "filter (\<lambda>x. f x = f k) ?a = []" and "filter (\<lambda>x. f x = f k) ?b = filter (\<lambda>x. f x = f k) xs"
        by (auto simp: filter_empty_conv intro!: filter_cong)
      then show ?thesis by simp
    qed
    then show ?thesis by (simp add: flip sort_key_stable)
  qed
  show "sorted (map f (sort_key f ?a @ sort_key f ?b))"
    by (auto simp: sorted_append)
qed

text \<open>The accepted samples of a point between two instants, by time.\<close>

definition history ::
  "Accepted \<Rightarrow> HistoryGranularity \<Rightarrow> u32 \<Rightarrow> int \<Rightarrow> int \<Rightarrow> DownSampledSample list" where
  "history acc g pid qb qe =
     sort_key (\<lambda>x. uint (ds_timestamp x))
       (map snd (filter (\<lambda>(h, x). h = g \<and> ds_pointId x = pid \<and> qb \<le> uint (ds_timestamp x) \<and>
          uint (ds_timestamp x) < qe) acc))"

definition read_back :: "DownSampledSample \<Rightarrow> DownSampledSample" where
  "read_back x = x\<lparr>ds_maxValue := to_float (ds_maxValue x), ds_minValue := to_float (ds_minValue x),
     ds_avgValue := to_float (ds_avgValue x)\<rparr>"

lemma history_split:
  assumes "qb \<le> c" and "c \<le> qe"
  shows "history acc g pid qb c @ history acc g pid c qe = history acc g pid qb qe"
proof -
  let ?xs = "map snd (filter (\<lambda>(h, x). h = g \<and> ds_pointId x = pid \<and> qb \<le> uint (ds_timestamp x) \<and> uint (ds_timestamp x) < qe) acc)"
  have "filter (\<lambda>x. uint (ds_timestamp x) < c) ?xs =
      map snd (filter (\<lambda>(h, x). h = g \<and> ds_pointId x = pid \<and> qb \<le> uint (ds_timestamp x) \<and> uint (ds_timestamp x) < c) acc)"
    "filter (\<lambda>x. \<not> uint (ds_timestamp x) < c) ?xs =
      map snd (filter (\<lambda>(h, x). h = g \<and> ds_pointId x = pid \<and> c \<le> uint (ds_timestamp x) \<and> uint (ds_timestamp x) < qe) acc)"
    using assms by (auto simp: filter_map comp_def case_prod_beta intro!: arg_cong [of _ _ "map snd"] filter_cong)
  then show ?thesis using sort_key_split [of "\<lambda>x. uint (ds_timestamp x)" c ?xs] by (simp only: history_def)
qed

lemma tables_differ:
  assumes "getTableName cal ts g \<noteq> []"
  shows "getTableName cal ts g = getTableName cal ts h \<longleftrightarrow> g = h"
  using assms by (cases g; cases h) (auto simp: getTableName_def split: if_splits)

lemma month_instants:
  assumes "calendar_laws cal" and "sane_time t" and "cal_first cal t \<le> u" and "u < cal_next cal (cal_first cal t)" and "sane_time u"
  shows "cal_month cal u = cal_month cal t" and "cal_first cal u = cal_first cal t"
proof -
  show first: "cal_first cal u = cal_first cal t" by (rule calendarD(11) [OF assms(1-4)])
  show "cal_month cal u = cal_month cal t"
    using calendarD(9) [OF assms(1,2)] calendarD(9) [OF assms(1,5)] by (simp add: first)
qed

lemma stored_this_month:
  assumes laws: "calendar_laws cal" and t: "sane_time (uint ts)" "ts \<le> kMaxSaneTs" and x: "ds_timestamp x \<le> kMaxSaneTs"
  shows "getDatabasePath cal dir (ds_timestamp x) = getDatabasePath cal dir ts \<longleftrightarrow>
    cal_first cal (uint ts) \<le> uint (ds_timestamp x) \<and> uint (ds_timestamp x) < cal_next cal (cal_first cal (uint ts))"
proof -
  let ?u = "uint (ds_timestamp x)"
  have u: "sane_time ?u" "sint (ds_timestamp x) = ?u" and st: "sint ts = uint ts" using sane_word x t by blast+
  have name: "CHR ''/'' \<notin> set (cal_month cal ?u)" "CHR ''/'' \<notin> set (cal_month cal (uint ts))"
    "length (cal_month cal ?u) = 6" "length (cal_month cal (uint ts)) = 6"
    using calendarD(2,3) [OF laws] u(1) t(1) by auto
  have "getDatabasePath cal dir (ds_timestamp x) = getDatabasePath cal dir ts \<longleftrightarrow> cal_month cal ?u = cal_month cal (uint ts)"
    using name by (auto simp: getDatabasePath_def Let_def u(2) st)
  also have "\<dots> \<longleftrightarrow> cal_first cal ?u = cal_first cal (uint ts)"
    using calendarD(4,9) [OF laws] u(1) t(1) by (metis option.inject)
  also have "\<dots> \<longleftrightarrow> cal_first cal (uint ts) \<le> ?u \<and> ?u < cal_next cal (cal_first cal (uint ts))"
    using calendarD(6,7) [OF laws u(1)] month_instants(2) [OF laws t(1) _ _ u(1)] by auto
  finally show ?thesis .
qed

text \<open>When every access succeeds a month of accepted samples is opened and read.\<close>

lemma openMonth_ok:
  assumes laws: "calendar_laws cal" and ok: "\<forall>op p. ok op p" and ts: "ts \<le> kMaxSaneTs" and pos: "0 < cal_first cal (uint ts)"
    and conns: "\<forall>p. sq_conns s p \<noteq> Some False"
  shows "\<exists>s1. openMonth cal ok ts s = (True, s1) \<and> sql_same s s1 \<and>
    sq_conns s1 (getDatabasePath cal (sq_root s) ts) = Some True"
proof -
  let ?p = "getDatabasePath cal (sq_root s) ts" and ?start = "cal_first cal (uint ts)"
  have sane: "sane_time (uint ts)" using sane_word [OF ts] by blast
  have st: "sane_time ?start" using calendarD(6) [OF laws sane] sane pos by (simp add: sane_time_def)
  have w: "monthStartFromDbPath cal ?p = word_of_int ?start" by (rule month_time(1) [OF laws ts refl])
  have u: "uint (word_of_int ?start :: u64) = ?start" by (rule word_of_sane [OF st])
  have le: "(word_of_int ?start :: u64) \<le> kMaxSaneTs" using st by (simp add: word_le_def u sane_time_def)
  have nz: "(word_of_int ?start :: u64) \<noteq> 0" using u pos by auto
  have "getTableName cal (word_of_int ?start) Gran1s \<noteq> []"
    using calendarD(1) [OF laws st] le nz sane_word [OF le] u by (simp add: getTableName_def not_less)
  moreover obtain r s1 where o: "openMonth cal ok ts s = (r, s1)" by (cases "openMonth cal ok ts s")
  ultimately have r by (auto simp: openMonth_def Let_def create_history_def w nz ok split: if_splits prod.splits bool.splits)
  moreover have "sq_conns s1 ?p \<noteq> None" and same: "sql_same s s1" using openMonth_same [OF o] \<open>r\<close> by auto
  moreover have "sq_conns s1 ?p \<noteq> Some False" using same conns by (simp add: sql_same_def)
  ultimately have "sq_conns s1 ?p = Some True" by (cases "sq_conns s1 ?p") auto
  with o same \<open>r\<close> show ?thesis by auto
qed

lemma select_stored:
  assumes holds: "store_holds cal s acc" and laws: "calendar_laws cal" and ts: "ts \<le> kMaxSaneTs"
    and table: "table = getTableName cal (monthStartFromDbPath cal path) g" "table \<noteq> []"
    and path: "path = getDatabasePath cal (sq_root s) ts"
    and within: "cal_first cal (uint ts) \<le> qb" "qe \<le> cal_next cal (cal_first cal (uint ts))"
    and sane: "0 \<le> qb" "qe \<le> uint kMaxSaneTs"
  shows "map (sample_of_row pid) (select_rows (uint pid) qb qe (rows_at (sq_hist s) path table)) =
    map read_back (history acc g pid qb qe)"
proof -
  let ?P = "\<lambda>gx. (case gx of (h, x) \<Rightarrow> h = g \<and> ds_pointId x = pid \<and> qb \<le> uint (ds_timestamp x) \<and> uint (ds_timestamp x) < qe)"
  have sint: "sint (ds_timestamp x) = uint (ds_timestamp x)" if "(h, x) \<in> set acc" for h x
    using store_holdsD(4) [OF holds that] sane_word by blast
  have sane_ts: "sane_time (uint ts)" using sane_word [OF ts] by blast
  have same: "stored_in cal (sq_root s) path table (h, x) \<and> hr_point_id (row_of_sample x) = uint pid \<and>
      qb \<le> hr_ts (row_of_sample x) \<and> hr_ts (row_of_sample x) < qe \<longleftrightarrow> ?P (h, x)" if gx: "(h, x) \<in> set acc" for h x
  proof -
    have "getDatabasePath cal (sq_root s) (ds_timestamp x) = path"
      if "qb \<le> uint (ds_timestamp x)" "uint (ds_timestamp x) < qe"
      unfolding path using stored_this_month [OF laws sane_ts ts store_holdsD(4) [OF holds gx], of "sq_root s"]
        that within by linarith
    moreover have "getTableName cal (monthStartFromDbPath cal path) h = table \<longleftrightarrow> h = g"
      using tables_differ [of cal "monthStartFromDbPath cal path" g h] table by auto
    ultimately show ?thesis by (auto simp: stored_in_def row_of_sample_def sint [OF gx] word_uint_eq_iff)
  qed
  have kept: "filter (\<lambda>gx. stored_in cal (sq_root s) path table gx \<and> hr_point_id (row_of_sample (snd gx)) = uint pid \<and>
      qb \<le> hr_ts (row_of_sample (snd gx)) \<and> hr_ts (row_of_sample (snd gx)) < qe) acc = filter ?P acc"
  proof (rule filter_cong [OF refl])
    fix gx assume "gx \<in> set acc"
    moreover obtain h x where "gx = (h, x)" by (cases gx)
    ultimately show "(stored_in cal (sq_root s) path table gx \<and> hr_point_id (row_of_sample (snd gx)) = uint pid \<and>
      qb \<le> hr_ts (row_of_sample (snd gx)) \<and> hr_ts (row_of_sample (snd gx)) < qe) = ?P gx"
      using same [of h x] by simp
  qed
  have "select_rows (uint pid) qb qe (rows_at (sq_hist s) path table) =
      sort_key hr_ts (map (\<lambda>gx. row_of_sample (snd gx)) (filter ?P acc))"
    by (simp only: select_rows_def store_holdsD(1) [OF holds] filter_map filter_filter comp_def kept)
  also have "\<dots> = map row_of_sample (sort_key (hr_ts \<circ> row_of_sample) (map snd (filter ?P acc)))"
    using sort_key_map [of hr_ts row_of_sample "map snd (filter ?P acc)"] by (simp add: comp_def)
  also have "sort_key (hr_ts \<circ> row_of_sample) (map snd (filter ?P acc)) = history acc g pid qb qe"
    unfolding history_def by (rule sort_key_cong) (auto simp: row_of_sample_def sint)
  finally have "select_rows (uint pid) qb qe (rows_at (sq_hist s) path table) = map row_of_sample (history acc g pid qb qe)" .
  moreover have "sample_of_row pid (row_of_sample x) = read_back x" if "x \<in> set (history acc g pid qb qe)" for x
    using that sint by (auto simp: history_def sample_of_row_def row_of_sample_def read_back_def)
  ultimately show ?thesis by simp
qed

lemma history_none: "store_holds cal s acc \<Longrightarrow> rows_at (sq_hist s) path table = [] \<Longrightarrow> select_rows q b e (rows_at (sq_hist s) path table) = []"
  by (simp add: select_rows_def)

lemma queryMonth_returns:
  assumes holds: "store_holds cal s acc" and laws: "calendar_laws cal" and ok: "\<forall>op p. ok op p"
    and b: "b < e" "0 < cal_first cal (uint b)" and e: "e \<le> kMaxSaneTs"
    and cur: "cur = cal_first cal (uint t)" "t \<le> kMaxSaneTs" "cal_first cal (uint b) \<le> cur" "cur < uint e" "uint b < cal_next cal cur"
  shows "\<exists>s1. queryMonth cal ok pid b e g cur s =
      (map read_back (history acc g pid (max (uint b) cur) (min (uint e) (cal_next cal cur))), s1) \<and> sql_same s s1"
proof -
  let ?next = "cal_next cal cur" and ?qb = "max b (word_of_int cur)" and ?qe = "min e (word_of_int (cal_next cal cur))"
  have sane_t: "sane_time (uint t)" and sane_e: "sane_time (uint e)" using sane_word cur(2) e by blast+
  have pos: "0 < cur" using b(2) cur(3) by simp
  have sane_cur: "sane_time cur" using pos cur(4) sane_e by (simp add: sane_time_def)
  have nxt: "uint t < ?next" "?next < 2 ^ 63" using calendarD(7,8) [OF laws sane_t] by (simp_all add: cur(1))
  have "0 \<le> ?next" using nxt(1) uint_ge_0 [of t] by linarith
  with nxt(2) have un: "uint (word_of_int ?next :: u64) = ?next"
    by (simp add: uint_word_of_int_eq take_bit_int_eq_self_iff)
  have uc: "uint (word_of_int cur :: u64) = cur" by (rule word_of_sane [OF sane_cur])
  have cur_self: "cal_first cal cur = cur"
    using calendarD(11) [OF laws sane_t, of cur] calendarD(6,7) [OF laws sane_t] cur(1) by auto
  have qb: "uint ?qb = max (uint b) cur" and qe: "uint ?qe = min (uint e) ?next"
    using uc un by (auto simp: max_def min_def word_le_def)
  have lt: "uint b < uint e" using b(1) by (simp add: word_less_def)
  have cn: "cur < ?next" using calendarD(7) [OF laws sane_cur] cur_self by simp
  have less: "?qb < ?qe" unfolding word_less_def qb qe using lt cur(4,5) cn by simp
  have qb_le: "?qb \<le> kMaxSaneTs" using less e by (meson order.strict_implies_order order.trans min.cobounded1)
  have sane_qb: "sane_time (uint ?qb)" "sint ?qb = uint ?qb" using sane_word [OF qb_le] by auto
  have qe_le: "uint ?qe \<le> uint kMaxSaneTs" unfolding qe using e by (simp add: word_le_def)
  have sint_qe: "sint ?qe = uint ?qe" by (rule sint_small) (use qe_le in \<open>simp add: kMaxSaneTs_uint\<close>)
  have first: "cal_first cal (uint ?qb) = cur"
    using calendarD(11) [OF laws sane_cur, of "uint ?qb"] less cur_self by (simp add: word_less_def qb qe)
  obtain s1 where s1: "openMonth cal ok ?qb s = (True, s1)" "sql_same s s1"
    "sq_conns s1 (getDatabasePath cal (sq_root s) ?qb) = Some True"
    using openMonth_ok [OF laws ok qb_le, of s] first pos store_holdsD(3) [OF holds] by auto
  note holds1 = store_holds_same [OF holds s1(2)]
  have root_eq: "sq_root s1 = sq_root s" using s1(2) by (simp add: sql_same_def)
  let ?path = "getDatabasePath cal (sq_root s1) ?qb"
  have start: "monthStartFromDbPath cal ?path = word_of_int cur"
    using month_time(1) [OF laws qb_le refl] by (simp add: first)
  have table: "getTableName cal (word_of_int cur) g = getTableName cal ?qb g"
    and nonempty: "getTableName cal ?qb g \<noteq> []"
  proof -
    have "(word_of_int cur :: u64) \<le> kMaxSaneTs" using sane_cur by (simp add: word_le_def uc sane_time_def)
    moreover have "(word_of_int cur :: u64) \<noteq> 0" "?qb \<noteq> 0" using uc qb pos by auto
    moreover have "sint (word_of_int cur :: u64) = cur" using sane_word [OF calculation(1)] uc by simp
    ultimately show "getTableName cal (word_of_int cur) g = getTableName cal ?qb g" and "getTableName cal ?qb g \<noteq> []"
      using calendarD(1) [OF laws sane_cur] calendarD(1,9) [OF laws sane_qb(1)] qb_le first sane_qb(2)
      by (auto simp: getTableName_def not_less)
  qed
  have "map (sample_of_row pid) (select_rows (uint pid) (sint ?qb) (sint ?qe)
        (rows_at (sq_hist s1) ?path (getTableName cal ?qb g))) =
      map read_back (history acc g pid (uint ?qb) (uint ?qe))"
    unfolding sane_qb(2) sint_qe
    by (rule select_stored [OF holds1 laws qb_le _ nonempty refl])
      (use start table first sane_qb(1) qe_le in \<open>simp_all add: qb qe sane_time_def\<close>)
  moreover have "queryMonth cal ok pid b e g cur s =
      (map (sample_of_row pid) (select_rows (uint pid) (sint ?qb) (sint ?qe)
        (rows_at (sq_hist s1) ?path (getTableName cal ?qb g))), s1)"
    using less nonempty s1 ok
    by (auto simp: queryMonth_def Let_def root_eq rows_at_def select_rows_def split: option.split)
  ultimately show ?thesis using s1(2) by (simp add: qb qe)
qed

lemma history_empty:
  assumes "qe \<le> qb"
  shows "history acc g pid qb qe = []"
proof -
  have "filter (\<lambda>(h, x). h = g \<and> ds_pointId x = pid \<and> qb \<le> uint (ds_timestamp x) \<and> uint (ds_timestamp x) < qe) acc = []"
    using assms by (auto simp: filter_empty_conv)
  then show ?thesis by (simp only: history_def) simp
qed

lemma query_months_returns:
  assumes laws: "calendar_laws cal" and ok: "\<forall>op p. ok op p"
    and b: "b < e" "0 < cal_first cal (uint b)" and e: "e \<le> kMaxSaneTs"
  shows "store_holds cal s acc \<Longrightarrow> cal_first cal cur = cur \<Longrightarrow> cal_first cal (uint b) \<le> cur \<Longrightarrow>
    (cur \<le> uint b \<longrightarrow> cur = cal_first cal (uint b)) \<Longrightarrow>
    \<exists>s'. query_months cal ok pid b e g cur out s =
      Some (out @ map read_back (history acc g pid (max (uint b) cur) (uint e)), s') \<and> sql_same s s'"
proof (induction "nat (uint e - cur)" arbitrary: cur out s rule: less_induct)
  case less
  have sint_e: "sint e = uint e" and sane_b: "sane_time (uint b)" using sane_word e b(1) by (meson less_imp_le order.trans)+
  show ?case
  proof (cases "cur < uint e")
    case False
    then show ?thesis by (subst query_months.simps) (simp add: sint_e history_empty)
  next
    case True
    then have sane: "sane_time cur" using b(2) less.prems(3) e by (auto simp: sane_time_def word_le_def)
    let ?next = "cal_next cal cur"
    have w: "uint (word_of_int cur :: u64) = cur" by (rule word_of_sane [OF sane])
    have le: "(word_of_int cur :: u64) \<le> kMaxSaneTs" using sane by (simp add: word_le_def w sane_time_def)
    have nxt: "cur < ?next" "cal_first cal ?next = ?next"
      using calendarD(7,10) [OF laws sane] less.prems(2) by simp_all
    have b_next: "uint b < ?next"
      using less.prems(4) nxt(1) calendarD(7) [OF laws sane_b] by (cases "cur \<le> uint b") auto
    obtain s1 where step: "queryMonth cal ok pid b e g cur s =
        (map read_back (history acc g pid (max (uint b) cur) (min (uint e) ?next)), s1)" and s1: "sql_same s s1"
      using queryMonth_returns [OF less.prems(1) laws ok b e, of cur "word_of_int cur" pid g]
        less.prems(2,3) True b_next le by (auto simp: w)
    have smaller: "nat (uint e - ?next) < nat (uint e - cur)" using nxt(1) True by linarith
    obtain s2 where rest: "query_months cal ok pid b e g ?next
        (out @ map read_back (history acc g pid (max (uint b) cur) (min (uint e) ?next))) s1 =
      Some ((out @ map read_back (history acc g pid (max (uint b) cur) (min (uint e) ?next))) @
        map read_back (history acc g pid (max (uint b) ?next) (uint e)), s2)" and s2: "sql_same s1 s2"
      using less.hyps [OF smaller store_holds_same [OF less.prems(1) s1] nxt(2)] less.prems(3) nxt(1) b_next by fastforce
    have "history acc g pid (max (uint b) cur) (min (uint e) ?next) @ history acc g pid (max (uint b) ?next) (uint e) =
        history acc g pid (max (uint b) cur) (uint e)"
    proof (cases "?next \<le> uint e")
      case True
      with nxt b_next show ?thesis using history_split [of "max (uint b) cur" ?next "uint e" acc g pid] by simp
    next
      case False
      with b_next show ?thesis by (simp add: history_empty)
    qed
    then have "query_months cal ok pid b e g cur out s =
        Some (out @ map read_back (history acc g pid (max (uint b) cur) (uint e)), s2)"
      using rest True by (subst query_months.simps) (simp add: sint_e step flip: map_append)
    with sql_same_trans [OF s1 s2] show ?thesis by blast
  qed
qed

section \<open>Runs\<close>

lemma queryMonth_same: "queryMonth cal ok pid b e g cur s = (rs, s') \<Longrightarrow> sql_same s s'"
  using openMonth_same(1)
  by (fastforce simp: queryMonth_def Let_def split: if_splits prod.splits bool.splits option.splits)

lemma query_months_same:
  assumes "query_months cal ok pid b e g cur out s = Some (rs, s')"
  shows "sql_same s s'"
proof -
  have "\<forall>rs s'. r = (rs, s') \<longrightarrow> sql_same s s'" if "query_months cal ok pid b e g cur out s = Some r" for r
  proof (rule query_months.raw_induct [where P = "\<lambda>cal ok pid b e g cur out s r. \<forall>rs s'. r = (rs, s') \<longrightarrow> sql_same s s'", OF _ that])
    fix f cal ok pid b e g cur out s r
    assume IH: "\<And>cal ok pid b e g cur out s r. f cal ok pid b e g cur out s = Some r \<Longrightarrow> \<forall>rs s'. r = (rs, s') \<longrightarrow> sql_same s s'"
      and eq: "(if cur < sint e then case queryMonth cal ok pid b e g cur s of
          (rs, s1) \<Rightarrow> f cal ok pid b e g (cal_next cal cur) (out @ rs) s1 else Some (out, s)) = Some r"
    show "\<forall>rs s'. r = (rs, s') \<longrightarrow> sql_same s s'"
    proof (cases "cur < sint e")
      case True
      obtain ms s1 where m: "queryMonth cal ok pid b e g cur s = (ms, s1)" by (cases "queryMonth cal ok pid b e g cur s")
      with eq True IH [of cal ok pid b e g "cal_next cal cur" "out @ ms" s1] queryMonth_same [OF m] sql_same_trans
      show ?thesis by fastforce
    next
      case False
      with eq show ?thesis by auto
    qed
  qed
  with assms show ?thesis by blast
qed

lemma queryRange_same: "queryRange cal ok pid b e g s = Some (rs, s') \<Longrightarrow> sql_same s s'"
  using query_months_same by (auto simp: queryRange_def split: if_splits)

lemma create_alarm_same: "create_alarm cal ok p s = (r, s') \<Longrightarrow> sql_same s s' \<and> sq_conns s' = sq_conns s"
  by (auto simp: create_alarm_def Let_def sql_same_def split: if_splits)

lemma openAlarmMonth_same:
  assumes "openAlarmMonth cal ok ts s = (r, s')"
  shows "sql_same s s'"
proof -
  let ?p = "getAlarmDatabasePath cal (sq_root s) ts"
  define s1 where "s1 = s\<lparr>sq_nextConnIdx := sq_nextConnIdx s + 1, sq_conns := (sq_conns s)(?p \<mapsto> True),
    sq_alarm := make_file ?p (sq_alarm s)\<rparr>"
  have s1: "sql_same s s1" by (auto simp: s1_def sql_same_def)
  obtain r2 s2 where c: "create_alarm cal ok ?p s1 = (r2, s2)" by (cases "create_alarm cal ok ?p s1")
  from create_alarm_same [OF this] have s2: "sql_same s s2" using sql_same_trans [OF s1] by blast
  then have "sql_same s (s2\<lparr>sq_conns := (sq_conns s2)(?p := None)\<rparr>)" by (auto simp: sql_same_def)
  with s2 c assms show ?thesis
    by (auto simp: openAlarmMonth_def Let_def sql_same_def s1_def split: if_splits bool.splits prod.splits)
qed

lemma create_ensure_same:
  "ensureAlarmSchema cal ok p s = (r, s') \<Longrightarrow> sql_same s s'"
  using create_alarm_same openAlarmMonth_same by (fastforce simp: ensureAlarmSchema_def Let_def split: if_splits)

lemma sql_same_alarm [simp]: "sql_same s (s\<lparr>sq_alarm := a\<rparr>)"
  by (simp add: sql_same_def)

lemma opened_same:
  "(if c then (True, s) else openAlarmMonth cal ok ts s) = (r, s') \<Longrightarrow> sql_same s s'"
  using openAlarmMonth_same by (auto split: if_splits)

lemma insertAlarmRecords_same:
  assumes "insertAlarmRecords cal ok rs s = (r, s')"
  shows "sql_same s s'"
proof (cases "rs = [] \<or> rc_triggerTime (hd rs) = 0 \<or> rc_triggerTime (hd rs) > kMaxSaneTs")
  case True
  with assms show ?thesis by (auto simp: insertAlarmRecords_def Let_def split: if_splits)
next
  case False
  let ?ts = "rc_triggerTime (hd rs)"
  let ?p = "getAlarmDatabasePath cal (sq_root s) ?ts" and ?t = "alarmTableNameOf cal ?ts"
  obtain o1 s1 where o1: "(if sq_conns s ?p \<noteq> None then (True, s) else openAlarmMonth cal ok ?ts s) = (o1, s1)"
    by (cases "if sq_conns s ?p \<noteq> None then (True, s) else openAlarmMonth cal ok ?ts s")
  obtain o2 s2 where o2: "(if ?t = [] then (False, s1) else ensureAlarmSchema cal ok ?p s1) = (o2, s2)"
    by (cases "if ?t = [] then (False, s1) else ensureAlarmSchema cal ok ?p s1")
  have s1: "sql_same s s1" by (rule opened_same [OF o1])
  have s2: "sql_same s1 s2" using create_ensure_same o2 by (auto split: if_splits)
  have "s' = s1 \<or> s' = s2 \<or> (\<exists>a. s' = s2\<lparr>sq_alarm := a\<rparr>)"
    using assms False
    unfolding insertAlarmRecords_def Let_def o1 prod.case o2
    by (auto split: if_splits bool.splits option.splits)
  with s1 sql_same_trans [OF s1 s2] sql_same_trans sql_same_alarm show ?thesis by metis
qed

lemma update_alarm_same:
  assumes "update_alarm cal ok t P f s = (r, s')"
  shows "sql_same s s'"
proof (cases "t = 0 \<or> t > kMaxSaneTs")
  case True
  with assms show ?thesis by (auto simp: update_alarm_def)
next
  case False
  let ?p = "getAlarmDatabasePath cal (sq_root s) t"
  obtain o1 s1 where o1: "(if sq_conns s ?p \<noteq> None then (True, s) else openAlarmMonth cal ok t s) = (o1, s1)"
    by (cases "if sq_conns s ?p \<noteq> None then (True, s) else openAlarmMonth cal ok t s")
  have s1: "sql_same s s1" by (rule opened_same [OF o1])
  have "s' = s1 \<or> (\<exists>a. s' = s1\<lparr>sq_alarm := a\<rparr>)"
    using assms False unfolding update_alarm_def Let_def o1 prod.case
    by (auto split: if_splits bool.splits option.splits)
  with s1 sql_same_trans sql_same_alarm show ?thesis by metis
qed

text \<open>The calls on an access layer over empty files; the list is what its batches accepted. A batch has samples of
  one file, as \<open>L2HistoryStore\<close> groups them, not later than the year 2100.\<close>

inductive dal_reach :: "Calendar \<Rightarrow> SqlState \<Rightarrow> Accepted \<Rightarrow> bool" for cal where
  start: "dal_reach cal (dal_new dir Map.empty Map.empty) []"
| batch: "dal_reach cal s acc \<Longrightarrow>
    \<forall>x \<in> set xs. ds_timestamp x \<le> kMaxSaneTs \<and> getDatabasePath cal (sq_root s) (ds_timestamp x) = p \<Longrightarrow>
    batchInsert cal ok p g xs s = (r, s') \<Longrightarrow> dal_reach cal s' (if r then acc @ map (Pair g) xs else acc)"
| query: "dal_reach cal s acc \<Longrightarrow> queryRange cal ok pid b e g s = Some (rs, s') \<Longrightarrow> dal_reach cal s' acc"
| close: "dal_reach cal s acc \<Longrightarrow> dal_reach cal (closeAll s) acc"
| alarms: "dal_reach cal s acc \<Longrightarrow> insertAlarmRecords cal ok recs s = (r, s') \<Longrightarrow> dal_reach cal s' acc"
| recovered: "dal_reach cal s acc \<Longrightarrow> setAlarmRecovered cal ok t i u s = (r, s') \<Longrightarrow> dal_reach cal s' acc"
| confirmed: "dal_reach cal s acc \<Longrightarrow> setAlarmConfirmed cal ok t i n u s = (r, s') \<Longrightarrow> dal_reach cal s' acc"

lemma dal_reach_holds:
  assumes "calendar_laws cal"
  shows "dal_reach cal s acc \<Longrightarrow> store_holds cal s acc"
proof (induction rule: dal_reach.induct)
  case (start dir)
  then show ?case by (simp add: store_holds_def dal_new_def rows_at_def table_rows_def row_keys_def acc_keys_def)
next
  case (batch s acc xs p ok g r s')
  show ?case by (rule batchInsert_holds(1) [OF assms batch.IH batch.hyps(2,3)])
next
  case (query s acc ok pid b e g rs s')
  then show ?case using store_holds_same queryRange_same by blast
next
  case (close s acc)
  have "sql_same s (closeAll s)" by (simp add: sql_same_def closeAll_def)
  with close.IH show ?case by (rule store_holds_same)
next
  case (alarms s acc ok recs r s')
  then show ?case using store_holds_same insertAlarmRecords_same by blast
next
  case (recovered s acc ok t i u r s')
  then show ?case using store_holds_same update_alarm_same unfolding setAlarmRecovered_def by blast
next
  case (confirmed s acc ok t i n u r s')
  then show ?case using store_holds_same update_alarm_same unfolding setAlarmConfirmed_def by blast
qed

lemma history_distinct:
  assumes "distinct (acc_keys acc)"
  shows "sorted_wrt (\<lambda>x y. ds_timestamp x < ds_timestamp y) (history acc g pid qb qe)"
proof -
  let ?xs = "filter (\<lambda>(h, x). h = g \<and> ds_pointId x = pid \<and> qb \<le> uint (ds_timestamp x) \<and> uint (ds_timestamp x) < qe) acc"
  have inj: "inj_on (\<lambda>(g, x). (g, ds_pointId x, ds_timestamp x)) (set acc)" and "distinct acc"
    using assms by (simp_all add: acc_keys_def distinct_map)
  have same: "x = y" if "(h, x) \<in> set acc" "(h, y) \<in> set acc" "ds_pointId x = ds_pointId y"
      "uint (ds_timestamp x) = uint (ds_timestamp y)" for h x y
    using inj_onD [OF inj, of "(h, x)" "(h, y)"] that by (simp add: word_uint_eq_iff)
  have "distinct (map (\<lambda>gx. uint (ds_timestamp (snd gx))) ?xs)"
    using \<open>distinct acc\<close> by (auto simp: distinct_map inj_on_def intro: same)
  then have "distinct (map (\<lambda>x. uint (ds_timestamp x)) (map snd ?xs))" by (simp add: comp_def)
  moreover have "distinct (map f ys) \<Longrightarrow> distinct (map f (sort_key f ys))" for f :: "DownSampledSample \<Rightarrow> int" and ys
    by (simp add: distinct_map)
  ultimately have "distinct (map (\<lambda>x. uint (ds_timestamp x)) (history acc g pid qb qe))"
    unfolding history_def by blast
  moreover have "sorted (map (\<lambda>x. uint (ds_timestamp x)) (history acc g pid qb qe))"
    unfolding history_def by (rule sorted_sort_key)
  ultimately have "sorted_wrt (<) (map (\<lambda>x. uint (ds_timestamp x)) (history acc g pid qb qe))"
    by (simp add: strict_sorted_iff)
  then show ?thesis by (simp add: sorted_wrt_map word_less_def)
qed

text \<open>Property C28: the history store refines a list of accepted samples. After any calls, each with any failing
  accesses, a query whose accesses succeed returns exactly the samples of the point and granularity that
  successful batches inserted with a time between the two bounds, each once and by ascending time, from the
  files of all months between. The bounds lie after the first month of 1970 and not after 2100, and the
  sample values are \<open>float\<close> values.\<close>

theorem history_query_refines:
  assumes "calendar_laws cal" and "dal_reach cal s acc"
    and "\<forall>op p. ok op p"
    and "b < e" and "e \<le> kMaxSaneTs" and "0 < cal_first cal (uint b)"
    and "\<forall>(h, x) \<in> set acc. read_back x = x"
  shows "\<exists>s'. queryRange cal ok pid b e g s = Some (history acc g pid (uint b) (uint e), s') \<and>
    sorted_wrt (\<lambda>x y. ds_timestamp x < ds_timestamp y) (history acc g pid (uint b) (uint e))"
proof -
  have holds: "store_holds cal s acc" by (rule dal_reach_holds [OF assms(1,2)])
  have sane: "sane_time (uint b)" "sint b = uint b" using sane_word assms(4,5) by (meson less_imp_le order.trans)+
  note first = calendarD(6) [OF assms(1) sane(1)]
  have self: "cal_first cal (cal_first cal (uint b)) = cal_first cal (uint b)"
    using calendarD(11) [OF assms(1) sane(1), of "cal_first cal (uint b)"] first calendarD(7) [OF assms(1) sane(1)] by simp
  obtain s' where "query_months cal ok pid b e g (cal_first cal (uint b)) [] s =
      Some (map read_back (history acc g pid (uint b) (uint e)), s')"
    using query_months_returns [OF assms(1,3,4,6,5) holds self, of pid g "[]"] first by (auto simp: max_def)
  moreover have "read_back x = x" if "x \<in> set (history acc g pid (uint b) (uint e))" for x
    using that assms(7) by (auto simp: history_def)
  moreover have "\<not> e \<le> b" using assms(4) by simp
  ultimately show ?thesis
    using sane(2) history_distinct [OF store_holdsD(5) [OF holds]]
    by (simp add: queryRange_def map_idI)
qed

section \<open>A calendar of months of 30 days\<close>

definition demo_D :: int where "demo_D = 2592000000"

definition dig :: "int \<Rightarrow> char" where "dig j = char_of (48 + nat (j mod 10))"

definition demo_name :: "int \<Rightarrow> string" where
  "demo_name i = [dig (i div 10 div 10 div 10 div 10 div 10), dig (i div 10 div 10 div 10 div 10),
     dig (i div 10 div 10 div 10), dig (i div 10 div 10), dig (i div 10), dig i]"

definition demo_number :: "string \<Rightarrow> int" where
  "demo_number = foldl (\<lambda>a c. a * 10 + (int (of_char c) - 48)) 0"

definition demo_calendar :: Calendar where
  "demo_calendar = \<lparr>cal_valid = (\<lambda>t. True), cal_month = (\<lambda>t. demo_name (t div demo_D)),
     cal_parse = (\<lambda>s. Some (demo_number s * demo_D)), cal_first = (\<lambda>t. t div demo_D * demo_D),
     cal_next = (\<lambda>t. t + demo_D)\<rparr>"

lemma dig_value: "int (of_char (dig j)) - 48 = j mod 10"
proof -
  have "nat (j mod 10) < 10" by (simp add: nat_less_iff)
  then have "(of_char (dig j) :: nat) = 48 + nat (j mod 10)" by (simp add: dig_def)
  then show ?thesis by simp
qed

lemma dig_no_slash: "dig j \<noteq> CHR ''/''"
proof
  assume "dig j = CHR ''/''"
  with dig_value [of j] have "j mod 10 = -1" by simp
  moreover have "0 \<le> j mod 10" by simp
  ultimately show False by linarith
qed

lemma demo_number_name:
  assumes "0 \<le> i" and "i < 1000000"
  shows "demo_number (demo_name i) = i"
proof -
  define a b c d e where defs: "a = i div 10" "b = a div 10" "c = b div 10" "d = c div 10" "e = d div 10"
  have step: "n div 10 * 10 + n mod 10 = n" for n :: int by simp
  have "e < 10" "0 \<le> e" using assms by (simp_all add: defs)
  then have top: "e mod 10 = e" by simp
  have steps: "e * 10 + d mod 10 = d" "d * 10 + c mod 10 = c" "c * 10 + b mod 10 = b" "b * 10 + a mod 10 = a"
    "a * 10 + i mod 10 = i" unfolding defs by (rule step)+
  have name: "demo_name i = [dig e, dig d, dig c, dig b, dig a, dig i]" by (simp only: demo_name_def defs)
  show ?thesis
    by (simp only: demo_number_def name foldl.simps dig_value mult_zero_left add_0 top steps)
qed

lemma demo_calendar_laws: "calendar_laws demo_calendar"
  unfolding calendar_laws_def
proof (intro allI impI)
  fix t assume "sane_time t"
  then have t: "0 \<le> t" "t \<le> 4102444800000" by (simp_all add: sane_time_def kMaxSaneTs_uint)
  let ?i = "t div demo_D"
  have i: "0 \<le> ?i" "?i < 1000000" using t by (simp_all add: demo_D_def)
  have D: "?i * demo_D \<le> t" "t < ?i * demo_D + demo_D" by (simp_all add: demo_D_def)
  have again: "(?i * demo_D) div demo_D = ?i" "(?i * demo_D + demo_D) div demo_D = ?i + 1" by (simp_all add: demo_D_def)
  have inside: "\<forall>u. ?i * demo_D \<le> u \<and> u < ?i * demo_D + demo_D \<longrightarrow> u div demo_D * demo_D = ?i * demo_D"
    by (auto simp: demo_D_def)
  have fields: "cal_valid demo_calendar u" "cal_month demo_calendar u = demo_name (u div demo_D)"
    "cal_parse demo_calendar n = Some (demo_number n * demo_D)" "cal_first demo_calendar u = u div demo_D * demo_D"
    "cal_next demo_calendar u = u + demo_D" for u n
    by (simp_all add: demo_calendar_def)
  have name: "length (demo_name ?i) = 6" "CHR ''/'' \<notin> set (demo_name ?i)"
    using dig_no_slash by (auto simp: demo_name_def) metis+
  have "0 \<le> ?i * demo_D" using i(1) by (simp add: demo_D_def)
  then have low: "- (2 ^ 63) \<le> ?i * demo_D" by (rule order_trans [rotated]) simp
  have high: "?i * demo_D + demo_D < 2 ^ 63"
  proof -
    have "?i * demo_D + demo_D \<le> t + demo_D" using D(1) by simp
    also have "\<dots> < 2 ^ 63" using t(2) by (simp add: demo_D_def)
    finally show ?thesis .
  qed
  have succ: "(?i + 1) * demo_D = ?i * demo_D + demo_D" by (simp add: distrib_right)
  show "cal_valid demo_calendar t \<and> length (cal_month demo_calendar t) = 6 \<and> CHR ''/'' \<notin> set (cal_month demo_calendar t) \<and>
      cal_parse demo_calendar (cal_month demo_calendar t) = Some (cal_first demo_calendar t) \<and>
      - (2 ^ 63) \<le> cal_first demo_calendar t \<and> cal_first demo_calendar t \<le> t \<and>
      t < cal_next demo_calendar (cal_first demo_calendar t) \<and> cal_next demo_calendar (cal_first demo_calendar t) < 2 ^ 63 \<and>
      cal_month demo_calendar (cal_first demo_calendar t) = cal_month demo_calendar t \<and>
      cal_first demo_calendar (cal_next demo_calendar (cal_first demo_calendar t)) = cal_next demo_calendar (cal_first demo_calendar t) \<and>
      (\<forall>u. cal_first demo_calendar t \<le> u \<and> u < cal_next demo_calendar (cal_first demo_calendar t) \<longrightarrow>
        cal_first demo_calendar u = cal_first demo_calendar t)"
    unfolding fields again demo_number_name [OF i]
    by (intro conjI fields(1) name low high succ D inside refl)
qed

definition demo_sample :: "u64 \<Rightarrow> DownSampledSample" where
  "demo_sample ts = \<lparr>ds_pointId = 7, ds_timestamp = ts, ds_maxValue = Fin 3, ds_minValue = Fin 1, ds_avgValue = Fin 2,
     ds_sampleCount = 2\<rparr>"

definition demo_dal :: SqlState where
  "demo_dal = snd (batchInsert demo_calendar (\<lambda>op p. True) (getDatabasePath demo_calendar [] 5184000001) Gran1s
     [demo_sample 5184000001]
     (snd (batchInsert demo_calendar (\<lambda>op p. True) (getDatabasePath demo_calendar [] 2592000005) Gran1s
       [demo_sample 2592000005, demo_sample 2592000002] (dal_new [] Map.empty Map.empty))))"

definition demo_accepted :: Accepted where
  "demo_accepted = [(Gran1s, demo_sample 2592000005), (Gran1s, demo_sample 2592000002), (Gran1s, demo_sample 5184000001)]"

lemma demo_batches:
  "fst (batchInsert demo_calendar (\<lambda>op p. True) (getDatabasePath demo_calendar [] 2592000005) Gran1s
     [demo_sample 2592000005, demo_sample 2592000002] (dal_new [] Map.empty Map.empty))"
  "fst (batchInsert demo_calendar (\<lambda>op p. True) (getDatabasePath demo_calendar [] 5184000001) Gran1s
     [demo_sample 5184000001]
     (snd (batchInsert demo_calendar (\<lambda>op p. True) (getDatabasePath demo_calendar [] 2592000005) Gran1s
       [demo_sample 2592000005, demo_sample 2592000002] (dal_new [] Map.empty Map.empty))))"
  "getDatabasePath demo_calendar [] 2592000002 = getDatabasePath demo_calendar [] 2592000005"
  "sq_root (snd (batchInsert demo_calendar (\<lambda>op p. True) (getDatabasePath demo_calendar [] 2592000005) Gran1s
     [demo_sample 2592000005, demo_sample 2592000002] (dal_new [] Map.empty Map.empty))) = []"
  by code_simp+

lemma demo_dal_reach: "dal_reach demo_calendar demo_dal demo_accepted"
proof -
  let ?ok = "\<lambda>(op :: SqlOp) (p :: string). True" and ?s0 = "dal_new [] Map.empty Map.empty"
  let ?p1 = "getDatabasePath demo_calendar [] 2592000005" and ?p2 = "getDatabasePath demo_calendar [] 5184000001"
  let ?xs1 = "[demo_sample 2592000005, demo_sample 2592000002]" and ?xs2 = "[demo_sample 5184000001]"
  let ?b1 = "batchInsert demo_calendar ?ok ?p1 Gran1s ?xs1 ?s0"
  let ?b2 = "batchInsert demo_calendar ?ok ?p2 Gran1s ?xs2 (snd ?b1)"
  have "dal_reach demo_calendar (snd ?b1) (if fst ?b1 then [] @ map (Pair Gran1s) ?xs1 else [])"
    by (rule dal_reach.batch [OF dal_reach.start, where p = ?p1 and ok = ?ok])
      (simp_all add: demo_sample_def dal_new_def kMaxSaneTs_def demo_batches(3) word_le_def)
  then have "dal_reach demo_calendar (snd ?b1) (map (Pair Gran1s) ?xs1)" using demo_batches(1) by simp
  then have "dal_reach demo_calendar (snd ?b2) (if fst ?b2 then map (Pair Gran1s) ?xs1 @ map (Pair Gran1s) ?xs2 else map (Pair Gran1s) ?xs1)"
    by (rule dal_reach.batch [where p = ?p2 and ok = ?ok])
      (simp_all add: demo_sample_def kMaxSaneTs_def demo_batches(4) [unfolded demo_sample_def] word_le_def)
  then show ?thesis using demo_batches(2) by (simp add: demo_dal_def demo_accepted_def)
qed

lemma demo_history: "history demo_accepted Gran1s 7 2592000002 6000000000 =
    [demo_sample 2592000002, demo_sample 2592000005, demo_sample 5184000001]"
  by (simp add: history_def demo_accepted_def demo_sample_def)

theorem history_query_refines_witness:
  "\<exists>s'. queryRange demo_calendar (\<lambda>op p. True) 7 2592000002 6000000000 Gran1s demo_dal =
    Some ([demo_sample 2592000002, demo_sample 2592000005, demo_sample 5184000001], s')"
proof -
  have "read_back (demo_sample t) = demo_sample t" for t
    using round32_int [of 3] round32_int [of 2] round32_int [of 1] by (simp add: read_back_def demo_sample_def)
  then show ?thesis
    using history_query_refines [OF demo_calendar_laws demo_dal_reach, of "\<lambda>op p. True" 2592000002 6000000000 7 Gran1s]
      demo_history
    by (auto simp: kMaxSaneTs_def demo_accepted_def demo_calendar_def demo_D_def)
qed

section \<open>A batch is stored as a whole or not at all\<close>

lemma insert_rows_good:
  "insert_rows rs rows = Some rows' \<Longrightarrow> r \<in> set rs \<Longrightarrow>
    hr_v_max r \<noteq> NaN \<and> hr_v_min r \<noteq> NaN \<and> hr_v_avg r \<noteq> NaN"
proof (induction rs arbitrary: rows)
  case (Cons q rs)
  then obtain rows1 where q: "insert_row q rows = Some rows1" and rs: "insert_rows rs rows1 = Some rows'"
    by (auto simp: bind_eq_Some_conv)
  from q have "hr_v_max q \<noteq> NaN \<and> hr_v_min q \<noteq> NaN \<and> hr_v_avg q \<noteq> NaN"
    by (auto simp: insert_row_def split: if_splits)
  with Cons.IH [OF rs] Cons.prems(2) show ?case by auto
qed simp

lemma batch_all_or_nothing:
  assumes "calendar_laws cal" and "dal_reach cal s acc"
    and "\<forall>x \<in> set xs. ds_timestamp x \<le> kMaxSaneTs \<and> getDatabasePath cal (sq_root s) (ds_timestamp x) = p"
    and "(\<exists>x \<in> set xs. ds_maxValue x = NaN \<or> ds_minValue x = NaN \<or> ds_avgValue x = NaN) \<or>
      \<not> distinct (map (\<lambda>x. (ds_pointId x, ds_timestamp x)) xs) \<or>
      (\<exists>x \<in> set xs. \<exists>y. (g, y) \<in> set acc \<and> ds_pointId y = ds_pointId x \<and> ds_timestamp y = ds_timestamp x)"
  shows "\<exists>s'. batchInsert cal ok p g xs s = (False, s') \<and> dal_reach cal s' acc"
proof -
  obtain r s' where batch: "batchInsert cal ok p g xs s = (r, s')" by (cases "batchInsert cal ok p g xs s")
  have reach: "dal_reach cal s' (if r then acc @ map (Pair g) xs else acc)"
    by (rule dal_reach.batch [OF assms(2,3) batch])
  have "\<not> r"
  proof
    assume r
    with reach have "distinct (acc_keys (acc @ map (Pair g) xs))"
      using store_holdsD(5) [OF dal_reach_holds [OF assms(1)]] by simp
    then have keys: "distinct (map (\<lambda>x. (ds_pointId x, ds_timestamp x)) xs)"
      "\<And>x y. x \<in> set xs \<Longrightarrow> (g, y) \<in> set acc \<Longrightarrow> \<not> (ds_pointId y = ds_pointId x \<and> ds_timestamp y = ds_timestamp x)"
      by (force simp: acc_keys_def comp_def distinct_map inj_on_def)+
    have "x \<in> set xs \<Longrightarrow> ds_maxValue x \<noteq> NaN \<and> ds_minValue x \<noteq> NaN \<and> ds_avgValue x \<noteq> NaN" for x
    proof -
      assume x: "x \<in> set xs"
      then have "xs \<noteq> []" by auto
      then obtain rows rows' where "insert_rows (map row_of_sample xs) rows = Some rows'"
        using batch \<open>r\<close>
        by (auto simp: batchInsert_def Let_def bind_eq_Some_conv split: if_splits bool.splits option.splits prod.splits)
      from insert_rows_good [OF this, of "row_of_sample x"] x show ?thesis by (simp add: row_of_sample_def)
    qed
    with keys assms(4) show False by blast
  qed
  with batch reach show ?thesis by auto
qed

text \<open>A batch is stored as a whole or not at all. One record whose aggregate is not a number,
  two records of one window, or a record of a window that is already stored make the access layer refuse the
  whole batch, and the history stays as it was.\<close>

theorem batch_refused:
  assumes "calendar_laws cal" and "dal_reach cal s acc"
    and "\<forall>x \<in> set xs. ds_timestamp x \<le> kMaxSaneTs \<and> getDatabasePath cal (sq_root s) (ds_timestamp x) = p"
    and "(\<exists>x \<in> set xs. ds_maxValue x = NaN \<or> ds_minValue x = NaN \<or> ds_avgValue x = NaN) \<or>
      \<not> distinct (map (\<lambda>x. (ds_pointId x, ds_timestamp x)) xs) \<or>
      (\<exists>x \<in> set xs. \<exists>y. (g, y) \<in> set acc \<and> ds_pointId y = ds_pointId x \<and> ds_timestamp y = ds_timestamp x)"
  shows "\<exists>s'. batchInsert cal ok p g xs s = (False, s') \<and> dal_reach cal s' acc"
  by (rule batch_all_or_nothing [OF assms])

theorem batch_refused_witness:
  "\<exists>s'. batchInsert demo_calendar (\<lambda>op p. True) (getDatabasePath demo_calendar [] 2592000005) Gran1s
      [demo_sample 2592000006, demo_sample 2592000002] demo_dal = (False, s') \<and> dal_reach demo_calendar s' demo_accepted"
proof (rule batch_refused [OF demo_calendar_laws demo_dal_reach])
  have "sq_root demo_dal = []" and "getDatabasePath demo_calendar [] 2592000006 = getDatabasePath demo_calendar [] 2592000005"
    and "getDatabasePath demo_calendar [] 2592000002 = getDatabasePath demo_calendar [] 2592000005" by code_simp+
  then show "\<forall>x \<in> set [demo_sample 2592000006, demo_sample 2592000002]. ds_timestamp x \<le> kMaxSaneTs \<and>
      getDatabasePath demo_calendar (sq_root demo_dal) (ds_timestamp x) = getDatabasePath demo_calendar [] 2592000005"
    by (simp add: demo_sample_def kMaxSaneTs_def word_le_def)
qed (auto simp: demo_accepted_def)

end
