(* ===== verification/AlarmStore.thy ===== *)
theory AlarmStore
  imports AlarmEngine HistoryQueries
begin

text \<open>
  The store of alarm records, \<^verbatim>\<open>apps/ens_app/src/business/AlarmRecordStore.h\<close> and \<^verbatim>\<open>.cpp\<close>. Its slots run in
  the thread of the alarm engine, directly on the signals, so a run of the store is a fold over the signals
  of the engine in their order. Each signal comes with the reading of the wall clock its slot takes.
\<close>

section \<open>The code\<close>

record AlarmRecordStore =
  as_enabled :: bool
  as_triggerByAlarmId :: "u64 \<rightharpoonup> u64"
  as_dropped :: nat

fun level_int :: "AlarmLevel \<Rightarrow> int" where
  "level_int Info = 0"
| "level_int Warning = 1"
| "level_int Critical = 2"

definition toActiveRecord :: "AlarmEvent \<Rightarrow> AlarmRecord" where
  "toActiveRecord ev =
     \<lparr>rc_id = of_nat (ev_id ev), rc_pointId = ev_pointId ev, rc_level = level_int (ev_level ev), rc_status = 0,
      rc_triggerTime = ev_triggerTime ev, rc_recoverTime = 0, rc_confirmUser = [], rc_confirmTime = 0,
      rc_alarmValue = ev_alarmValue ev, rc_threshold = ev_threshold ev, rc_description = ev_description ev,
      rc_blackboxId = ev_blackboxId ev\<rparr>"

text \<open>The engine is a pointer; \<open>None\<close> is the null pointer of the access layer.\<close>

definition store_new :: "bool \<Rightarrow> SqlState option \<Rightarrow> AlarmRecordStore" where
  "store_new engine dal =
     \<lparr>as_enabled = (engine \<and> (case dal of None \<Rightarrow> False | Some d \<Rightarrow> sq_root d \<noteq> [])),
      as_triggerByAlarmId = Map.empty, as_dropped = 0\<rparr>"

definition count_failure :: "bool \<Rightarrow> AlarmRecordStore \<Rightarrow> AlarmRecordStore" where
  "count_failure r st = (if r then st else st\<lparr>as_dropped := as_dropped st + 1\<rparr>)"

definition onAlarmTriggered ::
  "Calendar \<Rightarrow> SqlAnswer \<Rightarrow> AlarmEvent \<Rightarrow> AlarmRecordStore \<times> SqlState \<Rightarrow> AlarmRecordStore \<times> SqlState" where
  "onAlarmTriggered cal ok ev sd =
     (case sd of (st, d) \<Rightarrow>
       if \<not> as_enabled st then (st, d)
       else let st1 = st\<lparr>as_triggerByAlarmId := (as_triggerByAlarmId st)(of_nat (ev_id ev) \<mapsto> ev_triggerTime ev)\<rparr>
            in case insertAlarmRecords cal ok [toActiveRecord ev] d of (r, d1) \<Rightarrow> (count_failure r st1, d1))"

definition onAlarmRecovered ::
  "Calendar \<Rightarrow> SqlAnswer \<Rightarrow> u64 \<Rightarrow> u64 \<Rightarrow> AlarmRecordStore \<times> SqlState \<Rightarrow> AlarmRecordStore \<times> SqlState" where
  "onAlarmRecovered cal ok alarmId nowMs sd =
     (case sd of (st, d) \<Rightarrow>
       if \<not> as_enabled st then (st, d)
       else case as_triggerByAlarmId st alarmId of
              None \<Rightarrow> (st, d)
            | Some triggerTime \<Rightarrow>
                let st1 = st\<lparr>as_triggerByAlarmId := (as_triggerByAlarmId st)(alarmId := None)\<rparr>
                in case setAlarmRecovered cal ok triggerTime alarmId nowMs d of
                     (r, d1) \<Rightarrow> (count_failure r st1, d1))"

definition onAlarmAcknowledged ::
  "Calendar \<Rightarrow> SqlAnswer \<Rightarrow> u64 \<Rightarrow> string \<Rightarrow> u64 \<Rightarrow> AlarmRecordStore \<times> SqlState \<Rightarrow> AlarmRecordStore \<times> SqlState" where
  "onAlarmAcknowledged cal ok alarmId user nowMs sd =
     (case sd of (st, d) \<Rightarrow>
       if \<not> as_enabled st then (st, d)
       else case as_triggerByAlarmId st alarmId of
              None \<Rightarrow> (st, d)
            | Some triggerTime \<Rightarrow>
                (case setAlarmConfirmed cal ok triggerTime alarmId user nowMs d of
                   (r, d1) \<Rightarrow> (count_failure r st, d1)))"

definition onStormBatch ::
  "Calendar \<Rightarrow> SqlAnswer \<Rightarrow> AlarmEvent list \<Rightarrow> AlarmRecordStore \<times> SqlState \<Rightarrow> AlarmRecordStore \<times> SqlState" where
  "onStormBatch cal ok evs sd =
     (case sd of (st, d) \<Rightarrow>
       if \<not> as_enabled st \<or> evs = [] then (st, d)
       else let st1 = st\<lparr>as_triggerByAlarmId :=
                   fold (\<lambda>ev m. m(of_nat (ev_id ev) \<mapsto> ev_triggerTime ev)) evs (as_triggerByAlarmId st)\<rparr>
            in case insertAlarmRecords cal ok (map toActiveRecord evs) d of
                 (r, d1) \<Rightarrow> (count_failure r st1, d1))"

text \<open>The connected slots.\<close>

fun store_signal ::
  "Calendar \<Rightarrow> SqlAnswer \<Rightarrow> AlarmSignal \<times> u64 \<Rightarrow> AlarmRecordStore \<times> SqlState \<Rightarrow> AlarmRecordStore \<times> SqlState" where
  "store_signal cal ok (alarmTriggered ev, now) sd = onAlarmTriggered cal ok ev sd"
| "store_signal cal ok (alarmRecovered i, now) sd = onAlarmRecovered cal ok (of_nat i) now sd"
| "store_signal cal ok (alarmAcknowledged i user, now) sd = onAlarmAcknowledged cal ok (of_nat i) user now sd"
| "store_signal cal ok (alarmStormTriggered n lost evs, now) sd = onStormBatch cal ok evs sd"
| "store_signal cal ok (blackBoxRequested pid t level, now) sd = sd"
| "store_signal cal ok (alarmStormCleared, now) sd = sd"

definition store_signals ::
  "Calendar \<Rightarrow> SqlAnswer \<Rightarrow> (AlarmSignal \<times> u64) list \<Rightarrow> AlarmRecordStore \<times> SqlState \<Rightarrow> AlarmRecordStore \<times> SqlState" where
  "store_signals cal ok sigs sd = fold (store_signal cal ok) sigs sd"

section \<open>The recs of alarms\<close>

text \<open>What the files should hold: one record for each alarm, closed by its first recovery, acknowledged by the
  first acknowledgement of an active one.\<close>

definition recover_record :: "u64 \<Rightarrow> u64 \<Rightarrow> AlarmRecord \<Rightarrow> AlarmRecord" where
  "recover_record i now r =
     (if rc_id r = i \<and> rc_status r \<noteq> 2 then r\<lparr>rc_status := 2, rc_recoverTime := now\<rparr> else r)"

definition confirm_record :: "u64 \<Rightarrow> string \<Rightarrow> u64 \<Rightarrow> AlarmRecord \<Rightarrow> AlarmRecord" where
  "confirm_record i user now r =
     (if rc_id r = i \<and> rc_status r = 0 then r\<lparr>rc_status := 1, rc_confirmUser := user, rc_confirmTime := now\<rparr> else r)"

fun log_signal :: "AlarmSignal \<times> u64 \<Rightarrow> AlarmRecord list \<Rightarrow> AlarmRecord list" where
  "log_signal (alarmTriggered ev, now) recs = recs @ [toActiveRecord ev]"
| "log_signal (alarmRecovered i, now) recs = map (recover_record (of_nat i) now) recs"
| "log_signal (alarmAcknowledged i user, now) recs = map (confirm_record (of_nat i) user now) recs"
| "log_signal (_, now) recs = recs"

definition alarm_log :: "(AlarmSignal \<times> u64) list \<Rightarrow> AlarmRecord list" where
  "alarm_log sigs = fold log_signal sigs []"

section \<open>The files hold the log\<close>

definition filed_in :: "Calendar \<Rightarrow> string \<Rightarrow> string \<Rightarrow> string \<Rightarrow> AlarmRecord \<Rightarrow> bool" where
  "filed_in cal dir path table r \<longleftrightarrow>
     getAlarmDatabasePath cal dir (rc_triggerTime r) = path \<and> alarmTableNameOf cal (rc_triggerTime r) = table"

definition good_time :: "Calendar \<Rightarrow> u64 \<Rightarrow> bool" where
  "good_time cal t \<longleftrightarrow> t \<le> kMaxSaneTs \<and> 0 < cal_first cal (uint t)"

definition alarm_holds :: "Calendar \<Rightarrow> SqlState \<Rightarrow> AlarmRecord list \<Rightarrow> bool" where
  "alarm_holds cal s recs \<longleftrightarrow>
     (\<forall>path table. rows_at (sq_alarm s) path table = filter (filed_in cal (sq_root s) path table) recs) \<and>
     (\<forall>p. sq_conns s p \<noteq> Some False) \<and> (\<forall>r \<in> set recs. good_time cal (rc_triggerTime r)) \<and>
     distinct (map rc_id recs)"

lemma alarm_holdsD:
  assumes "alarm_holds cal s recs"
  shows "rows_at (sq_alarm s) path table = filter (filed_in cal (sq_root s) path table) recs"
    and "sq_conns s p \<noteq> Some False" and "r \<in> set recs \<Longrightarrow> good_time cal (rc_triggerTime r)"
    and "distinct (map rc_id recs)"
  using assms unfolding alarm_holds_def by blast+

text \<open>What opening and querying keep.\<close>

definition alarm_same :: "SqlState \<Rightarrow> SqlState \<Rightarrow> bool" where
  "alarm_same s s' \<longleftrightarrow> sq_root s' = sq_root s \<and> rows_at (sq_alarm s') = rows_at (sq_alarm s) \<and>
     ((\<forall>p. sq_conns s p \<noteq> Some False) \<longrightarrow> (\<forall>p. sq_conns s' p \<noteq> Some False))"

lemma alarm_same_refl [simp]: "alarm_same s s"
  by (simp add: alarm_same_def)

lemma alarm_same_trans: "alarm_same s s1 \<Longrightarrow> alarm_same s1 s2 \<Longrightarrow> alarm_same s s2"
  by (auto simp: alarm_same_def)

lemma alarm_holds_same: "alarm_holds cal s recs \<Longrightarrow> alarm_same s s' \<Longrightarrow> alarm_holds cal s' recs"
  by (simp add: alarm_holds_def alarm_same_def)

lemma create_alarm_keeps: "create_alarm cal ok p s = (r, s') \<Longrightarrow> alarm_same s s' \<and> sq_conns s' = sq_conns s"
  by (auto simp: create_alarm_def Let_def alarm_same_def split: if_splits)

lemma openAlarmMonth_keeps:
  assumes "openAlarmMonth cal ok ts s = (r, s')"
  shows "alarm_same s s'" and "r \<Longrightarrow> sq_conns s' (getAlarmDatabasePath cal (sq_root s) ts) \<noteq> None"
proof -
  let ?p = "getAlarmDatabasePath cal (sq_root s) ts"
  define s1 where "s1 = s\<lparr>sq_nextConnIdx := sq_nextConnIdx s + 1, sq_conns := (sq_conns s)(?p \<mapsto> True),
    sq_alarm := make_file ?p (sq_alarm s)\<rparr>"
  have s1: "alarm_same s s1" by (auto simp: s1_def alarm_same_def)
  obtain r2 s2 where c: "create_alarm cal ok ?p s1 = (r2, s2)" by (cases "create_alarm cal ok ?p s1")
  from create_alarm_keeps [OF this] have s2: "alarm_same s s2" "sq_conns s2 = sq_conns s1"
    using alarm_same_trans [OF s1] by blast+
  then have "alarm_same s (s2\<lparr>sq_conns := (sq_conns s2)(?p := None)\<rparr>)" by (auto simp: alarm_same_def)
  with s2 c assms show "alarm_same s s'"
    by (auto simp: openAlarmMonth_def Let_def alarm_same_def s1_def split: if_splits bool.splits prod.splits)
  show "r \<Longrightarrow> sq_conns s' ?p \<noteq> None"
    using s2 c assms by (auto simp: openAlarmMonth_def Let_def s1_def split: if_splits bool.splits prod.splits)
qed

lemma alarm_month_of_path:
  assumes "calendar_laws cal" and "sane_time (sint ts)"
  shows "alarmMonthFromDbPath cal (getAlarmDatabasePath cal dir ts) = word_of_int (cal_first cal (sint ts))"
proof -
  let ?m = "cal_month cal (sint ts)"
  have path: "getAlarmDatabasePath cal dir ts = (dir @ ''/alarm/'' @ ?m) @ ''/'' @ ''alarm_'' @ ?m @ ''.db''"
    by (simp add: getAlarmDatabasePath_def Let_def)
  have "CHR ''/'' \<notin> set (''alarm_'' @ ?m @ ''.db'')" using calendarD(3) [OF assms] by simp
  then have "file_name (getAlarmDatabasePath cal dir ts) = ''alarm_'' @ ?m @ ''.db''"
    unfolding path by (rule file_name_last)
  with calendarD(2,4) [OF assms] show ?thesis
    by (simp add: alarmMonthFromDbPath_def month_start_def Let_def)
qed

text \<open>A good time, its month and its table.\<close>

lemma good_timeD:
  assumes "calendar_laws cal" and "good_time cal ts"
  shows "sane_time (uint ts)" and "sint ts = uint ts" and "ts \<noteq> 0" and "ts \<le> kMaxSaneTs"
    and "alarmMonthFromDbPath cal (getAlarmDatabasePath cal dir ts) \<noteq> 0"
    and "alarmTableNameOf cal ts \<noteq> []"
    and "alarmTableNameOf cal (alarmMonthFromDbPath cal (getAlarmDatabasePath cal dir ts)) = alarmTableNameOf cal ts"
proof -
  let ?start = "cal_first cal (uint ts)"
  show le: "ts \<le> kMaxSaneTs" using assms(2) by (simp add: good_time_def)
  show sane: "sane_time (uint ts)" and st: "sint ts = uint ts" using sane_word [OF le] by auto
  have pos: "0 < ?start" using assms(2) by (simp add: good_time_def)
  with calendarD(6) [OF assms(1) sane] have up: "0 < uint ts" by linarith
  then show nz: "ts \<noteq> 0" by auto
  have sst: "sane_time ?start" using calendarD(6) [OF assms(1) sane] sane pos by (simp add: sane_time_def)
  have w: "alarmMonthFromDbPath cal (getAlarmDatabasePath cal dir ts) = word_of_int ?start"
    using alarm_month_of_path [OF assms(1), of ts dir] sane by (simp add: st)
  have u: "uint (word_of_int ?start :: u64) = ?start" by (rule word_of_sane [OF sst])
  have wle: "(word_of_int ?start :: u64) \<le> kMaxSaneTs" using sst by (simp add: word_le_def u sane_time_def)
  have wnz: "(word_of_int ?start :: u64) \<noteq> 0" using u pos by auto
  with w show "alarmMonthFromDbPath cal (getAlarmDatabasePath cal dir ts) \<noteq> 0" by simp
  show "alarmTableNameOf cal ts \<noteq> []"
    using le nz st calendarD(1) [OF assms(1) sane] by (simp add: alarmTableNameOf_def not_less)
  have "sint (word_of_int ?start :: u64) = ?start" using sane_word [OF wle] u by simp
  then show "alarmTableNameOf cal (alarmMonthFromDbPath cal (getAlarmDatabasePath cal dir ts)) = alarmTableNameOf cal ts"
    using le nz st wle wnz calendarD(1,9) [OF assms(1) sane] calendarD(1) [OF assms(1) sst]
    by (simp add: w alarmTableNameOf_def not_less)
qed

lemma openAlarmMonth_ok:
  assumes "calendar_laws cal" and "\<forall>op p. ok op p" and "good_time cal ts" and "\<forall>p. sq_conns s p \<noteq> Some False"
  shows "\<exists>s1. openAlarmMonth cal ok ts s = (True, s1) \<and> alarm_same s s1 \<and>
    sq_conns s1 (getAlarmDatabasePath cal (sq_root s) ts) = Some True"
proof -
  note good = good_timeD [OF assms(1,3)]
  obtain r s1 where o: "openAlarmMonth cal ok ts s = (r, s1)" by (cases "openAlarmMonth cal ok ts s")
  then have r using good assms(2)
    by (auto simp: openAlarmMonth_def Let_def create_alarm_def not_less split: if_splits prod.splits bool.splits)
  with openAlarmMonth_keeps [OF o] assms(4)
  have "sq_conns s1 (getAlarmDatabasePath cal (sq_root s) ts) = Some True" and "alarm_same s s1"
    by (auto simp: alarm_same_def) (metis (full_types))
  with o \<open>r\<close> show ?thesis by simp
qed

lemma opened_ok:
  assumes "calendar_laws cal" and "\<forall>op p. ok op p" and "good_time cal ts" and "\<forall>p. sq_conns s p \<noteq> Some False"
  shows "\<exists>s1. (if sq_conns s (getAlarmDatabasePath cal (sq_root s) ts) \<noteq> None then (True, s)
      else openAlarmMonth cal ok ts s) = (True, s1) \<and> alarm_same s s1 \<and>
    sq_conns s1 (getAlarmDatabasePath cal (sq_root s) ts) = Some True"
proof (cases "sq_conns s (getAlarmDatabasePath cal (sq_root s) ts)")
  case None
  then show ?thesis using openAlarmMonth_ok [OF assms] by simp
next
  case (Some c)
  with assms(4) have c by (cases c) auto
  with Some show ?thesis by auto
qed

lemma insert_record_holds:
  assumes laws: "calendar_laws cal" and ok: "\<forall>op p. ok op p" and holds: "alarm_holds cal s recs"
    and good: "good_time cal (rc_triggerTime r)" and fresh: "rc_id r \<notin> set (map rc_id recs)"
    and vals: "rc_alarmValue r \<noteq> NaN" "rc_threshold r \<noteq> NaN" "0 \<le> rc_level r" "rc_level r \<le> 2"
      "0 \<le> rc_status r" "rc_status r \<le> 2"
  shows "\<exists>s'. insertAlarmRecords cal ok [r] s = (True, s') \<and> alarm_holds cal s' (recs @ [r]) \<and> sq_root s' = sq_root s"
proof -
  let ?ts = "rc_triggerTime r"
  let ?p = "getAlarmDatabasePath cal (sq_root s) ?ts" and ?t = "alarmTableNameOf cal ?ts"
  note times = good_timeD [OF laws good]
  obtain s1 where s1: "(if sq_conns s ?p \<noteq> None then (True, s) else openAlarmMonth cal ok ?ts s) = (True, s1)"
    "alarm_same s s1" "sq_conns s1 ?p = Some True"
    using opened_ok [OF laws ok good] alarm_holdsD(2) [OF holds] by blast
  have holds1: "alarm_holds cal s1 recs" by (rule alarm_holds_same [OF holds s1(2)])
  have eq: "sq_root s1 = sq_root s" using s1(2) by (simp add: alarm_same_def)
  define s2 where "s2 = s1\<lparr>sq_alarm := make_table ?p ?t (sq_alarm s1)\<rparr>"
  define rows where "rows = rows_at (sq_alarm s1) ?p ?t"
  have schema: "ensureAlarmSchema cal ok ?p s1 = (True, s2)"
    using times s1(3) ok by (simp add: ensureAlarmSchema_def create_alarm_def Let_def s2_def)
  have rows: "table_rows (sq_alarm s2) ?p ?t = Some rows"
    by (simp add: s2_def table_rows_make rows_def)
  have "rc_id r \<notin> set (map rc_id rows)"
    using fresh by (auto simp: rows_def alarm_holdsD(1) [OF holds1])
  then have ins: "insert_record r rows = Some (rows @ [r])" using vals by (simp add: insert_record_def)
  define s' where "s' = s2\<lparr>sq_alarm := put_rows ?p ?t (rows @ [r]) (sq_alarm s2)\<rparr>"
  have "insertAlarmRecords cal ok [r] s = (True, s')"
    unfolding insertAlarmRecords_def Let_def list.sel s1(1) prod.case
    using times ok by (simp add: schema rows ins s'_def not_less)
  moreover have "alarm_holds cal s' (recs @ [r])"
    unfolding alarm_holds_def
    using alarm_holdsD [OF holds1] good fresh eq
    by (auto simp: s'_def s2_def rows_def filed_in_def)
  ultimately show ?thesis by (simp add: s'_def s2_def eq)
qed

lemma update_filed:
  assumes laws: "calendar_laws cal" and ok: "\<forall>op p. ok op p" and holds: "alarm_holds cal s recs"
    and mem: "r0 \<in> set recs" and good: "good_time cal t"
    and there: "filed_in cal (sq_root s) (getAlarmDatabasePath cal (sq_root s) t) (alarmTableNameOf cal t) r0" and sel: "\<And>r. P r \<Longrightarrow> rc_id r = rc_id r0"
    and f: "\<And>r. rc_id (f r) = rc_id r" "\<And>r. rc_triggerTime (f r) = rc_triggerTime r"
  shows "\<exists>s'. update_alarm cal ok t P f s = (True, s') \<and>
    alarm_holds cal s' (map (\<lambda>r. if P r then f r else r) recs) \<and> sq_root s' = sq_root s"
proof -
  let ?ts = t and ?f = "\<lambda>r. if P r then f r else r"
  let ?p = "getAlarmDatabasePath cal (sq_root s) ?ts" and ?t = "alarmTableNameOf cal ?ts"
  note times = good_timeD [OF laws good]
  obtain s1 where s1: "(if sq_conns s ?p \<noteq> None then (True, s) else openAlarmMonth cal ok ?ts s) = (True, s1)"
    "alarm_same s s1" "sq_conns s1 ?p = Some True"
    using opened_ok [OF laws ok good] alarm_holdsD(2) [OF holds] by blast
  have holds1: "alarm_holds cal s1 recs" by (rule alarm_holds_same [OF holds s1(2)])
  have eq: "sq_root s1 = sq_root s" using s1(2) by (simp add: alarm_same_def)
  define rows where "rows = rows_at (sq_alarm s1) ?p ?t"
  have "r0 \<in> set rows" using mem there by (simp add: rows_def alarm_holdsD(1) [OF holds1] eq)
  then have rows: "table_rows (sq_alarm s1) ?p ?t = Some rows"
    by (cases "table_rows (sq_alarm s1) ?p ?t") (simp_all add: rows_def rows_at_def)
  define s' where "s' = s1\<lparr>sq_alarm := put_rows ?p ?t (map ?f rows) (sq_alarm s1)\<rparr>"
  have "update_alarm cal ok ?ts P f s = (True, s')"
    unfolding update_alarm_def Let_def s1(1) prod.case
    using times ok s1(3) by (simp add: rows s'_def not_less)
  moreover have "alarm_holds cal s' (map ?f recs)"
  proof -
    have ids: "rc_id (?f r) = rc_id r" "rc_triggerTime (?f r) = rc_triggerTime r" for r by (simp_all add: f)
    have filed: "filed_in cal dir path table (?f r) = filed_in cal dir path table r" for dir path table r
      by (simp add: filed_in_def f)
    have untouched: "?f r = r" if "r \<in> set recs" and "\<not> filed_in cal (sq_root s) ?p ?t r" for r
    proof -
      have "r = r0" if "rc_id r = rc_id r0" using alarm_holdsD(4) [OF holds] that \<open>r \<in> set recs\<close> mem
        by (auto simp: distinct_map inj_on_def)
      with that(2) there sel [of r] show ?thesis by auto
    qed
    have "filter (filed_in cal (sq_root s) path table) (map ?f recs) =
        (if path = ?p \<and> table = ?t then map ?f rows else filter (filed_in cal (sq_root s) path table) recs)" for path table
    proof -
      have "filter (filed_in cal (sq_root s) path table) (map ?f recs) =
          map ?f (filter (filed_in cal (sq_root s) path table) recs)"
        by (simp only: filter_map comp_def filed)
      also have "\<dots> = (if path = ?p \<and> table = ?t then map ?f rows else filter (filed_in cal (sq_root s) path table) recs)"
      proof (cases "path = ?p \<and> table = ?t")
        case True
        then show ?thesis by (simp add: rows_def alarm_holdsD(1) [OF holds1] eq)
      next
        case False
        then show ?thesis unfolding if_not_P [OF False]
          by (intro map_idI untouched) (auto simp: filed_in_def)
      qed
      finally show ?thesis .
    qed
    moreover have "map rc_id (map ?f recs) = map rc_id recs" by (simp add: ids)
    ultimately show ?thesis
      unfolding alarm_holds_def using alarm_holdsD [OF holds1] eq ids
      by (auto simp: s'_def comp_def f)
  qed
  ultimately show ?thesis by (simp add: s'_def eq)
qed

lemma update_alarm_holds:
  assumes laws: "calendar_laws cal" and ok: "\<forall>op p. ok op p" and holds: "alarm_holds cal s recs"
    and mem: "r0 \<in> set recs" and sel: "\<And>r. P r \<Longrightarrow> rc_id r = rc_id r0"
    and f: "\<And>r. rc_id (f r) = rc_id r" "\<And>r. rc_triggerTime (f r) = rc_triggerTime r"
  shows "\<exists>s'. update_alarm cal ok (rc_triggerTime r0) P f s = (True, s') \<and>
    alarm_holds cal s' (map (\<lambda>r. if P r then f r else r) recs) \<and> sq_root s' = sq_root s"
  by (rule update_filed [OF laws ok holds mem alarm_holdsD(3) [OF holds mem] _ sel f]) (simp add: filed_in_def)

section \<open>The store follows the signals\<close>

definition store_ok :: "(u64 \<rightharpoonup> u64) \<Rightarrow> AlarmRecord list \<Rightarrow> bool" where
  "store_ok m recs \<longleftrightarrow>
     (\<forall>i t. m i = Some t \<longrightarrow> (\<exists>r \<in> set recs. rc_id r = i \<and> rc_triggerTime r = t)) \<and>
     (\<forall>r \<in> set recs. m (rc_id r) = None \<longleftrightarrow> rc_status r = 2)"

definition follows :: "Calendar \<Rightarrow> string \<Rightarrow> AlarmRecordStore \<times> SqlState \<Rightarrow> AlarmRecord list \<Rightarrow> bool" where
  "follows cal dir sd recs \<longleftrightarrow> as_enabled (fst sd) \<and> as_dropped (fst sd) = 0 \<and> sq_root (snd sd) = dir \<and>
     alarm_holds cal (snd sd) recs \<and> store_ok (as_triggerByAlarmId (fst sd)) recs"

definition plain_signal :: "Calendar \<Rightarrow> AlarmSignal \<Rightarrow> bool" where
  "plain_signal cal sig \<longleftrightarrow>
     (case sig of
        alarmTriggered ev \<Rightarrow> good_time cal (ev_triggerTime ev) \<and> ev_alarmValue ev \<noteq> NaN \<and> ev_threshold ev \<noteq> NaN
      | alarmStormTriggered n lost evs \<Rightarrow> False
      | _ \<Rightarrow> True)"

lemma record_fields [simp]:
  "rc_id (recover_record i now r) = rc_id r" "rc_triggerTime (recover_record i now r) = rc_triggerTime r"
  "rc_id (confirm_record i user now r) = rc_id r" "rc_triggerTime (confirm_record i user now r) = rc_triggerTime r"
  by (simp_all add: recover_record_def confirm_record_def)

lemma level_int_range: "0 \<le> level_int l" "level_int l \<le> 2"
  by (cases l; simp)+

lemma triggered_follows:
  assumes "calendar_laws cal" and "\<forall>op p. ok op p" and "follows cal dir (st, d) recs"
    and "plain_signal cal (alarmTriggered ev)" and "of_nat (ev_id ev) \<notin> set (map rc_id recs)"
  shows "follows cal dir (onAlarmTriggered cal ok ev (st, d)) (recs @ [toActiveRecord ev])"
proof -
  let ?r = "toActiveRecord ev" and ?m = "(as_triggerByAlarmId st)(of_nat (ev_id ev) \<mapsto> ev_triggerTime ev)"
  have "\<exists>d'. insertAlarmRecords cal ok [?r] d = (True, d') \<and> alarm_holds cal d' (recs @ [?r]) \<and> sq_root d' = sq_root d"
    using assms by (intro insert_record_holds)
      (auto simp: toActiveRecord_def plain_signal_def follows_def level_int_range)
  then obtain d' where d': "insertAlarmRecords cal ok [?r] d = (True, d')" "alarm_holds cal d' (recs @ [?r])"
    "sq_root d' = sq_root d" by blast
  have r: "rc_id ?r = of_nat (ev_id ev)" "rc_status ?r = 0" "rc_triggerTime ?r = ev_triggerTime ev"
    by (simp_all add: toActiveRecord_def)
  have old: "rc_id r \<noteq> of_nat (ev_id ev)" if "r \<in> set recs" for r
    using assms(5) that by (metis image_eqI list.set_map)
  have "store_ok (as_triggerByAlarmId st) recs" using assms(3) by (simp add: follows_def)
  then have "store_ok ?m (recs @ [?r])"
    using r old by (fastforce simp: store_ok_def)
  with d' assms(3) show ?thesis
    by (simp add: onAlarmTriggered_def follows_def count_failure_def)
qed

lemma store_ok_map:
  assumes "store_ok m recs" and "\<And>r. rc_id (g r) = rc_id r" "\<And>r. rc_triggerTime (g r) = rc_triggerTime r"
    and "\<And>i t. m' i = Some t \<Longrightarrow> m i = Some t"
    and "\<And>r. r \<in> set recs \<Longrightarrow> m' (rc_id r) = None \<longleftrightarrow> rc_status (g r) = 2"
  shows "store_ok m' (map g recs)"
proof -
  have "\<exists>r \<in> set (map g recs). rc_id r = i \<and> rc_triggerTime r = t" if m: "m' i = Some t" for i t
  proof -
    obtain r where "r \<in> set recs" "rc_id r = i" "rc_triggerTime r = t"
      using assms(1) assms(4) [OF m] unfolding store_ok_def by blast
    then show ?thesis using assms(2,3) by (intro bexI [of _ "g r"]) auto
  qed
  with assms(2,5) show ?thesis by (simp add: store_ok_def)
qed

lemma recovered_follows:
  assumes "calendar_laws cal" and "\<forall>op p. ok op p" and fol: "follows cal dir (st, d) recs"
  shows "follows cal dir (onAlarmRecovered cal ok i now (st, d)) (map (recover_record i now) recs)"
proof (cases "as_triggerByAlarmId st i")
  case None
  with fol have "map (recover_record i now) recs = recs"
    by (intro map_idI) (auto simp: follows_def store_ok_def recover_record_def)
  with fol None show ?thesis by (simp add: onAlarmRecovered_def)
next
  case (Some t)
  with fol obtain r0 where r0: "r0 \<in> set recs" "rc_id r0 = i" "rc_triggerTime r0 = t"
    by (auto simp: follows_def store_ok_def)
  let ?f = "\<lambda>r. r\<lparr>rc_status := 2, rc_recoverTime := now\<rparr>"
  have "\<exists>d'. update_alarm cal ok t (\<lambda>r. rc_id r = i) ?f d = (True, d') \<and>
      alarm_holds cal d' (map (\<lambda>r. if rc_id r = i then ?f r else r) recs) \<and> sq_root d' = sq_root d"
    using fol r0 update_alarm_holds [OF assms(1,2), of d recs r0 "\<lambda>r. rc_id r = i" ?f] by (simp add: follows_def)
  moreover have "map (\<lambda>r. if rc_id r = i then ?f r else r) recs = map (recover_record i now) recs"
    using fol Some by (auto simp: recover_record_def follows_def store_ok_def)
  moreover have "store_ok ((as_triggerByAlarmId st)(i := None)) (map (recover_record i now) recs)"
    by (rule store_ok_map [of "as_triggerByAlarmId st"])
      (use fol in \<open>auto simp: follows_def store_ok_def recover_record_def split: if_splits\<close>)
  ultimately show ?thesis
    using fol Some by (auto simp: onAlarmRecovered_def setAlarmRecovered_def follows_def count_failure_def)
qed

lemma confirmed_follows:
  assumes "calendar_laws cal" and "\<forall>op p. ok op p" and fol: "follows cal dir (st, d) recs"
  shows "follows cal dir (onAlarmAcknowledged cal ok i user now (st, d)) (map (confirm_record i user now) recs)"
proof (cases "as_triggerByAlarmId st i")
  case None
  with fol have "map (confirm_record i user now) recs = recs"
    by (intro map_idI) (auto simp: follows_def store_ok_def confirm_record_def)
  with fol None show ?thesis by (simp add: onAlarmAcknowledged_def)
next
  case (Some t)
  with fol obtain r0 where r0: "r0 \<in> set recs" "rc_id r0 = i" "rc_triggerTime r0 = t"
    by (auto simp: follows_def store_ok_def)
  let ?f = "\<lambda>r. r\<lparr>rc_status := 1, rc_confirmUser := user, rc_confirmTime := now\<rparr>"
  have "\<exists>d'. update_alarm cal ok t (\<lambda>r. rc_id r = i \<and> rc_status r = 0) ?f d = (True, d') \<and>
      alarm_holds cal d' (map (\<lambda>r. if rc_id r = i \<and> rc_status r = 0 then ?f r else r) recs) \<and> sq_root d' = sq_root d"
    using fol r0 update_alarm_holds [OF assms(1,2), of d recs r0 "\<lambda>r. rc_id r = i \<and> rc_status r = 0" ?f]
    by (simp add: follows_def)
  moreover have "(\<lambda>r. if rc_id r = i \<and> rc_status r = 0 then ?f r else r) = confirm_record i user now"
    by (simp add: fun_eq_iff confirm_record_def)
  moreover have "store_ok (as_triggerByAlarmId st) (map (confirm_record i user now) recs)"
    by (rule store_ok_map [of "as_triggerByAlarmId st"])
      (use fol in \<open>auto simp: follows_def store_ok_def confirm_record_def\<close>)
  ultimately show ?thesis
    using fol Some
    by (auto simp: onAlarmAcknowledged_def setAlarmConfirmed_def follows_def count_failure_def)
qed

lemma signal_follows:
  assumes "calendar_laws cal" and "\<forall>op p. ok op p" and "follows cal dir sd recs" and "plain_signal cal sig"
    and "\<And>ev. sig = alarmTriggered ev \<Longrightarrow> of_nat (ev_id ev) \<notin> set (map rc_id recs)"
  shows "follows cal dir (store_signal cal ok (sig, now) sd) (log_signal (sig, now) recs)"
proof -
  obtain st d where sd: "sd = (st, d)" by (cases sd)
  show ?thesis
  proof (cases sig)
    case (alarmTriggered ev)
    then show ?thesis using triggered_follows [of cal ok dir st d recs ev] assms by (simp add: sd)
  next
    case (alarmRecovered i)
    then show ?thesis using recovered_follows [OF assms(1,2)] assms(3) by (simp add: sd)
  next
    case (alarmAcknowledged i user)
    then show ?thesis using confirmed_follows [OF assms(1,2)] assms(3) by (simp add: sd)
  next
    case (alarmStormTriggered n lost evs)
    then show ?thesis using assms(4) by (simp add: plain_signal_def)
  qed (use assms(3) in simp_all)
qed

lemma alarm_log_snoc: "alarm_log (sigs @ [x]) = log_signal x (alarm_log sigs)"
  by (simp add: alarm_log_def)

lemma alarm_log_ids: "map rc_id (alarm_log sigs) = map of_nat (triggered_ids (map fst sigs))"
proof (induction sigs rule: rev_induct)
  case (snoc x sigs)
  then show ?case
    by (cases x; cases "fst x") (simp_all add: alarm_log_snoc comp_def toActiveRecord_def)
qed (simp add: alarm_log_def)

lemma signals_follow:
  assumes "calendar_laws cal" and "\<forall>op p. ok op p" and "dir \<noteq> []"
    and "\<forall>sig \<in> set (map fst sigs). plain_signal cal sig"
    and "distinct (map (of_nat :: nat \<Rightarrow> u64) (triggered_ids (map fst sigs)))"
  shows "follows cal dir (store_signals cal ok sigs
    (store_new True (Some (dal_new dir Map.empty Map.empty)), dal_new dir Map.empty Map.empty)) (alarm_log sigs)"
  using assms(4,5)
proof (induction sigs rule: rev_induct)
  case Nil
  then show ?case using assms(3)
    by (simp add: store_signals_def alarm_log_def follows_def store_new_def dal_new_def alarm_holds_def
        rows_at_def table_rows_def store_ok_def)
next
  case (snoc x sigs)
  obtain sig now where x: "x = (sig, now)" by (cases x)
  have "of_nat (ev_id ev) \<notin> set (map rc_id (alarm_log sigs))" if "sig = alarmTriggered ev" for ev
    using snoc.prems(2) that by (auto simp: alarm_log_ids x)
  with signal_follows [OF assms(1,2) snoc.IH, of sig now] snoc.prems show ?case
    by (simp add: x store_signals_def alarm_log_snoc)
qed

section \<open>The signals of the engine\<close>

definition good_call :: "Calendar \<Rightarrow> AlarmCall \<Rightarrow> bool" where
  "good_call cal c \<longleftrightarrow> high_threshold c \<and> (case c of Sample pid v nowMono nowEpoch \<Rightarrow> good_time cal nowEpoch | _ \<Rightarrow> True)"

definition plain :: "Calendar \<Rightarrow> AlarmSignal list \<Rightarrow> bool" where
  "plain cal sigs \<longleftrightarrow> (\<forall>sig \<in> set sigs. plain_signal cal sig)"

lemma plain_list [simp]:
  "plain cal []" "plain cal (sig # sigs) \<longleftrightarrow> plain_signal cal sig \<and> plain cal sigs"
  "plain cal (xs @ ys) \<longleftrightarrow> plain cal xs \<and> plain cal ys"
  by (auto simp: plain_def)

lemma plain_recover: "plain cal (fst (recoverAlarm pid e))"
  by (auto simp: recoverAlarm_def plain_signal_def split: option.split)

lemma on_side_numbers: "inOnSide r v \<Longrightarrow> v \<noteq> NaN \<and> ar_onThreshold r \<noteq> NaN"
  by (cases v; cases "ar_onThreshold r") (auto simp: inOnSide_def split: if_splits)

lemma plain_raise:
  assumes "good_time cal ep" and "inOnSide r v"
  shows "plain cal (fst (raiseAlarm pid r v n ep e))"
  using assms on_side_numbers [OF assms(2)]
  by (auto simp: raiseAlarm_def Let_def alarm_event_def plain_signal_def)

lemma plain_evaluate: "good_time cal ep \<Longrightarrow> plain cal (fst (evaluate pid v n ep e))"
  by (auto simp: evaluate_def on_side_def off_side_def Let_def plain_raise plain_recover split: option.split)

lemma plain_migrate: "plain cal (fst acc) \<Longrightarrow> plain cal (fst (migrate m pid acc))"
  using plain_recover [of cal pid "snd acc"]
  by (cases acc) (auto simp: migrate_def Let_def split: option.split prod.split)

lemma plain_reload: "plain cal (fst (doReloadRules rules e))"
proof -
  have "plain cal (fst acc) \<Longrightarrow> plain cal (fst (fold (migrate m) ps acc))" for m ps acc
    by (induction ps arbitrary: acc) (simp_all del: split_paired_All add: plain_migrate)
  from this [of "([], e)"] show ?thesis by (simp add: doReloadRules_def Let_def split: prod.split) (metis fst_conv)
qed

lemma plain_acknowledge: "plain cal (fst (acknowledgeAlarms ids user e))"
proof (induction ids arbitrary: e)
  case (Cons i ids)
  show ?case using Cons [of "snd (acknowledgeAlarm i user e)"]
    by (auto simp: acknowledgeAlarm_def plain_signal_def split: prod.split)
qed simp

lemma plain_call: "calm e \<Longrightarrow> good_call cal c \<Longrightarrow> plain cal (fst (alarm_call c e))"
  by (cases c) (auto simp: good_call_def plain_reload plain_evaluate plain_acknowledge onStormFlush_def calm_def)

lemma plain_run: "calm e \<Longrightarrow> \<forall>c \<in> set cs. good_call cal c \<Longrightarrow> plain cal (fst (alarm_run cs e))"
proof (induction cs arbitrary: e)
  case (Cons c cs)
  then have c: "calm (snd (alarm_call c e))" "plain cal (fst (alarm_call c e))"
    by (simp_all add: calm_call plain_call good_call_def)
  with Cons.IH [OF c(1)] Cons.prems(2) show ?case by (auto split: prod.split)
qed simp

lemma triggered_distinct:
  assumes "ae_alarmIdSeq (snd (alarm_run calls alarm_new)) < 2 ^ 64"
  shows "distinct (map (of_nat :: nat \<Rightarrow> u64) (triggered_ids (fst (alarm_run calls alarm_new))))"
proof -
  let ?ids = "triggered_ids (fst (alarm_run calls alarm_new))" and ?n = "ae_alarmIdSeq (snd (alarm_run calls alarm_new))"
  have sub: "mset ?ids \<subseteq># mset [1..<Suc ?n]"
    using alarm_run_books [OF alarm_ok_new, of calls] by (simp add: books_def alarm_new_def del: upt_Suc)
  have "count (mset ?ids) i = (if i \<in> set ?ids then 1 else 0)" for i
  proof -
    have "count (mset ?ids) i \<le> count (mset [1..<Suc ?n]) i" by (rule mset_subset_eq_count [OF sub])
    also have "\<dots> = (if i \<in> set [1..<Suc ?n] then 1 else 0)"
      using distinct_upt [of 1 "Suc ?n"] by (simp only: distinct_count_atmost_1)
    also have "\<dots> \<le> 1" by (simp only: split: if_split) simp
    finally have "count (mset ?ids) i \<le> 1" .
    moreover have "i \<in> set ?ids \<longleftrightarrow> count (mset ?ids) i > 0" by (simp only: count_greater_zero_iff set_mset_mset)
    ultimately show ?thesis by (metis One_nat_def Suc_leI le_antisym not_gr_zero)
  qed
  then have "distinct ?ids" by (simp add: distinct_count_atmost_1)
  moreover have "i < 2 ^ 64" if "i \<in> set ?ids" for i
    using mset_subset_eqD [OF sub, of i] that assms by auto
  then have "unat (of_nat i :: u64) = i" if "i \<in> set ?ids" for i
    using that by (simp add: unat_of_nat take_bit_nat_eq_self)
  then have "inj_on (of_nat :: nat \<Rightarrow> u64) (set ?ids)" by (metis inj_onI)
  ultimately show ?thesis by (simp add: distinct_map)
qed

section \<open>Queries\<close>

definition admits :: "AlarmQueryFilter \<Rightarrow> AlarmRecord \<Rightarrow> bool" where
  "admits f r \<longleftrightarrow> (fq_pointId f \<noteq> 0 \<longrightarrow> rc_pointId r = fq_pointId f) \<and>
     (fq_level f \<ge> 0 \<longrightarrow> rc_level r = fq_level f) \<and> (fq_status f \<ge> 0 \<longrightarrow> rc_status r = fq_status f)"

definition limited :: "AlarmQueryFilter \<Rightarrow> 'a list \<Rightarrow> 'a list" where
  "limited f xs = (if fq_limit f > 0 then take (nat (fq_limit f)) xs else xs)"

text \<open>The records triggered between two instants that the filter admits.\<close>

definition alarm_history :: "AlarmQueryFilter \<Rightarrow> AlarmRecord list \<Rightarrow> int \<Rightarrow> int \<Rightarrow> AlarmRecord list" where
  "alarm_history f recs qb qe =
     filter (\<lambda>r. qb \<le> uint (rc_triggerTime r) \<and> uint (rc_triggerTime r) < qe \<and> admits f r) recs"

text \<open>What a query should answer for the records \<open>hist\<close>: the latest ones first, as many as the limit
  allows, none twice, and nothing that is left out is later than anything in the answer. Which of several
  records of one time are kept, and in which order, is left open.\<close>

definition latest_of :: "AlarmQueryFilter \<Rightarrow> AlarmRecord list \<Rightarrow> AlarmRecord list \<Rightarrow> bool" where
  "latest_of f hist out \<longleftrightarrow>
     sorted_wrt (\<lambda>x y. rc_triggerTime y \<le> rc_triggerTime x) out \<and> mset out \<subseteq># mset hist \<and>
     length out = (if fq_limit f > 0 then min (nat (fq_limit f)) (length hist) else length hist) \<and>
     (\<forall>r \<in># mset hist - mset out. \<forall>x \<in> set out. rc_triggerTime r \<le> rc_triggerTime x)"

text \<open>A collection of records from which that answer can be taken: for every record left out it has as many
  that are no earlier as the limit allows.\<close>

definition enough_of :: "AlarmQueryFilter \<Rightarrow> AlarmRecord list \<Rightarrow> AlarmRecord list \<Rightarrow> bool" where
  "enough_of f hist out \<longleftrightarrow> mset out \<subseteq># mset hist \<and>
     (\<forall>r \<in># mset hist - mset out. 0 < fq_limit f \<and>
        nat (fq_limit f) \<le> length (filter (\<lambda>x. rc_triggerTime r \<le> rc_triggerTime x) out))"

lemma alarm_history_empty: "qe \<le> qb \<Longrightarrow> alarm_history f recs qb qe = []"
  by (auto simp: alarm_history_def filter_empty_conv)

lemma set_alarm_history:
  "r \<in> set (alarm_history f recs qb qe) \<longleftrightarrow>
    r \<in> set recs \<and> qb \<le> uint (rc_triggerTime r) \<and> uint (rc_triggerTime r) < qe \<and> admits f r"
  by (auto simp: alarm_history_def)

lemma mset_split_filter: "mset xs = mset (filter P xs) + mset (filter (\<lambda>x. \<not> P x) xs)"
  by (induction xs) auto

lemma alarm_history_split:
  assumes "qb \<le> c" and "c \<le> qe"
  shows "mset (alarm_history f recs qb c @ alarm_history f recs c qe) = mset (alarm_history f recs qb qe)"
proof -
  let ?xs = "alarm_history f recs qb qe" and ?P = "\<lambda>r. uint (rc_triggerTime r) < c"
  have "filter ?P ?xs = alarm_history f recs qb c" "filter (\<lambda>r. \<not> ?P r) ?xs = alarm_history f recs c qe"
    using assms unfolding alarm_history_def filter_filter by (auto intro!: filter_cong)
  then show ?thesis using mset_split_filter [of ?xs ?P] by simp
qed

lemma enough_of_cong:
  "enough_of f hist out \<Longrightarrow> mset hist = mset hist' \<Longrightarrow> enough_of f hist' out"
  by (simp add: enough_of_def)

lemma mset_diff_add:
  fixes A B C D :: "'a multiset"
  assumes "C \<subseteq># A" and "D \<subseteq># B"
  shows "A + B - (C + D) = (A - C) + (B - D)"
proof -
  from assms obtain A' B' where "A = C + A'" "B = D + B'" by (auto simp: subset_mset.le_iff_add)
  then show ?thesis by (simp add: algebra_simps)
qed

lemma mset_no_diff:
  fixes A C :: "'a multiset"
  assumes "C \<subseteq># A" and "A - C = {#}"
  shows "A = C"
  using assms by (auto simp: subset_mset.le_iff_add)

lemma mset_take_sub: "mset (take n xs) \<subseteq># mset xs"
  by (metis append_take_drop_id mset_append mset_subset_eq_add_left)

lemma enough_of_append:
  assumes "enough_of f h1 o1" and "enough_of f h2 o2"
  shows "enough_of f (h1 @ h2) (o1 @ o2)"
proof -
  have sub: "mset o1 \<subseteq># mset h1" "mset o2 \<subseteq># mset h2" using assms by (simp_all add: enough_of_def)
  show ?thesis
    unfolding enough_of_def mset_append
  proof (intro conjI ballI)
    show "mset o1 + mset o2 \<subseteq># mset h1 + mset h2" by (rule subset_mset.add_mono [OF sub])
    fix r
    assume "r \<in># mset h1 + mset h2 - (mset o1 + mset o2)"
    then consider "r \<in># mset h1 - mset o1" | "r \<in># mset h2 - mset o2"
      unfolding mset_diff_add [OF sub] by auto
    then have "0 < fq_limit f \<and> (nat (fq_limit f) \<le> length (filter (\<lambda>x. rc_triggerTime r \<le> rc_triggerTime x) o1) \<or>
        nat (fq_limit f) \<le> length (filter (\<lambda>x. rc_triggerTime r \<le> rc_triggerTime x) o2))"
      using assms by cases (auto simp: enough_of_def)
    then show "0 < fq_limit f" "nat (fq_limit f) \<le> length (filter (\<lambda>x. rc_triggerTime r \<le> rc_triggerTime x) (o1 @ o2))"
      by auto
  qed
qed

lemma latest_sorted: "sorted_wrt (\<lambda>x y. rc_triggerTime y \<le> rc_triggerTime x) (sort_key (\<lambda>r. - uint (rc_triggerTime r)) xs)"
proof -
  have "sorted (map (\<lambda>r. - uint (rc_triggerTime r)) (sort_key (\<lambda>r. - uint (rc_triggerTime r)) xs))"
    by (rule sorted_sort_key)
  then show ?thesis by (simp add: sorted_map word_le_def)
qed

lemma mset_take_diff: "mset xs - mset (take n xs) = mset (drop n xs)"
  by (metis add_diff_cancel_left' append_take_drop_id mset_append)

lemma take_no_earlier:
  assumes "sorted_wrt (\<lambda>x y. rc_triggerTime y \<le> rc_triggerTime x) xs" and "x \<in> set (take n xs)" and "r \<in> set (drop n xs)"
  shows "rc_triggerTime r \<le> rc_triggerTime x"
  using assms by (metis append_take_drop_id sorted_wrt_append)

lemma enough_of_limited:
  assumes "mset ys = mset hist"
  shows "enough_of f hist (limited f (sort_key (\<lambda>r. - uint (rc_triggerTime r)) ys))"
proof -
  let ?s = "sort_key (\<lambda>r. - uint (rc_triggerTime r)) ys" and ?k = "nat (fq_limit f)"
  have all: "mset hist = mset ?s" using assms by simp
  have "?k \<le> length (filter (\<lambda>x. rc_triggerTime r \<le> rc_triggerTime x) (take ?k ?s))" if r: "r \<in> set (drop ?k ?s)" for r
  proof -
    have "filter (\<lambda>x. rc_triggerTime r \<le> rc_triggerTime x) (take ?k ?s) = take ?k ?s"
      using take_no_earlier [OF latest_sorted _ r] by simp
    moreover have "?k < length ?s" using r by (cases "?k < length ?s") simp_all
    ultimately show ?thesis by simp
  qed
  then show ?thesis
    unfolding enough_of_def all limited_def by (auto simp: mset_take_diff mset_take_sub simp del: mset_sort)
qed

lemma latest_of_limited:
  assumes "enough_of f hist out" and "mset ys = mset out"
  shows "latest_of f hist (limited f (sort_key (\<lambda>r. - uint (rc_triggerTime r)) ys))"
proof -
  define s where "s = sort_key (\<lambda>r. - uint (rc_triggerTime r)) ys"
  let ?k = "nat (fq_limit f)"
  have all: "mset out = mset s" using assms(2) by (simp add: s_def)
  have sorted: "sorted_wrt (\<lambda>x y. rc_triggerTime y \<le> rc_triggerTime x) s" unfolding s_def by (rule latest_sorted)
  have sub: "mset s \<subseteq># mset hist" using assms(1) all by (simp add: enough_of_def)
  have few: "0 < fq_limit f \<and> ?k \<le> length (filter (\<lambda>x. rc_triggerTime r \<le> rc_triggerTime x) s)"
    if "r \<in># mset hist - mset s" for r
    using assms(1) that all by (simp add: enough_of_def) (metis mset_filter size_mset)
  show ?thesis
  proof (cases "0 < fq_limit f")
    case False
    then have "mset hist - mset s = {#}" using few by (metis multiset_nonemptyE)
    with sub have "mset hist = mset s" by (rule mset_no_diff)
    moreover from this have "length hist = length s" by (rule mset_eq_length)
    ultimately show ?thesis using False sorted by (simp add: latest_of_def limited_def s_def [symmetric])
  next
    case True
    have part: "mset s = mset (take ?k s) + mset (drop ?k s)" by (metis append_take_drop_id mset_append)
    then have in_hist: "mset (take ?k s) \<subseteq># mset hist" using sub by (metis mset_subset_eq_add_left subset_mset.order_trans)
    have rest: "mset hist - mset (take ?k s) = (mset hist - mset s) + mset (drop ?k s)"
    proof -
      obtain X where X: "mset hist = mset s + X" using sub by (auto simp: subset_mset.le_iff_add)
      then have "mset hist = mset (take ?k s) + (X + mset (drop ?k s))" unfolding part by (simp only: ac_simps)
      then have "mset hist - mset (take ?k s) = X + mset (drop ?k s)" by simp
      then show ?thesis by (simp add: X)
    qed
    have len: "length (take ?k s) = min ?k (length hist)"
    proof (cases "mset hist - mset s = {#}")
      case eq: True
      with sub have "mset hist = mset s" by (rule mset_no_diff)
      then have "length hist = length s" by (rule mset_eq_length)
      then show ?thesis by (simp add: min.commute)
    next
      case False
      then obtain r where "r \<in># mset hist - mset s" by (metis multiset_nonemptyE)
      then have "?k \<le> length s" using few length_filter_le le_trans by blast
      moreover have "length s \<le> length hist" using size_mset_mono [OF sub] by simp
      ultimately show ?thesis by simp
    qed
    have late: "rc_triggerTime r \<le> rc_triggerTime x" if x: "x \<in> set (take ?k s)" and r: "r \<in># mset hist - mset s" for x r
    proof (rule ccontr)
      assume "\<not> rc_triggerTime r \<le> rc_triggerTime x"
      then have less: "rc_triggerTime x < rc_triggerTime r" by simp
      obtain us vs where split: "take ?k s = us @ x # vs" using split_list [OF x] by blast
      have after: "rc_triggerTime y < rc_triggerTime r" if "y \<in> set (x # vs @ drop ?k s)" for y
      proof -
        have "s = us @ x # vs @ drop ?k s" using split append_take_drop_id [of ?k s] by simp
        with sorted have "sorted_wrt (\<lambda>x y. rc_triggerTime y \<le> rc_triggerTime x) (x # vs @ drop ?k s)"
          by (metis sorted_wrt_append)
        with that have "rc_triggerTime y \<le> rc_triggerTime x" by (auto simp: sorted_wrt_append)
        with less show ?thesis by (rule order.strict_trans1 [rotated])
      qed
      then have "filter (\<lambda>y. rc_triggerTime r \<le> rc_triggerTime y) (x # vs @ drop ?k s) = []"
        by (simp only: filter_empty_conv not_le) blast
      then have "filter (\<lambda>y. rc_triggerTime r \<le> rc_triggerTime y) s = filter (\<lambda>y. rc_triggerTime r \<le> rc_triggerTime y) us"
        using split append_take_drop_id [of ?k s] by (metis append.right_neutral append_Cons append_assoc filter_append)
      then have "?k \<le> length us" using few [OF r] by (auto intro: order.trans [OF _ length_filter_le])
      moreover have "length us < ?k" using arg_cong [OF split, of length] by simp
      ultimately show False by simp
    qed
    show ?thesis
      unfolding latest_of_def limited_def s_def [symmetric]
      using True in_hist len sorted_wrt_take [OF sorted] late take_no_earlier [OF sorted]
      by (auto simp: rest)
  qed
qed

lemma file_of_month:
  assumes laws: "calendar_laws cal" and t: "t \<le> kMaxSaneTs" and x: "x \<le> kMaxSaneTs"
  shows "getAlarmDatabasePath cal dir x = getAlarmDatabasePath cal dir t \<longleftrightarrow>
    cal_first cal (uint t) \<le> uint x \<and> uint x < cal_next cal (cal_first cal (uint t))"
proof -
  have st: "sane_time (uint t)" "sint t = uint t" "sane_time (uint x)" "sint x = uint x" using sane_word t x by auto
  have name: "CHR ''/'' \<notin> set (cal_month cal (uint x))" "CHR ''/'' \<notin> set (cal_month cal (uint t))"
    "length (cal_month cal (uint x)) = 6" "length (cal_month cal (uint t)) = 6"
    using calendarD(2,3) [OF laws] st by auto
  have "getAlarmDatabasePath cal dir x = getAlarmDatabasePath cal dir t \<longleftrightarrow> cal_month cal (uint x) = cal_month cal (uint t)"
    using name by (auto simp: getAlarmDatabasePath_def Let_def st)
  also have "\<dots> \<longleftrightarrow> cal_first cal (uint x) = cal_first cal (uint t)"
    using calendarD(4,9) [OF laws] st by (metis option.inject)
  also have "\<dots> \<longleftrightarrow> cal_first cal (uint t) \<le> uint x \<and> uint x < cal_next cal (cal_first cal (uint t))"
    using calendarD(6,7) [OF laws st(3)] month_instants(2) [OF laws st(1) _ _ st(3)] by auto
  finally show ?thesis .
qed

lemma select_filed:
  assumes holds: "alarm_holds cal s recs" and laws: "calendar_laws cal" and t: "t \<le> kMaxSaneTs"
    and within: "cal_first cal (uint t) \<le> qb" "qe \<le> cal_next cal (cal_first cal (uint t))"
  shows "enough_of f (alarm_history f recs qb qe)
    (select_alarms tie f qb qe (rows_at (sq_alarm s) (getAlarmDatabasePath cal (sq_root s) t) (alarmTableNameOf cal t)))"
proof -
  let ?p = "getAlarmDatabasePath cal (sq_root s) t" and ?t = "alarmTableNameOf cal t"
  have good: "good_time cal (rc_triggerTime r)" "rc_triggerTime r \<le> kMaxSaneTs" "rc_triggerTime r \<noteq> 0"
    "sint (rc_triggerTime r) = uint (rc_triggerTime r)"
    if "r \<in> set recs" for r using good_timeD [OF laws] alarm_holdsD(3) [OF holds that] by blast+
  have st: "sane_time (uint t)" "sint t = uint t" using sane_word [OF t] by auto
  have filed: "filed_in cal (sq_root s) ?p ?t r" if r: "r \<in> set recs" and "qb \<le> uint (rc_triggerTime r)"
      "uint (rc_triggerTime r) < qe" for r
  proof -
    let ?x = "rc_triggerTime r"
    have x: "cal_first cal (uint t) \<le> uint ?x" "uint ?x < cal_next cal (cal_first cal (uint t))" using that(2,3) within by auto
    then have path: "getAlarmDatabasePath cal (sq_root s) ?x = ?p" using file_of_month [OF laws t good(2) [OF r]] by blast
    have sx: "sane_time (uint ?x)" using sane_word good(2) [OF r] by blast
    note month = month_instants [OF laws st(1) x sx]
    have "0 < cal_first cal (uint t)" using good(1) [OF r] month(2) by (simp add: good_time_def)
    with calendarD(6) [OF laws st(1)] have "t \<noteq> 0" by auto
    then have "alarmTableNameOf cal ?x = ?t"
      using month(1) good [OF r] t st calendarD(1) [OF laws st(1)] calendarD(1) [OF laws sx]
      by (simp add: alarmTableNameOf_def not_less)
    with path show ?thesis by (simp add: filed_in_def)
  qed
  have "filter (\<lambda>r. sint (rc_triggerTime r) \<ge> qb \<and> sint (rc_triggerTime r) < qe \<and>
        (fq_pointId f \<noteq> 0 \<longrightarrow> rc_pointId r = fq_pointId f) \<and> (fq_level f \<ge> 0 \<longrightarrow> rc_level r = fq_level f) \<and>
        (fq_status f \<ge> 0 \<longrightarrow> rc_status r = fq_status f)) (rows_at (sq_alarm s) ?p ?t) =
      alarm_history f recs qb qe"
    unfolding alarm_history_def alarm_holdsD(1) [OF holds] filter_filter
    by (rule filter_cong [OF refl]) (use filed good(4) in \<open>auto simp: admits_def\<close>)
  moreover have "sort_key (\<lambda>r. - sint (rc_triggerTime r)) (sort_key tie (alarm_history f recs qb qe)) =
      sort_key (\<lambda>r. - uint (rc_triggerTime r)) (sort_key tie (alarm_history f recs qb qe))"
    by (rule sort_key_cong) (simp add: set_alarm_history good(4))
  ultimately have "select_alarms tie f qb qe (rows_at (sq_alarm s) ?p ?t) =
      limited f (sort_key (\<lambda>r. - uint (rc_triggerTime r)) (sort_key tie (alarm_history f recs qb qe)))"
    by (simp only: select_alarms_def Let_def limited_def)
  then show ?thesis using enough_of_limited [of "sort_key tie (alarm_history f recs qb qe)"] by simp
qed

text \<open>One month: the records of the month in range, if there are any; a month without records is skipped or
  gives none.\<close>

lemma queryAlarmMonth_eq:
  assumes "max b (word_of_int cur) < min e (word_of_int (cal_next cal cur))"
  shows "queryAlarmMonth cal ok tie f b e cur s =
    (let qb = max b (word_of_int cur); qe = min e (word_of_int (cal_next cal cur));
         path = getAlarmDatabasePath cal (sq_root s) qb; table = alarmTableNameOf cal qb
     in if sq_alarm s path = None then ([], s)
        else case (if sq_conns s path = None then openAlarmMonth cal ok qb s else (True, s)) of
          (r, s1) \<Rightarrow>
            (if r \<and> table \<noteq> [] \<and> sq_conns s1 path = Some True \<and> ok OpPrepare path \<and> ok OpQuery path
             then case table_rows (sq_alarm s1) path table of
                    None \<Rightarrow> [] | Some rows \<Rightarrow> select_alarms tie f (sint qb) (sint qe) rows
             else [], s1))"
proof -
  let ?qb = "max b (word_of_int cur)"
  let ?p = "getAlarmDatabasePath cal (sq_root s) ?qb"
  obtain r s1 where o: "(if sq_conns s ?p = None then openAlarmMonth cal ok ?qb s else (True, s)) = (r, s1)"
    by (cases "if sq_conns s ?p = None then openAlarmMonth cal ok ?qb s else (True, s)")
  have no: "(min e (word_of_int (cal_next cal cur)) \<le> ?qb) = False" using assms by (simp only: not_less [symmetric] simp_thms)
  show ?thesis
    unfolding queryAlarmMonth_def Let_def o prod.case no if_False
    by (cases r) (simp_all split: option.split)
qed

lemma queryAlarmMonth_keeps:
  assumes "queryAlarmMonth cal ok tie f b e cur s = (rs, s')"
  shows "alarm_same s s'"
proof (cases "max b (word_of_int cur) < min e (word_of_int (cal_next cal cur))")
  case True
  let ?qb = "max b (word_of_int cur)"
  let ?p = "getAlarmDatabasePath cal (sq_root s) ?qb"
  obtain r s1 where o: "(if sq_conns s ?p = None then openAlarmMonth cal ok ?qb s else (True, s)) = (r, s1)"
    by (cases "if sq_conns s ?p = None then openAlarmMonth cal ok ?qb s else (True, s)")
  then have "alarm_same s s1" using openAlarmMonth_keeps(1) by (auto split: if_splits)
  moreover have "s' = s \<or> s' = s1"
    using assms unfolding queryAlarmMonth_eq [OF True] Let_def o prod.case by (auto split: if_splits)
  ultimately show ?thesis by auto
next
  case False
  then have "min e (word_of_int (cal_next cal cur)) \<le> max b (word_of_int cur)" by (simp only: not_less)
  then have "queryAlarmMonth cal ok tie f b e cur s = ([], s)"
    unfolding queryAlarmMonth_def Let_def by (simp only: if_True)
  with assms show ?thesis by simp
qed

lemma queryAlarmMonth_returns:
  assumes holds: "alarm_holds cal s recs" and laws: "calendar_laws cal" and ok: "\<forall>op p. ok op p"
    and e: "e \<le> kMaxSaneTs" and t: "t \<le> kMaxSaneTs" and cur: "cur = cal_first cal (uint t)" "cur < uint e"
      "uint b < cal_next cal cur" "0 \<le> cur \<or> cur = cal_first cal (uint b)" and be: "b < e"
  shows "\<exists>rs s1. queryAlarmMonth cal ok tie f b e cur s = (rs, s1) \<and> alarm_same s s1 \<and>
      enough_of f (alarm_history f recs (max (uint b) cur) (min (uint e) (cal_next cal cur))) rs"
proof -
  let ?next = "cal_next cal cur" and ?qb = "max b (word_of_int cur)" and ?qe = "min e (word_of_int (cal_next cal cur))"
  have sane: "sane_time (uint t)" "sane_time (uint e)" using sane_word t e by blast+
  have low: "- (2 ^ 63) \<le> cur" using calendarD(5) [OF laws sane(1)] by (simp add: cur(1))
  have nxt: "uint t < ?next" "?next < 2 ^ 63" using calendarD(7,8) [OF laws sane(1)] by (simp_all add: cur(1))
  have "0 \<le> ?next" using nxt(1) uint_ge_0 [of t] by linarith
  with nxt(2) have un: "uint (word_of_int ?next :: u64) = ?next"
    by (simp add: uint_word_of_int_eq take_bit_int_eq_self_iff)
  obtain rs s1 where q: "queryAlarmMonth cal ok tie f b e cur s = (rs, s1)" by (cases "queryAlarmMonth cal ok tie f b e cur s")
  have same: "alarm_same s s1" by (rule queryAlarmMonth_keeps [OF q])
  have rs: "enough_of f (alarm_history f recs (max (uint b) cur) (min (uint e) ?next)) rs"
  proof (cases "0 \<le> cur")
    case False
    have none: "r \<notin> set recs" if "max (uint b) cur \<le> uint (rc_triggerTime r)" "uint (rc_triggerTime r) < ?next" for r
    proof
      assume r: "r \<in> set recs"
      let ?x = "uint (rc_triggerTime r)"
      have "cal_first cal ?x = cur"
        using calendarD(11) [OF laws sane(1), of ?x] that by (simp add: cur(1))
      with alarm_holdsD(3) [OF holds r] False show False by (simp add: good_time_def)
    qed
    then have "alarm_history f recs (max (uint b) cur) (min (uint e) ?next) = []"
      using set_alarm_history [of _ f recs "max (uint b) cur" "min (uint e) ?next"]
      by (metis all_not_in_conv min_less_iff_conj set_empty)
    moreover have "rs = []"
    proof -
      have "uint (word_of_int cur :: u64) = cur + 2 ^ 64"
      proof -
        have "(cur + 2 ^ 64) mod 2 ^ 64 = cur + 2 ^ 64"
          by (rule mod_pos_pos_trivial) (use low False in auto)
        then show ?thesis by (simp add: uint_word_of_int_eq take_bit_eq_mod)
      qed
      then have "?next < uint (word_of_int cur :: u64)" using nxt(2) low by simp
      then have "min e (word_of_int ?next) \<le> max b (word_of_int cur)"
        by (intro min.coboundedI2 max.coboundedI2) (simp add: word_le_def un)
      with q show ?thesis by (auto simp: queryAlarmMonth_def Let_def)
    qed
    ultimately show ?thesis by (simp add: enough_of_def)
  next
    case True
    then have sane_cur: "sane_time cur" using cur(2) sane(2) by (simp add: sane_time_def)
    have uc: "uint (word_of_int cur :: u64) = cur" by (rule word_of_sane [OF sane_cur])
    have self: "cal_first cal cur = cur"
      using calendarD(11) [OF laws sane(1), of cur] calendarD(6,7) [OF laws sane(1)] cur(1) by auto
    have qb: "uint ?qb = max (uint b) cur" and qe: "uint ?qe = min (uint e) ?next"
      using uc un by (auto simp: max_def min_def word_le_def)
    have "cur < ?next" using calendarD(7) [OF laws sane_cur] self by simp
    with be cur(2,3) have less: "?qb < ?qe" unfolding word_less_def qb qe by (simp add: word_less_def)
    have qb_le: "?qb \<le> kMaxSaneTs" using less e by (meson order.strict_implies_order order.trans min.cobounded1)
    have sint: "sint ?qb = uint ?qb" using sane_word [OF qb_le] by auto
    have sint_e: "sint ?qe = uint ?qe"
      by (rule sint_small) (use sane(2) in \<open>simp add: qe sane_time_def kMaxSaneTs_uint\<close>)
    have first: "cal_first cal (uint ?qb) = cur"
      using calendarD(11) [OF laws sane_cur, of "uint ?qb"] less self by (simp add: word_less_def qb qe)
    let ?p = "getAlarmDatabasePath cal (sq_root s) ?qb" and ?t = "alarmTableNameOf cal ?qb"
    have sel: "enough_of f (alarm_history f recs (max (uint b) cur) (min (uint e) ?next))
        (select_alarms tie f (uint ?qb) (uint ?qe) (rows_at (sq_alarm s) ?p ?t))"
      using select_filed [OF holds laws qb_le, of "uint ?qb" "uint ?qe" f tie] first
      by (simp add: qb qe)
    show ?thesis
    proof (cases "rows_at (sq_alarm s) ?p ?t = []")
      case True
      then have "enough_of f (alarm_history f recs (max (uint b) cur) (min (uint e) ?next)) []"
        using sel by (simp add: select_alarms_def split: if_splits)
      moreover have "rs = []"
      proof -
        have "table_rows (sq_alarm s') ?p ?t = None \<or> table_rows (sq_alarm s') ?p ?t = Some []"
          if "alarm_same s s'" for s'
        proof -
          have "rows_at (sq_alarm s') ?p ?t = []" using True that by (simp add: alarm_same_def)
          then show ?thesis by (cases "table_rows (sq_alarm s') ?p ?t") (simp_all add: rows_at_def)
        qed
        moreover obtain r s2 where o: "(if sq_conns s ?p = None then openAlarmMonth cal ok ?qb s else (True, s)) = (r, s2)"
          by (cases "if sq_conns s ?p = None then openAlarmMonth cal ok ?qb s else (True, s)")
        moreover from o have "alarm_same s s2" using openAlarmMonth_keeps(1) by (auto split: if_splits)
        moreover have "select_alarms tie f i j [] = []" for i j by (simp add: select_alarms_def)
        ultimately show ?thesis using q unfolding queryAlarmMonth_eq [OF less] Let_def o prod.case
          by (fastforce split: if_splits)
      qed
      ultimately show ?thesis by simp
    next
      case False
      then obtain r where r: "r \<in> set recs" "filed_in cal (sq_root s) ?p ?t r"
        unfolding alarm_holdsD(1) [OF holds] by (auto simp: filter_empty_conv)
      have rt: "rc_triggerTime r \<le> kMaxSaneTs" using good_timeD(4) [OF laws alarm_holdsD(3) [OF holds r(1)]] .
      have "getAlarmDatabasePath cal (sq_root s) (rc_triggerTime r) = ?p" using r(2) by (simp add: filed_in_def)
      then have "cal_first cal (uint (rc_triggerTime r)) = cur"
        using file_of_month [OF laws qb_le rt] calendarD(11) [OF laws sane_cur] self first by auto
      then have good: "good_time cal ?qb" using alarm_holdsD(3) [OF holds r(1)] qb_le by (simp add: good_time_def first)
      obtain s2 where s2: "(if sq_conns s ?p \<noteq> None then (True, s) else openAlarmMonth cal ok ?qb s) = (True, s2)"
        "alarm_same s s2" "sq_conns s2 ?p = Some True"
        using opened_ok [OF laws ok good] alarm_holdsD(2) [OF holds] by blast
      obtain rows where rows: "table_rows (sq_alarm s2) ?p ?t = Some rows" "rows_at (sq_alarm s) ?p ?t = rows"
      proof -
        have "rows_at (sq_alarm s2) = rows_at (sq_alarm s)" using s2(2) by (simp add: alarm_same_def)
        with False have "rows_at (sq_alarm s2) ?p ?t = rows_at (sq_alarm s) ?p ?t" "rows_at (sq_alarm s2) ?p ?t \<noteq> []" by simp_all
        with that show thesis by (cases "table_rows (sq_alarm s2) ?p ?t") (simp_all add: rows_at_def [of "sq_alarm s2"])
      qed
      have there: "(sq_alarm s ?p = None) = False" using False by (cases "sq_alarm s ?p") (simp_all add: rows_at_def table_rows_def)
      have opened: "(if sq_conns s ?p = None then openAlarmMonth cal ok ?qb s else (True, s)) = (True, s2)"
        using s2(1) by (simp split: if_splits)
      have "queryAlarmMonth cal ok tie f b e cur s = (select_alarms tie f (sint ?qb) (sint ?qe) rows, s2)"
        unfolding queryAlarmMonth_eq [OF less] Let_def opened there if_False
        using ok good_timeD(6) [OF laws good] rows s2(3) by simp
      with q sel rows(2) show ?thesis by (simp add: sint sint_e)
    qed
  qed
  with q same show ?thesis by blast
qed

lemma alarm_months_returns:
  assumes laws: "calendar_laws cal" and ok: "\<forall>op p. ok op p" and be: "b < e" and e: "e \<le> kMaxSaneTs"
  shows "alarm_holds cal s recs \<Longrightarrow> t \<le> kMaxSaneTs \<Longrightarrow> cur = cal_first cal (uint t) \<or> uint e \<le> cur \<Longrightarrow>
    0 \<le> cur \<or> cur = cal_first cal (uint b) \<Longrightarrow> (cur \<le> uint b \<longrightarrow> cur = cal_first cal (uint b)) \<Longrightarrow>
    \<exists>rs s'. alarm_months cal ok tie f b e cur out s = Some (out @ rs, s') \<and>
      enough_of f (alarm_history f recs (max (uint b) cur) (uint e)) rs"
proof (induction "nat (uint e - cur)" arbitrary: cur out s t rule: less_induct)
  case less
  have sint_e: "sint e = uint e" and sane_b: "sane_time (uint b)" "sane_time (uint e)"
    using sane_word e be by (meson less_imp_le order.trans)+
  show ?case
  proof (cases "cur < uint e")
    case False
    then show ?thesis by (subst alarm_months.simps) (simp add: sint_e alarm_history_empty enough_of_def)
  next
    case True
    let ?next = "cal_next cal cur"
    have cur: "cur = cal_first cal (uint t)" using less.prems(3) True by auto
    have sane: "sane_time (uint t)" using sane_word less.prems(2) by blast
    have nxt: "cur < ?next" "cal_first cal ?next = ?next" "uint t < ?next"
      using calendarD(6,7,10) [OF laws sane] by (auto simp: cur)
    have b_next: "uint b < ?next"
      using less.prems(5) nxt(1) calendarD(7) [OF laws sane_b(1)] by (cases "cur \<le> uint b") auto
    have np: "0 \<le> ?next" using b_next uint_ge_0 [of b] by linarith
    obtain rs1 s1 where step: "queryAlarmMonth cal ok tie f b e cur s = (rs1, s1)" and s1: "alarm_same s s1"
      and rs1: "enough_of f (alarm_history f recs (max (uint b) cur) (min (uint e) ?next)) rs1"
      using queryAlarmMonth_returns [OF less.prems(1) laws ok e less.prems(2) cur True b_next less.prems(4) be] by blast
    let ?t' = "if ?next < uint e then word_of_int ?next else 0 :: u64"
    have t': "?t' \<le> kMaxSaneTs" "?next = cal_first cal (uint ?t') \<or> uint e \<le> ?next"
    proof -
      have "sane_time ?next" if "?next < uint e" using that np sane_b(2) by (simp add: sane_time_def)
      then show "?t' \<le> kMaxSaneTs" "?next = cal_first cal (uint ?t') \<or> uint e \<le> ?next"
        using word_of_sane [of ?next] nxt(2) by (auto simp: word_le_def sane_time_def)
    qed
    have smaller: "nat (uint e - ?next) < nat (uint e - cur)" using nxt(1) True by linarith
    have later: "max (uint b) ?next = ?next" using b_next by simp
    obtain rs2 s2 where rest: "alarm_months cal ok tie f b e ?next (out @ rs1) s1 = Some ((out @ rs1) @ rs2, s2)"
      and rs2: "enough_of f (alarm_history f recs ?next (uint e)) rs2"
      using less.hyps [OF smaller alarm_holds_same [OF less.prems(1) s1] t'] np b_next later by fastforce
    have "mset (alarm_history f recs (max (uint b) cur) (min (uint e) ?next) @ alarm_history f recs ?next (uint e)) =
        mset (alarm_history f recs (max (uint b) cur) (uint e))"
    proof (cases "?next \<le> uint e")
      case True
      with nxt(1) b_next show ?thesis
        using alarm_history_split [of "max (uint b) cur" ?next "uint e" f recs] by simp
    next
      case False
      then show ?thesis by (simp add: alarm_history_empty)
    qed
    then have "enough_of f (alarm_history f recs (max (uint b) cur) (uint e)) (rs1 @ rs2)"
      by (rule enough_of_cong [OF enough_of_append [OF rs1 rs2]])
    moreover have "alarm_months cal ok tie f b e cur out s = Some (out @ (rs1 @ rs2), s2)"
      using rest True by (subst alarm_months.simps) (simp add: sint_e step)
    ultimately show ?thesis by blast
  qed
qed

lemma queryAlarms_returns:
  assumes laws: "calendar_laws cal" and ok: "\<forall>op p. ok op p" and holds: "alarm_holds cal s recs"
    and e: "e = (if fq_endMs f = 0 then nowMs else fq_endMs f)" "e \<le> kMaxSaneTs"
  shows "\<exists>out s'. queryAlarms cal ok tie ord nowMs f s = Some (out, s') \<and>
    latest_of f (alarm_history f recs (uint (fq_beginMs f)) (uint e)) out"
proof (cases "fq_beginMs f < e")
  case False
  then have "uint e \<le> uint (fq_beginMs f)" by (simp add: word_less_def)
  then show ?thesis
    using False by (simp add: not_less queryAlarms_def Let_def latest_of_def alarm_history_empty flip: e(1))
next
  case True
  let ?b = "fq_beginMs f" and ?sort = "\<lambda>xs. sort_key (\<lambda>r. - uint (rc_triggerTime r)) (sort_key ord xs)"
  have b: "?b \<le> kMaxSaneTs" using True e(2) by (meson less_imp_le order.trans)
  have sane: "sane_time (uint ?b)" "sint ?b = uint ?b" using sane_word [OF b] by auto
  have first: "cal_first cal (uint ?b) \<le> uint ?b" by (rule calendarD(6) [OF laws sane(1)])
  obtain rs s' where rs: "alarm_months cal ok tie f ?b e (cal_first cal (uint ?b)) [] s = Some (rs, s')"
    "enough_of f (alarm_history f recs (max (uint ?b) (cal_first cal (uint ?b))) (uint e)) rs"
    using alarm_months_returns [OF laws ok True e(2) holds b, of "cal_first cal (uint ?b)" tie f "[]"] by auto
  have "(if 0 < fq_limit f \<and> fq_limit f < int (length (?sort rs)) then take (nat (fq_limit f)) (?sort rs) else ?sort rs) =
      limited f (?sort rs)"
    by (auto simp: limited_def)
  moreover have "\<not> e \<le> ?b" using True by simp
  ultimately have "queryAlarms cal ok tie ord nowMs f s = Some (limited f (?sort rs), s')"
    using rs(1) unfolding queryAlarms_def Let_def e(1) [symmetric] by (simp add: sane(2) del: not_le)
  moreover have "enough_of f (alarm_history f recs (uint ?b) (uint e)) rs" using rs(2) first by (simp add: max_def)
  then have "latest_of f (alarm_history f recs (uint ?b) (uint e)) (limited f (?sort rs))"
    by (rule latest_of_limited) simp
  ultimately show ?thesis by blast
qed

section \<open>Properties\<close>

text \<open>Property C30: the alarm history is the history of the engine. Start an alarm engine, a store of alarm records
  and an access layer over empty files, make any calls on the engine and let the store see its signals in
  order; let every access succeed. Then a query returns the alarms the engine reported in the range that pass
  the filter, the latest first and as many as the limit allows, none of them twice and none left out that is
  later than one returned, each with the status, the times and the user that its first recovery and its first
  acknowledgement while active give it, in whatever order the database and the sort of the code put alarms of
  one time; nothing is counted as dropped. The engine does not go into storm mode (a threshold of 128 or more), it has raised fewer than
  \<open>2^64\<close> alarms, and the clock readings lie after the first month of 1970 and not after 2100.\<close>

theorem alarm_history_refines:
  assumes "calendar_laws cal" and "\<forall>op p. ok op p" and "dir \<noteq> []"
    and "\<forall>c \<in> set calls. good_call cal c" and "ae_alarmIdSeq (snd (alarm_run calls alarm_new)) < 2 ^ 64"
    and "map fst sigs = fst (alarm_run calls alarm_new)"
    and "store_signals cal ok sigs
      (store_new True (Some (dal_new dir Map.empty Map.empty)), dal_new dir Map.empty Map.empty) = (st, d)"
    and "e = (if fq_endMs f = 0 then nowMs else fq_endMs f)" and "e \<le> kMaxSaneTs"
  shows "as_dropped st = 0 \<and> (\<exists>out d'. queryAlarms cal ok tie ord nowMs f d = Some (out, d') \<and>
    latest_of f (alarm_history f (alarm_log sigs) (uint (fq_beginMs f)) (uint e)) out)"
proof -
  have "calm alarm_new"
    by (simp add: calm_def alarm_new_def default_storm_def ALARM_TIME_RING_SIZE_def)
  then have "\<forall>sig \<in> set (map fst sigs). plain_signal cal sig"
    using plain_run [of alarm_new calls cal] assms(4) by (simp add: assms(6) plain_def)
  moreover have "distinct (map (of_nat :: nat \<Rightarrow> u64) (triggered_ids (map fst sigs)))"
    using triggered_distinct [OF assms(5)] by (simp only: assms(6))
  ultimately have "follows cal dir (st, d) (alarm_log sigs)"
    using signals_follow [OF assms(1-3), of sigs] by (simp only: assms(7))
  then have "as_dropped st = 0" and "alarm_holds cal d (alarm_log sigs)" by (simp_all add: follows_def)
  with queryAlarms_returns [OF assms(1,2) _ assms(8,9)] show ?thesis by blast
qed

definition demo_calls :: "AlarmCall list" where
  "demo_calls = [Reload [demo_rule], Sample 9 (Fin 60) 5000 2592000001, Sample 9 (Fin 61) 104000 2592004001,
     Acknowledge [1] ''op'', Reload []]"

definition demo_event :: AlarmEvent where
  "demo_event = alarm_event 1 9 demo_rule (Fin 61) 2592004001"

lemma demo_first: "alarm_run [Reload [demo_rule], Sample 9 (Fin 60) 5000 2592000001] alarm_new = ([], demo_alarm)"
  by (simp add: demo_alarm_def alarm_defs)

lemma demo_second:
  "\<exists>e st. evaluate 9 (Fin 61) 104000 2592004001 demo_alarm = ([alarmTriggered demo_event], e) \<and>
     ae_states e = [(9, st)] \<and> ps_activeId st = 1 \<and> ps_status st = Active \<and> ae_alarmIdSeq e = 1"
proof -
  have "calm alarm_new"
    by (simp add: calm_def alarm_new_def default_storm_def ALARM_TIME_RING_SIZE_def)
  then have "calm (snd (alarm_run [Reload [demo_rule], Sample 9 (Fin 60) 5000 0] alarm_new))"
    by (rule calm_run) (simp add: high_threshold_def)
  then have "calm demo_alarm" by (simp only: demo_alarm_def)
  then have "\<not> ae_stormActive (snd (isStormTriggered 104000 demo_alarm))" using calm_storm by (auto simp: calm_def)
  moreover obtain st where "ae_states demo_alarm = [(9, st)]"
    by (simp add: demo_alarm_def alarm_defs del: isStormTriggered_def ring_record_def)
  moreover have "inOnSide demo_rule (Fin 61)" "ar_onDelayMs demo_rule = 3000" "ar_suppressWindowMs demo_rule = 60000"
    "ar_level demo_rule = Warning"
    by (simp_all add: inOnSide_def demo_rule_def default_rule_def)
  ultimately show ?thesis using demo_alarm_facts
    by (simp add: evaluate_def on_side_def raiseAlarm_def Let_def put_state_def demo_event_def alarm_event_def state_of_def)
qed

lemma demo_alarm_signals:
  "fst (alarm_run demo_calls alarm_new) = [alarmTriggered demo_event, alarmAcknowledged 1 ''op'', alarmRecovered 1]"
  "ae_alarmIdSeq (snd (alarm_run demo_calls alarm_new)) = 1"
proof -
  obtain e st where e: "evaluate 9 (Fin 61) 104000 2592004001 demo_alarm = ([alarmTriggered demo_event], e)"
    "ae_states e = [(9, st)]" "ps_activeId st = 1" "ps_status st = Active" "ae_alarmIdSeq e = 1"
    using demo_second by blast
  have calls: "demo_calls = [Reload [demo_rule], Sample 9 (Fin 60) 5000 2592000001] @
      [Sample 9 (Fin 61) 104000 2592004001, Acknowledge [1] ''op'', Reload []]"
    by (simp add: demo_calls_def)
  have "fst (alarm_run demo_calls alarm_new) = [alarmTriggered demo_event, alarmAcknowledged 1 ''op'', alarmRecovered 1] \<and>
      ae_alarmIdSeq (snd (alarm_run demo_calls alarm_new)) = 1"
    unfolding calls alarm_run_append demo_first prod.case
    using e by (simp add: acknowledgeAlarm_def put_state_def doReloadRules_def new_rules_def migrate_def
        state_of_def is_live_def recoverAlarm_def)
  then show "fst (alarm_run demo_calls alarm_new) = [alarmTriggered demo_event, alarmAcknowledged 1 ''op'', alarmRecovered 1]"
    and "ae_alarmIdSeq (snd (alarm_run demo_calls alarm_new)) = 1" by blast+
qed
theorem alarm_history_refines_witness:
  "\<exists>st d d'. store_signals demo_calendar (\<lambda>op p. True)
        [(alarmTriggered demo_event, 2592004002), (alarmAcknowledged 1 ''op'', 2592005000), (alarmRecovered 1, 2592006000)]
        (store_new True (Some (dal_new ''db'' Map.empty Map.empty)), dal_new ''db'' Map.empty Map.empty) = (st, d) \<and>
     as_dropped st = 0 \<and>
     queryAlarms demo_calendar (\<lambda>op p. True) (\<lambda>r. 0) (\<lambda>r. unat (rc_id r)) 5184000000
       \<lparr>fq_beginMs = 0, fq_endMs = 0, fq_level = 1, fq_status = 2, fq_pointId = 0, fq_limit = 10\<rparr> d =
       Some ([(toActiveRecord demo_event)\<lparr>rc_status := 2, rc_recoverTime := 2592006000,
         rc_confirmUser := ''op'', rc_confirmTime := 2592005000\<rparr>], d')"
proof -
  let ?sigs = "[(alarmTriggered demo_event, 2592004002), (alarmAcknowledged 1 ''op'', 2592005000),
    (alarmRecovered 1, 2592006000)] :: (AlarmSignal \<times> u64) list"
  let ?f = "\<lparr>fq_beginMs = 0, fq_endMs = 0, fq_level = 1, fq_status = 2, fq_pointId = 0, fq_limit = 10\<rparr>"
  let ?start = "(store_new True (Some (dal_new ''db'' Map.empty Map.empty)), dal_new ''db'' Map.empty Map.empty)"
  obtain st d where sd: "store_signals demo_calendar (\<lambda>op p. True) ?sigs ?start = (st, d)"
    by (cases "store_signals demo_calendar (\<lambda>op p. True) ?sigs ?start")
  have calls: "\<forall>c \<in> set demo_calls. good_call demo_calendar c"
    by (auto simp: demo_calls_def good_call_def high_threshold_def good_time_def kMaxSaneTs_def demo_calendar_def
        demo_D_def)
  have emitted: "map fst ?sigs = fst (alarm_run demo_calls alarm_new)" by (simp add: demo_alarm_signals(1))
  have recs: "alarm_log ?sigs = [(toActiveRecord demo_event)\<lparr>rc_status := 2, rc_recoverTime := 2592006000,
      rc_confirmUser := ''op'', rc_confirmTime := 2592005000\<rparr>]"
    by (simp add: alarm_log_def recover_record_def confirm_record_def toActiveRecord_def demo_event_def alarm_event_def)
  have hist: "alarm_history ?f (alarm_log ?sigs) 0 5184000000 = alarm_log ?sigs"
    unfolding recs
    by (simp add: alarm_history_def admits_def toActiveRecord_def demo_event_def alarm_event_def
        demo_rule_def default_rule_def)
  have one: "out = [r]" if "latest_of ?f [r] out" for out r
  proof -
    have "length out = 1" "mset out \<subseteq># {#r#}" using that by (simp_all add: latest_of_def)
    then show ?thesis by (cases out) (auto dest: mset_subset_eqD)
  qed
  have q: "as_dropped st = 0 \<and> (\<exists>out d'. queryAlarms demo_calendar (\<lambda>op p. True) (\<lambda>r. 0) (\<lambda>r. unat (rc_id r)) 5184000000 ?f d =
      Some (out, d') \<and> latest_of ?f (alarm_history ?f (alarm_log ?sigs) 0 5184000000) out)"
    using alarm_history_refines [OF demo_calendar_laws _ _ calls _ emitted sd, of 5184000000 ?f 5184000000]
      demo_alarm_signals(2) by (simp add: kMaxSaneTs_def)
  then obtain out d' where answer: "queryAlarms demo_calendar (\<lambda>op p. True) (\<lambda>r. 0) (\<lambda>r. unat (rc_id r)) 5184000000 ?f d =
      Some (out, d')" and latest: "latest_of ?f (alarm_log ?sigs) out"
    unfolding hist by (elim exE conjE) (rule that)
  have "out = alarm_log ?sigs" using latest unfolding recs by (rule one)
  with answer conjunct1 [OF q] sd show ?thesis
    unfolding recs by (intro exI [of _ st] exI [of _ d] exI [of _ d']) simp
qed

lemma insert_record_refused:
  assumes laws: "calendar_laws cal" and ok: "\<forall>op p. ok op p" and holds: "alarm_holds cal s recs"
    and good: "good_time cal (rc_triggerTime r)" and mem: "r0 \<in> set recs" "rc_id r0 = rc_id r"
    and there: "filed_in cal (sq_root s) (getAlarmDatabasePath cal (sq_root s) (rc_triggerTime r))
      (alarmTableNameOf cal (rc_triggerTime r)) r0"
  shows "\<exists>s'. insertAlarmRecords cal ok [r] s = (False, s') \<and> alarm_holds cal s' recs \<and> sq_root s' = sq_root s"
proof -
  let ?ts = "rc_triggerTime r"
  let ?p = "getAlarmDatabasePath cal (sq_root s) ?ts" and ?t = "alarmTableNameOf cal ?ts"
  note times = good_timeD [OF laws good]
  obtain s1 where s1: "(if sq_conns s ?p \<noteq> None then (True, s) else openAlarmMonth cal ok ?ts s) = (True, s1)"
    "alarm_same s s1" "sq_conns s1 ?p = Some True"
    using opened_ok [OF laws ok good] alarm_holdsD(2) [OF holds] by blast
  have holds1: "alarm_holds cal s1 recs" by (rule alarm_holds_same [OF holds s1(2)])
  have eq: "sq_root s1 = sq_root s" using s1(2) by (simp add: alarm_same_def)
  define s2 where "s2 = s1\<lparr>sq_alarm := make_table ?p ?t (sq_alarm s1)\<rparr>"
  have schema: "ensureAlarmSchema cal ok ?p s1 = (True, s2)"
    using times s1(3) ok by (simp add: ensureAlarmSchema_def create_alarm_def Let_def s2_def)
  have rows: "table_rows (sq_alarm s2) ?p ?t = Some (rows_at (sq_alarm s1) ?p ?t)"
    by (simp add: s2_def table_rows_make)
  have "r0 \<in> set (rows_at (sq_alarm s1) ?p ?t)" using mem there by (simp add: alarm_holdsD(1) [OF holds1] eq)
  with mem(2) have "rc_id r \<in> set (map rc_id (rows_at (sq_alarm s1) ?p ?t))" by (metis image_eqI list.set_map)
  then have ins: "insert_record r (rows_at (sq_alarm s1) ?p ?t) = None" by (simp add: insert_record_def)
  have "insertAlarmRecords cal ok [r] s = (False, s2)"
    unfolding insertAlarmRecords_def Let_def list.sel s1(1) prod.case
    using times ok by (simp add: schema rows ins not_less)
  moreover have "alarm_same s1 s2" by (simp add: s2_def alarm_same_def)
  ultimately show ?thesis using alarm_holds_same [OF holds1] by (auto simp: alarm_same_def eq)
qed

text \<open>An alarm after a restart overwrites an alarm of before. The ids of the engine start again at
  1 in every process, while the table of the month keeps the records of the processes before. When a new
  store sees an alarm whose id is taken in the file of its month, the record is refused by the primary key
  and only counted as dropped; the recovery of the alarm then closes the old record of that id.\<close>

theorem restart_overwrites:
  assumes "calendar_laws cal" and "\<forall>op p. ok op p" and "alarm_holds cal d recs" and "sq_root d \<noteq> []"
    and "r0 \<in> set recs" and "rc_id r0 = of_nat (ev_id ev)" and "good_time cal (ev_triggerTime ev)"
    and "filed_in cal (sq_root d) (getAlarmDatabasePath cal (sq_root d) (ev_triggerTime ev))
      (alarmTableNameOf cal (ev_triggerTime ev)) r0"
    and "store_signals cal ok [(alarmTriggered ev, n1), (alarmRecovered (ev_id ev), n2)] (store_new True (Some d), d) = (st, d')"
  shows "as_dropped st = 1 \<and> alarm_holds cal d'
    (map (\<lambda>r. if rc_id r = rc_id r0 then r\<lparr>rc_status := 2, rc_recoverTime := n2\<rparr> else r) recs)"
proof -
  let ?r = "toActiveRecord ev" and ?f = "\<lambda>r. r\<lparr>rc_status := 2, rc_recoverTime := n2\<rparr>"
  have r: "rc_id ?r = rc_id r0" "rc_triggerTime ?r = ev_triggerTime ev"
    using assms(6) by (simp_all add: toActiveRecord_def)
  obtain d1 where d1: "insertAlarmRecords cal ok [?r] d = (False, d1)" "alarm_holds cal d1 recs" "sq_root d1 = sq_root d"
    using insert_record_refused [OF assms(1-3), of ?r r0] assms(5,7,8) r by auto
  obtain d2 where d2: "update_alarm cal ok (ev_triggerTime ev) (\<lambda>r. rc_id r = rc_id r0) ?f d1 = (True, d2)"
    "alarm_holds cal d2 (map (\<lambda>r. if rc_id r = rc_id r0 then ?f r else r) recs)"
    using update_filed [OF assms(1,2) d1(2) assms(5,7), of "\<lambda>r. rc_id r = rc_id r0" ?f] assms(8) by (auto simp: d1(3))
  show ?thesis
    using assms(4,9) d1(1) d2
    by (simp add: store_signals_def onAlarmTriggered_def onAlarmRecovered_def store_new_def count_failure_def
        setAlarmRecovered_def flip: assms(6)) (auto simp: case_prod_beta)
qed

theorem restart_overwrites_witness:
  "\<exists>d st d'. alarm_holds demo_calendar d [toActiveRecord demo_event] \<and>
     store_signals demo_calendar (\<lambda>op p. True)
       [(alarmTriggered (alarm_event 1 7 demo_rule (Fin 80) 2592999000), 0), (alarmRecovered 1, 2593000000)]
       (store_new True (Some d), d) = (st, d') \<and>
     as_dropped st = 1 \<and>
     alarm_holds demo_calendar d' [(toActiveRecord demo_event)\<lparr>rc_status := 2, rc_recoverTime := 2593000000\<rparr>]"
proof -
  let ?ev = "alarm_event 1 7 demo_rule (Fin 80) 2592999000"
  define sd where "sd = store_signals demo_calendar (\<lambda>op p. True) [(alarmTriggered demo_event, 0)]
    (store_new True (Some (dal_new ''db'' Map.empty Map.empty)), dal_new ''db'' Map.empty Map.empty)"
  have good: "good_time demo_calendar 2592004001" "good_time demo_calendar 2592999000"
    by (simp_all add: good_time_def kMaxSaneTs_def demo_calendar_def demo_D_def)
  have "follows demo_calendar ''db'' sd (alarm_log [(alarmTriggered demo_event, 0)])"
    unfolding sd_def by (rule signals_follow [OF demo_calendar_laws])
      (simp_all add: plain_signal_def demo_event_def alarm_event_def demo_rule_def default_rule_def good)
  then have d: "alarm_holds demo_calendar (snd sd) [toActiveRecord demo_event]" "sq_root (snd sd) = ''db''"
    by (simp_all add: follows_def alarm_log_def)
  have fields: "rc_id (toActiveRecord demo_event) = of_nat (ev_id ?ev)" "ev_triggerTime ?ev = 2592999000"
    "rc_triggerTime (toActiveRecord demo_event) = 2592004001" "ev_id ?ev = 1"
    by (simp_all add: toActiveRecord_def demo_event_def alarm_event_def)
  have "getAlarmDatabasePath demo_calendar ''db'' 2592004001 = getAlarmDatabasePath demo_calendar ''db'' 2592999000"
    "alarmTableNameOf demo_calendar 2592004001 = alarmTableNameOf demo_calendar 2592999000" by code_simp+
  then have there: "filed_in demo_calendar (sq_root (snd sd)) (getAlarmDatabasePath demo_calendar (sq_root (snd sd)) (ev_triggerTime ?ev))
      (alarmTableNameOf demo_calendar (ev_triggerTime ?ev)) (toActiveRecord demo_event)"
    unfolding filed_in_def fields d(2) by simp
  obtain st d' where sigs: "store_signals demo_calendar (\<lambda>op p. True)
      [(alarmTriggered ?ev, 0), (alarmRecovered (ev_id ?ev), 2593000000)] (store_new True (Some (snd sd)), snd sd) = (st, d')"
    by (cases "store_signals demo_calendar (\<lambda>op p. True)
      [(alarmTriggered ?ev, 0), (alarmRecovered (ev_id ?ev), 2593000000)] (store_new True (Some (snd sd)), snd sd)")
  have "as_dropped st = 1 \<and> alarm_holds demo_calendar d' (map (\<lambda>r. if rc_id r = rc_id (toActiveRecord demo_event)
      then r\<lparr>rc_status := 2, rc_recoverTime := 2593000000\<rparr> else r) [toActiveRecord demo_event])"
    by (rule restart_overwrites [OF demo_calendar_laws _ d(1) _ _ fields(1) _ there sigs])
      (simp_all add: d(2) alarm_event_def good)
  with d(1) sigs show ?thesis unfolding fields(4) by auto
qed

end
