(* ===== verification/AlarmRules.thy ===== *)
theory AlarmRules
  imports AlarmEngine PointTable
begin

text \<open>
  The loader of alarm rules, \<^verbatim>\<open>apps/ens_app/src/business/AlarmRuleLoader.h\<close> and \<^verbatim>\<open>.cpp\<close>. Reading the file
  gives its content, which is empty if it cannot be opened; parsing JSON text is a parameter. A conversion of the
  JSON library that throws ends the load with the exception, after the rules appended so far.
\<close>

section \<open>The code\<close>

definition levelFromString :: "string \<Rightarrow> AlarmLevel option" where
  "levelFromString s =
     (if s = ''Info'' \<or> s = ''info'' then Some Info
      else if s = ''Warning'' \<or> s = ''warning'' then Some Warning
      else if s = ''Critical'' \<or> s = ''critical'' then Some Critical
      else None)"

fun first_named :: "PointRuntime list \<Rightarrow> string \<Rightarrow> u32" where
  "first_named [] name = 0"
| "first_named (p # ps) name = (if pr_pointName p = name then pr_pointId p else first_named ps name)"

definition resolvePointId :: "PointTable \<Rightarrow> string \<Rightarrow> u32" where
  "resolvePointId pt name = first_named (allPoints pt) name"

datatype RuleIssue = EmptyName | UnknownPoint string | BadLevel string string

text \<open>One entry: \<open>None\<close> for an exception.\<close>

definition load_rule :: "PointTable \<Rightarrow> json \<Rightarrow> (RuleIssue + AlarmRule) option" where
  "load_rule pt j =
     (case j_value get_string ''pointName'' [] j of None \<Rightarrow> None
      | Some name \<Rightarrow>
          if name = [] then Some (Inl EmptyName)
          else let pid = resolvePointId pt name
          in if pid = 0 then Some (Inl (UnknownPoint name))
             else (case j_value get_string ''level'' ''Warning'' j of None \<Rightarrow> None
              | Some lvl \<Rightarrow>
                  (case levelFromString lvl of None \<Rightarrow> Some (Inl (BadLevel lvl name))
                   | Some level \<Rightarrow>
                       Option.bind (j_value get_double ''onThreshold'' (Fin 0) j) (\<lambda>on_thr.
                       Option.bind (j_value get_double ''offThreshold'' (Fin 0) j) (\<lambda>off_thr.
                       Option.bind (j_value get_string ''direction'' ''high'' j) (\<lambda>dir.
                       Option.bind (j_value get_bool ''enabled'' True j) (\<lambda>enabled.
                       Option.bind (j_value get_word ''onDelayMs'' 3000 j) (\<lambda>on_delay.
                       Option.bind (j_value get_word ''offDelayMs'' 3000 j) (\<lambda>off_delay.
                       Option.bind (j_value get_word ''suppressWindowMs'' 60000 j) (\<lambda>window.
                         Some (Inr \<lparr>ar_pointId = pid, ar_level = level,
                           ar_direction = (if dir = ''low'' then Low else High),
                           ar_onThreshold = to_float on_thr, ar_offThreshold = to_float off_thr,
                           ar_enabled = enabled, ar_onDelayMs = on_delay, ar_offDelayMs = off_delay,
                           ar_suppressWindowMs = window\<rparr>)))))))))))"

datatype RuleResult = RuleException | OpenFailed | MissingRules | Loaded nat "RuleIssue list"

fun load_rules :: "PointTable \<Rightarrow> json list \<Rightarrow> AlarmRule list \<Rightarrow> nat \<Rightarrow> RuleIssue list \<Rightarrow> RuleResult \<times> AlarmRule list" where
  "load_rules pt [] out okCount issues = (Loaded okCount issues, out)"
| "load_rules pt (j # js) out okCount issues =
     (case load_rule pt j of
        None \<Rightarrow> (RuleException, out)
      | Some (Inl i) \<Rightarrow> load_rules pt js out okCount (issues @ [i])
      | Some (Inr r) \<Rightarrow> load_rules pt js (out @ [r]) (okCount + 1) issues)"

definition loadFromFile ::
  "(string \<Rightarrow> json option) \<Rightarrow> string \<Rightarrow> PointTable \<Rightarrow> AlarmRule list \<Rightarrow> RuleResult \<times> AlarmRule list" where
  "loadFromFile parse content pt out =
     (if content = [] then (OpenFailed, out)
      else case parse content of
             None \<Rightarrow> (MissingRules, out)
           | Some doc \<Rightarrow>
               if \<not> is_object doc then (MissingRules, out)
               else (case member_of ''rules'' doc of
                       Some (JArray rules) \<Rightarrow> load_rules pt rules out 0 []
                     | _ \<Rightarrow> (MissingRules, out)))"

section \<open>What is loaded\<close>

lemma first_named_in:
  "first_named ps name \<noteq> 0 \<Longrightarrow> \<exists>p \<in> set ps. pr_pointName p = name \<and> pr_pointId p = first_named ps name"
  by (induction ps) (auto split: if_splits)

lemma load_rule_point:
  assumes "load_rule pt j = Some (Inr r)"
  shows "ar_pointId r \<noteq> 0 \<and> (\<exists>p \<in> set (allPoints pt). pr_pointId p = ar_pointId r \<and>
    j_value get_string ''pointName'' [] j = Some (pr_pointName p))"
proof -
  obtain name where name: "j_value get_string ''pointName'' [] j = Some name" "resolvePointId pt name \<noteq> 0"
    "ar_pointId r = resolvePointId pt name"
    using assms by (auto simp: load_rule_def Let_def bind_eq_Some_conv split: option.splits if_splits)
  from first_named_in [of "allPoints pt" name] name show ?thesis by (auto simp: resolvePointId_def)
qed

text \<open>The rules of a load, entry by entry.\<close>

definition rules_of :: "PointTable \<Rightarrow> json list \<Rightarrow> AlarmRule list" where
  "rules_of pt js = List.map_filter (\<lambda>j. case load_rule pt j of Some (Inr r) \<Rightarrow> Some r | _ \<Rightarrow> None) js"

definition issues_of :: "PointTable \<Rightarrow> json list \<Rightarrow> RuleIssue list" where
  "issues_of pt js = List.map_filter (\<lambda>j. case load_rule pt j of Some (Inl i) \<Rightarrow> Some i | _ \<Rightarrow> None) js"

lemma load_rules_run:
  "\<forall>j \<in> set js. load_rule pt j \<noteq> None \<Longrightarrow>
    load_rules pt js out n issues = (Loaded (n + length (rules_of pt js)) (issues @ issues_of pt js), out @ rules_of pt js) \<and>
    length (rules_of pt js) + length (issues_of pt js) = length js"
proof (induction js arbitrary: out n issues)
  case (Cons j js)
  then show ?case
    by (cases "load_rule pt j") (auto simp: rules_of_def issues_of_def map_filter_simps split: sum.split)
qed (simp add: rules_of_def issues_of_def map_filter_simps)

lemma load_rules_exception:
  "load_rule pt j = None \<Longrightarrow> \<forall>i \<in> set js. load_rule pt i \<noteq> None \<Longrightarrow>
    load_rules pt (js @ j # rest) out n issues = (RuleException, out @ rules_of pt js)"
proof (induction js arbitrary: out n issues)
  case (Cons i js)
  then show ?case
    by (cases "load_rule pt i") (auto simp: rules_of_def map_filter_simps split: sum.split)
qed (simp add: rules_of_def map_filter_simps)

end
