(* ===== verification/L2History.thy ===== *)
theory L2History
  imports HistoryQueries
begin

text \<open>
  The write buffer of the history, \<^verbatim>\<open>apps/ens_app/src/datahub/L2HistoryStore.h\<close> and \<^verbatim>\<open>.cpp\<close>. Each operation is
  atomic (the mutex); the buckets of a flush are an association list in the order of the first sample, which
  stands for the order their hash map is iterated in. The access layer is \<open>None\<close> for the null pointer.
\<close>

section \<open>The code\<close>

record L2HistoryStore =
  l2_writeBuffer :: "DownSampledSample list"
  l2_capacity :: nat
  l2_droppedCount :: nat

definition kDefaultCapacity :: nat where "kDefaultCapacity = 100000"

definition l2_new :: L2HistoryStore where
  "l2_new = \<lparr>l2_writeBuffer = [], l2_capacity = kDefaultCapacity, l2_droppedCount = 0\<rparr>"

definition setCapacity :: "nat \<Rightarrow> L2HistoryStore \<Rightarrow> L2HistoryStore" where
  "setCapacity c l = l\<lparr>l2_capacity := c\<rparr>"

definition enqueueSample :: "DownSampledSample \<Rightarrow> L2HistoryStore \<Rightarrow> L2HistoryStore" where
  "enqueueSample s l =
     (let buf = l2_writeBuffer l @ [s]
      in if length buf > l2_capacity l
         then let excess = length buf - l2_capacity l
              in l\<lparr>l2_writeBuffer := drop excess buf, l2_droppedCount := l2_droppedCount l + excess\<rparr>
         else l\<lparr>l2_writeBuffer := buf\<rparr>)"

fun add_to_bucket :: "string \<Rightarrow> DownSampledSample \<Rightarrow> (string \<times> DownSampledSample list) list \<Rightarrow>
    (string \<times> DownSampledSample list) list" where
  "add_to_bucket path s [] = [(path, [s])]"
| "add_to_bucket path s ((p, xs) # bs) = (if p = path then (p, xs @ [s]) # bs else (p, xs) # add_to_bucket path s bs)"

definition month_buckets :: "Calendar \<Rightarrow> string \<Rightarrow> DownSampledSample list \<Rightarrow> (string \<times> DownSampledSample list) list" where
  "month_buckets cal dir batch =
     fold (\<lambda>s bs. add_to_bucket (getDatabasePath cal dir (ds_timestamp s)) s bs) batch []"

fun insert_buckets ::
  "Calendar \<Rightarrow> SqlAnswer \<Rightarrow> HistoryGranularity \<Rightarrow> (string \<times> DownSampledSample list) list \<Rightarrow> bool \<Rightarrow> SqlState \<Rightarrow>
     bool \<times> SqlState" where
  "insert_buckets cal ok gran [] allOk d = (allOk, d)"
| "insert_buckets cal ok gran ((p, xs) # bs) allOk d =
     (case batchInsert cal ok p gran xs d of (r, d1) \<Rightarrow> insert_buckets cal ok gran bs (if r then allOk else False) d1)"

definition l2_flush ::
  "Calendar \<Rightarrow> SqlAnswer \<Rightarrow> L2HistoryStore \<Rightarrow> SqlState option \<Rightarrow> bool \<times> L2HistoryStore \<times> SqlState option" where
  "l2_flush cal ok l dal =
     (case dal of
        None \<Rightarrow> (False, l, None)
      | Some d \<Rightarrow>
          if l2_writeBuffer l = [] then (True, l, Some d)
          else let batch = l2_writeBuffer l; gran = Gran1s
               in case insert_buckets cal ok gran (month_buckets cal (sq_root d) batch) True d of
                    (allOk, d1) \<Rightarrow> (allOk, l\<lparr>l2_writeBuffer := []\<rparr>, Some d1))"

definition l2_destroy ::
  "Calendar \<Rightarrow> SqlAnswer \<Rightarrow> L2HistoryStore \<Rightarrow> SqlState option \<Rightarrow> SqlState option" where
  "l2_destroy cal ok l dal =
     (if l2_writeBuffer l \<noteq> [] then snd (snd (l2_flush cal ok l dal)) else dal)"

definition l2_pendingCount :: "L2HistoryStore \<Rightarrow> nat" where
  "l2_pendingCount l = length (l2_writeBuffer l)"

section \<open>A flush\<close>

lemma mset_bucket: "mset (concat (map snd (add_to_bucket p s bs))) = add_mset s (mset (concat (map snd bs)))"
  by (induction p s bs rule: add_to_bucket.induct) simp_all

lemma mset_buckets: "mset (concat (map snd (month_buckets cal dir batch))) = mset batch"
proof -
  have "mset (concat (map snd (fold (\<lambda>s bs. add_to_bucket (getDatabasePath cal dir (ds_timestamp s)) s bs) batch bs))) =
      mset batch + mset (concat (map snd bs))" for bs
    by (induction batch arbitrary: bs) (simp_all add: mset_bucket)
  from this [of "[]"] show ?thesis by (simp add: month_buckets_def)
qed

definition of_one_file :: "Calendar \<Rightarrow> string \<Rightarrow> string \<times> DownSampledSample list \<Rightarrow> bool" where
  "of_one_file cal dir b \<longleftrightarrow> (\<forall>x \<in> set (snd b). getDatabasePath cal dir (ds_timestamp x) = fst b)"

lemma bucket_files:
  "getDatabasePath cal dir (ds_timestamp s) = p \<Longrightarrow> \<forall>b \<in> set bs. of_one_file cal dir b \<Longrightarrow>
    \<forall>b \<in> set (add_to_bucket p s bs). of_one_file cal dir b"
  by (induction p s bs rule: add_to_bucket.induct) (auto simp: of_one_file_def)

lemma buckets_files: "\<forall>b \<in> set (month_buckets cal dir batch). of_one_file cal dir b"
proof -
  have "\<forall>b \<in> set bs. of_one_file cal dir b \<Longrightarrow>
      \<forall>b \<in> set (fold (\<lambda>s bs. add_to_bucket (getDatabasePath cal dir (ds_timestamp s)) s bs) batch bs). of_one_file cal dir b" for bs
  proof (induction batch arbitrary: bs)
    case (Cons s batch)
    from Cons.IH [OF bucket_files [OF refl Cons.prems]] show ?case by simp
  qed simp
  from this [of "[]"] show ?thesis by (simp add: month_buckets_def)
qed

lemma insert_buckets_reach:
  assumes "calendar_laws cal"
  shows "dal_reach cal d acc \<Longrightarrow> insert_buckets cal ok g bs r0 d = (r, d') \<Longrightarrow>
    \<forall>b \<in> set bs. of_one_file cal (sq_root d) b \<Longrightarrow> \<forall>b \<in> set bs. \<forall>x \<in> set (snd b). ds_timestamp x \<le> kMaxSaneTs \<Longrightarrow>
    \<exists>new. dal_reach cal d' (acc @ map (Pair g) new) \<and> mset new \<subseteq># mset (concat (map snd bs)) \<and>
      (r \<longrightarrow> r0 \<and> mset new = mset (concat (map snd bs))) \<and> sq_root d' = sq_root d"
proof (induction bs arbitrary: d acc r0)
  case Nil
  then show ?case by (intro exI [of _ "[]"]) auto
next
  case (Cons b bs)
  obtain p xs where b: "b = (p, xs)" by (cases b)
  obtain r1 d1 where batch: "batchInsert cal ok p g xs d = (r1, d1)" by (cases "batchInsert cal ok p g xs d")
  have rest: "insert_buckets cal ok g bs (if r1 then r0 else False) d1 = (r, d')"
    using Cons.prems(2) by (simp add: b batch)
  have path: "\<forall>x \<in> set xs. ds_timestamp x \<le> kMaxSaneTs \<and> getDatabasePath cal (sq_root d) (ds_timestamp x) = p"
    using Cons.prems(3,4) by (auto simp: b of_one_file_def)
  have reach: "dal_reach cal d1 (if r1 then acc @ map (Pair g) xs else acc)"
    by (rule dal_reach.batch [OF Cons.prems(1) path batch])
  have dir: "sq_root d1 = sq_root d"
    by (rule batchInsert_holds(2) [OF assms dal_reach_holds [OF assms Cons.prems(1)] path batch])
  obtain new where new: "dal_reach cal d' ((if r1 then acc @ map (Pair g) xs else acc) @ map (Pair g) new)"
    "mset new \<subseteq># mset (concat (map snd bs))"
    "r \<longrightarrow> (if r1 then r0 else False) \<and> mset new = mset (concat (map snd bs))" "sq_root d' = sq_root d1"
    using Cons.IH [OF reach rest] Cons.prems(3,4) dir by auto
  show ?case
    by (rule exI [of _ "(if r1 then xs else []) @ new"])
      (use new dir in \<open>auto simp: b intro: subset_mset.add_mono subset_mset.order_trans [OF _ subset_mset.le_add_same_cancel2 [THEN iffD2]] split: if_splits\<close>)
qed

text \<open>A flush empties the buffer and hands every record of it at most once to the access layer, as
  records of one second; when it reports success, every record exactly once, so that the history grows by the
  buffer. On a reported failure a part of the buffer is neither in the history nor in the buffer.\<close>

theorem flush_accepts:
  assumes "calendar_laws cal" and "dal_reach cal d acc"
    and "\<forall>x \<in> set (l2_writeBuffer l). ds_timestamp x \<le> kMaxSaneTs"
    and "l2_flush cal ok l (Some d) = (r, l', dal')"
  shows "\<exists>new d'. dal' = Some d' \<and> dal_reach cal d' (acc @ map (Pair Gran1s) new) \<and> l2_writeBuffer l' = [] \<and>
    mset new \<subseteq># mset (l2_writeBuffer l) \<and> (r \<longrightarrow> mset new = mset (l2_writeBuffer l))"
proof (cases "l2_writeBuffer l = []")
  case True
  with assms(2,4) show ?thesis by (intro exI [of _ "[]"]) (auto simp: l2_flush_def)
next
  case False
  let ?bs = "month_buckets cal (sq_root d) (l2_writeBuffer l)"
  obtain d1 where ins: "insert_buckets cal ok Gran1s ?bs True d = (r, d1)" and l': "l' = l\<lparr>l2_writeBuffer := []\<rparr>" "dal' = Some d1"
    using assms(4) False by (auto simp: l2_flush_def Let_def split: prod.splits)
  have same: "set (concat (map snd ?bs)) = set (l2_writeBuffer l)" using mset_buckets by (metis mset_eq_setD)
  then have "\<forall>b \<in> set ?bs. \<forall>x \<in> set (snd b). ds_timestamp x \<le> kMaxSaneTs" using assms(3) by fastforce
  from insert_buckets_reach [OF assms(1,2) ins buckets_files this] show ?thesis
    unfolding mset_buckets by (auto simp: l')
qed

definition demo_l2 :: L2HistoryStore where
  "demo_l2 = fold enqueueSample [demo_sample 5184000001, demo_sample 2592000005] l2_new"

lemma demo_l2_buffer: "l2_writeBuffer demo_l2 = [demo_sample 5184000001, demo_sample 2592000005]"
  by (simp add: demo_l2_def enqueueSample_def l2_new_def kDefaultCapacity_def)

lemma demo_buckets: "fst (insert_buckets demo_calendar (\<lambda>op p. True) Gran1s
    (month_buckets demo_calendar [] [demo_sample 5184000001, demo_sample 2592000005]) True (dal_new [] Map.empty Map.empty))"
  by code_simp

lemma demo_flush: "fst (l2_flush demo_calendar (\<lambda>op p. True) demo_l2 (Some (dal_new [] Map.empty Map.empty)))"
  using demo_buckets by (simp add: l2_flush_def demo_l2_buffer Let_def dal_new_def case_prod_beta)

theorem flush_accepts_witness:
  "\<exists>new d'. dal_reach demo_calendar d' (map (Pair Gran1s) new) \<and>
     mset new = {#demo_sample 5184000001, demo_sample 2592000005#}"
proof -
  obtain l' dal' where "l2_flush demo_calendar (\<lambda>op p. True) demo_l2 (Some (dal_new [] Map.empty Map.empty)) = (True, l', dal')"
    using demo_flush by (metis prod.collapse)
  from flush_accepts [OF demo_calendar_laws dal_reach.start _ this] show ?thesis
    by (fastforce simp: demo_l2_buffer demo_sample_def kMaxSaneTs_def word_le_def)
qed

section \<open>Backpressure\<close>

lemma enqueue_step:
  assumes buf: "l2_writeBuffer l = drop k ys" and k: "k = length ys - cap" and cap: "l2_capacity l = cap"
    and cnt: "l2_droppedCount l = d + k"
  shows "l2_writeBuffer (enqueueSample x l) = drop (Suc (length ys) - cap) (ys @ [x]) \<and>
    l2_droppedCount (enqueueSample x l) = d + (Suc (length ys) - cap) \<and> l2_capacity (enqueueSample x l) = cap"
proof (cases "cap \<le> length ys")
  case True
  have len: "length (l2_writeBuffer l @ [x]) = Suc cap" using True by (simp add: buf k)
  have "l2_writeBuffer l @ [x] = drop k (ys @ [x])" by (simp add: buf k)
  moreover have "Suc (length ys) - cap = Suc k" using True by (simp add: k)
  moreover have "enqueueSample x l = l\<lparr>l2_writeBuffer := drop 1 (l2_writeBuffer l @ [x]), l2_droppedCount := d + k + 1\<rparr>"
    by (simp only: enqueueSample_def Let_def len cap cnt) simp
  ultimately show ?thesis by (simp only: drop_drop) (simp add: cap)
next
  case False
  then have "k = 0" "Suc (length ys) - cap = 0" by (simp_all add: k)
  with False show ?thesis by (simp add: enqueueSample_def buf cap cnt)
qed

lemma enqueue_keeps:
  assumes "length (l2_writeBuffer l) \<le> l2_capacity l"
  shows "l2_writeBuffer (fold enqueueSample xs l) =
      drop (length (l2_writeBuffer l @ xs) - l2_capacity l) (l2_writeBuffer l @ xs) \<and>
    l2_droppedCount (fold enqueueSample xs l) =
      l2_droppedCount l + (length (l2_writeBuffer l @ xs) - l2_capacity l) \<and>
    l2_capacity (fold enqueueSample xs l) = l2_capacity l"
proof (induction xs rule: rev_induct)
  case (snoc x xs)
  then show ?case
    using enqueue_step [of "fold enqueueSample xs l" _ "l2_writeBuffer l @ xs" "l2_capacity l" "l2_droppedCount l" x] by simp
qed (use assms in simp)

end
