(* ===== verification/EnsApp.thy ===== *)
theory EnsApp
  imports AlarmStore AlarmRules L2History BlackBox DataBus SboMachine PollDriver AuthManager
begin

text \<open>
  The application object of the monitoring program, \<^verbatim>\<open>apps/ens_app/src/app/EnerSentryApp.h\<close> and \<^verbatim>\<open>.cpp\<close>:
  what its main thread does with the samples of the bridge, the signals of the alarm engine, the changes of
  the link and the select-before-operate calls. Every component is the model of its own theory. Signals
  between objects of the main thread are direct calls; what is invoked on the worker thread is an output.
  The outcome of each access to a file, every clock reading and what the worker pushes meanwhile are inputs.
  Printing, the release counters of the diagnostics and the objects of the channel are left out.
\<close>

section \<open>The code: state\<close>

record AppOptions =
  op_pointTablePath :: string
  op_pollIntervalMs :: int
  op_alarmRulesPath :: string
  op_dataDir :: string
  op_blackboxDir :: string
  op_sboCmd :: string

record EnerSentryApp =
  ap_opts :: AppOptions
  ap_started :: bool
  ap_wired :: nat
  ap_connected :: bool
  ap_sampleCount :: u32
  ap_bridge :: "(u32 \<times> int \<times> fl) list"
  ap_alarm :: AlarmEngine
  ap_l1 :: L1SnapshotStore
  ap_bus :: DataBus
  ap_bbx :: BlackBoxManager
  ap_dal :: SqlState
  ap_ds :: DownSampler
  ap_l2 :: L2HistoryStore
  ap_sbo :: SboStateMachine
  ap_sboEnv :: SboEnv
  ap_alarmStore :: AlarmRecordStore
  ap_consumeTimer :: Timer
  ap_flushTimer :: Timer
  ap_driver :: bool
  ap_pt :: "PointTable option"

text \<open>What leaves the main thread: calls queued on the worker, and the signals of the object. A subscriber of
  the bus other than the sink is named by its number.\<close>

datatype AppOut =
    NewDriver PointTable
  | ToWorker WorkerEvent
  | OpenChannel
  | CloseChannel
  | ToSubscriber nat Sample
  | UiSample u32 int fl
  | UiAlarm u32 AlarmLevel
  | UiFrameError u8 FrameErrorKind
  | UiConnected
  | UiDisconnected

definition sink_id :: nat where "sink_id = 0"

definition app_new :: "AppOptions \<Rightarrow> (string \<rightharpoonup> string \<rightharpoonup> HistoryRow list) \<Rightarrow>
    (string \<rightharpoonup> string \<rightharpoonup> AlarmRecord list) \<Rightarrow> EnerSentryApp" where
  "app_new opts hist alarms =
     (let dal = dal_new (op_dataDir opts) hist alarms
      in \<lparr>ap_opts = opts, ap_started = False, ap_wired = 0, ap_connected = False, ap_sampleCount = 0, ap_bridge = [],
          ap_alarm = alarm_new, ap_l1 = l1_new, ap_bus = bus_new, ap_bbx = blackbox_new (Some l1_new),
          ap_dal = dal, ap_ds = downsampler_new, ap_l2 = l2_new, ap_sbo = sbo_new,
          ap_sboEnv = \<lparr>m_guard = None, pid_seq = 0\<rparr>, ap_alarmStore = store_new True (Some dal),
          ap_consumeTimer = \<lparr>tm_active = False, tm_interval = 0\<rparr>,
          ap_flushTimer = \<lparr>tm_active = False, tm_interval = 0\<rparr>, ap_driver = False, ap_pt = None\<rparr>)"

section \<open>The code: signals of the alarm engine\<close>

fun bb_level :: "AlarmLevel \<Rightarrow> BbLevel" where
  "bb_level Info = BbInfo"
| "bb_level Warning = BbWarning"
| "bb_level Critical = BbCritical"

definition app_trigger :: "u32 \<Rightarrow> u64 \<Rightarrow> AlarmLevel \<Rightarrow> EnerSentryApp \<Rightarrow> EnerSentryApp" where
  "app_trigger pid ts lvl a =
     a\<lparr>ap_bbx := snd (triggerBlackBox pid ts (bb_level lvl) ((ap_bbx a)\<lparr>bm_l1Store := Some (ap_l1 a)\<rparr>))\<rparr>"

text \<open>The slots of the record store are connected in its constructor, those of the object once by every call of
  \<open>start\<close>; \<open>ap_wired\<close> counts them.\<close>

definition app_alarm_signal ::
  "Calendar \<Rightarrow> SqlAnswer \<Rightarrow> AlarmSignal \<times> u64 \<Rightarrow> EnerSentryApp \<Rightarrow> AppOut list \<times> EnerSentryApp" where
  "app_alarm_signal cal ok sig a =
     (case store_signal cal ok sig (ap_alarmStore a, ap_dal a) of
        (st, d) \<Rightarrow>
          let a1 = a\<lparr>ap_alarmStore := st, ap_dal := d\<rparr>
          in case fst sig of
               alarmTriggered ev \<Rightarrow> (replicate (ap_wired a) (UiAlarm (ev_pointId ev) (ev_level ev)), a1)
             | blackBoxRequested pid ts lvl \<Rightarrow> ([], (app_trigger pid ts lvl ^^ ap_wired a) a1)
             | _ \<Rightarrow> ([], a1))"

fun app_alarm_signals ::
  "Calendar \<Rightarrow> SqlAnswer \<Rightarrow> (AlarmSignal \<times> u64) list \<Rightarrow> EnerSentryApp \<Rightarrow> AppOut list \<times> EnerSentryApp" where
  "app_alarm_signals cal ok [] a = ([], a)"
| "app_alarm_signals cal ok (s # ss) a =
     (case app_alarm_signal cal ok s a of (o1, a1) \<Rightarrow>
      case app_alarm_signals cal ok ss a1 of (o2, a2) \<Rightarrow> (o1 @ o2, a2))"

text \<open>A call on the alarm engine with the slots it runs; \<open>slot n\<close> is the clock reading of the \<open>n\<close>-th signal.\<close>

definition stamp :: "(nat \<Rightarrow> u64) \<Rightarrow> AlarmSignal list \<Rightarrow> (AlarmSignal \<times> u64) list" where
  "stamp slot sigs = zip sigs (map slot [0..<length sigs])"

definition app_alarm_call ::
  "Calendar \<Rightarrow> SqlAnswer \<Rightarrow> (nat \<Rightarrow> u64) \<Rightarrow> AlarmCall \<Rightarrow> EnerSentryApp \<Rightarrow> AppOut list \<times> EnerSentryApp" where
  "app_alarm_call cal ok slot c a =
     (case alarm_call c (ap_alarm a) of (sigs, e) \<Rightarrow>
        app_alarm_signals cal ok (stamp slot sigs) (a\<lparr>ap_alarm := e\<rparr>))"

section \<open>The code: consuming samples\<close>

text \<open>One turn of the loop: what the worker pushed before it, the readings of the clocks and the answers of
  the files during it.\<close>

record TickInput =
  ti_pushed :: "(u32 \<times> int \<times> fl) list"
  ti_mono :: int
  ti_epoch :: u64
  ti_slot :: "nat \<Rightarrow> u64"
  ti_sys :: u64
  ti_ok :: SqlAnswer

definition sink_onSample :: "Calendar \<Rightarrow> TickInput \<Rightarrow> Sample \<Rightarrow> EnerSentryApp \<Rightarrow> AppOut list \<times> EnerSentryApp" where
  "sink_onSample cal i s a =
     (case app_alarm_call cal (ti_ok i) (ti_slot i) (Sample (sm_pointId s) (sm_value s) (ti_mono i) (ti_epoch i)) a of
        (outs, a1) \<Rightarrow> (outs, a1\<lparr>ap_sampleCount := ap_sampleCount a1 + 1\<rparr>))"

fun deliver :: "Calendar \<Rightarrow> TickInput \<Rightarrow> Sample \<Rightarrow> nat list \<Rightarrow> EnerSentryApp \<Rightarrow> AppOut list \<times> EnerSentryApp" where
  "deliver cal i s [] a = ([], a)"
| "deliver cal i s (t # ts) a =
     (case (if t = sink_id then sink_onSample cal i s a else ([ToSubscriber t s], a)) of (o1, a1) \<Rightarrow>
      case deliver cal i s ts a1 of (o2, a2) \<Rightarrow> (o1 @ o2, a2))"

definition sample_of :: "u32 \<times> int \<times> fl \<Rightarrow> Sample" where
  "sample_of x = (case x of (pid, ts, v) \<Rightarrow> \<lparr>sm_timestamp = word_of_int ts, sm_pointId = pid, sm_value = to_float v\<rparr>)"

definition consume_sample ::
  "Calendar \<Rightarrow> TickInput \<Rightarrow> u32 \<times> int \<times> fl \<Rightarrow> EnerSentryApp \<Rightarrow> AppOut list \<times> EnerSentryApp" where
  "consume_sample cal i x a =
     (case x of (pid, ts, v) \<Rightarrow>
        let s = sample_of x;
            a1 = a\<lparr>ap_l1 := l1_write pid s (ap_l1 a)\<rparr>
        in case deliver cal i s (broadcast s (ap_bus a1)) a1 of (outs, a2) \<Rightarrow>
           (outs @ [UiSample pid ts v],
            if op_dataDir (ap_opts a2) \<noteq> []
            then (case rollUp pid Gran1s 0 (ti_sys i) (feed pid s Gran1s (ap_ds a2)) of
                    (rolled, ds) \<Rightarrow> a2\<lparr>ap_ds := ds, ap_l2 := fold enqueueSample rolled (ap_l2 a2)\<rparr>)
            else a2))"

text \<open>The loop of \<open>onConsumeTick\<close> over its inputs; it ends at the first turn that finds the bridge empty.\<close>

fun onConsumeTick :: "Calendar \<Rightarrow> TickInput list \<Rightarrow> EnerSentryApp \<Rightarrow> AppOut list \<times> EnerSentryApp" where
  "onConsumeTick cal [] a = ([], a)"
| "onConsumeTick cal (i # is) a =
     (case bridge_tryPop (fold bridge_push (ti_pushed i) (ap_bridge a)) of
        (None, q) \<Rightarrow> ([], a\<lparr>ap_bridge := q\<rparr>)
      | (Some x, q) \<Rightarrow>
          (case consume_sample cal i x (a\<lparr>ap_bridge := q\<rparr>) of (o1, a1) \<Rightarrow>
           case onConsumeTick cal is a1 of (o2, a2) \<Rightarrow> (o1 @ o2, a2)))"

definition onFlushTick :: "Calendar \<Rightarrow> SqlAnswer \<Rightarrow> EnerSentryApp \<Rightarrow> EnerSentryApp" where
  "onFlushTick cal ok a =
     (case l2_flush cal ok (ap_l2 a) (Some (ap_dal a)) of
        (_, l, Some d) \<Rightarrow> a\<lparr>ap_l2 := l, ap_dal := d\<rparr>
      | (_, l, None) \<Rightarrow> a\<lparr>ap_l2 := l\<rparr>)"

section \<open>The code: control\<close>

definition sbo_request :: "SboCommand \<Rightarrow> ModbusRequest" where
  "sbo_request cmd =
     \<lparr>rq_transport = Tcp, rq_transactionId = 0, rq_slaveAddress = ucast (cm_slaveId cmd), rq_functionCode = 6,
      rq_startingAddress = ucast (cm_registerAddr cmd), rq_quantity = 1, rq_registerValues = [cm_value cmd],
      rq_coilBytes = []\<rparr>"

definition dispatchSboCommand :: "SboCommand \<Rightarrow> AppOut list" where
  "dispatchSboCommand cmd = [ToWorker (WriteCommand (sbo_request cmd))]"

fun on_sbo_signal :: "SboSignal \<Rightarrow> AppOut list" where
  "on_sbo_signal (commandReady cmd) = dispatchSboCommand cmd"
| "on_sbo_signal _ = []"

definition app_sbo :: "'r sbo_result \<Rightarrow> EnerSentryApp \<Rightarrow> 'r \<times> AppOut list \<times> EnerSentryApp" where
  "app_sbo res a =
     (case res of (r, sigs, m, v) \<Rightarrow>
        (r, concat (map (\<lambda>s. concat (replicate (ap_wired a) (on_sbo_signal s))) sigs), a\<lparr>ap_sbo := m, ap_sboEnv := v\<rparr>))"

definition submitSboSelect ::
  "u32 \<Rightarrow> u32 \<Rightarrow> u16 \<Rightarrow> bool \<Rightarrow> int \<Rightarrow> EnerSentryApp \<Rightarrow> bool \<times> AppOut list \<times> EnerSentryApp" where
  "submitSboSelect slaveId registerAddr val emergency now a =
     app_sbo (submitSelect \<lparr>sr_linkId = 0, sr_slaveId = slaveId, sr_registerAddr = registerAddr, sr_value = val,
       sr_emergency = emergency\<rparr> ''cli'' now (ap_sbo a) (ap_sboEnv a)) a"

definition submitSboOperate :: "string \<Rightarrow> EnerSentryApp \<Rightarrow> bool \<times> AppOut list \<times> EnerSentryApp" where
  "submitSboOperate seq a =
     app_sbo (submitOperate (if seq = [] then m_sequenceId (ap_sbo a) else seq) (ap_sbo a) (ap_sboEnv a)) a"

definition submitSboCancel :: "string \<Rightarrow> EnerSentryApp \<Rightarrow> bool \<times> AppOut list \<times> EnerSentryApp" where
  "submitSboCancel seq a =
     app_sbo (submitCancel (if seq = [] then m_sequenceId (ap_sbo a) else seq) (ap_sbo a) (ap_sboEnv a)) a"

text \<open>The timer of \<open>scheduleSboCmd\<close>; the parts of the command line are split at the colons, and \<open>to_uint\<close> is
  \<open>QString::toUInt\<close> (0 for text that is no number).\<close>

definition onSboCmdTimer :: "(string \<Rightarrow> u32) \<Rightarrow> int \<Rightarrow> EnerSentryApp \<Rightarrow> AppOut list \<times> EnerSentryApp" where
  "onSboCmdTimer to_uint now a =
     (let parts = split_at (CHR '':'') (op_sboCmd (ap_opts a));
          (outs, a1) =
            (if hd parts = ''select'' \<and> length parts \<ge> 4
             then snd (submitSboSelect (to_uint (parts ! 1)) (to_uint (parts ! 2)) (ucast (to_uint (parts ! 3)))
                    (length parts \<ge> 5 \<and> parts ! 4 = ''e'') now a)
             else if hd parts = ''operate'' then snd (submitSboOperate [] a)
             else if hd parts = ''cancel'' then snd (submitSboCancel [] a)
             else ([], a))
      in (outs, a1\<lparr>ap_opts := (ap_opts a1)\<lparr>op_sboCmd := []\<rparr>\<rparr>))"

definition onChannelConnectionChanged :: "bool \<Rightarrow> EnerSentryApp \<Rightarrow> AppOut list \<times> EnerSentryApp" where
  "onChannelConnectionChanged isConnected a =
     (case onLinkStatusChanged isConnected (ap_sbo a) (ap_sboEnv a) of
        (_, _, m, v) \<Rightarrow>
          let a1 = a\<lparr>ap_connected := isConnected, ap_sbo := m, ap_sboEnv := v\<rparr>
          in if isConnected
             then ([ToWorker (StartPolling (op_pollIntervalMs (ap_opts a))), UiConnected], a1)
             else ([ToWorker StopPolling, ToWorker ResetPending, UiDisconnected], a1))"

text \<open>The slots of the timers of the select-before-operate machine.\<close>

definition onSboTimer :: "SboEvent \<Rightarrow> EnerSentryApp \<Rightarrow> AppOut list \<times> EnerSentryApp" where
  "onSboTimer ev a = snd (app_sbo ((), sbo_step ev (ap_sbo a) (ap_sboEnv a)) a)"

section \<open>The code: start and stop\<close>

record BootInput =
  bi_table :: "LoadError + PointTable"
  bi_rules :: string
  bi_parse :: "string \<Rightarrow> json option"
  bi_swap :: "SwapImage option"
  bi_channel :: bool
  bi_slot :: "nat \<Rightarrow> u64"
  bi_ok :: SqlAnswer

datatype StartResult = StartOk | StartFailed | StartThrew

definition policy_entry :: "PointRuntime \<Rightarrow> RingBufferPolicyEntry" where
  "policy_entry pr = \<lparr>pe_pointId = pr_pointId pr, pe_sampleRateMs = pr_pollIntervalMs pr, pe_retentionMs = 60000,
     pe_priority = pr_priority pr\<rparr>"

definition app_stop :: "Calendar \<Rightarrow> SqlAnswer \<Rightarrow> EnerSentryApp \<Rightarrow> AppOut list \<times> EnerSentryApp" where
  "app_stop cal ok a =
     (if \<not> ap_started a then ([], a)
      else let a1 = a\<lparr>ap_started := False, ap_consumeTimer := timer_stop (ap_consumeTimer a),
                 ap_flushTimer := timer_stop (ap_flushTimer a)\<rparr>;
               outs = (if ap_driver a1 then [ToWorker StopPolling] else []);
               a2 = (if op_dataDir (ap_opts a1) \<noteq> [] then onFlushTick cal ok a1 else a1)
           in (outs @ [CloseChannel], a2\<lparr>ap_connected := False, ap_driver := False\<rparr>))"

text \<open>The rules: \<open>None\<close> if the loader threw.\<close>

definition start_rules :: "Calendar \<Rightarrow> BootInput \<Rightarrow> PointTable \<Rightarrow> EnerSentryApp \<Rightarrow> (AppOut list \<times> EnerSentryApp) option" where
  "start_rules cal bi pt a =
     (if op_alarmRulesPath (ap_opts a) = [] then Some ([], a)
      else case loadFromFile (bi_parse bi) (bi_rules bi) pt [] of
             (RuleException, _) \<Rightarrow> None
           | (Loaded n issues, rules) \<Rightarrow> Some (app_alarm_call cal (bi_ok bi) (bi_slot bi) (Reload rules) a)
           | _ \<Rightarrow> Some ([], a))"

text \<open>The steps after the rules: driver, connections, timers, subscription, black box, channel.\<close>

definition start_wire :: "BootInput \<Rightarrow> PointTable \<Rightarrow> EnerSentryApp \<Rightarrow> EnerSentryApp" where
  "start_wire bi pt a =
     (let a1 = a\<lparr>ap_driver := True, ap_started := True, ap_wired := ap_wired a + 1,
            ap_sboEnv := (ap_sboEnv a)\<lparr>m_guard := Some (case m_guard (ap_sboEnv a) of None \<Rightarrow> guard_new | Some g \<Rightarrow> g)\<rparr>,
            ap_consumeTimer := timer_start_ms (ap_consumeTimer a) 50,
            ap_bus := snd (subscribeWildcard (Some sink_id) (ap_bus a))\<rparr>;
          a2 = (if op_dataDir (ap_opts a1) \<noteq> []
                then a1\<lparr>ap_flushTimer := timer_start_ms (ap_flushTimer a1) 1000\<rparr> else a1)
      in if op_blackboxDir (ap_opts a2) \<noteq> []
         then a2\<lparr>ap_bbx := snd (enableCriticalSwap (op_blackboxDir (ap_opts a2) @ ''/critical.swp'') (bi_swap bi) (ap_bbx a2))\<rparr>
         else a2)"

text \<open>\<open>None\<close> is the undefined behaviour of the snapshot store on a policy that spans the whole id range.\<close>

definition app_start :: "Calendar \<Rightarrow> BootInput \<Rightarrow> EnerSentryApp \<Rightarrow> (StartResult \<times> AppOut list \<times> EnerSentryApp) option" where
  "app_start cal bi a =
     (if ap_started a then Some (StartFailed, [], a)
      else case bi_table bi of
             Inl e \<Rightarrow> Some (StartFailed, [], a)
           | Inr pt \<Rightarrow>
               (let a1 = a\<lparr>ap_pt := Some pt\<rparr>
                in case initFromPolicy (map policy_entry (filter pr_enabled (allPoints pt))) (ap_l1 a1) of
                     None \<Rightarrow> None
                   | Some (False, l1) \<Rightarrow> Some (StartFailed, [], a1\<lparr>ap_l1 := l1\<rparr>)
                   | Some (True, l1) \<Rightarrow>
                       (case start_rules cal bi pt (a1\<lparr>ap_l1 := l1\<rparr>) of
                          None \<Rightarrow> Some (StartThrew, [], a1\<lparr>ap_l1 := l1\<rparr>)
                        | Some (outs, a2) \<Rightarrow>
                            let a3 = start_wire bi pt a2
                            in if bi_channel bi then Some (StartOk, outs @ [NewDriver pt, OpenChannel], a3)
                               else (case app_stop cal (bi_ok bi) a3 of
                                       (outs2, a4) \<Rightarrow> Some (StartFailed, outs @ [NewDriver pt] @ outs2, a4)))))"

definition app_destroy :: "Calendar \<Rightarrow> SqlAnswer \<Rightarrow> EnerSentryApp \<Rightarrow> SqlState" where
  "app_destroy cal ok a =
     (let a1 = snd (app_stop cal ok a)
      in case l2_destroy cal ok (ap_l2 a1) (Some (ap_dal a1)) of Some d \<Rightarrow> closeAll d | None \<Rightarrow> ap_dal a1)"

section \<open>A tick, component by component\<close>

type_synonym BridgeSample = "u32 \<times> int \<times> fl"

text \<open>The samples a tick consumes, each with the input of its turn.\<close>

fun consumed :: "TickInput list \<Rightarrow> BridgeSample list \<Rightarrow> (BridgeSample \<times> TickInput) list" where
  "consumed [] q = []"
| "consumed (i # is) q =
     (case bridge_tryPop (fold bridge_push (ti_pushed i) q) of
        (None, _) \<Rightarrow> []
      | (Some x, q') \<Rightarrow> (x, i) # consumed is q')"

definition sample_call :: "BridgeSample \<times> TickInput \<Rightarrow> AlarmCall" where
  "sample_call xi = (case xi of (x, i) \<Rightarrow> Sample (sm_pointId (sample_of x)) (sm_value (sample_of x)) (ti_mono i) (ti_epoch i))"

fun alarm_trace :: "(BridgeSample \<times> TickInput) list \<Rightarrow> AlarmEngine \<Rightarrow> (SqlAnswer \<times> AlarmSignal \<times> u64) list" where
  "alarm_trace [] e = []"
| "alarm_trace (xi # xis) e =
     (case alarm_call (sample_call xi) e of
        (sigs, e1) \<Rightarrow> map (Pair (ti_ok (snd xi))) (stamp (ti_slot (snd xi)) sigs) @ alarm_trace xis e1)"

definition ds_events :: "BridgeSample \<times> TickInput \<Rightarrow> DsEvent list" where
  "ds_events xi = (case xi of (x, i) \<Rightarrow> [Feed (fst x) (sample_of x), Roll (fst x) 0 (ti_sys i)])"

definition ui_samples :: "AppOut list \<Rightarrow> BridgeSample list" where
  "ui_samples = List.map_filter (\<lambda>out. case out of UiSample p ts v \<Rightarrow> Some (p, ts, v) | _ \<Rightarrow> None)"

lemma ui_samples_append [simp]: "ui_samples (xs @ ys) = ui_samples xs @ ui_samples ys"
  by (induction xs) (auto simp: ui_samples_def map_filter_simps split: AppOut.split)

lemma ui_samples_simps [simp]:
  "ui_samples [] = []" "ui_samples (replicate n (UiAlarm p l)) = []" "ui_samples [UiSample p ts v] = [(p, ts, v)]"
  "ui_samples [ToSubscriber t s] = []"
  by (induction n) (simp_all add: ui_samples_def map_filter_simps)

lemma trigger_only_bbx: "\<exists>b. (app_trigger pid ts lvl ^^ n) a = a\<lparr>ap_bbx := b\<rparr>"
proof (induction n)
  case 0
  show ?case by (rule exI [of _ "ap_bbx a"]) simp
next
  case (Suc n)
  then show ?case by (auto simp: app_trigger_def)
qed

text \<open>The slots on the signals change the record store, the files and the black box.\<close>

lemma alarm_signal_parts:
  "app_alarm_signal cal ok s a = (outs, a') \<Longrightarrow>
    (\<exists>b. a' = a\<lparr>ap_alarmStore := fst (store_signal cal ok s (ap_alarmStore a, ap_dal a)),
      ap_dal := snd (store_signal cal ok s (ap_alarmStore a, ap_dal a)), ap_bbx := b\<rparr>) \<and> ui_samples outs = []"
proof -
  assume app: "app_alarm_signal cal ok s a = (outs, a')"
  obtain st d where sd: "store_signal cal ok s (ap_alarmStore a, ap_dal a) = (st, d)"
    by (cases "store_signal cal ok s (ap_alarmStore a, ap_dal a)")
  let ?a1 = "a\<lparr>ap_alarmStore := st, ap_dal := d\<rparr>"
  have id: "?a1 = ?a1\<lparr>ap_bbx := ap_bbx a\<rparr>" by simp
  show ?thesis
  proof (cases "fst s")
    case (blackBoxRequested pid ts lvl)
    then show ?thesis using app trigger_only_bbx [where a = ?a1 and n = "ap_wired a"]
      by (auto simp: app_alarm_signal_def sd Let_def)
  qed (use app id in \<open>auto simp: app_alarm_signal_def sd Let_def\<close>)
qed

lemma alarm_signals_parts:
  "app_alarm_signals cal ok ss a = (outs, a') \<Longrightarrow>
    (\<exists>b. a' = a\<lparr>ap_alarmStore := fst (store_signals cal ok ss (ap_alarmStore a, ap_dal a)),
      ap_dal := snd (store_signals cal ok ss (ap_alarmStore a, ap_dal a)), ap_bbx := b\<rparr>) \<and> ui_samples outs = []"
proof (induction ss arbitrary: a outs)
  case Nil
  then have "a' = a\<lparr>ap_alarmStore := ap_alarmStore a, ap_dal := ap_dal a, ap_bbx := ap_bbx a\<rparr>" "outs = []" by simp_all
  then show ?case by (intro conjI exI [of _ "ap_bbx a"]) (simp_all add: store_signals_def)
next
  case (Cons s ss)
  obtain o1 a1 where one: "app_alarm_signal cal ok s a = (o1, a1)" by (cases "app_alarm_signal cal ok s a")
  obtain o2 where rest: "app_alarm_signals cal ok ss a1 = (o2, a')" and outs: "outs = o1 @ o2"
    using Cons.prems one by (auto split: prod.splits)
  obtain b1 where b1: "a1 = a\<lparr>ap_alarmStore := fst (store_signal cal ok s (ap_alarmStore a, ap_dal a)),
      ap_dal := snd (store_signal cal ok s (ap_alarmStore a, ap_dal a)), ap_bbx := b1\<rparr>" and "ui_samples o1 = []"
    using alarm_signal_parts [OF one] by blast
  have start: "(ap_alarmStore a1, ap_dal a1) = store_signal cal ok s (ap_alarmStore a, ap_dal a)" by (simp add: b1)
  obtain b2 where "a' = a1\<lparr>ap_alarmStore := fst (store_signals cal ok ss (ap_alarmStore a1, ap_dal a1)),
      ap_dal := snd (store_signals cal ok ss (ap_alarmStore a1, ap_dal a1)), ap_bbx := b2\<rparr>" and "ui_samples o2 = []"
    using Cons.IH [OF rest] by blast
  then show ?case using b1 \<open>ui_samples o1 = []\<close> by (auto simp: start outs store_signals_def)
qed

lemma deliver_sink:
  assumes "deliver cal i s [sink_id] a = (outs, a')"
    and "alarm_call (Sample (sm_pointId s) (sm_value s) (ti_mono i) (ti_epoch i)) (ap_alarm a) = (sigs, e)"
  shows "(\<exists>b. a' = a\<lparr>ap_alarm := e,
      ap_alarmStore := fst (store_signals cal (ti_ok i) (stamp (ti_slot i) sigs) (ap_alarmStore a, ap_dal a)),
      ap_dal := snd (store_signals cal (ti_ok i) (stamp (ti_slot i) sigs) (ap_alarmStore a, ap_dal a)),
      ap_bbx := b, ap_sampleCount := ap_sampleCount a + 1\<rparr>) \<and> ui_samples outs = []"
proof -
  obtain o1 a1 where o1: "app_alarm_signals cal (ti_ok i) (stamp (ti_slot i) sigs) (a\<lparr>ap_alarm := e\<rparr>) = (o1, a1)"
    by (cases "app_alarm_signals cal (ti_ok i) (stamp (ti_slot i) sigs) (a\<lparr>ap_alarm := e\<rparr>)")
  then have "outs = o1" "a' = a1\<lparr>ap_sampleCount := ap_sampleCount a1 + 1\<rparr>"
    using assms by (auto simp: sink_onSample_def app_alarm_call_def)
  with alarm_signals_parts [OF o1] show ?thesis by auto
qed

lemma consume_sample_parts:
  assumes "consume_sample cal i x a = (outs, a')" and "\<forall>s. broadcast s (ap_bus a) = [sink_id]"
    and "op_dataDir (ap_opts a) \<noteq> []" and "alarm_call (sample_call (x, i)) (ap_alarm a) = (sigs, e)"
    and "ds_run Gran1s (ds_events (x, i)) (ap_ds a) = (rolled, ds)"
  shows "(\<exists>b. a' = a\<lparr>ap_l1 := l1_write (fst x) (sample_of x) (ap_l1 a), ap_alarm := e,
      ap_alarmStore := fst (store_signals cal (ti_ok i) (stamp (ti_slot i) sigs) (ap_alarmStore a, ap_dal a)),
      ap_dal := snd (store_signals cal (ti_ok i) (stamp (ti_slot i) sigs) (ap_alarmStore a, ap_dal a)),
      ap_bbx := b, ap_sampleCount := ap_sampleCount a + 1, ap_ds := ds, ap_l2 := fold enqueueSample rolled (ap_l2 a)\<rparr>) \<and> ui_samples outs = [x]"
proof -
  obtain pid ts v where x: "x = (pid, ts, v)" by (cases x)
  let ?a1 = "a\<lparr>ap_l1 := l1_write pid (sample_of x) (ap_l1 a)\<rparr>"
  obtain o1 a2 where o1: "deliver cal i (sample_of x) [sink_id] ?a1 = (o1, a2)"
    by (cases "deliver cal i (sample_of x) [sink_id] ?a1")
  have call: "alarm_call (Sample (sm_pointId (sample_of x)) (sm_value (sample_of x)) (ti_mono i) (ti_epoch i)) (ap_alarm ?a1) = (sigs, e)"
    using assms(4) by (simp add: sample_call_def)
  obtain b where b: "a2 = ?a1\<lparr>ap_alarm := e,
      ap_alarmStore := fst (store_signals cal (ti_ok i) (stamp (ti_slot i) sigs) (ap_alarmStore a, ap_dal a)),
      ap_dal := snd (store_signals cal (ti_ok i) (stamp (ti_slot i) sigs) (ap_alarmStore a, ap_dal a)),
      ap_bbx := b, ap_sampleCount := ap_sampleCount a + 1\<rparr>" and o1': "ui_samples o1 = []"
    using deliver_sink [OF o1 call] by auto
  have roll: "rollUp pid Gran1s 0 (ti_sys i) (feed pid (sample_of x) Gran1s (ap_ds a)) = (rolled, ds)"
    using assms(5) by (auto simp: ds_events_def x split: prod.splits)
  show ?thesis
    using assms(1,2,3) o1 o1' b roll by (auto simp: consume_sample_def x split: prod.splits)
qed

lemma alarm_run_cons: "alarm_run (c # cs) e =
    (fst (alarm_call c e) @ fst (alarm_run cs (snd (alarm_call c e))), snd (alarm_run cs (snd (alarm_call c e))))"
  by (simp split: prod.split)

lemma ds_run_append: "ds_run g (xs @ ys) m =
    (fst (ds_run g xs m) @ fst (ds_run g ys (snd (ds_run g xs m))), snd (ds_run g ys (snd (ds_run g xs m))))"
  by (induction xs arbitrary: m) (auto split: prod.splits)

lemma tick_parts:
  assumes "onConsumeTick cal ins a = (outs, a')" and "\<forall>s. broadcast s (ap_bus a) = [sink_id]"
    and "op_dataDir (ap_opts a) \<noteq> []" and "xis = consumed ins (ap_bridge a)"
  shows "ap_l1 a' = fold (\<lambda>(x, i). l1_write (fst x) (sample_of x)) xis (ap_l1 a) \<and>
    ap_alarm a' = snd (alarm_run (map sample_call xis) (ap_alarm a)) \<and>
    (ap_alarmStore a', ap_dal a') =
      fold (\<lambda>(ok, sig). store_signal cal ok sig) (alarm_trace xis (ap_alarm a)) (ap_alarmStore a, ap_dal a) \<and>
    ap_sampleCount a' = ap_sampleCount a + of_nat (length xis) \<and>
    (case ds_run Gran1s (concat (map ds_events xis)) (ap_ds a) of
       (rolled, ds) \<Rightarrow> ap_ds a' = ds \<and> ap_l2 a' = fold enqueueSample rolled (ap_l2 a)) \<and>
    ui_samples outs = map fst xis"
  using assms
proof (induction ins arbitrary: a outs xis)
  case (Cons i ins)
  show ?case
  proof (cases "bridge_tryPop (fold bridge_push (ti_pushed i) (ap_bridge a))")
    case (Pair r q)
    show ?thesis
    proof (cases r)
      case None
      with Pair Cons.prems show ?thesis by auto
    next
      case (Some x)
      let ?a0 = "a\<lparr>ap_bridge := q\<rparr>"
      obtain o1 a1 where one: "consume_sample cal i x ?a0 = (o1, a1)" by (cases "consume_sample cal i x ?a0")
      obtain o2 where rest: "onConsumeTick cal ins a1 = (o2, a')" and outs: "outs = o1 @ o2"
        using Cons.prems(1) Pair Some one by (auto split: prod.splits)
      obtain sigs e where call: "alarm_call (sample_call (x, i)) (ap_alarm a) = (sigs, e)"
        by (cases "alarm_call (sample_call (x, i)) (ap_alarm a)")
      obtain rolled ds where roll: "ds_run Gran1s (ds_events (x, i)) (ap_ds a) = (rolled, ds)"
        by (cases "ds_run Gran1s (ds_events (x, i)) (ap_ds a)")
      obtain b where a1: "a1 = ?a0\<lparr>ap_l1 := l1_write (fst x) (sample_of x) (ap_l1 a), ap_alarm := e,
          ap_alarmStore := fst (store_signals cal (ti_ok i) (stamp (ti_slot i) sigs) (ap_alarmStore a, ap_dal a)),
          ap_dal := snd (store_signals cal (ti_ok i) (stamp (ti_slot i) sigs) (ap_alarmStore a, ap_dal a)),
          ap_bbx := b, ap_sampleCount := ap_sampleCount a + 1, ap_ds := ds, ap_l2 := fold enqueueSample rolled (ap_l2 a)\<rparr>" and o1: "ui_samples o1 = [x]"
        using consume_sample_parts [OF one, of sigs e rolled ds] Cons.prems(2,3) call roll by auto
      have xis: "xis = (x, i) # consumed ins q" using Cons.prems(4) Pair Some by simp
      have bridge: "consumed ins q = consumed ins (ap_bridge a1)" by (simp add: a1)
      have hyps: "\<forall>s. broadcast s (ap_bus a1) = [sink_id]" "op_dataDir (ap_opts a1) \<noteq> []"
        using Cons.prems(2,3) by (simp_all add: a1)
      have tagged: "fold (\<lambda>(ok, sig). store_signal cal ok sig) (map (Pair ok) ss) sd = store_signals cal ok ss sd" for ok ss sd
        by (induction ss arbitrary: sd) (simp_all add: store_signals_def)
      show ?thesis
        using Cons.IH [OF rest hyps bridge] call roll
        by (auto simp: xis outs o1 a1 alarm_run_cons ds_run_append tagged split: prod.splits)
    qed
  qed
qed simp

text \<open>Property C31: a tick hands every sample it takes from the bridge to every part of the program exactly once
  and in order, and the parts do not disturb each other. With the sink of the alarm engine as the
  subscriber of the bus and a data directory, the snapshot store, the alarm engine, the record store with its
  files, the counter, the down-sampler, the write buffer of the history and the signals to the user
  interface are each what their own operation makes of the sequence of samples.\<close>

theorem tick_distributes:
  assumes "onConsumeTick cal ins a = (outs, a')" and "\<forall>s. broadcast s (ap_bus a) = [sink_id]"
    and "op_dataDir (ap_opts a) \<noteq> []" and "xis = consumed ins (ap_bridge a)"
  shows "ap_l1 a' = fold (\<lambda>(x, i). l1_write (fst x) (sample_of x)) xis (ap_l1 a) \<and>
    ap_alarm a' = snd (alarm_run (map sample_call xis) (ap_alarm a)) \<and>
    (ap_alarmStore a', ap_dal a') =
      fold (\<lambda>(ok, sig). store_signal cal ok sig) (alarm_trace xis (ap_alarm a)) (ap_alarmStore a, ap_dal a) \<and>
    ap_sampleCount a' = ap_sampleCount a + of_nat (length xis) \<and>
    (case ds_run Gran1s (concat (map ds_events xis)) (ap_ds a) of
       (rolled, ds) \<Rightarrow> ap_ds a' = ds \<and> ap_l2 a' = fold enqueueSample rolled (ap_l2 a)) \<and>
    ui_samples outs = map fst xis"
  by (rule tick_parts [OF assms])

definition demo_options :: AppOptions where
  "demo_options = \<lparr>op_pointTablePath = [], op_pollIntervalMs = 100, op_alarmRulesPath = [], op_dataDir = ''db'',
     op_blackboxDir = [], op_sboCmd = []\<rparr>"

definition demo_app :: EnerSentryApp where
  "demo_app = (app_new demo_options Map.empty Map.empty)\<lparr>
     ap_bus := snd (subscribeWildcard (Some sink_id) bus_new),
     ap_bridge := [(9, 2592000500, Fin 60), (9, 2592000900, Fin 61)]\<rparr>"

definition demo_turn :: TickInput where
  "demo_turn = \<lparr>ti_pushed = [], ti_mono = 7, ti_epoch = 2592001010, ti_slot = (\<lambda>n. 2592001010), ti_sys = 2592001010,
     ti_ok = (\<lambda>op p. True)\<rparr>"

lemma demo_app_facts:
  "broadcast s (ap_bus demo_app) = [sink_id]" "op_dataDir (ap_opts demo_app) = ''db''" "ap_sampleCount demo_app = 0"
  "consumed [demo_turn, demo_turn, demo_turn] (ap_bridge demo_app) =
     [((9, 2592000500, Fin 60), demo_turn), ((9, 2592000900, Fin 61), demo_turn)]"
  "ap_dal demo_app = dal_new ''db'' Map.empty Map.empty" "ap_l2 demo_app = l2_new" "ap_ds demo_app = Map.empty"
  by (simp_all add: demo_app_def app_new_def demo_options_def broadcast_def subscribeWildcard_def subscribe_def
      bus_new_def Let_def matches_def demo_turn_def bridge_tryPop_def downsampler_new_def)

theorem tick_distributes_witness:
  "\<exists>outs a'. onConsumeTick demo_calendar [demo_turn, demo_turn, demo_turn] demo_app = (outs, a') \<and>
     ap_sampleCount a' = 2 \<and> ui_samples outs = [(9, 2592000500, Fin 60), (9, 2592000900, Fin 61)]"
proof -
  obtain outs a' where tick: "onConsumeTick demo_calendar [demo_turn, demo_turn, demo_turn] demo_app = (outs, a')"
    by (cases "onConsumeTick demo_calendar [demo_turn, demo_turn, demo_turn] demo_app")
  have "\<forall>s. broadcast s (ap_bus demo_app) = [sink_id]" by (simp add: demo_app_facts(1))
  from tick_distributes [OF tick this _ demo_app_facts(4) [symmetric]] tick show ?thesis
    by (simp add: demo_app_facts(2,3))
qed

section \<open>Two samples of one window\<close>

lemma store_signal_reach:
  assumes "dal_reach cal d acc"
  shows "dal_reach cal (snd (store_signal cal ok s (st, d))) acc"
proof -
  have ins: "dal_reach cal (snd (insertAlarmRecords cal ok rs d)) acc" for rs
    using dal_reach.alarms [OF assms] by (metis prod.collapse)
  have rec: "dal_reach cal (snd (setAlarmRecovered cal ok t i u d)) acc" for t i u
    using dal_reach.recovered [OF assms] by (metis prod.collapse)
  have con: "dal_reach cal (snd (setAlarmConfirmed cal ok t i n u d)) acc" for t i n u
    using dal_reach.confirmed [OF assms] by (metis prod.collapse)
  show ?thesis
    by (cases s; cases "fst s") (use assms ins rec con in \<open>auto simp: onAlarmTriggered_def onAlarmRecovered_def
        onAlarmAcknowledged_def onStormBatch_def Let_def case_prod_beta split: option.split\<close>)
qed

lemma store_trace_reach:
  "dal_reach cal d acc \<Longrightarrow> dal_reach cal (snd (fold (\<lambda>(ok, sig). store_signal cal ok sig) trace (st, d))) acc"
proof (induction trace arbitrary: st d)
  case (Cons x trace)
  obtain ok sig where x: "x = (ok, sig)" by (cases x)
  obtain st1 d1 where s: "store_signal cal ok sig (st, d) = (st1, d1)" by (cases "store_signal cal ok sig (st, d)")
  have "dal_reach cal d1 acc" using store_signal_reach [OF Cons.prems, of ok sig st] by (simp add: s)
  with Cons.IH show ?case by (simp add: x s)
qed simp

lemma store_signal_root: "sq_root (snd (store_signal cal ok s (st, d))) = sq_root d"
proof -
  have "sq_root (snd (insertAlarmRecords cal ok rs d)) = sq_root d" for rs
    using insertAlarmRecords_same [of cal ok rs d] by (metis prod.collapse sql_same_def)
  moreover have "sq_root (snd (update_alarm cal ok t P f d)) = sq_root d" for t P f
    using update_alarm_same [of cal ok t P f d] by (metis prod.collapse sql_same_def)
  ultimately show ?thesis
    by (cases s; cases "fst s") (auto simp: onAlarmTriggered_def onAlarmRecovered_def setAlarmRecovered_def
        setAlarmConfirmed_def onAlarmAcknowledged_def onStormBatch_def Let_def case_prod_beta split: option.split)
qed

text \<open>A sample that comes into a closed window leaves the down-sampler at once, alone.\<close>

lemma late_sample_rolls:
  assumes "ds p = None \<or> ds p = Some []" and "sm_timestamp s \<noteq> 0"
    and "alignToWindow (sm_timestamp s) Gran1s = w" and "w \<noteq> 0" and "w < alignToWindow sys Gran1s"
  shows "ds_run Gran1s [Feed p s, Roll p 0 sys] ds =
    ([summary_of p (bucket_add w (sm_value s) bucket_new)], ds(p \<mapsto> []))"
  using assms by (auto simp: feed_def rollUp_def Let_def)

lemma late_summary:
  "w \<noteq> 0 \<Longrightarrow> ds_timestamp (summary_of p (bucket_add w v bucket_new)) = w"
  "ds_pointId (summary_of p b) = p"
  by (simp_all add: summary_of_def bucket_add_def bucket_new_def Let_def)

lemma flush_pair:
  assumes "calendar_laws cal" and "dal_reach cal (ap_dal a) acc" and "l2_writeBuffer (ap_l2 a) = [r1, r2]"
    and "ds_pointId r1 = ds_pointId r2" and "ds_timestamp r1 = w" and "ds_timestamp r2 = w" and "w \<le> kMaxSaneTs"
  shows "l2_pendingCount (ap_l2 (onFlushTick cal ok a)) = 0 \<and> dal_reach cal (ap_dal (onFlushTick cal ok a)) acc"
proof -
  let ?p = "getDatabasePath cal (sq_root (ap_dal a)) w"
  have buckets: "month_buckets cal (sq_root (ap_dal a)) [r1, r2] = [(?p, [r1, r2])]"
    using assms(5,6) by (simp add: month_buckets_def)
  obtain d where "batchInsert cal ok ?p Gran1s [r1, r2] (ap_dal a) = (False, d)" "dal_reach cal d acc"
    using batch_all_or_nothing [OF assms(1,2), of "[r1, r2]" ?p Gran1s ok] assms(4-7) by auto
  then show ?thesis
    using assms(3) by (simp add: onFlushTick_def l2_flush_def Let_def buckets l2_pendingCount_def)
qed

text \<open>Two samples of a point that are taken from the bridge after their second has ended are lost
  for the history. The down-sampler rolls each of them up alone, so the write buffer holds two records of one
  window; the next flush empties the buffer and its batch is refused by the primary key, whatever accesses
  succeed, so that the history stays what it was. The consumer need only be later than the end of the second,
  which the tick of 50 ms and the flushes of the same thread make happen.\<close>

theorem tick_pair_lost:
  assumes "calendar_laws cal" and "dal_reach cal (ap_dal a) acc"
    and "onConsumeTick cal ins a = (outs, a')" and "\<forall>s. broadcast s (ap_bus a) = [sink_id]"
    and "op_dataDir (ap_opts a) \<noteq> []" and "consumed ins (ap_bridge a) = [(x1, i1), (x2, i2)]"
    and "fst x1 = p" and "fst x2 = p" and "l2_writeBuffer (ap_l2 a) = []" and "2 \<le> l2_capacity (ap_l2 a)"
    and "ap_ds a p = None \<or> ap_ds a p = Some []"
    and "\<forall>x \<in> {x1, x2}. sm_timestamp (sample_of x) \<noteq> 0 \<and> alignToWindow (sm_timestamp (sample_of x)) Gran1s = w"
    and "w \<noteq> 0" and "w \<le> kMaxSaneTs" and "\<forall>i \<in> {i1, i2}. w < alignToWindow (ti_sys i) Gran1s"
  shows "l2_pendingCount (ap_l2 a') = 2 \<and> l2_pendingCount (ap_l2 (onFlushTick cal ok a')) = 0 \<and>
    dal_reach cal (ap_dal (onFlushTick cal ok a')) acc"
proof -
  let ?r = "\<lambda>x. summary_of p (bucket_add w (sm_value (sample_of x)) bucket_new)"
  have one: "ds_run Gran1s [Feed p (sample_of x1), Roll p 0 (ti_sys i1)] (ap_ds a) = ([?r x1], (ap_ds a)(p \<mapsto> []))"
    by (rule late_sample_rolls) (use assms(11-15) in auto)
  have two: "ds_run Gran1s [Feed p (sample_of x2), Roll p 0 (ti_sys i2)] ((ap_ds a)(p \<mapsto> [])) =
      ([?r x2], (ap_ds a)(p \<mapsto> [], p \<mapsto> []))"
    by (rule late_sample_rolls) (use assms(12-15) in auto)
  have "ds_run Gran1s ([Feed p (sample_of x1), Roll p 0 (ti_sys i1)] @ [Feed p (sample_of x2), Roll p 0 (ti_sys i2)]) (ap_ds a) =
      ([?r x1] @ [?r x2], (ap_ds a)(p \<mapsto> []))"
    unfolding ds_run_append one fst_conv snd_conv two by simp
  then have run: "ds_run Gran1s (concat (map ds_events [(x1, i1), (x2, i2)])) (ap_ds a) = ([?r x1, ?r x2], (ap_ds a)(p \<mapsto> []))"
    using assms(7,8) by (simp add: ds_events_def)
  note tick = tick_parts [OF assms(3-5) assms(6) [symmetric]]
  have buf: "l2_writeBuffer (ap_l2 a') = [?r x1, ?r x2]"
    using tick assms(9,10) unfolding run by (simp add: enqueueSample_def)
  have "dal_reach cal (ap_dal a') acc"
    using store_trace_reach [OF assms(2), of "alarm_trace [(x1, i1), (x2, i2)] (ap_alarm a)" "ap_alarmStore a"] tick
    by (metis snd_conv)
  from flush_pair [OF assms(1) this buf] assms(13,14) buf show ?thesis
    by (simp add: late_summary l2_pendingCount_def)
qed

theorem tick_pair_lost_witness:
  "\<exists>outs a'. onConsumeTick demo_calendar [demo_turn, demo_turn, demo_turn] demo_app = (outs, a') \<and>
     l2_pendingCount (ap_l2 a') = 2 \<and> l2_pendingCount (ap_l2 (onFlushTick demo_calendar (\<lambda>op p. True) a')) = 0 \<and>
     dal_reach demo_calendar (ap_dal (onFlushTick demo_calendar (\<lambda>op p. True) a')) []"
proof -
  obtain outs a' where tick: "onConsumeTick demo_calendar [demo_turn, demo_turn, demo_turn] demo_app = (outs, a')"
    by (cases "onConsumeTick demo_calendar [demo_turn, demo_turn, demo_turn] demo_app")
  have start: "dal_reach demo_calendar (ap_dal demo_app) []" by (simp add: demo_app_facts(5) dal_reach.start)
  have win: "alignToWindow 2592000500 Gran1s = 2592000000" "alignToWindow 2592000900 Gran1s = 2592000000"
    "alignToWindow 2592001010 Gran1s = 2592001000" by code_simp+
  have "l2_pendingCount (ap_l2 a') = 2 \<and> l2_pendingCount (ap_l2 (onFlushTick demo_calendar (\<lambda>op p. True) a')) = 0 \<and>
      dal_reach demo_calendar (ap_dal (onFlushTick demo_calendar (\<lambda>op p. True) a')) []"
    by (rule tick_pair_lost [OF demo_calendar_laws start tick _ _ demo_app_facts(4), where p = 9 and w = 2592000000])
      (use win in \<open>simp_all add: demo_app_facts l2_new_def kDefaultCapacity_def sample_of_def demo_turn_def kMaxSaneTs_def\<close>)
  with tick show ?thesis by blast
qed

section \<open>From the bridge to the alarm history\<close>

lemma batchInsert_keeps_alarms:
  assumes "batchInsert cal ok p g xs s = (r, s')"
  shows "sq_alarm s' = sq_alarm s"
proof -
  have create: "sq_alarm (snd (create_history cal ok p g s)) = sq_alarm s" for p g s
    by (simp add: create_history_def Let_def)
  have opens: "sq_alarm (snd (openMonth cal ok ts s)) = sq_alarm s" for ts s
  proof -
    let ?p = "getDatabasePath cal (sq_root s) ts"
    let ?s1 = "s\<lparr>sq_nextConnIdx := sq_nextConnIdx s + 1, sq_conns := (sq_conns s)(?p \<mapsto> True),
      sq_hist := make_file ?p (sq_hist s)\<rparr>"
    obtain r s2 where c: "create_history cal ok ?p Gran1s ?s1 = (r, s2)" by (cases "create_history cal ok ?p Gran1s ?s1")
    then have "sq_alarm s2 = sq_alarm s" using create [of ?p Gran1s ?s1] by simp
    with c show ?thesis by (cases r) (simp_all add: openMonth_def Let_def)
  qed
  have cref: "sq_alarm (conn_ref p s) = sq_alarm s" for p s by (simp add: conn_ref_def)
  have ens: "sq_alarm (snd (ensureSchema cal ok p g s)) = sq_alarm s" for p g s
  proof -
    obtain r s1 where o: "openMonth cal ok (monthStartFromDbPath cal p) s = (r, s1)"
      by (cases "openMonth cal ok (monthStartFromDbPath cal p) s")
    then have "sq_alarm s1 = sq_alarm s" using opens [of "monthStartFromDbPath cal p" s] by simp
    with o show ?thesis by (cases r) (simp_all add: ensureSchema_def create cref)
  qed
  let ?ts = "monthStartFromDbPath cal p"
  obtain o1 s1 where o1: "(if sq_conns s p \<noteq> None then (True, s) else openMonth cal ok ?ts s) = (o1, s1)"
    by (cases "if sq_conns s p \<noteq> None then (True, s) else openMonth cal ok ?ts s")
  then have s1: "sq_alarm s1 = sq_alarm s" using opens [of ?ts s] by (auto split: if_splits)
  obtain o2 s2 where o2: "ensureSchema cal ok p g (conn_ref p s1) = (o2, s2)" by (cases "ensureSchema cal ok p g (conn_ref p s1)")
  then have s2: "sq_alarm s2 = sq_alarm s" using ens [of p g "conn_ref p s1"] s1 by (simp add: cref)
  show ?thesis
    using assms s1 s2 unfolding batchInsert_def Let_def o1 prod.case o2
    by (auto simp: cref split: if_splits bool.splits option.splits)
qed

section \<open>Commands\<close>

lemma no_command:
  "snd (app_sbo ((), sigs, m, v) a) = (outs, a') \<Longrightarrow> (\<forall>cmd. commandReady cmd \<notin> set sigs) \<Longrightarrow> outs = []"
proof -
  assume "snd (app_sbo ((), sigs, m, v) a) = (outs, a')" and none: "\<forall>cmd. commandReady cmd \<notin> set sigs"
  moreover have "s \<in> set sigs \<Longrightarrow> on_sbo_signal s = []" for s using none by (cases s) auto
  ultimately show ?thesis by (auto simp: app_sbo_def)
qed

lemma release_no_command: "releaseHeld m v = (sigs, v') \<Longrightarrow> commandReady cmd \<notin> set sigs"
  by (auto simp: releaseHeld_def split: option.splits prod.splits)

lemma operate_outputs:
  "submitSboOperate seq a = (r, outs, a') \<Longrightarrow>
    r = (m_state (ap_sbo a) = Armed \<and> (seq = [] \<or> seq = m_sequenceId (ap_sbo a))) \<and>
    outs = (if r then replicate (ap_wired a) (ToWorker (WriteCommand (sbo_request (m_pendingCommand (ap_sbo a))))) else [])"
proof -
  assume app: "submitSboOperate seq a = (r, outs, a')"
  let ?m = "ap_sbo a" and ?v = "ap_sboEnv a"
  show ?thesis
  proof (cases "m_state ?m = Armed \<and> (seq = [] \<or> seq = m_sequenceId ?m)")
    case False
    then show ?thesis using app by (auto simp: submitSboOperate_def submitOperate_def app_sbo_def split: if_splits)
  next
    case True
    define m3 where "m3 = ?m\<lparr>m_armedTimer := timer_stop (m_armedTimer ?m), m_state := Executed,
      m_execTimer := timer_start (m_execTimer ?m)\<rparr>"
    obtain s2 v1 where rel: "releaseHeld m3 ?v = (s2, v1)" by (cases "releaseHeld m3 ?v")
    have quiet: "on_sbo_signal s = []" if "s \<in> set s2" for s
      using release_no_command [OF rel] that by (cases s) auto
    then have "concat (map (\<lambda>s. concat (replicate n (on_sbo_signal s))) s2) = []" for n by auto
    moreover have "submitOperate (if seq = [] then m_sequenceId ?m else seq) ?m ?v =
        (True, sboStateChanged Executed # s2 @ [commandReady (m_pendingCommand ?m)], m3, v1)"
      using True rel by (auto simp: submitOperate_def transitionTo_def Let_def m3_def)
    moreover have "concat (replicate n [x]) = replicate n x" for n and x :: AppOut by (induction n) auto
    ultimately show ?thesis
      using app True by (auto simp: submitSboOperate_def app_sbo_def dispatchSboCommand_def)
  qed
qed

lemma start_wired:
  assumes "app_start cal bi a = Some (StartOk, outs, a')"
  shows "ap_wired a' = ap_wired a + 1" and "ap_started a'" and "ap_sbo a' = ap_sbo a"
proof -
  obtain pt l1 o2 a2 where pt: "start_rules cal bi pt (a\<lparr>ap_pt := Some pt, ap_l1 := l1\<rparr>) = Some (o2, a2)"
    and a': "a' = start_wire bi pt a2"
    using assms by (auto simp: app_start_def Let_def split: if_splits sum.splits option.splits prod.splits bool.splits)
  have "ap_wired a2 = ap_wired a \<and> ap_sbo a2 = ap_sbo a"
  proof (cases "op_alarmRulesPath (ap_opts a) = []")
    case True
    with pt show ?thesis by (auto simp: start_rules_def)
  next
    case False
    obtain res rules where load: "loadFromFile (bi_parse bi) (bi_rules bi) pt [] = (res, rules)"
      by (cases "loadFromFile (bi_parse bi) (bi_rules bi) pt []")
    show ?thesis
    proof (cases res)
      case (Loaded n issues)
      obtain sigs e where call: "alarm_call (Reload rules) (ap_alarm a) = (sigs, e)" by (cases "alarm_call (Reload rules) (ap_alarm a)")
      let ?a = "a\<lparr>ap_pt := Some pt, ap_l1 := l1, ap_alarm := e\<rparr>"
      have "app_alarm_signals cal (bi_ok bi) (stamp (bi_slot bi) sigs) ?a = (o2, a2)"
        using pt False load Loaded call by (simp add: start_rules_def app_alarm_call_def del: alarm_call.simps)
      from alarm_signals_parts [OF this] show ?thesis by auto
    qed (use pt False load in \<open>auto simp: start_rules_def\<close>)
  qed
  then show "ap_wired a' = ap_wired a + 1" and "ap_started a'" and "ap_sbo a' = ap_sbo a"
    by (simp_all add: a' start_wire_def Let_def)
qed

lemma flush_keeps_control: "ap_wired (onFlushTick cal ok a) = ap_wired a" "ap_sbo (onFlushTick cal ok a) = ap_sbo a"
  by (auto simp: onFlushTick_def split: prod.split option.split)

lemma stop_keeps_control:
  "app_stop cal ok a = (outs, a') \<Longrightarrow> ap_wired a' = ap_wired a \<and> ap_sbo a' = ap_sbo a"
  by (auto simp: app_stop_def Let_def flush_keeps_control split: if_splits)

text \<open>A restart of the object doubles its control commands. \<open>start\<close> connects the signals of the
  machine again each time, and \<open>stop\<close> does not disconnect them. After a start, a stop and a second start every
  accepted operate call queues the write of the selected register once for each start, so at least twice; a
  call that is not accepted queues nothing.\<close>

theorem restart_doubles_writes:
  assumes "app_start cal bi a = Some (StartOk, o1, a1)" and "app_stop cal ok a1 = (o2, a2)"
    and "app_start cal bi' a2 = Some (StartOk, o3, a3)"
    and "submitSboOperate seq (a3\<lparr>ap_sbo := m\<rparr>) = (r, outs, a4)"
  shows "r = (m_state m = Armed \<and> (seq = [] \<or> seq = m_sequenceId m)) \<and>
    outs = (if r then replicate (ap_wired a + 2) (ToWorker (WriteCommand (sbo_request (m_pendingCommand m)))) else [])"
  using operate_outputs [OF assms(4)] start_wired(1) [OF assms(1)] start_wired(1) [OF assms(3)] stop_keeps_control [OF assms(2)]
  by simp

definition demo_boot :: BootInput where
  "demo_boot = \<lparr>bi_table = Inr \<lparr>m_byPointId = [(7, demo_point 7 16)], m_byAddr = Map.empty, m_bySlave = Map.empty\<rparr>,
     bi_rules = [], bi_parse = (\<lambda>s. None), bi_swap = None, bi_channel = True, bi_slot = (\<lambda>n. 0), bi_ok = (\<lambda>op p. True)\<rparr>"

lemma demo_boot_starts:
  assumes "\<not> ap_started a" and "op_alarmRulesPath (ap_opts a) = []"
  shows "\<exists>outs a'. app_start cal demo_boot a = Some (StartOk, outs, a')"
proof -
  define e where "e = policy_entry (demo_point 7 16)"
  have e: "pe_pointId e = 7" by (simp add: e_def policy_entry_def demo_point_def)
  then have "min_id [e] = 7" "max_id [e] = 7" by (simp_all add: min_id_def max_id_def)
  then obtain l1 where "initFromPolicy [e] (ap_l1 a) = Some (True, l1)"
    using e fresh_ring_new [of e] by (cases "isDensePolicy [e]") (simp_all add: initFromPolicy_def Let_def place_def)
  then show ?thesis
    using assms by (simp add: app_start_def demo_boot_def allPoints_def e_def demo_point_def start_rules_def Let_def)
qed

theorem restart_doubles_writes_witness:
  "\<exists>o1 a1 o2 a2 o3 a3 a4. app_start demo_calendar demo_boot (app_new demo_options Map.empty Map.empty) = Some (StartOk, o1, a1) \<and>
     app_stop demo_calendar (\<lambda>op p. True) a1 = (o2, a2) \<and> app_start demo_calendar demo_boot a2 = Some (StartOk, o3, a3) \<and>
     submitSboOperate [] (a3\<lparr>ap_sbo := sbo_new\<lparr>m_state := Armed\<rparr>\<rparr>) =
       (True, replicate 2 (ToWorker (WriteCommand (sbo_request (m_pendingCommand sbo_new)))), a4)"
proof -
  let ?a = "app_new demo_options Map.empty Map.empty" and ?m = "sbo_new\<lparr>m_state := Armed\<rparr>"
  have opts: "\<not> ap_started ?a" "op_alarmRulesPath (ap_opts ?a) = []" "ap_wired ?a = 0"
    by (simp_all add: app_new_def demo_options_def Let_def)
  obtain o1 a1 where a1: "app_start demo_calendar demo_boot ?a = Some (StartOk, o1, a1)"
    using demo_boot_starts [OF opts(1,2)] by blast
  obtain o2 a2 where a2: "app_stop demo_calendar (\<lambda>op p. True) a1 = (o2, a2)"
    by (cases "app_stop demo_calendar (\<lambda>op p. True) a1")
  have flush_opts: "ap_opts (onFlushTick cal ok x) = ap_opts x" "ap_started (onFlushTick cal ok x) = ap_started x" for cal ok x
    by (auto simp: onFlushTick_def split: prod.split option.split)
  have "ap_opts a1 = ap_opts ?a"
    using a1 opts(2) by (auto simp: app_start_def start_rules_def start_wire_def Let_def
        split: if_splits sum.splits option.splits prod.splits bool.splits)
  then have "\<not> ap_started a2" "op_alarmRulesPath (ap_opts a2) = []"
    using a2 opts(2) by (auto simp: app_stop_def Let_def flush_opts split: if_splits)
  then obtain o3 a3 where a3: "app_start demo_calendar demo_boot a2 = Some (StartOk, o3, a3)"
    using demo_boot_starts by blast
  obtain r outs a4 where a4: "submitSboOperate [] (a3\<lparr>ap_sbo := ?m\<rparr>) = (r, outs, a4)"
    by (cases "submitSboOperate [] (a3\<lparr>ap_sbo := ?m\<rparr>)")
  have "r" and "outs = replicate 2 (ToWorker (WriteCommand (sbo_request (m_pendingCommand sbo_new))))"
    using restart_doubles_writes [OF a1 a2 a3 a4] opts(3) by (simp_all add: numeral_2_eq_2)
  with a1 a2 a3 a4 show ?thesis by auto
qed

end
