(* ===== verification/SimPoints.thy ===== *)
theory SimPoints
  imports PointTable SimDispatch
begin

text \<open>
  The point table and the configuration of the device simulator,
  \<^verbatim>\<open>apps/device_simulator/src/core/point_table.h\<close> and \<^verbatim>\<open>.cpp\<close> and
  \<^verbatim>\<open>apps/device_simulator/src/sim/sim_config.h\<close> and \<^verbatim>\<open>.cpp\<close>. The simulator has its own loader for
  the file the program loads; its enumerations have the members of those of the program, numbered
  otherwise, and as no code looks at the numbers the types are the same here. Reading a file and
  parsing JSON text are parameters, as for the loader of the program. The iteration over an
  \<open>unordered_map\<close> is in the order of a list that is an argument where the result depends on it.
\<close>

section \<open>The code: JSON\<close>

text \<open>The elements a range loop over a JSON value visits: none for null, the value itself for a value that
  is neither an array nor an object. An object is not iterated by the files the program comes with;
  its values come in the order of its members.\<close>

fun json_items :: "json \<Rightarrow> json list" where
  "json_items (JArray js) = js"
| "json_items (JObject ms) = map snd ms"
| "json_items JNull = []"
| "json_items j = [j]"

text \<open>\<open>get<int>()\<close> and \<open>get<int64_t>()\<close>: \<open>w\<close> is the width. As for \<open>double\<close> and \<open>uint64_t\<close>, the library's
  own number types, the 64-bit conversion refuses a boolean and the others take it for 0 or 1.\<close>

definition wrap_signed :: "nat \<Rightarrow> int \<Rightarrow> int" where
  "wrap_signed w i = (i + 2 ^ (w - 1)) mod 2 ^ w - 2 ^ (w - 1)"

fun get_int :: "nat \<Rightarrow> json \<Rightarrow> int option" where
  "get_int w (JInt i) = Some (wrap_signed w i)"
| "get_int w (JBool b) = (if w = 64 then None else Some (if b then 1 else 0))"
| "get_int w (JFloat x) =
     (let i = (if x \<ge> 0 then \<lfloor>x\<rfloor> else \<lceil>x\<rceil>)
      in if - (2 ^ (w - 1)) \<le> i \<and> i < 2 ^ (w - 1) then Some i else None)"
| "get_int w _ = None"

section \<open>The code: the point table\<close>

record SimPoint =
  sp_pointId :: u32
  sp_pointName :: string
  sp_slaveAddress :: u8
  sp_regType :: RegisterType
  sp_dataType :: DataType
  sp_byteOrder :: ByteOrder
  sp_registerAddr :: u16
  sp_scaleFactor :: fl
  sp_offset :: fl
  sp_unit :: string
  sp_enabled :: bool

record SimPointTable =
  st_bySlave :: "u8 \<rightharpoonup> SimPoint list"
  st_byName :: "string \<rightharpoonup> SimPoint"

definition sim_parseRegisterType :: "string \<Rightarrow> LoadError + RegisterType" where
  "sim_parseRegisterType s =
     (if s = ''HoldingRegister'' then Inr HoldingRegister
      else if s = ''InputRegister'' then Inr InputRegister
      else if s = ''Coil'' then Inr Coil
      else if s = ''DiscreteInput'' then Inr DiscreteInput
      else Inl (UnknownName s))"

definition sim_parseDataType :: "string \<Rightarrow> LoadError + DataType" where
  "sim_parseDataType s =
     (if s = ''Bool'' then Inr Bool
      else if s = ''Int16'' then Inr Int16
      else if s = ''Uint16'' then Inr Uint16
      else if s = ''Int32'' then Inr Int32
      else if s = ''Float32'' then Inr Float32
      else if s = ''Float64'' then Inr Float64
      else Inl (UnknownName s))"

definition sim_parseByteOrder :: "string \<Rightarrow> LoadError + ByteOrder" where
  "sim_parseByteOrder s =
     (if s = ''ABCD'' then Inr ABCD
      else if s = ''BADC'' then Inr BADC
      else if s = ''CDAB'' then Inr CDAB
      else if s = ''DCBA'' then Inr DCBA
      else Inl (UnknownName s))"

definition parseHexOrDec :: "nat \<Rightarrow> string \<Rightarrow> LoadError + u16" where
  "parseHexOrDec ulong_max s =
     (case (if length s \<ge> 2 \<and> s ! 0 = CHR ''0'' \<and> (s ! 1 = CHR ''x'' \<or> s ! 1 = CHR ''X'')
            then stoul ulong_max 16 (drop 2 s) else stoul ulong_max 10 s) of
        None \<Rightarrow> Inl StoulException | Some v \<Rightarrow> Inr (of_nat v))"

definition sim_registerAddr :: "nat \<Rightarrow> json \<Rightarrow> LoadError + u16" where
  "sim_registerAddr ulong_max j =
     (case j of JString s \<Rightarrow> parseHexOrDec ulong_max s | _ \<Rightarrow> json_need (get_word j))"

definition sim_parsePoint :: "nat \<Rightarrow> json \<Rightarrow> LoadError + SimPoint" where
  "sim_parsePoint ulong_max jp =
     bindE (json_need (j_at get_word ''pointId'' jp)) (\<lambda>pid.
     bindE (json_need (j_value get_string ''pointName'' [] jp)) (\<lambda>name.
     bindE (json_need (j_at get_word ''slaveAddress'' jp)) (\<lambda>slave.
     bindE (bindE (json_need (j_at get_string ''regType'' jp)) sim_parseRegisterType) (\<lambda>rt.
     bindE (bindE (json_need (j_value get_string ''dataType'' ''Float32'' jp)) sim_parseDataType) (\<lambda>dt.
     bindE (bindE (json_need (j_value get_string ''byteOrder'' ''ABCD'' jp)) sim_parseByteOrder) (\<lambda>order.
     bindE (bindE (json_need (member_of ''registerAddr'' jp)) (sim_registerAddr ulong_max)) (\<lambda>addr.
     bindE (json_need (j_value get_float ''scaleFactor'' (Fin 1) jp)) (\<lambda>scale.
     bindE (json_need (j_value get_float ''offset'' (Fin 0) jp)) (\<lambda>off.
     bindE (json_need (j_value get_string ''unit'' [] jp)) (\<lambda>unit.
     bindE (json_need (j_value get_bool ''enabled'' True jp)) (\<lambda>enabled.
       Inr \<lparr>sp_pointId = pid, sp_pointName = name, sp_slaveAddress = slave, sp_regType = rt,
            sp_dataType = dt, sp_byteOrder = order, sp_registerAddr = addr, sp_scaleFactor = scale,
            sp_offset = off, sp_unit = unit, sp_enabled = enabled\<rparr>)))))))))))"

definition onSlave :: "SimPointTable \<Rightarrow> u8 \<Rightarrow> SimPoint list" where
  "onSlave t slave = (case st_bySlave t slave of None \<Rightarrow> [] | Some v \<Rightarrow> v)"

definition push_point :: "SimPoint \<Rightarrow> SimPointTable \<Rightarrow> SimPointTable" where
  "push_point p t = t\<lparr>st_bySlave := (st_bySlave t)(sp_slaveAddress p \<mapsto> onSlave t (sp_slaveAddress p) @ [p])\<rparr>"

fun sim_loadPoints :: "nat \<Rightarrow> json list \<Rightarrow> SimPointTable \<Rightarrow> LoadError + SimPointTable" where
  "sim_loadPoints ulong_max [] t = Inr t"
| "sim_loadPoints ulong_max (jp # jps) t =
     bindE (sim_parsePoint ulong_max jp) (\<lambda>p. sim_loadPoints ulong_max jps (push_point p t))"

text \<open>The index of names: of points with one name the last one visited counts.\<close>

definition index_names :: "u8 list \<Rightarrow> SimPointTable \<Rightarrow> SimPointTable" where
  "index_names order t = t\<lparr>st_byName :=
     map_of (rev (map (\<lambda>p. (sp_pointName p, p))
       (filter (\<lambda>p. sp_pointName p \<noteq> []) (concat (map (onSlave t) order)))))\<rparr>"

definition sim_loadTable :: "(string \<Rightarrow> json option) \<Rightarrow> nat \<Rightarrow> u8 list \<Rightarrow> string option \<Rightarrow> LoadError + SimPointTable" where
  "sim_loadTable parse ulong_max order file =
     (case file of None \<Rightarrow> Inl CannotOpen
      | Some content \<Rightarrow>
          (case parse content of None \<Rightarrow> Inl ParseFailed
           | Some doc \<Rightarrow>
               bindE (json_need (j_value Some ''meta'' (JObject []) doc)) (\<lambda>meta.
               bindE (json_need (j_value get_string ''schemaVersion'' ''0.0'' meta)) (\<lambda>ver.
               if ver \<noteq> ''1.0'' \<and> ver \<noteq> ''1.1'' then Inl (UnsupportedSchema ver)
               else bindE (json_need (member_of ''points'' doc)) (\<lambda>points.
                    bindE (sim_loadPoints ulong_max (json_items points) \<lparr>st_bySlave = Map.empty, st_byName = Map.empty\<rparr>)
                      (\<lambda>t. Inr (index_names order t)))))))"

definition findByName :: "SimPointTable \<Rightarrow> string \<Rightarrow> SimPoint option" where
  "findByName t name = st_byName t name"

definition all_u8 :: "u8 list" where
  "all_u8 = map of_nat [0..<256]"

definition allSlaveIds :: "SimPointTable \<Rightarrow> u8 list" where
  "allSlaveIds t = filter (\<lambda>s. st_bySlave t s \<noteq> None) all_u8"

definition sim_slaveCount :: "SimPointTable \<Rightarrow> nat" where
  "sim_slaveCount t = length (allSlaveIds t)"

definition sim_pointCount :: "SimPointTable \<Rightarrow> nat" where
  "sim_pointCount t = sum_list (map (\<lambda>s. length (onSlave t s)) (allSlaveIds t))"

definition hasHoldingAt :: "SimPointTable \<Rightarrow> u8 \<Rightarrow> u16 \<Rightarrow> bool" where
  "hasHoldingAt t slave addr \<longleftrightarrow>
     list_ex (\<lambda>p. sp_regType p = HoldingRegister \<and> sp_registerAddr p = addr) (onSlave t slave)"

section \<open>The code: the configuration\<close>

record SlaveSpec =
  ss_slaveId :: u8
  ss_kind :: DeviceKind
  ss_transport :: SimTransport
  ss_regCount :: u16

record SimConfig =
  sc_tcpEnabled :: bool
  sc_bindIp :: string
  sc_tcpPort :: u16
  sc_rtuEnabled :: bool
  sc_rtuDev :: string
  sc_baudRate :: u32
  sc_tickMs :: u32
  sc_seed :: u32
  sc_slaves :: "SlaveSpec list"
  sc_pointtablePath :: string
  sc_scenarioPath :: string
  sc_exportDir :: string

definition slaveSpec_new :: SlaveSpec where
  "slaveSpec_new = \<lparr>ss_slaveId = 0, ss_kind = Bms, ss_transport = SimTcp, ss_regCount = 0\<rparr>"

definition simConfig_new :: SimConfig where
  "simConfig_new = \<lparr>sc_tcpEnabled = True, sc_bindIp = ''127.0.0.1'', sc_tcpPort = 5020, sc_rtuEnabled = True,
     sc_rtuDev = ''COM4'', sc_baudRate = 115200, sc_tickMs = 100, sc_seed = 0, sc_slaves = [],
     sc_pointtablePath = ''data/sim_pointtable_sample.json'', sc_scenarioPath = [], sc_exportDir = []\<rparr>"

definition kind_of_name :: "string \<Rightarrow> DeviceKind" where
  "kind_of_name s =
     (if s = ''Bms'' then Bms else if s = ''Pcs'' then Pcs else if s = ''Meter'' then Meter
      else if s = ''Liquid'' then Liquid else if s = ''Fire'' then Fire else ss_kind slaveSpec_new)"

definition parse_slave :: "json \<Rightarrow> SlaveSpec option" where
  "parse_slave js =
     Option.bind (j_at get_word ''slaveId'' js) (\<lambda>sid.
     Option.bind (j_value get_string ''kind'' ''Bms'' js) (\<lambda>kind.
     Option.bind (j_value get_string ''transport'' ''Tcp'' js) (\<lambda>tr.
     Option.bind (j_value get_word ''regCount'' (0 :: u32) js) (\<lambda>count.
       Some \<lparr>ss_slaveId = sid, ss_kind = kind_of_name kind,
             ss_transport = (if tr = ''Rtu'' then SimRtu else SimTcp), ss_regCount = ucast count\<rparr>))))"

fun parse_slaves :: "json list \<Rightarrow> SlaveSpec list option" where
  "parse_slaves [] = Some []"
| "parse_slaves (js # rest) =
     Option.bind (parse_slave js) (\<lambda>s. map_option (\<lambda>ss. s # ss) (parse_slaves rest))"

definition parse_tcp :: "json \<Rightarrow> SimConfig \<Rightarrow> SimConfig option" where
  "parse_tcp t cfg =
     Option.bind (j_value get_bool ''enabled'' True t) (\<lambda>enabled.
     Option.bind (j_value get_string ''bindIp'' ''127.0.0.1'' t) (\<lambda>ip.
     Option.bind (j_value (get_int 32) ''port'' 5020 t) (\<lambda>port.
       Some (cfg\<lparr>sc_tcpEnabled := enabled, sc_bindIp := ip, sc_tcpPort := word_of_int port\<rparr>))))"

definition parse_rtu :: "json \<Rightarrow> SimConfig \<Rightarrow> SimConfig option" where
  "parse_rtu r cfg =
     Option.bind (j_value get_bool ''enabled'' True r) (\<lambda>enabled.
     Option.bind (j_value get_string ''dev'' ''COM4'' r) (\<lambda>dev.
     Option.bind (j_value (get_int 32) ''baudRate'' 115200 r) (\<lambda>baud.
       Some (cfg\<lparr>sc_rtuEnabled := enabled, sc_rtuDev := dev, sc_baudRate := word_of_int baud\<rparr>))))"

text \<open>\<open>SimConfig::loadFromJsonFile\<close>; \<open>None\<close> is an exception.\<close>

definition simConfig_load :: "(string \<Rightarrow> json option) \<Rightarrow> string option \<Rightarrow> SimConfig option" where
  "simConfig_load parse file =
     Option.bind file (\<lambda>content.
     Option.bind (parse content) (\<lambda>doc.
     Option.bind (case member_of ''tcp'' doc of None \<Rightarrow> Some simConfig_new | Some t \<Rightarrow> parse_tcp t simConfig_new) (\<lambda>cfg1.
     Option.bind (case member_of ''rtu'' doc of None \<Rightarrow> Some cfg1 | Some r \<Rightarrow> parse_rtu r cfg1) (\<lambda>cfg2.
     Option.bind (j_value get_word ''tickMs'' 100 doc) (\<lambda>tickMs.
     Option.bind (j_value get_word ''seed'' 0 doc) (\<lambda>seed.
     Option.bind (j_value get_string ''pointtablePath'' ''data/sim_pointtable_sample.json'' doc) (\<lambda>path.
     Option.bind (case member_of ''slaves'' doc of None \<Rightarrow> Some [] | Some js \<Rightarrow> parse_slaves (json_items js)) (\<lambda>slaves.
       Some (cfg2\<lparr>sc_tickMs := tickMs, sc_seed := seed, sc_slaves := slaves, sc_pointtablePath := path\<rparr>)))))))))"

definition spec :: "DeviceKind \<Rightarrow> SimTransport \<Rightarrow> u16 \<Rightarrow> nat \<Rightarrow> SlaveSpec" where
  "spec kind tr regs sid = \<lparr>ss_slaveId = of_nat sid, ss_kind = kind, ss_transport = tr, ss_regCount = regs\<rparr>"

definition defaultsFullTopology :: "u32 \<Rightarrow> SimConfig" where
  "defaultsFullTopology seed = simConfig_new\<lparr>sc_seed := seed, sc_slaves :=
     map (spec Bms SimTcp 256) [1..<17] @ map (spec Pcs SimTcp 64) [17..<21] @
     [spec Meter SimTcp 32 21, spec Liquid SimRtu 64 22, spec Fire SimRtu 64 23]\<rparr>"

text \<open>\<open>find(pat) != npos\<close>\<close>

fun has_sub :: "string \<Rightarrow> string \<Rightarrow> bool" where
  "has_sub pat [] = (pat = [])"
| "has_sub pat (c # cs) = (take (length pat) (c # cs) = pat \<or> has_sub pat cs)"

text \<open>A suffix test: \<open>compare(size() - n, n, suf) == 0\<close>, or \<open>rfind\<close> at that place.\<close>

definition ends_with :: "string \<Rightarrow> string \<Rightarrow> bool" where
  "ends_with suf s \<longleftrightarrow> length suf \<le> length s \<and> drop (length s - length suf) s = suf"

text \<open>The three flags of \<open>fromPointTable\<close> after the points \<open>v\<close>.\<close>

definition pcs_like :: "string \<Rightarrow> bool" where
  "pcs_like n \<longleftrightarrow> has_sub ''PCS_'' n \<or> has_sub ''Pcs'' n"

definition meter_like :: "string \<Rightarrow> bool" where
  "meter_like n \<longleftrightarrow> \<not> pcs_like n \<and> (has_sub ''Meter'' n \<or> has_sub ''ActiveP'' n \<or> has_sub ''TotalE'' n)"

definition aux_like :: "string \<Rightarrow> bool" where
  "aux_like n \<longleftrightarrow> \<not> pcs_like n \<and> \<not> meter_like n \<and> (has_sub ''Liquid'' n \<or> has_sub ''Fire'' n)"

definition config_kind :: "SimPoint list \<Rightarrow> DeviceKind" where
  "config_kind v =
     (if list_ex (\<lambda>p. pcs_like (sp_pointName p)) v then Pcs
      else if list_ex (\<lambda>p. meter_like (sp_pointName p)) v then Meter
      else if list_ex (\<lambda>p. aux_like (sp_pointName p)) v
      then (if has_sub ''Liquid'' (sp_pointName (v ! 0)) then Liquid else Fire)
      else Bms)"

definition max_addr :: "SimPoint list \<Rightarrow> u16" where
  "max_addr v = foldl (\<lambda>m p. if sp_registerAddr p > m then sp_registerAddr p else m) 0 v"

definition spec_of_slave :: "SimPointTable \<Rightarrow> u8 \<Rightarrow> SlaveSpec" where
  "spec_of_slave t sid =
     \<lparr>ss_slaveId = sid, ss_kind = config_kind (onSlave t sid),
      ss_transport = (if sid = 22 \<or> sid = 23 then SimRtu else SimTcp),
      ss_regCount = max_addr (onSlave t sid) + 16\<rparr>"

definition fromPointTable :: "SimPointTable \<Rightarrow> SlaveSpec list" where
  "fromPointTable t = map (spec_of_slave t) (allSlaveIds t)"

section \<open>What the loader returns\<close>

text \<open>The table over the points of the document, in its order.\<close>

definition sim_table_of :: "SimPoint list \<Rightarrow> SimPointTable \<Rightarrow> bool" where
  "sim_table_of ps t \<longleftrightarrow>
     (\<forall>s. st_bySlave t s =
        (let v = filter (\<lambda>p. sp_slaveAddress p = s) ps in if v = [] then None else Some v))"

lemma onSlave_table: "sim_table_of ps t \<Longrightarrow> onSlave t s = filter (\<lambda>p. sp_slaveAddress p = s) ps"
  by (auto simp: sim_table_of_def onSlave_def Let_def split: option.splits)

lemma push_point_table: "sim_table_of ps t \<Longrightarrow> sim_table_of (ps @ [p]) (push_point p t)"
  using onSlave_table [of ps t] by (auto simp: sim_table_of_def push_point_def Let_def)

lemma sim_loadPoints_table:
  "map (sim_parsePoint m) jps = map Inr qs \<Longrightarrow> sim_table_of ps t \<Longrightarrow>
    \<exists>t'. sim_loadPoints m jps t = Inr t' \<and> sim_table_of (ps @ qs) t'"
proof (induction jps arbitrary: ps qs t)
  case (Cons jp jps)
  then obtain q qs' where q: "qs = q # qs'" "sim_parsePoint m jp = Inr q" "map (sim_parsePoint m) jps = map Inr qs'"
    by (cases qs) auto
  from Cons.IH [OF q(3) push_point_table [OF Cons.prems(2), of q]] show ?case using q by simp
qed simp

lemma mem_all_u8 [simp]: "s \<in> set all_u8"
proof -
  have "s = of_nat (unat s)" by simp
  moreover have "unat s \<in> set [0..<256]" by simp
  ultimately show ?thesis unfolding all_u8_def set_map by (rule image_eqI)
qed

lemma set_allSlaveIds: "sim_table_of ps t \<Longrightarrow> set (allSlaveIds t) = sp_slaveAddress ` set ps"
  by (auto simp: allSlaveIds_def sim_table_of_def Let_def filter_empty_conv)

lemma sim_table_of_index [simp]: "sim_table_of ps (index_names order t) = sim_table_of ps t"
  by (simp add: sim_table_of_def index_names_def)

section \<open>Both loaders read one file alike\<close>

definition sim_of :: "PointRuntime \<Rightarrow> SimPoint" where
  "sim_of p = \<lparr>sp_pointId = pr_pointId p, sp_pointName = pr_pointName p, sp_slaveAddress = pr_slaveAddress p,
     sp_regType = pr_regType p, sp_dataType = pr_dataType p, sp_byteOrder = pr_byteOrder p,
     sp_registerAddr = pr_registerAddr p, sp_scaleFactor = pr_scaleFactor p, sp_offset = pr_offset p,
     sp_unit = pr_unit p, sp_enabled = pr_enabled p\<rparr>"

text \<open>An address as a string is read alike unless \<open>0x\<close> is followed by no digit, a sign, white space or a
  second \<open>0x\<close>.\<close>

fun plain_addr :: "json \<Rightarrow> bool" where
  "plain_addr (JString s) \<longleftrightarrow>
     (length s \<ge> 2 \<and> s ! 0 = CHR ''0'' \<and> s ! 1 \<in> {CHR ''x'', CHR ''X''} \<longrightarrow>
       length s > 2 \<and> digit_value 16 (s ! 2) \<noteq> None \<and> skip_0x 16 (drop 2 s) = drop 2 s)"
| "plain_addr j \<longleftrightarrow> True"

definition plain_point :: "json \<Rightarrow> bool" where
  "plain_point j \<longleftrightarrow> (\<forall>a. member_of ''registerAddr'' j = Some a \<longrightarrow> plain_addr a)"

lemma sim_names: "sim_parseRegisterType = parseRegType" "sim_parseDataType = parseDataType"
  "sim_parseByteOrder = parseByteOrder"
  by (auto simp: fun_eq_iff sim_parseRegisterType_def parseRegType_def sim_parseDataType_def parseDataType_def
      sim_parseByteOrder_def parseByteOrder_def)

lemma hex_digit_plain:
  assumes "digit_value 16 c \<noteq> None"
  shows "\<not> is_space c" and "c \<noteq> CHR ''-''" and "c \<noteq> CHR ''+''"
  using assms by (auto simp: digit_value_def is_space_def Let_def)

lemma stoul_no_prefix:
  assumes "s \<noteq> []" and "digit_value 16 (hd s) \<noteq> None"
  shows "stoul m 16 s =
    (let v = foldl (\<lambda>a d. a * 16 + d) 0 (digits 16 (skip_0x 16 s))
     in if digits 16 (skip_0x 16 s) = [] \<or> v > m then None else Some v)"
  using assms hex_digit_plain [OF assms(2)] by (cases s) (simp_all add: stoul_def Let_def)

lemma stoul_prefix:
  assumes "length s > 2" and "s ! 0 = CHR ''0''" and "s ! 1 \<in> {CHR ''x'', CHR ''X''}"
    and "digit_value 16 (s ! 2) \<noteq> None" and "skip_0x 16 (drop 2 s) = drop 2 s"
  shows "stoul m 16 s = stoul m 16 (drop 2 s)"
proof -
  have "s \<noteq> []" and "hd s = CHR ''0''" using assms(1,2) by (cases s; simp)+
  then have "s \<noteq> []" and "digit_value 16 (hd s) \<noteq> None" by (simp_all add: digit_value_def)
  then have "stoul m 16 s = (let v = foldl (\<lambda>a d. a * 16 + d) 0 (digits 16 (skip_0x 16 s))
     in if digits 16 (skip_0x 16 s) = [] \<or> v > m then None else Some v)"
    by (rule stoul_no_prefix)
  also have "skip_0x 16 s = drop 2 s" using assms(1-4) by (simp add: skip_0x_def)
  also have "stoul m 16 (drop 2 s) = (let v = foldl (\<lambda>a d. a * 16 + d) 0 (digits 16 (drop 2 s))
     in if digits 16 (drop 2 s) = [] \<or> v > m then None else Some v)"
    using assms(1,4) stoul_no_prefix [of "drop 2 s" m] assms(5) by (simp add: hd_drop_conv_nth)
  ultimately show ?thesis by simp
qed

lemma registerAddr_agree:
  assumes "plain_addr j" and "parseRegisterAddr m j = Inr a"
  shows "sim_registerAddr m j = Inr a"
proof (cases j)
  case (JString s)
  then show ?thesis
    using assms stoul_prefix [of s m]
    by (auto simp: parseRegisterAddr_def sim_registerAddr_def parseHexOrDec_def Let_def split: option.splits if_splits)
qed (use assms in \<open>auto simp: parseRegisterAddr_def sim_registerAddr_def json_need_def\<close>)

lemma json_need_Inr [simp]: "json_need v = Inr x \<longleftrightarrow> v = Some x"
  by (simp add: json_need_def split: option.splits)

lemma j_value_default: "j_at get k j = Some v \<Longrightarrow> j_value get k d j = Some v"
  by (cases j) (auto simp: j_at_def j_value_def split: option.splits)

lemma parsePoint_agree:
  assumes "plain_point j" and "parsePoint m j = Inr p"
  shows "sim_parsePoint m j = Inr (sim_of p)"
proof -
  from assms(2) obtain rt dt order where
    eqs: "j_at get_word ''pointId'' j = Some (pr_pointId p)" "j_at get_word ''slaveAddress'' j = Some (pr_slaveAddress p)"
      "j_at get_string ''regType'' j = Some rt" "parseRegType rt = Inr (pr_regType p)"
      "j_at get_string ''dataType'' j = Some dt" "parseDataType dt = Inr (pr_dataType p)"
      "j_at get_string ''byteOrder'' j = Some order" "parseByteOrder order = Inr (pr_byteOrder p)"
      "j_value get_float ''scaleFactor'' (Fin 1) j = Some (pr_scaleFactor p)"
      "j_value get_float ''offset'' (Fin 0) j = Some (pr_offset p)"
      "j_value get_bool ''enabled'' True j = Some (pr_enabled p)"
      "j_value get_string ''pointName'' [] j = Some (pr_pointName p)"
      "j_value get_string ''unit'' [] j = Some (pr_unit p)"
    and "\<exists>a. member_of ''registerAddr'' j = Some a \<and> parseRegisterAddr m a = Inr (pr_registerAddr p)"
    unfolding parsePoint_def bindE_Inr json_need_Inr by fastforce
  then obtain a where a: "member_of ''registerAddr'' j = Some a" "parseRegisterAddr m a = Inr (pr_registerAddr p)" by blast
  from a(1) assms(1) have "plain_addr a" by (simp add: plain_point_def)
  from registerAddr_agree [OF this a(2)] have addr: "sim_registerAddr m a = Inr (pr_registerAddr p)" .
  note defaults = eqs(5,7) [THEN j_value_default]
  show ?thesis
    unfolding sim_parsePoint_def sim_names bindE_Inr json_need_Inr eqs(1-3,9-13) defaults a(1)
    by (simp add: addr eqs(4,6,8) json_need_def sim_of_def)
qed

lemma points_agree:
  "map (parsePoint m) pjs = map Inr ps \<Longrightarrow> \<forall>pj \<in> set pjs. plain_point pj \<Longrightarrow>
    map (sim_parsePoint m) pjs = map Inr (map sim_of ps)"
proof (induction pjs arbitrary: ps)
  case (Cons pj pjs)
  then obtain p qs where "ps = p # qs" "parsePoint m pj = Inr p" "map (parsePoint m) pjs = map Inr qs" by (cases ps) auto
  then show ?case using Cons.IH [of qs] Cons.prems(2) parsePoint_agree [of pj m p] by simp
qed simp

lemma sim_load_doc:
  assumes "parse content = Some doc" and "Option.bind (member_of ''meta'' doc) (member_of ''schemaVersion'') = Some (JString sv)"
    and "sv = ''1.0'' \<or> sv = ''1.1''" and "member_of ''points'' doc = Some (JArray pjs)"
    and "map (sim_parsePoint m) pjs = map Inr qs"
  shows "\<exists>st. sim_loadTable parse m order (Some content) = Inr st \<and> sim_table_of qs st"
proof -
  obtain meta where meta: "member_of ''meta'' doc = Some meta" "member_of ''schemaVersion'' meta = Some (JString sv)"
    using assms(2) by (auto simp: bind_eq_Some_conv)
  have "j_value Some ''meta'' (JObject []) doc = Some meta" using meta(1) by (cases doc) (simp_all add: j_value_def)
  moreover have "j_value get_string ''schemaVersion'' ''0.0'' meta = Some sv"
    using meta(2) by (cases meta) (simp_all add: j_value_def)
  moreover have "sim_table_of [] \<lparr>st_bySlave = Map.empty, st_byName = Map.empty\<rparr>" by (simp add: sim_table_of_def)
  from sim_loadPoints_table [OF assms(5) this] obtain st
    where "sim_loadPoints m pjs \<lparr>st_bySlave = Map.empty, st_byName = Map.empty\<rparr> = Inr st" "sim_table_of qs st" by auto
  ultimately show ?thesis using assms(1,3,4) by (auto simp: sim_loadTable_def json_need_def)
qed

lemma same_points:
  assumes "loadFromJsonFile parse m rank (Some content) = Inr t" and "parse content = Some doc"
    and "member_of ''points'' doc = Some (JArray pjs)" and "\<forall>pj \<in> set pjs. plain_point pj"
  shows "\<exists>ps st. map (parsePoint m) pjs = map Inr ps \<and> mset (allPoints t) = mset ps
    \<and> sim_loadTable parse m order (Some content) = Inr st
    \<and> (\<forall>s. onSlave st s = map sim_of (filter (\<lambda>p. pr_slaveAddress p = s) ps))
    \<and> (\<forall>s. set (onSlave st s) = sim_of ` set (allOnSlave t s))
    \<and> set (allSlaveIds st) = pr_slaveAddress ` set (allPoints t)"
proof -
  from assms(1) obtain doc' sv pjs' ps t0 where d: "parse content = Some doc'"
    "Option.bind (member_of ''meta'' doc') (member_of ''schemaVersion'') = Some (JString sv)"
    "sv = ''1.0'' \<or> sv = ''1.1''" "member_of ''points'' doc' = Some (JArray pjs')"
    "map (parsePoint m) pjs' = map Inr ps" and t: "table_of ps t0" "t = hashOrder rank (sortSlaves t0)"
    by (rule load_document)
  have same: "doc' = doc" "pjs' = pjs" using d(1,4) assms(2,3) by simp_all
  have "map (sim_parsePoint m) pjs' = map Inr (map sim_of ps)" using points_agree [OF d(5)] assms(4) same by simp
  from sim_load_doc [where qs = "map sim_of ps" and parse = parse and content = content, OF d(1-4) this] obtain st where
    st: "sim_loadTable parse m order (Some content) = Inr st" "sim_table_of (map sim_of ps) st" by blast
  have all: "mset (allPoints t) = mset ps" by (rule loaded_same(4) [OF t])
  then have sets: "set (allPoints t) = set ps" by (metis set_mset_mset)
  have slave: "sp_slaveAddress (sim_of p) = pr_slaveAddress p" for p by (simp add: sim_of_def)
  have on: "onSlave st s = map sim_of (filter (\<lambda>p. pr_slaveAddress p = s) ps)" for s
    by (simp add: onSlave_table [OF st(2)] filter_map comp_def slave)
  moreover have "set (onSlave st s) = sim_of ` set (allOnSlave t s)" for s
    by (auto simp: on loaded_table(4) [OF t])
  moreover have "set (allSlaveIds st) = pr_slaveAddress ` set (allPoints t)"
    by (simp add: set_allSlaveIds [OF st(2)] sets image_image slave)
  moreover have "map (parsePoint m) pjs = map Inr ps" using d(5) same(2) by simp
  ultimately show ?thesis using st(1) all by (intro exI [of _ ps] exI [of _ st] conjI allI)
qed

text \<open>Property C33: the simulator sees the points of the program. A point table file whose addresses are
  numbers or plain strings and that the program loads is loaded by the simulator as well, and on every
  slave the simulator has exactly the points of the program, in the order of the document (the program
  walks its own in the order of its hash map), with the id, name, register, data type, byte order, scale
  and offset the program has; so the values the simulator writes are where the program reads them. Other
  addresses can differ: the program reads \<open>0x\<close> without a digit as 0, which the simulator refuses.\<close>

theorem loaders_agree:
  assumes "loadFromJsonFile parse m rank (Some content) = Inr t" and "parse content = Some doc"
    and "member_of ''points'' doc = Some (JArray pjs)" and "\<forall>pj \<in> set pjs. plain_point pj"
  shows "\<exists>ps st. map (parsePoint m) pjs = map Inr ps \<and> mset (allPoints t) = mset ps
    \<and> sim_loadTable parse m order (Some content) = Inr st
    \<and> (\<forall>s. onSlave st s = map sim_of (filter (\<lambda>p. pr_slaveAddress p = s) ps))
    \<and> (\<forall>s. set (onSlave st s) = sim_of ` set (allOnSlave t s))
    \<and> set (allSlaveIds st) = pr_slaveAddress ` set (allPoints t)"
  by (rule same_points [OF assms])

theorem loaders_agree_witness:
  "\<exists>st. sim_loadTable (\<lambda>_. Some demo_table_json) 4294967295 [3] (Some []) = Inr st \<and>
    onSlave st 3 = [sim_of (demo_point 7 16), sim_of (demo_point 8 4)] \<and> set (allSlaveIds st) = {3}"
proof -
  obtain t where t: "demo_load = Inr t" "allPoints t = [demo_point 7 16, demo_point 8 4]"
    using demo_load_points by auto
  let ?pjs = "[demo_point_json 7 (JInt 16), demo_point_json 8 (JInt 4)]"
  have pjs: "member_of ''points'' demo_table_json = Some (JArray ?pjs)" by (simp add: demo_table_json_def)
  have plain: "\<forall>pj \<in> set ?pjs. plain_point pj" by (simp add: plain_point_def demo_point_json_def)
  from loaders_agree [OF t(1) [unfolded demo_load_def] refl pjs plain, where order = "[3]"] obtain ps st
    where ps: "map (parsePoint 4294967295) ?pjs = map Inr ps"
      and st: "sim_loadTable (\<lambda>_. Some demo_table_json) 4294967295 [3] (Some []) = Inr st"
      and on: "\<forall>s. onSlave st s = map sim_of (filter (\<lambda>p. pr_slaveAddress p = s) ps)"
      and ids: "set (allSlaveIds st) = pr_slaveAddress ` set (allPoints t)"
    by (elim exE conjE) (rule that)
  have "ps = [demo_point 7 16, demo_point 8 4]" using ps by (auto simp: demo_parse)
  with st on ids show ?thesis by (intro exI [of _ st]) (simp add: t(2) demo_fields)
qed

section \<open>The registers cover the points\<close>

lemma max_addr_start: "m \<le> foldl (\<lambda>m p. if sp_registerAddr p > m then sp_registerAddr p else m) m v"
proof (induction v arbitrary: m)
  case (Cons p v)
  show ?case using Cons.IH [of "sp_registerAddr p"] Cons.IH [of m] by (auto intro: order_trans less_imp_le)
qed simp

lemma max_addr_foldl: "p \<in> set v \<Longrightarrow> sp_registerAddr p \<le> foldl (\<lambda>m p. if sp_registerAddr p > m then sp_registerAddr p else m) m v"
proof (induction v arbitrary: m)
  case (Cons q v)
  show ?case
  proof (cases "p = q")
    case True
    then show ?thesis
      using max_addr_start [of "sp_registerAddr q" v] max_addr_start [of m v] by (auto simp: not_less)
  next
    case False
    then show ?thesis using Cons by simp
  qed
qed simp

lemma max_addr_ge: "p \<in> set v \<Longrightarrow> sp_registerAddr p \<le> max_addr v"
  unfolding max_addr_def by (rule max_addr_foldl)

text \<open>The derived register count lies beyond every point of the slave, unless the highest address is above
  65519: then the count wraps around, down to 0 and up to 15.\<close>

lemma derived_count_covers:
  assumes "p \<in> set (onSlave t s)" and "max_addr (onSlave t s) < 65520"
  shows "unat (sp_registerAddr p) + 16 \<le> unat (ss_regCount (spec_of_slave t s))"
proof -
  have "unat (max_addr (onSlave t s)) < 65520" using assms(2) by (simp add: word_less_nat_alt)
  then have "unat (max_addr (onSlave t s) + 16) = unat (max_addr (onSlave t s)) + 16"
    by (subst unat_plus_if') simp
  with max_addr_ge [OF assms(1)] show ?thesis by (simp add: spec_of_slave_def word_le_nat_alt)
qed

lemma derived_count_wraps:
  assumes "65520 \<le> max_addr (onSlave t s)"
  shows "ss_regCount (spec_of_slave t s) < 16"
proof -
  have "65520 \<le> unat (max_addr (onSlave t s))" using assms by (simp add: word_le_nat_alt)
  then have "unat (max_addr (onSlave t s) + 16) < 16"
    using unat_u16_less [of "max_addr (onSlave t s)"] by (subst unat_plus_if') (simp del: unat_u16_less)
  then show ?thesis by (simp add: spec_of_slave_def word_less_nat_alt)
qed

end
