(* ===== verification/SimGen.thy ===== *)
theory SimGen
  imports SimPoints FaultInjector
begin

text \<open>
  The generator of register values, \<^verbatim>\<open>apps/device_simulator/src/sim/point_generator.h\<close> and
  \<^verbatim>\<open>.cpp\<close>: a physical model per device, the overlay of faults, the alarm word and the publication of
  a snapshot per slave. \<open>double\<close> arithmetic is rounded by \<open>round64\<close>, \<open>float\<close> arithmetic by
  \<open>round32\<close>. The random generator is seeded and never drawn from, so it is not part of the state.
  The bank and the injector are pointers in the code and come and go with the call here; \<open>None\<close> is a
  null pointer. The conversion of a NaN to an integer, undefined in C++, is 0 here; the theorem
  about the published values speaks of finite ones.
\<close>

section \<open>The code: constants and state\<close>

record PhysicsConstants =
  ph_k_heat :: fl
  ph_R_int :: fl
  ph_k_cool :: fl
  ph_T_amb :: fl
  ph_pcsLineV0 :: fl
  ph_pcsFreqHz0 :: fl
  ph_capacity_ah :: fl
  ph_pcsActiveKwSetpoint :: fl
  ph_pcsReactiveKvarSetpoint :: fl
  ph_bmsCurrentA_setpoint :: fl

definition physics_default :: PhysicsConstants where
  "physics_default = \<lparr>ph_k_heat = round64 (8 / 10000), ph_R_int = round64 (5 / 1000), ph_k_cool = round64 (2 / 100),
     ph_T_amb = Fin 25, ph_pcsLineV0 = Fin 400, ph_pcsFreqHz0 = Fin 50, ph_capacity_ah = Fin 280,
     ph_pcsActiveKwSetpoint = Fin 0, ph_pcsReactiveKvarSetpoint = Fin 0, ph_bmsCurrentA_setpoint = Fin 0\<rparr>"

definition kOcvTableSocPct :: "fl list" where
  "kOcvTableSocPct = [Fin 0, Fin 5, Fin 10, Fin 20, Fin 30, Fin 40, Fin 50, Fin 60, Fin 70, Fin 80, Fin 90, Fin 100]"

definition kOcvTableVolts :: "fl list" where
  "kOcvTableVolts = map round64 [250 / 100, 280 / 100, 300 / 100, 320 / 100, 326 / 100, 328 / 100,
     330 / 100, 332 / 100, 335 / 100, 340 / 100, 345 / 100, 365 / 100]"

record SlaveRuntimeState =
  rs_soc_pct :: fl
  rs_soh_pct :: fl
  rs_max_temp_c :: fl
  rs_avg_temp_c :: fl
  rs_total_v :: fl
  rs_current_a :: fl
  rs_pcs_active_kw :: fl
  rs_pcs_reactive_kvar :: fl
  rs_pcs_line_v :: fl
  rs_pcs_freq_hz :: fl
  rs_aux_status :: fl

definition runtime_new :: SlaveRuntimeState where
  "runtime_new = \<lparr>rs_soc_pct = Fin 80, rs_soh_pct = Fin 99, rs_max_temp_c = Fin 35, rs_avg_temp_c = Fin 33,
     rs_total_v = Fin 0, rs_current_a = Fin 0, rs_pcs_active_kw = Fin 0, rs_pcs_reactive_kvar = Fin 0,
     rs_pcs_line_v = Fin 400, rs_pcs_freq_hz = Fin 50, rs_aux_status = Fin 0\<rparr>"

record PointGenerator =
  pg_cfg :: SimConfig
  pg_pt :: SimPointTable
  pg_phy :: PhysicsConstants
  pg_state :: "u8 \<rightharpoonup> SlaveRuntimeState"
  pg_work :: "u8 \<rightharpoonup> SlaveRegset"
  pg_slaves :: "u8 list"
  pg_pcsRefSlave :: u8

text \<open>The first point whose name has one of the keywords decides.\<close>

fun inferKindFromName :: "SimPoint list \<Rightarrow> DeviceKind" where
  "inferKindFromName [] = Bms"
| "inferKindFromName (p # v) =
     (if has_sub ''PCS_'' (sp_pointName p) then Pcs
      else if has_sub ''Meter'' (sp_pointName p) then Meter
      else if has_sub ''Liquid'' (sp_pointName p) then Liquid
      else if has_sub ''Fire'' (sp_pointName p) then Fire
      else inferKindFromName v)"

definition work_new :: "SimPointTable \<Rightarrow> u8 \<Rightarrow> SlaveRegset" where
  "work_new t sid =
     (let cap = max (unat (max_addr (onSlave t sid)) + 16) 128 in SlaveRegset_allocate sid cap cap)"

text \<open>The constructor; \<open>None\<close> for a null point table, which throws.\<close>

definition generator_new :: "SimConfig \<Rightarrow> SimPointTable option \<Rightarrow> PhysicsConstants \<Rightarrow> PointGenerator option" where
  "generator_new cfg pt phy =
     map_option (\<lambda>t.
       let slaves = allSlaveIds t
       in \<lparr>pg_cfg = cfg, pg_pt = t, pg_phy = phy,
           pg_state = (\<lambda>s. if s \<in> set slaves then Some runtime_new else None),
           pg_work = (\<lambda>s. if s \<in> set slaves then Some (work_new t s) else None),
           pg_slaves = slaves,
           pg_pcsRefSlave = (case find (\<lambda>s. inferKindFromName (onSlave t s) = Pcs) slaves of
                               None \<Rightarrow> 0 | Some s \<Rightarrow> s)\<rparr>) pt"

section \<open>The code: arithmetic\<close>

definition fl_le :: "fl \<Rightarrow> fl \<Rightarrow> bool" where
  "fl_le a b \<longleftrightarrow> a \<noteq> NaN \<and> b \<noteq> NaN \<and> \<not> fl_less b a"

definition fl_sub :: "(rat \<Rightarrow> fl) \<Rightarrow> fl \<Rightarrow> fl \<Rightarrow> fl" where
  "fl_sub rnd a b = fl_add rnd a (fl_neg b)"

text \<open>\<open>std::clamp\<close> and \<open>std::round\<close>\<close>

definition fl_clamp :: "fl \<Rightarrow> fl \<Rightarrow> fl \<Rightarrow> fl" where
  "fl_clamp v lo hi = (if fl_less v lo then lo else if fl_less hi v then hi else v)"

definition round_away :: "rat \<Rightarrow> int" where
  "round_away x = (if x \<ge> 0 then \<lfloor>x + 1 / 2\<rfloor> else \<lceil>x - 1 / 2\<rceil>)"

fun fl_std_round :: "fl \<Rightarrow> fl" where
  "fl_std_round (Fin x) = Fin (of_int (round_away x))"
| "fl_std_round v = v"

fun cast_u16 :: "fl \<Rightarrow> u16" where
  "cast_u16 (Fin x) = word_of_int \<lfloor>x\<rfloor>"
| "cast_u16 _ = 0"

definition encodeFloat32AsHolding :: "fl \<Rightarrow> fl \<Rightarrow> u16" where
  "encodeFloat32AsHolding eng scale =
     (if scale = Fin 0 \<or> eng = NaN \<or> eng = PInf \<or> eng = NInf then 0
      else let raw = fl_std_round (fl_div round64 eng scale);
               raw1 = (if fl_less raw (Fin 0) then Fin 0 else raw);
               raw2 = (if fl_less (Fin 65535) raw1 then Fin 65535 else raw1)
           in cast_u16 raw2)"

definition decodeFloat32FromHolding :: "u16 \<Rightarrow> fl \<Rightarrow> fl" where
  "decodeFloat32FromHolding raw scale = fl_mul round32 (Fin (of_nat (unat raw))) scale"

fun ocv_scan :: "fl list \<Rightarrow> fl list \<Rightarrow> fl \<Rightarrow> fl option" where
  "ocv_scan (x0 # x1 # xs) (v0 # v1 # vs) soc =
     (if fl_le x0 soc \<and> fl_le soc x1
      then let t = fl_div round64 (fl_sub round64 soc x0) (fl_sub round64 x1 x0)
           in Some (fl_add round64 v0 (fl_mul round64 t (fl_sub round64 v1 v0)))
      else ocv_scan (x1 # xs) (v1 # vs) soc)"
| "ocv_scan _ _ soc = None"

definition ocvFromSoc :: "fl \<Rightarrow> fl" where
  "ocvFromSoc soc =
     (if fl_le soc (kOcvTableSocPct ! 0) then kOcvTableVolts ! 0
      else if fl_le (kOcvTableSocPct ! 11) soc then kOcvTableVolts ! 11
      else case ocv_scan kOcvTableSocPct kOcvTableVolts soc of Some v \<Rightarrow> v | None \<Rightarrow> kOcvTableVolts ! 11)"

definition totalVoltageFromOcv :: "fl \<Rightarrow> fl" where
  "totalVoltageFromOcv ocvV = ocvV"

section \<open>The code: the physical models\<close>

definition bms_step :: "PhysicsConstants \<Rightarrow> fl \<Rightarrow> SlaveRuntimeState \<Rightarrow> SlaveRuntimeState" where
  "bms_step phy dtS st =
     (let I = ph_bmsCurrentA_setpoint phy; cap = ph_capacity_ah phy; mul = fl_mul round64; sub = fl_sub round64;
          add = fl_add round64;
          dSoc = mul (fl_div round64 (fl_neg I) (mul cap (Fin 3600))) (Fin 100);
          newSoc = fl_clamp (add (rs_soc_pct st) (mul dSoc dtS)) (Fin 0) (Fin 100);
          Tavg = rs_avg_temp_c st;
          Qin = mul (mul (mul (ph_k_heat phy) I) I) (ph_R_int phy);
          Qout = mul (ph_k_cool phy) (sub Tavg (ph_T_amb phy));
          avg = add Tavg (mul (sub Qin Qout) dtS)
      in st\<lparr>rs_soc_pct := newSoc, rs_max_temp_c := add avg (Fin 1), rs_avg_temp_c := avg,
            rs_total_v := totalVoltageFromOcv (ocvFromSoc newSoc), rs_current_a := I\<rparr>)"

definition bms_value :: "SlaveRuntimeState \<Rightarrow> string \<Rightarrow> fl option" where
  "bms_value st n =
     (if has_sub ''SOC'' n then Some (rs_soc_pct st)
      else if has_sub ''SOH'' n then Some (rs_soh_pct st)
      else if has_sub ''MaxTemp'' n then Some (rs_max_temp_c st)
      else if has_sub ''AvgTemp'' n then Some (rs_avg_temp_c st)
      else if has_sub ''TotalVolt'' n \<or> has_sub ''TotalV'' n then Some (rs_total_v st)
      else if has_sub ''Current'' n then Some (rs_current_a st)
      else None)"

definition encode_point :: "SimPoint \<Rightarrow> fl \<Rightarrow> u16" where
  "encode_point p eng = encodeFloat32AsHolding (to_float eng) (sp_scaleFactor p)"

text \<open>The loop of \<open>evolveBms\<close> and \<open>evolvePcs\<close> over the points of the slave.\<close>

definition write_named :: "(string \<Rightarrow> fl option) \<Rightarrow> SimPoint \<Rightarrow> SlaveRegset \<Rightarrow> SlaveRegset" where
  "write_named val p work =
     (if \<not> sp_enabled p \<or> sp_regType p \<noteq> HoldingRegister then work
      else case val (sp_pointName p) of None \<Rightarrow> work
           | Some eng \<Rightarrow> setHolding work (sp_registerAddr p) (encode_point p eng))"

definition evolveBms ::
  "PhysicsConstants \<Rightarrow> fl \<Rightarrow> SimPoint list \<Rightarrow> SlaveRuntimeState \<times> SlaveRegset \<Rightarrow> SlaveRuntimeState \<times> SlaveRegset" where
  "evolveBms phy dtS v sw =
     (let st = bms_step phy dtS (fst sw) in (st, fold (write_named (bms_value st)) v (snd sw)))"

definition pcs_step :: "PhysicsConstants \<Rightarrow> SlaveRuntimeState \<Rightarrow> SlaveRuntimeState" where
  "pcs_step phy st = st\<lparr>rs_pcs_active_kw := ph_pcsActiveKwSetpoint phy,
     rs_pcs_reactive_kvar := ph_pcsReactiveKvarSetpoint phy, rs_pcs_line_v := ph_pcsLineV0 phy,
     rs_pcs_freq_hz := ph_pcsFreqHz0 phy\<rparr>"

definition pcs_value :: "SlaveRuntimeState \<Rightarrow> string \<Rightarrow> fl option" where
  "pcs_value st n =
     (if has_sub ''ActiveP'' n then Some (rs_pcs_active_kw st)
      else if has_sub ''ReactiveP'' n then Some (rs_pcs_reactive_kvar st)
      else if has_sub ''LineV'' n then Some (rs_pcs_line_v st)
      else if has_sub ''Freq'' n then Some (rs_pcs_freq_hz st)
      else None)"

definition evolvePcs ::
  "PhysicsConstants \<Rightarrow> SimPoint list \<Rightarrow> SlaveRuntimeState \<times> SlaveRegset \<Rightarrow> SlaveRuntimeState \<times> SlaveRegset" where
  "evolvePcs phy v sw =
     (let st = pcs_step phy (fst sw) in (st, fold (write_named (pcs_value st)) v (snd sw)))"

definition write_word :: "SimPoint \<Rightarrow> u16 \<Rightarrow> SlaveRegset \<Rightarrow> SlaveRegset" where
  "write_word p raw work =
     (if sp_regType p = HoldingRegister then setHolding work (sp_registerAddr p) raw
      else if sp_regType p = InputRegister then setInput work (sp_registerAddr p) raw
      else work)"

definition meter_point :: "fl \<Rightarrow> SimPoint \<Rightarrow> SlaveRegset \<Rightarrow> SlaveRegset" where
  "meter_point refKw p work =
     (if \<not> sp_enabled p then work
      else let eng = (if has_sub ''ActiveP'' (sp_pointName p) \<or> has_sub ''TotalE'' (sp_pointName p)
                      then refKw else Fin 1)
           in write_word p (encode_point p eng) work)"

definition evolveMeter :: "fl \<Rightarrow> SimPoint list \<Rightarrow> SlaveRegset \<Rightarrow> SlaveRegset" where
  "evolveMeter refKw v work = fold (meter_point refKw) v work"

definition aux_point :: "SimPoint \<Rightarrow> SlaveRegset \<Rightarrow> SlaveRegset" where
  "aux_point p work =
     (if \<not> sp_enabled p then work
      else let eng = (if has_sub ''Alarm'' (sp_pointName p) then Fin 0 else Fin 25)
           in if sp_regType p = Coil then setCoil work (sp_registerAddr p) (eng \<noteq> Fin 0)
              else if sp_regType p = DiscreteInput then setDiscrete work (sp_registerAddr p) (eng \<noteq> Fin 0)
              else write_word p (encode_point p eng) work)"

definition evolveAux :: "SimPoint list \<Rightarrow> SlaveRegset \<Rightarrow> SlaveRegset" where
  "evolveAux v work = fold aux_point v work"

section \<open>The code: faults, alarm word, publication\<close>

text \<open>The bit of an active fault in the alarm word.\<close>

definition alarm_bits :: "FaultEffect \<Rightarrow> u16" where
  "alarm_bits eff =
     (if ef_type eff = OverTemp then 1
      else if ef_type eff = CellVoltage then push_bit (if ef_value eff > 0 then 1 else 2) 1
      else 0)"

definition overlay_raw :: "SimPoint \<Rightarrow> rat \<Rightarrow> u16" where
  "overlay_raw p v =
     (let scale = (if fl_ne (sp_scaleFactor p) (Fin 0) then sp_scaleFactor p else Fin 1);
          rawF = fl_div round32 (fl_sub round32 (Fin v) (sp_offset p)) scale
      in cast_u16 (fl_clamp rawF (Fin 0) (Fin 65535)))"

definition word_type :: "RegisterType \<Rightarrow> bool" where
  "word_type rt \<longleftrightarrow> rt = HoldingRegister \<or> rt = InputRegister"

definition overlay_point :: "FaultInjector \<Rightarrow> u8 \<Rightarrow> SimPoint \<Rightarrow> SlaveRegset \<Rightarrow> SlaveRegset" where
  "overlay_point fi slave p work =
     (if \<not> sp_enabled p then work
      else if \<not> word_type (sp_regType p) then work
      else let eff = resolveOverride fi slave (sp_registerAddr p)
      in if \<not> ef_active eff then work
         else if ef_dropLink eff then work
         else let work1 = work\<lparr>rg_alarmWord := rg_alarmWord work OR alarm_bits eff\<rparr>;
                  raw = overlay_raw p (ef_value eff)
              in if sp_regType p = InputRegister then setInput work1 (sp_registerAddr p) raw
                 else setHolding work1 (sp_registerAddr p) raw)"

definition overlay :: "FaultInjector \<Rightarrow> u8 \<Rightarrow> SimPoint list \<Rightarrow> SlaveRegset \<Rightarrow> SlaveRegset" where
  "overlay fi slave v work = fold (overlay_point fi slave) v (work\<lparr>rg_alarmWord := 0\<rparr>)"

definition kAlarmWordSuffix :: string where
  "kAlarmWordSuffix = ''_AlarmWord''"

text \<open>The first point with the suffix takes the word.\<close>

definition write_alarm_word :: "SimPoint list \<Rightarrow> SlaveRegset \<Rightarrow> SlaveRegset" where
  "write_alarm_word v work =
     (case find (\<lambda>p. sp_enabled p \<and> sp_regType p = HoldingRegister \<and> ends_with kAlarmWordSuffix (sp_pointName p)) v of
        None \<Rightarrow> work | Some p \<Rightarrow> setHolding work (sp_registerAddr p) (rg_alarmWord work))"

definition stateOf :: "PointGenerator \<Rightarrow> u8 \<Rightarrow> SlaveRuntimeState" where
  "stateOf g s = (case pg_state g s of None \<Rightarrow> runtime_new | Some st \<Rightarrow> st)"

definition workOf :: "PointGenerator \<Rightarrow> u8 \<Rightarrow> SlaveRegset" where
  "workOf g s = (case pg_work g s of None \<Rightarrow> SlaveRegset_allocate 0 0 0 | Some r \<Rightarrow> r)"

definition evolve :: "PointGenerator \<Rightarrow> fl \<Rightarrow> u8 \<Rightarrow> SlaveRuntimeState \<times> SlaveRegset" where
  "evolve g dtS slave =
     (let v = onSlave (pg_pt g) slave; st = stateOf g slave; work = workOf g slave
      in case inferKindFromName v of
           Bms \<Rightarrow> evolveBms (pg_phy g) dtS v (st, work)
         | Pcs \<Rightarrow> evolvePcs (pg_phy g) v (st, work)
         | Meter \<Rightarrow> (st, evolveMeter (if pg_pcsRefSlave g \<noteq> 0 then rs_pcs_active_kw (stateOf g (pg_pcsRefSlave g)) else Fin 0) v work)
         | Liquid \<Rightarrow> (st, evolveAux v work)
         | Fire \<Rightarrow> (st, evolveAux v work))"

definition gen_slave ::
  "FaultInjector option \<Rightarrow> fl \<Rightarrow> u8 \<Rightarrow> PointGenerator \<times> RegisterBank option \<Rightarrow> PointGenerator \<times> RegisterBank option" where
  "gen_slave fi dtS slave gb =
     (case gb of (g, bank) \<Rightarrow>
        let v = onSlave (pg_pt g) slave;
            sw = evolve g dtS slave;
            work1 = (case fi of None \<Rightarrow> snd sw | Some f \<Rightarrow> overlay f slave v (snd sw));
            work2 = write_alarm_word v work1
        in (g\<lparr>pg_state := (pg_state g)(slave \<mapsto> fst sw), pg_work := (pg_work g)(slave \<mapsto> work2)\<rparr>,
            map_option (\<lambda>b. publish b slave (Some work2)) bank))"

definition gen_dtS :: "PointGenerator \<Rightarrow> fl" where
  "gen_dtS g = fl_div round64 (Fin (of_nat (unat (sc_tickMs (pg_cfg g))))) (Fin 1000)"

text \<open>\<open>now\<close> and \<open>now2\<close> are the readings of the clock in \<open>tickSessions\<close>.\<close>

definition generateTick ::
  "int \<Rightarrow> (nat \<Rightarrow> int) \<Rightarrow> FaultInjector option \<Rightarrow> PointGenerator \<times> RegisterBank option
    \<Rightarrow> FaultInjector option \<times> PointGenerator \<times> RegisterBank option" where
  "generateTick now now2 fi gb =
     (let fi1 = map_option (\<lambda>f. tickSessions f now now2) fi
      in (fi1, fold (gen_slave fi1 (gen_dtS (fst gb))) (pg_slaves (fst gb)) gb))"

definition reseed :: "u32 \<Rightarrow> PointGenerator \<Rightarrow> PointGenerator" where
  "reseed s g = g\<lparr>pg_cfg := (pg_cfg g)\<lparr>sc_seed := s\<rparr>\<rparr>"

definition gen_allSlaveIds :: "PointGenerator \<Rightarrow> u8 list" where
  "gen_allSlaveIds g = pg_slaves g"

section \<open>The register tables keep their size\<close>

text \<open>What the updates of a point leave alone.\<close>

definition same_size :: "SlaveRegset \<Rightarrow> SlaveRegset \<Rightarrow> bool" where
  "same_size r r' \<longleftrightarrow> length (rg_holding r') = length (rg_holding r) \<and> length (rg_input r') = length (rg_input r) \<and>
     length (rg_coils r') = length (rg_coils r) \<and> length (rg_discretes r') = length (rg_discretes r)"

named_theorems sizes "updates of the registers that keep the sizes of the tables"

lemma same_size_refl [sizes]: "same_size r r"
  by (simp add: same_size_def)

lemma same_size_trans: "same_size r r' \<Longrightarrow> same_size r' r'' \<Longrightarrow> same_size r r''"
  by (simp add: same_size_def)

lemma same_size_sets [sizes]:
  "same_size r (setHolding r a x)" "same_size r (setInput r a x)" "same_size r (setCoil r a b)"
  "same_size r (setDiscrete r a b)" "same_size r (r\<lparr>rg_alarmWord := w\<rparr>)"
  by (simp_all add: same_size_def setHolding_def setInput_def setCoil_def setDiscrete_def)

lemma same_size_fold: "(\<And>p r. same_size r (f p r)) \<Longrightarrow> same_size r (fold f v r)"
proof (induction v arbitrary: r)
  case (Cons p v)
  then show ?case using same_size_trans by (simp; blast)
qed (simp add: sizes)

lemma same_size_points [sizes]:
  "same_size r (write_named val p r)" "same_size r (write_word p x r)" "same_size r (meter_point k p r)"
  "same_size r (aux_point p r)"
  by (auto simp: write_named_def write_word_def meter_point_def aux_point_def Let_def sizes split: option.split)

lemma same_size_overlay_point [sizes]: "same_size r (overlay_point fi s p r)"
  by (simp add: overlay_point_def Let_def same_size_def setHolding_def setInput_def)

lemma same_size_overlay [sizes]: "same_size r (overlay fi s v r)"
  unfolding overlay_def by (rule same_size_trans [OF same_size_sets(5) same_size_fold]) (rule sizes)

lemma same_size_alarm_word [sizes]: "same_size r (write_alarm_word v r)"
  by (simp add: write_alarm_word_def sizes split: option.split)

lemma same_size_evolve [sizes]: "same_size (workOf g s) (snd (evolve g dtS s))"
  by (simp add: evolve_def Let_def evolveBms_def evolvePcs_def evolveMeter_def evolveAux_def
      same_size_fold sizes split: DeviceKind.split)

section \<open>One register after a pass over the points\<close>

text \<open>A pass over the points changes a register only at the points of its address.\<close>

lemma fold_untouched: "(\<And>q r. q \<in> set v \<Longrightarrow> get (f q r) = get r) \<Longrightarrow> get (fold f v r) = get r"
  by (induction v arbitrary: r) auto

lemma fold_single:
  assumes "p \<in> set v" and "\<And>q r. q \<in> set v \<Longrightarrow> q \<noteq> p \<Longrightarrow> get (f q r) = get r"
    and "\<And>r. P r \<Longrightarrow> get (f p r) = c" and "\<And>q r. P r \<Longrightarrow> P (f q r)" and "P r"
  shows "get (fold f v r) = c"
  using assms(1,2,5)
proof (induction v arbitrary: r)
  case (Cons q v)
  have P: "P (f q r)" using assms(4) Cons.prems(3) .
  show ?case
  proof (cases "p \<in> set v")
    case True
    then show ?thesis using Cons.IH [OF True _ P] Cons.prems(2) by simp
  next
    case False
    then have "q = p" using Cons.prems(1) by simp
    have "get (fold f v r) = get r" for r
      by (rule fold_untouched) (use False Cons.prems(2) in auto)
    then show ?thesis using assms(3) [OF Cons.prems(3)] \<open>q = p\<close> by simp
  qed
qed simp

lemma getHolding_other [simp]:
  "getHolding (setInput r a x) b = getHolding r b" "getHolding (setCoil r a c) b = getHolding r b"
  "getHolding (setDiscrete r a c) b = getHolding r b" "getHolding (r\<lparr>rg_alarmWord := w\<rparr>) b = getHolding r b"
  by (simp_all add: getHolding_def setInput_def setCoil_def setDiscrete_def)

lemma getHolding_set: "getHolding (setHolding r a x) b = (if a = b \<and> unat a < length (rg_holding r) then x else getHolding r b)"
  by (simp add: getHolding_def setHolding_def nth_list_update word_unat_eq_iff)

text \<open>The enabled holding point \<open>p\<close> has its address for itself.\<close>

definition alone :: "SimPoint list \<Rightarrow> SimPoint \<Rightarrow> bool" where
  "alone v p \<longleftrightarrow> p \<in> set v \<and> sp_enabled p \<and> sp_regType p = HoldingRegister \<and>
     (\<forall>q \<in> set v. q \<noteq> p \<and> sp_enabled q \<and> sp_regType q = HoldingRegister \<longrightarrow> sp_registerAddr q \<noteq> sp_registerAddr p)"

definition room :: "nat \<Rightarrow> SlaveRegset \<Rightarrow> bool" where
  "room a r \<longleftrightarrow> a < length (rg_holding r)"

lemma room_same_size: "same_size r r' \<Longrightarrow> room a r' = room a r"
  by (simp add: room_def same_size_def)

lemma register_pass:
  assumes "alone v p" and "room (unat (sp_registerAddr p)) r" and "\<And>q r. same_size r (f q r)"
    and "\<And>q r. q \<in> set v \<Longrightarrow> \<not> (sp_enabled q \<and> sp_regType q = HoldingRegister \<and> sp_registerAddr q = sp_registerAddr p) \<Longrightarrow>
      getHolding (f q r) (sp_registerAddr p) = getHolding r (sp_registerAddr p)"
    and "\<And>r. room (unat (sp_registerAddr p)) r \<Longrightarrow> getHolding (f p r) (sp_registerAddr p) = c"
  shows "getHolding (fold f v r) (sp_registerAddr p) = c"
proof (rule fold_single [where get = "\<lambda>r. getHolding r (sp_registerAddr p)" and P = "room (unat (sp_registerAddr p))"])
  show "p \<in> set v" using assms(1) by (simp add: alone_def)
  show "getHolding (f q r) (sp_registerAddr p) = getHolding r (sp_registerAddr p)" if "q \<in> set v" "q \<noteq> p" for q r
    using assms(1,4) that by (auto simp: alone_def)
  show "room (unat (sp_registerAddr p)) (f q r)" if "room (unat (sp_registerAddr p)) r" for q r
    using that room_same_size [OF assms(3)] by simp
qed (use assms(2,5) in auto)

lemma named_register:
  assumes "alone v p" and "val (sp_pointName p) = Some eng" and "room (unat (sp_registerAddr p)) r"
  shows "getHolding (fold (write_named val) v r) (sp_registerAddr p) = encode_point p eng"
proof (rule register_pass [OF assms(1,3) same_size_points(1)])
  show "getHolding (write_named val q r) (sp_registerAddr p) = getHolding r (sp_registerAddr p)"
    if "\<not> (sp_enabled q \<and> sp_regType q = HoldingRegister \<and> sp_registerAddr q = sp_registerAddr p)" for q r
    using that by (auto simp: write_named_def getHolding_set split: option.split)
  show "getHolding (write_named val p r) (sp_registerAddr p) = encode_point p eng" if "room (unat (sp_registerAddr p)) r" for r
    using that assms(1,2) by (simp add: alone_def write_named_def getHolding_set room_def)
qed

definition faulted :: "FaultInjector \<Rightarrow> u8 \<Rightarrow> SimPoint \<Rightarrow> bool" where
  "faulted fi s p \<longleftrightarrow> sp_enabled p \<and> word_type (sp_regType p) \<and>
     ef_active (resolveOverride fi s (sp_registerAddr p)) \<and> \<not> ef_dropLink (resolveOverride fi s (sp_registerAddr p))"

lemma overlay_register:
  assumes "alone v p" and "room (unat (sp_registerAddr p)) r"
  shows "getHolding (overlay fi s v r) (sp_registerAddr p) =
    (if faulted fi s p then overlay_raw p (ef_value (resolveOverride fi s (sp_registerAddr p)))
     else getHolding r (sp_registerAddr p))"
proof (cases "faulted fi s p")
  case True
  have "getHolding (fold (overlay_point fi s) v (r\<lparr>rg_alarmWord := 0\<rparr>)) (sp_registerAddr p) =
      overlay_raw p (ef_value (resolveOverride fi s (sp_registerAddr p)))"
  proof (rule register_pass [OF assms(1) _ same_size_overlay_point])
    show "room (unat (sp_registerAddr p)) (r\<lparr>rg_alarmWord := 0\<rparr>)" using assms(2) by (simp add: room_def)
    show "getHolding (overlay_point fi s q r) (sp_registerAddr p) = getHolding r (sp_registerAddr p)"
      if "\<not> (sp_enabled q \<and> sp_regType q = HoldingRegister \<and> sp_registerAddr q = sp_registerAddr p)" for q r
      using that by (auto simp: overlay_point_def Let_def getHolding_set word_type_def)
    show "getHolding (overlay_point fi s p r) (sp_registerAddr p) =
        overlay_raw p (ef_value (resolveOverride fi s (sp_registerAddr p)))" if "room (unat (sp_registerAddr p)) r" for r
      using that assms(1) True by (simp add: alone_def overlay_point_def Let_def getHolding_set room_def faulted_def)
  qed
  then show ?thesis using True by (simp add: overlay_def)
next
  case False
  have "getHolding (fold (overlay_point fi s) v (r\<lparr>rg_alarmWord := 0\<rparr>)) (sp_registerAddr p) =
      getHolding (r\<lparr>rg_alarmWord := 0\<rparr>) (sp_registerAddr p)"
  proof (rule fold_untouched)
    fix q r
    assume "q \<in> set v"
    then show "getHolding (overlay_point fi s q r) (sp_registerAddr p) = getHolding r (sp_registerAddr p)"
      using assms(1) False
      by (cases "q = p") (auto simp: alone_def overlay_point_def Let_def getHolding_set faulted_def word_type_def)
  qed
  then show ?thesis using False by (simp add: overlay_def)
qed

lemma alarm_word_step:
  "rg_alarmWord (overlay_point fi s p r) =
    rg_alarmWord r OR (if faulted fi s p then alarm_bits (resolveOverride fi s (sp_registerAddr p)) else 0)"
  by (auto simp: overlay_point_def faulted_def Let_def setHolding_def setInput_def)

text \<open>The alarm word has exactly the bits of the faults that are active in this tick.\<close>

lemma alarm_word_bits:
  "bit (rg_alarmWord (overlay fi s v r)) n \<longleftrightarrow>
    (\<exists>p \<in> set v. faulted fi s p \<and> bit (alarm_bits (resolveOverride fi s (sp_registerAddr p))) n)"
proof -
  have "bit (rg_alarmWord (fold (overlay_point fi s) v r)) n \<longleftrightarrow> bit (rg_alarmWord r) n \<or>
      (\<exists>p \<in> set v. faulted fi s p \<and> bit (alarm_bits (resolveOverride fi s (sp_registerAddr p))) n)" for r
    by (induction v arbitrary: r) (auto simp: alarm_word_step bit_or_iff)
  then show ?thesis by (simp add: overlay_def)
qed

section \<open>The register of a point, of whatever type\<close>

text \<open>What the register of a point shows, and that the table of its type reaches as far.\<close>

definition shown :: "SimPoint \<Rightarrow> SlaveRegset \<Rightarrow> u16" where
  "shown p r = (case sp_regType p of
     HoldingRegister \<Rightarrow> getHolding r (sp_registerAddr p)
   | InputRegister \<Rightarrow> getInput r (sp_registerAddr p)
   | Coil \<Rightarrow> (if getCoil r (sp_registerAddr p) then 1 else 0)
   | DiscreteInput \<Rightarrow> (if getDiscrete r (sp_registerAddr p) then 1 else 0))"

definition fits :: "SimPoint \<Rightarrow> SlaveRegset \<Rightarrow> bool" where
  "fits p r = (case sp_regType p of
     HoldingRegister \<Rightarrow> unat (sp_registerAddr p) < length (rg_holding r)
   | InputRegister \<Rightarrow> unat (sp_registerAddr p) < length (rg_input r)
   | Coil \<Rightarrow> unat (sp_registerAddr p) div 8 < length (rg_coils r)
   | DiscreteInput \<Rightarrow> unat (sp_registerAddr p) div 8 < length (rg_discretes r))"

text \<open>The enabled point \<open>p\<close> has the register of its type and address for itself.\<close>

definition own :: "SimPoint list \<Rightarrow> SimPoint \<Rightarrow> bool" where
  "own v p \<longleftrightarrow> p \<in> set v \<and> sp_enabled p \<and>
     (\<forall>q \<in> set v. q \<noteq> p \<and> sp_enabled q \<and> sp_regType q = sp_regType p \<longrightarrow> sp_registerAddr q \<noteq> sp_registerAddr p)"

lemma fits_same_size: "same_size r r' \<Longrightarrow> fits p r' = fits p r"
  by (simp add: fits_def same_size_def split: RegisterType.split)

lemma getInput_set: "getInput (setInput r a x) b = (if a = b \<and> unat a < length (rg_input r) then x else getInput r b)"
  by (simp add: getInput_def setInput_def nth_list_update word_unat_eq_iff)

lemma getInput_other [simp]:
  "getInput (setHolding r a x) b = getInput r b" "getInput (setCoil r a c) b = getInput r b"
  "getInput (setDiscrete r a c) b = getInput r b" "getInput (r\<lparr>rg_alarmWord := w\<rparr>) b = getInput r b"
  by (simp_all add: getInput_def setHolding_def setCoil_def setDiscrete_def)

lemma getCoil_sets [simp]:
  "getCoil (setHolding r a x) b = getCoil r b" "getCoil (setInput r a x) b = getCoil r b"
  "getCoil (setDiscrete r a c) b = getCoil r b" "getCoil (r\<lparr>rg_alarmWord := w\<rparr>) b = getCoil r b"
  "getDiscrete (setHolding r a x) b = getDiscrete r b" "getDiscrete (setInput r a x) b = getDiscrete r b"
  "getDiscrete (setCoil r a c) b = getDiscrete r b" "getDiscrete (r\<lparr>rg_alarmWord := w\<rparr>) b = getDiscrete r b"
  by (simp_all add: getCoil_def getDiscrete_def setHolding_def setInput_def setCoil_def setDiscrete_def)

lemma getCoil_set:
  "getCoil (setCoil r a c) b = (if b = a \<and> unat a div 8 < length (rg_coils r) then c else getCoil r b)"
  "getDiscrete (setDiscrete r a c) b = (if b = a \<and> unat a div 8 < length (rg_discretes r) then c else getDiscrete r b)"
  by (simp_all add: getCoil_def getDiscrete_def setCoil_def setDiscrete_def readCoil_writeCoil)

lemmas reg_reads = getHolding_set getInput_set getCoil_set

lemma shown_pass:
  assumes "own v p" and "fits p r" and "\<And>q r. same_size r (f q r)"
    and "\<And>q r. \<not> (sp_enabled q \<and> sp_regType q = sp_regType p \<and> sp_registerAddr q = sp_registerAddr p) \<Longrightarrow>
      shown p (f q r) = shown p r"
    and "\<And>r. fits p r \<Longrightarrow> shown p (f p r) = c"
  shows "shown p (fold f v r) = c"
proof (rule fold_single [where get = "shown p" and P = "fits p"])
  show "p \<in> set v" using assms(1) by (simp add: own_def)
  show "shown p (f q r) = shown p r" if "q \<in> set v" "q \<noteq> p" for q r
    using assms(1,4) that by (auto simp: own_def)
  show "fits p (f q r)" if "fits p r" for q r
    using that fits_same_size [OF assms(3)] by simp
qed (use assms(2,5) in auto)

text \<open>The state and the value a device of a kind has by its model; \<open>refKw\<close> is the power a meter refers to.\<close>

definition model_step :: "DeviceKind \<Rightarrow> PhysicsConstants \<Rightarrow> fl \<Rightarrow> SlaveRuntimeState \<Rightarrow> SlaveRuntimeState" where
  "model_step kind phy dtS st =
     (case kind of Bms \<Rightarrow> bms_step phy dtS st | Pcs \<Rightarrow> pcs_step phy st | _ \<Rightarrow> st)"

definition model_value :: "DeviceKind \<Rightarrow> fl \<Rightarrow> SlaveRuntimeState \<Rightarrow> SimPoint \<Rightarrow> fl option" where
  "model_value kind refKw st p =
     (let n = sp_pointName p
      in case kind of
           Bms \<Rightarrow> (if sp_regType p = HoldingRegister then bms_value st n else None)
         | Pcs \<Rightarrow> (if sp_regType p = HoldingRegister then pcs_value st n else None)
         | Meter \<Rightarrow> (if word_type (sp_regType p)
                     then Some (if has_sub ''ActiveP'' n \<or> has_sub ''TotalE'' n then refKw else Fin 1) else None)
         | _ \<Rightarrow> Some (if has_sub ''Alarm'' n then Fin 0 else Fin 25))"

definition shown_value :: "SimPoint \<Rightarrow> fl \<Rightarrow> u16" where
  "shown_value p eng =
     (if word_type (sp_regType p) then encode_point p eng else if eng \<noteq> Fin 0 then 1 else 0)"

definition ref_kw :: "PointGenerator \<Rightarrow> fl" where
  "ref_kw g = (if pg_pcsRefSlave g \<noteq> 0 then rs_pcs_active_kw (stateOf g (pg_pcsRefSlave g)) else Fin 0)"

text \<open>The pass of the model of any kind leaves in the register of a point of its own the value of that point.\<close>

lemma evolve_shown:
  assumes "own (onSlave (pg_pt g) s) p" and "fits p (workOf g s)" and "kind = inferKindFromName (onSlave (pg_pt g) s)"
    and "model_value kind (ref_kw g) (fst (evolve g dtS s)) p = Some eng"
  shows "shown p (snd (evolve g dtS s)) = shown_value p eng"
proof -
  let ?v = "onSlave (pg_pt g) s"
  have named: "shown p (fold (write_named val) ?v (workOf g s)) = shown_value p eng"
    if "sp_regType p = HoldingRegister" "val (sp_pointName p) = Some eng" for val
  proof (rule shown_pass [OF assms(1,2) same_size_points(1)])
    show "shown p (write_named val q r) = shown p r"
      if "\<not> (sp_enabled q \<and> sp_regType q = sp_regType p \<and> sp_registerAddr q = sp_registerAddr p)" for q r
      using that \<open>sp_regType p = _\<close> by (auto simp: write_named_def shown_def reg_reads split: option.split)
    show "shown p (write_named val p r) = shown_value p eng" if "fits p r" for r
      using that \<open>sp_regType p = _\<close> \<open>val _ = _\<close> assms(1)
      by (simp add: own_def write_named_def shown_def shown_value_def fits_def reg_reads word_type_def)
  qed
  have meter: "shown p (fold (meter_point kw) ?v (workOf g s)) = shown_value p eng"
    if "word_type (sp_regType p)"
      "eng = (if has_sub ''ActiveP'' (sp_pointName p) \<or> has_sub ''TotalE'' (sp_pointName p) then kw else Fin 1)" for kw
  proof (rule shown_pass [OF assms(1,2) same_size_points(3)])
    show "shown p (meter_point kw q r) = shown p r"
      if "\<not> (sp_enabled q \<and> sp_regType q = sp_regType p \<and> sp_registerAddr q = sp_registerAddr p)" for q r
      using that by (auto simp: meter_point_def write_word_def shown_def reg_reads Let_def split: RegisterType.split)
    show "shown p (meter_point kw p r) = shown_value p eng" if "fits p r" for r
      using that \<open>word_type _\<close> \<open>eng = _\<close> assms(1)
      by (auto simp: own_def meter_point_def write_word_def shown_def shown_value_def fits_def reg_reads word_type_def Let_def)
  qed
  have aux: "shown p (fold aux_point ?v (workOf g s)) = shown_value p eng"
    if "eng = (if has_sub ''Alarm'' (sp_pointName p) then Fin 0 else Fin 25)"
  proof (rule shown_pass [OF assms(1,2) same_size_points(4)])
    show "shown p (aux_point q r) = shown p r"
      if "\<not> (sp_enabled q \<and> sp_regType q = sp_regType p \<and> sp_registerAddr q = sp_registerAddr p)" for q r
      using that by (auto simp: aux_point_def write_word_def shown_def reg_reads Let_def split: RegisterType.split)
    show "shown p (aux_point p r) = shown_value p eng" if "fits p r" for r
      using that \<open>eng = _\<close> assms(1)
      by (cases "sp_regType p")
        (simp_all add: own_def aux_point_def write_word_def shown_def shown_value_def fits_def reg_reads word_type_def Let_def)
  qed
  show ?thesis
    using assms(3,4) named meter aux
    by (cases kind)
      (auto simp: evolve_def evolveBms_def evolvePcs_def evolveMeter_def evolveAux_def model_value_def ref_kw_def Let_def
        split: if_splits)
qed

lemma evolve_state:
  "fst (evolve g dtS s) =
    model_step (inferKindFromName (onSlave (pg_pt g) s)) (pg_phy g) dtS (stateOf g s)"
  by (simp add: evolve_def evolveBms_def evolvePcs_def model_step_def Let_def split: DeviceKind.split)

section \<open>One tick of all slaves\<close>

definition alarm_slot :: "SimPoint list \<Rightarrow> SimPoint option" where
  "alarm_slot v = find (\<lambda>p. sp_enabled p \<and> sp_regType p = HoldingRegister \<and> ends_with kAlarmWordSuffix (sp_pointName p)) v"

lemma alarm_word_kept [simp]: "rg_alarmWord (write_alarm_word v r) = rg_alarmWord r"
  by (simp add: write_alarm_word_def setHolding_def split: option.split)

lemma alarm_slot_register:
  assumes "alone v p" and "room (unat (sp_registerAddr p)) r"
  shows "getHolding (write_alarm_word v r) (sp_registerAddr p) =
    (if alarm_slot v = Some p then rg_alarmWord r else getHolding r (sp_registerAddr p))"
proof (cases "alarm_slot v")
  case None
  then show ?thesis by (simp add: write_alarm_word_def alarm_slot_def)
next
  case (Some q)
  then have q: "q \<in> set v" "sp_enabled q" "sp_regType q = HoldingRegister"
    by (auto simp: alarm_slot_def find_Some_iff)
  have "write_alarm_word v r = setHolding r (sp_registerAddr q) (rg_alarmWord r)"
    using Some by (simp add: write_alarm_word_def alarm_slot_def)
  moreover have "sp_registerAddr q \<noteq> sp_registerAddr p" if "q \<noteq> p" using assms(1) q that by (auto simp: alone_def)
  ultimately show ?thesis using Some assms(2) by (auto simp: getHolding_set room_def)
qed

text \<open>What a tick does not change.\<close>

definition same_setup :: "PointGenerator \<Rightarrow> PointGenerator \<Rightarrow> bool" where
  "same_setup g g' \<longleftrightarrow> pg_cfg g' = pg_cfg g \<and> pg_pt g' = pg_pt g \<and> pg_phy g' = pg_phy g \<and>
     pg_slaves g' = pg_slaves g \<and> pg_pcsRefSlave g' = pg_pcsRefSlave g"

definition same_slave :: "u8 \<Rightarrow> PointGenerator \<times> RegisterBank option \<Rightarrow> PointGenerator \<times> RegisterBank option \<Rightarrow> bool" where
  "same_slave s gb gb' \<longleftrightarrow> stateOf (fst gb') s = stateOf (fst gb) s \<and> workOf (fst gb') s = workOf (fst gb) s \<and>
     map_option (\<lambda>b. snapshot b s) (snd gb') = map_option (\<lambda>b. snapshot b s) (snd gb)"

text \<open>The registers of a slave after its turn.\<close>

definition final_regs :: "FaultInjector option \<Rightarrow> u8 \<Rightarrow> SimPoint list \<Rightarrow> SlaveRegset \<Rightarrow> SlaveRegset" where
  "final_regs fi s v r = write_alarm_word v (case fi of None \<Rightarrow> r | Some f \<Rightarrow> overlay f s v r)"

lemma gen_slave_parts:
  assumes "gen_slave fi dtS s (g, b) = (g', b')"
  shows "same_setup g g'" and "s' \<noteq> s \<Longrightarrow> same_slave s' (g, b) (g', b')"
    and "stateOf g' s = fst (evolve g dtS s)" and "workOf g' s = final_regs fi s (onSlave (pg_pt g) s) (snd (evolve g dtS s))"
    and "map_option (\<lambda>b. snapshot b s) b' = map_option (\<lambda>_. Some (workOf g' s)) b"
  using assms
  by (auto simp: gen_slave_def Let_def same_setup_def same_slave_def stateOf_def workOf_def final_regs_def
      snapshot_publish option.map_comp comp_def)

lemma same_setup_trans: "same_setup g g1 \<Longrightarrow> same_setup g1 g2 \<Longrightarrow> same_setup g g2"
  by (simp add: same_setup_def)

lemma same_slave_trans: "same_slave s x y \<Longrightarrow> same_slave s y z \<Longrightarrow> same_slave s x z"
  by (simp add: same_slave_def)

lemma gen_slaves_frame:
  "fold (gen_slave fi dtS) ss (g, b) = (g', b') \<Longrightarrow>
    same_setup g g' \<and> (\<forall>s'. s' \<notin> set ss \<longrightarrow> same_slave s' (g, b) (g', b'))"
proof (induction ss arbitrary: g b)
  case Nil
  then show ?case by (simp add: same_setup_def same_slave_def)
next
  case (Cons s ss)
  obtain g1 b1 where one: "gen_slave fi dtS s (g, b) = (g1, b1)" by fastforce
  then have "fold (gen_slave fi dtS) ss (g1, b1) = (g', b')" using Cons.prems by simp
  from Cons.IH [OF this] gen_slave_parts(1,2) [OF one] show ?case
    by (auto intro: same_setup_trans same_slave_trans)
qed

lemma gen_slaves_turn:
  assumes "distinct ss" and "s \<in> set ss" and "fold (gen_slave fi dtS) ss (g, b) = (g', b')"
  obtains g1 where "same_setup g g1" and "stateOf g1 s = stateOf g s" and "workOf g1 s = workOf g s"
    and "stateOf g' s = fst (evolve g1 dtS s)"
    and "workOf g' s = final_regs fi s (onSlave (pg_pt g) s) (snd (evolve g1 dtS s))"
    and "map_option (\<lambda>b. snapshot b s) b' = map_option (\<lambda>_. Some (workOf g' s)) b"
    and "\<And>s'. stateOf g1 s' = stateOf (if s' \<in> set (takeWhile (\<lambda>x. x \<noteq> s) ss) then g' else g) s'"
proof -
  from assms(2) obtain ss1 ss2 where ss: "ss = ss1 @ s # ss2" by (auto simp: in_set_conv_decomp)
  then have notin: "s \<notin> set ss1" "s \<notin> set ss2" using assms(1) by auto
  obtain g1 b1 where pre: "fold (gen_slave fi dtS) ss1 (g, b) = (g1, b1)" by fastforce
  obtain g2 b2 where one: "gen_slave fi dtS s (g1, b1) = (g2, b2)" by fastforce
  have post: "fold (gen_slave fi dtS) ss2 (g2, b2) = (g', b')" using assms(3) pre one by (simp add: ss)
  have same1: "same_setup g g1" "same_slave s (g, b) (g1, b1)" using gen_slaves_frame [OF pre] notin by auto
  have same2: "same_slave s (g2, b2) (g', b')" using gen_slaves_frame [OF post] notin by auto
  have some: "map_option (\<lambda>b. snapshot b s) b1 = map_option (\<lambda>b. snapshot b s) b" using same1(2) by (simp add: same_slave_def)
  then have "map_option (\<lambda>_. Some (workOf g2 s)) b1 = map_option (\<lambda>_. Some (workOf g2 s)) b" by (cases b; cases b1) auto
  moreover have earlier: "stateOf g1 s' = stateOf (if s' \<in> set (takeWhile (\<lambda>x. x \<noteq> s) ss) then g' else g) s'" for s'
  proof -
    have before: "takeWhile (\<lambda>x. x \<noteq> s) ss = ss1"
      unfolding ss using notin(1) by (induction ss1) auto
    show ?thesis
    proof (cases "s' \<in> set ss1")
      case True
      then have "s' \<noteq> s" "s' \<notin> set ss2" using assms(1) by (auto simp: ss)
      then have "same_slave s' (g1, b1) (g2, b2)" "same_slave s' (g2, b2) (g', b')"
        using gen_slave_parts(2) [OF one] gen_slaves_frame [OF post] by auto
      then show ?thesis using True by (simp add: before same_slave_def)
    next
      case False
      then have "same_slave s' (g, b) (g1, b1)" using gen_slaves_frame [OF pre] by auto
      then show ?thesis using False by (simp add: before same_slave_def)
    qed
  qed
  moreover have "stateOf g' s = fst (evolve g1 dtS s)"
    "workOf g' s = final_regs fi s (onSlave (pg_pt g) s) (snd (evolve g1 dtS s))"
    "map_option (\<lambda>b. snapshot b s) b' = map_option (\<lambda>_. Some (workOf g' s)) b" "stateOf g1 s = stateOf g s" "workOf g1 s = workOf g s"
    using same1 same2 gen_slave_parts(3-5) [OF one] calculation(1) by (simp_all add: same_slave_def same_setup_def)
  ultimately show ?thesis using same1(1) that [of g1] by blast
qed

lemma distinct_all_u8: "distinct all_u8"
  by (auto simp: all_u8_def distinct_map inj_on_def of_nat_inverse word_of_nat_eq_iff take_bit_nat_eq_self)

lemma distinct_allSlaveIds: "distinct (allSlaveIds t)"
  by (simp add: allSlaveIds_def distinct_all_u8)

text \<open>The generators the program makes.\<close>

inductive gen_reach :: "PointGenerator \<Rightarrow> bool" where
  new: "generator_new cfg (Some t) phy = Some g \<Longrightarrow> gen_reach g"
| tick: "gen_reach g \<Longrightarrow> generateTick now now2 fi (g, b) = (fi', g', b') \<Longrightarrow> gen_reach g'"
| seed: "gen_reach g \<Longrightarrow> gen_reach (reseed s g)"

definition gen_wf :: "PointGenerator \<Rightarrow> bool" where
  "gen_wf g \<longleftrightarrow> pg_slaves g = allSlaveIds (pg_pt g) \<and>
     (\<forall>s \<in> set (pg_slaves g). \<forall>p \<in> set (onSlave (pg_pt g) s).
        room (unat (sp_registerAddr p) + 15) (workOf g s) \<and> fits p (workOf g s))"

lemma gen_wf_new: "generator_new cfg (Some t) phy = Some g \<Longrightarrow> gen_wf g"
proof -
  assume "generator_new cfg (Some t) phy = Some g"
  then have g: "pg_slaves g = allSlaveIds t" "pg_pt g = t" "s \<in> set (allSlaveIds t) \<Longrightarrow> workOf g s = work_new t s" for s
    by (auto simp: generator_new_def Let_def workOf_def)
  have "room (unat (sp_registerAddr p) + 15) (work_new t s) \<and> fits p (work_new t s)" if "p \<in> set (onSlave t s)" for p s
  proof -
    define cap where "cap = max (unat (max_addr (onSlave t s)) + 16) 128"
    have a: "unat (sp_registerAddr p) + 15 < cap"
      using max_addr_ge [OF that] by (simp add: cap_def word_le_nat_alt)
    then have "(unat (sp_registerAddr p) + 8) div 8 \<le> (cap + 7) div 8" by (intro div_le_mono) linarith
    then have "unat (sp_registerAddr p) div 8 < (cap + 7) div 8" by simp
    with a show ?thesis
      by (simp add: room_def fits_def work_new_def SlaveRegset_allocate_def Let_def cap_def [symmetric] split: RegisterType.split)
  qed
  then show ?thesis by (simp add: gen_wf_def g)
qed

lemma same_size_final [sizes]: "same_size r (final_regs fi s v r)"
  unfolding final_regs_def
  by (cases fi) (auto intro: sizes same_size_trans [OF same_size_overlay same_size_alarm_word])

lemma gen_wf_tick:
  assumes "gen_wf g" and "generateTick now now2 fi (g, b) = (fi', g', b')"
  shows "gen_wf g'"
proof -
  let ?ss = "pg_slaves g"
  obtain fi1 dtS where run: "fold (gen_slave fi1 dtS) ?ss (g, b) = (g', b')"
    using assms(2) by (auto simp: generateTick_def Let_def)
  have frame: "same_setup g g'" using gen_slaves_frame [OF run] by simp
  have slaves: "?ss = allSlaveIds (pg_pt g)" using assms(1) by (simp add: gen_wf_def)
  have "same_size (workOf g s) (workOf g' s)" if s: "s \<in> set ?ss" for s
  proof -
    from gen_slaves_turn [OF _ s run] obtain g1 where "workOf g1 s = workOf g s"
      "workOf g' s = final_regs fi1 s (onSlave (pg_pt g) s) (snd (evolve g1 dtS s))"
      by (auto simp: slaves distinct_allSlaveIds)
    then show ?thesis using same_size_trans [OF same_size_evolve same_size_final] by metis
  qed
  then show ?thesis
    using assms(1) frame by (fastforce simp: gen_wf_def same_setup_def dest: room_same_size fits_same_size)
qed

lemma gen_reach_wf: "gen_reach g \<Longrightarrow> gen_wf g"
  by (induction rule: gen_reach.induct)
    (auto intro: gen_wf_new gen_wf_tick, simp add: gen_wf_def reseed_def workOf_def)

section \<open>What a tick publishes\<close>

lemma evolve_bms:
  assumes "same_setup g g1" and "stateOf g1 s = stateOf g s" and "workOf g1 s = workOf g s"
    and "inferKindFromName (onSlave (pg_pt g) s) = Bms"
  shows "evolve g1 dtS s = (let st = bms_step (pg_phy g) dtS (stateOf g s)
    in (st, fold (write_named (bms_value st)) (onSlave (pg_pt g) s) (workOf g s)))"
  using assms by (simp add: evolve_def evolveBms_def same_setup_def Let_def)

lemma tick_slave:
  assumes "gen_reach g" and "generateTick now now2 fi (g, Some bank) = (fi', g', b')" and "s \<in> set (pg_slaves g)"
  obtains bank' r where "b' = Some bank'" and "snapshot bank' s = Some (workOf g' s)"
    and "workOf g' s = final_regs fi' s (onSlave (pg_pt g) s) r" and "same_size (workOf g s) r"
    and "inferKindFromName (onSlave (pg_pt g) s) = Bms \<longrightarrow>
      stateOf g' s = bms_step (pg_phy g) (gen_dtS g) (stateOf g s) \<and>
      r = fold (write_named (bms_value (stateOf g' s))) (onSlave (pg_pt g) s) (workOf g s)"
    and "fi' = map_option (\<lambda>f. tickSessions f now now2) fi"
proof -
  have wf: "gen_wf g" by (rule gen_reach_wf [OF assms(1)])
  have run: "fold (gen_slave fi' (gen_dtS g)) (pg_slaves g) (g, Some bank) = (g', b')"
    and fi': "fi' = map_option (\<lambda>f. tickSessions f now now2) fi"
    using assms(2) by (auto simp: generateTick_def Let_def)
  have "distinct (pg_slaves g)" using wf by (simp add: gen_wf_def distinct_allSlaveIds)
  from gen_slaves_turn [OF this assms(3) run] obtain g1 where g1:
    "same_setup g g1" "stateOf g1 s = stateOf g s" "workOf g1 s = workOf g s"
    "stateOf g' s = fst (evolve g1 (gen_dtS g) s)"
    "workOf g' s = final_regs fi' s (onSlave (pg_pt g) s) (snd (evolve g1 (gen_dtS g) s))"
    "map_option (\<lambda>b. snapshot b s) b' = map_option (\<lambda>_. Some (workOf g' s)) (Some bank)" by blast
  then obtain bank' where "b' = Some bank'" "snapshot bank' s = Some (workOf g' s)" by auto
  then show ?thesis
    using g1 fi' same_size_evolve [of g1 s "gen_dtS g"] evolve_bms [OF g1(1-3)]
    by (intro that [of bank' "snd (evolve g1 (gen_dtS g) s)"]) (auto simp: Let_def)
qed

text \<open>The faults and the alarm word on the register of a point.\<close>

lemma overlay_shown:
  assumes "own v p" and "fits p r"
  shows "shown p (overlay fi s v r) =
    (if faulted fi s p then overlay_raw p (ef_value (resolveOverride fi s (sp_registerAddr p))) else shown p r)"
proof -
  have start: "shown p (r\<lparr>rg_alarmWord := 0\<rparr>) = shown p r" "fits p (r\<lparr>rg_alarmWord := 0\<rparr>)"
    using assms(2) by (simp_all add: shown_def fits_def split: RegisterType.splits)
  have others: "shown p (overlay_point fi s q r) = shown p r"
    if "\<not> (sp_enabled q \<and> sp_regType q = sp_regType p \<and> sp_registerAddr q = sp_registerAddr p)" for q r
    using that by (auto simp: overlay_point_def word_type_def shown_def reg_reads Let_def split: RegisterType.split)
  show ?thesis
  proof (cases "faulted fi s p")
    case True
    have "shown p (fold (overlay_point fi s) v (r\<lparr>rg_alarmWord := 0\<rparr>)) =
        overlay_raw p (ef_value (resolveOverride fi s (sp_registerAddr p)))"
    proof (rule shown_pass [OF assms(1) start(2) same_size_overlay_point others])
      show "shown p (overlay_point fi s p r) = overlay_raw p (ef_value (resolveOverride fi s (sp_registerAddr p)))"
        if "fits p r" for r
        using that True
        by (auto simp: overlay_point_def faulted_def word_type_def shown_def fits_def reg_reads Let_def)
    qed assumption
    then show ?thesis using True by (simp add: overlay_def)
  next
    case False
    have "shown p (fold (overlay_point fi s) v (r\<lparr>rg_alarmWord := 0\<rparr>)) = shown p (r\<lparr>rg_alarmWord := 0\<rparr>)"
    proof (rule fold_untouched)
      fix q r
      assume "q \<in> set v"
      then show "shown p (overlay_point fi s q r) = shown p r"
        using assms(1) False others by (cases "q = p") (auto simp: own_def overlay_point_def faulted_def Let_def)
    qed
    then show ?thesis using False start(1) by (simp add: overlay_def)
  qed
qed

lemma alarm_slot_shown:
  assumes "own v p" and "fits p r"
  shows "shown p (write_alarm_word v r) = (if alarm_slot v = Some p then rg_alarmWord r else shown p r)"
proof (cases "alarm_slot v")
  case None
  then show ?thesis by (simp add: write_alarm_word_def alarm_slot_def)
next
  case (Some q)
  then have q: "q \<in> set v" "sp_enabled q" "sp_regType q = HoldingRegister"
    by (auto simp: alarm_slot_def find_Some_iff)
  have w: "write_alarm_word v r = setHolding r (sp_registerAddr q) (rg_alarmWord r)"
    using Some by (simp add: write_alarm_word_def alarm_slot_def)
  show ?thesis
  proof (cases "q = p")
    case True
    then show ?thesis using Some w q(3) assms(2) by (simp add: shown_def fits_def reg_reads)
  next
    case False
    then have "sp_regType p = HoldingRegister \<Longrightarrow> sp_registerAddr q \<noteq> sp_registerAddr p"
      using assms(1) q by (auto simp: own_def)
    then show ?thesis using Some w False by (auto simp: shown_def reg_reads split: RegisterType.split)
  qed
qed

text \<open>All faults in force give single points a value: an overheating or a cell voltage.\<close>

definition value_faults :: "FaultInjector \<Rightarrow> bool" where
  "value_faults f \<longleftrightarrow> (\<forall>x \<in> set (fi_sessions f). live x \<longrightarrow>
     fo_scope (fs_spec x) = SC_POINT \<and> fo_type (fs_spec x) \<in> {OverTemp, CellVoltage})"

lemma rebuild_entry_of:
  "rebuild_entries ss k = Some e \<Longrightarrow> \<exists>x \<in> set ss. live x \<and> entry_key x = k \<and> e = entry_of x"
  by (induction ss rule: rev_induct) (auto simp: rebuild_nil rebuild_snoc split: if_splits)

lemma value_fault_resolved:
  assumes "fi_reach f" and "value_faults f"
  shows "(case find (\<lambda>x. covers x s a) (fi_sessions f) of
      None \<Rightarrow> \<not> ef_active (resolveOverride f s a)
    | Some x \<Rightarrow> ef_active (resolveOverride f s a) \<and> ef_value (resolveOverride f s a) = fs_currentValue x)"
    and "\<not> ef_dropLink (resolveOverride f s a)"
proof -
  have ok: "table_ok f" by (rule fi_reach_table [OF assms(1)])
  have "live x \<and> entry_key x \<in> {keyOf s a, ALL_KEY} \<longleftrightarrow> covers x s a" if "x \<in> set (fi_sessions f)" for x
    using live_key_covers [of x s a] assms(2) that by (cases "live x") (auto simp: covers_def value_faults_def)
  then have active: "ef_active (resolveOverride f s a) \<longleftrightarrow> (\<exists>x \<in> set (fi_sessions f). covers x s a)"
    unfolding active_iff_key [OF ok] by blast
  show "(case find (\<lambda>x. covers x s a) (fi_sessions f) of
      None \<Rightarrow> \<not> ef_active (resolveOverride f s a)
    | Some x \<Rightarrow> ef_active (resolveOverride f s a) \<and> ef_value (resolveOverride f s a) = fs_currentValue x)"
  proof (cases "find (\<lambda>x. covers x s a) (fi_sessions f)")
    case None
    then have "\<not> (\<exists>x \<in> set (fi_sessions f). covers x s a)" by (auto simp: find_None_iff)
    then show ?thesis using active None by simp
  next
    case (Some x)
    then have act: "ef_active (resolveOverride f s a)" using active by (auto simp: find_Some_iff)
    then have "ef_active (resolve (fi_table f) s a)" by (auto simp: resolveOverride_def Let_def split: if_splits)
    with Some act show ?thesis by (simp add: resolveOverride_def Let_def)
  qed
  have "\<not> en_dropLink e" if e: "fi_table f k = Some e" for k e
  proof -
    have "strip (rebuild_entries (fi_sessions f) k) = strip (Some e)" using ok e by (metis table_ok_def)
    then obtain e' where e': "rebuild_entries (fi_sessions f) k = Some e'" "en_dropLink e' = en_dropLink e"
      by (cases "rebuild_entries (fi_sessions f) k") (auto simp: strip_def dest: arg_cong [where f = en_dropLink])
    then obtain x where "x \<in> set (fi_sessions f)" "live x" "e' = entry_of x" using rebuild_entry_of by blast
    with assms(2) e'(2) show ?thesis by (auto simp: value_faults_def entry_of_def Let_def)
  qed
  then show "\<not> ef_dropLink (resolveOverride f s a)"
    by (auto simp: resolveOverride_def resolve_def entryToEffect_def noEffect_def Let_def split: option.split)
qed

lemma fault_or_model:
  assumes reach: "fi_reach f" "value_faults f" and own: "own v p" "fits p r"
  shows "shown p (overlay f s v r) =
    (case (if word_type (sp_regType p) then find (\<lambda>x. covers x s (sp_registerAddr p)) (fi_sessions f) else None) of
       Some x \<Rightarrow> overlay_raw p (fs_currentValue x) | None \<Rightarrow> shown p r)"
  using value_fault_resolved [OF reach, of s "sp_registerAddr p"] overlay_shown [OF own, of f s] own(1)
  by (auto simp: faulted_def own_def split: option.splits)


text \<open>A battery with a temperature and an alarm word, and an overheating of 80 degrees.\<close>

definition demo_sim_point :: "string \<Rightarrow> u16 \<Rightarrow> SimPoint" where
  "demo_sim_point n a = \<lparr>sp_pointId = 1, sp_pointName = n, sp_slaveAddress = 3, sp_regType = HoldingRegister,
     sp_dataType = Float32, sp_byteOrder = ABCD, sp_registerAddr = a, sp_scaleFactor = Fin 1, sp_offset = Fin 0,
     sp_unit = [], sp_enabled = True\<rparr>"

definition demo_sim_table :: SimPointTable where
  "demo_sim_table = \<lparr>st_bySlave = [3 \<mapsto> [demo_sim_point ''R_MaxTemp'' 8, demo_sim_point ''R_AlarmWord'' 9]],
     st_byName = Map.empty\<rparr>"

definition demo_gen :: PointGenerator where
  "demo_gen = the (generator_new simConfig_new (Some demo_sim_table) physics_default)"

definition demo_injector :: FaultInjector where
  "demo_injector = snd (trigger injector_new (demo_fault SC_POINT) 0 0)"

lemma demo_gen_reach: "gen_reach demo_gen" "3 \<in> set (pg_slaves demo_gen)"
  "onSlave (pg_pt demo_gen) 3 = [demo_sim_point ''R_MaxTemp'' 8, demo_sim_point ''R_AlarmWord'' 9]"
proof -
  have "generator_new simConfig_new (Some demo_sim_table) physics_default = Some demo_gen"
    by (simp add: demo_gen_def generator_new_def Let_def)
  then show "gen_reach demo_gen" by (rule gen_reach.new)
  show "3 \<in> set (pg_slaves demo_gen)"
    by (simp add: demo_gen_def generator_new_def Let_def allSlaveIds_def demo_sim_table_def)
  show "onSlave (pg_pt demo_gen) 3 = [demo_sim_point ''R_MaxTemp'' 8, demo_sim_point ''R_AlarmWord'' 9]"
    by (simp add: demo_gen_def generator_new_def Let_def demo_sim_table_def onSlave_def)
qed

lemma demo_fault_more: "fo_type (demo_fault sc) = OverTemp" "fo_durationMs (demo_fault sc) = 0"
  by (simp_all add: demo_fault_def)

lemma demo_injector_tick: "tickSessions demo_injector now now2 = demo_injector"
  by (simp add: demo_injector_def demo_triggered tickSessions_def rebuildTable_def tick_def toActive_def
      session_new_def demo_fault_more Let_def)

lemma demo_injector_resolve:
  "resolveOverride demo_injector 3 8 = \<lparr>ef_active = True, ef_value = 80, ef_corruptCrc = False,
    ef_corruptByte = False, ef_dropLink = False, ef_delayMs = 0, ef_type = OverTemp\<rparr>"
  "resolveOverride demo_injector 3 9 = noEffect"
  by (simp_all add: demo_injector_def demo_triggered rebuildTable_def rebuild_entries_def resolveOverride_def
      resolve_def live_def covers_def entry_key_def entry_of_def entryToEffect_def toActive_def session_new_def
      demo_fault_more noEffect_def Let_def)

lemma overlay_raw_80: "sp_scaleFactor p = Fin 1 \<Longrightarrow> sp_offset p = Fin 0 \<Longrightarrow> overlay_raw p 80 = 80"
  using round32_int [of 80] by (simp add: overlay_raw_def fl_sub_def fl_clamp_def fl_ne_def)


section \<open>How exact the conversion is\<close>

lemma round_away_bounds:
  assumes "0 \<le> y"
  shows "of_int (round_away y) \<le> y + 1 / 2" and "y - 1 / 2 < of_int (round_away y)"
proof -
  have r: "round_away y = \<lfloor>y + 1 / 2\<rfloor>" using assms by (simp add: round_away_def)
  show "of_int (round_away y) \<le> y + 1 / 2" unfolding r by linarith
  show "y - 1 / 2 < of_int (round_away y)" unfolding r by linarith
qed

text \<open>In the range of the register the number written is the value over the scale, to the nearest and up to the
  rounding of the division.\<close>

lemma encode_close:
  assumes "0 < s" and "0 \<le> e" and "e \<le> 65535 * s"
  shows "\<bar>of_nat (unat (encodeFloat32AsHolding (Fin e) (Fin s))) - e / s\<bar> \<le> 1 / 2 + 1 / 2 ^ 38"
proof -
  let ?x = "e / s"
  have x: "0 \<le> ?x" "?x \<le> 65535" using assms by (simp_all add: divide_simps)
  have "\<bar>?x\<bar> < pow2 (15 + 1)" using x by (simp add: pow2_def)
  from fl_round_error [OF this, of "-1022" 1023 53] obtain q where
    q: "round64 ?x = Fin q" "\<bar>q - ?x\<bar> \<le> pow2 (- 38)" by (auto simp: round64_def)
  let ?d = "1 / 2 ^ 38 :: rat"
  have small: "?d < 1 / 4" by simp
  have "pow2 (- 38) = ?d" by (simp add: pow2_def)
  then have d: "q - ?x \<le> ?d" "?x - q \<le> ?d" using q(2) by (simp_all only: abs_le_iff) linarith+
  show ?thesis
  proof (cases "0 \<le> q")
    case True
    note r = round_away_bounds [OF True]
    have "q < 65535 + 1 / 4" using d(1) x(2) small by linarith
    then have "(- 1 :: rat) < of_int (round_away q)" "of_int (round_away q) < (65536 :: rat)"
      using r True by linarith+
    then have range: "0 \<le> round_away q" "round_away q \<le> 65535" by linarith+
    then have "encodeFloat32AsHolding (Fin e) (Fin s) = word_of_int (round_away q)"
      using assms(1) q(1) by (simp add: encodeFloat32AsHolding_def Let_def)
    then have "of_nat (unat (encodeFloat32AsHolding (Fin e) (Fin s))) = (of_int (round_away q) :: rat)"
      using range by (simp add: word_of_int_inverse unat_eq_nat_uint uint_word_of_int)
    then show ?thesis using r d by (simp only: abs_le_iff) linarith
  next
    case False
    have "- 1 / 4 < q" using d(2) x(1) small by linarith
    then have "\<lceil>q - 1 / 2\<rceil> = 0" using False by linarith
    then have "round_away q = 0" using False by (simp add: round_away_def)
    then have "encodeFloat32AsHolding (Fin e) (Fin s) = 0"
      using assms(1) q(1) by (simp add: encodeFloat32AsHolding_def Let_def)
    then show ?thesis using False d x(1) small by (simp only: abs_le_iff unsigned_0 of_nat_0) linarith
  qed
qed

text \<open>The state of charge stays in its range, or is no number at all.\<close>

lemma soc_in_range:
  "rs_soc_pct (bms_step phy dtS st) = NaN \<or> (\<exists>x. rs_soc_pct (bms_step phy dtS st) = Fin x \<and> 0 \<le> x \<and> x \<le> 100)"
proof -
  have "fl_clamp v (Fin 0) (Fin 100) = NaN \<or> (\<exists>x. fl_clamp v (Fin 0) (Fin 100) = Fin x \<and> 0 \<le> x \<and> x \<le> 100)" for v
    by (cases v) (auto simp: fl_clamp_def)
  then show ?thesis by (simp add: bms_step_def Let_def)
qed

text \<open>A disturbance of the link of one slave that is not a loss of the link, a checksum error for one, replaces the
  registers of every slave by its target value: it is entered for all slaves, and the overlay skips only
  losses of the link.\<close>

theorem link_fault_overwrites:
  assumes "trigger injector_new sp now1 now2 = (h, f)" and "fo_scope sp = SC_SLAVE" and "fo_type sp \<noteq> CommLoss"
    and "sp_enabled p" and "word_type (sp_regType p)"
  shows "faulted f s p"
proof -
  have "f = rebuildTable \<lparr>fi_sessions = [toActive now2 (session_new 1 sp now1)], fi_nextHandle = 2, fi_table = Map.empty\<rparr>"
    using assms(1) by (simp add: trigger_def injector_new_def Let_def)
  then show ?thesis
    using assms(2-5)
    by (simp add: faulted_def rebuildTable_def rebuild_entries_def resolveOverride_def resolve_def live_def
        entry_key_def entry_of_def entryToEffect_def toActive_def session_new_def Let_def split: option.split)
qed

end
