(* ===== verification/SimEndToEnd.thy ===== *)
theory SimEndToEnd
  imports SimGen PollEndToEnd
begin

text \<open>
  The whole way of a value: both programs load one point table, the generator of the simulator computes
  a value and writes it to a register, the driver of the program polls the register over Modbus TCP, and
  the sample that reaches the bridge is the value up to half a step of the scale of the point.
\<close>

section \<open>The conversion back\<close>

text \<open>A positive finite \<open>float\<close>.\<close>

definition float_value :: "rat \<Rightarrow> bool" where
  "float_value s \<longleftrightarrow> (\<exists>n k. s = of_nat n * pow2 k \<and> 0 < n \<and> n < 2 ^ 24 \<and> - 149 \<le> k \<and> k \<le> 104)"

lemma float_value_pos: "float_value s \<Longrightarrow> 0 < s"
  by (auto simp: float_value_def)

text \<open>A 16 bit number times a \<open>float\<close> is exact in \<open>double\<close>.\<close>

lemma scaled_raw_exact:
  assumes "pr_scaleFactor p = Fin s" and "pr_offset p = Fin 0" and "float_value s"
  shows "scaled p (Fin (of_nat (unat (raw :: u16)))) = Fin (of_nat (unat raw) * s)"
proof -
  obtain n k where s: "s = of_nat n * pow2 k" "n < 2 ^ 24" "- 149 \<le> k" "k \<le> 104"
    using assms(3) by (auto simp: float_value_def)
  have "unat raw * n < 2 ^ 53"
    using mult_strict_mono' [of "unat raw" "2 ^ 16" n "2 ^ 24"] s(2) by simp
  moreover have "0 \<le> of_nat (unat raw) * s"
    using float_value_pos [OF assms(3)] by (intro mult_nonneg_nonneg of_nat_0_le_iff less_imp_le)
  then have "\<bar>of_nat (unat raw) * s\<bar> = of_nat (unat raw * n) * pow2 k"
    by (simp only: abs_of_nonneg s(1) of_nat_mult mult.assoc)
  ultimately have "round64 (of_nat (unat raw) * s) = Fin (of_nat (unat raw) * s)"
    unfolding round64_def using s(3,4) fl_round_exact [of "of_nat (unat raw) * s" "unat raw * n" k 53 "- 1022" 1023] by simp
  then show ?thesis using assms(1,2) by (simp add: scaled_def)
qed

lemma value_read_back:
  assumes "pr_scaleFactor p = Fin s" and "pr_offset p = Fin 0" and "float_value s"
    and "0 \<le> e" and "e \<le> 65535 * s"
  shows "scaled p (Fin (of_nat (unat (encodeFloat32AsHolding (Fin e) (Fin s))))) =
      Fin (of_nat (unat (encodeFloat32AsHolding (Fin e) (Fin s))) * s)"
    and "\<bar>of_nat (unat (encodeFloat32AsHolding (Fin e) (Fin s))) * s - e\<bar> \<le> s * (1 / 2 + 1 / 2 ^ 38)"
proof -
  let ?n = "of_nat (unat (encodeFloat32AsHolding (Fin e) (Fin s))) :: rat"
  have s: "0 < s" by (rule float_value_pos [OF assms(3)])
  have "?n * s - e = s * (?n - e / s)" using s by (simp add: right_diff_distrib)
  then have "\<bar>?n * s - e\<bar> = s * \<bar>?n - e / s\<bar>" using s by (simp add: abs_mult)
  also have "\<dots> \<le> s * (1 / 2 + 1 / 2 ^ 38)" by (rule mult_left_mono [OF encode_close [OF s assms(4,5)]]) (use s in simp)
  finally show "\<bar>?n * s - e\<bar> \<le> s * (1 / 2 + 1 / 2 ^ 38)" .
  show "scaled p (Fin ?n) = Fin (?n * s)" by (rule scaled_raw_exact [OF assms(1-3)])
qed

section \<open>Points of the segments and registers of the simulator\<close>

lemma segment_point:
  assumes "seg \<in> set (buildSegments pt)" and "p \<in> set (sg_points seg)"
  shows "p \<in> set (allPoints pt)" and "pr_enabled p"
proof -
  have "p \<in># mset (concat (map sg_points (buildSegments pt)))" using assms by auto
  then have "p \<in># mset (filter pr_enabled (allPoints pt))" using buildSegments_ok [of pt] by simp
  then show "p \<in> set (allPoints pt)" and "pr_enabled p" by auto
qed

lemma sim_of_fields [simp]:
  "sp_registerAddr (sim_of p) = pr_registerAddr p" "sp_pointName (sim_of p) = pr_pointName p"
  "sp_scaleFactor (sim_of p) = pr_scaleFactor p" "sp_regType (sim_of p) = pr_regType p"
  "sp_enabled (sim_of p) = pr_enabled p" "sp_slaveAddress (sim_of p) = pr_slaveAddress p"
  by (simp_all add: sim_of_def)

lemma point_alone:
  assumes "loadFromJsonFile parse m rank (Some content) = Inr pt"
    and "onSlave st s = map sim_of (filter (\<lambda>p. pr_slaveAddress p = s) ps)" and "set ps = set (allPoints pt)"
    and "p \<in> set (allPoints pt)" and "pr_enabled p" and "pr_slaveAddress p = s" and "pr_regType p = HoldingRegister"
  shows "alone (onSlave st s) (sim_of p)"
proof -
  have "q = p" if "q \<in> set (allPoints pt)" "pr_slaveAddress q = s" "pr_registerAddr q = pr_registerAddr p" for q
    using loaded_resolve [OF assms(1), where s = s and a = "pr_registerAddr p"] assms(4,6) that by (metis option.inject)
  then show ?thesis using assms by (auto simp: alone_def)
qed

section \<open>The whole way\<close>

lemma generated_register:
  assumes "gen_reach g" and "generateTick now now2 fi (g, Some bank0) = (fi', g', Some bank)" and "s \<in> set (pg_slaves g)"
    and "alone (onSlave (pg_pt g) s) p" and "inferKindFromName (onSlave (pg_pt g) s) = Bms"
    and "alarm_slot (onSlave (pg_pt g) s) \<noteq> Some p" and "\<And>f. fi' = Some f \<Longrightarrow> \<not> faulted f s p"
    and "bms_value (stateOf g' s) (sp_pointName p) = Some v"
  shows "getHolding (workOf g' s) (sp_registerAddr p) = encode_point p v"
    and "snapshot bank s = Some (workOf g' s)" and "room (unat (sp_registerAddr p) + 15) (workOf g' s)"
proof -
  obtain r where r: "snapshot bank s = Some (workOf g' s)" "workOf g' s = final_regs fi' s (onSlave (pg_pt g) s) r"
    "same_size (workOf g s) r" "r = fold (write_named (bms_value (stateOf g' s))) (onSlave (pg_pt g) s) (workOf g s)"
    by (rule tick_slave [OF assms(1-3)]) (use assms(5) in auto)
  have "room (unat (sp_registerAddr p) + 15) (workOf g s)"
    using gen_reach_wf [OF assms(1)] assms(3,4) by (auto simp: gen_wf_def alone_def)
  then have rooms: "room (unat (sp_registerAddr p)) (workOf g s)" "room (unat (sp_registerAddr p) + 15) r"
    using room_same_size [OF r(3)] by (simp_all add: room_def)
  then have room_r: "room (unat (sp_registerAddr p)) r" by (simp add: room_def)
  have val: "getHolding r (sp_registerAddr p) = encode_point p v"
    unfolding r(4) by (rule named_register [where val = "bms_value (stateOf g' s)", OF assms(4,8) rooms(1)])
  show "getHolding (workOf g' s) (sp_registerAddr p) = encode_point p v"
  proof (cases fi')
    case None
    then show ?thesis using alarm_slot_register [OF assms(4) room_r] assms(6) val by (simp add: r(2) final_regs_def)
  next
    case (Some f)
    have "room (unat (sp_registerAddr p)) (overlay f s (onSlave (pg_pt g) s) r)"
      using room_r room_same_size [OF same_size_overlay] by simp
    from alarm_slot_register [OF assms(4) this] overlay_register [OF assms(4) room_r, of f s] show ?thesis
      using assms(6,7) Some val by (simp add: r(2) final_regs_def)
  qed
  show "snapshot bank s = Some (workOf g' s)" by (rule r(1))
  show "room (unat (sp_registerAddr p) + 15) (workOf g' s)"
    using rooms(2) room_same_size [OF same_size_final] by (simp add: r(2))
qed

text \<open>The registers of a segment lie inside the table of the slave.\<close>

lemma segment_inside:
  assumes "segment_ok seg" and "\<forall>p \<in> set (sg_points seg). addr p + 15 < n"
  shows "unat (sg_startAddr seg) + unat (sg_qty seg) \<le> n"
proof -
  let ?e = "unat (sg_startAddr seg) + unat (sg_qty seg)"
  have "0 < unat (sg_qty seg)" "covered (unat (sg_startAddr seg)) ?e (sg_points seg)"
    using assms(1) by (simp_all add: segment_ok_def)
  then obtain p where "p \<in> set (sg_points seg)" "?e - 1 < addr p + pointWidth p"
    by (auto simp: covered_def dest: spec [of _ "?e - 1"])
  with assms(2) pointWidth_bounds(2) [of p] show ?thesis by fastforce
qed

text \<open>The conditions on a polled point: a scaled \<open>float\<close> without an offset, named for a value of the physical
  model that fits the register, not the slot of the alarm word and without a fault.\<close>

definition plain_float_point ::
  "FaultInjector option \<Rightarrow> SimPointTable \<Rightarrow> PointGenerator \<Rightarrow> (PointRuntime \<Rightarrow> rat) \<Rightarrow> (PointRuntime \<Rightarrow> rat) \<Rightarrow> PointRuntime \<Rightarrow> bool" where
  "plain_float_point fi st g sc e p \<longleftrightarrow>
     pr_dataType p = Float32 \<and> pr_scaleFactor p = Fin (sc p) \<and> float_value (sc p) \<and> pr_offset p = Fin 0 \<and>
     (\<exists>v. bms_value (stateOf g (pr_slaveAddress p)) (pr_pointName p) = Some v \<and> to_float v = Fin (e p)) \<and>
     0 \<le> e p \<and> e p \<le> 65535 * sc p \<and> alarm_slot (onSlave st (pr_slaveAddress p)) \<noteq> Some (sim_of p) \<and>
     (\<forall>f. fi = Some f \<longrightarrow> \<not> faulted f (pr_slaveAddress p) (sim_of p))"

lemma published_point:
  assumes load: "loadFromJsonFile parse m rank (Some content) = Inr pt" "parse content = Some doc"
      "member_of ''points'' doc = Some (JArray pjs)" "\<forall>pj \<in> set pjs. plain_point pj"
    and sim: "sim_loadTable parse m order (Some content) = Inr st" "gen_reach g" "pg_pt g = st"
    and gen: "generateTick now now2 fi (g, Some bank0) = (fi', g', Some bank)"
    and seg: "seg \<in> set (buildSegments pt)" "sg_rt seg = HoldingRegister" "inferKindFromName (onSlave st (sg_slave seg)) = Bms"
    and p: "p \<in> set (sg_points seg)" "plain_float_point fi' st g' sc e p"
  shows "getHolding (workOf g' (sg_slave seg)) (pr_registerAddr p) = encodeFloat32AsHolding (Fin (e p)) (Fin (sc p))"
    and "snapshot bank (sg_slave seg) = Some (workOf g' (sg_slave seg))" and "room (addr p + 15) (workOf g' (sg_slave seg))"
proof -
  let ?u = "sg_slave seg"
  obtain ps st' where all: "mset (allPoints pt) = mset ps" and st': "sim_loadTable parse m order (Some content) = Inr st'"
    and on': "\<forall>s. onSlave st' s = map sim_of (filter (\<lambda>p. pr_slaveAddress p = s) ps)"
    and ids': "set (allSlaveIds st') = pr_slaveAddress ` set (allPoints pt)"
    using same_points [OF load, of order] by (elim exE conjE) (rule that)
  have "st' = st" using st' sim(1) by simp
  then have on: "onSlave st s = map sim_of (filter (\<lambda>p. pr_slaveAddress p = s) ps)"
    and ids: "set (allSlaveIds st) = pr_slaveAddress ` set (allPoints pt)" for s using on' ids' by simp_all
  have sets: "set ps = set (allPoints pt)" using all by (metis set_mset_mset)
  have ok: "segment_ok seg" using seg(1) buildSegments_ok by blast
  have q: "p \<in> set (allPoints pt)" "pr_enabled p" "pr_slaveAddress p = ?u" "pr_regType p = HoldingRegister"
    using segment_point [OF seg(1) p(1)] ok p(1) seg(2) by (auto simp: segment_ok_def group_key_def)
  have "pg_slaves g = allSlaveIds st" using gen_reach_wf [OF sim(2)] by (simp add: gen_wf_def sim(3))
  then have u: "?u \<in> set (pg_slaves g)" by (simp only: ids q(3) [symmetric]) (rule imageI [OF q(1)])
  note c = p(2) [unfolded plain_float_point_def]
  obtain v where v: "bms_value (stateOf g' ?u) (pr_pointName p) = Some v" "to_float v = Fin (e p)" using c q(3) by auto
  have al: "alone (onSlave (pg_pt g) ?u) (sim_of p)" unfolding sim(3) by (rule point_alone [OF load(1) on sets q(1,2,3,4)])
  note r = generated_register [OF sim(2) gen u al]
  show "getHolding (workOf g' ?u) (pr_registerAddr p) = encodeFloat32AsHolding (Fin (e p)) (Fin (sc p))"
    using r(1) [of v] c seg(3) v q(3) by (simp add: sim(3) encode_point_def)
  show "snapshot bank ?u = Some (workOf g' ?u)" and "room (addr p + 15) (workOf g' ?u)"
    using r(2,3) [of v] c seg(3) v q(3) by (simp_all add: sim(3) addr_def)
qed

text \<open>Property C35: what the physical model of the simulator computes is what the program samples. Both programs
  load one point table, the generator publishes a tick, and the driver polls a segment of a battery slave;
  then one sample per point of the segment reaches the bridge, in the order of the addresses, and each
  differs from the value of the model, as a \<open>float\<close>, by at most half a step of the scale and the rounding
  of one division.\<close>

theorem generated_value_polled:
  assumes load: "loadFromJsonFile parse m rank (Some content) = Inr pt" "parse content = Some doc"
      "member_of ''points'' doc = Some (JArray pjs)" "\<forall>pj \<in> set pjs. plain_point pj"
    and sim: "sim_loadTable parse m order (Some content) = Inr st" "gen_reach g" "pg_pt g = st"
    and gen: "generateTick now now2 fi (g, Some bank0) = (fi', g', Some bank)"
    and drv: "driver_reach pt w d" "pd_running d" "\<not> pp_active (pd_pending d)" "pd_segments d \<noteq> []"
      "contents (m_accumulator (pd_engine d)) = []" "seg = pd_segments d ! (pd_nextSegIdx d mod length (pd_segments d))"
    and seg: "sg_rt seg = HoldingRegister" "sg_slave seg \<noteq> 0" "find (\<lambda>s. rt_slaveId s = sg_slave seg) slaves = Some dev"
    and kind: "inferKindFromName (onSlave st (sg_slave seg)) = Bms"
    and pts: "\<forall>p \<in> set (sg_points seg). plain_float_point fi' st g' sc e p"
    and poll: "onPollTick w d = (Some frame, d1)" "0 \<le> w frame"
      "clientLoop (emulatorHandler slaves) (\<lambda>_. None) bank frame = (outs, bank')"
  shows "\<exists>resp x. outs = [(0, resp)] \<and> (case worker_step w (DataReceived t resp) d1 of (out, d2) \<Rightarrow>
      pd_bridge d2 = fold bridge_push (map (\<lambda>p. (pr_pointId p, t, Fin (x p))) (sg_points seg)) (pd_bridge d)) \<and>
    (\<forall>p \<in> set (sg_points seg). \<bar>x p - e p\<bar> \<le> sc p * (1 / 2 + 1 / 2 ^ 38))"
proof -
  let ?u = "sg_slave seg" and ?n = "\<lambda>p. of_nat (unat (encodeFloat32AsHolding (Fin (e p)) (Fin (sc p))))"
  have inv: "driver_inv pt d" by (rule driver_reach_inv [OF drv(1)])
  then have mem: "seg \<in> set (buildSegments pt)" using drv(4,6) by (simp add: driver_inv_def)
  then have ok: "segment_ok seg" using buildSegments_ok by blast
  then obtain p0 where "p0 \<in> set (sg_points seg)" by (cases "sg_points seg") (auto simp: segment_ok_def)
  have reg: "getHolding (workOf g' ?u) (pr_registerAddr p) = encodeFloat32AsHolding (Fin (e p)) (Fin (sc p))"
    and snap: "snapshot bank ?u = Some (workOf g' ?u)" and room: "room (addr p + 15) (workOf g' ?u)"
    if "p \<in> set (sg_points seg)" for p
    using published_point [OF load sim gen mem seg(1) kind that bspec [OF pts that]] by simp_all
  let ?x = "\<lambda>p. ?n p * sc p"
  have x: "scaled p (Fin (?n p)) = Fin (?x p)" "\<bar>?x p - e p\<bar> \<le> sc p * (1 / 2 + 1 / 2 ^ 38)"
    if "p \<in> set (sg_points seg)" for p
  proof -
    have c: "pr_scaleFactor p = Fin (sc p)" "pr_offset p = Fin 0" "float_value (sc p)" "0 \<le> e p" "e p \<le> 65535 * sc p"
      using bspec [OF pts that] by (simp_all add: plain_float_point_def)
    show "scaled p (Fin (?n p)) = Fin (?x p)" by (rule value_read_back(1) [OF c])
    show "\<bar>?x p - e p\<bar> \<le> sc p * (1 / 2 + 1 / 2 ^ 38)" by (rule value_read_back(2) [OF c])
  qed
  have range: "unat (sg_startAddr seg) + unat (sg_qty seg) \<le> length (rg_holding (workOf g' ?u))"
    using segment_inside [OF ok] room by (simp add: room_def)
  have holds: "\<forall>p \<in> set (sg_points seg). holds_value (workOf g' ?u) p (Fin (?n p))"
    using reg pts by (auto simp: holds_value_def plain_float_point_def)
  obtain resp where "outs = [(0, resp)] \<and> (case worker_step w (DataReceived t resp) d1 of (out, d2) \<Rightarrow>
      \<not> pp_active (pd_pending d2) \<and>
      pd_bridge d2 = fold bridge_push (map (\<lambda>p. (pr_pointId p, t, scaled p (Fin (?n p)))) (sg_points seg)) (pd_bridge d))"
    using poll_exchange [OF drv seg(1,2,3) snap [OF \<open>p0 \<in> _\<close>] range holds poll(1,2,3), of t] by (rule exE)
  note resp = conjunct1 [OF this] conjunct2 [OF this]
  have "map (\<lambda>p. (pr_pointId p, t, scaled p (Fin (?n p)))) (sg_points seg) = map (\<lambda>p. (pr_pointId p, t, Fin (?x p))) (sg_points seg)"
    by (rule map_cong [OF refl]) (simp only: x(1))
  with resp x(2) show ?thesis by (intro exI [of _ resp] exI [of _ ?x]) (simp add: case_prod_beta del: of_nat_unat)
qed

section \<open>An example\<close>

text \<open>A battery with its state of charge as a \<open>float\<close> in register 16.\<close>

definition soc_json :: json where
  "soc_json = JObject [(''pointId'', JInt 8), (''pointName'', JString ''R_SOC''), (''slaveAddress'', JInt 7),
     (''regType'', JString ''HoldingRegister''), (''dataType'', JString ''Float32''),
     (''byteOrder'', JString ''ABCD''), (''registerAddr'', JInt 16)]"

definition soc_doc :: json where
  "soc_doc = JObject [(''meta'', JObject [(''schemaVersion'', JString ''1.1'')]), (''points'', JArray [soc_json])]"

definition soc_point :: PointRuntime where
  "soc_point = \<lparr>pr_pointId = 8, pr_linkId = 7, pr_slaveAddress = 7, pr_regType = HoldingRegister,
     pr_dataType = Float32, pr_byteOrder = ABCD, pr_registerAddr = 16, pr_scaleFactor = Fin 1, pr_offset = Fin 0,
     pr_pollIntervalMs = 1000, pr_priority = 1, pr_enabled = True, pr_pointName = ''R_SOC'', pr_unit = []\<rparr>"

definition soc_pt :: PointTable where
  "soc_pt = \<lparr>m_byPointId = [(8, soc_point)], m_byAddr = [kAddrKey 7 16 \<mapsto> 8], m_bySlave = [7 \<mapsto> [8]]\<rparr>"

definition soc_seg :: Segment where
  "soc_seg = \<lparr>sg_slave = 7, sg_startAddr = 16, sg_qty = 2, sg_rt = HoldingRegister, sg_points = [soc_point]\<rparr>"

definition soc_driver :: PollDriver where
  "soc_driver = startPolling 100 (driver_new (engine_new True Tcp) scheduler_new soc_pt)"

lemma soc_load: "loadFromJsonFile (\<lambda>_. Some soc_doc) m rank (Some []) = Inr soc_pt"
proof -
  have "parsePoint m soc_json = Inr soc_point"
    by (simp add: parsePoint_def soc_json_def soc_point_def j_at_def j_value_def json_need_def
        parseRegType_def parseDataType_def parseByteOrder_def parseRegisterAddr_def)
  moreover have "sortSlaves soc_pt = soc_pt" "hashOrder rank soc_pt = soc_pt"
    by (simp_all add: sortSlaves_def hashOrder_def soc_pt_def fun_eq_iff)
  ultimately show ?thesis
    by (simp add: loadFromJsonFile_def soc_doc_def json_need_def addPoint_def point_table_new_def Let_def)
      (simp add: soc_pt_def soc_point_def)
qed

lemma soc_segments: "buildSegments soc_pt = [soc_seg]" "allPoints soc_pt = [soc_point]"
  by (simp_all add: buildSegments_def Let_def allPoints_def soc_pt_def soc_seg_def group_keys_def soc_point_def group_key_def
      segmentsOf_def isBitType_def segStep_def pointWidth_def closeSegment_def emptySegment_def)

lemma soc_driver_facts:
  "driver_reach soc_pt w soc_driver" "pd_running soc_driver" "\<not> pp_active (pd_pending soc_driver)"
  "pd_segments soc_driver \<noteq> []" "contents (m_accumulator (pd_engine soc_driver)) = []"
  "soc_seg = pd_segments soc_driver ! (pd_nextSegIdx soc_driver mod length (pd_segments soc_driver))"
  "pd_engine soc_driver = engine_new True Tcp" "pd_bridge soc_driver = []"
proof -
  have "worker_step w (StartPolling 100) (driver_new (engine_new True Tcp) scheduler_new soc_pt) = (None, soc_driver)"
    by (simp add: worker_step_def soc_driver_def)
  then show "driver_reach soc_pt w soc_driver" by (rule driver_reach.step [OF driver_reach.new])
qed (simp_all add: soc_driver_def startPolling_def scheduleNext_def driver_new_def Let_def noPending_def soc_segments engine_new_def)

lemma soc_poll_sends: "\<exists>frame d1. onPollTick (\<lambda>f. int (length f)) soc_driver = (Some frame, d1)"
proof -
  obtain n frame' e' where wr: "writeRequest (\<lambda>f. int (length f)) (pd_engine soc_driver) (pollRequest soc_seg) (ucast (sg_slave soc_seg)) = (n, frame', e')"
    using prod_cases3 by blast
  have "valid_request (pollRequest soc_seg\<lparr>rq_transactionId := 1\<rparr>)" by (simp add: valid_request_def pollRequest_def soc_seg_def)
  then have "buildRequest (pollRequest soc_seg\<lparr>rq_transactionId := 1\<rparr>) \<noteq> []" by (simp add: buildRequest_empty_iff)
  then obtain frame where frame: "frame' = Some frame"
    using wr by (auto simp: soc_driver_facts(7) writeRequest_def registerRequest_def engine_new_def Let_def
        allocate_def alloc_scan.simps txids_new_def INVALID_ID_def pollRequest_def)
  have slave: "sg_slave soc_seg \<noteq> 0" by (simp add: soc_seg_def)
  show ?thesis
    by (rule tick_sends [OF driver_reach_inv [OF soc_driver_facts(1)] soc_driver_facts(2,3,4,6) slave wr])
      (use frame in blast)
qed

text \<open>At rest the state of charge stays at 80 percent.\<close>

lemma soc_at_rest: "rs_soc_pct (bms_step physics_default (Fin r) runtime_new) = Fin 80"
proof -
  have zero: "round64 0 = Fin 0" by (simp add: round64_def fl_round_def)
  have "round64 (280 * 3600) = Fin 1008000" using round64_int [of 1008000] by simp
  then show ?thesis
    using round64_int [of 80] by (simp add: bms_step_def physics_default_def runtime_new_def Let_def zero fl_clamp_def)
qed

lemma tick_seconds: "\<exists>r. fl_div round64 (Fin (of_nat (unat (100 :: u32)))) (Fin 1000) = Fin r"
proof -
  have "\<bar>1 / 10 :: rat\<bar> < pow2 (0 + 1)" by (simp add: pow2_def)
  from fl_round_error [OF this, of "-1022" 1023 53] show ?thesis by (auto simp: round64_def)
qed

theorem generated_value_polled_witness:
  "\<exists>bank frame d1 resp x.
    fst (clientLoop (emulatorHandler demo_slaves) (\<lambda>_. None) bank frame) = [(0, resp)] \<and>
    onPollTick (\<lambda>f. int (length f)) soc_driver = (Some frame, d1) \<and>
    pd_bridge (snd (worker_step (\<lambda>f. int (length f)) (DataReceived 1000 resp) d1)) = [(8, 1000, Fin x)] \<and>
    \<bar>x - 80\<bar> \<le> 1 / 2 + 1 / 2 ^ 38"
proof -
  let ?w = "\<lambda>f. int (length f) :: int" and ?parse = "\<lambda>_ :: string. Some soc_doc"
  have pjs: "member_of ''points'' soc_doc = Some (JArray [soc_json])" by (simp add: soc_doc_def)
  have plain: "\<forall>pj \<in> set [soc_json]. plain_point pj" by (simp add: plain_point_def soc_json_def)
  obtain st where st: "sim_loadTable ?parse 0 [7] (Some []) = Inr st"
    "onSlave st 7 = [sim_of soc_point]" "set (allSlaveIds st) = {7}"
    using same_points [OF soc_load [of 0 unat] refl pjs plain, of "[7]"] by (auto simp: soc_segments soc_point_def)
  define g where "g = the (generator_new simConfig_new (Some st) physics_default)"
  have g: "generator_new simConfig_new (Some st) physics_default = Some g" "pg_pt g = st" "pg_phy g = physics_default"
    "pg_slaves g = allSlaveIds st" "stateOf g 7 = runtime_new" "pg_cfg g = simConfig_new"
    using st(3) by (auto simp: g_def generator_new_def Let_def stateOf_def)
  have reach: "gen_reach g" by (rule gen_reach.new [OF g(1)])
  obtain fi' g' b' where gen: "generateTick 0 (\<lambda>_. 0) None (g, Some bank_new) = (fi', g', b')"
    using prod_cases3 by blast
  have kind: "inferKindFromName (onSlave st 7) = Bms" by (simp add: st(2) soc_point_def)
  obtain bank where bank: "b' = Some bank" and state: "stateOf g' 7 = bms_step physics_default (gen_dtS g) runtime_new"
    by (rule tick_slave [OF reach gen, of 7]) (use kind st(3) g(2-5) in auto)
  obtain r where "gen_dtS g = Fin r" using tick_seconds by (auto simp: gen_dtS_def g(6) simConfig_new_def)
  then have soc: "rs_soc_pct (stateOf g' 7) = Fin 80" by (simp add: state soc_at_rest)
  have fi': "fi' = None" using gen by (simp add: generateTick_def Let_def)
  have "float_value 1"
    unfolding float_value_def by (intro exI [of _ 1] exI [of _ 0]) (simp add: pow2_def)
  then have pts: "\<forall>p \<in> set (sg_points soc_seg). plain_float_point fi' st g' (\<lambda>_. 1) (\<lambda>_. 80) p"
    using soc round32_int [of 80] fi'
    by (simp add: plain_float_point_def soc_seg_def soc_point_def bms_value_def st(2) alarm_slot_def ends_with_def kAlarmWordSuffix_def)
  have seg: "sg_rt soc_seg = HoldingRegister" "sg_slave soc_seg \<noteq> 0" by (simp_all add: soc_seg_def)
  have dev: "find (\<lambda>s. rt_slaveId s = sg_slave soc_seg) demo_slaves = Some \<lparr>rt_slaveId = 7, rt_kind = Bms, rt_transport = SimTcp\<rparr>"
    using demo_slave(1) by (simp add: soc_seg_def)
  obtain frame d1 where tick: "onPollTick ?w soc_driver = (Some frame, d1)" using soc_poll_sends by blast
  obtain outs bank' where sim: "clientLoop (emulatorHandler demo_slaves) (\<lambda>_. None) bank frame = (outs, bank')" by fastforce
  have kind': "inferKindFromName (onSlave st (sg_slave soc_seg)) = Bms" using kind by (simp add: soc_seg_def)
  obtain resp x where r: "outs = [(0, resp)]"
    "pd_bridge (snd (worker_step ?w (DataReceived 1000 resp) d1)) = [(8, 1000, Fin (x soc_point))]"
    "\<bar>x soc_point - 80\<bar> \<le> 1 / 2 + 1 / 2 ^ 38"
    using generated_value_polled [OF soc_load [of 0 unat] refl pjs plain st(1) reach g(2) gen [unfolded bank] soc_driver_facts(1-6)
        seg dev kind' pts tick _ sim, of 1000]
    by (auto simp: soc_driver_facts(8) soc_seg_def bridge_push_def bridge_kMaxPending_def case_prod_beta)
      (simp add: soc_point_def)
  then show ?thesis using sim tick by (intro exI [of _ bank] exI [of _ frame] exI [of _ d1] exI [of _ resp] exI [of _ "x soc_point"]) simp
qed

end
