(* ===== verification/Scenario.thy ===== *)
theory Scenario
  imports SimPoints FaultInjector
begin

text \<open>
  The scripted drills of the simulator, \<^verbatim>\<open>apps/device_simulator/src/sim/scenario_script.h\<close> and
  \<^verbatim>\<open>.cpp\<close>: the loader, the clock-driven steps that inject and recover faults, and the report. Reading
  and parsing the file, printing a JSON document and the text of a library exception are parameters. The
  readings of the clocks are functions in an environment: of the number of events so far for the time stamp
  of an event, and of the handle for the clock of the injector, so that each call has its own. An event is the
  document of its line. The injector of the model computes with rationals: a \<open>float\<close> that is not finite is 0.
\<close>

section \<open>The code: data\<close>

record ScenarioStep =
  sn_tMs :: int
  sn_action :: string
  sn_fault :: string
  sn_scope :: string
  sn_slaveSpec :: string
  sn_regName :: string
  sn_count :: int
  sn_targetValue :: rat
  sn_rampRate :: rat
  sn_durationMs :: int
  sn_alarmBit :: int
  sn_fired :: bool

record ScenarioReport =
  rp_scenarioName :: string
  rp_durationMs :: int
  rp_faultsInjected :: "(string \<times> int) list"
  rp_badFramesDropped :: int
  rp_linkLossEvents :: int
  rp_result :: string
  rp_notes :: string

record ScenarioScript =
  sx_steps :: "ScenarioStep list"
  sx_name :: string
  sx_startMs :: int
  sx_started :: bool
  sx_finished :: bool
  sx_anyFail :: bool
  sx_events :: "json list"
  sx_report :: ScenarioReport
  sx_handles :: "string \<rightharpoonup> u32 list"

record ScenarioEnv =
  ev_stamp :: "nat \<Rightarrow> string"
  ev_trigger :: "u32 \<Rightarrow> int \<times> int"
  ev_recover :: "u32 \<Rightarrow> int"

definition report_new :: ScenarioReport where
  "report_new = \<lparr>rp_scenarioName = [], rp_durationMs = 0, rp_faultsInjected = [], rp_badFramesDropped = 0,
     rp_linkLossEvents = 0, rp_result = [], rp_notes = []\<rparr>"

definition script_new :: ScenarioScript where
  "script_new = \<lparr>sx_steps = [], sx_name = [], sx_startMs = 0, sx_started = False, sx_finished = False,
     sx_anyFail = False, sx_events = [], sx_report = report_new, sx_handles = Map.empty\<rparr>"

section \<open>The code: text\<close>

definition show_int :: "int \<Rightarrow> string" where
  "show_int i = (if i < 0 then CHR ''-'' # show_nat (nat (- i)) else show_nat (nat i))"

definition quoted :: "string \<Rightarrow> string" where
  "quoted s = CHR 0x27 # s @ [CHR 0x27]"

definition pad3 :: "nat \<Rightarrow> string" where
  "pad3 n = (let s = show_nat n in replicate (3 - length s) (CHR ''0'') @ s)"

text \<open>\<open>strtoll\<close> in base 10 saturates; no digit gives the default.\<close>

definition toInt64 :: "string \<Rightarrow> int \<Rightarrow> int" where
  "toInt64 s0 def =
     (let s = dropWhile is_space s0;
          neg = (s \<noteq> [] \<and> hd s = CHR ''-'');
          s1 = (if s \<noteq> [] \<and> hd s \<in> {CHR ''-'', CHR ''+''} then tl s else s);
          ds = digits 10 s1;
          v = int (foldl (\<lambda>a d. a * 10 + d) 0 ds)
      in if ds = [] then def
         else max (- (2 ^ 63)) (min (2 ^ 63 - 1) (if neg then - v else v)))"

fun fl_rat :: "fl \<Rightarrow> rat" where
  "fl_rat (Fin x) = x"
| "fl_rat _ = 0"

definition add_note :: "string \<Rightarrow> ScenarioScript \<Rightarrow> ScenarioScript" where
  "add_note n sc = sc\<lparr>sx_anyFail := True, sx_report := (sx_report sc)\<lparr>rp_notes := rp_notes (sx_report sc) @ n\<rparr>\<rparr>"

definition set_note :: "string \<Rightarrow> ScenarioScript \<Rightarrow> ScenarioScript" where
  "set_note n sc = sc\<lparr>sx_report := (sx_report sc)\<lparr>rp_notes := n\<rparr>\<rparr>"

section \<open>The code: loading\<close>

fun slave_spec :: "json option \<Rightarrow> string" where
  "slave_spec (Some (JString s)) = s"
| "slave_spec (Some (JInt i)) = show_int (wrap_signed 32 i)"
| "slave_spec _ = []"

definition parse_step :: "json \<Rightarrow> ScenarioStep option" where
  "parse_step j =
     Option.bind (j_value (get_int 64) ''t'' 0 j) (\<lambda>t.
     Option.bind (j_value get_string ''action'' [] j) (\<lambda>action.
     Option.bind (j_value get_string ''fault'' [] j) (\<lambda>fault.
     Option.bind (j_value get_string ''scope'' [] j) (\<lambda>scope.
     Option.bind (j_value get_string ''register'' [] j) (\<lambda>reg.
     Option.bind (j_value (get_int 32) ''count'' 1 j) (\<lambda>count.
     Option.bind (j_value get_double ''targetValue'' (Fin 0) j) (\<lambda>target.
     Option.bind (j_value get_double ''rampRate'' (Fin 0) j) (\<lambda>ramp.
     Option.bind (j_value (get_int 64) ''durationMs'' 0 j) (\<lambda>dur.
     Option.bind (j_value (get_int 32) ''alarmBit'' (-1) j) (\<lambda>bit.
       Some \<lparr>sn_tMs = t, sn_action = action, sn_fault = fault, sn_scope = scope,
             sn_slaveSpec = slave_spec (member_of ''slave'' j), sn_regName = reg, sn_count = count,
             sn_targetValue = fl_rat (to_float target), sn_rampRate = fl_rat (to_float ramp), sn_durationMs = dur,
             sn_alarmBit = bit, sn_fired = False\<rparr>))))))))))"

text \<open>The loop over \<open>steps\<close>; \<open>False\<close> for an exception, which keeps the steps read before.\<close>

fun load_steps :: "json list \<Rightarrow> ScenarioScript \<Rightarrow> bool \<times> ScenarioScript" where
  "load_steps [] sc = (True, sc)"
| "load_steps (j # js) sc =
     (case parse_step j of
        None \<Rightarrow> (False, sc)
      | Some s \<Rightarrow>
          if sn_action s \<noteq> ''INJECT'' \<and> sn_action s \<noteq> ''RECOVER''
          then load_steps js (add_note (''bad action '' @ quoted (sn_action s) @ ''; '') sc)
          else load_steps js (sc\<lparr>sx_steps := sx_steps sc @ [s]\<rparr>))"

definition scenario_load ::
  "(string \<Rightarrow> json option) \<Rightarrow> string \<Rightarrow> string \<Rightarrow> string option \<Rightarrow> ScenarioScript \<Rightarrow> bool \<times> ScenarioScript" where
  "scenario_load parse what path file sc =
     (let sc0 = sc\<lparr>sx_steps := [], sx_name := [], sx_started := False, sx_finished := False, sx_anyFail := False,
            sx_events := [], sx_report := report_new, sx_handles := Map.empty\<rparr>;
          content = (case file of None \<Rightarrow> [] | Some c \<Rightarrow> c)
      in if content = [] then (False, set_note (''open failed: '' @ path) sc0)
         else case parse content of
                Some (JObject ms) \<Rightarrow>
                  (case j_value get_string ''name'' [] (JObject ms) of
                     None \<Rightarrow> (False, set_note (''exception: '' @ what) sc0)
                   | Some name \<Rightarrow>
                       let sc1 = sc0\<lparr>sx_name := name\<rparr>
                       in case member_of ''steps'' (JObject ms) of
                            Some (JArray js) \<Rightarrow>
                              (case load_steps js sc1 of
                                 (False, sc2) \<Rightarrow> (False, set_note (''exception: '' @ what) sc2)
                               | (True, sc2) \<Rightarrow>
                                   (sx_steps sc2 \<noteq> [] \<or> \<not> sx_anyFail sc2, sc2\<lparr>sx_steps := sort_key sn_tMs (sx_steps sc2)\<rparr>))
                          | _ \<Rightarrow> (False, set_note (''missing steps[]: '' @ path) sc1))
              | _ \<Rightarrow> (False, set_note (''parse failed (invalid JSON): '' @ path) sc0))"

definition scenario_reset :: "ScenarioScript \<Rightarrow> ScenarioScript" where
  "scenario_reset sc = sc\<lparr>sx_steps := map (\<lambda>s. s\<lparr>sn_fired := False\<rparr>) (sx_steps sc), sx_started := False,
     sx_finished := False, sx_anyFail := False, sx_events := [], sx_report := report_new, sx_handles := Map.empty\<rparr>"

section \<open>The code: queries\<close>

definition scenario_loaded :: "ScenarioScript \<Rightarrow> bool" where
  "scenario_loaded sc \<longleftrightarrow> sx_steps sc \<noteq> []"

definition stepCount :: "ScenarioScript \<Rightarrow> nat" where
  "stepCount sc = length (sx_steps sc)"

definition lastStepEndMs :: "ScenarioScript \<Rightarrow> int" where
  "lastStepEndMs sc = foldl (\<lambda>e s. max e (sn_tMs s + sn_durationMs s)) 0 (sx_steps sc)"

definition allFired :: "ScenarioScript \<Rightarrow> bool" where
  "allFired sc \<longleftrightarrow> list_all sn_fired (sx_steps sc)"

section \<open>The code: injection and recovery\<close>

definition faultTypeFromCode :: "string \<Rightarrow> FaultType option" where
  "faultTypeFromCode code =
     (if code = ''FR-SIM-05a'' then Some OverTemp
      else if code = ''FR-SIM-05b'' then Some CellVoltage
      else if code = ''FR-SIM-05c'' then Some CommLoss
      else if code = ''FR-SIM-05d'' then Some CrcError
      else if code = ''FR-SIM-05e'' then Some FtTimeout
      else None)"

text \<open>\<open>snprintf\<close> with a buffer of 32 characters keeps 31; it reads the name up to a NUL.\<close>

definition c_str :: "string \<Rightarrow> string" where
  "c_str s = takeWhile (\<lambda>c. c \<noteq> CHR 0x00) s"

definition findPointBySuffix :: "SimPointTable \<Rightarrow> u8 \<Rightarrow> string \<Rightarrow> int \<Rightarrow> SimPoint option" where
  "findPointBySuffix pt slave reg idx =
     (let v = onSlave pt slave
      in if idx \<ge> 0
         then let pat3 = c_str (take 31 (''_'' @ c_str reg @ ''_'' @ pad3 (nat idx)));
                  patPlain = c_str (take 31 (''_'' @ c_str reg @ ''_'' @ show_nat (nat idx)))
              in find (\<lambda>p. sp_enabled p \<and> (ends_with pat3 (sp_pointName p) \<or> ends_with patPlain (sp_pointName p))) v
         else find (\<lambda>p. sp_enabled p \<and> ends_with (''_'' @ reg) (sp_pointName p)) v)"

definition handleKey :: "ScenarioStep \<Rightarrow> string" where
  "handleKey s = sn_fault s @ ''|'' @ sn_scope s @ ''|'' @ sn_slaveSpec s @ ''|'' @ sn_regName s"

definition appendEvent ::
  "ScenarioEnv \<Rightarrow> string \<Rightarrow> string \<Rightarrow> u8 \<Rightarrow> u16 \<Rightarrow> string \<Rightarrow> string \<Rightarrow> ScenarioScript \<Rightarrow> ScenarioScript" where
  "appendEvent env level event slave reg fault detail sc =
     sc\<lparr>sx_events := sx_events sc @ [JObject
       [(''detail'', JString detail), (''event'', JString event),
        (''fault'', if fault = [] then JNull else JString fault), (''level'', JString level),
        (''register'', JInt (uint reg)), (''slave'', JInt (uint slave)),
        (''ts'', JString (ev_stamp env (length (sx_events sc))))]]\<rparr>"

definition request_of :: "FaultType \<Rightarrow> ScenarioStep \<Rightarrow> u8 \<Rightarrow> u16 \<Rightarrow> Scope \<Rightarrow> FaultOverride" where
  "request_of type s slave reg sc = \<lparr>fo_type = type, fo_scope = sc, fo_slave = slave, fo_reg = reg,
     fo_targetValue = sn_targetValue s, fo_rampRate = sn_rampRate s, fo_recoverValue = 0, fo_corruptMs = 0,
     fo_durationMs = wrap_signed 32 (sn_durationMs s)\<rparr>"

type_synonym Inject = "ScenarioScript \<times> FaultInjector \<times> int"

definition handles_of :: "ScenarioScript \<Rightarrow> string \<Rightarrow> u32 list" where
  "handles_of sc k = (case sx_handles sc k of None \<Rightarrow> [] | Some hs \<Rightarrow> hs)"

text \<open>The lambda \<open>pushReq\<close>; the number counts the injections.\<close>

definition pushReq :: "ScenarioEnv \<Rightarrow> FaultType \<Rightarrow> ScenarioStep \<Rightarrow> u8 \<Rightarrow> u16 \<Rightarrow> Scope \<Rightarrow> Inject \<Rightarrow> Inject" where
  "pushReq env type s slave reg scope st =
     (case st of (sc, fi, n) \<Rightarrow>
        case ev_trigger env (fi_nextHandle fi) of (now1, now2) \<Rightarrow>
        case trigger fi (request_of type s slave reg scope) now1 now2 of (h, fi1) \<Rightarrow>
          if h = 0 then (add_note (''trigger failed slave='' @ show_nat (unat slave) @ ''; '') sc, fi1, n)
          else (appendEvent env ''WARN'' ''FAULT_INJECT'' slave reg (sn_fault s)
                  (''target='' @ show_fl (Fin (sn_targetValue s)) @ '' ramp='' @ show_fl (Fin (sn_rampRate s)) @
                   (if sn_alarmBit s \<ge> 0 then '' alarmBit='' @ show_int (sn_alarmBit s) else []))
                  (sc\<lparr>sx_handles := (sx_handles sc)(handleKey s \<mapsto> handles_of sc (handleKey s) @ [h])\<rparr>),
                fi1, n + 1))"

definition inject_cell :: "ScenarioEnv \<Rightarrow> FaultType \<Rightarrow> SimPointTable \<Rightarrow> ScenarioStep \<Rightarrow> u8 \<Rightarrow> int \<Rightarrow> Inject \<Rightarrow> Inject" where
  "inject_cell env type pt s slave i st =
     (case findPointBySuffix pt slave (sn_regName s) i of
        None \<Rightarrow> (case st of (sc, fi, n) \<Rightarrow>
          (add_note (''point '' @ quoted (sn_regName s @ ''_'' @ show_int i) @ '' not found on slave '' @ show_nat (unat slave) @ ''; '') sc, fi, n))
      | Some p \<Rightarrow> pushReq env type s slave (sp_registerAddr p) SC_POINT st)"

definition inject_point :: "ScenarioEnv \<Rightarrow> FaultType \<Rightarrow> SimPointTable \<Rightarrow> ScenarioStep \<Rightarrow> u8 \<Rightarrow> Inject \<Rightarrow> Inject" where
  "inject_point env type pt s slave st =
     (case findPointBySuffix pt slave (sn_regName s) (-1) of
        None \<Rightarrow> st
      | Some p \<Rightarrow> pushReq env type s slave (sp_registerAddr p) SC_POINT st)"

definition count_fault :: "string \<Rightarrow> int \<Rightarrow> (string \<times> int) list \<Rightarrow> (string \<times> int) list" where
  "count_fault code n fs =
     (if list_ex (\<lambda>e. fst e = code) fs
      then snd (update_first (\<lambda>e. fst e = code) (\<lambda>e. (fst e, snd e + n)) fs)
      else if n > 0 then fs @ [(code, n)] else fs)"

definition step_slaves :: "SimPointTable \<Rightarrow> ScenarioStep \<Rightarrow> u8 list option" where
  "step_slaves pt s =
     (if sn_slaveSpec s = ''ALL'' then Some (allSlaveIds pt)
      else let sid = toInt64 (sn_slaveSpec s) 0
           in if sid \<le> 0 \<or> sid > 255 then None else Some [word_of_int sid])"

definition fireInject ::
  "ScenarioEnv \<Rightarrow> SimPointTable \<Rightarrow> ScenarioStep \<Rightarrow> ScenarioScript \<times> FaultInjector \<Rightarrow> ScenarioScript \<times> FaultInjector" where
  "fireInject env pt s st =
     (case st of (sc, fi) \<Rightarrow>
        case faultTypeFromCode (sn_fault s) of
          None \<Rightarrow>
            (appendEvent env ''ERROR'' ''FAULT_INJECT_UNKNOWN'' 0 0 (sn_fault s) ''unknown fault code''
               (add_note (''unknown fault code '' @ quoted (sn_fault s) @ ''; '') sc), fi)
        | Some type \<Rightarrow>
            (case step_slaves pt s of
               None \<Rightarrow> (add_note (''bad slave '' @ quoted (sn_slaveSpec s) @ ''; '') sc, fi)
             | Some slaves \<Rightarrow>
                 let link = (type = CommLoss \<or> sn_scope s = ''pcs'' \<or> sn_scope s = ''link'')
                 in if \<not> link \<and> sn_regName s = []
                    then (add_note (''register required for scope '' @ quoted (sn_scope s) @ ''; '') sc, fi)
                    else case (if link
                               then fold (\<lambda>slave. pushReq env type s slave 0 SC_SLAVE) slaves (sc, fi, 0)
                               else if sn_scope s = ''cell'' \<and> sn_count s > 1
                               then fold (\<lambda>slave. fold (inject_cell env type pt s slave) [0..sn_count s - 1]) slaves (sc, fi, 0)
                               else fold (inject_point env type pt s) slaves (sc, fi, 0)) of
                      (sc1, fi1, n) \<Rightarrow>
                        (sc1\<lparr>sx_report := (sx_report sc1)\<lparr>rp_faultsInjected :=
                           count_fault (sn_fault s) n (rp_faultsInjected (sx_report sc1))\<rparr>\<rparr>, fi1)))"

definition fireRecover ::
  "ScenarioEnv \<Rightarrow> ScenarioStep \<Rightarrow> ScenarioScript \<times> FaultInjector \<Rightarrow> ScenarioScript \<times> FaultInjector" where
  "fireRecover env s st =
     (case st of (sc, fi) \<Rightarrow>
        let key = handleKey s
        in case handles_of sc key of
             [] \<Rightarrow> (appendEvent env ''INFO'' ''FAULT_RECOVER_SKIP'' 0 0 (sn_fault s) ''no matching inject handle'' sc, fi)
           | h # hs \<Rightarrow>
               if sn_slaveSpec s = ''ALL''
               then ((appendEvent env ''INFO'' ''FAULT_RECOVER'' 0 0 (sn_fault s)
                        (''recovering ALL ('' @ show_nat (length (h # hs)) @ '' handles) target='' @ show_fl (Fin (sn_targetValue s))) sc)
                       \<lparr>sx_handles := (sx_handles sc)(key \<mapsto> [])\<rparr>,
                     fold (\<lambda>h fi. snd (recover fi h (sn_targetValue s) (ev_recover env h))) (h # hs) fi)
               else let sc1 = sc\<lparr>sx_handles := (sx_handles sc)(key \<mapsto> hs)\<rparr>
                    in case recover fi h (sn_targetValue s) (ev_recover env h) of
                         (ok, fi1) \<Rightarrow>
                           (appendEvent env ''INFO'' ''FAULT_RECOVER'' 0 0 (sn_fault s) (''recovering handle='' @ show_nat (unat h))
                              (if ok then sc1 else add_note (''recover failed handle='' @ show_nat (unat h) @ ''; '') sc1), fi1))"

section \<open>The code: the clock\<close>

definition fire :: "ScenarioEnv \<Rightarrow> SimPointTable \<Rightarrow> ScenarioStep \<Rightarrow> ScenarioScript \<times> FaultInjector \<Rightarrow> ScenarioScript \<times> FaultInjector" where
  "fire env pt s st =
     (if sn_action s = ''INJECT'' then fireInject env pt s st
      else if sn_action s = ''RECOVER'' then fireRecover env s st else st)"

text \<open>The loop over the steps; a fired step does not look at the others, so the list is rebuilt beside it.\<close>

fun drive_steps ::
  "ScenarioEnv \<Rightarrow> int \<Rightarrow> SimPointTable \<Rightarrow> ScenarioStep list \<Rightarrow> ScenarioScript \<times> FaultInjector
    \<Rightarrow> nat \<times> ScenarioStep list \<times> ScenarioScript \<times> FaultInjector" where
  "drive_steps env now pt [] st = (0, [], st)"
| "drive_steps env now pt (s # ss) st =
     (if sn_fired s \<or> sn_tMs s > now
      then case drive_steps env now pt ss st of (n, ss', st') \<Rightarrow> (n, s # ss', st')
      else case drive_steps env now pt ss (fire env pt (s\<lparr>sn_fired := True\<rparr>) st) of
             (n, ss', st') \<Rightarrow> (n + 1, s\<lparr>sn_fired := True\<rparr> # ss', st'))"

definition drive ::
  "ScenarioEnv \<Rightarrow> int \<Rightarrow> SimPointTable \<Rightarrow> ScenarioScript \<times> FaultInjector \<Rightarrow> nat \<times> ScenarioScript \<times> FaultInjector" where
  "drive env now pt st =
     (case st of (sc, fi) \<Rightarrow>
        let sc1 = (if \<not> sx_started sc then sc\<lparr>sx_startMs := now, sx_started := True\<rparr> else sc)
        in case drive_steps env now pt (sx_steps sc1) (sc1, fi) of
             (n, ss, sc2, fi2) \<Rightarrow> (n, sc2\<lparr>sx_steps := ss\<rparr>, fi2))"

section \<open>The code: the report\<close>

definition finishReport :: "int \<Rightarrow> bool \<Rightarrow> ScenarioScript \<Rightarrow> ScenarioScript" where
  "finishReport durationMs aborted sc =
     (let notes = rp_notes (sx_report sc);
          more_notes = (\<lambda>t. (if notes = [] then [] else notes @ ''; '') @ t);
          rep = (sx_report sc)\<lparr>rp_scenarioName := sx_name sc, rp_durationMs := durationMs\<rparr>;
          rep1 = (if aborted then rep\<lparr>rp_result := ''INCONCLUSIVE'', rp_notes := more_notes ''scenario aborted before completion''\<rparr>
                  else if sx_anyFail sc then rep\<lparr>rp_result := ''FAIL''\<rparr>
                  else if allFired sc then rep\<lparr>rp_result := ''PASS''\<rparr>
                  else rep\<lparr>rp_result := ''INCONCLUSIVE'', rp_notes := more_notes ''not all steps fired''\<rparr>)
      in sc\<lparr>sx_finished := True, sx_report := rep1\<rparr>)"

text \<open>The members of an object are printed in the order of their names.\<close>

definition reportJson :: "(json \<Rightarrow> string) \<Rightarrow> ScenarioScript \<Rightarrow> string" where
  "reportJson dump2 sc =
     (let r = sx_report sc
      in dump2 (JObject [(''badFramesDropped'', JInt (rp_badFramesDropped r)), (''durationMs'', JInt (rp_durationMs r)),
           (''faultsInjected'', JArray (map (\<lambda>(code, n). JObject [(''count'', JInt n), (''fault'', JString code)]) (rp_faultsInjected r))),
           (''linkLossEvents'', JInt (rp_linkLossEvents r)), (''notes'', JString (rp_notes r)),
           (''result'', JString (rp_result r)), (''scenario'', JString (rp_scenarioName r))]))"

definition eventsJsonl :: "(json \<Rightarrow> string) \<Rightarrow> ScenarioScript \<Rightarrow> string" where
  "eventsJsonl dump sc = concat (map (\<lambda>e. dump e @ [CHR 0x0A]) (sx_events sc))"

section \<open>A drive fires the steps that are due\<close>

definition due :: "int \<Rightarrow> ScenarioStep list \<Rightarrow> ScenarioStep list" where
  "due now ss = filter (\<lambda>s. \<not> sn_fired s \<and> sn_tMs s \<le> now) ss"

definition mark :: "int \<Rightarrow> ScenarioStep \<Rightarrow> ScenarioStep" where
  "mark now s = (if sn_tMs s \<le> now then s\<lparr>sn_fired := True\<rparr> else s)"

definition fire_all ::
  "ScenarioEnv \<Rightarrow> SimPointTable \<Rightarrow> ScenarioStep list \<Rightarrow> ScenarioScript \<times> FaultInjector \<Rightarrow> ScenarioScript \<times> FaultInjector" where
  "fire_all env pt ss st = fold (\<lambda>s. fire env pt (s\<lparr>sn_fired := True\<rparr>)) ss st"

lemma mark_fields [simp]: "sn_tMs (mark now s) = sn_tMs s" "sn_fired (mark now s) = (sn_fired s \<or> sn_tMs s \<le> now)"
  by (simp_all add: mark_def)

lemma fired_mark: "sn_fired s \<Longrightarrow> mark now s = s"
  by (cases s) (simp add: mark_def)

lemma drive_steps_due:
  "drive_steps env now pt ss st = (length (due now ss), map (mark now) ss, fire_all env pt (due now ss) st)"
proof (induction ss arbitrary: st)
  case (Cons s ss)
  show ?case
    by (auto simp: Cons.IH due_def fire_all_def not_le not_less fired_mark) (auto simp: mark_def)
qed (simp add: due_def fire_all_def)

text \<open>The plan of a script: its steps and the record of its start. Firing a step neither reads nor changes it.\<close>

definition set_plan :: "ScenarioStep list \<times> int \<times> bool \<Rightarrow> ScenarioScript \<Rightarrow> ScenarioScript" where
  "set_plan p sc = sc\<lparr>sx_steps := fst p, sx_startMs := fst (snd p), sx_started := snd (snd p)\<rparr>"

lemma set_plan_move:
  "(set_plan p sc)\<lparr>sx_handles := h\<rparr> = set_plan p (sc\<lparr>sx_handles := h\<rparr>)"
  "(set_plan p sc)\<lparr>sx_report := r\<rparr> = set_plan p (sc\<lparr>sx_report := r\<rparr>)"
  "sx_handles (set_plan p sc) = sx_handles sc" "sx_report (set_plan p sc) = sx_report sc"
  "handles_of (set_plan p sc) k = handles_of sc k"
  "add_note n (set_plan p sc) = set_plan p (add_note n sc)"
  "appendEvent env a b c d e f (set_plan p sc) = set_plan p (appendEvent env a b c d e f sc)"
  by (cases sc; simp add: set_plan_def handles_of_def add_note_def appendEvent_def)+

lemma fold_through: "(\<And>x st. f x (h st) = h (f x st)) \<Longrightarrow> fold f xs (h st) = h (fold f xs st)"
  by (induction xs arbitrary: st) simp_all

lemma pushReq_plan: "pushReq env type s slave reg scope (apfst (set_plan p) st) = apfst (set_plan p) (pushReq env type s slave reg scope st)"
  by (cases st) (simp add: pushReq_def set_plan_move split: prod.split)

lemma inject_plan:
  "inject_cell env type pt s slave i (apfst (set_plan p) st) = apfst (set_plan p) (inject_cell env type pt s slave i st)"
  "inject_point env type pt s slave (apfst (set_plan p) st) = apfst (set_plan p) (inject_point env type pt s slave st)"
  by (cases st; simp add: inject_cell_def inject_point_def set_plan_move pushReq_plan [of _ _ _ _ _ _ _ "(_, _, _)", simplified]
      split: option.split)+

lemma fireInject_plan: "fireInject env pt s (apfst (set_plan p) st) = apfst (set_plan p) (fireInject env pt s st)"
proof -
  have link: "fold (\<lambda>slave. pushReq env type s slave 0 SC_SLAVE) xs (set_plan p sc, fi, n) =
      apfst (set_plan p) (fold (\<lambda>slave. pushReq env type s slave 0 SC_SLAVE) xs (sc, fi, n))" for type xs sc fi n
    using fold_through [of "\<lambda>slave. pushReq env type s slave 0 SC_SLAVE" "apfst (set_plan p)" xs "(sc, fi, n)", OF pushReq_plan]
    by simp
  have cell: "fold (inject_cell env type pt s slave) js (apfst (set_plan p) st) =
      apfst (set_plan p) (fold (inject_cell env type pt s slave) js st)" for type slave js st
    by (rule fold_through) (rule inject_plan(1))
  have cells: "fold (\<lambda>slave. fold (inject_cell env type pt s slave) js) xs (set_plan p sc, fi, n) =
      apfst (set_plan p) (fold (\<lambda>slave. fold (inject_cell env type pt s slave) js) xs (sc, fi, n))" for type js xs sc fi n
    using fold_through [of "\<lambda>slave. fold (inject_cell env type pt s slave) js" "apfst (set_plan p)" xs "(sc, fi, n)", OF cell]
    by simp
  have point: "fold (inject_point env type pt s) xs (set_plan p sc, fi, n) =
      apfst (set_plan p) (fold (inject_point env type pt s) xs (sc, fi, n))" for type xs sc fi n
    using fold_through [of "inject_point env type pt s" "apfst (set_plan p)" xs "(sc, fi, n)", OF inject_plan(2)] by simp
  show ?thesis
    by (cases st) (simp add: fireInject_def set_plan_move link cells point Let_def split: option.split prod.split)
qed

lemma fireRecover_plan: "fireRecover env s (apfst (set_plan p) st) = apfst (set_plan p) (fireRecover env s st)"
  by (cases st) (simp add: fireRecover_def set_plan_move Let_def split: list.split prod.split)

lemma fire_all_plan: "fire_all env pt ss (apfst (set_plan p) st) = apfst (set_plan p) (fire_all env pt ss st)"
  unfolding fire_all_def by (rule fold_through) (simp add: fire_def fireInject_plan fireRecover_plan)

lemma set_plan_twice [simp]: "set_plan p (set_plan q sc) = set_plan p sc"
  by (cases sc) (simp add: set_plan_def)

definition start_of :: "ScenarioScript \<Rightarrow> int \<Rightarrow> int" where
  "start_of sc now = (if sx_started sc then sx_startMs sc else now)"

lemma drive_eq:
  "drive env now pt (sc, fi) = (length (due now (sx_steps sc)),
    apfst (set_plan (map (mark now) (sx_steps sc), start_of sc now, True)) (fire_all env pt (due now (sx_steps sc)) (sc, fi)))"
proof -
  let ?p = "(sx_steps sc, start_of sc now, True)"
  have start0: "(if \<not> sx_started sc then sc\<lparr>sx_startMs := now, sx_started := True\<rparr> else sc) = set_plan ?p sc"
    by (cases sc) (simp add: set_plan_def start_of_def)
  have steps: "sx_steps (set_plan ?p sc) = sx_steps sc" by (simp add: set_plan_def)
  have over: "(set_plan ?p x)\<lparr>sx_steps := ss\<rparr> = set_plan (ss, start_of sc now, True) x" for x ss
    by (cases x) (simp add: set_plan_def)
  have fired: "fire_all env pt (due now (sx_steps sc)) (set_plan ?p sc, fi) =
      apfst (set_plan ?p) (fire_all env pt (due now (sx_steps sc)) (sc, fi))"
    using fire_all_plan [of env pt "due now (sx_steps sc)" ?p "(sc, fi)"] by simp
  show ?thesis
    by (cases "fire_all env pt (due now (sx_steps sc)) (sc, fi)")
      (simp add: drive_def start0 steps drive_steps_due fired over Let_def)
qed

lemma drive_fields:
  assumes "drive env now pt (sc, fi) = (n, sc', fi')"
  shows "sx_steps sc' = map (mark now) (sx_steps sc)" and "sx_started sc'" and "sx_startMs sc' = start_of sc now"
  using assms by (auto simp: drive_eq set_plan_def apfst_def map_prod_def split: prod.splits)

lemma due_split:
  "sorted (map sn_tMs ss) \<Longrightarrow> a \<le> b \<Longrightarrow> due b ss = due a ss @ due b (map (mark a) ss)"
proof (induction ss)
  case (Cons s ss)
  have late: "due a ss = []" if "a < sn_tMs s"
    using Cons.prems(1) that by (fastforce simp: due_def filter_empty_conv)
  have "mark a s = s" if "a < sn_tMs s" using that by (simp add: mark_def)
  with late Cons show ?case by (auto simp: due_def not_le)
qed (simp add: due_def)

lemma mark_mark: "a \<le> b \<Longrightarrow> mark b (mark a s) = mark b s"
  by (cases s) (simp add: mark_def)

lemma fire_all_append: "fire_all env pt (xs @ ys) st = fire_all env pt ys (fire_all env pt xs st)"
  by (simp add: fire_all_def)

lemma drive_twice:
  assumes "sorted (map sn_tMs (sx_steps sc))" and "a \<le> b" and "drive env a pt (sc, fi) = (n, sc', fi')"
  shows "snd (drive env b pt (sc', fi')) =
    apfst (\<lambda>s. s\<lparr>sx_startMs := start_of sc a\<rparr>) (snd (drive env b pt (sc, fi)))"
    and "n + fst (drive env b pt (sc', fi')) = fst (drive env b pt (sc, fi))"
proof -
  let ?ss = "sx_steps sc" and ?p = "(map (mark a) (sx_steps sc), start_of sc a, True)"
  have n: "n = length (due a ?ss)" and st: "(sc', fi') = apfst (set_plan ?p) (fire_all env pt (due a ?ss) (sc, fi))"
    using assms(3) by (simp_all add: drive_eq)
  note f = drive_fields [OF assms(3)]
  have start: "start_of sc' b = start_of sc a" using f by (simp add: start_of_def)
  have marks: "map (mark b) (sx_steps sc') = map (mark b) ?ss" using assms(2) by (simp add: f mark_mark)
  have dues: "due b ?ss = due a ?ss @ due b (sx_steps sc')" unfolding f by (rule due_split [OF assms(1,2)])
  have "fire_all env pt (due b (sx_steps sc')) (sc', fi') = apfst (set_plan ?p) (fire_all env pt (due b ?ss) (sc, fi))"
    unfolding st fire_all_plan dues fire_all_append ..
  then show "snd (drive env b pt (sc', fi')) =
      apfst (\<lambda>s. s\<lparr>sx_startMs := start_of sc a\<rparr>) (snd (drive env b pt (sc, fi)))"
    by (simp add: drive_eq [of _ _ _ sc'] drive_eq [of _ _ _ sc] marks start)
      (cases "fire_all env pt (due b ?ss) (sc, fi)"; simp add: set_plan_def)
  show "n + fst (drive env b pt (sc', fi')) = fst (drive env b pt (sc, fi))" by (simp add: drive_eq n dues)
qed

text \<open>The drives at the times \<open>ts\<close>, with the number of steps fired.\<close>

fun drives :: "ScenarioEnv \<Rightarrow> SimPointTable \<Rightarrow> int list \<Rightarrow> ScenarioScript \<times> FaultInjector \<Rightarrow> nat \<times> ScenarioScript \<times> FaultInjector" where
  "drives env pt [] st = (0, st)"
| "drives env pt (t # ts) st =
     (case drive env t pt st of (n, st1) \<Rightarrow> (case drives env pt ts st1 of (m, st2) \<Rightarrow> (n + m, st2)))"

lemma drives_once:
  assumes "sorted (map sn_tMs (sx_steps sc))" and "sorted (ts @ [t])"
  shows "drives env pt (ts @ [t]) (sc, fi) = (case drive env t pt (sc, fi) of (n, sc', fi') \<Rightarrow>
    (n, sc'\<lparr>sx_startMs := start_of sc (hd (ts @ [t]))\<rparr>, fi'))"
  using assms
proof (induction ts arbitrary: sc fi)
  case Nil
  have "s = s\<lparr>sx_startMs := sx_startMs s\<rparr>" for s :: ScenarioScript by simp
  then show ?case using drive_fields(3) by (auto split: prod.split)
next
  case (Cons a ts)
  obtain n sc' fi' where one: "drive env a pt (sc, fi) = (n, sc', fi')" by (rule prod_cases3)
  have ss: "sorted (map sn_tMs (sx_steps sc'))"
    using Cons.prems(1) by (simp add: drive_fields(1) [OF one] comp_def)
  have "a \<le> t" using Cons.prems(2) by simp
  note twice = drive_twice [OF Cons.prems(1) this one]
  obtain m sc2 fi2 where two: "drive env t pt (sc', fi') = (m, sc2, fi2)" by (rule prod_cases3)
  obtain k sc3 fi3 where all: "drive env t pt (sc, fi) = (k, sc3, fi3)" by (rule prod_cases3)
  have eq: "sc2 = sc3\<lparr>sx_startMs := start_of sc a\<rparr>" "fi2 = fi3" "n + m = k" using twice two all by simp_all
  have "start_of sc' (hd (ts @ [t])) = start_of sc a" using drive_fields(2,3) [OF one] by (simp add: start_of_def)
  then show ?case using Cons.IH [OF ss, of fi'] Cons.prems(2) one two all eq by simp
qed

lemma load_sorted: "scenario_load parse what path file sc0 = (True, sc) \<Longrightarrow> sorted (map sn_tMs (sx_steps sc))"
  by (auto simp: scenario_load_def Let_def split: if_splits option.splits json.splits prod.splits bool.splits)

lemma load_steps_unfired:
  "load_steps js sc = (ok, sc') \<Longrightarrow> list_all (\<lambda>s. \<not> sn_fired s) (sx_steps sc) \<Longrightarrow> list_all (\<lambda>s. \<not> sn_fired s) (sx_steps sc')"
proof (induction js arbitrary: sc)
  case (Cons j js)
  have "\<not> sn_fired s" if "parse_step j = Some s" for s
    using that by (auto simp: parse_step_def bind_eq_Some_conv)
  then show ?case using Cons by (auto simp: add_note_def split: option.splits if_splits)
qed simp

lemma load_unfired: "scenario_load parse what path file sc0 = (True, sc) \<Longrightarrow> list_all (\<lambda>s. \<not> sn_fired s) (sx_steps sc)"
  by (auto simp: scenario_load_def Let_def list_all_iff dest!: load_steps_unfired
      split: if_splits option.splits json.splits prod.splits bool.splits)

lemma drive_all_fired:
  assumes "drive env t pt (sc, fi) = (n, sc', fi')"
  shows "allFired sc' \<longleftrightarrow> (\<forall>s \<in> set (sx_steps sc). sn_fired s \<or> sn_tMs s \<le> t)"
  by (simp add: allFired_def drive_fields(1) [OF assms] list_all_iff)

text \<open>Property C36: a drill does not depend on how its clock is cut. A script that loads, driven at any ascending
  times, leaves the injector, the events, the handles, the report and the steps as one drive at the last of
  the times does, fires as many steps, and remembers the first of the times as its start; all steps have
  fired if and only if none lies after the last time. So each step fires once, in the order of the times of
  the script, at the first tick that is not before it.\<close>

theorem drive_granularity:
  assumes "scenario_load parse what path file sc0 = (True, sc)" and "sorted (ts @ [t])"
    and "drive env t pt (sc, fi) = (n, sc', fi')"
  shows "drives env pt (ts @ [t]) (sc, fi) = (n, sc'\<lparr>sx_startMs := start_of sc (hd (ts @ [t]))\<rparr>, fi') \<and>
    (allFired sc' \<longleftrightarrow> (\<forall>s \<in> set (sx_steps sc). sn_fired s \<or> sn_tMs s \<le> t))"
  using drives_once [OF load_sorted [OF assms(1)] assms(2), of env pt fi] drive_all_fired [OF assms(3)] assms(3) by simp

definition demo_step :: "int \<Rightarrow> string \<Rightarrow> json" where
  "demo_step t action = JObject [(''action'', JString action), (''fault'', JString ''FR-SIM-05c''),
     (''scope'', JString ''link''), (''slave'', JInt 3), (''t'', JInt t)]"

definition demo_drill :: json where
  "demo_drill = JObject [(''name'', JString ''link''), (''steps'', JArray [demo_step 50 ''RECOVER'', demo_step 0 ''INJECT''])]"

definition demo_script :: ScenarioScript where
  "demo_script = snd (scenario_load (\<lambda>_. Some demo_drill) [] ''drill.json'' (Some ''{}'') script_new)"

lemma demo_script_loads: "scenario_load (\<lambda>_. Some demo_drill) [] ''drill.json'' (Some ''{}'') script_new = (True, demo_script)"
  and demo_script_times: "map sn_tMs (sx_steps demo_script) = [0, 50]" and demo_script_started: "\<not> sx_started demo_script"
  by (simp_all add: demo_script_def scenario_load_def demo_drill_def demo_step_def parse_step_def j_value_def
    add_note_def wrap_signed_def Let_def)

definition demo_env :: ScenarioEnv where
  "demo_env = \<lparr>ev_stamp = (\<lambda>_. ''now''), ev_trigger = (\<lambda>_. (0, 0)), ev_recover = (\<lambda>_. 0)\<rparr>"

lemma sorted_demo: "sorted ([0, 20, 40] @ [60 :: int])"
  by simp

theorem drive_granularity_witness:
  "\<exists>n sc fi. drives demo_env \<lparr>st_bySlave = Map.empty, st_byName = Map.empty\<rparr> ([0, 20, 40] @ [60]) (demo_script, injector_new)
    = (n, sc\<lparr>sx_startMs := 0\<rparr>, fi) \<and> allFired sc"
proof -
  obtain n sc fi where "drive demo_env 60 \<lparr>st_bySlave = Map.empty, st_byName = Map.empty\<rparr> (demo_script, injector_new) = (n, sc, fi)"
    by (rule prod_cases3)
  moreover have "\<forall>s \<in> set (sx_steps demo_script). sn_fired s \<or> sn_tMs s \<le> 60"
    using arg_cong [OF demo_script_times, of "list_all (\<lambda>t. t \<le> 60)"] by (simp add: list.pred_map list_all_iff)
  moreover have "start_of demo_script (hd ([0, 20, 40] @ [60])) = 0" by (simp add: start_of_def demo_script_started)
  ultimately show ?thesis
    using drive_granularity [OF demo_script_loads sorted_demo, of demo_env "\<lparr>st_bySlave = Map.empty, st_byName = Map.empty\<rparr>"]
    by force
qed

end
