(* ===== verification/SimEngine.thy ===== *)
theory SimEngine
  imports SimGen Scenario
begin

text \<open>
  The conductor of the simulator, \<^verbatim>\<open>sim/SimulatorEngine.h\<close> and \<^verbatim>\<open>.cpp\<close>, and the life of the slave
  emulator it owns, \<^verbatim>\<open>sim/modbus_slave_emulator.h\<close> and \<^verbatim>\<open>.cpp\<close>, both under
  \<^verbatim>\<open>apps/device_simulator/src\<close>. An owned object that may be absent is an option; the pointers the emulator
  and the generator hold to the bank and the injector refer to the objects of the engine. Opening a
  socket or a serial port, starting a thread, reading and parsing a file, the clocks and the text of an exception are
  parameters in a record. A pass of the tick thread, a call of a command and a request of a client are
  each one step.
\<close>

section \<open>The code: the slave emulator\<close>

text \<open>A transport is open until it is closed; it holds the handler and the injector it was given.\<close>

datatype TransportKind = TcpServer u16 | RtuSlavePort

record SlaveTransport =
  tn_kind :: TransportKind
  tn_open :: bool
  tn_handler :: bool
  tn_fi :: bool

record SlaveEmulator =
  em_transports :: "SlaveTransport list"
  em_slaves :: "SlaveRuntime list"
  em_bank :: bool
  em_running :: bool
  em_tcpEnabled :: bool
  em_rtuEnabled :: bool
  em_fi :: bool

definition emulator_new :: SlaveEmulator where
  "emulator_new = \<lparr>em_transports = [], em_slaves = [], em_bank = False, em_running = False,
     em_tcpEnabled = False, em_rtuEnabled = False, em_fi = False\<rparr>"

definition setFaultInjector :: "bool \<Rightarrow> SlaveEmulator \<Rightarrow> SlaveEmulator" where
  "setFaultInjector fi e = e\<lparr>em_fi := fi\<rparr>"

definition emu_tcpPort :: "SlaveEmulator \<Rightarrow> u16" where
  "emu_tcpPort e =
     (case find (\<lambda>t. tn_kind t \<noteq> RtuSlavePort) (em_transports e) of
        Some t \<Rightarrow> (case tn_kind t of TcpServer p \<Rightarrow> p | RtuSlavePort \<Rightarrow> 0)
      | None \<Rightarrow> 0)"

definition emu_rtuPort :: "SlaveEmulator \<Rightarrow> string" where
  "emu_rtuPort e = (if list_ex (\<lambda>t. tn_kind t = RtuSlavePort) (em_transports e) then ''COM'' else [])"

definition runtime_of :: "SlaveSpec \<Rightarrow> SlaveRuntime" where
  "runtime_of ss = \<lparr>rt_slaveId = ss_slaveId ss, rt_kind = ss_kind ss, rt_transport = ss_transport ss\<rparr>"

definition installDispatchHandler :: "SlaveEmulator \<Rightarrow> SlaveEmulator" where
  "installDispatchHandler e =
     e\<lparr>em_transports := map (\<lambda>t. t\<lparr>tn_handler := True, tn_fi := em_fi e\<rparr>) (em_transports e)\<rparr>"

text \<open>What the operating system grants: the port of a listening socket, a serial port.\<close>

record SimEnv =
  en_tcpOpen :: "string \<Rightarrow> u16 \<Rightarrow> u16 option"
  en_rtuOpen :: "string \<Rightarrow> u32 \<Rightarrow> bool"
  en_thread :: "string option"
  en_read :: "string \<Rightarrow> string option"
  en_parse :: "string \<Rightarrow> json option"
  en_what :: "LoadError \<Rightarrow> string"
  en_scriptWhat :: string
  en_ulongMax :: nat
  en_order :: "u8 list"
  en_phy :: PhysicsConstants
  en_dump :: "json \<Rightarrow> string"
  en_dump2 :: "json \<Rightarrow> string"
  en_fopen :: "string \<Rightarrow> string \<Rightarrow> bool"

text \<open>A failing port leaves what was set before; the transports opened before stay open.\<close>

definition open_tcp :: "SimEnv \<Rightarrow> SimConfig \<Rightarrow> SlaveEmulator \<Rightarrow> bool \<times> SlaveEmulator" where
  "open_tcp env cfg e =
     (if \<not> sc_tcpEnabled cfg then (True, e)
      else case en_tcpOpen env (sc_bindIp cfg) (sc_tcpPort cfg) of
        None \<Rightarrow> (False, e)
      | Some p \<Rightarrow> (True, e\<lparr>em_transports := em_transports e @
            [\<lparr>tn_kind = TcpServer p, tn_open = True, tn_handler = False, tn_fi = False\<rparr>]\<rparr>))"

definition open_rtu :: "SimEnv \<Rightarrow> SimConfig \<Rightarrow> SlaveEmulator \<Rightarrow> bool \<times> SlaveEmulator" where
  "open_rtu env cfg e =
     (if \<not> sc_rtuEnabled cfg then (True, e)
      else if \<not> en_rtuOpen env (sc_rtuDev cfg) (sc_baudRate cfg) then (False, e)
      else (True, e\<lparr>em_transports := em_transports e @
            [\<lparr>tn_kind = RtuSlavePort, tn_open = True, tn_handler = False, tn_fi = False\<rparr>]\<rparr>))"

definition emu_start :: "SimEnv \<Rightarrow> SimConfig \<Rightarrow> bool \<Rightarrow> SlaveEmulator \<Rightarrow> bool \<times> SlaveEmulator" where
  "emu_start env cfg bank e =
     (if em_running e then (True, e)
      else if \<not> bank then (False, e)
      else case open_tcp env cfg (e\<lparr>em_bank := True, em_tcpEnabled := sc_tcpEnabled cfg, em_rtuEnabled := sc_rtuEnabled cfg,
                  em_slaves := map runtime_of (sc_slaves cfg), em_transports := []\<rparr>) of
        (False, e1) \<Rightarrow> (False, e1)
      | (True, e1) \<Rightarrow>
          (case open_rtu env cfg e1 of
             (False, e2) \<Rightarrow> (False, e2)
           | (True, e2) \<Rightarrow> (True, (installDispatchHandler e2)\<lparr>em_running := True\<rparr>)))"

definition emu_stop :: "SlaveEmulator \<Rightarrow> SlaveEmulator" where
  "emu_stop e = (if \<not> em_running e \<and> em_transports e = [] then e else e\<lparr>em_transports := [], em_running := False\<rparr>)"

definition activeTransportCount :: "SlaveEmulator \<Rightarrow> nat" where
  "activeTransportCount e = length (filter tn_open (em_transports e))"

definition emu_findSlave :: "u8 \<Rightarrow> SlaveEmulator \<Rightarrow> SlaveRuntime option" where
  "emu_findSlave sid e = find (\<lambda>s. rt_slaveId s = sid) (em_slaves e)"

section \<open>The code: the engine\<close>

record SimulatorEngine =
  se_bank :: "RegisterBank option"
  se_pt :: "SimPointTable option"
  se_gen :: "PointGenerator option"
  se_emu :: "SlaveEmulator option"
  se_fi :: "FaultInjector option"
  se_scenario :: "ScenarioScript option"
  se_scenarioPath :: string
  se_scenarioRunning :: bool
  se_exportDir :: string
  se_joinable :: bool
  se_running :: bool
  se_tickStop :: bool
  se_tickCount :: u64
  se_tickMs :: u32
  se_lastError :: string

definition simEngine_new :: SimulatorEngine where
  "simEngine_new = \<lparr>se_bank = None, se_pt = None, se_gen = None, se_emu = None, se_fi = None, se_scenario = None,
     se_scenarioPath = [], se_scenarioRunning = False, se_exportDir = [], se_joinable = False, se_running = False,
     se_tickStop = False, se_tickCount = 0, se_tickMs = 100, se_lastError = []\<rparr>"

text \<open>The resets of a failed start, in the order of the code; the scenario survives a failure of the emulator.\<close>

definition drop_parts :: "SimulatorEngine \<Rightarrow> SimulatorEngine" where
  "drop_parts s = s\<lparr>se_emu := None, se_gen := None, se_bank := None, se_fi := None, se_pt := None\<rparr>"

definition drop_all :: "SimulatorEngine \<Rightarrow> SimulatorEngine" where
  "drop_all s = (drop_parts s)\<lparr>se_scenario := None\<rparr>"

definition baseline :: "SlaveSpec list \<Rightarrow> RegisterBank" where
  "baseline slaves = fold (\<lambda>ss b.
     let n = (if ss_regCount ss > 0 then unat (ss_regCount ss) else 256)
     in install b (ss_slaveId ss) (Some (SlaveRegset_allocate (ss_slaveId ss) n n))) slaves bank_new"

definition loadScenario :: "SimEnv \<Rightarrow> string \<Rightarrow> SimulatorEngine \<Rightarrow> bool \<times> SimulatorEngine" where
  "loadScenario env path s =
     (if path = [] then (False, s)
      else case scenario_load (en_parse env) (en_scriptWhat env) path (en_read env path) script_new of
        (False, _) \<Rightarrow> (False, s\<lparr>se_lastError := ''loadScenario failed: '' @ path\<rparr>)
      | (True, sc) \<Rightarrow> (True, s\<lparr>se_scenario := Some sc, se_scenarioRunning := True\<rparr>))"

definition with_slaves :: "SimConfig \<Rightarrow> SimPointTable \<Rightarrow> SimConfig" where
  "with_slaves cfg pt = (if sc_slaves cfg = [] then cfg\<lparr>sc_slaves := fromPointTable pt\<rparr> else cfg)"

text \<open>Steps 5 to 7 of \<open>start\<close>, the parts built and the emulator started.\<close>

definition build_parts :: "SimEnv \<Rightarrow> SimConfig \<Rightarrow> SimPointTable \<Rightarrow> SimulatorEngine \<Rightarrow> bool \<times> SimulatorEngine" where
  "build_parts env cfg pt s =
     (let s1 = s\<lparr>se_bank := Some (baseline (sc_slaves cfg)), se_gen := generator_new cfg (Some pt) (en_phy env)\<rparr>
      in case emu_start env cfg True (setFaultInjector True emulator_new) of
           (ok, e) \<Rightarrow> (ok, s1\<lparr>se_emu := Some e\<rparr>))"

definition engine_start :: "SimEnv \<Rightarrow> SimConfig \<Rightarrow> SimulatorEngine \<Rightarrow> bool \<times> SimulatorEngine" where
  "engine_start env cfgIn s =
     (if se_running s then (True, s)
      else let s1 = s\<lparr>se_lastError := [], se_tickMs := sc_tickMs cfgIn, se_scenarioPath := sc_scenarioPath cfgIn,
                se_exportDir := sc_exportDir cfgIn, se_fi := Some injector_new\<rparr>
      in case sim_loadTable (en_parse env) (en_ulongMax env) (en_order env) (en_read env (sc_pointtablePath cfgIn)) of
        Inl e \<Rightarrow> (False, drop_all (s1\<lparr>se_lastError := en_what env e\<rparr>))
      | Inr pt \<Rightarrow>
          (case build_parts env (with_slaves cfgIn pt) pt (s1\<lparr>se_pt := Some pt\<rparr>) of
             (False, s2) \<Rightarrow>
               (False, drop_parts (s2\<lparr>se_lastError := ''ModbusSlaveEmulator.start failed (TCP port busy?)''\<rparr>))
           | (True, s2) \<Rightarrow>
               let s3 = s2\<lparr>se_tickStop := False, se_running := True, se_tickCount := 0\<rparr>
               in case en_thread env of
                    Some what \<Rightarrow> (False, drop_all (s3\<lparr>se_lastError := what\<rparr>))
                  | None \<Rightarrow>
                      let s4 = s3\<lparr>se_joinable := True\<rparr>
                      in (True, if se_scenarioPath s4 \<noteq> [] then snd (loadScenario env (se_scenarioPath s4) s4) else s4)))"

text \<open>The clock of the script: the passes so far, times the period.\<close>

definition engine_now :: "SimulatorEngine \<Rightarrow> int" where
  "engine_now s = sint (se_tickCount s) * uint (se_tickMs s)"

text \<open>\<open>stop\<close>, with the files it writes, those that can be opened in the directory; the thread is joined between two passes.\<close>

definition engine_stop :: "SimEnv \<Rightarrow> SimulatorEngine \<Rightarrow> (string \<times> string) list \<times> SimulatorEngine" where
  "engine_stop env s =
     (if \<not> se_running s \<and> \<not> se_joinable s then ([], drop_all s)
      else let s1 = s\<lparr>se_tickStop := True, se_running := False, se_joinable := False\<rparr>
      in case se_scenario s1 of
           None \<Rightarrow> ([], drop_all s1)
         | Some sc \<Rightarrow>
             let sc1 = finishReport (engine_now s1) (\<not> allFired sc) sc
             in (if se_exportDir s1 \<noteq> []
                 then filter (\<lambda>f. en_fopen env (se_exportDir s1) (fst f))
                   [(''sim_events.jsonl'', eventsJsonl (en_dump env) sc1), (''sim_report.json'', reportJson (en_dump2 env) sc1)]
                 else [], drop_all s1))"

text \<open>A pass of \<open>dataTickLoop\<close>. The sessions are ticked here and again by the generator.\<close>

record TickClock =
  tc_script :: ScenarioEnv
  tc_first :: "int \<times> (nat \<Rightarrow> int)"
  tc_second :: "int \<times> (nat \<Rightarrow> int)"

definition drive_scenario :: "ScenarioEnv \<Rightarrow> SimulatorEngine \<Rightarrow> SimulatorEngine" where
  "drive_scenario env s =
     (case (se_scenario s, se_fi s, se_pt s) of
        (Some sc, Some fi, Some pt) \<Rightarrow>
          if \<not> se_scenarioRunning s then s
          else (case drive env (engine_now s) pt (sc, fi) of
                  (_, sc1, fi1) \<Rightarrow> s\<lparr>se_scenario := Some sc1, se_fi := Some fi1,
                                     se_scenarioRunning := (if allFired sc1 then False else se_scenarioRunning s)\<rparr>)
      | _ \<Rightarrow> s)"

definition tick_parts :: "TickClock \<Rightarrow> SimulatorEngine \<Rightarrow> SimulatorEngine" where
  "tick_parts clk s =
     (case (se_gen s, se_fi s) of
        (Some gen, Some fi) \<Rightarrow>
          (case generateTick (fst (tc_second clk)) (snd (tc_second clk))
                  (Some (tickSessions fi (fst (tc_first clk)) (snd (tc_first clk)))) (gen, se_bank s) of
             (fi1, gen1, bank1) \<Rightarrow> s\<lparr>se_fi := fi1, se_gen := Some gen1, se_bank := bank1\<rparr>)
      | _ \<Rightarrow> s)"

definition engine_tick :: "TickClock \<Rightarrow> SimulatorEngine \<Rightarrow> SimulatorEngine" where
  "engine_tick clk s =
     (let s1 = (if se_gen s \<noteq> None \<and> se_fi s \<noteq> None then tick_parts clk (drive_scenario (tc_script clk) s) else s)
      in s1\<lparr>se_tickCount := se_tickCount s1 + 1\<rparr>)"

section \<open>The code: commands and queries\<close>

definition injectFault :: "FaultOverride \<Rightarrow> int \<times> int \<Rightarrow> SimulatorEngine \<Rightarrow> u32 \<times> SimulatorEngine" where
  "injectFault req clk s =
     (case se_fi s of None \<Rightarrow> (0, s)
      | Some fi \<Rightarrow> (case trigger fi req (fst clk) (snd clk) of (h, fi1) \<Rightarrow> (h, s\<lparr>se_fi := Some fi1\<rparr>)))"

definition recoverFault :: "u32 \<Rightarrow> int \<Rightarrow> SimulatorEngine \<Rightarrow> bool \<times> SimulatorEngine" where
  "recoverFault h now s =
     (case se_fi s of None \<Rightarrow> (False, s)
      | Some fi \<Rightarrow> (case recover fi h 0 now of (ok, fi1) \<Rightarrow> (ok, s\<lparr>se_fi := Some fi1\<rparr>)))"

definition abortFault :: "u32 \<Rightarrow> SimulatorEngine \<Rightarrow> bool \<times> SimulatorEngine" where
  "abortFault h s =
     (case se_fi s of None \<Rightarrow> (False, s)
      | Some fi \<Rightarrow> (case abort_fault fi h of (ok, fi1) \<Rightarrow> (ok, s\<lparr>se_fi := Some fi1\<rparr>)))"

text \<open>A request that reaches a transport: the handler runs on the bank of the engine.\<close>

definition engine_request :: "u8 \<Rightarrow> bytes \<Rightarrow> SimulatorEngine \<Rightarrow> bytes \<times> SimulatorEngine" where
  "engine_request unitId pdu s =
     (case (se_emu s, se_bank s) of
        (Some e, Some b) \<Rightarrow> (case emulatorHandler (em_slaves e) b unitId pdu of (resp, b1) \<Rightarrow> (resp, s\<lparr>se_bank := Some b1\<rparr>))
      | _ \<Rightarrow> ([], s))"

definition scenarioLoaded :: "SimulatorEngine \<Rightarrow> bool" where
  "scenarioLoaded s \<longleftrightarrow> se_scenario s \<noteq> None"

definition scenarioAllFired :: "SimulatorEngine \<Rightarrow> bool" where
  "scenarioAllFired s \<longleftrightarrow> (case se_scenario s of None \<Rightarrow> False | Some sc \<Rightarrow> allFired sc)"

definition scenarioReportJson :: "SimEnv \<Rightarrow> SimulatorEngine \<Rightarrow> string" where
  "scenarioReportJson env s = (case se_scenario s of None \<Rightarrow> [] | Some sc \<Rightarrow> reportJson (en_dump2 env) sc)"

definition scenarioEventsJsonl :: "SimEnv \<Rightarrow> SimulatorEngine \<Rightarrow> string" where
  "scenarioEventsJsonl env s = (case se_scenario s of None \<Rightarrow> [] | Some sc \<Rightarrow> eventsJsonl (en_dump env) sc)"

definition scenarioName :: "SimulatorEngine \<Rightarrow> string" where
  "scenarioName s = (case se_scenario s of None \<Rightarrow> [] | Some sc \<Rightarrow> sx_name sc)"

section \<open>A script only makes faults the injector can have\<close>

lemma fold_keeps: "(\<And>x st. P st \<Longrightarrow> P (f x st)) \<Longrightarrow> P st \<Longrightarrow> P (fold f xs st)"
  by (induction xs arbitrary: st) auto

definition inject_reach :: "Inject \<Rightarrow> bool" where
  "inject_reach st \<longleftrightarrow> fi_reach (fst (snd st))"

lemma pushReq_reach: "inject_reach st \<Longrightarrow> inject_reach (pushReq env type s slave reg scope st)"
  by (cases st) (auto simp: inject_reach_def pushReq_def intro: fi_reach.trig split: prod.split)

lemma inject_cell_reach: "inject_reach st \<Longrightarrow> inject_reach (inject_cell env type pt s slave i st)"
  by (cases st; cases "findPointBySuffix pt slave (sn_regName s) i")
    (simp add: inject_reach_def inject_cell_def, simp add: inject_cell_def pushReq_reach)

lemma inject_point_reach: "inject_reach st \<Longrightarrow> inject_reach (inject_point env type pt s slave st)"
  by (auto simp: inject_point_def pushReq_reach split: option.split)

lemma fireInject_reach: "fi_reach fi \<Longrightarrow> fireInject env pt s (sc, fi) = (sc', fi') \<Longrightarrow> fi_reach fi'"
proof -
  assume fi: "fi_reach fi" and fires: "fireInject env pt s (sc, fi) = (sc', fi')"
  have start: "inject_reach (sc, fi, 0)" using fi by (simp add: inject_reach_def)
  have "inject_reach (fold (\<lambda>slave. pushReq env type s slave 0 SC_SLAVE) xs (sc, fi, 0))"
    "inject_reach (fold (\<lambda>slave. fold (inject_cell env type pt s slave) js) xs (sc, fi, 0))"
    "inject_reach (fold (inject_point env type pt s) xs (sc, fi, 0))" for type xs js
    using start by (auto intro!: fold_keeps [where P = inject_reach] pushReq_reach inject_cell_reach inject_point_reach)
  note folds [simp] = this [unfolded inject_reach_def]
  have "fi_reach (snd (fireInject env pt s (sc, fi)))"
    using fi by (simp add: fireInject_def Let_def case_prod_beta split: option.split)
  then show ?thesis using fires by simp
qed

lemma fireRecover_reach: "fi_reach fi \<Longrightarrow> fireRecover env s (sc, fi) = (sc', fi') \<Longrightarrow> fi_reach fi'"
proof -
  assume fi: "fi_reach fi" and fires: "fireRecover env s (sc, fi) = (sc', fi')"
  have one: "fi_reach f \<Longrightarrow> fi_reach (snd (recover f h rv now))" for f h rv now
    using fi_reach.recov by (metis prod.collapse)
  have "fi_reach f \<Longrightarrow> fi_reach (fold (\<lambda>h fi. snd (recover fi h rv (ev_recover env h))) hs f)" for hs rv f
    by (rule fold_keeps [of fi_reach]) (rule one)
  then show ?thesis
    using fi fires one by (auto simp: fireRecover_def Let_def split: list.splits prod.splits if_splits intro: fi_reach.recov)
qed

lemma fire_all_reach: "fi_reach fi \<Longrightarrow> fi_reach (snd (fire_all env pt ss (sc, fi)))"
proof -
  assume fi: "fi_reach fi"
  have "fi_reach (snd (fire env pt s st))" if "fi_reach (snd st)" for s st
    using that fireInject_reach fireRecover_reach by (cases st) (metis fire_def prod.collapse snd_conv)
  then show ?thesis
    unfolding fire_all_def by (intro fold_keeps [where P = "\<lambda>st. fi_reach (snd st)"]) (use fi in auto)
qed

lemma drive_reach: "fi_reach fi \<Longrightarrow> drive env now pt (sc, fi) = (n, sc', fi') \<Longrightarrow> fi_reach fi'"
  using fire_all_reach [of fi env pt "due now (sx_steps sc)" sc] by (auto simp: drive_eq apfst_def map_prod_def split: prod.splits)

section \<open>The life of the engine\<close>

definition serving :: "SlaveEmulator \<Rightarrow> bool" where
  "serving e \<longleftrightarrow> em_running e \<and> (\<forall>t \<in> set (em_transports e). tn_open t \<and> tn_handler t \<and> tn_fi t)"

definition slaves_served :: "SlaveEmulator \<Rightarrow> RegisterBank \<Rightarrow> bool" where
  "slaves_served e b \<longleftrightarrow> (\<forall>rt \<in> set (em_slaves e). snapshot b (rt_slaveId rt) \<noteq> None)"

definition engine_alive :: "SimulatorEngine \<Rightarrow> bool" where
  "engine_alive s \<longleftrightarrow> se_running s \<and> \<not> se_tickStop s \<and>
     (\<exists>b t g e f. se_bank s = Some b \<and> se_pt s = Some t \<and> se_gen s = Some g \<and> se_emu s = Some e \<and> se_fi s = Some f \<and>
        pg_pt g = t \<and> gen_reach g \<and> fi_reach f \<and> serving e \<and> slaves_served e b)"

definition engine_bare :: "SimulatorEngine \<Rightarrow> bool" where
  "engine_bare s \<longleftrightarrow> se_bank s = None \<and> se_pt s = None \<and> se_gen s = None \<and> se_emu s = None \<and> se_fi s = None"

inductive engine_step :: "SimEnv \<Rightarrow> SimulatorEngine \<Rightarrow> SimulatorEngine \<Rightarrow> bool" for env where
  start: "engine_start env cfg s = (ok, s') \<Longrightarrow> engine_step env s s'"
| stop: "engine_stop env s = (fs, s') \<Longrightarrow> engine_step env s s'"
| tick: "se_joinable s \<Longrightarrow> \<not> se_tickStop s \<Longrightarrow> engine_step env s (engine_tick clk s)"
| load: "loadScenario env path s = (ok, s') \<Longrightarrow> engine_step env s s'"
| inject: "injectFault req clk s = (h, s') \<Longrightarrow> engine_step env s s'"
| recov: "recoverFault h now s = (ok, s') \<Longrightarrow> engine_step env s s'"
| abrt: "abortFault h s = (ok, s') \<Longrightarrow> engine_step env s s'"
| request: "engine_request u pdu s = (resp, s') \<Longrightarrow> engine_step env s s'"

inductive sim_reach :: "SimEnv \<Rightarrow> SimulatorEngine \<Rightarrow> bool" for env where
  new: "sim_reach env simEngine_new"
| step: "sim_reach env s \<Longrightarrow> engine_step env s s' \<Longrightarrow> sim_reach env s'"

definition engine_ok :: "SimulatorEngine \<Rightarrow> bool" where
  "engine_ok s \<longleftrightarrow> (if se_joinable s then engine_alive s else engine_bare s)"

lemma drop_simps [simp]:
  "engine_bare (drop_parts s)" "engine_bare (drop_all s)" "se_joinable (drop_parts s) = se_joinable s"
  "se_joinable (drop_all s) = se_joinable s"
  by (simp_all add: engine_bare_def drop_all_def drop_parts_def)

lemma snapshot_fold_publish:
  "snapshot (fold (\<lambda>ss b. install b (ss_slaveId ss) (Some (regs ss))) slaves b) u \<noteq> None \<longleftrightarrow>
     snapshot b u \<noteq> None \<or> u \<in> ss_slaveId ` set slaves"
  by (induction slaves arbitrary: b) (auto simp: install_def snapshot_publish)

lemma baseline_snapshot: "snapshot (baseline slaves) u \<noteq> None \<longleftrightarrow> u \<in> ss_slaveId ` set slaves"
  unfolding baseline_def Let_def snapshot_fold_publish by (simp add: bank_new_def snapshot_def)

lemma emu_started:
  assumes "emu_start env cfg True (setFaultInjector True emulator_new) = (True, e)"
  shows "serving e" and "em_slaves e = map runtime_of (sc_slaves cfg)"
    and "activeTransportCount e = (if sc_tcpEnabled cfg then 1 else 0) + (if sc_rtuEnabled cfg then 1 else 0)"
  using assms
  by (auto simp: emu_start_def open_tcp_def open_rtu_def setFaultInjector_def emulator_new_def serving_def
      installDispatchHandler_def activeTransportCount_def split: if_splits option.splits)

lemma build_parts_ok:
  assumes "build_parts env cfg pt s = (ok, s1)"
  obtains b g e where "s1 = s\<lparr>se_bank := Some b, se_gen := Some g, se_emu := Some e\<rparr>"
    and "pg_pt g = pt" and "gen_reach g" and "ok \<Longrightarrow> serving e" and "ok \<Longrightarrow> slaves_served e b"
    and "em_slaves e = map runtime_of (sc_slaves cfg) \<or> \<not> ok"
proof -
  obtain e where e: "emu_start env cfg True (setFaultInjector True emulator_new) = (ok, e)"
    and s1: "s1 = s\<lparr>se_bank := Some (baseline (sc_slaves cfg)), se_gen := generator_new cfg (Some pt) (en_phy env), se_emu := Some e\<rparr>"
    using assms by (auto simp: build_parts_def Let_def split: prod.splits)
  obtain g where g: "generator_new cfg (Some pt) (en_phy env) = Some g" by (simp add: generator_new_def)
  have "ok \<Longrightarrow> slaves_served e (baseline (sc_slaves cfg))"
    using emu_started(2) [of env cfg e] e by (auto simp del: not_None_eq simp: slaves_served_def runtime_of_def baseline_snapshot)
  moreover have "pg_pt g = pt" using g by (auto simp: generator_new_def Let_def)
  ultimately show ?thesis
    using s1 g e emu_started(1,2) [of env cfg e] by (intro that [of e g "baseline (sc_slaves cfg)"]) (auto intro: gen_reach.new)
qed

lemma loadScenario_keeps:
  "loadScenario env path s = (ok, s') \<Longrightarrow> engine_ok s \<Longrightarrow> engine_ok s'"
  by (auto simp: loadScenario_def engine_ok_def engine_alive_def engine_bare_def split: if_splits prod.splits bool.splits)

lemma start_keeps:
  assumes "engine_ok s" and "engine_start env cfg s = (ok, s')"
  shows "engine_ok s'"
proof (cases "se_running s")
  case False
  then have idle: "\<not> se_joinable s" using assms(1) by (auto simp: engine_ok_def engine_alive_def)
  let ?s1 = "s\<lparr>se_lastError := [], se_tickMs := sc_tickMs cfg, se_scenarioPath := sc_scenarioPath cfg,
                se_exportDir := sc_exportDir cfg, se_fi := Some injector_new\<rparr>"
  show ?thesis
  proof (cases "sim_loadTable (en_parse env) (en_ulongMax env) (en_order env) (en_read env (sc_pointtablePath cfg))")
    case (Inl err)
    then show ?thesis using assms(2) False idle by (auto simp: engine_start_def Let_def engine_ok_def)
  next
    case (Inr pt)
    obtain r s2 where b: "build_parts env (with_slaves cfg pt) pt (?s1\<lparr>se_pt := Some pt\<rparr>) = (r, s2)" by fastforce
    obtain bk g e where
      s2: "s2 = ?s1\<lparr>se_pt := Some pt, se_bank := Some bk, se_gen := Some g, se_emu := Some e\<rparr>" "pg_pt g = pt" "gen_reach g"
        "r \<longrightarrow> serving e \<and> slaves_served e bk"
      by (rule build_parts_ok [OF b]) blast
    show ?thesis
    proof (cases "r \<and> en_thread env = None")
      case True
      let ?s4 = "s2\<lparr>se_tickStop := False, se_running := True, se_tickCount := 0, se_joinable := True\<rparr>"
      have "engine_ok ?s4" using s2 True by (auto simp: engine_ok_def engine_alive_def intro: fi_reach.new)
      moreover have "s' = (if se_scenarioPath ?s4 \<noteq> [] then snd (loadScenario env (se_scenarioPath ?s4) ?s4) else ?s4)"
        using assms(2) False Inr b True by (simp add: engine_start_def Let_def)
      ultimately show ?thesis using loadScenario_keeps by (metis prod.collapse)
    next
      case fails: False
      then show ?thesis
        using assms(2) False idle Inr b s2(1)
        by (cases r; cases "en_thread env") (auto simp: engine_start_def Let_def engine_ok_def)
    qed
  qed
qed (use assms in \<open>simp add: engine_start_def\<close>)

lemma stop_bare: "engine_stop env s = (fs, s') \<Longrightarrow> engine_bare s' \<and> \<not> se_joinable s'"
  by (auto simp: engine_stop_def Let_def split: if_splits option.splits)

lemma handler_snapshots:
  assumes "emulatorHandler slaves b u pdu = (resp, b')" and "snapshot b x \<noteq> None"
  shows "snapshot b' x \<noteq> None"
proof -
  have "snd (dispatchFull (Some r) pdu w) \<noteq> None" for r w
    by (simp add: dispatchFull_def Let_def map_prod_def case_prod_beta)
  then show ?thesis
    using assms
    by (auto simp: emulatorHandler_def dispatchBySlaveId_def Let_def snapshot_publish case_prod_beta
        split: option.splits prod.splits if_splits)
qed

lemma generateTick_keeps:
  assumes "generateTick now now2 (Some f) (g, Some b) = (fi', g', bo)" and "fi_reach f" and "gen_reach g"
  obtains f' b' where "fi' = Some f'" "bo = Some b'" "fi_reach f'" "gen_reach g'" "pg_pt g' = pg_pt g"
    "\<forall>u. snapshot b u \<noteq> None \<longrightarrow> snapshot b' u \<noteq> None"
proof -
  let ?f = "tickSessions f now now2"
  have run: "fold (gen_slave (Some ?f) (gen_dtS g)) (pg_slaves g) (g, Some b) = (g', bo)" and f': "fi' = Some ?f"
    using assms(1) by (auto simp: generateTick_def Let_def)
  have frame: "same_setup g g'" and others: "u \<notin> set (pg_slaves g) \<Longrightarrow> same_slave u (g, Some b) (g', bo)" for u
    using gen_slaves_frame [OF run] by simp_all
  have dist: "distinct (pg_slaves g)"
    using gen_reach_wf [OF assms(3)] by (simp add: gen_wf_def distinct_allSlaveIds)
  have kept: "\<exists>b'. bo = Some b' \<and> (snapshot b u \<noteq> None \<longrightarrow> snapshot b' u \<noteq> None)" for u
  proof (cases "u \<in> set (pg_slaves g)")
    case True
    from gen_slaves_turn [OF dist True run] have "map_option (\<lambda>b. snapshot b u) bo = Some (Some (workOf g' u))"
      by (metis option.simps(9))
    then show ?thesis by auto
  next
    case False
    from others [OF this] show ?thesis by (auto simp: same_slave_def)
  qed
  then obtain b' where "bo = Some b'" by blast
  with kept show ?thesis
    using f' assms frame by (intro that [of ?f b'])
      (auto simp: same_setup_def intro: fi_reach.ticks gen_reach.tick [OF assms(3,1)])
qed

lemma drive_scenario_alive:
  assumes "engine_alive s"
  shows "engine_alive (drive_scenario env s)"
    and "se_gen (drive_scenario env s) = se_gen s \<and> se_bank (drive_scenario env s) = se_bank s"
    and "se_joinable (drive_scenario env s) = se_joinable s"
proof -
  from assms obtain f t where ft: "se_fi s = Some f" "fi_reach f" "se_pt s = Some t" by (auto simp: engine_alive_def)
  show "engine_alive (drive_scenario env s)"
  proof (cases "se_scenario s")
    case (Some sc)
    obtain n sc' f' where d: "drive env (engine_now s) t (sc, f) = (n, sc', f')" by (rule prod_cases3)
    then show ?thesis
      using assms ft Some drive_reach [OF ft(2) d] by (auto simp: drive_scenario_def engine_alive_def)
  qed (use assms in \<open>simp add: drive_scenario_def\<close>)
  show "se_gen (drive_scenario env s) = se_gen s \<and> se_bank (drive_scenario env s) = se_bank s"
    "se_joinable (drive_scenario env s) = se_joinable s"
    by (auto simp: drive_scenario_def split: option.split prod.split)
qed

lemma tick_parts_alive:
  assumes "engine_alive s"
  shows "engine_alive (tick_parts clk s)" and "se_joinable (tick_parts clk s) = se_joinable s"
proof -
  from assms obtain b t g e f where parts: "se_bank s = Some b" "se_pt s = Some t" "se_gen s = Some g" "se_emu s = Some e"
      "se_fi s = Some f" "pg_pt g = t" "gen_reach g" "fi_reach f" "serving e" "slaves_served e b" "se_running s" "\<not> se_tickStop s"
    by (auto simp: engine_alive_def)
  obtain fi1 g1 b1 where run: "generateTick (fst (tc_second clk)) (snd (tc_second clk))
      (Some (tickSessions f (fst (tc_first clk)) (snd (tc_first clk)))) (g, Some b) = (fi1, g1, b1)" by (rule prod_cases3)
  show "engine_alive (tick_parts clk s)"
    by (rule generateTick_keeps [OF run fi_reach.ticks [OF parts(8)] parts(7)])
      (use parts run in \<open>auto simp: tick_parts_def engine_alive_def slaves_served_def\<close>)
  show "se_joinable (tick_parts clk s) = se_joinable s" by (simp add: tick_parts_def parts run)
qed

lemma tick_keeps:
  assumes "engine_ok s" and "se_joinable s"
  shows "engine_ok (engine_tick clk s)"
proof -
  have alive: "engine_alive s" using assms by (simp add: engine_ok_def)
  then have some: "se_gen s \<noteq> None" "se_fi s \<noteq> None" by (auto simp: engine_alive_def)
  let ?s = "tick_parts clk (drive_scenario (tc_script clk) s)"
  have "engine_alive ?s" "se_joinable ?s"
    using tick_parts_alive drive_scenario_alive alive assms(2) by simp_all
  moreover have "engine_alive (x\<lparr>se_tickCount := n\<rparr>) = engine_alive x" for x n by (simp add: engine_alive_def)
  ultimately show ?thesis using some by (simp add: engine_tick_def engine_ok_def Let_def)
qed

lemma command_keeps:
  "injectFault req clk s = (h, s') \<Longrightarrow> engine_ok s \<Longrightarrow> engine_ok s'"
  "recoverFault k now s = (ok, s') \<Longrightarrow> engine_ok s \<Longrightarrow> engine_ok s'"
  "abortFault k s = (ok, s') \<Longrightarrow> engine_ok s \<Longrightarrow> engine_ok s'"
  by (auto simp: injectFault_def recoverFault_def abortFault_def engine_ok_def engine_alive_def engine_bare_def
      intro: fi_reach.intros split: option.splits prod.splits if_splits)

lemma request_keeps: "engine_request u pdu s = (resp, s') \<Longrightarrow> engine_ok s \<Longrightarrow> engine_ok s'"
  using handler_snapshots
  by (fastforce simp: engine_request_def engine_ok_def engine_alive_def engine_bare_def slaves_served_def
      split: option.splits prod.splits if_splits)

lemma stop_ok: "engine_stop env s = (fs, s') \<Longrightarrow> engine_ok s'"
  using stop_bare by (fastforce simp: engine_ok_def)

lemma engine_step_ok: "engine_step env s s' \<Longrightarrow> engine_ok s \<Longrightarrow> engine_ok s'"
  by (induction rule: engine_step.induct)
    (blast intro: start_keeps tick_keeps loadScenario_keeps command_keeps request_keeps stop_ok)+

lemma sim_reach_ok: "sim_reach env s \<Longrightarrow> engine_ok s"
proof (induction rule: sim_reach.induct)
  case new
  show ?case by (simp add: engine_ok_def engine_bare_def simEngine_new_def)
qed (blast intro: engine_step_ok)


text \<open>Property C37: the engine is whole or bare. In every state that starts, stops, passes of the tick thread, loads of a
  script, commands and requests of clients reach, an engine whose thread lives is marked running and owns a
  bank, a point table, a generator over that table, an emulator whose transports are all open with the handler
  and the injector set, and an injector in a state its own operations reach; a request for any slave of the
  emulator is answered from the registers of that slave. An engine without a thread owns none of these.\<close>

theorem engine_whole:
  assumes "sim_reach env s"
  shows "if se_joinable s
    then se_running s \<and> \<not> se_tickStop s \<and>
      (\<exists>b t g e f. se_bank s = Some b \<and> se_pt s = Some t \<and> se_gen s = Some g \<and> se_emu s = Some e \<and> se_fi s = Some f \<and>
        pg_pt g = t \<and> gen_reach g \<and> fi_reach f \<and> serving e \<and>
        (\<forall>rt \<in> set (em_slaves e). \<forall>pdu. \<exists>r. snapshot b (rt_slaveId rt) = Some r \<and>
          fst (engine_request (rt_slaveId rt) pdu s) =
            dr_bytes (fst (dispatchFull (Some r) pdu (isWriteFc (if pdu \<noteq> [] then pdu ! 0 else 0))))))
    else engine_bare s"
proof (cases "se_joinable s")
  case True
  then have "engine_alive s" using sim_reach_ok [OF assms] by (simp add: engine_ok_def)
  then obtain b t g e f where parts: "se_bank s = Some b" "se_pt s = Some t" "se_gen s = Some g" "se_emu s = Some e"
      "se_fi s = Some f" "pg_pt g = t" "gen_reach g" "fi_reach f" "serving e" "slaves_served e b" "se_running s" "\<not> se_tickStop s"
    by (auto simp: engine_alive_def)
  have "\<exists>r. snapshot b (rt_slaveId rt) = Some r \<and> fst (engine_request (rt_slaveId rt) pdu s) =
      dr_bytes (fst (dispatchFull (Some r) pdu (isWriteFc (if pdu \<noteq> [] then pdu ! 0 else 0))))"
    if rt: "rt \<in> set (em_slaves e)" for rt pdu
  proof -
    obtain r where r: "snapshot b (rt_slaveId rt) = Some r" using parts(10) rt by (auto simp: slaves_served_def)
    have "find (\<lambda>s. rt_slaveId s = rt_slaveId rt) (em_slaves e) \<noteq> None" using rt by (auto simp: find_None_iff)
    then obtain q where "find (\<lambda>s. rt_slaveId s = rt_slaveId rt) (em_slaves e) = Some q" by blast
    then show ?thesis
      using r by (simp add: engine_request_def parts emulatorHandler_def dispatchBySlaveId_def Let_def case_prod_beta)
  qed
  with parts True show ?thesis by auto
next
  case False
  with sim_reach_ok [OF assms] show ?thesis by (simp add: engine_ok_def)
qed


section \<open>A drill under the engine\<close>

lemma sint_of_count: "uint x < 2 ^ 63 \<Longrightarrow> sint (x :: u64) = uint x"
proof -
  assume "uint x < 2 ^ 63"
  moreover have "- (2 ^ 63) \<le> uint x" by (rule order_trans [OF _ uint_ge_0]) simp
  ultimately show ?thesis by (simp add: sint_uint signed_take_bit_int_eq_self_iff)
qed

text \<open>The script after a pass.\<close>

lemma tick_scenario:
  assumes "engine_ok s" and "se_joinable s" and "se_scenario s = Some sc"
  obtains sc' where "se_scenario (engine_tick clk s) = Some sc'"
    and "sx_steps sc' = (if se_scenarioRunning s then map (mark (engine_now s)) (sx_steps sc) else sx_steps sc)"
    and "se_scenarioRunning (engine_tick clk s) = (se_scenarioRunning s \<and> \<not> allFired sc')"
    and "se_tickCount (engine_tick clk s) = se_tickCount s + 1" and "se_tickMs (engine_tick clk s) = se_tickMs s"
    and "se_exportDir (engine_tick clk s) = se_exportDir s" and "se_joinable (engine_tick clk s)"
proof -
  from assms(1,2) obtain f g t where some: "se_fi s = Some f" "se_gen s = Some g" "se_pt s = Some t"
    by (auto simp: engine_ok_def engine_alive_def)
  have kept: "se_scenario (tick_parts clk x) = se_scenario x" "se_scenarioRunning (tick_parts clk x) = se_scenarioRunning x"
    "se_tickCount (tick_parts clk x) = se_tickCount x" "se_tickMs (tick_parts clk x) = se_tickMs x"
    "se_exportDir (tick_parts clk x) = se_exportDir x" "se_joinable (tick_parts clk x) = se_joinable x" for x
    by (auto simp: tick_parts_def split: option.split prod.split)
  obtain n sc' f' where d: "drive (tc_script clk) (engine_now s) t (sc, f) = (n, sc', f')" by (rule prod_cases3)
  show ?thesis
    using assms some d drive_fields(1) [OF d]
    by (intro that [of "if se_scenarioRunning s then sc' else sc"])
      (simp_all add: engine_tick_def Let_def kept drive_scenario_def)
qed

definition pass_time :: "SimulatorEngine \<Rightarrow> nat \<Rightarrow> int" where
  "pass_time s n = (uint (se_tickCount s) + int n) * uint (se_tickMs s)"

definition drill_ok :: "SimulatorEngine \<Rightarrow> SimulatorEngine \<Rightarrow> ScenarioScript \<Rightarrow> nat \<Rightarrow> bool" where
  "drill_ok s s' sc n \<longleftrightarrow> engine_ok s' \<and> se_joinable s' \<and> uint (se_tickCount s') = uint (se_tickCount s) + int n \<and>
     se_tickMs s' = se_tickMs s \<and> se_exportDir s' = se_exportDir s \<and>
     (\<exists>sc'. se_scenario s' = Some sc' \<and> (se_scenarioRunning s' \<or> allFired sc') \<and>
        (if n = 0 then sc' = sc
         else sx_steps sc' = map (mark (pass_time s (n - 1))) (sx_steps sc) \<and> se_scenarioRunning s' = (\<not> allFired sc')))"

lemma mark_all_fired: "list_all sn_fired ss \<Longrightarrow> map (mark now) ss = ss"
  by (induction ss) (simp_all add: fired_mark)

lemma drill_step:
  assumes "drill_ok s s' sc n" and "uint (se_tickCount s) + int (Suc n) < 2 ^ 63"
  shows "drill_ok s (engine_tick clk s') sc (Suc n)"
proof -
  from assms(1) obtain sc1 where sc1: "se_scenario s' = Some sc1" "se_scenarioRunning s' \<or> allFired sc1"
    "sc1 = sc \<or> sx_steps sc1 = map (mark (pass_time s (n - 1))) (sx_steps sc)"
    and ok: "engine_ok s'" "se_joinable s'" "uint (se_tickCount s') = uint (se_tickCount s) + int n"
      "se_tickMs s' = se_tickMs s" "se_exportDir s' = se_exportDir s"
    unfolding drill_ok_def by (metis (full_types))
  have now: "engine_now s' = pass_time s n"
    using ok(3,4) assms(2) sint_of_count [of "se_tickCount s'"] by (simp add: engine_now_def pass_time_def)
  have count: "uint (se_tickCount s' + 1) = uint (se_tickCount s) + int (Suc n)"
    using ok(3) assms(2) by (simp add: uint_word_ariths)
  have mono: "pass_time s (n - 1) \<le> pass_time s n" by (simp add: pass_time_def mult_right_mono)
  have marks: "map (mark (pass_time s n)) (sx_steps sc1) = map (mark (pass_time s n)) (sx_steps sc)"
    using sc1(3) mono by (auto simp: mark_mark split: if_splits)
  show ?thesis
  proof (rule tick_scenario [OF ok(1,2) sc1(1)])
    fix sc' assume t: "se_scenario (engine_tick clk s') = Some sc'"
      "sx_steps sc' = (if se_scenarioRunning s' then map (mark (engine_now s')) (sx_steps sc1) else sx_steps sc1)"
      "se_scenarioRunning (engine_tick clk s') = (se_scenarioRunning s' \<and> \<not> allFired sc')"
      "se_tickCount (engine_tick clk s') = se_tickCount s' + 1" "se_tickMs (engine_tick clk s') = se_tickMs s'"
      "se_exportDir (engine_tick clk s') = se_exportDir s'" "se_joinable (engine_tick clk s')"
    have steps: "sx_steps sc' = map (mark (pass_time s n)) (sx_steps sc)"
      using t(2) sc1(2) marks mark_all_fired [of "sx_steps sc1" "pass_time s n"] by (auto simp: now allFired_def)
    have "se_scenarioRunning (engine_tick clk s') = (\<not> allFired sc')"
      using t(2,3) sc1(2) by (auto simp: allFired_def)
    then show ?thesis
      using t ok count steps tick_keeps [OF ok(1,2), of clk] by (simp add: drill_ok_def)
  qed
qed

lemma drill_run:
  assumes "drill_ok s s sc 0" and "uint (se_tickCount s) + int (length clks) < 2 ^ 63"
  shows "drill_ok s (fold engine_tick clks s) sc (length clks)"
  using assms(2)
proof (induction clks rule: rev_induct)
  case (snoc clk clks)
  then show ?case using drill_step [of s "fold engine_tick clks s" sc "length clks" clk] by simp
qed (use assms(1) in simp)

text \<open>A start that succeeds with a script that loads.\<close>

lemma started_drill:
  assumes "engine_ok s0" and "\<not> se_running s0" and "engine_start env cfg s0 = (True, s)" and "sc_scenarioPath cfg \<noteq> []"
    and "scenario_load (en_parse env) (en_scriptWhat env) (sc_scenarioPath cfg) (en_read env (sc_scenarioPath cfg)) script_new = (True, sc)"
  shows "drill_ok s s sc 0" and "se_tickCount s = 0" and "se_tickMs s = sc_tickMs cfg" and "se_exportDir s = sc_exportDir cfg"
proof -
  have fields: "r = (True, s2) \<Longrightarrow> se_tickMs s2 = se_tickMs s1 \<and> se_exportDir s2 = se_exportDir s1 \<and> se_scenarioPath s2 = se_scenarioPath s1"
    if "build_parts env c pt s1 = r" for c pt s1 r s2
    using that by (auto simp: build_parts_def Let_def split: prod.splits)
  have all: "se_joinable s \<and> se_scenario s = Some sc \<and> se_scenarioRunning s \<and> se_tickCount s = 0 \<and>
      se_tickMs s = sc_tickMs cfg \<and> se_exportDir s = sc_exportDir cfg"
    using assms(2-5)
    by (auto simp: engine_start_def loadScenario_def Let_def dest!: fields split: sum.splits prod.splits bool.splits option.splits)
  have "engine_ok s" by (rule start_keeps [OF assms(1,3)])
  with all show "drill_ok s s sc 0" "se_tickCount s = 0" "se_tickMs s = sc_tickMs cfg" "se_exportDir s = sc_exportDir cfg"
    by (simp_all add: drill_ok_def)
qed

text \<open>Property C38: the verdict of a drill. When an engine that is not running starts with a script that loads, then
  after any number of passes of the tick thread (fewer than \<open>2^31\<close>) exactly those steps have fired that are due by the
  clock of the script at the last pass, the number of passes before it times the period; the engine stops driving
  the script exactly when all steps have fired; and a stop then writes, if the report file can be
  opened, the report \<open>PASS\<close>, or \<open>FAIL\<close> when the script or a step noted a failure, while a stop before
  writes \<open>INCONCLUSIVE\<close>. So a script whose steps all lie before some time gets a verdict.\<close>

theorem drill_verdict:
  assumes "sim_reach env s0" and "\<not> se_running s0" and "engine_start env cfg s0 = (True, s)" and "sc_scenarioPath cfg \<noteq> []"
    and "scenario_load (en_parse env) (en_scriptWhat env) (sc_scenarioPath cfg) (en_read env (sc_scenarioPath cfg)) script_new = (True, sc)"
    and "sc_exportDir cfg \<noteq> []" and "clks \<noteq> []" and "int (length clks) < 2 ^ 31"
    and "now = int (length clks - 1) * uint (sc_tickMs cfg)"
  shows "\<exists>sc' rep. se_scenario (fold engine_tick clks s) = Some sc' \<and>
    (\<forall>i < length (sx_steps sc). sn_fired (sx_steps sc' ! i) \<longleftrightarrow> sn_tMs (sx_steps sc ! i) \<le> now) \<and>
    se_scenarioRunning (fold engine_tick clks s) = (\<not> allFired sc') \<and>
    (allFired sc' \<longleftrightarrow> (\<forall>st \<in> set (sx_steps sc). sn_tMs st \<le> now)) \<and>
    ((''sim_report.json'', reportJson (en_dump2 env) rep) \<in> set (fst (engine_stop env (fold engine_tick clks s)))
      \<longleftrightarrow> en_fopen env (sc_exportDir cfg) ''sim_report.json'') \<and>
    rp_result (sx_report rep) = (if \<not> allFired sc' then ''INCONCLUSIVE'' else if sx_anyFail sc' then ''FAIL'' else ''PASS'')"
proof -
  let ?s = "fold engine_tick clks s"
  note st = started_drill [OF sim_reach_ok [OF assms(1)] assms(2-5)]
  have now: "pass_time s (length clks - 1) = now" using st(2,3) assms(9) by (simp add: pass_time_def)
  have unfired: "\<forall>st \<in> set (sx_steps sc). \<not> sn_fired st" using load_unfired [OF assms(5)] by (simp add: list_all_iff)
  from drill_run [OF st(1), of clks] st(2,4) assms(7,8) obtain sc' where sc': "se_scenario ?s = Some sc'"
    "sx_steps sc' = map (mark now) (sx_steps sc)" "se_scenarioRunning ?s = (\<not> allFired sc')"
    "se_joinable ?s" "se_exportDir ?s = sc_exportDir cfg"
    by (auto simp: drill_ok_def now [unfolded One_nat_def])
  let ?rep = "finishReport (engine_now ?s) (\<not> allFired sc') sc'"
  have "(''sim_report.json'', reportJson (en_dump2 env) ?rep) \<in> set (fst (engine_stop env ?s))
      \<longleftrightarrow> en_fopen env (sc_exportDir cfg) ''sim_report.json''"
    using sc' assms(6) by (simp add: engine_stop_def engine_now_def Let_def)
  moreover have "rp_result (sx_report ?rep) = (if \<not> allFired sc' then ''INCONCLUSIVE'' else if sx_anyFail sc' then ''FAIL'' else ''PASS'')"
    by (simp add: finishReport_def Let_def)
  ultimately show ?thesis
    using sc' unfired by (intro exI [of _ sc'] exI [of _ ?rep]) (auto simp: allFired_def list_all_iff)
qed


definition demo_sim_env :: SimEnv where
  "demo_sim_env = \<lparr>en_tcpOpen = (\<lambda>_ p. Some p), en_rtuOpen = (\<lambda>_ _. True), en_thread = None,
     en_read = (\<lambda>p. Some p), en_parse = (\<lambda>c. Some (if c = ''drill.json'' then demo_drill else demo_table_json)),
     en_what = (\<lambda>_. []), en_scriptWhat = [], en_ulongMax = 4294967295, en_order = [3], en_phy = physics_default,
     en_dump = (\<lambda>_. []), en_dump2 = (\<lambda>_. []), en_fopen = (\<lambda>_ _. True)\<rparr>"

definition demo_sim_config :: SimConfig where
  "demo_sim_config = simConfig_new\<lparr>sc_scenarioPath := ''drill.json'', sc_exportDir := ''out''\<rparr>"

definition demo_simulator :: SimulatorEngine where
  "demo_simulator = snd (engine_start demo_sim_env demo_sim_config simEngine_new)"

lemma demo_simulator_reach: "sim_reach demo_sim_env demo_simulator"
  unfolding demo_simulator_def by (rule sim_reach.step [OF sim_reach.new engine_step.start]) (rule prod.collapse [symmetric])

lemma demo_drill_loads:
  "scenario_load (en_parse demo_sim_env) (en_scriptWhat demo_sim_env) (sc_scenarioPath demo_sim_config)
     (en_read demo_sim_env (sc_scenarioPath demo_sim_config)) script_new = (True, demo_script)"
  using demo_script_loads by (simp add: scenario_load_def demo_sim_env_def demo_sim_config_def Let_def)

lemma demo_simulator_runs: "engine_start demo_sim_env demo_sim_config simEngine_new = (True, demo_simulator)" "se_joinable demo_simulator"
proof -
  let ?path = "''data/sim_pointtable_sample.json''" and ?pjs = "[demo_point_json 7 (JInt 16), demo_point_json 8 (JInt 4)]"
  obtain t where "demo_load = Inr t" using demo_load_points by auto
  then have "loadFromJsonFile (en_parse demo_sim_env) 4294967295 unat (Some ?path) = Inr t"
    by (simp add: demo_load_def loadFromJsonFile_def demo_sim_env_def)
  moreover have "en_parse demo_sim_env ?path = Some demo_table_json" by (simp add: demo_sim_env_def)
  moreover have "member_of ''points'' demo_table_json = Some (JArray ?pjs)" by (simp add: demo_table_json_def)
  moreover have "\<forall>pj \<in> set ?pjs. plain_point pj" by (simp add: plain_point_def demo_point_json_def)
  ultimately obtain st where "sim_loadTable (en_parse demo_sim_env) 4294967295 [3] (Some ?path) = Inr st"
    using same_points by blast
  then have "fst (engine_start demo_sim_env demo_sim_config simEngine_new) \<and> se_joinable demo_simulator"
    using demo_drill_loads
    by (simp add: demo_simulator_def engine_start_def simEngine_new_def demo_sim_env_def demo_sim_config_def simConfig_new_def
        build_parts_def with_slaves_def emu_start_def open_tcp_def open_rtu_def setFaultInjector_def emulator_new_def
        loadScenario_def generator_new_def Let_def)
  then show "engine_start demo_sim_env demo_sim_config simEngine_new = (True, demo_simulator)" "se_joinable demo_simulator"
    by (simp_all add: demo_simulator_def prod_eq_iff)
qed

theorem engine_whole_witness: "\<exists>g f. se_gen demo_simulator = Some g \<and> gen_reach g \<and> se_fi demo_simulator = Some f \<and> fi_reach f"
  using engine_whole [OF demo_simulator_reach] demo_simulator_runs(2) by auto

definition demo_clock :: TickClock where
  "demo_clock = \<lparr>tc_script = demo_env, tc_first = (0, \<lambda>_. 0), tc_second = (0, \<lambda>_. 0)\<rparr>"

theorem drill_verdict_witness:
  "\<exists>sc'. se_scenario (fold engine_tick [demo_clock, demo_clock] demo_simulator) = Some sc' \<and> allFired sc'"
proof -
  have cfg: "\<not> se_running simEngine_new" "sc_scenarioPath demo_sim_config \<noteq> []" "sc_exportDir demo_sim_config \<noteq> []"
    "sc_tickMs demo_sim_config = 100"
    by (simp_all add: simEngine_new_def demo_sim_config_def simConfig_new_def)
  have "\<forall>st \<in> set (sx_steps demo_script). sn_tMs st \<le> 100"
    using arg_cong [OF demo_script_times, of "list_all (\<lambda>t. t \<le> 100)"] by (simp add: list.pred_map list_all_iff)
  then show ?thesis
    using drill_verdict [OF sim_reach.new cfg(1) demo_simulator_runs(1) cfg(2) demo_drill_loads cfg(3),
        of "[demo_clock, demo_clock]" 100] cfg(4)
    by auto
qed

text \<open>A thread that cannot be created leaves an engine without parts that is marked running: it answers every
  command with a refusal and every further start with success.\<close>

theorem thread_failure_sticks:
  assumes "\<not> se_running s" and "\<not> se_joinable s" and "en_thread env = Some what"
    and "sim_loadTable (en_parse env) (en_ulongMax env) (en_order env) (en_read env (sc_pointtablePath cfg)) = Inr pt"
    and "sc_tcpEnabled cfg \<Longrightarrow> en_tcpOpen env (sc_bindIp cfg) (sc_tcpPort cfg) \<noteq> None"
    and "sc_rtuEnabled cfg \<Longrightarrow> en_rtuOpen env (sc_rtuDev cfg) (sc_baudRate cfg)"
    and "engine_start env cfg s = (ok, s')"
  shows "\<not> ok \<and> se_running s' \<and> engine_bare s' \<and> engine_start env2 cfg2 s' = (True, s') \<and> fst (injectFault req clk s') = 0"
proof -
  have slaves: "sc_tcpEnabled (with_slaves cfg pt) = sc_tcpEnabled cfg" "sc_bindIp (with_slaves cfg pt) = sc_bindIp cfg"
    "sc_tcpPort (with_slaves cfg pt) = sc_tcpPort cfg" "sc_rtuEnabled (with_slaves cfg pt) = sc_rtuEnabled cfg"
    "sc_rtuDev (with_slaves cfg pt) = sc_rtuDev cfg" "sc_baudRate (with_slaves cfg pt) = sc_baudRate cfg"
    by (simp_all add: with_slaves_def)
  have "fst (build_parts env (with_slaves cfg pt) pt s1)" for s1
    using assms(5,6)
    by (auto simp: build_parts_def emu_start_def open_tcp_def open_rtu_def setFaultInjector_def emulator_new_def slaves Let_def
        split: option.split prod.split)
  then have "\<not> ok \<and> se_running s' \<and> engine_bare s'"
    using assms(1-4,7)
    by (auto simp: engine_start_def drop_all_def drop_parts_def engine_bare_def Let_def split: prod.splits bool.splits)
      (metis fst_conv)+
  then show ?thesis by (simp add: engine_start_def injectFault_def engine_bare_def)
qed

text \<open>A stop drops the script but not the flag that it is being driven.\<close>

theorem stop_keeps_flag:
  "engine_stop env s = (fs, s') \<Longrightarrow> \<not> scenarioLoaded s' \<and> se_scenarioRunning s' = se_scenarioRunning s"
  by (auto simp: engine_stop_def scenarioLoaded_def drop_all_def drop_parts_def Let_def split: if_splits option.splits)

end
