(* ===== verification/Channel.thy ===== *)
theory Channel
  imports Floats Ens_Prelude "HOL-Library.Signed_Division"
begin

text \<open>
  The channels under the protocol engine, \<^verbatim>\<open>apps/ens_app/src/channel\<close>: \<^verbatim>\<open>TcpChannel.h\<close> and
  \<^verbatim>\<open>.cpp\<close>, \<^verbatim>\<open>SerialChannel.h\<close> and \<^verbatim>\<open>.cpp\<close>, \<^verbatim>\<open>ChannelConfig.h\<close>, \<^verbatim>\<open>ChannelStats.h\<close>. A call returns what it
  does to the outside, in order: callbacks, signals, orders to the socket and the timer. The socket and the
  serial port belong to Qt: their state is part of the state of the channel, what they report arrives as calls of the
  slots, the number of bytes a write accepts and the texts of errors are arguments. Registered callbacks are flags; a
  callback that calls back into the channel is not modelled. The doubling of the back-off is taken at the
  width of the code's \<open>int\<close> (\<open>int32\<close>); the theorems about it assume settings of at most \<open>2^30\<close>, for which it does
  not overflow.
\<close>

section \<open>The code: configuration and statistics\<close>

datatype ChannelType = ChSerial | ChTcp | ChCan | ChSpi

record SerialConfig =
  sl_portName :: string
  sl_baudRate :: int
  sl_dataBits :: int
  sl_stopBits :: int
  sl_parity :: string
  sl_rs485Enabled :: bool

record TcpConfig =
  tp_host :: string
  tp_port :: u16
  tp_keepAliveEnabled :: bool

datatype ChannelPayload = SerialPayload SerialConfig | TcpPayload TcpConfig | CanPayload string u32

record ChannelConfig =
  cc_type :: ChannelType
  cc_payload :: ChannelPayload
  cc_name :: string
  cc_reconnectBaseMs :: int
  cc_reconnectMaxMs :: int
  cc_ioTimeoutMs :: int

record ChannelStats =
  ct_requestTotal :: u64
  ct_responseSuccess :: u64
  ct_timeoutCount :: u64
  ct_crcErrorCount :: u64
  ct_bytesSent :: u64
  ct_bytesReceived :: u64
  ct_avgRttUs :: int

definition stats_new :: ChannelStats where
  "stats_new = \<lparr>ct_requestTotal = 0, ct_responseSuccess = 0, ct_timeoutCount = 0, ct_crcErrorCount = 0,
     ct_bytesSent = 0, ct_bytesReceived = 0, ct_avgRttUs = 0\<rparr>"

definition qualityPercent :: "ChannelStats \<Rightarrow> fl" where
  "qualityPercent s =
     (if ct_requestTotal s = 0 then Fin 100
      else fl_mul round64 (fl_div round64 (round64 (of_nat (unat (ct_responseSuccess s))))
             (round64 (of_nat (unat (ct_requestTotal s))))) (Fin 100))"

definition count_sent :: "int \<Rightarrow> ChannelStats \<Rightarrow> ChannelStats" where
  "count_sent n s = s\<lparr>ct_bytesSent := ct_bytesSent s + of_int n\<rparr>"

definition count_received :: "bytes \<Rightarrow> ChannelStats \<Rightarrow> ChannelStats" where
  "count_received data s = s\<lparr>ct_bytesReceived := ct_bytesReceived s + of_nat (length data)\<rparr>"

section \<open>The code: what both channels share\<close>

datatype ChanOut =
    CbConnection bool | CbRead bytes | CbWrite int | CbPending nat int | CbError string
  | SigConnection bool | SigData bytes | SigWrite int | SigError string
  | ConnectTo string u16 | TimerStart int | Aborted | PortClosed

record Callbacks =
  cb_read :: bool
  cb_write :: bool
  cb_conn :: bool
  cb_err :: bool

definition kMaxInBuf :: nat where
  "kMaxInBuf = 2 ^ 20"

text \<open>The input buffer after data has arrived, and the split \<open>read\<close> makes.\<close>

definition inBuf_append :: "bytes \<Rightarrow> bytes \<Rightarrow> bytes" where
  "inBuf_append buf data = (let b = buf @ data in if length b > kMaxInBuf then [] else b)"

definition inBuf_read :: "int \<Rightarrow> bytes \<Rightarrow> bytes \<times> bytes" where
  "inBuf_read maxBytes buf =
     (if buf = [] then ([], buf)
      else let n = min (int (length buf)) maxBytes
           in (take (nat n) buf, drop (nat n) buf))"

definition tell_conn :: "Callbacks \<Rightarrow> bool \<Rightarrow> ChanOut list" where
  "tell_conn cb up = (if cb_conn cb then [CbConnection up] else []) @ [SigConnection up]"

definition tell_data :: "Callbacks \<Rightarrow> bytes \<Rightarrow> ChanOut list" where
  "tell_data cb data = (if cb_read cb then [CbRead data] else []) @ [SigData data]"

definition tell_error :: "Callbacks \<Rightarrow> string \<Rightarrow> ChanOut list" where
  "tell_error cb msg = (if cb_err cb then [CbError msg] else []) @ [SigError msg]"

definition tell_written :: "Callbacks \<Rightarrow> nat option \<Rightarrow> int \<Rightarrow> ChanOut list" where
  "tell_written cb pending n =
     (case pending of None \<Rightarrow> [] | Some k \<Rightarrow> [CbPending k n]) @ (if cb_write cb then [CbWrite n] else []) @ [SigWrite n]"

section \<open>The code: the TCP channel\<close>

datatype SocketState = UnconnectedState | HostLookupState | ConnectingState | ConnectedState | ClosingState

datatype SocketError =
    ConnectionRefusedError | RemoteHostClosedError | HostNotFoundError | SocketAccessError
  | SocketResourceError | SocketTimeoutError | NetworkError | OtherSocketError nat

record TcpChannel =
  tc_socket :: "SocketState option"
  tc_timer :: "int option"
  tc_connectedFlag :: bool
  tc_cfg :: TcpConfig
  tc_stats :: ChannelStats
  tc_lastError :: string
  tc_inBuf :: bytes
  tc_pendingWriteCb :: "nat option"
  tc_backoffMs :: int
  tc_reconnectBaseMs :: int
  tc_reconnectMaxMs :: int
  tc_opened :: bool
  tc_closed :: bool
  tc_cbs :: Callbacks

definition tcp_new :: TcpChannel where
  "tcp_new = \<lparr>tc_socket = None, tc_timer = None, tc_connectedFlag = False,
     tc_cfg = \<lparr>tp_host = ''127.0.0.1'', tp_port = 502, tp_keepAliveEnabled = True\<rparr>, tc_stats = stats_new,
     tc_lastError = [], tc_inBuf = [], tc_pendingWriteCb = None, tc_backoffMs = 0, tc_reconnectBaseMs = 1000,
     tc_reconnectMaxMs = 30000, tc_opened = False, tc_closed = False,
     tc_cbs = \<lparr>cb_read = False, cb_write = False, cb_conn = False, cb_err = False\<rparr>\<rparr>"

text \<open>The jitter in binary arithmetic, cut to an integer towards zero; \<open>g\<close> is the number drawn.\<close>

fun fl_trunc :: "fl \<Rightarrow> int" where
  "fl_trunc (Fin x) = (if x \<ge> 0 then \<lfloor>x\<rfloor> else \<lceil>x\<rceil>)"
| "fl_trunc _ = 0"

definition jitter_ms :: "int \<Rightarrow> fl \<Rightarrow> int" where
  "jitter_ms backoff g =
     fl_trunc (fl_mul round64 (fl_mul round64 (round64 (of_int backoff)) (round64 (1 / 10)))
       (fl_add round64 (fl_mul round64 g (Fin 2)) (Fin (-1))))"

definition next_backoff :: "int \<Rightarrow> int \<Rightarrow> int \<Rightarrow> int" where
  "next_backoff base mx backoff =
     (if backoff < mx then let b = min (int32 (backoff * 2)) mx in if b = 0 then base else b else backoff)"

definition scheduleReconnect :: "fl \<Rightarrow> TcpChannel \<Rightarrow> ChanOut list \<times> TcpChannel" where
  "scheduleReconnect g c =
     (if \<not> tc_opened c \<or> tc_closed c then ([], c)
      else if tc_timer c \<noteq> None then ([], c)
      else let b = next_backoff (tc_reconnectBaseMs c) (tc_reconnectMaxMs c) (tc_backoffMs c);
               d = max 1 (b + jitter_ms b g)
           in ([TimerStart d], c\<lparr>tc_backoffMs := b, tc_timer := Some d\<rparr>))"

definition connectToHost :: "TcpChannel \<Rightarrow> ChanOut list \<times> TcpChannel" where
  "connectToHost c = ([ConnectTo (tp_host (tc_cfg c)) (tp_port (tc_cfg c))], c\<lparr>tc_socket := Some HostLookupState\<rparr>)"

definition tcp_onConnected :: "TcpChannel \<Rightarrow> ChanOut list \<times> TcpChannel" where
  "tcp_onConnected c = (tell_conn (tc_cbs c) True, c\<lparr>tc_backoffMs := 0, tc_connectedFlag := True\<rparr>)"

definition tcp_onDisconnected :: "fl \<Rightarrow> TcpChannel \<Rightarrow> ChanOut list \<times> TcpChannel" where
  "tcp_onDisconnected g c =
     (case scheduleReconnect g (c\<lparr>tc_connectedFlag := False\<rparr>) of
        (outs, c1) \<Rightarrow> (tell_conn (tc_cbs c) False @ outs, c1))"

text \<open>Aborting a socket that is connected or closing reports the disconnection at once.\<close>

definition tcp_close :: "TcpChannel \<Rightarrow> ChanOut list \<times> TcpChannel" where
  "tcp_close c =
     (if tc_closed c then ([], c)
      else let c1 = c\<lparr>tc_closed := True, tc_opened := False, tc_connectedFlag := False, tc_timer := None\<rparr>
      in case tc_socket c1 of
           None \<Rightarrow> ([], c1)
         | Some st \<Rightarrow>
             (case (if st = ConnectedState \<or> st = ClosingState
                    then tcp_onDisconnected (Fin 0) (c1\<lparr>tc_socket := Some UnconnectedState\<rparr>) else ([], c1)) of
                (outs, c2) \<Rightarrow> (Aborted # outs, c2\<lparr>tc_socket := None\<rparr>)))"

text \<open>\<open>None\<close> for the exception of \<open>std::get\<close> on another payload.\<close>

definition tcp_open :: "ChannelConfig \<Rightarrow> TcpChannel \<Rightarrow> bool option \<times> ChanOut list \<times> TcpChannel" where
  "tcp_open cfg c =
     (if cc_type cfg \<noteq> ChTcp then (Some False, [], c\<lparr>tc_lastError := ''TcpChannel::open expects TCP config''\<rparr>)
      else case (if tc_opened c then tcp_close c else ([], c)) of
        (outs, c1) \<Rightarrow>
          (case cc_payload cfg of
             TcpPayload t \<Rightarrow>
               let c2 = c1\<lparr>tc_cfg := t,
                     tc_reconnectBaseMs := (if cc_reconnectBaseMs cfg > 0 then cc_reconnectBaseMs cfg else 1000),
                     tc_reconnectMaxMs := (if cc_reconnectMaxMs cfg > 0 then cc_reconnectMaxMs cfg else 30000),
                     tc_lastError := []\<rparr>;
                   c3 = (if tc_socket c2 = None then c2\<lparr>tc_socket := Some UnconnectedState, tc_timer := None\<rparr> else c2)
               in (case connectToHost (c3\<lparr>tc_opened := True, tc_closed := False, tc_backoffMs := 0\<rparr>) of
                     (outs2, c4) \<Rightarrow> (Some True, outs @ outs2, c4))
           | _ \<Rightarrow> (None, outs, c1)))"

text \<open>\<open>n\<close> and \<open>msg\<close> are the answer of the socket: the bytes accepted, and its error text when negative.\<close>

definition tcp_write :: "int \<Rightarrow> string \<Rightarrow> TcpChannel \<Rightarrow> int \<times> TcpChannel" where
  "tcp_write n msg c =
     (if \<not> tc_connectedFlag c then (-1, c\<lparr>tc_lastError := ''TcpChannel::write: not connected''\<rparr>)
      else if n < 0 then (-1, c\<lparr>tc_lastError := msg\<rparr>)
      else (n, c\<lparr>tc_stats := count_sent n (tc_stats c)\<rparr>))"

definition tcp_asyncWrite :: "int \<Rightarrow> string \<Rightarrow> nat option \<Rightarrow> TcpChannel \<Rightarrow> bool \<times> TcpChannel" where
  "tcp_asyncWrite n msg cb c =
     (if \<not> tc_connectedFlag c then (False, c\<lparr>tc_lastError := ''TcpChannel::asyncWrite: not connected''\<rparr>)
      else if n < 0 then (False, c\<lparr>tc_pendingWriteCb := None, tc_lastError := msg\<rparr>)
      else (True, c\<lparr>tc_pendingWriteCb := cb, tc_stats := count_sent n (tc_stats c)\<rparr>))"

definition tcp_read :: "int \<Rightarrow> TcpChannel \<Rightarrow> bytes \<times> TcpChannel" where
  "tcp_read maxBytes c = (case inBuf_read maxBytes (tc_inBuf c) of (out, rest) \<Rightarrow> (out, c\<lparr>tc_inBuf := rest\<rparr>))"

definition tcp_isConnected :: "TcpChannel \<Rightarrow> bool" where
  "tcp_isConnected c = tc_connectedFlag c"

definition tcp_onReadyRead :: "bytes \<Rightarrow> TcpChannel \<Rightarrow> ChanOut list \<times> TcpChannel" where
  "tcp_onReadyRead data c =
     (if data = [] then ([], c)
      else (tell_data (tc_cbs c) data,
            c\<lparr>tc_stats := count_received data (tc_stats c), tc_inBuf := inBuf_append (tc_inBuf c) data\<rparr>))"

definition tcp_onBytesWritten :: "int \<Rightarrow> TcpChannel \<Rightarrow> ChanOut list \<times> TcpChannel" where
  "tcp_onBytesWritten n c = (tell_written (tc_cbs c) (tc_pendingWriteCb c) n, c\<lparr>tc_pendingWriteCb := None\<rparr>)"

definition recoverable :: "SocketError \<Rightarrow> bool" where
  "recoverable err \<longleftrightarrow> err = ConnectionRefusedError \<or> err = RemoteHostClosedError \<or> err = NetworkError"

definition tcp_onErrorOccurred :: "SocketError \<Rightarrow> string \<Rightarrow> fl \<Rightarrow> TcpChannel \<Rightarrow> ChanOut list \<times> TcpChannel" where
  "tcp_onErrorOccurred err msg g c =
     (let c1 = c\<lparr>tc_lastError := (if tc_socket c \<noteq> None then msg else ''socket error'')\<rparr>;
          outs = tell_error (tc_cbs c1) (tc_lastError c1)
      in if \<not> tc_opened c1 \<or> tc_closed c1 \<or> tc_socket c1 \<noteq> Some UnconnectedState then (outs, c1)
         else if recoverable err
         then (case scheduleReconnect g c1 of (outs2, c2) \<Rightarrow> (outs @ outs2, c2))
         else (outs, c1))"

definition attemptReconnect :: "TcpChannel \<Rightarrow> ChanOut list \<times> TcpChannel" where
  "attemptReconnect c =
     (if \<not> tc_opened c \<or> tc_closed c then ([], c)
      else if tc_socket c = Some UnconnectedState then connectToHost c
      else ([], c))"

section \<open>The code: the serial channel\<close>

datatype SerialPortError = ResourceError | DeviceNotFoundError | OtherSerialError nat

datatype DataBits = Data5 | Data6 | Data7 | Data8
datatype StopBits = OneStop | TwoStop
datatype Parity = NoParity | EvenParity | OddParity

record SerialPort =
  po_name :: string
  po_open :: bool
  po_baudRate :: int
  po_dataBits :: DataBits
  po_stopBits :: StopBits
  po_parity :: Parity

record SerialChannel =
  sr_port :: "SerialPort option"
  sr_cfg :: SerialConfig
  sr_rs485DelayUs :: int
  sr_stats :: ChannelStats
  sr_lastError :: string
  sr_inBuf :: bytes
  sr_pendingWriteCb :: "nat option"
  sr_opened :: bool
  sr_closed :: bool
  sr_cbs :: Callbacks

definition serial_new :: SerialChannel where
  "serial_new = \<lparr>sr_port = None,
     sr_cfg = \<lparr>sl_portName = [], sl_baudRate = 9600, sl_dataBits = 8, sl_stopBits = 1, sl_parity = ''N'', sl_rs485Enabled = True\<rparr>,
     sr_rs485DelayUs = 1750, sr_stats = stats_new, sr_lastError = [], sr_inBuf = [], sr_pendingWriteCb = None,
     sr_opened = False, sr_closed = False,
     sr_cbs = \<lparr>cb_read = False, cb_write = False, cb_conn = False, cb_err = False\<rparr>\<rparr>"

definition rs485_delay :: "int \<Rightarrow> int \<Rightarrow> int \<Rightarrow> string \<Rightarrow> int option" where
  "rs485_delay baudRate dataBits stopBits parity =
     (if baudRate > 19200 then Some 1750
      else if baudRate = 0 then None
      else let bitsPerChar = dataBits + (if parity = ''N'' then 0 else 1) + stopBits
           in Some ((bitsPerChar * 3500000) sdiv baudRate))"

definition port_settings :: "SerialConfig \<Rightarrow> SerialPort \<Rightarrow> SerialPort" where
  "port_settings cfg p = p\<lparr>po_baudRate := sl_baudRate cfg,
     po_dataBits := (if sl_dataBits cfg = 5 then Data5 else if sl_dataBits cfg = 6 then Data6
                     else if sl_dataBits cfg = 7 then Data7 else Data8),
     po_stopBits := (if sl_stopBits cfg \<ge> 2 then TwoStop else OneStop),
     po_parity := (if sl_parity cfg = ''E'' then EvenParity else if sl_parity cfg = ''O'' then OddParity else NoParity)\<rparr>"

text \<open>\<open>ports\<close> are the names of the ports there are; \<open>opens\<close> is \<open>None\<close> when the port opens, else its error text.
  The result is \<open>None\<close> for an exception (another payload) and for a division by zero.\<close>

definition serial_open ::
  "string list \<Rightarrow> string option \<Rightarrow> ChannelConfig \<Rightarrow> SerialChannel \<Rightarrow> bool option \<times> ChanOut list \<times> SerialChannel" where
  "serial_open ports opens cfg c =
     (if cc_type cfg \<noteq> ChSerial then (Some False, [], c\<lparr>sr_lastError := ''SerialChannel::open expects Serial config''\<rparr>)
      else case cc_payload cfg of
        SerialPayload s \<Rightarrow>
          let c1 = c\<lparr>sr_cfg := s\<rparr>;
              done = (\<lambda>c. (Some True, tell_conn (sr_cbs c) True, c\<lparr>sr_opened := True, sr_closed := False\<rparr>))
          in if sl_portName s = [] then (Some False, [], c1\<lparr>sr_lastError := ''SerialChannel::open: empty portName''\<rparr>)
             else let c2 = c1\<lparr>sr_lastError := []\<rparr>
             in if sr_port c2 \<noteq> None then done c2
             else if \<not> list_ex (\<lambda>p. p = sl_portName s) ports
             then (Some False, [], c2\<lparr>sr_lastError := ''SerialChannel::open: port not found: '' @ sl_portName s\<rparr>)
             else (case opens of
                Some msg \<Rightarrow> (Some False, [], c2\<lparr>sr_lastError := msg\<rparr>)
              | None \<Rightarrow>
                  let port = port_settings s \<lparr>po_name = sl_portName s, po_open = True, po_baudRate = 9600, po_dataBits = Data8,
                        po_stopBits = OneStop, po_parity = NoParity\<rparr>
                  in (case rs485_delay (sl_baudRate s) (sl_dataBits s) (sl_stopBits s) (sl_parity s) of
                        None \<Rightarrow> (None, [], c2\<lparr>sr_port := Some port\<rparr>)
                      | Some d \<Rightarrow> done (c2\<lparr>sr_port := Some port, sr_rs485DelayUs := d\<rparr>)))
      | _ \<Rightarrow> (None, [], c))"

definition serial_close :: "SerialChannel \<Rightarrow> ChanOut list \<times> SerialChannel" where
  "serial_close c =
     (if sr_closed c then ([], c)
      else ((if sr_port c \<noteq> None then [PortClosed] else []) @ tell_conn (sr_cbs c) False,
            c\<lparr>sr_closed := True, sr_opened := False, sr_port := None\<rparr>))"

definition serial_isConnected :: "SerialChannel \<Rightarrow> bool" where
  "serial_isConnected c \<longleftrightarrow> (case sr_port c of None \<Rightarrow> False | Some p \<Rightarrow> po_open p \<and> sr_opened c)"

definition serial_write :: "int \<Rightarrow> string \<Rightarrow> SerialChannel \<Rightarrow> int \<times> SerialChannel" where
  "serial_write n msg c =
     (if \<not> serial_isConnected c then (-1, c\<lparr>sr_lastError := ''SerialChannel::write: not opened''\<rparr>)
      else if n < 0 then (-1, c\<lparr>sr_lastError := msg\<rparr>)
      else (n, c\<lparr>sr_stats := count_sent n (sr_stats c)\<rparr>))"

definition serial_asyncWrite :: "int \<Rightarrow> string \<Rightarrow> nat option \<Rightarrow> SerialChannel \<Rightarrow> bool \<times> SerialChannel" where
  "serial_asyncWrite n msg cb c =
     (if \<not> serial_isConnected c then (False, c\<lparr>sr_lastError := ''SerialChannel::asyncWrite: not opened''\<rparr>)
      else if n < 0 then (False, c\<lparr>sr_pendingWriteCb := None, sr_lastError := msg\<rparr>)
      else (True, c\<lparr>sr_pendingWriteCb := cb, sr_stats := count_sent n (sr_stats c)\<rparr>))"

definition serial_read :: "int \<Rightarrow> SerialChannel \<Rightarrow> bytes \<times> SerialChannel" where
  "serial_read maxBytes c = (case inBuf_read maxBytes (sr_inBuf c) of (out, rest) \<Rightarrow> (out, c\<lparr>sr_inBuf := rest\<rparr>))"

definition serial_onReadyRead :: "bytes \<Rightarrow> SerialChannel \<Rightarrow> ChanOut list \<times> SerialChannel" where
  "serial_onReadyRead data c =
     (if sr_port c = None then ([], c)
      else if data = [] then ([], c)
      else (tell_data (sr_cbs c) data,
            c\<lparr>sr_stats := count_received data (sr_stats c), sr_inBuf := inBuf_append (sr_inBuf c) data\<rparr>))"

definition serial_onBytesWritten :: "int \<Rightarrow> SerialChannel \<Rightarrow> ChanOut list \<times> SerialChannel" where
  "serial_onBytesWritten n c = (tell_written (sr_cbs c) (sr_pendingWriteCb c) n, c\<lparr>sr_pendingWriteCb := None\<rparr>)"

definition serial_onErrorOccurred :: "SerialPortError \<Rightarrow> string \<Rightarrow> SerialChannel \<Rightarrow> ChanOut list \<times> SerialChannel" where
  "serial_onErrorOccurred err msg c =
     (let c1 = c\<lparr>sr_lastError := (if sr_port c \<noteq> None then msg else ''serial error'')\<rparr>
      in (tell_error (sr_cbs c1) (sr_lastError c1) @
            (if err = ResourceError \<or> err = DeviceNotFoundError then tell_conn (sr_cbs c1) False else []), c1))"


section \<open>The jitter stays within a tenth\<close>

lemma round64_near:
  assumes "\<bar>x\<bar> < 2 ^ n" and "n \<le> 1000"
  obtains y where "round64 x = Fin y" and "\<bar>y - x\<bar> \<le> 2 ^ n / 2 ^ 54"
proof -
  have "pow2 (int n - 1 + 1) = 2 ^ n" by (simp add: pow2_def)
  moreover have "pow2 (int n - 1 - 53) = 2 ^ n / 2 ^ 54" using pow2_diff [of n 54] by (simp add: algebra_simps)
  ultimately show ?thesis
    using fl_round_error [of x "int n - 1" "-1022" 1023 53] assms that by (auto simp: round64_def)
qed

lemma jitter_bound:
  assumes "0 \<le> b" and "b \<le> 2 ^ 31" and "0 \<le> r" and "r < 1"
  shows "\<bar>jitter_ms b (Fin r)\<bar> \<le> b div 10"
proof -
  have b: "round64 (of_int b) = Fin (of_int b)" using assms(1,2) by (intro round64_int) simp
  obtain t where t: "round64 (1 / 10) = Fin t" "\<bar>t - 1 / 10\<bar> \<le> 2 ^ 0 / 2 ^ 54" by (rule round64_near [of "1/10" 0]) simp_all
  let ?B = "of_int b :: rat"
  have B: "0 \<le> ?B" "?B \<le> 2 ^ 31" using assms(1,2) by simp_all
  have t': "0 \<le> t" "t \<le> 1 / 10 + 1 / 2 ^ 54" using t(2) unfolding abs_le_iff by (auto simp: field_simps)
  have bt: "?B * t \<le> ?B / 10 + 1 / 2 ^ 23"
  proof -
    have "?B * t \<le> ?B * (1 / 10 + 1 / 2 ^ 54)" by (rule mult_left_mono [OF t'(2) B(1)])
    moreover have "?B * (1 / 2 ^ 54) \<le> 2 ^ 31 * (1 / 2 ^ 54)" by (rule mult_right_mono [OF B(2)]) simp
    ultimately show ?thesis by (simp add: distrib_left)
  qed
  have "0 \<le> ?B * t" using B(1) t'(1) by simp
  moreover have "?B * t < 2 ^ 31" using bt B(2) by simp
  ultimately obtain u where u: "round64 (?B * t) = Fin u" "\<bar>u - ?B * t\<bar> \<le> 2 ^ 31 / 2 ^ 54"
    using round64_near [of "?B * t" 31] by auto
  have "\<bar>r * 2\<bar> < 2 ^ 1" using assms(3,4) by simp
  then obtain v where v: "round64 (r * 2) = Fin v" "\<bar>v - r * 2\<bar> \<le> 2 ^ 1 / 2 ^ 54" by (rule round64_near) simp
  have "\<bar>v - 1\<bar> \<le> 1 + 1 / 2 ^ 53" using v(2) assms(3,4) unfolding abs_le_iff by (auto simp: field_simps)
  then have "\<bar>v + -1\<bar> < 2 ^ 1" by simp
  then obtain w where w: "round64 (v + -1) = Fin w" "\<bar>w - (v + -1)\<bar> \<le> 2 ^ 1 / 2 ^ 54" by (rule round64_near) simp
  have w1: "\<bar>w\<bar> \<le> 1 + 1 / 2 ^ 52" using w(2) \<open>\<bar>v - 1\<bar> \<le> 1 + 1 / 2 ^ 53\<close> unfolding abs_le_iff by (auto simp: field_simps)
  have u1: "\<bar>u\<bar> \<le> ?B / 10 + 1 / 2 ^ 22" using u(2) bt \<open>0 \<le> ?B * t\<close> unfolding abs_le_iff by (auto simp: field_simps)
  have uw: "\<bar>u * w\<bar> \<le> ?B / 10 + 1 / 2 ^ 20"
  proof -
    have "\<bar>u * w\<bar> \<le> (?B / 10 + 1 / 2 ^ 22) * (1 + 1 / 2 ^ 52)"
      unfolding abs_mult by (rule mult_mono [OF u1 w1]) (use B(1) in simp_all)
    also have "\<dots> = ?B / 10 + 1 / 2 ^ 22 + (?B / 10 + 1 / 2 ^ 22) * (1 / 2 ^ 52)" by (simp only: distrib_left mult_1_right)
    finally have "\<bar>u * w\<bar> \<le> ?B / 10 + 1 / 2 ^ 22 + (?B / 10 + 1 / 2 ^ 22) * (1 / 2 ^ 52)" .
    moreover have "(?B / 10 + 1 / 2 ^ 22) * (1 / 2 ^ 52) \<le> 1 / 2 ^ 22" using B(2) by simp
    ultimately have "\<bar>u * w\<bar> \<le> ?B / 10 + 1 / 2 ^ 22 + 1 / 2 ^ 22" by (rule order_trans [OF _ add_left_mono])
    then show ?thesis by simp
  qed
  then have "\<bar>u * w\<bar> < 2 ^ 31" using B(2) by simp
  then obtain x where x: "round64 (u * w) = Fin x" "\<bar>x - u * w\<bar> \<le> 2 ^ 31 / 2 ^ 54" by (rule round64_near) simp
  have "\<bar>x\<bar> \<le> ?B / 10 + 1 / 2 ^ 19" using x(2) uw unfolding abs_le_iff by (auto simp: field_simps)
  moreover have "?B / 10 \<le> of_int (b div 10) + 9 / 10"
  proof -
    have "b \<le> 10 * (b div 10) + 9" by simp
    then have "?B \<le> of_int (10 * (b div 10) + 9)" by (simp only: of_int_le_iff)
    then show ?thesis by simp
  qed
  ultimately have "\<bar>x\<bar> < of_int (b div 10) + 1" by simp
  then have "\<lfloor>\<bar>x\<bar>\<rfloor> \<le> b div 10" by (simp add: floor_le_iff)
  moreover have "\<bar>fl_trunc (Fin x)\<bar> = \<lfloor>\<bar>x\<bar>\<rfloor>"
  proof (cases "0 \<le> x")
    case False
    have "\<bar>\<lfloor>- x\<rfloor>\<bar> = \<lfloor>- x\<rfloor>" by (rule abs_of_nonneg) (use False in simp)
    then show ?thesis using False by (simp add: ceiling_def)
  qed simp
  ultimately have "\<bar>fl_trunc (Fin x)\<bar> \<le> b div 10" by simp
  then show ?thesis by (simp add: jitter_ms_def b t(1) u(1) v(1) w(1) [simplified] x(1))
qed


section \<open>The life of a TCP channel\<close>

text \<open>The steps of a channel whose socket fails to connect only with errors in \<open>E\<close>: the calls of the program and what
  Qt documents of its socket, each followed by the slot it calls. Settings are such that twice a back-off and its
  jitter are numbers of the code's \<open>int\<close>; \<open>QRandomGenerator\<close> draws from [0, 1).\<close>

definition settings_ok :: "ChannelConfig \<Rightarrow> bool" where
  "settings_ok cfg \<longleftrightarrow> cc_reconnectBaseMs cfg \<le> 2 ^ 30 \<and> cc_reconnectMaxMs cfg \<le> 2 ^ 30"

definition drawn :: "fl \<Rightarrow> bool" where
  "drawn g \<longleftrightarrow> (\<exists>r. g = Fin r \<and> 0 \<le> r \<and> r < 1)"

definition with_socket :: "SocketState \<Rightarrow> TcpChannel \<Rightarrow> TcpChannel" where
  "with_socket st c = c\<lparr>tc_socket := Some st\<rparr>"

inductive tcp_step :: "SocketError set \<Rightarrow> TcpChannel \<Rightarrow> TcpChannel \<Rightarrow> bool" for E where
  opens: "settings_ok cfg \<Longrightarrow> tcp_open cfg c = (r, outs, c') \<Longrightarrow> tcp_step E c c'"
| closes: "tcp_close c = (outs, c') \<Longrightarrow> tcp_step E c c'"
| writes: "tcp_write n msg c = (m, c') \<Longrightarrow> tcp_step E c c'"
| async: "tcp_asyncWrite n msg cb c = (ok, c') \<Longrightarrow> tcp_step E c c'"
| reads: "tcp_read n c = (out, c') \<Longrightarrow> tcp_step E c c'"
| resolved: "tc_socket c = Some HostLookupState \<Longrightarrow> tcp_step E c (with_socket ConnectingState c)"
| connects: "tc_socket c = Some ConnectingState \<Longrightarrow> tcp_onConnected (with_socket ConnectedState c) = (outs, c') \<Longrightarrow> tcp_step E c c'"
| fails: "tc_socket c = Some HostLookupState \<or> tc_socket c = Some ConnectingState \<Longrightarrow> err \<in> E \<Longrightarrow> drawn g \<Longrightarrow>
    tcp_onErrorOccurred err msg g (with_socket UnconnectedState c) = (outs, c') \<Longrightarrow> tcp_step E c c'"
| reports: "tc_socket c = Some ConnectedState \<or> tc_socket c = Some ClosingState \<Longrightarrow> drawn g \<Longrightarrow>
    tcp_onErrorOccurred err msg g c = (outs, c') \<Longrightarrow> tcp_step E c c'"
| closing: "tc_socket c = Some ConnectedState \<Longrightarrow> tcp_step E c (with_socket ClosingState c)"
| drops: "tc_socket c = Some ConnectedState \<or> tc_socket c = Some ClosingState \<Longrightarrow> drawn g \<Longrightarrow>
    tcp_onDisconnected g (with_socket UnconnectedState c) = (outs, c') \<Longrightarrow> tcp_step E c c'"
| arrives: "tc_socket c = Some ConnectedState \<Longrightarrow> tcp_onReadyRead data c = (outs, c') \<Longrightarrow> tcp_step E c c'"
| sent: "tc_socket c = Some ConnectedState \<Longrightarrow> tcp_onBytesWritten n c = (outs, c') \<Longrightarrow> tcp_step E c c'"
| expires: "tc_timer c = Some d \<Longrightarrow> attemptReconnect (c\<lparr>tc_timer := None\<rparr>) = (outs, c') \<Longrightarrow> tcp_step E c c'"

inductive tcp_reach :: "SocketError set \<Rightarrow> TcpChannel \<Rightarrow> bool" for E where
  new: "tcp_reach E tcp_new"
| step: "tcp_reach E c \<Longrightarrow> tcp_step E c c' \<Longrightarrow> tcp_reach E c'"

definition armed_ok :: "int \<Rightarrow> int option \<Rightarrow> bool" where
  "armed_ok b t \<longleftrightarrow> (\<forall>d. t = Some d \<longrightarrow> 0 < b \<and> max 1 (b - b div 10) \<le> d \<and> d \<le> b + b div 10)"

definition tcp_ok :: "bool \<Rightarrow> TcpChannel \<Rightarrow> bool" where
  "tcp_ok all c \<longleftrightarrow>
     tc_opened c = (tc_socket c \<noteq> None) \<and> (tc_opened c \<longrightarrow> \<not> tc_closed c) \<and>
     tc_connectedFlag c = (tc_socket c = Some ConnectedState \<or> tc_socket c = Some ClosingState) \<and>
     (tc_timer c \<noteq> None \<longrightarrow> tc_socket c = Some UnconnectedState) \<and>
     (all \<and> tc_socket c = Some UnconnectedState \<longrightarrow> tc_timer c \<noteq> None) \<and>
     0 < tc_reconnectBaseMs c \<and> tc_reconnectBaseMs c \<le> 2 ^ 30 \<and> 0 < tc_reconnectMaxMs c \<and> tc_reconnectMaxMs c \<le> 2 ^ 30 \<and>
     0 \<le> tc_backoffMs c \<and> tc_backoffMs c \<le> max (tc_reconnectBaseMs c) (tc_reconnectMaxMs c) \<and>
     armed_ok (tc_backoffMs c) (tc_timer c)"

lemma next_backoff_bounds:
  assumes "0 < base" and "0 < mx" and "0 \<le> b" and "b \<le> max base mx" and "mx \<le> 2 ^ 30"
  shows "0 < next_backoff base mx b" and "next_backoff base mx b \<le> max base mx"
  using assms by (auto simp: next_backoff_def Let_def min_def max_def split: if_splits)

text \<open>A channel that lost its connection and has no timer yet.\<close>

lemma schedule_ok:
  assumes "tcp_ok False c" and "tc_socket c = Some UnconnectedState" and "drawn g" and "scheduleReconnect g c = (outs, c')"
  shows "tcp_ok all c'"
proof -
  obtain r where g: "g = Fin r" "0 \<le> r" "r < 1" using assms(3) by (auto simp: drawn_def)
  have live: "tc_opened c" "\<not> tc_closed c" using assms(1,2) by (auto simp: tcp_ok_def)
  let ?b = "next_backoff (tc_reconnectBaseMs c) (tc_reconnectMaxMs c) (tc_backoffMs c)"
  have b: "0 < ?b" "?b \<le> max (tc_reconnectBaseMs c) (tc_reconnectMaxMs c)"
    using next_backoff_bounds [of "tc_reconnectBaseMs c" "tc_reconnectMaxMs c" "tc_backoffMs c"] assms(1)
    by (auto simp: tcp_ok_def)
  have "max (tc_reconnectBaseMs c) (tc_reconnectMaxMs c) \<le> 2 ^ 30" using assms(1) by (simp add: tcp_ok_def)
  with b(2) have "?b \<le> 2 ^ 31" by (simp add: max_def split: if_splits)
  then have "\<bar>jitter_ms ?b (Fin r)\<bar> \<le> ?b div 10" using jitter_bound [of ?b r] b(1) g by simp
  then have "armed_ok ?b (Some (max 1 (?b + jitter_ms ?b g)))"
    using b(1) by (auto simp: armed_ok_def g(1) abs_le_iff max_def)
  then show ?thesis
    using assms b live by (auto simp: scheduleReconnect_def tcp_ok_def Let_def split: if_splits)
qed

lemma tcp_fields_ok:
  "tcp_ok all (c\<lparr>tc_lastError := m\<rparr>) = tcp_ok all c" "tcp_ok all (c\<lparr>tc_stats := st\<rparr>) = tcp_ok all c"
  "tcp_ok all (c\<lparr>tc_inBuf := bs\<rparr>) = tcp_ok all c" "tcp_ok all (c\<lparr>tc_pendingWriteCb := cb\<rparr>) = tcp_ok all c"
  by (simp_all add: tcp_ok_def)

lemma tcp_ok_weaken: "tcp_ok all c \<Longrightarrow> tcp_ok False c"
  by (simp add: tcp_ok_def)

lemma tcp_close_ok: "tcp_ok all c \<Longrightarrow> tcp_close c = (outs, c') \<Longrightarrow> tcp_ok all c' \<and> tc_socket c' = None"
  by (auto simp: tcp_close_def tcp_ok_def tcp_onDisconnected_def scheduleReconnect_def armed_ok_def Let_def
      split: if_splits option.splits)

lemma tcp_open_ok: "tcp_ok all c \<Longrightarrow> settings_ok cfg \<Longrightarrow> tcp_open cfg c = (r, outs, c') \<Longrightarrow> tcp_ok all c'"
proof -
  assume ok: "tcp_ok all c" and st: "settings_ok cfg" and op: "tcp_open cfg c = (r, outs, c')"
  obtain o1 c1 where c1: "(if tc_opened c then tcp_close c else ([], c)) = (o1, c1)" by (rule prod.exhaust)
  then have c1_ok: "tcp_ok all c1" "tc_socket c1 = None"
    using ok tcp_close_ok [OF ok] by (auto simp: tcp_ok_def split: if_splits)
  show ?thesis
    using op st c1_ok ok
    by (auto simp: tcp_open_def c1 connectToHost_def settings_ok_def tcp_fields_ok Let_def split: if_splits ChannelPayload.splits)
      (auto simp: tcp_ok_def armed_ok_def)
qed

lemma onDisconnected_ok:
  assumes "tcp_ok all c" and "tc_socket c = Some ConnectedState \<or> tc_socket c = Some ClosingState" and "drawn g"
    and "tcp_onDisconnected g (with_socket UnconnectedState c) = (outs, c')"
  shows "tcp_ok all c'"
proof -
  let ?c = "(with_socket UnconnectedState c)\<lparr>tc_connectedFlag := False\<rparr>"
  obtain o2 where s: "scheduleReconnect g ?c = (o2, c')"
    using assms(4) by (auto simp: tcp_onDisconnected_def split: prod.splits)
  have "tcp_ok False ?c" "tc_socket ?c = Some UnconnectedState" using assms(1,2) by (auto simp: tcp_ok_def with_socket_def)
  then show ?thesis using schedule_ok [OF _ _ assms(3) s] by blast
qed

lemma connect_fails_ok:
  assumes "tcp_ok all c" and "tc_socket c = Some HostLookupState \<or> tc_socket c = Some ConnectingState" and "drawn g"
    and "tcp_onErrorOccurred err msg g (with_socket UnconnectedState c) = (outs, c')" and "all \<longrightarrow> recoverable err"
  shows "tcp_ok all c'"
proof -
  let ?c = "(with_socket UnconnectedState c)\<lparr>tc_lastError := msg\<rparr>"
  have ok: "tcp_ok False ?c" "tc_socket ?c = Some UnconnectedState" "tc_opened ?c" "\<not> tc_closed ?c"
    using assms(1,2) by (auto simp: tcp_ok_def with_socket_def)
  show ?thesis
  proof (cases "recoverable err")
    case True
    then obtain o2 where s: "scheduleReconnect g ?c = (o2, c')"
      using assms(4) ok(3,4) by (auto simp: tcp_onErrorOccurred_def with_socket_def Let_def split: prod.splits)
    show ?thesis by (rule schedule_ok [OF ok(1,2) assms(3) s])
  next
    case False
    then have "c' = ?c" "\<not> all" using assms(4,5) ok(3,4) by (auto simp: tcp_onErrorOccurred_def with_socket_def Let_def)
    then show ?thesis using ok(1) by simp
  qed
qed

lemma tcp_io_ok:
  "tcp_ok all c \<Longrightarrow> tcp_write n msg c = (m, c') \<Longrightarrow> tcp_ok all c'"
  "tcp_ok all c \<Longrightarrow> tcp_asyncWrite n msg cb c = (r, c') \<Longrightarrow> tcp_ok all c'"
  "tcp_ok all c \<Longrightarrow> tcp_read n c = (out, c') \<Longrightarrow> tcp_ok all c'"
  "tcp_ok all c \<Longrightarrow> tcp_onReadyRead data c = (outs, c') \<Longrightarrow> tcp_ok all c'"
  "tcp_ok all c \<Longrightarrow> tcp_onBytesWritten n c = (outs, c') \<Longrightarrow> tcp_ok all c'"
  by (auto simp: tcp_write_def tcp_asyncWrite_def tcp_read_def tcp_onReadyRead_def tcp_onBytesWritten_def tcp_fields_ok
      split: if_splits prod.splits)

lemma reports_ok:
  "tcp_ok all c \<Longrightarrow> tc_socket c = Some ConnectedState \<or> tc_socket c = Some ClosingState \<Longrightarrow>
    tcp_onErrorOccurred err msg g c = (outs, c') \<Longrightarrow> tcp_ok all c'"
  by (auto simp: tcp_onErrorOccurred_def tcp_fields_ok Let_def split: if_splits)

lemma expires_ok: "tcp_ok all c \<Longrightarrow> tc_timer c = Some d \<Longrightarrow> attemptReconnect (c\<lparr>tc_timer := None\<rparr>) = (outs, c') \<Longrightarrow> tcp_ok all c'"
  by (auto simp: attemptReconnect_def connectToHost_def tcp_ok_def armed_ok_def split: if_splits)

lemma connects_ok: "tcp_ok all c \<Longrightarrow> tc_socket c = Some ConnectingState \<Longrightarrow>
    tcp_onConnected (with_socket ConnectedState c) = (outs, c') \<Longrightarrow> tcp_ok all c'"
  by (auto simp: tcp_onConnected_def with_socket_def tcp_ok_def armed_ok_def)

lemma socket_ok:
  "tcp_ok all c \<Longrightarrow> tc_socket c = Some HostLookupState \<Longrightarrow> tcp_ok all (with_socket ConnectingState c)"
  "tcp_ok all c \<Longrightarrow> tc_socket c = Some ConnectedState \<Longrightarrow> tcp_ok all (with_socket ClosingState c)"
  by (auto simp: tcp_ok_def with_socket_def)

lemma tcp_step_ok: "tcp_step E c c' \<Longrightarrow> (all \<longrightarrow> (\<forall>err \<in> E. recoverable err)) \<Longrightarrow> tcp_ok all c \<Longrightarrow> tcp_ok all c'"
proof (induction rule: tcp_step.induct)
  case (fails c err g msg outs c')
  then show ?case using connect_fails_ok by blast
qed (blast intro: tcp_open_ok tcp_io_ok onDisconnected_ok reports_ok expires_ok connects_ok socket_ok dest: tcp_close_ok)+

lemma tcp_reach_ok: "tcp_reach E c \<Longrightarrow> (all \<longrightarrow> (\<forall>err \<in> E. recoverable err)) \<Longrightarrow> tcp_ok all c"
proof (induction rule: tcp_reach.induct)
  case new
  show ?case by (simp add: tcp_ok_def tcp_new_def armed_ok_def)
qed (blast intro: tcp_step_ok)


text \<open>Property C39: a TCP channel is never stuck. In every state that its calls and the reports of its socket reach, while
  each failed attempt to connect is refused, closed by the peer or a network error, an open channel says it is
  connected exactly when its socket is, and when its socket is unconnected the timer runs, armed with the
  back-off plus or minus at most a tenth of it and at least 1 ms, where the back-off never exceeds the larger of the
  two settings; and when that timer fires the channel connects again to the configured host.\<close>

theorem tcp_never_stuck:
  assumes "tcp_reach E c" and "\<forall>err \<in> E. recoverable err" and "tc_opened c"
  shows "\<exists>st. tc_socket c = Some st \<and> tcp_isConnected c = (st = ConnectedState \<or> st = ClosingState) \<and>
    (st = UnconnectedState \<longrightarrow> (\<exists>d. tc_timer c = Some d \<and>
       max 1 (tc_backoffMs c - tc_backoffMs c div 10) \<le> d \<and> d \<le> tc_backoffMs c + tc_backoffMs c div 10 \<and>
       0 < tc_backoffMs c \<and> tc_backoffMs c \<le> max (tc_reconnectBaseMs c) (tc_reconnectMaxMs c) \<and>
       attemptReconnect (c\<lparr>tc_timer := None\<rparr>) =
         ([ConnectTo (tp_host (tc_cfg c)) (tp_port (tc_cfg c))], c\<lparr>tc_timer := None, tc_socket := Some HostLookupState\<rparr>)))"
proof -
  have ok: "tcp_ok True c" using tcp_reach_ok [OF assms(1)] assms(2) by blast
  then obtain st where st: "tc_socket c = Some st" using assms(3) by (auto simp: tcp_ok_def)
  moreover have "\<exists>d. tc_timer c = Some d" if "st = UnconnectedState" using ok st that by (auto simp: tcp_ok_def)
  ultimately show ?thesis
    using ok assms(3)
    by (auto simp: tcp_ok_def armed_ok_def tcp_isConnected_def attemptReconnect_def connectToHost_def)
qed

text \<open>A failed attempt and the end of the wait after it.\<close>

definition fail_once :: "SocketError \<times> string \<times> fl \<Rightarrow> TcpChannel \<Rightarrow> TcpChannel" where
  "fail_once f c = (case f of (err, msg, g) \<Rightarrow>
     snd (attemptReconnect ((snd (tcp_onErrorOccurred err msg g (with_socket UnconnectedState c)))\<lparr>tc_timer := None\<rparr>)))"

text \<open>An open channel that is connecting.\<close>

definition trying :: "TcpChannel \<Rightarrow> bool" where
  "trying c \<longleftrightarrow> tc_opened c \<and> \<not> tc_closed c \<and> tc_timer c = None \<and> tc_socket c = Some HostLookupState"

lemma fail_once_trying:
  assumes "trying c" and "recoverable err"
  shows "trying (fail_once (err, msg, g) c)"
    and "tc_backoffMs (fail_once (err, msg, g) c) = next_backoff (tc_reconnectBaseMs c) (tc_reconnectMaxMs c) (tc_backoffMs c)"
    and "tc_reconnectBaseMs (fail_once (err, msg, g) c) = tc_reconnectBaseMs c"
    and "tc_reconnectMaxMs (fail_once (err, msg, g) c) = tc_reconnectMaxMs c"
  using assms
  by (simp_all add: trying_def fail_once_def with_socket_def tcp_onErrorOccurred_def scheduleReconnect_def
      attemptReconnect_def connectToHost_def Let_def)

lemma next_backoff_power:
  assumes "0 < base" and "base \<le> mx" and "mx \<le> 2 ^ 30"
  shows "next_backoff base mx (min (base * 2 ^ n) mx) = min (base * 2 ^ Suc n) mx"
proof (cases "base * 2 ^ n < mx")
  case True
  moreover have "0 < base * 2 ^ n" using assms(1) by simp
  moreover have "int32 (base * 2 ^ n * 2) = base * 2 ^ n * 2" using calculation assms(3) by simp
  ultimately show ?thesis by (simp add: next_backoff_def Let_def min_def mult.commute mult.left_commute)
next
  case False
  moreover have "0 < base * 2 ^ n" using assms(1) by simp
  ultimately have "mx \<le> base * 2 ^ Suc n" by (simp only: power_Suc mult.left_commute [of base 2])
  with False show ?thesis by (simp add: next_backoff_def min_def)
qed

text \<open>Property C40: the back-off is exponential. After \<open>n + 1\<close> attempts in a row that fail recoverably, from a channel
  that has just been opened or had been connected (so its back-off is 0) and whose maximal back-off is at most \<open>2^30\<close> ms, the channel is
  connecting again and its back-off is the base doubled \<open>n\<close> times, capped at the maximum; a connection puts it back to 0.\<close>

theorem tcp_backoff:
  assumes "trying c" and "tc_backoffMs c = 0" and "0 < tc_reconnectBaseMs c" and "tc_reconnectBaseMs c \<le> tc_reconnectMaxMs c"
    and "tc_reconnectMaxMs c \<le> 2 ^ 30" and "\<forall>f \<in> set fs. recoverable (fst f)" and "length fs = Suc n"
  shows "trying (fold fail_once fs c) \<and> tc_backoffMs (fold fail_once fs c) = min (tc_reconnectBaseMs c * 2 ^ n) (tc_reconnectMaxMs c)
    \<and> tc_backoffMs (snd (tcp_onConnected (fold fail_once fs c))) = 0"
proof -
  have "trying (fold fail_once fs c) \<and> tc_backoffMs (fold fail_once fs c) = min (tc_reconnectBaseMs c * 2 ^ n) (tc_reconnectMaxMs c) \<and>
      tc_reconnectBaseMs (fold fail_once fs c) = tc_reconnectBaseMs c \<and> tc_reconnectMaxMs (fold fail_once fs c) = tc_reconnectMaxMs c"
    using assms(6,7)
  proof (induction fs arbitrary: n rule: rev_induct)
    case (snoc f fs)
    obtain err msg g where f: "f = (err, msg, g)" by (rule prod_cases3)
    then have rec: "recoverable err" using snoc.prems(1) by simp
    show ?case
    proof (cases n)
      case 0
      then have "fs = []" using snoc.prems(2) by simp
      then show ?thesis
        using fail_once_trying [OF assms(1) rec, of msg g] assms(2-5) 0 by (simp add: f next_backoff_def min_def)
    next
      case (Suc m)
      then have IH: "trying (fold fail_once fs c)" "tc_backoffMs (fold fail_once fs c) = min (tc_reconnectBaseMs c * 2 ^ m) (tc_reconnectMaxMs c)"
        "tc_reconnectBaseMs (fold fail_once fs c) = tc_reconnectBaseMs c" "tc_reconnectMaxMs (fold fail_once fs c) = tc_reconnectMaxMs c"
        using snoc.IH [of m] snoc.prems by simp_all
      show ?thesis
        using fail_once_trying [OF IH(1) rec, of msg g] next_backoff_power [OF assms(3-5), of m] IH(2-4) Suc by (simp add: f)
    qed
  qed simp
  then show ?thesis by (simp add: tcp_onConnected_def)
qed

definition demo_channel_cfg :: ChannelConfig where
  "demo_channel_cfg = \<lparr>cc_type = ChTcp, cc_payload = TcpPayload \<lparr>tp_host = ''10.0.0.1'', tp_port = 502, tp_keepAliveEnabled = True\<rparr>,
     cc_name = ''BMS'', cc_reconnectBaseMs = 1000, cc_reconnectMaxMs = 30000, cc_ioTimeoutMs = 3000\<rparr>"

definition demo_channel :: TcpChannel where
  "demo_channel = snd (snd (tcp_open demo_channel_cfg tcp_new))"

lemma demo_channel_trying: "trying demo_channel" "tc_backoffMs demo_channel = 0" "tc_reconnectBaseMs demo_channel = 1000"
  "tc_reconnectMaxMs demo_channel = 30000" "tc_opened demo_channel"
  by (simp_all add: demo_channel_def demo_channel_cfg_def tcp_open_def tcp_new_def connectToHost_def trying_def Let_def)

theorem tcp_backoff_witness:
  "tc_backoffMs (fold fail_once (replicate 6 (NetworkError, [], Fin 0)) demo_channel) = 30000"
  using tcp_backoff [OF demo_channel_trying(1,2), of "replicate 6 (NetworkError, [], Fin 0)" 5] demo_channel_trying(3,4)
  by (simp add: recoverable_def)

definition demo_refused :: TcpChannel where
  "demo_refused = snd (tcp_onErrorOccurred ConnectionRefusedError ''refused'' (Fin 0) (with_socket UnconnectedState demo_channel))"

lemma demo_refused_reach: "tcp_reach {ConnectionRefusedError} demo_refused"
proof -
  have "tcp_step {ConnectionRefusedError} tcp_new demo_channel"
    unfolding demo_channel_def
    by (rule tcp_step.opens [of demo_channel_cfg _ "fst (tcp_open demo_channel_cfg tcp_new)" "fst (snd (tcp_open demo_channel_cfg tcp_new))"])
      (simp_all add: settings_ok_def demo_channel_cfg_def)
  then have "tcp_reach {ConnectionRefusedError} demo_channel" by (rule tcp_reach.step [OF tcp_reach.new])
  moreover have "tcp_step {ConnectionRefusedError} demo_channel demo_refused"
    unfolding demo_refused_def
    by (rule tcp_step.fails [where err = ConnectionRefusedError and msg = "''refused''" and g = "Fin 0"])
      (use demo_channel_trying in \<open>auto simp: trying_def drawn_def intro: prod.collapse [symmetric]\<close>)
  ultimately show ?thesis by (rule tcp_reach.step)
qed

theorem tcp_never_stuck_witness: "\<exists>d. tc_timer demo_refused = Some d \<and> 900 \<le> d \<and> d \<le> 1100"
proof -
  have c: "tc_opened demo_refused" "tc_socket demo_refused = Some UnconnectedState" "tc_backoffMs demo_refused = 1000"
    using demo_channel_trying
    by (simp_all add: demo_refused_def trying_def tcp_onErrorOccurred_def with_socket_def recoverable_def scheduleReconnect_def
        next_backoff_def Let_def)
  then show ?thesis using tcp_never_stuck [OF demo_refused_reach _ c(1)] by (auto simp: recoverable_def)
qed

section \<open>Two faults of the serial channel\<close>

text \<open>A port that is pulled is reported as disconnected, but the channel keeps calling itself connected.\<close>

theorem serial_pulled_stays_connected:
  "serial_onErrorOccurred ResourceError msg c = (outs, c') \<Longrightarrow>
    SigConnection False \<in> set outs \<and> serial_isConnected c' = serial_isConnected c"
  by (auto simp: serial_onErrorOccurred_def tell_conn_def serial_isConnected_def Let_def split: option.splits)

text \<open>Opening an open channel with another configuration succeeds and keeps the port of the first.\<close>

theorem serial_reopen_keeps_port:
  assumes "sr_port c = Some p" and "cc_type cfg = ChSerial" and "cc_payload cfg = SerialPayload s" and "sl_portName s \<noteq> []"
  shows "\<exists>outs c'. serial_open ports opens cfg c = (Some True, outs, c') \<and> sr_port c' = Some p \<and> sr_cfg c' = s"
  using assms by (simp add: serial_open_def Let_def)

end
