(* ===== verification/Presentation.thy ===== *)
theory Presentation
  imports AlarmEngine PointTable Json "HOL-Library.Product_Lexorder"
begin

text \<open>
  The parts of the user interface that compute: the export of tables (\<^verbatim>\<open>ui/common/CsvWriter.h\<close> and
  \<^verbatim>\<open>.cpp\<close>), the decision which alarms sound (\<^verbatim>\<open>ui/common/AlarmNotifier.h\<close> and \<^verbatim>\<open>.cpp\<close>), the reduction
  of a curve to the points a chart has room for (\<^verbatim>\<open>ui/charts/RenderDownsampler.cpp\<close>, \<^verbatim>\<open>ChannelBuffer.h\<close>)
  and the classification of points for the overview (\<^verbatim>\<open>ui/common/OverviewPoints.h\<close>), all under
  \<^verbatim>\<open>apps/ens_app/src\<close>. The widgets around them draw and are not modelled.
\<close>

section \<open>Export of tables\<close>

text \<open>The stream of a file: the bytes it has taken, and whether it is open and good. The file system's
  answers are arguments: whether the file can be created, and how many of the bytes handed over it takes.\<close>

record CsvWriter =
  cw_isOpen :: bool
  cw_good :: bool
  cw_bytes :: string

definition csv_new :: CsvWriter where
  "csv_new = \<lparr>cw_isOpen = False, cw_good = True, cw_bytes = []\<rparr>"

definition kBom :: string where
  "kBom = [CHR 0xEF, CHR 0xBB, CHR 0xBF]"

definition stream_put :: "nat \<Rightarrow> string \<Rightarrow> CsvWriter \<Rightarrow> CsvWriter" where
  "stream_put room s w =
     (if cw_good w then w\<lparr>cw_bytes := cw_bytes w @ take room s, cw_good := length s \<le> room\<rparr> else w)"

definition csv_open :: "bool \<Rightarrow> nat \<Rightarrow> CsvWriter \<Rightarrow> bool \<times> CsvWriter" where
  "csv_open created room w =
     (if cw_isOpen w then (False, w)
      else if \<not> created then (False, w\<lparr>cw_good := False\<rparr>)
      else let w1 = stream_put room kBom (w\<lparr>cw_isOpen := True, cw_good := True, cw_bytes := []\<rparr>)
           in (cw_good w1, w1))"

definition escapeField :: "string \<Rightarrow> string" where
  "escapeField field =
     (if \<not> list_ex (\<lambda>c. c = CHR '','' \<or> c = CHR 0x22 \<or> c = CHR 0x0D \<or> c = CHR 0x0A) field then field
      else [CHR 0x22] @ concat (map (\<lambda>c. if c = CHR 0x22 then [CHR 0x22, c] else [c]) field) @ [CHR 0x22])"

fun row_text :: "string list \<Rightarrow> string" where
  "row_text [] = []"
| "row_text [f] = escapeField f"
| "row_text (f # fs) = escapeField f @ [CHR '',''] @ row_text fs"

definition writeRow :: "nat \<Rightarrow> string list \<Rightarrow> CsvWriter \<Rightarrow> bool \<times> CsvWriter" where
  "writeRow room fs w =
     (if \<not> cw_isOpen w then (False, w)
      else let w1 = stream_put room (row_text fs @ [CHR 0x0D, CHR 0x0A]) w in (cw_good w1, w1))"

definition csv_close :: "CsvWriter \<Rightarrow> CsvWriter" where
  "csv_close w = (if cw_isOpen w then w\<lparr>cw_isOpen := False\<rparr> else w)"

text \<open>A reader of the format, RFC 4180: rows end with CR LF, a field is plain or quoted, and within quotes
  a quote is doubled. It refuses everything else.\<close>

datatype CsvMode = AtStart | InPlain | InQuotes | AfterQuote

fun rfc4180 :: "CsvMode \<Rightarrow> string \<Rightarrow> string list \<Rightarrow> string \<Rightarrow> string list list option" where
  "rfc4180 md f r [] = (if md = AtStart \<and> r = [] then Some [] else None)"
| "rfc4180 md f r (c # cs) =
     (if md = InQuotes
      then if c = CHR 0x22 then rfc4180 AfterQuote f r cs else rfc4180 InQuotes (f @ [c]) r cs
      else if c = CHR 0x22
      then if md = AtStart then rfc4180 InQuotes [] r cs
           else if md = AfterQuote then rfc4180 InQuotes (f @ [c]) r cs else None
      else if c = CHR '','' then rfc4180 AtStart [] (r @ [f]) cs
      else if c = CHR 0x0D
      then (case cs of d # cs' \<Rightarrow> if d = CHR 0x0A then map_option ((#) (r @ [f])) (rfc4180 AtStart [] [] cs') else None
            | [] \<Rightarrow> None)
      else if c = CHR 0x0A \<or> md = AfterQuote then None
      else rfc4180 InPlain (f @ [c]) r cs)"

definition csv_read :: "string \<Rightarrow> string list list option" where
  "csv_read s = (if take 3 s = kBom then rfc4180 AtStart [] [] (drop 3 s) else None)"

definition special :: "char \<Rightarrow> bool" where
  "special c \<longleftrightarrow> c = CHR '','' \<or> c = CHR 0x22 \<or> c = CHR 0x0D \<or> c = CHR 0x0A"

lemma read_plain:
  "\<not> list_ex special s \<Longrightarrow> md = AtStart \<and> f = [] \<or> md = InPlain \<Longrightarrow>
   rfc4180 md f r (s @ rest) = (if s = [] then rfc4180 md f r rest else rfc4180 InPlain (f @ s) r rest)"
  by (induction s arbitrary: md f) (auto simp: special_def)

lemma read_quoted:
  "rfc4180 InQuotes f r (concat (map (\<lambda>c. if c = CHR 0x22 then [CHR 0x22, c] else [c]) s) @ CHR 0x22 # rest) =
   rfc4180 AfterQuote (f @ s) r rest"
  by (induction s arbitrary: f) auto

text \<open>After a field that \<open>escapeField\<close> wrote comes a comma or the end of the row.\<close>

lemma read_field:
  assumes "rest = CHR '','' # cs \<or> rest = CHR 0x0D # cs"
  shows "rfc4180 AtStart [] r (escapeField f @ rest) = rfc4180 AfterQuote f r rest"
proof (cases "list_ex special f")
  case True
  with assms show ?thesis by (simp add: escapeField_def special_def [abs_def] read_quoted)
next
  case False
  then have "escapeField f = f" by (simp add: escapeField_def special_def [abs_def])
  with read_plain [OF False, of AtStart "[]" r rest] assms show ?thesis by auto
qed

lemma read_row:
  "fs \<noteq> [] \<Longrightarrow> rfc4180 AtStart [] r (row_text fs @ CHR 0x0D # CHR 0x0A # rest) =
   map_option ((#) (r @ fs)) (rfc4180 AtStart [] [] rest)"
  by (induction fs arbitrary: r rule: row_text.induct) (simp_all add: read_field)

lemma read_rows:
  "\<forall>fs \<in> set rows. fs \<noteq> [] \<Longrightarrow>
   rfc4180 AtStart [] [] (concat (map (\<lambda>fs. row_text fs @ [CHR 0x0D, CHR 0x0A]) rows)) = Some rows"
  by (induction rows) (simp_all add: read_row)

text \<open>Rows written one after the other; \<open>True\<close> if every call said so.\<close>

fun write_rows :: "(nat \<times> string list) list \<Rightarrow> CsvWriter \<Rightarrow> bool \<times> CsvWriter" where
  "write_rows [] w = (True, w)"
| "write_rows ((room, fs) # rows) w =
     (case writeRow room fs w of (ok, w1) \<Rightarrow> case write_rows rows w1 of (oks, w2) \<Rightarrow> (ok \<and> oks, w2))"

lemma writeRow_True:
  "writeRow room fs w = (True, w1) \<Longrightarrow> cw_good w \<Longrightarrow> cw_isOpen w1 \<and> cw_good w1 \<and>
     cw_bytes w1 = cw_bytes w @ row_text fs @ [CHR 0x0D, CHR 0x0A]"
  by (auto simp: writeRow_def stream_put_def Let_def split: if_splits)

lemma write_rows_True:
  "write_rows rows w = (True, w') \<Longrightarrow> cw_good w \<Longrightarrow>
   cw_bytes w' = cw_bytes w @ concat (map (\<lambda>fs. row_text fs @ [CHR 0x0D, CHR 0x0A]) (map snd rows))"
proof (induction rows arbitrary: w)
  case (Cons x rows)
  obtain room fs where x: "x = (room, fs)" by (cases x)
  obtain ok w1 where w1: "writeRow room fs w = (ok, w1)" by (cases "writeRow room fs w")
  with Cons.prems(1) x have ok: ok "write_rows rows w1 = (True, w')" by (auto split: prod.splits)
  note w2 = writeRow_True [OF w1 [unfolded eqTrueI [OF ok(1)]] Cons.prems(2)]
  with Cons.IH [OF ok(2)] x show ?case by simp
qed simp

text \<open>Property C29: an export reads back. When the file has been opened and every call has reported success, a reader
  of RFC 4180 behind the byte order mark gets from the bytes the stream has taken exactly the rows, each of at
  least one field, in their order, whatever characters the fields hold: commas, quotes and line ends included.\<close>

theorem csv_roundtrip:
  assumes "csv_open created room w = (True, w1)" and "write_rows rows w1 = (True, w2)" and "\<forall>x \<in> set rows. snd x \<noteq> []"
  shows "csv_read (cw_bytes (csv_close w2)) = Some (map snd rows)"
proof -
  have w1: "cw_good w1" "cw_bytes w1 = kBom"
    using assms(1) by (auto simp: csv_open_def stream_put_def Let_def split: if_splits)
  have "\<forall>fs \<in> set (map snd rows). fs \<noteq> []" using assms(3) by auto
  from read_rows [OF this] write_rows_True [OF assms(2) w1(1)] show ?thesis
    by (simp add: w1(2) csv_read_def csv_close_def kBom_def)
qed

definition demo_rows :: "(nat \<times> string list) list" where
  "demo_rows = [(100, [''time'', ''note'']), (100, [''1'', ''a,b'' @ [CHR 0x22, CHR 0x0D, CHR 0x0A]])]"

lemma demo_rows_written:
  "fst (csv_open True 100 csv_new)"
  "write_rows demo_rows (snd (csv_open True 100 csv_new)) = (True, snd (write_rows demo_rows (snd (csv_open True 100 csv_new))))"
  by (simp_all add: demo_rows_def csv_open_def csv_new_def stream_put_def writeRow_def escapeField_def kBom_def Let_def)

theorem csv_roundtrip_witness:
  "csv_read (cw_bytes (csv_close (snd (write_rows demo_rows (snd (csv_open True 100 csv_new)))))) =
     Some [[''time'', ''note''], [''1'', ''a,b'' @ [CHR 0x22, CHR 0x0D, CHR 0x0A]]]"
proof -
  have "csv_open True 100 csv_new = (True, snd (csv_open True 100 csv_new))" using demo_rows_written(1) by (simp add: prod_eq_iff)
  from csv_roundtrip [OF this demo_rows_written(2)] show ?thesis by (simp add: demo_rows_def)
qed

text \<open>A row without fields comes back as one empty field.\<close>

lemma csv_empty_row: "rfc4180 AtStart [] [] (row_text [] @ [CHR 0x0D, CHR 0x0A]) = Some [[[]]]"
  by simp


section \<open>Which alarms sound\<close>

text \<open>\<open>m_lastNotifyMono\<close> starts at half of the smallest 64 bit number, so the first alarm is never too soon.\<close>

definition kDebounceMs :: int where "kDebounceMs = 1000"

definition event_default :: AlarmEvent where
  "event_default = \<lparr>ev_id = 0, ev_pointId = 0, ev_level = Warning, ev_status = Active, ev_triggerTime = 0,
     ev_recoverTime = 0, ev_alarmValue = Fin 0, ev_threshold = Fin 0, ev_description = [], ev_blackboxId = 0,
     ev_recoveryReason = Normal\<rparr>"

record AlarmNotifier =
  an_alarm :: bool
  an_criticalReceived :: nat
  an_notifyCount :: nat
  an_suppressedByStorm :: nat
  an_lastNotifyMono :: int
  an_last :: AlarmEvent

definition notifier_new :: "bool \<Rightarrow> AlarmNotifier" where
  "notifier_new alarm = \<lparr>an_alarm = alarm, an_criticalReceived = 0, an_notifyCount = 0, an_suppressedByStorm = 0,
     an_lastNotifyMono = - (2 ^ 62), an_last = event_default\<rparr>"

text \<open>\<open>storm\<close> is what \<open>isInStormMode\<close> of the engine answers, \<open>nowMono\<close> the reading of the clock.\<close>

definition notifier_onAlarmTriggered :: "bool \<Rightarrow> int \<Rightarrow> AlarmEvent \<Rightarrow> AlarmNotifier \<Rightarrow> AlarmEvent list \<times> AlarmNotifier" where
  "notifier_onAlarmTriggered storm nowMono ev n =
     (if ev_level ev \<noteq> Critical then ([], n)
      else let n1 = n\<lparr>an_criticalReceived := an_criticalReceived n + 1\<rparr>
           in if an_alarm n1 \<and> storm then ([], n1\<lparr>an_suppressedByStorm := an_suppressedByStorm n1 + 1\<rparr>)
              else if nowMono - an_lastNotifyMono n1 < kDebounceMs then ([], n1)
              else ([ev], n1\<lparr>an_lastNotifyMono := nowMono, an_notifyCount := an_notifyCount n1 + 1, an_last := ev\<rparr>))"

text \<open>A run of the slot: the alarms with the storm state and the clock at each, and the notifications with
  their times.\<close>

fun notify_run :: "(bool \<times> int \<times> AlarmEvent) list \<Rightarrow> AlarmNotifier \<Rightarrow> (int \<times> AlarmEvent) list \<times> AlarmNotifier" where
  "notify_run [] n = ([], n)"
| "notify_run ((storm, now, ev) # es) n =
     (case notifier_onAlarmTriggered storm now ev n of (sig, n1) \<Rightarrow>
      case notify_run es n1 of (out, n2) \<Rightarrow> (map (Pair now) sig @ out, n2))"

text \<open>Notifications are a second apart, and no critical alarm outside a storm is more than a second
  from the notification before it.\<close>

fun apart :: "int \<Rightarrow> int list \<Rightarrow> bool" where
  "apart t0 [] = True"
| "apart t0 (t # ts) = (t0 + 1000 \<le> t \<and> apart t ts)"

definition sounds :: "bool \<times> int \<times> AlarmEvent \<Rightarrow> bool" where
  "sounds e = (case e of (storm, _, ev) \<Rightarrow> ev_level ev = Critical \<and> \<not> storm)"

lemma notify_spec:
  assumes "notify_run es n = (out, n')" and "sorted (map (fst \<circ> snd) es)" and "an_alarm n"
  shows "apart (an_lastNotifyMono n) (map fst out) \<and>
    an_criticalReceived n' = an_criticalReceived n + length (filter (\<lambda>e. ev_level (snd (snd e)) = Critical) es) \<and>
    an_suppressedByStorm n' = an_suppressedByStorm n + length (filter (\<lambda>e. ev_level (snd (snd e)) = Critical \<and> fst e) es) \<and>
    an_notifyCount n' = an_notifyCount n + length out \<and>
    (\<forall>e \<in> set es. sounds e \<longrightarrow> (\<exists>t \<in> insert (an_lastNotifyMono n) (fst ` set out).
        t \<le> max (fst (snd e)) (an_lastNotifyMono n) \<and> fst (snd e) < t + 1000)) \<and>
    (\<forall>t ev. (t, ev) \<in> set out \<longrightarrow> sounds (False, t, ev) \<and> (False, t, ev) \<in> set es)"
  using assms
proof (induction es arbitrary: n out)
  case (Cons e es)
  obtain storm now ev where e: "e = (storm, now, ev)" by (rule prod_cases3)
  obtain sig n1 where n1: "notifier_onAlarmTriggered storm now ev n = (sig, n1)" by (cases "notifier_onAlarmTriggered storm now ev n")
  obtain out2 where out2: "notify_run es n1 = (out2, n')" "out = map (Pair now) sig @ out2"
    using Cons.prems(1) by (auto simp: e n1 split: prod.splits)
  have alarm: "an_alarm n1" using n1 Cons.prems(3) by (auto simp: notifier_onAlarmTriggered_def Let_def split: if_splits)
  have later: "sorted (map (fst \<circ> snd) es)" "\<forall>e' \<in> set es. now \<le> fst (snd e')" using Cons.prems(2) by (simp_all add: e comp_def)
  note IH = Cons.IH [OF out2(1) later(1) alarm]
  show ?case
  proof (cases "sounds e \<and> kDebounceMs \<le> now - an_lastNotifyMono n")
    case True
    then have c: "sig = [ev]" "an_lastNotifyMono n1 = now" "an_criticalReceived n1 = Suc (an_criticalReceived n)"
      "an_suppressedByStorm n1 = an_suppressedByStorm n" "an_notifyCount n1 = Suc (an_notifyCount n)" "\<not> storm" "ev_level ev = Critical"
      using n1 by (auto simp: notifier_onAlarmTriggered_def sounds_def e Let_def)
    show ?thesis using IH True later(2) unfolding out2(2) e
      by (intro conjI; simp add: c kDebounceMs_def sounds_def; fastforce simp: max_def)
  next
    case False
    then have c: "sig = []" "an_lastNotifyMono n1 = an_lastNotifyMono n" "an_notifyCount n1 = an_notifyCount n"
      using n1 Cons.prems(3) by (auto simp: notifier_onAlarmTriggered_def sounds_def e Let_def split: if_splits)
    have d: "an_criticalReceived n1 = an_criticalReceived n + (if ev_level ev = Critical then 1 else 0)"
      "an_suppressedByStorm n1 = an_suppressedByStorm n + (if ev_level ev = Critical \<and> storm then 1 else 0)"
      using n1 Cons.prems(3) by (auto simp: notifier_onAlarmTriggered_def Let_def split: if_splits)
    have near: "sounds e \<Longrightarrow> now < an_lastNotifyMono n + 1000" using False by (simp add: kDebounceMs_def)
    show ?thesis using IH near unfolding out2(2) e by (auto simp: c d)
  qed
qed simp

lemma apart_sorted: "apart t0 ts \<Longrightarrow> (\<forall>t \<in> set ts. t0 + 1000 \<le> t) \<and> sorted_wrt (\<lambda>t u. t + 1000 \<le> u) ts"
  by (induction ts arbitrary: t0) force+

text \<open>Property C32: which alarms sound. Over any sequence of alarms that reaches a new notifier, with a clock that does not
  run backwards, the notifications are at least a second apart; each is a critical alarm outside a storm,
  at its time; each critical alarm outside a storm has a notification at most a second before it, its own
  included; and the counters are the numbers of critical alarms, of those held back in a storm and of
  the notifications. The bounds on the length and the clock keep them in their \<open>int\<close> and 64 bits.\<close>

theorem notifier_sounds:
  assumes "notify_run es (notifier_new True) = (out, n')" and "sorted (map (\<lambda>e. fst (snd e)) es)"
    and "\<forall>e \<in> set es. \<bar>fst (snd e)\<bar> < 2 ^ 61" and "int (length es) < 2 ^ 31"
  shows "sorted_wrt (\<lambda>t u. t + 1000 \<le> u) (map fst out) \<and>
    (\<forall>t ev. (t, ev) \<in> set out \<longrightarrow> ev_level ev = Critical \<and> (False, t, ev) \<in> set es) \<and>
    (\<forall>now ev. (False, now, ev) \<in> set es \<and> ev_level ev = Critical \<longrightarrow>
      (\<exists>t \<in> fst ` set out. t \<le> now \<and> now < t + 1000)) \<and>
    an_criticalReceived n' = length (filter (\<lambda>e. ev_level (snd (snd e)) = Critical) es) \<and>
    an_suppressedByStorm n' = length (filter (\<lambda>e. ev_level (snd (snd e)) = Critical \<and> fst e) es) \<and>
    an_notifyCount n' = length out"
proof -
  have new: "an_lastNotifyMono (notifier_new True) = - (2 ^ 62)" "an_alarm (notifier_new True)" "an_criticalReceived (notifier_new True) = 0"
    "an_suppressedByStorm (notifier_new True) = 0" "an_notifyCount (notifier_new True) = 0"
    by (simp_all add: notifier_new_def)
  have "sorted (map (fst \<circ> snd) es)" using assms(2) by (simp add: comp_def)
  note s = notify_spec [OF assms(1) this new(2), unfolded new]
  note parts = s [THEN conjunct1] s [THEN conjunct2, THEN conjunct1] s [THEN conjunct2, THEN conjunct2, THEN conjunct1]
    s [THEN conjunct2, THEN conjunct2, THEN conjunct2, THEN conjunct1]
    s [THEN conjunct2, THEN conjunct2, THEN conjunct2, THEN conjunct2, THEN conjunct2]
    s [THEN conjunct2, THEN conjunct2, THEN conjunct2, THEN conjunct2, THEN conjunct1]
  have early: "\<exists>t \<in> fst ` set out. t \<le> now \<and> now < t + 1000" if e: "(False, now, ev) \<in> set es" "ev_level ev = Critical" for now ev
  proof -
    have now: "- (2 ^ 61) < now" using bspec [OF assms(3) e(1)] by simp
    from bspec [OF parts(6) e(1)] e(2) obtain t where t: "t \<in> insert (- (2 ^ 62)) (fst ` set out)"
      "t \<le> max now (- (2 ^ 62))" "now < t + 1000"
      unfolding sounds_def prod.case fst_conv snd_conv by blast
    have "t \<noteq> - (2 ^ 62)" using now t(3) by simp
    moreover have "t \<le> now" using t(2) now by simp
    ultimately show ?thesis using t(1,3) by blast
  qed
  have "sorted_wrt (\<lambda>t u. t + 1000 \<le> u) (map fst out)" by (rule conjunct2 [OF apart_sorted [OF parts(1)]])
  moreover have "\<forall>t ev. (t, ev) \<in> set out \<longrightarrow> ev_level ev = Critical \<and> (False, t, ev) \<in> set es"
    using parts(5) by (simp add: sounds_def)
  moreover have "\<forall>now ev. (False, now, ev) \<in> set es \<and> ev_level ev = Critical \<longrightarrow>
      (\<exists>t \<in> fst ` set out. t \<le> now \<and> now < t + 1000)"
    using early by blast
  ultimately show ?thesis using parts(2-4) by simp
qed

definition demo_alarm :: "AlarmLevel \<Rightarrow> AlarmEvent" where
  "demo_alarm lv = event_default\<lparr>ev_level := lv\<rparr>"

definition demo_alarms :: "(bool \<times> int \<times> AlarmEvent) list" where
  "demo_alarms = [(False, 0, demo_alarm Critical), (False, 400, demo_alarm Critical), (False, 900, demo_alarm Warning),
     (False, 1500, demo_alarm Critical), (True, 3000, demo_alarm Critical)]"

theorem notifier_sounds_witness:
  "sorted_wrt (\<lambda>t u. t + 1000 \<le> u) [0, 1500 :: int] \<and>
   an_criticalReceived (snd (notify_run demo_alarms (notifier_new True))) = 4 \<and>
   an_suppressedByStorm (snd (notify_run demo_alarms (notifier_new True))) = 1 \<and>
   an_notifyCount (snd (notify_run demo_alarms (notifier_new True))) = 2"
proof -
  have out: "fst (notify_run demo_alarms (notifier_new True)) = [(0, demo_alarm Critical), (1500, demo_alarm Critical)]"
    by (simp add: demo_alarms_def notifier_new_def notifier_onAlarmTriggered_def demo_alarm_def kDebounceMs_def Let_def)
  have "notify_run demo_alarms (notifier_new True) =
      ([(0, demo_alarm Critical), (1500, demo_alarm Critical)], snd (notify_run demo_alarms (notifier_new True)))"
    using out by (simp add: prod_eq_iff)
  from notifier_sounds [OF this] show ?thesis by (simp add: demo_alarms_def demo_alarm_def)
qed


section \<open>Curves\<close>

text \<open>A point of a curve: its time in seconds and its value, both \<open>double\<close>.\<close>

type_synonym curve_point = "fl \<times> fl"

definition channel_kMaxPending :: nat where "channel_kMaxPending = 5000"

text \<open>\<open>append\<close> on the pending points of a channel.\<close>

definition channel_append :: "fl \<Rightarrow> fl \<Rightarrow> curve_point list \<Rightarrow> curve_point list" where
  "channel_append tsSec value pending =
     (let p = pending @ [(tsSec, value)] in if length p > channel_kMaxPending then drop (length p - channel_kMaxPending) p else p)"

text \<open>The bounds are kept as \<open>float\<close>, the values compared with them are \<open>double\<close>.\<close>

definition bucket_step :: "curve_point list \<Rightarrow> nat \<times> nat \<times> fl \<times> fl \<Rightarrow> nat \<Rightarrow> nat \<times> nat \<times> fl \<times> fl" where
  "bucket_step src a j =
     (case a of (minIdx, maxIdx, minY, maxY) \<Rightarrow>
        let y = snd (src ! j);
            (minIdx', minY') = (if fl_less y minY then (j, to_float y) else (minIdx, minY));
            (maxIdx', maxY') = (if fl_less maxY y then (j, to_float y) else (maxIdx, maxY))
        in (minIdx', maxIdx', minY', maxY'))"

definition bucket_bounds :: "curve_point list \<Rightarrow> nat \<Rightarrow> nat \<Rightarrow> nat \<times> nat \<times> fl \<times> fl" where
  "bucket_bounds src i end =
     foldl (bucket_step src) (i, i, to_float (snd (src ! i)), to_float (snd (src ! i))) [i + 1..<end]"

definition bucket_out :: "curve_point list \<Rightarrow> nat \<Rightarrow> nat \<Rightarrow> nat \<Rightarrow> curve_point list \<Rightarrow> curve_point list" where
  "bucket_out src target bucketSize i out =
     (case bucket_bounds src i (min (i + bucketSize) (length src)) of (minIdx, maxIdx, _, _) \<Rightarrow>
        let out1 = out @ [src ! minIdx]
        in if maxIdx \<noteq> minIdx \<and> length out1 < target then out1 @ [src ! maxIdx] else out1)"

lemma bucket_out_longer: "length out < length (bucket_out src target b i out)"
  by (auto simp: bucket_out_def Let_def split: prod.split)

function buckets :: "curve_point list \<Rightarrow> nat \<Rightarrow> nat \<Rightarrow> nat \<Rightarrow> curve_point list \<Rightarrow> curve_point list" where
  "buckets src target bucketSize i out =
     (if i < length src \<and> length out < target
      then buckets src target bucketSize (i + bucketSize) (bucket_out src target bucketSize i out)
      else out)"
  by pat_completeness auto
termination
  by (relation "measure (\<lambda>(src, target, b, i, out). target - length out)")
    (auto intro: diff_less_mono2 bucket_out_longer)

declare buckets.simps [simp del]

definition bucket_size :: "nat \<Rightarrow> nat \<Rightarrow> nat" where
  "bucket_size n target = max 1 (n div max 1 (target div 2))"

definition minMaxBucketDownSample :: "curve_point list \<Rightarrow> int \<Rightarrow> curve_point list" where
  "minMaxBucketDownSample src target =
     (if target < 2 \<or> int (length src) \<le> target then src
      else let t = nat target; out = buckets src t (bucket_size (length src) t) 0 []
           in if length out < t \<and> fl_ne (fst (last out)) (fst (last src)) then out @ [last src] else out)"

text \<open>What \<open>onBatchRepaint\<close> takes from a channel for its graph.\<close>

definition repaint_target :: "int \<Rightarrow> nat \<Rightarrow> int" where
  "repaint_target width channels = min 2000 (max 64 (width div int (max 1 channels)))"

definition repaint_batch :: "int \<Rightarrow> curve_point list \<Rightarrow> curve_point list \<times> curve_point list" where
  "repaint_batch target pending =
     (if int (length pending) > target then minMaxBucketDownSample pending target else pending, [])"

lemma channel_append_drop:
  "channel_append x v (drop (length ps - channel_kMaxPending) ps) = drop (Suc (length ps) - channel_kMaxPending) (ps @ [(x, v)])"
proof (cases "length ps < channel_kMaxPending")
  case False
  then have "Suc (length ps - channel_kMaxPending) = Suc (length ps) - channel_kMaxPending" by (simp add: Suc_diff_le)
  with False show ?thesis by (simp add: channel_append_def)
qed (simp add: channel_append_def)

lemma channel_keeps_newest:
  "foldl (\<lambda>q p. channel_append (fst p) (snd p) q) [] xs = drop (length xs - channel_kMaxPending) xs"
  by (induction xs rule: rev_induct) (simp_all add: channel_append_drop del: drop_append)

text \<open>Within a bucket the indices stay in it, and its points lie between the bounds if the values are
  \<open>float\<close>s, as the samples of the program are.\<close>

definition float_curve :: "curve_point list \<Rightarrow> bool" where
  "float_curve src \<longleftrightarrow> (\<forall>p \<in> set src. to_float (snd p) = snd p)"

definition bounds_ok :: "curve_point list \<Rightarrow> nat \<Rightarrow> nat \<Rightarrow> nat \<times> nat \<times> fl \<times> fl \<Rightarrow> bool" where
  "bounds_ok src i j a \<longleftrightarrow>
     (case a of (mn, mx, lo, hi) \<Rightarrow> i \<le> mn \<and> mn < j \<and> i \<le> mx \<and> mx < j \<and> lo = snd (src ! mn) \<and> hi = snd (src ! mx) \<and>
        (\<forall>k. i \<le> k \<and> k < j \<longrightarrow> \<not> fl_less (snd (src ! k)) lo \<and> \<not> fl_less hi (snd (src ! k))))"

lemma fl_not_less_chain: "\<not> fl_less y lo \<Longrightarrow> fl_less z lo \<Longrightarrow> \<not> fl_less y z"
  using fl_less_trans by blast

lemma fl_not_greater_chain: "\<not> fl_less hi y \<Longrightarrow> fl_less hi z \<Longrightarrow> \<not> fl_less z y"
  using fl_less_trans by blast

lemma bucket_step_ok:
  assumes "bounds_ok src i j a" and flt: "to_float (snd (src ! j)) = snd (src ! j)"
  shows "bounds_ok src i (Suc j) (bucket_step src a j)"
proof -
  obtain mn mx lo hi where a: "a = (mn, mx, lo, hi)" by (rule prod_cases4)
  let ?y = "snd (src ! j)"
  have b: "i \<le> mn" "mn < j" "i \<le> mx" "mx < j" "lo = snd (src ! mn)" "hi = snd (src ! mx)"
    and lo: "i \<le> k \<Longrightarrow> k < j \<Longrightarrow> \<not> fl_less (snd (src ! k)) lo"
    and hi: "i \<le> k \<Longrightarrow> k < j \<Longrightarrow> \<not> fl_less hi (snd (src ! k))" for k
    using assms(1) by (auto simp: a bounds_ok_def)
  have lo': "\<not> fl_less (snd (src ! k)) (if fl_less ?y lo then ?y else lo)" if "i \<le> k" "k < Suc j" for k
    using lo [OF that(1)] that(2) fl_less_trans [of "snd (src ! k)" ?y lo] by (cases "k = j") auto
  have hi': "\<not> fl_less (if fl_less hi ?y then ?y else hi) (snd (src ! k))" if "i \<le> k" "k < Suc j" for k
    using hi [OF that(1)] that(2) fl_less_trans [of hi ?y "snd (src ! k)"] by (cases "k = j") auto
  show ?thesis
    using b lo' hi' by (cases "fl_less ?y lo"; cases "fl_less hi ?y") (simp_all add: a bounds_ok_def bucket_step_def flt)
qed

lemma bucket_bounds_ok:
  assumes "float_curve src" and "i < e" and "e \<le> length src"
  shows "bounds_ok src i e (bucket_bounds src i e)"
proof -
  have "\<forall>j. i < j \<and> j \<le> length src \<longrightarrow> bounds_ok src i j (foldl (bucket_step src)
      (i, i, to_float (snd (src ! i)), to_float (snd (src ! i))) [i + 1..<j])"
  proof (intro allI)
    fix j
    show "i < j \<and> j \<le> length src \<longrightarrow> bounds_ok src i j (foldl (bucket_step src)
        (i, i, to_float (snd (src ! i)), to_float (snd (src ! i))) [i + 1..<j])"
    proof (induction j)
      case (Suc j)
      have flt: "k < length src \<Longrightarrow> to_float (snd (src ! k)) = snd (src ! k)" for k
        using assms(1) by (simp add: float_curve_def)
      show ?case
      proof (cases "i < j")
        case True
        with Suc bucket_step_ok [OF _ flt [of j]] show ?thesis by simp
      next
        case False
        then show ?thesis using flt [of i] by (auto simp: bounds_ok_def less_Suc_eq)
      qed
    qed simp
  qed
  with assms(2,3) show ?thesis by (simp add: bucket_bounds_def)
qed


lemma bucket_step_index:
  "i \<le> fst a \<and> fst a < j \<and> i \<le> fst (snd a) \<and> fst (snd a) < j \<Longrightarrow>
   i \<le> fst (bucket_step src a j) \<and> fst (bucket_step src a j) < Suc j \<and>
   i \<le> fst (snd (bucket_step src a j)) \<and> fst (snd (bucket_step src a j)) < Suc j"
  by (auto simp: bucket_step_def Let_def split: prod.split)

lemma bucket_bounds_index:
  "i < e \<Longrightarrow> case bucket_bounds src i e of (mn, mx, lo, hi) \<Rightarrow> mn < e \<and> mx < e"
proof (induction e)
  case (Suc e)
  show ?case
  proof (cases "i < e")
    case True
    then have "\<And>j. i < j \<Longrightarrow> i \<le> fst (bucket_bounds src i j) \<and> fst (bucket_bounds src i j) < j \<and>
      i \<le> fst (snd (bucket_bounds src i j)) \<and> fst (snd (bucket_bounds src i j)) < j"
    proof -
      fix j
      show "i < j \<Longrightarrow> i \<le> fst (bucket_bounds src i j) \<and> fst (bucket_bounds src i j) < j \<and>
      i \<le> fst (snd (bucket_bounds src i j)) \<and> fst (snd (bucket_bounds src i j)) < j"
      proof (induction j)
        case (Suc j)
        then show ?case
        proof (cases "i < j")
          case True
          with Suc bucket_step_index [of i "bucket_bounds src i j" j src] show ?thesis by (simp add: bucket_bounds_def)
        qed (use Suc.prems in \<open>simp add: bucket_bounds_def less_Suc_eq\<close>)
      qed simp
    qed
    from this [OF Suc.prems] show ?thesis by (simp add: case_prod_beta)
  qed (use Suc.prems in \<open>simp add: bucket_bounds_def less_Suc_eq\<close>)
qed simp

lemma bucket_out_parts:
  assumes "i < length src" and "length out < target" and "0 < b"
  shows "set out \<subseteq> set (bucket_out src target b i out)" and "length (bucket_out src target b i out) \<le> target"
    and "set (bucket_out src target b i out) \<subseteq> set out \<union> set src" and "length (bucket_out src target b i out) \<le> length out + 2"
proof -
  have "i < min (i + b) (length src)" using assms by simp
  from bucket_bounds_index [OF this, of src] assms(2)
  show "set out \<subseteq> set (bucket_out src target b i out)" and "length (bucket_out src target b i out) \<le> target"
    and "set (bucket_out src target b i out) \<subseteq> set out \<union> set src" and "length (bucket_out src target b i out) \<le> length out + 2"
    by (auto simp: bucket_out_def Let_def split: prod.splits)
qed

lemma buckets_parts:
  assumes "0 < b" and "length out \<le> target"
  shows "set out \<subseteq> set (buckets src target b i out) \<and> length (buckets src target b i out) \<le> target \<and>
    set (buckets src target b i out) \<subseteq> set out \<union> set src"
  using assms
proof (induction src target b i out rule: buckets.induct)
  case (1 src target b i out)
  show ?case
  proof (cases "i < length src \<and> length out < target")
    case True
    note p = bucket_out_parts [OF conjunct1 [OF True] conjunct2 [OF True] 1(2)]
    from 1(1) [OF True 1(2) p(2)] p True show ?thesis by (subst (1 2 3) buckets.simps) auto
  next
    case False
    have "buckets src target b i out = out" unfolding buckets.simps [of src target b i out] if_not_P [OF False] by (rule refl)
    with 1(3) show ?thesis by simp
  qed
qed

text \<open>A point is represented if the output has a value that is not above and one that is not below it.\<close>

definition represented :: "curve_point list \<Rightarrow> curve_point \<Rightarrow> bool" where
  "represented out p \<longleftrightarrow> (\<exists>q \<in> set out. \<not> fl_less (snd p) (snd q)) \<and> (\<exists>q \<in> set out. \<not> fl_less (snd q) (snd p))"

lemma represented_mono: "represented out p \<Longrightarrow> set out \<subseteq> set out' \<Longrightarrow> represented out' p"
  by (auto simp: represented_def)

lemma bucket_out_represents:
  assumes "float_curve src" and "i < length src" and "0 < b" and "Suc (length out) < target" and "i \<le> k" "k < i + b" "k < length src"
  shows "represented (bucket_out src target b i out) (src ! k)"
proof -
  let ?e = "min (i + b) (length src)"
  have "i < ?e" "?e \<le> length src" using assms by simp_all
  from bucket_bounds_ok [OF assms(1) this] obtain mn mx lo hi where
    b: "bucket_bounds src i ?e = (mn, mx, lo, hi)" "bounds_ok src i ?e (mn, mx, lo, hi)" by (cases "bucket_bounds src i ?e") auto
  have "\<not> fl_less (snd (src ! k)) (snd (src ! mn))" "\<not> fl_less (snd (src ! mx)) (snd (src ! k))"
    using b(2) assms(5,6,7) by (auto simp: bounds_ok_def)
  moreover have "src ! mn \<in> set (bucket_out src target b i out)" "src ! mx \<in> set (bucket_out src target b i out)"
    using b(1) assms(4) by (auto simp: bucket_out_def Let_def)
  ultimately show ?thesis by (auto simp: represented_def)
qed

lemma buckets_represent:
  assumes "float_curve src" and "0 < b" and "length out \<le> 2 * m" and "length out \<le> target"
    and "\<forall>k < i. k < length src \<longrightarrow> represented out (src ! k)" and "k < i + (target div 2 - m) * b" and "k < length src"
  shows "represented (buckets src target b i out) (src ! k)"
  using assms
proof (induction src target b i out arbitrary: m rule: buckets.induct)
  case (1 src target b i out)
  note sub = conjunct1 [OF buckets_parts [OF 1(3) 1(5), of src i]]
  show ?case
  proof (cases "i < length src \<and> length out < target \<and> m < target div 2")
    case True
    then have t: "i < length src \<and> length out < target" and room: "Suc (length out) < target" using 1(4) by auto
    note p = bucket_out_parts [OF conjunct1 [OF t] conjunct2 [OF t] 1(3)]
    have new: "\<forall>k < i + b. k < length src \<longrightarrow> represented (bucket_out src target b i out) (src ! k)"
    proof (intro allI impI)
      fix k assume k: "k < i + b" "k < length src"
      show "represented (bucket_out src target b i out) (src ! k)"
      proof (cases "k < i")
        case True
        with 1(6) k show ?thesis by (blast intro: represented_mono [OF _ p(1)])
      qed (use bucket_out_represents [OF 1(2) conjunct1 [OF t] 1(3) room _ k] in simp)
    qed
    have "target div 2 - m = Suc (target div 2 - Suc m)" using True by (simp only: Suc_diff_Suc)
    then have far: "k < i + b + (target div 2 - Suc m) * b" using 1(7) by simp
    have "length (bucket_out src target b i out) \<le> 2 * Suc m" using p(4) 1(4) by simp
    from 1(1) [OF t 1(2,3) this p(2) new far 1(8)] show ?thesis using t by (subst buckets.simps) simp
  next
    case False
    then have "k < i \<or> length src \<le> i" using 1(4,7) by auto
    with 1(8) have "k < i" by (auto intro: less_le_trans)
    with 1(6,8) have "represented out (src ! k)" by simp
    then show ?thesis by (rule represented_mono [OF _ sub])
  qed
qed

text \<open>The curve that is drawn fits its budget, consists of points of the curve, and represents all but the
  remainder of the points modulo half of the budget, which are the newest.\<close>

lemma downsample_represents:
  assumes "float_curve src" and "2 \<le> target" and "target < int (length src)"
  shows "int (length (minMaxBucketDownSample src target)) \<le> target \<and> set (minMaxBucketDownSample src target) \<subseteq> set src \<and>
    (\<forall>k < length src - length src mod (nat target div 2). represented (minMaxBucketDownSample src target) (src ! k))"
proof -
  let ?t = "nat target" and ?n = "length src"
  let ?h = "?t div 2" let ?b = "bucket_size ?n ?t" let ?out = "buckets src ?t ?b 0 []"
  have h: "0 < ?h" "?h \<le> ?n" using assms(2,3) by linarith+
  then have "0 < ?n div ?h" by (simp only: div_greater_zero_iff)
  with h(1) have b: "?b = ?n div ?h" "0 < ?b" by (simp_all only: bucket_size_def max_def) auto
  have out: "length ?out \<le> ?t" "set ?out \<subseteq> set src" using buckets_parts [OF b(2), of "[]" ?t src 0] by simp_all
  have "?n - ?n mod ?h = ?h * ?b" by (simp add: b(1) minus_mod_eq_mult_div)
  then have rep: "represented ?out (src ! k)" if "k < ?n - ?n mod ?h" for k
    using buckets_represent [OF assms(1) b(2), of "[]" 0 ?t 0 k] that by (simp add: mult.commute)
  have src: "src \<noteq> []" using assms(2,3) by auto
  define r where "r = minMaxBucketDownSample src target"
  have r: "r = ?out \<or> (length ?out < ?t \<and> r = ?out @ [last src])"
    using assms(2,3) by (simp add: r_def minMaxBucketDownSample_def Let_def)
  have "set ?out \<subseteq> set r" using r by auto
  then have "\<forall>k < ?n - ?n mod ?h. represented r (src ! k)" using rep represented_mono by blast
  moreover have "int (length r) \<le> target" using r out(1) assms(2) by auto
  moreover have "set r \<subseteq> set src" using r out(2) src by auto
  ultimately show ?thesis by (simp add: r_def)
qed


text \<open>Two effects of the code. The newest point is lost when the buckets fill the budget before the end: of
  seven points four remain and the peak at the end is not among them. And the lower value of a bucket is put
  out before the higher one whatever their times, so a falling curve comes out with its times out of order,
  while the graph is told that they are sorted.\<close>

definition demo_peak :: "curve_point list" where
  "demo_peak = [(Fin 0, Fin 0), (Fin 1, Fin 1), (Fin 2, Fin 0), (Fin 3, Fin 0), (Fin 4, Fin 1), (Fin 5, Fin 0), (Fin 6, Fin 9)]"

definition demo_falling :: "curve_point list" where
  "demo_falling = [(Fin 0, Fin 2), (Fin 1, Fin 1), (Fin 2, Fin 0)]"

lemma small_floats: "round32 0 = Fin 0" "round32 1 = Fin 1" "round32 2 = Fin 2" "round32 9 = Fin 9"
  using round32_int [of 0] round32_int [of 1] round32_int [of 2] round32_int [of 9] by simp_all

lemma upt_1_3: "[Suc 0..<3] = [Suc 0, 2]"
  by (simp add: upt_conv_Cons numeral_3_eq_3 numeral_2_eq_2)

lemma demo_peak_bounds: "bucket_bounds demo_peak 0 3 = (0, 1, Fin 0, Fin 1)" "bucket_bounds demo_peak 3 6 = (3, 4, Fin 0, Fin 1)"
proof -
  have u: "[3 + 1..<6] = [4, 5 :: nat]" "[0 + 1..<3] = [Suc 0, 2]" using upt_1_3 by (simp_all add: upt_rec)
  show "bucket_bounds demo_peak 0 3 = (0, 1, Fin 0, Fin 1)"
    unfolding bucket_bounds_def u by (simp add: bucket_step_def demo_peak_def small_floats)
  show "bucket_bounds demo_peak 3 6 = (3, 4, Fin 0, Fin 1)"
    unfolding bucket_bounds_def u by (simp add: bucket_step_def demo_peak_def small_floats)
qed

lemma downsample_loses_peak:
  "minMaxBucketDownSample demo_peak 4 = [(Fin 0, Fin 0), (Fin 1, Fin 1), (Fin 3, Fin 0), (Fin 4, Fin 1)]"
proof -
  have len: "length demo_peak = 7" by (simp add: demo_peak_def)
  have "bucket_out demo_peak 4 3 0 [] = [(Fin 0, Fin 0), (Fin 1, Fin 1)]"
    and "bucket_out demo_peak 4 3 3 [(Fin 0, Fin 0), (Fin 1, Fin 1)] = [(Fin 0, Fin 0), (Fin 1, Fin 1), (Fin 3, Fin 0), (Fin 4, Fin 1)]"
    unfolding bucket_out_def len by (simp_all add: demo_peak_bounds) (simp_all add: demo_peak_def)
  then have "buckets demo_peak 4 3 0 [] = [(Fin 0, Fin 0), (Fin 1, Fin 1), (Fin 3, Fin 0), (Fin 4, Fin 1)]"
    by (subst buckets.simps, subst buckets.simps, subst buckets.simps) (simp add: len)
  moreover have "bucket_size 7 4 = 3" by code_simp
  ultimately show ?thesis by (simp add: minMaxBucketDownSample_def len)
qed

lemma downsample_out_of_order:
  "minMaxBucketDownSample demo_falling 2 = [(Fin 2, Fin 0), (Fin 0, Fin 2)]"
proof -
  have u: "[0 + 1..<3] = [Suc 0, 2]" using upt_1_3 by simp
  have len: "length demo_falling = 3" by (simp add: demo_falling_def)
  have "bucket_bounds demo_falling 0 3 = (2, 0, Fin 0, Fin 2)"
    unfolding bucket_bounds_def u by (simp add: bucket_step_def demo_falling_def small_floats)
  then have "bucket_out demo_falling 2 3 0 [] = [(Fin 2, Fin 0), (Fin 0, Fin 2)]"
    unfolding bucket_out_def len by (simp add: demo_falling_def)
  then have "buckets demo_falling 2 3 0 [] = [(Fin 2, Fin 0), (Fin 0, Fin 2)]"
    by (subst buckets.simps, subst buckets.simps) (simp add: len)
  moreover have "bucket_size 3 2 = 3" by (simp add: bucket_size_def)
  ultimately show ?thesis by (simp add: minMaxBucketDownSample_def len)
qed


section \<open>The overview\<close>

text \<open>Points belong to a rack by their names, \<^verbatim>\<open>Rack-<number>_<measure>\<close>. Digits are those of ASCII,
  and numbers of racks fit an \<open>int\<close>.\<close>

datatype OvrKind = OvrNone | OvrSoc | OvrClusterMaxTemp

definition digit :: "char \<Rightarrow> bool" where
  "digit c \<longleftrightarrow> 48 \<le> (of_char c :: int) \<and> (of_char c :: int) \<le> 57"

definition rack_number :: "string \<Rightarrow> int" where
  "rack_number ds = foldl (\<lambda>n c. n * 10 + (of_char c - 48)) 0 ds"

fun str_contains :: "string \<Rightarrow> string \<Rightarrow> bool" where
  "str_contains pat [] \<longleftrightarrow> pat = []"
| "str_contains pat (c # cs) \<longleftrightarrow> take (length pat) (c # cs) = pat \<or> str_contains pat cs"

text \<open>The number of the rack and the measure, if the name has this form.\<close>

definition rack_name :: "string \<Rightarrow> (int \<times> string) option" where
  "rack_name name =
     (if take 5 name \<noteq> ''Rack-'' then None
      else let ds = takeWhile digit (drop 5 name); rest = dropWhile digit (drop 5 name)
           in if ds = [] \<or> rest = [] \<or> hd rest \<noteq> CHR ''_'' then None
              else Some (rack_number ds, tl rest))"

definition ovrClassifyName :: "string \<Rightarrow> OvrKind \<times> int" where
  "ovrClassifyName name =
     (case rack_name name of None \<Rightarrow> (OvrNone, -1)
      | Some (rackNo, quantity) \<Rightarrow>
          (if quantity = ''SOC'' then OvrSoc
           else if str_contains ''MaxTemp'' quantity then OvrClusterMaxTemp else OvrNone, rackNo))"

definition rackNoFromName :: "string \<Rightarrow> int" where
  "rackNoFromName name = (case rack_name name of None \<Rightarrow> -1 | Some (rackNo, _) \<Rightarrow> rackNo)"

record OverviewDrillPoint =
  od_name :: string
  od_unit :: string
  od_rackNo :: int
  od_slave :: u8
  od_registerAddr :: u16

record OverviewIndex =
  ov_socIds :: "u32 list"
  ov_rackOrder :: "int list"
  ov_socByRack :: "(int \<times> u32) list"
  ov_maxTempByRack :: "(int \<times> u32) list"
  ov_pointsByRack :: "(int \<times> u32 list) list"
  ov_pointInfo :: "(u32 \<times> OverviewDrillPoint) list"

definition overview_empty :: OverviewIndex where
  "overview_empty = \<lparr>ov_socIds = [], ov_rackOrder = [], ov_socByRack = [], ov_maxTempByRack = [],
     ov_pointsByRack = [], ov_pointInfo = []\<rparr>"

definition ids_of :: "int \<Rightarrow> OverviewIndex \<Rightarrow> u32 list" where
  "ids_of rack ov = (case map_of (ov_pointsByRack ov) rack of None \<Rightarrow> [] | Some ids \<Rightarrow> ids)"

definition index_point :: "PointRuntime \<Rightarrow> OverviewIndex \<Rightarrow> OverviewIndex" where
  "index_point p ov =
     (if \<not> pr_enabled p then ov
      else let name = pr_pointName p; rackNo = rackNoFromName name; (kind, no) = ovrClassifyName name;
               dp = \<lparr>od_name = name, od_unit = pr_unit p, od_rackNo = rackNo, od_slave = pr_slaveAddress p,
                     od_registerAddr = pr_registerAddr p\<rparr>;
               ov1 = (if rackNo > 0
                      then ov\<lparr>ov_pointInfo := AList.update (pr_pointId p) dp (ov_pointInfo ov),
                              ov_pointsByRack := AList.update rackNo (ids_of rackNo ov @ [pr_pointId p]) (ov_pointsByRack ov)\<rparr>
                      else ov)
           in case kind of
                OvrSoc \<Rightarrow> ov1\<lparr>ov_socIds := ov_socIds ov1 @ [pr_pointId p],
                    ov_socByRack := (if no > 0 then AList.update no (pr_pointId p) (ov_socByRack ov1) else ov_socByRack ov1)\<rparr>
              | OvrClusterMaxTemp \<Rightarrow>
                  (if no > 0 \<and> map_of (ov_maxTempByRack ov1) no = None
                   then ov1\<lparr>ov_maxTempByRack := AList.update no (pr_pointId p) (ov_maxTempByRack ov1)\<rparr> else ov1)
              | OvrNone \<Rightarrow> ov1)"

definition overview_order :: "OverviewIndex \<Rightarrow> u32 \<Rightarrow> u16 \<times> u32" where
  "overview_order ov pid = (case map_of (ov_pointInfo ov) pid of None \<Rightarrow> 0 | Some dp \<Rightarrow> od_registerAddr dp, pid)"

definition buildPointIndex :: "PointTable \<Rightarrow> OverviewIndex" where
  "buildPointIndex pt =
     (let ov = fold index_point (allPoints pt) overview_empty
      in ov\<lparr>ov_rackOrder := sort (map fst (ov_pointsByRack ov)),
            ov_pointsByRack := map (\<lambda>(rack, ids). (rack, sort_key (overview_order ov) ids)) (ov_pointsByRack ov)\<rparr>)"

text \<open>The state of charge of the station is the mean of the racks whose value is known, each held to the
  range of percentages by \<open>qBound\<close>; without one the old mean stays. The sum is in \<open>double\<close>.\<close>

definition qBound :: "fl \<Rightarrow> fl \<Rightarrow> fl \<Rightarrow> fl" where
  "qBound lo v hi = (let m = (if fl_less hi v then hi else v) in if fl_less lo m then m else lo)"

definition station_soc :: "(u32 \<Rightarrow> fl option) \<Rightarrow> u32 list \<Rightarrow> fl \<Rightarrow> fl" where
  "station_soc cached socIds lastSoc =
     (let (n, sum) = foldl (\<lambda>(n, sum) pid.
             case cached pid of None \<Rightarrow> (n, sum)
             | Some v \<Rightarrow> (n + 1, fl_add round64 sum (qBound (Fin 0) v (Fin 100)))) (0 :: nat, Fin 0) socIds
      in if n > 0 then fl_div round64 sum (Fin (of_nat n)) else lastSoc)"


text \<open>The points of a rack.\<close>

definition in_rack :: "int \<Rightarrow> PointRuntime \<Rightarrow> bool" where
  "in_rack rack p \<longleftrightarrow> pr_enabled p \<and> 0 < rack \<and> rackNoFromName (pr_pointName p) = rack"

lemma index_point_fields:
  "ids_of rack (index_point p ov) = ids_of rack ov @ (if in_rack rack p then [pr_pointId p] else [])"
  "set (map fst (ov_pointsByRack (index_point p ov))) = set (map fst (ov_pointsByRack ov)) \<union> {r. in_rack r p}"
  "distinct (map fst (ov_pointsByRack ov)) \<Longrightarrow> distinct (map fst (ov_pointsByRack (index_point p ov)))"
  "ov_socIds (index_point p ov) = ov_socIds ov @
     (if pr_enabled p \<and> fst (ovrClassifyName (pr_pointName p)) = OvrSoc then [pr_pointId p] else [])"
  by (auto simp: index_point_def in_rack_def ids_of_def Let_def update_conv' dom_update distinct_update
      split: prod.split OvrKind.split)

lemma index_points:
  "ids_of rack (fold index_point ps overview_empty) = map pr_pointId (filter (in_rack rack) ps) \<and>
   set (map fst (ov_pointsByRack (fold index_point ps overview_empty))) = {r. \<exists>p \<in> set ps. in_rack r p} \<and>
   distinct (map fst (ov_pointsByRack (fold index_point ps overview_empty))) \<and>
   ov_socIds (fold index_point ps overview_empty) =
     map pr_pointId (filter (\<lambda>p. pr_enabled p \<and> fst (ovrClassifyName (pr_pointName p)) = OvrSoc) ps)"
  by (induction ps rule: rev_induct)
    (auto simp: index_point_fields simp del: set_map, simp_all add: overview_empty_def ids_of_def)

text \<open>Racks are listed once and ascending, each with its enabled points by address.\<close>

lemma overview_index_exact:
  shows "sorted (ov_rackOrder (buildPointIndex pt)) \<and> distinct (ov_rackOrder (buildPointIndex pt)) \<and>
    set (ov_rackOrder (buildPointIndex pt)) = {r. \<exists>p \<in> set (allPoints pt). in_rack r p} \<and>
    mset (ids_of rack (buildPointIndex pt)) = mset (map pr_pointId (filter (in_rack rack) (allPoints pt))) \<and>
    sorted (map (overview_order (buildPointIndex pt)) (ids_of rack (buildPointIndex pt))) \<and>
    ov_socIds (buildPointIndex pt) =
      map pr_pointId (filter (\<lambda>p. pr_enabled p \<and> fst (ovrClassifyName (pr_pointName p)) = OvrSoc) (allPoints pt))"
proof -
  define ov where "ov = fold index_point (allPoints pt) overview_empty"
  note i = index_points [of rack "allPoints pt", folded ov_def]
  have f: "ov_rackOrder (buildPointIndex pt) = sort (map fst (ov_pointsByRack ov))"
    "ov_socIds (buildPointIndex pt) = ov_socIds ov" "ov_pointInfo (buildPointIndex pt) = ov_pointInfo ov"
    by (simp_all add: buildPointIndex_def ov_def Let_def)
  have ids: "ids_of rack (buildPointIndex pt) = sort_key (overview_order ov) (ids_of rack ov)"
    by (simp add: buildPointIndex_def ov_def [symmetric] Let_def ids_of_def map_of_map split: option.split)
  have ord: "overview_order (buildPointIndex pt) = overview_order ov" by (simp add: overview_order_def [abs_def] f)
  show ?thesis using i by (simp add: f ids ord del: set_map)
qed

end
