(* ===== verification/Spec2Isabelle.thy ===== *)
theory Spec2Isabelle
  imports EndToEnd PollScheduler SboMachine BizState AlarmEngine BlackBox DataBus PollEndToEnd AuthManager EnsApp SimEndToEnd SimEngine Channel Presentation
begin

text \<open>
  EnerSentry is a monitoring and control program for battery energy storage stations, with a device
  simulator for its tests. The program, \<^verbatim>\<open>src/apps/ens_app\<close>, polls devices over Modbus TCP or RTU,
  decodes registers into engineering values, keeps them in ring buffers, evaluates alarm rules,
  files alarms and down-sampled history in monthly SQLite databases and writes control commands in
  two steps (select before operate). The simulator, \<^verbatim>\<open>src/apps/device_simulator\<close>, answers the same
  protocol from a bank of registers which a generator keeps moving, with injected faults and scripts of
  drills. This library models the logic of both in HOL and proves what each part promises. The paths
  below are under \<^verbatim>\<open>src/apps/ens_app/src\<close> or, for the simulator, \<^verbatim>\<open>src/apps/device_simulator/src\<close>.

  \<^bold>\<open>Conventions.\<close> A class is a record of its members (the prefix of the fields names the class), a
  method is a function from the old state to results and new state, and a signal of Qt is a value in
  the list of outputs of the method that emits it. Machine integers are words; \<open>int\<close> stands for signed
  64 bit times, which do not come near their bounds. Clocks, random salts, the calendar, parsers of JSON
  text, results of file and database calls and of sockets are arguments. A call that throws returns
  \<open>None\<close> or \<open>Inl\<close>. A critical section of a mutex is one step. Floating point numbers are \<open>fl\<close>
  (theory \<open>Floats\<close>): rationals with infinities and NaN, rounded by \<open>round32\<close> and \<open>round64\<close>; the fault
  injector, whose values are only compared and ramped, uses exact rationals. The order in which a
  hash map is iterated is an argument where a result depends on it (\<open>rank\<close> of the point table, the list of
  slaves of the simulator), as is the order the database and the unstable sort of the code
  give to alarms of one time (\<open>tie\<close>, \<open>ord\<close>). An \<open>int\<close> product that can leave its 32 bits is written with \<open>int32\<close>.

  \<^bold>\<open>Shared theories.\<close> \<open>Ens_Prelude\<close> (words, bytes, the collections \<open>codec\<close> and \<open>inv_intros\<close>),
  \<open>Floats\<close>, \<open>Json\<close> (documents and the conversions of nlohmann and Qt).

  \<^bold>\<open>Channels and protocol\<close> (\<^verbatim>\<open>channel/\<close>, \<^verbatim>\<open>protocol/\<close>).
  \<^item> \<open>Channel\<close>: \<open>TcpChannel\<close> and \<open>SerialChannel\<close>; the socket reports through the slots. An open channel
    is connected, has an attempt under way or a timer running, and the wait doubles up to its limit.
  \<^item> \<open>Crc16\<close>: the table, the byte-wise and the bit-wise checksum and the one of the simulator agree.
  \<^item> \<open>TxIds\<close>: \<^verbatim>\<open>TransactionIdAllocator.h\<close>, the bitmap of ids in flight (locale \<open>id_pool\<close>, interpreted on
    the allocator; the engine's lemmas rest on it).
  \<^item> \<open>ModbusFrame\<close>: requests are built as the standard says; a damaged response of RTU is refused.
  \<^item> \<open>Accumulator\<close>: the stream buffer and the search for frame boundaries.
  \<^item> \<open>ModbusEngine\<close>: requests in flight, pairing, the receive loop. However a stream of valid
    frames is cut into reads, every frame is handed on once and in order; the table of requests and the
    bitmap of ids stay in step.
  \<^item> \<open>PollScheduler\<close>: queues of polling tasks. No task is lost, control bursts are bounded, a
    low task is served in bounded time, the health of a slave and its interval stay consistent.
  \<^item> \<open>PointTable\<close>: loading, indexes, byte orders and engineering values; a loaded table has exactly
    the points of the document.
  \<^item> \<open>PollDriver\<close>, \<open>PollEndToEnd\<close>, \<open>EndToEnd\<close>: the polling loop of \<^verbatim>\<open>app/EnerSentryApp.cpp\<close>,
    and exchanges of the engine with the simulator over the bytes of the wire.

  \<^bold>\<open>Business logic\<close> (\<^verbatim>\<open>business/\<close>).
  \<^item> \<open>SboGuard\<close>, \<open>SboMachine\<close>: the lock table (locale \<open>device_lock\<close>, interpreted on the guard's
    operations) and the machine of select before operate, with the system of several machines that share a
    guard: commands only from an armed machine, mutual exclusion, no deadlock.
  \<^item> \<open>BizState\<close>: states of stations, devices and points, and what they keep of each other.
  \<^item> \<open>AlarmEngine\<close>, \<open>AlarmRules\<close>, \<open>AlarmStore\<close>: rules with hysteresis and delays, suppression and
    storms, the loader of rules, the records in the database; every alarm is accounted for, and a query of
    the alarm table returns what the engine signalled, the order among alarms of one time left open.
  \<^item> \<open>AuthManager\<close>: users, sessions, lock-out, audit log and the user file. A permission needs a login,
    guesses of a password are bounded, the file that is saved loads as the same users.

  \<^bold>\<open>Data\<close> (\<^verbatim>\<open>datahub/\<close>).
  \<^item> \<open>RingBuffer\<close>, \<open>L1Store\<close>: the ring refines the history of written samples; the store routes by the
    policy (locale \<open>ring_store\<close>, interpreted on \<open>lookup\<close> and \<open>put_ring\<close>).
  \<^item> \<open>BlackBox\<close>: the swap file with recovery, and the manager. \<open>DataBus\<close>: subscriptions, refined by
    a list of subscribers.
  \<^item> \<open>DownSampler\<close>, \<open>L2History\<close>, \<open>SqlStore\<close>, \<open>HistoryQueries\<close>: aggregation, write buffer,
    the month databases with their SQL statements written out on tables of rows, and the queries over
    months, which return the accepted samples of the range.

  \<^bold>\<open>Application\<close>. \<open>EnsApp\<close> composes the parts as \<^verbatim>\<open>app/EnerSentryApp.cpp\<close> does: ticks, flushes,
  control commands, start and stop. \<open>Presentation\<close> holds what the user interface
  computes (\<^verbatim>\<open>ui/\<close>): exported tables read back as their rows, critical alarms sound at most once a second
  and are never silent longer outside a storm, a reduced curve keeps the extremes of all but
  a remainder of its newest points, the overview lists each rack
  once with its points.

  \<^bold>\<open>Simulator\<close>.
  \<^item> \<open>SimRegs\<close> (\<^verbatim>\<open>sim/register_bank\<close>), \<open>SimDispatch\<close> (\<^verbatim>\<open>sim/modbus_dispatch\<close>, \<^verbatim>\<open>modbus_slave\<close> and the request
    handler of \<^verbatim>\<open>modbus_slave_emulator\<close>), \<open>SimServer\<close> (\<^verbatim>\<open>core/mbap\<close>, the client loop of
    \<^verbatim>\<open>sim/modbus_tcp_server\<close>, \<^verbatim>\<open>sim/rtu_slave_port\<close>): a request that is refused changes
    no register, and what FC10 writes is read back by FC03 while every other register stays as it was.
  \<^item> \<open>FaultInjector\<close> (\<^verbatim>\<open>sim/FaultInjector\<close>): sessions of faults and the table of overrides: what
    is in force is what the sessions cover, with their current values.
  \<^item> \<open>SimPoints\<close> (\<^verbatim>\<open>core/point_table\<close>, \<^verbatim>\<open>sim/sim_config\<close>): the point table and the topology; the loaders of
    the two programs read the same points from the same document.
  \<^item> \<open>SimGen\<close> (\<^verbatim>\<open>sim/point_generator\<close>): the models of the devices, the overlay of faults, the alarm word. A
    tick publishes for every slave, of each kind, the values of its model with the faults on top.
  \<^item> \<open>SimEndToEnd\<close>: a generated value, encoded by the simulator and polled by the program, is read back
    within the step of its register.
  \<^item> \<open>Scenario\<close> (\<^verbatim>\<open>sim/scenario_script\<close>): scripts of drills; every due event fires once, whatever the
    times at which the script is driven.
  \<^item> \<open>SimEngine\<close> (\<^verbatim>\<open>sim/SimulatorEngine\<close>, the life of \<^verbatim>\<open>sim/modbus_slave_emulator\<close>): start with each of its
    failures, stop, the passes of the tick thread and commands, as a step relation with its invariant; the
    drill an engine is started with comes to its verdict.

  \<^bold>\<open>Recursion and bounds.\<close> Loops of the code are structural recursions or functions with a proof of
  termination; the only counted recursions are those the code itself bounds. Assumptions of size
  are part of the statements: delays of the channel up to \<open>2 ^ 30\<close> ms (beyond, the code's \<open>int\<close> overflows when
  it doubles), polling intervals whose triple is an \<open>int\<close>, fewer than \<open>2 ^ 31\<close> passes of a drill, at most
  \<open>65535\<close> requests in flight.

  \<^bold>\<open>Not modelled.\<close> The rest of the widgets of both programs (\<^verbatim>\<open>ui/\<close>, \<^verbatim>\<open>gui/\<close>) and their entry points, which wire
  events and draw; the platform's memory maps, sockets, threads and the opening of serial ports, whose
  outcomes are arguments; the interleaving of memory accesses inside one operation of the ring buffer;
  printed messages and the diagnostic counters of debug builds; the chart library, the generated files and
  the tests.
\<close>

end
